(* ===== verification/Prelude.thy ===== *)
theory Prelude
  imports Main "HOL-Library.Word" "HOL-Library.Monad_Syntax"
begin

text \<open>
  Shared vocabulary of the development: names for the machine integers of the C sources, the
  big-endian accessors the network code writes out by hand, C arrays as lists, and the generic
  lemmas and lemma collections the component theories use.
\<close>

unbundle bit_operations_syntax

section \<open>Machine integers\<close>

type_synonym u8 = "8 word"
type_synonym u16 = "16 word"
type_synonym u32 = "32 word"

named_theorems unat_simps \<open>facts that move a word computation to natural numbers\<close>
named_theorems frame_simps \<open>record fields an operation leaves alone\<close>
named_theorems inv_intros \<open>preservation of a component's invariant by its operations\<close>

lemma unat_lt_32 [simp]: "unat (x :: u32) < 4294967296"
  using unsigned_less [of x] by simp

lemma unat_lt_16 [simp]: "unat (x :: u16) < 65536"
  using unsigned_less [of x] by simp

lemma unat_lt_8 [simp]: "unat (x :: u8) < 256"
  using unsigned_less [of x] by simp

lemma unat_plus_32 [unat_simps]:
  "unat ((x :: u32) + y) = (unat x + unat y) mod 4294967296"
  by (simp add: unat_word_ariths)

lemma unat_plus_nowrap:
  "unat (x :: u32) + unat y < 4294967296 \<Longrightarrow> unat (x + y) = unat x + unat y"
  by (simp add: unat_plus_32)

lemma unat_minus_nowrap:
  "unat (y :: u32) \<le> unat x \<Longrightarrow> unat (x - y) = unat x - unat y"
  by (simp add: unat_sub word_le_nat_alt)

text \<open>Clearing the low bits, as \<open>x & ~(align - 1)\<close> does for a power of two.\<close>

lemma and_not_mask_push:
  "(x :: 'a::len word) AND NOT (mask n) = push_bit n (drop_bit n x)"
  by (auto intro!: bit_word_eqI simp: bit_simps)

lemma unat_and_not_mask:
  "unat ((x :: 'a::len word) AND NOT (mask n)) = unat x div 2 ^ n * 2 ^ n"
proof -
  have "push_bit n (drop_bit n x) + take_bit n x = x"
    by (simp add: bits_ident)
  then have "push_bit n (drop_bit n x) = x - take_bit n x"
    by (simp add: eq_diff_eq)
  moreover have "unat (take_bit n x) = unat x mod 2 ^ n"
    by (simp only: unsigned_take_bit_eq) (simp add: take_bit_eq_mod)
  moreover have "unat (take_bit n x) \<le> unat x"
    by (simp add: \<open>unat (take_bit n x) = unat x mod 2 ^ n\<close>)
  ultimately show ?thesis
    by (simp add: and_not_mask_push unat_sub word_le_nat_alt minus_mod_eq_div_mult)
qed

section \<open>C arrays as lists\<close>

text \<open>An array element changed in place by a function of its old value.\<close>

definition upd_nth :: "nat \<Rightarrow> ('a \<Rightarrow> 'a) \<Rightarrow> 'a list \<Rightarrow> 'a list" where
  "upd_nth i f xs = xs[i := f (xs ! i)]"

lemma length_upd_nth [simp]: "length (upd_nth i f xs) = length xs"
  by (simp add: upd_nth_def)

lemma nth_upd_nth [simp]:
  "i < length xs \<Longrightarrow> upd_nth i f xs ! j = (if i = j then f (xs ! i) else xs ! j)"
  by (simp add: upd_nth_def nth_list_update)

lemma nth_upd_nth_other [simp]: "i \<noteq> j \<Longrightarrow> upd_nth i f xs ! j = xs ! j"
  by (simp add: upd_nth_def)

section \<open>Searching a list\<close>

lemma find_split:
  "List.find P xs = Some x \<Longrightarrow> \<exists>ys zs. xs = ys @ x # zs \<and> P x \<and> (\<forall>y \<in> set ys. \<not> P y)"
proof (induction xs)
  case (Cons a xs)
  show ?case
  proof (cases "P a")
    case True
    with Cons.prems show ?thesis by (intro exI [of _ "[]"] exI [of _ xs]) auto
  next
    case False
    with Cons obtain ys zs where "xs = ys @ x # zs" "P x" "\<forall>y \<in> set ys. \<not> P y" by auto
    with False show ?thesis by (intro exI [of _ "a # ys"] exI [of _ zs]) auto
  qed
qed simp

lemma find_None: "List.find P xs = None \<Longrightarrow> x \<in> set xs \<Longrightarrow> \<not> P x"
  by (auto simp: find_None_iff)

section \<open>Lists of options\<close>

lemma those_eq_Some: "those xs = Some ys \<longleftrightarrow> xs = map Some ys"
proof (induction xs arbitrary: ys)
  case (Cons x xs)
  show ?case
    using Cons.IH by (cases ys) (auto split: option.splits)
qed auto

lemma those_map_agree:
  assumes "\<And>i. i < n \<Longrightarrow> \<exists>p. g i = Some p \<and> h i = Some p"
  shows "\<exists>ps. those (map g [0..<n]) = Some ps \<and> those (map h [0..<n]) = Some ps"
proof -
  have "map g [0..<n] = map Some (map (the \<circ> g) [0..<n])"
    using assms by (force simp: map_eq_conv)
  moreover have "map h [0..<n] = map Some (map (the \<circ> g) [0..<n])"
    using assms by (force simp: map_eq_conv)
  ultimately show ?thesis by (metis those_eq_Some)
qed

lemma those_map_mono:
  assumes "those (map g [0..<n]) = Some ps"
    and "\<And>i p. i < n \<Longrightarrow> g i = Some p \<Longrightarrow> h i = Some p"
  shows "those (map h [0..<n]) = Some ps"
proof -
  have *: "map g [0..<n] = map Some ps" using assms(1) by (simp add: those_eq_Some)
  have len: "length ps = n" using arg_cong [OF *, of length] by simp
  have "g i = Some (ps ! i)" if "i < n" for i
    using arg_cong [OF *, of "\<lambda>l. l ! i"] that len by simp
  then have "map h [0..<n] = map Some ps"
    using assms(2) len by (intro nth_equalityI) simp_all
  then show ?thesis by (simp add: those_eq_Some)
qed

end
