(* ===== verification/Queue.thy ===== *)
theory Queue
  imports Prelude
begin

text \<open>
  Bounded first-in first-out queues: the contract every ring buffer of the system is held to
  (mailboxes, the keyboard event queue, the serial port's queues, unacknowledged port sends), the
  facts that follow from it alone, and the index arithmetic the rings share.
\<close>

section \<open>The contract\<close>

datatype 'a queue_op = Push 'a | Pop

text \<open>
  A run of operations against a queue, with what was accepted and what was delivered.
\<close>

fun queue_run ::
  "('a \<Rightarrow> 'q \<Rightarrow> 'q option) \<Rightarrow> ('q \<Rightarrow> ('a \<times> 'q) option) \<Rightarrow> 'a queue_op list \<Rightarrow> 'q \<Rightarrow>
   'a list \<times> 'a list \<times> 'q" where
  "queue_run push pop [] q = ([], [], q)"
| "queue_run push pop (Push x # ops) q =
     (case push x q of
        None \<Rightarrow> queue_run push pop ops q
      | Some q' \<Rightarrow> (case queue_run push pop ops q' of (acc, out, q'') \<Rightarrow> (x # acc, out, q'')))"
| "queue_run push pop (Pop # ops) q =
     (case pop q of
        None \<Rightarrow> queue_run push pop ops q
      | Some (x, q') \<Rightarrow> (case queue_run push pop ops q' of (acc, out, q'') \<Rightarrow> (acc, x # out, q'')))"

locale bounded_queue =
  fixes push :: "'a \<Rightarrow> 'q \<Rightarrow> 'q option"
    and pop :: "'q \<Rightarrow> ('a \<times> 'q) option"
    and contents :: "'q \<Rightarrow> 'a list"
    and qinv :: "'q \<Rightarrow> bool"
    and depth :: nat
  assumes bounded: "qinv q \<Longrightarrow> length (contents q) \<le> depth"
    and push_full: "qinv q \<Longrightarrow> length (contents q) = depth \<Longrightarrow> push x q = None"
    and push_room: "qinv q \<Longrightarrow> length (contents q) < depth \<Longrightarrow>
      \<exists>q'. push x q = Some q' \<and> qinv q' \<and> contents q' = contents q @ [x]"
    and pop_empty: "qinv q \<Longrightarrow> contents q = [] \<Longrightarrow> pop q = None"
    and pop_front: "qinv q \<Longrightarrow> contents q = x # xs \<Longrightarrow>
      \<exists>q'. pop q = Some (x, q') \<and> qinv q' \<and> contents q' = xs"
begin

lemma push_cases:
  assumes "qinv q"
  shows "(length (contents q) = depth \<and> push x q = None) \<or>
    (\<exists>q'. length (contents q) < depth \<and> push x q = Some q' \<and> qinv q' \<and> contents q' = contents q @ [x])"
  using bounded [OF assms] push_full [OF assms] push_room [OF assms] by (meson le_eq_less_or_eq)

lemma push_None: "qinv q \<Longrightarrow> push x q = None \<longleftrightarrow> length (contents q) = depth"
  using push_cases [of q x] by fastforce

lemma push_Some: "qinv q \<Longrightarrow> push x q = Some q' \<Longrightarrow> qinv q' \<and> contents q' = contents q @ [x]"
  using push_cases [of q x] by fastforce

lemma pop_None: "qinv q \<Longrightarrow> pop q = None \<longleftrightarrow> contents q = []"
  by (cases "contents q") (auto simp: pop_empty dest: pop_front)

lemma pop_Some: "qinv q \<Longrightarrow> pop q = Some (x, q') \<Longrightarrow> qinv q' \<and> contents q = x # contents q'"
  by (cases "contents q") (auto simp: pop_empty dest: pop_front)

text \<open>
  Whatever is pushed and popped in whatever order, what was in the queue and what was accepted is
  exactly what was delivered and what is left, in order.
\<close>

lemma run_fifo:
  "qinv q \<Longrightarrow> queue_run push pop ops q = (acc, out, q') \<Longrightarrow>
   contents q @ acc = out @ contents q' \<and> qinv q'"
proof (induction ops arbitrary: q acc out)
  case (Cons op ops)
  show ?case
  proof (cases op)
    case (Push x)
    with Cons show ?thesis
      by (fastforce split: option.splits prod.splits dest: push_Some)
  next
    case Pop
    with Cons show ?thesis
      by (fastforce split: option.splits prod.splits dest: pop_Some)
  qed
qed simp

end

section \<open>Rings\<close>

text \<open>The \<open>n\<close> elements of a ring of \<open>N\<close> slots that start at slot \<open>h\<close>.\<close>

definition ring_list :: "nat \<Rightarrow> 'a list \<Rightarrow> nat \<Rightarrow> nat \<Rightarrow> 'a list" where
  "ring_list N buf h n = map (\<lambda>i. buf ! ((h + i) mod N)) [0..<n]"

lemma length_ring_list [simp]: "length (ring_list N buf h n) = n"
  by (simp add: ring_list_def)

lemma ring_list_0 [simp]: "ring_list N buf h 0 = []"
  by (simp add: ring_list_def)

lemma ring_list_Suc: "ring_list N buf h (Suc n) = buf ! (h mod N) # ring_list N buf (Suc h mod N) n"
proof (rule nth_equalityI)
  fix i assume "i < length (ring_list N buf h (Suc n))"
  then show "ring_list N buf h (Suc n) ! i =
      (buf ! (h mod N) # ring_list N buf (Suc h mod N) n) ! i"
    by (cases i) (simp_all add: ring_list_def mod_simps del: upt_Suc)
qed simp

lemma ring_slot_less: "i < j \<Longrightarrow> j < N \<Longrightarrow> (h + i) mod N \<noteq> (h + j) mod (N :: nat)"
proof
  assume ij: "i < j" "j < N" and eq: "(h + i) mod N = (h + j) mod N"
  have "h + i \<le> h + j" using ij by simp
  with eq have "N dvd (h + j) - (h + i)" by (metis mod_eq_dvd_iff_nat)
  then have "N dvd j - i" by simp
  with ij have "N \<le> j - i" by (intro dvd_imp_le) auto
  with ij show False by simp
qed

lemma ring_slot_inj: "i < N \<Longrightarrow> j < N \<Longrightarrow> i \<noteq> j \<Longrightarrow> (h + i) mod N \<noteq> (h + j) mod (N :: nat)"
  using ring_slot_less [of i j N h] ring_slot_less [of j i N h] by (metis nat_neq_iff)

lemma ring_list_push:
  assumes "n < N" "length buf = N"
  shows "ring_list N (buf[(h + n) mod N := x]) h (Suc n) = ring_list N buf h n @ [x]"
proof -
  have "(buf[(h + n) mod N := x]) ! ((h + i) mod N) = buf ! ((h + i) mod N)" if "i < n" for i
    using ring_slot_inj [of n N i h] that assms by (intro nth_list_update_neq) auto
  moreover have "(h + n) mod N < length buf" using assms by simp
  ultimately show ?thesis
    by (simp add: ring_list_def)
qed

section \<open>Rings with byte indices and one free slot\<close>

text \<open>
  The event queue and the queues of the serial port are arrays with two byte-sized indices, equal
  when the ring is empty; the next index is computed modulo the size of the array and then cut to a
  byte. \<open>M\<close> is the size of the array.
\<close>

record 'a byte_ring =
  r_buf :: "'a list"
  r_head :: u8
  r_tail :: u8

definition next_ix :: "nat \<Rightarrow> u8 \<Rightarrow> u8" where
  "next_ix M i = of_nat ((unat i + 1) mod M)"

definition ring_push :: "nat \<Rightarrow> 'a \<Rightarrow> 'a byte_ring \<Rightarrow> 'a byte_ring option" where
  "ring_push M x r =
     (if next_ix M (r_head r) = r_tail r then None
      else Some (r\<lparr>r_buf := (r_buf r)[unat (r_head r) := x], r_head := next_ix M (r_head r)\<rparr>))"

definition ring_pop :: "nat \<Rightarrow> 'a byte_ring \<Rightarrow> ('a \<times> 'a byte_ring) option" where
  "ring_pop M r =
     (if r_head r = r_tail r then None
      else Some (r_buf r ! unat (r_tail r), r\<lparr>r_tail := next_ix M (r_tail r)\<rparr>))"

text \<open>
  \<open>N\<close> is the number of slots the indices really range over: a byte never reaches the upper half of
  an array of 512.
\<close>

definition ring_count :: "nat \<Rightarrow> 'a byte_ring \<Rightarrow> nat" where
  "ring_count N r = (unat (r_head r) + N - unat (r_tail r)) mod N"

definition ring_contents :: "nat \<Rightarrow> 'a byte_ring \<Rightarrow> 'a list" where
  "ring_contents N r = ring_list N (take N (r_buf r)) (unat (r_tail r)) (ring_count N r)"

definition ring_inv :: "nat \<Rightarrow> nat \<Rightarrow> 'a byte_ring \<Rightarrow> bool" where
  "ring_inv M N r \<longleftrightarrow> length (r_buf r) = M \<and> unat (r_head r) < N \<and> unat (r_tail r) < N"

definition ring_size :: "nat \<Rightarrow> nat \<Rightarrow> bool" where
  "ring_size M N \<longleftrightarrow> 0 < N \<and> N \<le> M \<and> (\<forall>i :: u8. unat i < N \<longrightarrow> unat (next_ix M i) = (unat i + 1) mod N)"

lemma ring_size_32: "ring_size 32 32"
  by (simp add: ring_size_def next_ix_def unat_of_nat mod_less_divisor order_less_trans [OF mod_less_divisor])

lemma ring_size_512: "ring_size 512 256"
  by (simp add: ring_size_def next_ix_def unat_of_nat mod_mod_cancel)

lemma count_cases:
  assumes "(h :: nat) < N" "t < N"
  shows "(h + N - t) mod N = (if t \<le> h then h - t else h + N - t)"
  using assms by (auto simp: le_mod_geq)

lemma ring_head_slot: "ring_inv M N r \<Longrightarrow> (unat (r_tail r) + ring_count N r) mod N = unat (r_head r)"
  by (auto simp: ring_inv_def ring_count_def count_cases)

lemma ring_push_None_iff:
  assumes "ring_size M N" "ring_inv M N r"
  shows "ring_push M x r = None \<longleftrightarrow> ring_count N r = N - 1"
proof -
  have "unat (next_ix M (r_head r)) = (unat (r_head r) + 1) mod N"
    using assms by (simp add: ring_size_def ring_inv_def)
  moreover have "(unat (r_head r) + 1) mod N = unat (r_tail r) \<longleftrightarrow> ring_count N r = N - 1"
    using assms(2) by (auto simp: ring_inv_def ring_count_def count_cases mod_Suc)
  ultimately show ?thesis by (simp add: ring_push_def word_unat_eq_iff)
qed

lemma ring_push_ok:
  assumes "ring_size M N" "ring_inv M N r" "ring_count N r < N - 1"
  shows "\<exists>r'. ring_push M x r = Some r' \<and> ring_inv M N r' \<and> ring_contents N r' = ring_contents N r @ [x]"
proof -
  let ?r' = "r\<lparr>r_buf := (r_buf r)[unat (r_head r) := x], r_head := next_ix M (r_head r)\<rparr>"
  have h: "unat (next_ix M (r_head r)) = (unat (r_head r) + 1) mod N" and N: "0 < N" "N \<le> M"
    using assms(1,2) by (simp_all add: ring_size_def ring_inv_def)
  have push: "ring_push M x r = Some ?r'"
    using ring_push_None_iff [OF assms(1,2), of x] assms(3) by (auto simp: ring_push_def split: if_splits)
  have inv: "ring_inv M N ?r'" using assms(2) h N by (simp add: ring_inv_def)
  have cnt: "ring_count N ?r' = Suc (ring_count N r)"
    using assms(2,3) h by (auto simp: ring_inv_def ring_count_def count_cases mod_Suc split: if_splits)
  have slot: "(unat (r_tail r) + ring_count N r) mod N = unat (r_head r)" by (rule ring_head_slot [OF assms(2)])
  have "length (take N (r_buf r)) = N" "take N ((r_buf r)[unat (r_head r) := x]) = (take N (r_buf r))[unat (r_head r) := x]"
    using assms(2) N by (simp_all add: ring_inv_def take_update_swap)
  then have "ring_contents N ?r' = ring_contents N r @ [x]"
    using ring_list_push [of "ring_count N r" N "take N (r_buf r)" "unat (r_tail r)" x] assms(3) cnt slot
    by (simp add: ring_contents_def)
  with push inv show ?thesis by blast
qed

lemma ring_pop_ok:
  assumes "ring_size M N" "ring_inv M N r" "ring_contents N r = x # xs"
  shows "\<exists>r'. ring_pop M r = Some (x, r') \<and> ring_inv M N r' \<and> ring_contents N r' = xs"
proof -
  let ?r' = "r\<lparr>r_tail := next_ix M (r_tail r)\<rparr>"
  have t: "unat (next_ix M (r_tail r)) = (unat (r_tail r) + 1) mod N" and N: "0 < N" "N \<le> M"
    using assms(1,2) by (simp_all add: ring_size_def ring_inv_def)
  obtain n where n: "ring_count N r = Suc n" using assms(3) by (cases "ring_count N r") (auto simp: ring_contents_def)
  then have ne: "r_head r \<noteq> r_tail r" using N by (auto simp: ring_count_def)
  have inv: "ring_inv M N ?r'" using assms(2) t N by (simp add: ring_inv_def)
  have cnt: "ring_count N ?r' = n"
    using assms(2) t n by (auto simp: ring_inv_def ring_count_def count_cases mod_Suc split: if_splits)
  have tl: "unat (r_tail r) < N" using assms(2) by (simp add: ring_inv_def)
  have "x = r_buf r ! unat (r_tail r)" "xs = ring_list N (take N (r_buf r)) (unat (next_ix M (r_tail r))) n"
    using assms(3) n tl by (simp_all add: ring_contents_def ring_list_Suc t)
  with ne inv cnt show ?thesis by (simp add: ring_pop_def ring_contents_def)
qed

lemma ring_queue:
  assumes "ring_size M N"
  shows "bounded_queue (ring_push M) (ring_pop M) (ring_contents N) (ring_inv M N) (N - 1)"
proof
  fix r :: "'a byte_ring" and x :: 'a and xs :: "'a list"
  assume inv: "ring_inv M N r"
  have len: "length (ring_contents N r) = ring_count N r" by (simp add: ring_contents_def)
  show "length (ring_contents N r) \<le> N - 1"
  proof -
    have "ring_count N r < N" using assms by (simp add: ring_count_def ring_size_def)
    with len show ?thesis by linarith
  qed
  show "ring_push M x r = None" if "length (ring_contents N r) = N - 1"
    using that ring_push_None_iff [OF assms inv] len by simp
  show "\<exists>r'. ring_push M x r = Some r' \<and> ring_inv M N r' \<and> ring_contents N r' = ring_contents N r @ [x]"
    if "length (ring_contents N r) < N - 1"
    using that ring_push_ok [OF assms inv] len by simp
  show "ring_pop M r = None" if "ring_contents N r = []"
  proof -
    have "ring_count N r = 0" using that len by simp
    with ring_head_slot [OF inv] inv show ?thesis
      by (simp add: ring_pop_def ring_inv_def word_unat_eq_iff)
  qed
  show "\<exists>r'. ring_pop M r = Some (x, r') \<and> ring_inv M N r' \<and> ring_contents N r' = xs"
    if "ring_contents N r = x # xs"
    using ring_pop_ok [OF assms inv that] .
qed

end
