(* ===== verification/Proc.thy ===== *)
theory Proc
  imports Prelude
begin

text \<open>
  The process table (\<open>src/sw/os/kernel.h\<close>, \<open>kernel.c\<close>): one record per process slot, the flag
  bits, and the operations that only read or set a slot. A slot is free when its base is zero.
\<close>

abbreviation Z_PROCS_MAX :: nat where "Z_PROCS_MAX \<equiv> 16"

abbreviation Z_OK :: u32 where "Z_OK \<equiv> 0"
abbreviation Z_FAIL :: u32 where "Z_FAIL \<equiv> 1"

abbreviation Z_PROC_FLAG_ACTIVE :: u32 where "Z_PROC_FLAG_ACTIVE \<equiv> 1"
abbreviation Z_PROC_FLAG_DIE :: u32 where "Z_PROC_FLAG_DIE \<equiv> 2"

record z_proc =
  p_base :: u32
  p_size :: u32
  p_flags :: u32
  p_regs :: "u32 list"

definition proc_active :: "z_proc \<Rightarrow> bool" where
  "proc_active p \<longleftrightarrow> p_flags p AND Z_PROC_FLAG_ACTIVE = Z_PROC_FLAG_ACTIVE"

definition proc_dying :: "z_proc \<Rightarrow> bool" where
  "proc_dying p \<longleftrightarrow> p_flags p AND Z_PROC_FLAG_DIE = Z_PROC_FLAG_DIE"

definition k_proc_start :: "u32 \<Rightarrow> z_proc list \<Rightarrow> z_proc list" where
  "k_proc_start pid ps = upd_nth (unat pid) (\<lambda>p. p\<lparr>p_flags := p_flags p OR Z_PROC_FLAG_ACTIVE\<rparr>) ps"

definition k_proc_stop :: "u32 \<Rightarrow> z_proc list \<Rightarrow> z_proc list" where
  "k_proc_stop pid ps =
     upd_nth (unat pid) (\<lambda>p. p\<lparr>p_flags := p_flags p AND NOT Z_PROC_FLAG_ACTIVE\<rparr>) ps"

definition k_proc_kill :: "u32 \<Rightarrow> z_proc list \<Rightarrow> u32 \<times> z_proc list" where
  "k_proc_kill pid ps =
     (if unat pid \<ge> Z_PROCS_MAX then (Z_FAIL, ps)
      else (Z_OK, upd_nth (unat pid) (\<lambda>p. p\<lparr>p_flags := p_flags p OR Z_PROC_FLAG_DIE\<rparr>) ps))"

definition k_proc_base :: "u32 \<Rightarrow> z_proc list \<Rightarrow> u32" where
  "k_proc_base pid ps = p_base (ps ! unat pid)"

definition k_proc_active_count :: "z_proc list \<Rightarrow> nat" where
  "k_proc_active_count ps = length (filter (\<lambda>i. proc_active (ps ! i)) [0..<Z_PROCS_MAX])"

lemma length_k_proc_start [simp]: "length (k_proc_start pid ps) = length ps"
  by (simp add: k_proc_start_def)

lemma length_k_proc_stop [simp]: "length (k_proc_stop pid ps) = length ps"
  by (simp add: k_proc_stop_def)

lemma length_k_proc_kill [simp]: "length (snd (k_proc_kill pid ps)) = length ps"
  by (simp add: k_proc_kill_def)

text \<open>The two flag bits do not interfere.\<close>

lemma flag_bits:
  "(f OR Z_PROC_FLAG_ACTIVE) AND Z_PROC_FLAG_ACTIVE = (Z_PROC_FLAG_ACTIVE :: u32)"
  "(f OR Z_PROC_FLAG_DIE) AND Z_PROC_FLAG_DIE = (Z_PROC_FLAG_DIE :: u32)"
  "(f OR Z_PROC_FLAG_ACTIVE) AND Z_PROC_FLAG_DIE = f AND Z_PROC_FLAG_DIE"
  "(f OR Z_PROC_FLAG_DIE) AND Z_PROC_FLAG_ACTIVE = f AND Z_PROC_FLAG_ACTIVE"
  by (simp_all add: bit.conj_disj_distrib2)

lemma proc_active_stopped: "\<not> proc_active (p\<lparr>p_flags := f AND NOT Z_PROC_FLAG_ACTIVE\<rparr>)"
  by (simp add: proc_active_def and.assoc)

end
