(* ===== verification/Mem.thy ===== *)
theory Mem
  imports Prelude
begin

text \<open>
  The kernel's memory allocator (\<open>src/sw/os/mem.c\<close>, \<open>mem.h\<close>): a singly linked list of block
  descriptors taken from a fixed pool of \<open>Z_MEM_MAX_BLOCKS\<close> entries. Descriptors are kept as the
  code keeps them, in an array, linked through the index of the next one; the loops that follow
  the links may not end on a cyclic list, so they are partial functions into \<^typ>\<open>'a option\<close>
  and \<open>None\<close> is ``does not return''.

  The second half states what the allocator promises: the descriptors tile the managed range, and
  allocation and release are the first-fit operations on the list of regions.
\<close>

section \<open>State\<close>

abbreviation Z_MEM_BASE :: u32 where "Z_MEM_BASE \<equiv> 0x40000000"
abbreviation Z_MEM_MAX_BLOCKS :: nat where "Z_MEM_MAX_BLOCKS \<equiv> 256"
abbreviation Z_MEM_ALIGNMENT :: u32 where "Z_MEM_ALIGNMENT \<equiv> 4096"
abbreviation Z_MEM_MIN_BLOCK_SIZE :: u32 where "Z_MEM_MIN_BLOCK_SIZE \<equiv> 32768"

record k_mem_block =
  blk_start :: u32
  blk_size :: u32
  blk_used :: bool
  blk_next :: "nat option"

text \<open>
  \<open>block_list\<close> is the head of the list, \<open>mem_blocks\<close> the pool and \<open>mem_block_count\<close> how many of
  its entries have been handed out.
\<close>

record k_mem =
  block_list :: "nat option"
  mem_blocks :: "k_mem_block list"
  mem_block_count :: nat

section \<open>Operations\<close>

definition alloc_metadata :: "k_mem \<Rightarrow> (nat \<times> k_mem) option" where
  "alloc_metadata st =
     (if mem_block_count st \<ge> Z_MEM_MAX_BLOCKS then None
      else Some (mem_block_count st, st\<lparr>mem_block_count := mem_block_count st + 1\<rparr>))"

definition k_mem_align_up :: "u32 \<Rightarrow> u32 \<Rightarrow> u32" where
  "k_mem_align_up val align = (val + align - 1) AND NOT (align - 1)"

definition upd_blk :: "nat \<Rightarrow> (k_mem_block \<Rightarrow> k_mem_block) \<Rightarrow> k_mem \<Rightarrow> k_mem" where
  "upd_blk i f st = st\<lparr>mem_blocks := upd_nth i f (mem_blocks st)\<rparr>"

abbreviation blk_at :: "k_mem \<Rightarrow> nat \<Rightarrow> k_mem_block" where
  "blk_at st i \<equiv> mem_blocks st ! i"

text \<open>\<open>k_mem_init\<close> takes the first descriptor of the emptied pool; it cannot fail.\<close>

definition k_mem_init :: "u32 \<Rightarrow> k_mem \<Rightarrow> k_mem" where
  "k_mem_init total_size st =
     (case alloc_metadata (st\<lparr>mem_block_count := 0\<rparr>) of
        None \<Rightarrow> st
      | Some (first, st1) \<Rightarrow>
          (upd_blk first (\<lambda>_. \<lparr>blk_start = Z_MEM_BASE, blk_size = total_size,
                              blk_used = False, blk_next = None\<rparr>) st1)
          \<lparr>block_list := Some first\<rparr>)"

text \<open>
  The part of \<open>k_mem_alloc\<close> after a block that fits has been found: a free block in front of it
  for the alignment padding, a free block behind it for the rest, each only when a descriptor is
  left in the pool (\<open>return NULL\<close> otherwise, with what was done so far kept).
\<close>

definition alloc_split :: "u32 \<Rightarrow> nat \<Rightarrow> k_mem \<Rightarrow> u32 option \<times> k_mem" where
  "alloc_split req b st =
     (if blk_size (blk_at st b) > req then
        (case alloc_metadata st of
           None \<Rightarrow> (None, st)
         | Some (rem, st1) \<Rightarrow>
             let blk = blk_at st1 b;
                 st2 = upd_blk rem (\<lambda>_. \<lparr>blk_start = blk_start blk + req,
                                        blk_size = blk_size blk - req,
                                        blk_used = False, blk_next = blk_next blk\<rparr>) st1;
                 st3 = upd_blk b (\<lambda>k. k\<lparr>blk_next := Some rem, blk_size := req\<rparr>) st2;
                 st4 = upd_blk b (\<lambda>k. k\<lparr>blk_used := True\<rparr>) st3
             in (Some (blk_start (blk_at st4 b)), st4))
      else
        let st1 = upd_blk b (\<lambda>k. k\<lparr>blk_used := True\<rparr>) st
        in (Some (blk_start (blk_at st1 b)), st1))"

definition alloc_take ::
  "u32 \<Rightarrow> nat option \<Rightarrow> nat \<Rightarrow> u32 \<Rightarrow> u32 \<Rightarrow> k_mem \<Rightarrow> u32 option \<times> k_mem" where
  "alloc_take req prev b aligned_start padding st =
     (if padding > 0 then
        (case alloc_metadata st of
           None \<Rightarrow> (None, st)
         | Some (pre, st1) \<Rightarrow>
             let st2 = upd_blk pre (\<lambda>_. \<lparr>blk_start = blk_start (blk_at st1 b), blk_size = padding,
                                        blk_used = False, blk_next = Some b\<rparr>) st1;
                 st3 = (case prev of
                          Some p \<Rightarrow> upd_blk p (\<lambda>k. k\<lparr>blk_next := Some pre\<rparr>) st2
                        | None \<Rightarrow> st2\<lparr>block_list := Some pre\<rparr>);
                 st4 = upd_blk b (\<lambda>k. k\<lparr>blk_start := aligned_start,
                                       blk_size := blk_size k - padding\<rparr>) st3
             in alloc_split req b st4)
      else alloc_split req b st)"

partial_function (option) alloc_loop ::
  "u32 \<Rightarrow> nat option \<Rightarrow> nat option \<Rightarrow> k_mem \<Rightarrow> (u32 option \<times> k_mem) option" where
  "alloc_loop req prev blk st =
     (case blk of
        None \<Rightarrow> Some (None, st)
      | Some b \<Rightarrow>
          (let k = blk_at st b;
               aligned_start = k_mem_align_up (blk_start k) Z_MEM_ALIGNMENT;
               padding = aligned_start - blk_start k;
               total_required = req + padding
           in if \<not> blk_used k \<and> blk_size k \<ge> total_required
              then Some (alloc_take req prev b aligned_start padding st)
              else alloc_loop req (Some b) (blk_next k) st))"

definition req_size :: "u32 \<Rightarrow> u32" where
  "req_size size0 =
     (let s = k_mem_align_up size0 Z_MEM_ALIGNMENT
      in if s < Z_MEM_MIN_BLOCK_SIZE then Z_MEM_MIN_BLOCK_SIZE else s)"

definition k_mem_alloc :: "u32 \<Rightarrow> k_mem \<Rightarrow> (u32 option \<times> k_mem) option" where
  "k_mem_alloc size0 st = alloc_loop (req_size size0) None (block_list st) st"

text \<open>
  \<open>k_mem_free\<close>: the block found is released, then joined with a free successor, then with a free
  predecessor. Descriptors that drop out of the list are not given back to the pool.
\<close>

definition free_block :: "nat option \<Rightarrow> nat \<Rightarrow> k_mem \<Rightarrow> k_mem" where
  "free_block prev b st =
     (let st1 = upd_blk b (\<lambda>k. k\<lparr>blk_used := False\<rparr>) st;
          st2 = (case blk_next (blk_at st1 b) of
                   Some n \<Rightarrow>
                     if \<not> blk_used (blk_at st1 n)
                     then upd_blk b (\<lambda>k. k\<lparr>blk_size := blk_size k + blk_size (blk_at st1 n),
                                          blk_next := blk_next (blk_at st1 n)\<rparr>) st1
                     else st1
                 | None \<Rightarrow> st1)
      in (case prev of
            Some p \<Rightarrow>
              if \<not> blk_used (blk_at st2 p)
              then upd_blk p (\<lambda>k. k\<lparr>blk_size := blk_size k + blk_size (blk_at st2 b),
                                   blk_next := blk_next (blk_at st2 b)\<rparr>) st2
              else st2
          | None \<Rightarrow> st2))"

partial_function (option) free_loop ::
  "u32 \<Rightarrow> nat option \<Rightarrow> nat option \<Rightarrow> k_mem \<Rightarrow> k_mem option" where
  "free_loop addr prev blk st =
     (case blk of
        None \<Rightarrow> Some st
      | Some b \<Rightarrow>
          if blk_used (blk_at st b) \<and> blk_start (blk_at st b) = addr
          then Some (free_block prev b st)
          else free_loop addr (Some b) (blk_next (blk_at st b)) st)"

definition k_mem_free :: "u32 \<Rightarrow> k_mem \<Rightarrow> k_mem option" where
  "k_mem_free addr st = free_loop addr None (block_list st) st"

text \<open>The figures \<open>k_mem_dump\<close> prints, before their conversion to text.\<close>

record mem_stats =
  st_total :: u32
  st_used :: u32
  st_largest_free :: u32
  st_used_blocks :: nat
  st_free_blocks :: nat

definition dump_step :: "k_mem_block \<Rightarrow> mem_stats \<Rightarrow> mem_stats" where
  "dump_step k s =
     (let s1 = s\<lparr>st_total := st_total s + blk_size k\<rparr>
      in if blk_used k
         then s1\<lparr>st_used := st_used s1 + blk_size k, st_used_blocks := st_used_blocks s1 + 1\<rparr>
         else let s2 = s1\<lparr>st_free_blocks := st_free_blocks s1 + 1\<rparr>
              in if blk_size k > st_largest_free s2
                 then s2\<lparr>st_largest_free := blk_size k\<rparr> else s2)"

partial_function (option) dump_loop :: "nat option \<Rightarrow> k_mem \<Rightarrow> mem_stats \<Rightarrow> mem_stats option" where
  "dump_loop blk st s =
     (case blk of
        None \<Rightarrow> Some s
      | Some b \<Rightarrow> dump_loop (blk_next (blk_at st b)) st (dump_step (blk_at st b) s))"

definition k_mem_dump :: "k_mem \<Rightarrow> mem_stats option" where
  "k_mem_dump st =
     dump_loop (block_list st) st
       \<lparr>st_total = 0, st_used = 0, st_largest_free = 0, st_used_blocks = 0, st_free_blocks = 0\<rparr>"

section \<open>Regions: what the descriptors stand for\<close>

text \<open>
  A region is a start address, a size and whether it is in use, as natural numbers. The list is
  read off by following the links; a well-formed list has at most as many elements as the pool.
\<close>

type_synonym region = "nat \<times> nat \<times> bool"

fun ids_of :: "nat \<Rightarrow> nat option \<Rightarrow> k_mem_block list \<Rightarrow> nat list" where
  "ids_of 0 p bs = []"
| "ids_of (Suc n) None bs = []"
| "ids_of (Suc n) (Some i) bs = i # ids_of n (blk_next (bs ! i)) bs"

definition region_of :: "k_mem_block \<Rightarrow> region" where
  "region_of k = (unat (blk_start k), unat (blk_size k), blk_used k)"

definition mem_ids :: "k_mem \<Rightarrow> nat list" where
  "mem_ids st = ids_of Z_MEM_MAX_BLOCKS (block_list st) (mem_blocks st)"

definition regions :: "k_mem \<Rightarrow> region list" where
  "regions st = map (\<lambda>i. region_of (blk_at st i)) (mem_ids st)"

fun head_free :: "region list \<Rightarrow> bool" where
  "head_free [] = False"
| "head_free ((s, z, u) # rs) = (\<not> u)"

text \<open>
  The regions tile the range from \<open>lo\<close> to \<open>hi\<close> without gap or overlap, start on the allocation
  grid and are not empty; and no two neighbours are both free.
\<close>

fun tiles :: "nat \<Rightarrow> nat \<Rightarrow> region list \<Rightarrow> bool" where
  "tiles lo hi [] = (lo = hi)"
| "tiles lo hi ((s, z, u) # rs) = (s = lo \<and> 0 < z \<and> 4096 dvd s \<and> tiles (lo + z) hi rs)"

fun no_adj :: "region list \<Rightarrow> bool" where
  "no_adj [] = True"
| "no_adj ((s, z, u) # rs) = ((u \<or> \<not> head_free rs) \<and> no_adj rs)"

fun seg :: "k_mem_block list \<Rightarrow> nat option \<Rightarrow> nat list \<Rightarrow> nat option \<Rightarrow> bool" where
  "seg bs p [] q = (p = q)"
| "seg bs p (i # is) q = (p = Some i \<and> seg bs (blk_next (bs ! i)) is q)"

text \<open>
  \<open>linked ids st\<close>: following the links visits exactly the descriptors \<open>ids\<close>, all handed out, none
  twice. The invariant adds that their regions tile the managed range and are coalesced.
\<close>

definition linked :: "nat list \<Rightarrow> k_mem \<Rightarrow> bool" where
  "linked ids st \<longleftrightarrow>
     length (mem_blocks st) = Z_MEM_MAX_BLOCKS \<and> mem_block_count st \<le> Z_MEM_MAX_BLOCKS \<and>
     seg (mem_blocks st) (block_list st) ids None \<and> distinct ids \<and>
     (\<forall>i \<in> set ids. i < mem_block_count st)"

definition mem_inv :: "nat \<Rightarrow> k_mem \<Rightarrow> bool" where
  "mem_inv hi st \<longleftrightarrow>
     linked (mem_ids st) st \<and> hi \<le> 4294967296 \<and>
     tiles (unat Z_MEM_BASE) hi (regions st) \<and> no_adj (regions st)"

section \<open>First fit on regions\<close>

fun ff_alloc :: "bool \<Rightarrow> nat \<Rightarrow> region list \<Rightarrow> nat option \<times> region list" where
  "ff_alloc d n [] = (None, [])"
| "ff_alloc d n ((s, z, u) # rs) =
     (if \<not> u \<and> n \<le> z then
        (if n < z then
           (if d then (Some s, (s, n, True) # (s + n, z - n, False) # rs)
            else (None, (s, z, u) # rs))
         else (Some s, (s, z, True) # rs))
      else (let (r, rs') = ff_alloc d n rs in (r, (s, z, u) # rs')))"

definition join_next :: "region \<Rightarrow> region list \<Rightarrow> region list" where
  "join_next r rs =
     (case rs of
        [] \<Rightarrow> [r]
      | (s', z', u') # rs' \<Rightarrow>
          if u' then r # rs else (fst r, fst (snd r) + z', snd (snd r)) # rs')"

text \<open>Release marks the region; coalescing then joins every run of free neighbours.\<close>

fun release :: "nat \<Rightarrow> region list \<Rightarrow> region list" where
  "release a [] = []"
| "release a ((s, z, u) # rs) =
     (if u \<and> s = a then (s, z, False) # rs else (s, z, u) # release a rs)"

fun coalesce :: "region list \<Rightarrow> region list" where
  "coalesce [] = []"
| "coalesce ((s, z, u) # rs) =
     (if u then (s, z, u) # coalesce rs else join_next (s, z, u) (coalesce rs))"

definition ff_free :: "nat \<Rightarrow> region list \<Rightarrow> region list" where
  "ff_free a rs = coalesce (release a rs)"

section \<open>Facts about regions\<close>

lemma ff_alloc_none [simp]: "fst (ff_alloc d n rs) = None \<Longrightarrow> snd (ff_alloc d n rs) = rs"
  by (induction d n rs rule: ff_alloc.induct) (auto split: if_splits prod.splits)

lemma ff_alloc_head_free: "head_free (snd (ff_alloc d n rs)) \<Longrightarrow> head_free rs"
  by (cases rs) (auto split: if_splits prod.splits)

lemma ff_alloc_tiles:
  "tiles lo hi rs \<Longrightarrow> 0 < n \<Longrightarrow> 4096 dvd n \<Longrightarrow> tiles lo hi (snd (ff_alloc d n rs))"
  by (induction d n rs arbitrary: lo rule: ff_alloc.induct) (auto split: if_splits prod.splits)

lemma ff_alloc_no_adj: "no_adj rs \<Longrightarrow> no_adj (snd (ff_alloc d n rs))"
proof (induction d n rs rule: ff_alloc.induct)
  case (2 d n s z u rs)
  then show ?case
    using ff_alloc_head_free [of d n rs] by (auto split: prod.splits)
qed simp

lemma join_next_tiles:
  "tiles lo hi (r # rs) \<Longrightarrow> tiles lo hi (join_next r rs)"
  by (cases r) (auto simp: join_next_def add.assoc split: list.splits)

lemma release_tiles: "tiles lo hi rs \<Longrightarrow> tiles lo hi (release a rs)"
  by (induction a rs arbitrary: lo rule: release.induct) auto

lemma coalesce_tiles: "tiles lo hi rs \<Longrightarrow> tiles lo hi (coalesce rs)"
  by (induction rs arbitrary: lo rule: coalesce.induct) (auto intro: join_next_tiles)

lemma coalesce_no_adj: "no_adj (coalesce rs)"
  by (induction rs rule: coalesce.induct) (auto simp: join_next_def split: list.splits)

lemma coalesce_id: "no_adj rs \<Longrightarrow> coalesce rs = rs"
  by (induction rs rule: coalesce.induct) (auto simp: join_next_def split: list.splits)

lemma coalesce_nonempty: "coalesce rs = [] \<longleftrightarrow> rs = []"
  by (induction rs rule: coalesce.induct) (auto simp: join_next_def split: list.splits)

lemma join_next_append: "rs \<noteq> [] \<Longrightarrow> join_next r (rs @ rs') = join_next r rs @ rs'"
  by (auto simp: join_next_def neq_Nil_conv)

lemma coalesce_append:
  "xs = [] \<or> snd (snd (last xs)) \<Longrightarrow> coalesce (xs @ rs) = coalesce xs @ coalesce rs"
  by (induction xs rule: coalesce.induct)
     (auto simp: join_next_append coalesce_nonempty split: if_splits)

lemma no_adj_append_left: "no_adj (xs @ ys) \<Longrightarrow> no_adj xs"
  by (induction xs rule: no_adj.induct) (auto, metis append_Cons head_free.elims(2) head_free.simps(2))

lemma no_adj_append_right: "no_adj (xs @ ys) \<Longrightarrow> no_adj ys"
  by (induction xs rule: no_adj.induct) auto

section \<open>Following the links\<close>

lemma seg_append: "seg bs p (xs @ ys) q \<longleftrightarrow> (\<exists>m. seg bs p xs m \<and> seg bs m ys q)"
  by (induction xs arbitrary: p) auto

lemma seg_cong:
  "(\<And>i. i \<in> set ids \<Longrightarrow> blk_next (bs' ! i) = blk_next (bs ! i)) \<Longrightarrow> seg bs' p ids q = seg bs p ids q"
  by (induction ids arbitrary: p) auto

lemma ids_of_seg: "seg bs p ids None \<Longrightarrow> length ids \<le> n \<Longrightarrow> ids_of n p bs = ids"
proof (induction ids arbitrary: p n)
  case Nil
  then show ?case by (cases n) auto
next
  case (Cons i ids)
  then show ?case by (cases n) auto
qed

lemma distinct_bounded_length: "distinct ids \<Longrightarrow> \<forall>i \<in> set ids. i < n \<Longrightarrow> length ids \<le> n"
  using card_mono [of "{..<n}" "set ids"] by (auto simp: distinct_card subset_iff)

lemma linked_ids: "linked ids st \<Longrightarrow> mem_ids st = ids"
proof -
  assume l: "linked ids st"
  then have "length ids \<le> mem_block_count st"
    by (auto simp: linked_def intro: distinct_bounded_length)
  with l show ?thesis
    by (auto simp: linked_def mem_ids_def intro!: ids_of_seg)
qed

lemma mem_invI:
  "linked ids st \<Longrightarrow> hi \<le> 4294967296 \<Longrightarrow> tiles (unat Z_MEM_BASE) hi (regions st) \<Longrightarrow>
   no_adj (regions st) \<Longrightarrow> mem_inv hi st"
  by (simp add: mem_inv_def linked_ids)

lemma regions_linked: "linked ids st \<Longrightarrow> regions st = map (\<lambda>i. region_of (blk_at st i)) ids"
  by (simp add: regions_def linked_ids)

lemma regions_split:
  "mem_ids st = xs @ i # ys \<Longrightarrow>
   regions st = map (\<lambda>i. region_of (blk_at st i)) xs @ region_of (blk_at st i) #
                map (\<lambda>i. region_of (blk_at st i)) ys"
  by (simp add: regions_def)

lemma blk_at_upd [simp]:
  "i < length (mem_blocks st) \<Longrightarrow>
   blk_at (upd_blk i f st) j = (if i = j then f (blk_at st i) else blk_at st j)"
  by (simp add: upd_blk_def)

lemma upd_blk_frame [frame_simps, simp]:
  "block_list (upd_blk i f st) = block_list st"
  "mem_block_count (upd_blk i f st) = mem_block_count st"
  "length (mem_blocks (upd_blk i f st)) = length (mem_blocks st)"
  by (simp_all add: upd_blk_def)

lemma linked_lt: "linked ids st \<Longrightarrow> i \<in> set ids \<Longrightarrow> i < length (mem_blocks st)"
  by (auto simp: linked_def)

text \<open>An update that leaves every link alone keeps the list.\<close>

lemma linked_upd:
  assumes "linked ids st" "i < length (mem_blocks st)"
    and "i \<in> set ids \<Longrightarrow> blk_next (f (blk_at st i)) = blk_next (blk_at st i)"
  shows "linked ids (upd_blk i f st)"
proof -
  have "seg (mem_blocks (upd_blk i f st)) p js q = seg (mem_blocks st) p js q"
    if "set js \<subseteq> set ids" for p js q
    using that assms(2,3) by (intro seg_cong) (auto simp: subset_iff)
  with assms(1) show ?thesis by (simp add: linked_def)
qed

text \<open>A fresh descriptor \<open>n\<close> linked in behind \<open>i\<close>.\<close>

lemma linked_insert:
  assumes l: "linked (xs @ i # ys) st" and n: "n = mem_block_count st" "n < Z_MEM_MAX_BLOCKS"
    and st': "length (mem_blocks st') = Z_MEM_MAX_BLOCKS" "mem_block_count st' = n + 1"
      "block_list st' = block_list st"
    and i: "blk_next (blk_at st' i) = Some n" and nn: "blk_next (blk_at st' n) = blk_next (blk_at st i)"
    and other: "\<And>j. j \<noteq> i \<Longrightarrow> j \<noteq> n \<Longrightarrow> blk_next (blk_at st' j) = blk_next (blk_at st j)"
  shows "linked (xs @ i # n # ys) st'"
proof -
  have lt: "\<forall>j \<in> set (xs @ i # ys). j < n" and d: "distinct (xs @ i # ys)"
    using l n by (auto simp: linked_def)
  have same: "seg (mem_blocks st') p js q = seg (mem_blocks st) p js q"
    if "i \<notin> set js" "n \<notin> set js" for p js q
    using that other by (intro seg_cong) metis
  have "seg (mem_blocks st) (block_list st) (xs @ i # ys) None"
    using l by (simp add: linked_def)
  moreover have "i \<notin> set xs" "n \<notin> set xs" "i \<notin> set ys" "n \<notin> set ys"
    using d lt by auto
  ultimately have "seg (mem_blocks st') (block_list st') (xs @ i # n # ys) None"
    by (auto simp: seg_append same i nn st'(3))
  then show ?thesis
    using d lt n st' by (auto simp: linked_def less_Suc_eq)
qed

text \<open>Descriptor \<open>j\<close> unlinked from behind \<open>i\<close>: the step both joins of \<open>k_mem_free\<close> make.\<close>

definition absorb :: "nat \<Rightarrow> nat \<Rightarrow> k_mem \<Rightarrow> k_mem" where
  "absorb i j st =
     upd_blk i (\<lambda>k. k\<lparr>blk_size := blk_size k + blk_size (blk_at st j),
                      blk_next := blk_next (blk_at st j)\<rparr>) st"

lemma absorb_frame [frame_simps, simp]:
  "block_list (absorb i j st) = block_list st"
  "mem_block_count (absorb i j st) = mem_block_count st"
  "length (mem_blocks (absorb i j st)) = length (mem_blocks st)"
  by (simp_all add: absorb_def)

lemma blk_at_absorb [simp]:
  "i < length (mem_blocks st) \<Longrightarrow>
   blk_at (absorb i j st) m =
     (if i = m then (blk_at st i)\<lparr>blk_size := blk_size (blk_at st i) + blk_size (blk_at st j),
                                  blk_next := blk_next (blk_at st j)\<rparr>
      else blk_at st m)"
  by (simp add: absorb_def)

lemma linked_absorb:
  assumes l: "linked (xs @ i # j # ys) st"
  shows "linked (xs @ i # ys) (absorb i j st)"
proof -
  have i: "i < length (mem_blocks st)" by (rule linked_lt [OF l]) simp
  have d: "distinct (xs @ i # j # ys)" using l by (simp add: linked_def)
  have same: "seg (mem_blocks (absorb i j st)) p js q = seg (mem_blocks st) p js q"
    if "i \<notin> set js" for p js q
    using that i by (intro seg_cong) auto
  have "i \<notin> set xs" "i \<notin> set ys" using d by auto
  moreover have "blk_next (blk_at (absorb i j st) i) = blk_next (blk_at st j)"
    using i by simp
  moreover have "seg (mem_blocks st) (block_list st) (xs @ i # j # ys) None"
    using l by (simp add: linked_def)
  ultimately have "seg (mem_blocks (absorb i j st)) (block_list (absorb i j st)) (xs @ i # ys) None"
    by (auto simp: seg_append same)
  then show ?thesis
    using l by (auto simp: linked_def)
qed

section \<open>Allocation refines first fit\<close>

lemma align_up_4096: "unat (k_mem_align_up v 4096) = (unat v + 4095) mod 4294967296 div 4096 * 4096"
proof -
  have "k_mem_align_up v 4096 = (v + 4095) AND NOT (mask 12)"
    by (simp add: k_mem_align_up_def mask_eq_exp_minus_1 add.commute)
  then show ?thesis
    by (simp add: unat_and_not_mask unat_simps)
qed

lemma align_up_aligned:
  assumes "4096 dvd unat v"
  shows "k_mem_align_up v 4096 = v"
proof -
  obtain k where k: "unat v = 4096 * k" using assms by (auto simp: dvd_def)
  have "unat v < 4294967296" by simp
  with k have "k < 1048576" by simp
  then have "(4096 * k + 4095) mod 4294967296 = 4096 * k + 4095" by simp
  with k have "unat (k_mem_align_up v 4096) = unat v"
    by (simp add: align_up_4096)
  then show ?thesis by (simp only: word_unat_eq_iff)
qed

lemma req_size_pos: "32768 \<le> unat (req_size n)"
  by (auto simp: req_size_def Let_def word_less_nat_alt)

lemma req_size_dvd: "4096 dvd unat (req_size n)"
  by (auto simp: req_size_def Let_def align_up_4096)

lemma req_size_ge: "unat n \<le> 4294963200 \<Longrightarrow> unat n \<le> unat (req_size n)"
  by (auto simp: req_size_def Let_def align_up_4096 word_less_nat_alt)

definition fits :: "u32 \<Rightarrow> k_mem_block \<Rightarrow> bool" where
  "fits req k \<longleftrightarrow> \<not> blk_used k \<and> req \<le> blk_size k"

lemma alloc_loop_find:
  "seg (mem_blocks st) p ids None \<Longrightarrow> \<forall>i \<in> set ids. 4096 dvd unat (blk_start (blk_at st i)) \<Longrightarrow>
   alloc_loop req prev p st =
     Some (case List.find (\<lambda>i. fits req (blk_at st i)) ids of
             None \<Rightarrow> (None, st) | Some b \<Rightarrow> alloc_split req b st)"
proof (induction ids arbitrary: p prev)
  case Nil
  then show ?case by (simp add: alloc_loop.simps)
next
  case (Cons i ids)
  then show ?case
    by (subst alloc_loop.simps)
       (auto simp: Let_def align_up_aligned alloc_take_def fits_def split: option.splits)
qed

lemma tiles_aligned: "tiles lo hi rs \<Longrightarrow> r \<in> set rs \<Longrightarrow> 4096 dvd fst r"
  by (induction rs arbitrary: lo rule: coalesce.induct) auto

lemma tiles_le: "tiles lo hi rs \<Longrightarrow> lo \<le> hi"
  by (induction rs arbitrary: lo rule: coalesce.induct) fastforce+

lemma tiles_member: "tiles lo hi rs \<Longrightarrow> (s, z, u) \<in> set rs \<Longrightarrow> lo \<le> s \<and> s + z \<le> hi \<and> 0 < z"
  by (induction rs arbitrary: lo rule: coalesce.induct) (auto dest: tiles_le, fastforce)

text \<open>The effect of \<open>alloc_split\<close> on a linked list, and its regions.\<close>

lemma alloc_split_whole:
  assumes "linked (xs @ b # ys) st" "blk_size (blk_at st b) = req"
  shows "\<exists>st'. alloc_split req b st = (Some (blk_start (blk_at st b)), st') \<and>
    linked (xs @ b # ys) st' \<and> mem_block_count st' = mem_block_count st \<and>
    blk_at st' b = (blk_at st b)\<lparr>blk_used := True\<rparr> \<and>
    (\<forall>j. j \<noteq> b \<longrightarrow> blk_at st' j = blk_at st j)"
proof -
  have b: "b < length (mem_blocks st)" using assms(1) by (rule linked_lt) simp
  have "linked (xs @ b # ys) (upd_blk b (blk_used_update (\<lambda>_. True)) st)"
    by (rule linked_upd [OF assms(1) b]) simp
  with b assms(2) show ?thesis by (auto simp: alloc_split_def)
qed

lemma alloc_split_part:
  assumes l: "linked (xs @ b # ys) st" and lt: "req < blk_size (blk_at st b)"
    and n: "n = mem_block_count st" "n < Z_MEM_MAX_BLOCKS"
  shows "\<exists>st'. alloc_split req b st = (Some (blk_start (blk_at st b)), st') \<and>
    linked (xs @ b # n # ys) st' \<and> mem_block_count st' = n + 1 \<and>
    blk_at st' b = (blk_at st b)\<lparr>blk_used := True, blk_size := req, blk_next := Some n\<rparr> \<and>
    blk_at st' n = \<lparr>blk_start = blk_start (blk_at st b) + req,
                    blk_size = blk_size (blk_at st b) - req, blk_used = False,
                    blk_next = blk_next (blk_at st b)\<rparr> \<and>
    (\<forall>j. j \<noteq> b \<longrightarrow> j \<noteq> n \<longrightarrow> blk_at st' j = blk_at st j)"
proof -
  have b: "b < length (mem_blocks st)" and len: "length (mem_blocks st) = Z_MEM_MAX_BLOCKS"
    and bn: "b < n" using l n by (auto simp: linked_def)
  obtain st' where st': "alloc_split req b st = (Some (blk_start (blk_at st b)), st')"
    "length (mem_blocks st') = Z_MEM_MAX_BLOCKS" "mem_block_count st' = n + 1"
    "block_list st' = block_list st"
    "blk_at st' b = (blk_at st b)\<lparr>blk_used := True, blk_size := req, blk_next := Some n\<rparr>"
    "blk_at st' n = \<lparr>blk_start = blk_start (blk_at st b) + req,
                    blk_size = blk_size (blk_at st b) - req, blk_used = False,
                    blk_next = blk_next (blk_at st b)\<rparr>"
    "\<forall>j. j \<noteq> b \<longrightarrow> j \<noteq> n \<longrightarrow> blk_at st' j = blk_at st j"
    using lt n len bn
    by (simp add: alloc_split_def alloc_metadata_def Let_def upd_blk_def)
  have "linked (xs @ b # n # ys) st'"
    by (rule linked_insert [OF l n]) (use st' in auto)
  with st' show ?thesis by auto
qed

lemma alloc_split_fail:
  "req < blk_size (blk_at st b) \<Longrightarrow> Z_MEM_MAX_BLOCKS \<le> mem_block_count st \<Longrightarrow>
   alloc_split req b st = (None, st)"
  by (simp add: alloc_split_def alloc_metadata_def)

lemma ff_alloc_skip:
  "\<forall>(s, z, u) \<in> set rs. u \<or> z < n \<Longrightarrow>
   ff_alloc d n (rs @ rs') = (fst (ff_alloc d n rs'), rs @ snd (ff_alloc d n rs'))"
  by (induction rs) (auto split: prod.splits)

text \<open>
  Under the invariant \<open>k_mem_alloc\<close> returns, keeps the invariant, and on regions is first fit with
  the rounded request, failing also when a split needs a descriptor and the pool is exhausted.
\<close>

lemma regions_aligned:
  "mem_inv hi st \<Longrightarrow> \<forall>i \<in> set (mem_ids st). 4096 dvd unat (blk_start (blk_at st i))"
proof
  fix i assume inv: "mem_inv hi st" and "i \<in> set (mem_ids st)"
  then have "region_of (blk_at st i) \<in> set (regions st)" by (auto simp: regions_def)
  with inv have "4096 dvd fst (region_of (blk_at st i))"
    unfolding mem_inv_def by (blast dest: tiles_aligned)
  then show "4096 dvd unat (blk_start (blk_at st i))" by (simp add: region_of_def)
qed

lemma map_region_cong:
  "(\<And>i. i \<in> set zs \<Longrightarrow> blk_at st' i = blk_at st i) \<Longrightarrow>
   map (\<lambda>i. region_of (blk_at st' i)) zs = map (\<lambda>i. region_of (blk_at st i)) zs"
  by (intro map_cong) auto

lemma alloc_split_whole_regions:
  assumes l: "linked (xs @ b # ys) st" and eq: "blk_size (blk_at st b) = req"
  shows "\<exists>st'. alloc_split req b st = (Some (blk_start (blk_at st b)), st') \<and>
    linked (xs @ b # ys) st' \<and>
    regions st' = map (\<lambda>i. region_of (blk_at st i)) xs @
      (unat (blk_start (blk_at st b)), unat (blk_size (blk_at st b)), True) #
      map (\<lambda>i. region_of (blk_at st i)) ys"
proof -
  from alloc_split_whole [OF l eq] obtain st' where st':
    "alloc_split req b st = (Some (blk_start (blk_at st b)), st')"
    "linked (xs @ b # ys) st'" "blk_at st' b = (blk_at st b)\<lparr>blk_used := True\<rparr>"
    "\<forall>j. j \<noteq> b \<longrightarrow> blk_at st' j = blk_at st j" by blast
  have "b \<notin> set xs" "b \<notin> set ys" using l by (auto simp: linked_def)
  with st'(4) have "map (\<lambda>i. region_of (blk_at st' i)) xs = map (\<lambda>i. region_of (blk_at st i)) xs"
    "map (\<lambda>i. region_of (blk_at st' i)) ys = map (\<lambda>i. region_of (blk_at st i)) ys"
    by (intro map_region_cong; metis)+
  with st' show ?thesis by (auto simp: regions_linked [OF st'(2)] region_of_def)
qed

lemma alloc_split_part_regions:
  assumes l: "linked (xs @ b # ys) st" and lt: "req < blk_size (blk_at st b)"
    and n: "mem_block_count st < Z_MEM_MAX_BLOCKS"
    and nowrap: "unat (blk_start (blk_at st b)) + unat req < 4294967296"
  shows "\<exists>st'. alloc_split req b st = (Some (blk_start (blk_at st b)), st') \<and>
    linked (xs @ b # mem_block_count st # ys) st' \<and>
    regions st' = map (\<lambda>i. region_of (blk_at st i)) xs @
      (unat (blk_start (blk_at st b)), unat req, True) #
      (unat (blk_start (blk_at st b)) + unat req, unat (blk_size (blk_at st b)) - unat req, False) #
      map (\<lambda>i. region_of (blk_at st i)) ys"
proof -
  from alloc_split_part [OF l lt refl n] obtain st' where st':
    "alloc_split req b st = (Some (blk_start (blk_at st b)), st')"
    "linked (xs @ b # mem_block_count st # ys) st'"
    "blk_at st' b = (blk_at st b)\<lparr>blk_used := True, blk_size := req,
       blk_next := Some (mem_block_count st)\<rparr>"
    "blk_at st' (mem_block_count st) = \<lparr>blk_start = blk_start (blk_at st b) + req,
       blk_size = blk_size (blk_at st b) - req, blk_used = False,
       blk_next = blk_next (blk_at st b)\<rparr>"
    "\<forall>j. j \<noteq> b \<longrightarrow> j \<noteq> mem_block_count st \<longrightarrow> blk_at st' j = blk_at st j" by blast
  have "b \<notin> set xs" "b \<notin> set ys" "mem_block_count st \<notin> set xs" "mem_block_count st \<notin> set ys"
    using l by (auto simp: linked_def)
  with st'(5) have "map (\<lambda>i. region_of (blk_at st' i)) xs = map (\<lambda>i. region_of (blk_at st i)) xs"
    "map (\<lambda>i. region_of (blk_at st' i)) ys = map (\<lambda>i. region_of (blk_at st i)) ys"
    by (intro map_region_cong; metis)+
  moreover have "unat (blk_size (blk_at st b) - req) = unat (blk_size (blk_at st b)) - unat req"
    using lt by (intro unat_minus_nowrap) (simp add: word_less_nat_alt)
  ultimately show ?thesis
    using st' nowrap
    by (auto simp: regions_linked [OF st'(2)] region_of_def unat_plus_nowrap)
qed

lemma alloc_loop_run:
  "mem_inv hi st \<Longrightarrow>
   k_mem_alloc n st =
     Some (case List.find (\<lambda>i. fits (req_size n) (blk_at st i)) (mem_ids st) of
             None \<Rightarrow> (None, st) | Some b \<Rightarrow> alloc_split (req_size n) b st)"
  unfolding k_mem_alloc_def
  using regions_aligned by (intro alloc_loop_find) (auto simp: mem_inv_def linked_def)

lemma not_fits_skip:
  "\<forall>i \<in> set xs. \<not> fits req (blk_at st i) \<Longrightarrow>
   \<forall>(s, z, u) \<in> set (map (\<lambda>i. region_of (blk_at st i)) xs). u \<or> z < unat req"
  by (auto simp: fits_def region_of_def word_le_nat_alt)

lemma mem_inv_region_end:
  "mem_inv hi st \<Longrightarrow> i \<in> set (mem_ids st) \<Longrightarrow>
   unat (blk_start (blk_at st i)) + unat (blk_size (blk_at st i)) \<le> hi \<and> hi \<le> 4294967296"
proof -
  assume inv: "mem_inv hi st" and "i \<in> set (mem_ids st)"
  then have "region_of (blk_at st i) \<in> set (regions st)" by (auto simp: regions_def)
  with inv show ?thesis
    unfolding mem_inv_def region_of_def by (blast dest: tiles_member)
qed

lemma k_mem_alloc_regions:
  assumes inv: "mem_inv hi st"
  shows "\<exists>r st' ids. k_mem_alloc n st = Some (r, st') \<and> linked ids st' \<and>
    (map_option unat r, regions st') =
      ff_alloc (mem_block_count st < Z_MEM_MAX_BLOCKS) (unat (req_size n)) (regions st)"
    (is "\<exists>r st' ids. _ \<and> _ \<and> _ = ff_alloc ?d ?n _")
proof (cases "List.find (\<lambda>i. fits (req_size n) (blk_at st i)) (mem_ids st)")
  case None
  then have "\<forall>i \<in> set (mem_ids st). \<not> fits (req_size n) (blk_at st i)"
    by (auto dest: find_None)
  from ff_alloc_skip [OF not_fits_skip [OF this], of ?d "[]"] alloc_loop_run [OF inv, of n] None inv
  show ?thesis by (auto simp: regions_def mem_inv_def)
next
  case (Some b)
  then obtain xs ys where ids: "mem_ids st = xs @ b # ys" and fit: "fits (req_size n) (blk_at st b)"
    and no: "\<forall>i \<in> set xs. \<not> fits (req_size n) (blk_at st i)" by (auto dest!: find_split)
  have l: "linked (xs @ b # ys) st" using inv by (simp add: mem_inv_def ids)
  note run = alloc_loop_run [OF inv, of n, unfolded Some option.case]
  note rs = regions_split [OF ids] and ff = ff_alloc_skip [OF not_fits_skip [OF no]]
  have rb: "region_of (blk_at st b) = (unat (blk_start (blk_at st b)), unat (blk_size (blk_at st b)), False)"
    using fit by (simp add: region_of_def fits_def)
  consider (whole) "blk_size (blk_at st b) = req_size n"
    | (part) "req_size n < blk_size (blk_at st b)" "?d"
    | (full) "req_size n < blk_size (blk_at st b)" "\<not> ?d"
    using fit by (fastforce simp: fits_def order_le_less)
  then show ?thesis
  proof cases
    case whole
    from alloc_split_whole_regions [OF l whole] show ?thesis
      by (fastforce simp: run rs ff rb whole)
  next
    case part
    have "unat (blk_start (blk_at st b)) + ?n < 4294967296"
      using mem_inv_region_end [OF inv, of b] part(1) by (simp add: ids word_less_nat_alt)
    from alloc_split_part_regions [OF l part this] obtain st' where
      "alloc_split (req_size n) b st = (Some (blk_start (blk_at st b)), st')"
      "linked (xs @ b # mem_block_count st # ys) st'"
      "regions st' = map (\<lambda>i. region_of (blk_at st i)) xs @
        (unat (blk_start (blk_at st b)), ?n, True) #
        (unat (blk_start (blk_at st b)) + ?n, unat (blk_size (blk_at st b)) - ?n, False) #
        map (\<lambda>i. region_of (blk_at st i)) ys" by blast
    with part show ?thesis
      by (intro exI [of _ "Some (blk_start (blk_at st b))"] exI [of _ st']
          exI [of _ "xs @ b # mem_block_count st # ys"])
         (simp add: run rs ff rb word_less_nat_alt)
  next
    case full
    with l show ?thesis
      by (auto simp: run rs ff rb alloc_split_fail word_less_nat_alt)
  qed
qed

lemma ff_alloc_inv:
  "mem_inv hi st \<Longrightarrow> linked ids st' \<Longrightarrow> 0 < n \<Longrightarrow> 4096 dvd n \<Longrightarrow>
   regions st' = snd (ff_alloc d n (regions st)) \<Longrightarrow> mem_inv hi st'"
  by (rule mem_invI) (auto simp: mem_inv_def intro: ff_alloc_tiles ff_alloc_no_adj)

section \<open>Release refines mark and coalesce\<close>

definition frees :: "u32 \<Rightarrow> k_mem_block \<Rightarrow> bool" where
  "frees addr k \<longleftrightarrow> blk_used k \<and> blk_start k = addr"

text \<open>The predecessor \<open>free_loop\<close> has in hand when it reaches the end of a prefix.\<close>

definition prev_of :: "nat option \<Rightarrow> nat list \<Rightarrow> nat option" where
  "prev_of prev xs = (if xs = [] then prev else Some (last xs))"

lemma free_loop_find:
  "seg (mem_blocks st) p (xs @ b # ys) None \<Longrightarrow> \<forall>i \<in> set xs. \<not> frees addr (blk_at st i) \<Longrightarrow>
   frees addr (blk_at st b) \<Longrightarrow>
   free_loop addr prev p st = Some (free_block (prev_of prev xs) b st)"
proof (induction xs arbitrary: p prev)
  case Nil
  then show ?case by (simp add: free_loop.simps frees_def prev_of_def)
next
  case (Cons i xs)
  then show ?case
    by (subst free_loop.simps) (auto simp: frees_def prev_of_def)
qed

lemma free_loop_none:
  "seg (mem_blocks st) p ids None \<Longrightarrow> \<forall>i \<in> set ids. \<not> frees addr (blk_at st i) \<Longrightarrow>
   free_loop addr prev p st = Some st"
proof (induction ids arbitrary: p prev)
  case Nil
  then show ?case by (simp add: free_loop.simps)
next
  case (Cons i ids)
  then show ?case by (subst free_loop.simps) (auto simp: frees_def)
qed

lemma seg_next: "seg bs p (xs @ i # ys) q \<Longrightarrow> blk_next (bs ! i) = (case ys of [] \<Rightarrow> q | j # _ \<Rightarrow> Some j)"
  by (cases ys) (auto simp: seg_append)

lemma linked_next:
  "linked (xs @ i # ys) st \<Longrightarrow>
   blk_next (blk_at st i) = (case ys of [] \<Rightarrow> None | j # _ \<Rightarrow> Some j)"
  by (auto simp: linked_def dest: seg_next)

text \<open>One join, on regions. The sizes cannot wrap below the end of the range.\<close>

lemma absorb_regions:
  assumes l: "linked (xs @ i # j # ys) st"
    and nowrap: "unat (blk_size (blk_at st i)) + unat (blk_size (blk_at st j)) < 4294967296"
    and free: "\<not> blk_used (blk_at st i)" "\<not> blk_used (blk_at st j)"
  shows "regions (absorb i j st) = map (\<lambda>i. region_of (blk_at st i)) xs @
    join_next (region_of (blk_at st i)) (map (\<lambda>i. region_of (blk_at st i)) (j # ys))"
proof -
  have i: "i < length (mem_blocks st)" using l by (rule linked_lt) simp
  have "i \<notin> set xs" "i \<notin> set ys" using l by (auto simp: linked_def)
  then have "map (\<lambda>m. region_of (blk_at (absorb i j st) m)) xs = map (\<lambda>m. region_of (blk_at st m)) xs"
    "map (\<lambda>m. region_of (blk_at (absorb i j st) m)) ys = map (\<lambda>m. region_of (blk_at st m)) ys"
    using i by (intro map_region_cong; metis blk_at_absorb)+
  with i free show ?thesis
    by (simp add: regions_linked [OF linked_absorb [OF l]] region_of_def join_next_def
        unat_plus_nowrap [OF nowrap])
qed

definition mark_free :: "nat \<Rightarrow> k_mem \<Rightarrow> k_mem" where
  "mark_free b st = upd_blk b (\<lambda>k. k\<lparr>blk_used := False\<rparr>) st"

definition try_absorb :: "nat \<Rightarrow> nat option \<Rightarrow> k_mem \<Rightarrow> k_mem" where
  "try_absorb i j st =
     (case j of None \<Rightarrow> st | Some n \<Rightarrow> if blk_used (blk_at st n) then st else absorb i n st)"

lemma free_block_steps:
  "free_block prev b st =
     (let st2 = try_absorb b (blk_next (blk_at (mark_free b st) b)) (mark_free b st)
      in case prev of None \<Rightarrow> st2
         | Some p \<Rightarrow> if blk_used (blk_at st2 p) then st2 else absorb p b st2)"
  by (simp add: free_block_def try_absorb_def mark_free_def absorb_def Let_def split: option.splits)

lemma mark_free_linked:
  "linked (xs @ b # ys) st \<Longrightarrow> linked (xs @ b # ys) (mark_free b st)"
  unfolding mark_free_def by (rule linked_upd) (auto simp: linked_def)

lemma mark_free_at:
  "b < length (mem_blocks st) \<Longrightarrow>
   blk_at (mark_free b st) i = (if i = b then (blk_at st b)\<lparr>blk_used := False\<rparr> else blk_at st i)"
  by (simp add: mark_free_def)

text \<open>The join with the successor, whether or not it happens.\<close>

lemma try_absorb_next:
  assumes l: "linked (xs @ b # ys) st" and free: "\<not> blk_used (blk_at st b)"
    and nowrap: "\<And>j zs. ys = j # zs \<Longrightarrow>
      unat (blk_size (blk_at st b)) + unat (blk_size (blk_at st j)) < 4294967296"
  shows "\<exists>zs. linked (xs @ b # zs) (try_absorb b (blk_next (blk_at st b)) st) \<and>
    regions (try_absorb b (blk_next (blk_at st b)) st) = map (\<lambda>i. region_of (blk_at st i)) xs @
      join_next (region_of (blk_at st b)) (map (\<lambda>i. region_of (blk_at st i)) ys)"
proof (cases ys)
  case Nil
  with linked_next [OF l] l show ?thesis
    by (auto simp: try_absorb_def regions_linked join_next_def)
next
  case (Cons j zs)
  note next' = linked_next [OF l, unfolded Cons list.case]
  show ?thesis
  proof (cases "blk_used (blk_at st j)")
    case True
    with l Cons next' show ?thesis
      by (auto simp: try_absorb_def regions_linked [OF l] join_next_def region_of_def)
  next
    case False
    note l' = l [unfolded Cons]
    from linked_absorb [OF l'] absorb_regions [OF l' nowrap [OF Cons] free False] False next' Cons
    show ?thesis by (auto simp: try_absorb_def)
  qed
qed

lemma tiles_append: "tiles lo hi (xs @ ys) \<longleftrightarrow> (\<exists>m. tiles lo m xs \<and> tiles m hi ys)"
  by (induction xs arbitrary: lo rule: coalesce.induct) auto

lemma tiles_pair:
  "tiles lo hi (xs @ (s1, z1, u1) # (s2, z2, u2) # ys) \<Longrightarrow> lo + z1 + z2 \<le> hi"
  by (fastforce simp: tiles_append dest: tiles_le)

lemma tiles_join: "tiles lo hi (xs @ r # ys) \<Longrightarrow> tiles lo hi (xs @ join_next r ys)"
  by (auto simp: tiles_append intro: join_next_tiles)

lemma tiles_mark:
  "tiles lo hi (xs @ (s, z, u) # ys) \<Longrightarrow> tiles lo hi (xs @ (s, z, u') # ys)"
  by (auto simp: tiles_append)

lemma release_first:
  "\<forall>(s, z, u) \<in> set R. \<not> (u \<and> s = a) \<Longrightarrow>
   release a (R @ (a, z, True) # Y) = R @ (a, z, False) # Y"
  by (induction a R rule: release.induct) auto

lemma release_none: "\<forall>(s, z, u) \<in> set R. \<not> (u \<and> s = a) \<Longrightarrow> release a R = R"
  by (induction a R rule: release.induct) auto

lemma coalesce_freed:
  assumes "no_adj (R @ (s, z, True) # Y)"
  shows "coalesce (R @ (s, z, False) # Y) =
    (if R = [] \<or> snd (snd (last R)) then R @ join_next (s, z, False) Y
     else butlast R @ join_next (last R) (join_next (s, z, False) Y))"
proof -
  have Y: "coalesce Y = Y" and R: "coalesce R = R"
    using assms no_adj_append_left [OF assms] no_adj_append_right [OF assms] by (auto intro: coalesce_id)
  show ?thesis
  proof (cases "R = [] \<or> snd (snd (last R))")
    case True
    with Y R show ?thesis by (simp add: coalesce_append)
  next
    case False
    then obtain R0 s0 z0 where R0: "R = R0 @ [(s0, z0, False)]"
      by (metis append_butlast_last_id prod.collapse)
    have "R0 = [] \<or> snd (snd (last R0))"
      using no_adj_append_left [OF assms] unfolding R0
      by (induction R0 rule: coalesce.induct) (auto split: if_splits)
    moreover have "coalesce R0 = R0"
      using no_adj_append_left [OF assms] unfolding R0 by (intro coalesce_id) (rule no_adj_append_left)
    ultimately show ?thesis using Y by (simp add: R0 coalesce_append)
  qed
qed

text \<open>The join with the predecessor, whether or not it happens.\<close>

lemma absorb_prev:
  assumes l: "linked (xs @ b # zs) st" and free: "\<not> blk_used (blk_at st b)"
    and rs: "regions st = R @ Y" and R: "R = map (\<lambda>i. region_of (blk_at st i)) xs"
    and t: "tiles (unat Z_MEM_BASE) hi (R @ Y)" "hi \<le> 4294967296"
  shows "\<exists>ids. linked ids (case prev_of None xs of None \<Rightarrow> st
      | Some p \<Rightarrow> if blk_used (blk_at st p) then st else absorb p b st) \<and>
    regions (case prev_of None xs of None \<Rightarrow> st
      | Some p \<Rightarrow> if blk_used (blk_at st p) then st else absorb p b st) =
    (if R = [] \<or> snd (snd (last R)) then R @ Y else butlast R @ join_next (last R) Y)"
proof (cases "xs = [] \<or> blk_used (blk_at st (last xs))")
  case True
  with l rs R show ?thesis by (auto simp: prev_of_def last_map region_of_def)
next
  case False
  then obtain xs0 p where xs: "xs = xs0 @ [p]" and p: "\<not> blk_used (blk_at st p)"
    by (metis append_butlast_last_id)
  have l': "linked (xs0 @ p # b # zs) st" using l by (simp add: xs)
  have Y: "Y = map (\<lambda>i. region_of (blk_at st i)) (b # zs)"
    using rs regions_linked [OF l] R by simp
  have "unat Z_MEM_BASE + unat (blk_size (blk_at st p)) + unat (blk_size (blk_at st b)) \<le> hi"
    by (rule tiles_pair) (use t in \<open>simp add: R Y xs region_of_def\<close>)
  with t(2) have "unat (blk_size (blk_at st p)) + unat (blk_size (blk_at st b)) < 4294967296"
    by simp
  from absorb_regions [OF l' this p free] linked_absorb [OF l'] p
  show ?thesis by (auto simp: prev_of_def xs R Y region_of_def)
qed

text \<open>Release of the block and the join with its successor.\<close>

lemma mark_absorb_next:
  assumes l: "linked (xs @ b # ys) st"
    and t: "tiles (unat Z_MEM_BASE) hi (regions st)" "hi \<le> 4294967296"
  defines "st1 \<equiv> mark_free b st"
  defines "st2 \<equiv> try_absorb b (blk_next (blk_at st1 b)) st1"
  shows "\<exists>zs. linked (xs @ b # zs) st2 \<and> \<not> blk_used (blk_at st2 b) \<and>
    map (\<lambda>i. region_of (blk_at st2 i)) xs = map (\<lambda>i. region_of (blk_at st i)) xs \<and>
    regions st2 = map (\<lambda>i. region_of (blk_at st i)) xs @
      join_next (unat (blk_start (blk_at st b)), unat (blk_size (blk_at st b)), False)
        (map (\<lambda>i. region_of (blk_at st i)) ys)"
proof -
  let ?R = "map (\<lambda>i. region_of (blk_at st i)) xs" and ?Y = "map (\<lambda>i. region_of (blk_at st i)) ys"
  have b: "b < length (mem_blocks st)" "b \<notin> set xs" "b \<notin> set ys"
    using l linked_lt [OF l, of b] by (auto simp: linked_def)
  have keep: "map (\<lambda>i. region_of (blk_at st1 i)) xs = ?R" "map (\<lambda>i. region_of (blk_at st1 i)) ys = ?Y"
    using b unfolding st1_def by (intro map_region_cong; metis mark_free_at)+
  have rb: "region_of (blk_at st1 b) =
      (unat (blk_start (blk_at st b)), unat (blk_size (blk_at st b)), False)"
    using b by (simp add: st1_def mark_free_at region_of_def)
  have nowrap: "unat (blk_size (blk_at st1 b)) + unat (blk_size (blk_at st1 j)) < 4294967296"
    if "ys = j # zs" for j zs
    using tiles_pair [of _ _ ?R] t that b
    by (fastforce simp: st1_def regions_linked [OF l] region_of_def mark_free_at)
  have l1: "linked (xs @ b # ys) st1" and free1: "\<not> blk_used (blk_at st1 b)"
    using mark_free_linked [OF l] b by (simp_all add: st1_def mark_free_at)
  obtain zs where "linked (xs @ b # zs) st2"
    "regions st2 = ?R @ join_next (region_of (blk_at st1 b)) ?Y"
    using try_absorb_next [OF l1 free1] nowrap unfolding keep st2_def by blast
  moreover have "region_of (blk_at st2 i) = region_of (blk_at st i)" if "i \<noteq> b" for i
    using that b by (simp add: st2_def st1_def try_absorb_def mark_free_def split: option.splits)
  then have "map (\<lambda>i. region_of (blk_at st2 i)) xs = ?R"
    using b(2) by (intro map_cong refl) metis
  moreover have "\<not> blk_used (blk_at st2 b)"
    using b by (simp add: st2_def st1_def try_absorb_def mark_free_def split: option.splits)
  ultimately show ?thesis by (auto simp: rb)
qed

lemma not_frees_regions:
  "\<forall>i \<in> set xs. \<not> frees a (blk_at st i) \<Longrightarrow>
   \<forall>(s, z, u) \<in> set (map (\<lambda>i. region_of (blk_at st i)) xs). \<not> (u \<and> s = unat a)"
  by (auto simp: region_of_def frees_def simp flip: word_unat_eq_iff)

lemma free_block_regions:
  assumes inv: "mem_inv hi st" and ids: "mem_ids st = xs @ b # ys"
    and hit: "frees a (blk_at st b)" and no: "\<forall>i \<in> set xs. \<not> frees a (blk_at st i)"
  shows "\<exists>ids. linked ids (free_block (prev_of None xs) b st) \<and>
    regions (free_block (prev_of None xs) b st) = ff_free (unat a) (regions st)"
proof -
  let ?R = "map (\<lambda>i. region_of (blk_at st i)) xs" and ?Y = "map (\<lambda>i. region_of (blk_at st i)) ys"
  let ?z = "unat (blk_size (blk_at st b))" and ?st1 = "mark_free b st"
  let ?st2 = "try_absorb b (blk_next (blk_at ?st1 b)) ?st1"
  have l: "linked (xs @ b # ys) st" and t: "tiles (unat Z_MEM_BASE) hi (regions st)"
    and hi: "hi \<le> 4294967296" and adj: "no_adj (regions st)"
    using inv by (simp_all add: mem_inv_def ids)
  have rs: "regions st = ?R @ (unat a, ?z, True) # ?Y"
    using regions_split [OF ids] hit by (simp add: region_of_def frees_def)
  from mark_absorb_next [OF l t hi] hit obtain zs where
    l2: "linked (xs @ b # zs) ?st2" and free2: "\<not> blk_used (blk_at ?st2 b)"
    and R2: "map (\<lambda>i. region_of (blk_at ?st2 i)) xs = ?R"
    and rs2: "regions ?st2 = ?R @ join_next (unat a, ?z, False) ?Y"
    by (auto simp: frees_def)
  have t2: "tiles (unat Z_MEM_BASE) hi (?R @ join_next (unat a, ?z, False) ?Y)"
    using t unfolding rs by (intro tiles_join) (rule tiles_mark)
  have "ff_free (unat a) (regions st) = coalesce (?R @ (unat a, ?z, False) # ?Y)"
    by (simp add: ff_free_def rs release_first [OF not_frees_regions [OF no]])
  with absorb_prev [OF l2 free2 rs2 R2 [symmetric] t2 hi] coalesce_freed [OF adj [unfolded rs]]
  show ?thesis by (simp add: free_block_steps Let_def)
qed

lemma k_mem_free_regions:
  assumes inv: "mem_inv hi st"
  shows "\<exists>st' ids. k_mem_free a st = Some st' \<and> linked ids st' \<and>
    regions st' = ff_free (unat a) (regions st)"
proof (cases "List.find (\<lambda>i. frees a (blk_at st i)) (mem_ids st)")
  case None
  then have no: "\<forall>i \<in> set (mem_ids st). \<not> frees a (blk_at st i)" by (auto dest: find_None)
  then have "ff_free (unat a) (regions st) = regions st"
    using inv not_frees_regions [OF no]
    by (simp add: ff_free_def release_none coalesce_id mem_inv_def regions_def)
  with no inv show ?thesis
    by (auto simp: k_mem_free_def mem_inv_def linked_def free_loop_none)
next
  case (Some b)
  then obtain xs ys where ids: "mem_ids st = xs @ b # ys" and hit: "frees a (blk_at st b)"
    and no: "\<forall>i \<in> set xs. \<not> frees a (blk_at st i)" by (auto dest!: find_split)
  have "k_mem_free a st = Some (free_block (prev_of None xs) b st)"
    unfolding k_mem_free_def using inv no hit
    by (intro free_loop_find) (auto simp: linked_def mem_inv_def ids)
  with free_block_regions [OF inv ids hit no] show ?thesis by blast
qed

lemma ff_free_inv:
  "mem_inv hi st \<Longrightarrow> linked ids st' \<Longrightarrow> regions st' = ff_free a (regions st) \<Longrightarrow> mem_inv hi st'"
  by (rule mem_invI) (auto simp: mem_inv_def ff_free_def coalesce_no_adj intro: coalesce_tiles release_tiles)

section \<open>The allocator's contract\<close>

text \<open>The allocations in force: start address to size.\<close>

fun live_regions :: "region list \<Rightarrow> nat \<rightharpoonup> nat" where
  "live_regions [] = Map.empty"
| "live_regions ((s, z, u) # rs) = (if u then (live_regions rs)(s \<mapsto> z) else live_regions rs)"

definition live :: "k_mem \<Rightarrow> nat \<rightharpoonup> nat" where
  "live st = live_regions (regions st)"

text \<open>
  What the kernel's process code relies on: both operations return, an allocation that succeeds is
  new and of the promised size, live allocations never overlap, and releasing one removes exactly it.
\<close>

locale allocator =
  fixes alloc :: "u32 \<Rightarrow> 'h \<Rightarrow> (u32 option \<times> 'h) option"
    and release_mem :: "u32 \<Rightarrow> 'h \<Rightarrow> 'h option"
    and live_map :: "'h \<Rightarrow> nat \<rightharpoonup> nat"
    and inv :: "'h \<Rightarrow> bool"
    and granted :: "u32 \<Rightarrow> nat"
  assumes alloc_returns: "inv h \<Longrightarrow> \<exists>r h'. alloc n h = Some (r, h')"
    and alloc_inv: "inv h \<Longrightarrow> alloc n h = Some (r, h') \<Longrightarrow> inv h'"
    and alloc_null: "inv h \<Longrightarrow> alloc n h = Some (None, h') \<Longrightarrow> live_map h' = live_map h"
    and alloc_new: "inv h \<Longrightarrow> alloc n h = Some (Some a, h') \<Longrightarrow>
      live_map h (unat a) = None \<and> live_map h' = (live_map h)(unat a \<mapsto> granted n)"
    and release_returns: "inv h \<Longrightarrow> \<exists>h'. release_mem a h = Some h'"
    and release_inv: "inv h \<Longrightarrow> release_mem a h = Some h' \<Longrightarrow> inv h'"
    and release_live: "inv h \<Longrightarrow> release_mem a h = Some h' \<Longrightarrow>
      live_map h' = (live_map h)(unat a := None)"
    and live_disjoint: "inv h \<Longrightarrow> live_map h x = Some z \<Longrightarrow> live_map h y = Some w \<Longrightarrow> x \<noteq> y \<Longrightarrow>
      x + z \<le> y \<or> y + w \<le> x"
begin

lemma alloc_apart:
  assumes "inv h" "alloc n h = Some (Some a, h')" "live_map h b = Some y"
  shows "unat a + granted n \<le> b \<or> b + y \<le> unat a"
proof -
  have new: "live_map h (unat a) = None" "live_map h' = (live_map h)(unat a \<mapsto> granted n)"
    using alloc_new [OF assms(1,2)] by auto
  with assms(3) have "unat a \<noteq> b" by auto
  with live_disjoint [OF alloc_inv [OF assms(1,2)], of "unat a" "granted n" b y] new assms(3)
  show ?thesis by auto
qed

lemma alloc_release_live:
  assumes "inv h" "alloc n h = Some (Some a, h1)" "release_mem a h1 = Some h2"
  shows "live_map h2 = live_map h"
proof -
  have "live_map h2 = (live_map h1)(unat a := None)"
    by (rule release_live [OF alloc_inv [OF assms(1,2)] assms(3)])
  with alloc_new [OF assms(1,2)] show ?thesis by (auto simp: fun_eq_iff)
qed

end

lemma live_below: "tiles lo hi rs \<Longrightarrow> a < lo \<Longrightarrow> live_regions rs a = None"
  by (induction rs arbitrary: lo rule: live_regions.induct) (auto, metis trans_less_add1)

lemma live_member: "live_regions rs a = Some z \<Longrightarrow> (a, z, True) \<in> set rs"
  by (induction rs rule: live_regions.induct) (auto split: if_splits)

lemma live_none: "live_regions rs a = None \<Longrightarrow> \<forall>(s, z, u) \<in> set rs. \<not> (u \<and> s = a)"
  by (induction rs rule: live_regions.induct) (auto split: if_splits)

lemma ff_alloc_start: "ff_alloc d n rs = (Some a, rs') \<Longrightarrow> \<exists>z. (a, z, False) \<in> set rs \<and> n \<le> z"
  by (induction d n rs arbitrary: rs' rule: ff_alloc.induct) (fastforce split: if_splits prod.splits)+

lemma ff_alloc_live:
  "tiles lo hi rs \<Longrightarrow> ff_alloc d n rs = (Some a, rs') \<Longrightarrow>
   live_regions rs a = None \<and> live_regions rs' = (live_regions rs)(a \<mapsto> n)"
proof (induction d n rs arbitrary: lo rs' rule: ff_alloc.induct)
  case (2 d n s z u rs)
  show ?case
  proof (cases "\<not> u \<and> n \<le> z")
    case True
    with 2 show ?thesis by (auto simp: live_below split: if_splits)
  next
    case False
    with "2.prems" obtain rs1 where rec: "ff_alloc d n rs = (Some a, rs1)" "rs' = (s, z, u) # rs1"
      by (auto split: prod.splits)
    from ff_alloc_start [OF rec(1)] "2.prems"(1) have "a \<noteq> s" by (auto dest: tiles_member)
    with "2.IH" [OF False, of "lo + z" rs1] "2.prems"(1) rec show ?thesis
      by (auto simp: fun_upd_twist)
  qed
qed simp

lemma live_release: "tiles lo hi rs \<Longrightarrow> live_regions (release a rs) = (live_regions rs)(a := None)"
proof (induction a rs arbitrary: lo rule: release.induct)
  case (2 a s z u rs)
  then show ?case
    using live_below [of "lo + z" hi rs lo] by (auto simp: fun_eq_iff)
qed (simp add: fun_eq_iff)

lemma live_join_next: "\<not> snd (snd r) \<Longrightarrow> live_regions (join_next r rs) = live_regions rs"
  by (cases r) (auto simp: join_next_def split: list.splits)

lemma live_coalesce: "live_regions (coalesce rs) = live_regions rs"
  by (induction rs rule: coalesce.induct) (auto simp: live_join_next)

lemma live_ff_free: "tiles lo hi rs \<Longrightarrow> live_regions (ff_free a rs) = (live_regions rs)(a := None)"
  by (simp add: ff_free_def live_coalesce live_release)

lemma live_regions_disjoint:
  "tiles lo hi rs \<Longrightarrow> live_regions rs a = Some z \<Longrightarrow> live_regions rs b = Some y \<Longrightarrow> a \<noteq> b \<Longrightarrow>
   a + z \<le> b \<or> b + y \<le> a"
proof (induction rs arbitrary: lo rule: live_regions.induct)
  case (2 s z' u rs)
  then show ?case
    by (auto dest!: live_member split: if_splits dest: tiles_member)
qed simp

lemma k_mem_alloc_cases:
  assumes inv: "mem_inv hi st" and run: "k_mem_alloc n st = Some (r, st')"
  shows "mem_inv hi st'"
    and "(map_option unat r, regions st') =
      ff_alloc (mem_block_count st < Z_MEM_MAX_BLOCKS) (unat (req_size n)) (regions st)"
proof -
  have "0 < unat (req_size n)" using req_size_pos [of n] by linarith
  moreover from k_mem_alloc_regions [OF inv, of n] run obtain ids where "linked ids st'"
    and eq: "(map_option unat r, regions st') =
      ff_alloc (mem_block_count st < Z_MEM_MAX_BLOCKS) (unat (req_size n)) (regions st)" by auto
  ultimately show "mem_inv hi st'"
    using ff_alloc_inv [OF inv, of _ _ "unat (req_size n)"] req_size_dvd by (metis snd_conv)
  show "(map_option unat r, regions st') =
      ff_alloc (mem_block_count st < Z_MEM_MAX_BLOCKS) (unat (req_size n)) (regions st)"
    by (rule eq)
qed

lemma k_mem_free_cases:
  assumes inv: "mem_inv hi st" and run: "k_mem_free a st = Some st'"
  shows "mem_inv hi st'" and "regions st' = ff_free (unat a) (regions st)"
  using k_mem_free_regions [OF inv, of a] run by (auto intro: ff_free_inv [OF inv])

interpretation kmem: allocator k_mem_alloc k_mem_free live "mem_inv hi" "\<lambda>n. unat (req_size n)"
proof unfold_locales
  fix h h' :: k_mem and n a :: u32 and r :: "u32 option" and x y z w :: nat
  assume inv: "mem_inv hi h"
  then have t: "tiles (unat Z_MEM_BASE) hi (regions h)" by (simp add: mem_inv_def)
  show "\<exists>r h'. k_mem_alloc n h = Some (r, h')" using k_mem_alloc_regions [OF inv, of n] by blast
  show "\<exists>h'. k_mem_free a h = Some h'" using k_mem_free_regions [OF inv, of a] by blast
  show "mem_inv hi h'" if "k_mem_alloc n h = Some (r, h')"
    using k_mem_alloc_cases(1) [OF inv that] .
  show "live h' = live h" if "k_mem_alloc n h = Some (None, h')"
    using k_mem_alloc_cases(2) [OF inv that] ff_alloc_none unfolding live_def
    by (metis fst_conv option.map(1) snd_conv)
  show "live h (unat a) = None \<and> live h' = (live h)(unat a \<mapsto> unat (req_size n))"
    if "k_mem_alloc n h = Some (Some a, h')"
    using ff_alloc_live [OF t k_mem_alloc_cases(2) [OF inv that, symmetric, simplified]]
    by (simp add: live_def)
  show "mem_inv hi h'" if "k_mem_free a h = Some h'"
    using k_mem_free_cases(1) [OF inv that] .
  show "live h' = (live h)(unat a := None)" if "k_mem_free a h = Some h'"
    using k_mem_free_cases(2) [OF inv that] live_ff_free [OF t] by (simp add: live_def)
  show "x + z \<le> y \<or> y + w \<le> x" if "live h x = Some z" "live h y = Some w" "x \<noteq> y"
    using live_regions_disjoint [OF t] that by (simp add: live_def)
qed

section \<open>Start-up, and runs of requests\<close>

lemma k_mem_init_linked: "length (mem_blocks st) = Z_MEM_MAX_BLOCKS \<Longrightarrow> linked [0] (k_mem_init tot st)"
  by (auto simp: k_mem_init_def alloc_metadata_def linked_def upd_blk_def)

lemma k_mem_init_regions:
  "length (mem_blocks st) = Z_MEM_MAX_BLOCKS \<Longrightarrow>
   regions (k_mem_init tot st) = [(unat Z_MEM_BASE, unat tot, False)]"
  by (simp add: regions_linked [OF k_mem_init_linked])
     (simp add: k_mem_init_def alloc_metadata_def upd_blk_def region_of_def)

lemma k_mem_init_count [simp]:
  "length (mem_blocks st) = Z_MEM_MAX_BLOCKS \<Longrightarrow> mem_block_count (k_mem_init tot st) = 1"
  by (simp add: k_mem_init_def alloc_metadata_def upd_blk_def)

lemma k_mem_init_inv:
  "length (mem_blocks st) = Z_MEM_MAX_BLOCKS \<Longrightarrow> 0 < tot \<Longrightarrow> tot \<le> 0xC0000000 \<Longrightarrow>
   mem_inv (unat Z_MEM_BASE + unat tot) (k_mem_init tot st)"
  by (rule mem_invI [OF k_mem_init_linked])
     (simp_all add: k_mem_init_regions word_less_nat_alt word_le_nat_alt)

datatype mem_op = Alloc u32 | Free u32

fun mem_run :: "mem_op list \<Rightarrow> k_mem \<Rightarrow> k_mem option" where
  "mem_run [] st = Some st"
| "mem_run (Alloc n # ops) st = k_mem_alloc n st \<bind> (\<lambda>(r, st'). mem_run ops st')"
| "mem_run (Free a # ops) st = k_mem_free a st \<bind> mem_run ops"

lemma mem_run_inv: "mem_inv hi st \<Longrightarrow> \<exists>st'. mem_run ops st = Some st' \<and> mem_inv hi st'"
proof (induction ops arbitrary: st)
  case (Cons op ops)
  show ?case
  proof (cases op)
    case (Alloc n)
    with Cons kmem.alloc_returns [OF Cons.prems, of n] show ?thesis
      by (force dest: kmem.alloc_inv)
  next
    case (Free a)
    with Cons kmem.release_returns [OF Cons.prems, of a] show ?thesis
      by (force dest: kmem.release_inv)
  qed
qed simp

lemma mem_run_append: "mem_run (xs @ ys) st = mem_run xs st \<bind> mem_run ys"
  by (induction xs st rule: mem_run.induct) (auto simp: Option.bind_assoc split: Option.bind_splits)

text \<open>Releasing a block just allocated gives back the same regions: the split is undone.\<close>

lemma ff_free_alloc:
  "tiles lo hi rs \<Longrightarrow> no_adj rs \<Longrightarrow> ff_alloc d n rs = (Some a, rs') \<Longrightarrow> ff_free a rs' = rs"
proof (induction d n rs arbitrary: lo rs' rule: ff_alloc.induct)
  case (2 d n s z u rs)
  show ?case
  proof (cases "\<not> u \<and> n \<le> z")
    case True
    with 2 have "\<not> head_free rs" "coalesce rs = rs" by (auto intro: coalesce_id)
    with True "2.prems"(3) show ?thesis
      by (auto simp: ff_free_def join_next_def split: if_splits list.splits)
  next
    case False
    with "2.prems" obtain rs1 where rec: "ff_alloc d n rs = (Some a, rs1)" "rs' = (s, z, u) # rs1"
      by (auto split: prod.splits)
    from ff_alloc_start [OF rec(1)] "2.prems"(1) have "a \<noteq> s" by (auto dest: tiles_member)
    moreover have "ff_free a rs1 = rs"
      using "2.IH" [OF False, of "lo + z" rs1] "2.prems" rec by simp
    ultimately show ?thesis
      using "2.prems"(2) rec by (auto simp: ff_free_def join_next_def split: list.splits)
  qed
qed simp

text \<open>Descriptors are only ever taken: \<open>k_mem_free\<close> leaves the pool's count alone.\<close>

lemma free_block_count: "mem_block_count (free_block p b st) = mem_block_count st"
  by (simp add: free_block_def Let_def split: option.splits)

lemma k_mem_free_count:
  assumes "mem_inv hi st" "k_mem_free a st = Some st'"
  shows "mem_block_count st' = mem_block_count st"
proof (cases "List.find (\<lambda>i. frees a (blk_at st i)) (mem_ids st)")
  case None
  then have "\<forall>i \<in> set (mem_ids st). \<not> frees a (blk_at st i)" by (auto dest: find_None)
  with assms show ?thesis
    by (auto simp: k_mem_free_def mem_inv_def linked_def free_loop_none)
next
  case (Some b)
  then obtain xs ys where "mem_ids st = xs @ b # ys" "frees a (blk_at st b)"
    "\<forall>i \<in> set xs. \<not> frees a (blk_at st i)" by (auto dest!: find_split)
  with assms free_loop_find [of st "block_list st" xs b ys a None] show ?thesis
    by (auto simp: k_mem_free_def mem_inv_def linked_def free_block_count)
qed

section \<open>Properties\<close>

text \<open>The pool before boot, for concrete runs: one megabyte of memory, as on the smallest board.\<close>

definition blank_mem :: k_mem where
  "blank_mem = \<lparr>block_list = None,
     mem_blocks = replicate Z_MEM_MAX_BLOCKS
       \<lparr>blk_start = 0, blk_size = 0, blk_used = False, blk_next = None\<rparr>,
     mem_block_count = 0\<rparr>"

lemma length_blank_mem [simp]: "length (mem_blocks blank_mem) = Z_MEM_MAX_BLOCKS"
  by (simp add: blank_mem_def)

definition boot_mem :: k_mem where
  "boot_mem = k_mem_init 0x100000 blank_mem"

lemma boot_mem_facts:
  "mem_inv 0x40100000 boot_mem" "regions boot_mem = [(0x40000000, 0x100000, False)]"
  "mem_block_count boot_mem = 1"
  using k_mem_init_inv [of blank_mem "0x100000"] k_mem_init_regions [of blank_mem "0x100000"]
    k_mem_init_count [of blank_mem "0x100000"]
  by (simp_all add: boot_mem_def)

text \<open>
  C3: under the allocator's invariant (the descriptors tile the pool, neighbours coalesced), the
  linked-list code of \<open>k_mem_alloc\<close> returns, keeps the invariant, and computes first fit on the
  regions for the rounded request; it fails when no region fits, and also when the block found
  must be split but all descriptors of the pool are taken.
\<close>

theorem k_mem_alloc_first_fit:
  assumes "mem_inv hi st"
  shows "\<exists>r st'. k_mem_alloc n st = Some (r, st') \<and> mem_inv hi st' \<and>
    (map_option unat r, regions st') =
      ff_alloc (mem_block_count st < Z_MEM_MAX_BLOCKS) (unat (req_size n)) (regions st)"
  using k_mem_alloc_regions [OF assms, of n] k_mem_alloc_cases(1) [OF assms] by blast

theorem k_mem_alloc_first_fit_witness:
  "\<exists>r st'. k_mem_alloc 0x9000 boot_mem = Some (r, st') \<and> mem_inv 0x40100000 st' \<and>
    (map_option unat r, regions st') =
      (Some 0x40000000, [(0x40000000, 0x9000, True), (0x40009000, 0xF7000, False)])"
proof -
  have "req_size 0x9000 = 0x9000" by (simp add: req_size_def k_mem_align_up_def)
  with k_mem_alloc_first_fit [OF boot_mem_facts(1), of "0x9000"] show ?thesis
    by (auto simp: boot_mem_facts(2,3))
qed

text \<open>
  C6: under the same invariant \<open>k_mem_free\<close> returns, keeps the invariant, and on regions it marks
  the block free and joins every run of free neighbours; an address that is not the start of a
  block in use changes nothing.
\<close>

theorem k_mem_free_coalesces:
  assumes "mem_inv hi st"
  shows "\<exists>st'. k_mem_free a st = Some st' \<and> mem_inv hi st' \<and>
    regions st' = coalesce (release (unat a) (regions st)) \<and>
    (live st (unat a) = None \<longrightarrow> regions st' = regions st)"
proof -
  obtain st' where st': "k_mem_free a st = Some st'" using kmem.release_returns [OF assms] by blast
  have eq: "regions st' = coalesce (release (unat a) (regions st))"
    using k_mem_free_cases(2) [OF assms st'] by (simp add: ff_free_def)
  have "regions st' = regions st" if "live st (unat a) = None"
    using that assms
    by (simp add: eq live_def release_none [OF live_none] coalesce_id mem_inv_def)
  with st' eq k_mem_free_cases(1) [OF assms st'] show ?thesis
    by (intro exI [of _ st']) simp
qed

theorem k_mem_free_coalesces_witness:
  "\<exists>st'. k_mem_free 0x40000000 boot_mem = Some st' \<and> mem_inv 0x40100000 st' \<and>
    regions st' = [(0x40000000, 0x100000, False)]"
  using k_mem_free_coalesces [OF boot_mem_facts(1), of "0x40000000"]
  by (auto simp: boot_mem_facts(2) join_next_def)

text \<open>
  A block handed out by \<open>k_mem_alloc\<close> is page aligned, lies inside the pool, overlaps no
  allocation in force and becomes the only new one; it is at least as large as the request for
  every request up to \<open>0xFFFFF000\<close>.
\<close>

theorem k_mem_alloc_safe:
  assumes "mem_inv hi st" and "k_mem_alloc n st = Some (Some a, st')"
  shows "4096 dvd unat a \<and> 0x40000000 \<le> unat a \<and> unat a + unat (req_size n) \<le> hi \<and>
    live st' = (live st)(unat a \<mapsto> unat (req_size n)) \<and>
    (\<forall>b y. live st b = Some y \<longrightarrow> unat a + unat (req_size n) \<le> b \<or> b + y \<le> unat a) \<and>
    (unat n \<le> 0xFFFFF000 \<longrightarrow> unat n \<le> unat (req_size n))"
proof -
  have new: "live st' = (live st)(unat a \<mapsto> unat (req_size n))"
    using kmem.alloc_new [OF assms] by simp
  then have "live_regions (regions st') (unat a) = Some (unat (req_size n))" by (simp add: live_def)
  then have mem: "(unat a, unat (req_size n), True) \<in> set (regions st')" by (rule live_member)
  have t: "tiles (unat Z_MEM_BASE) hi (regions st')"
    using kmem.alloc_inv [OF assms] by (simp add: mem_inv_def)
  from tiles_member [OF t mem] tiles_aligned [OF t mem] new kmem.alloc_apart [OF assms] req_size_ge [of n]
  show ?thesis by auto
qed

theorem k_mem_alloc_safe_witness:
  "\<exists>st'. k_mem_alloc 0x9000 boot_mem = Some (Some 0x40000000, st') \<and>
    live st' = [0x40000000 \<mapsto> 0x9000] \<and> 0x40000000 + 0x9000 \<le> (0x40100000 :: nat)"
proof -
  have sz: "req_size 0x9000 = 0x9000" by (simp add: req_size_def k_mem_align_up_def)
  with k_mem_alloc_regions [OF boot_mem_facts(1), of "0x9000"] obtain r st' where
    run: "k_mem_alloc 0x9000 boot_mem = Some (r, st')" and "map_option unat r = Some 0x40000000"
    by (auto simp: boot_mem_facts(2,3))
  then have "r = Some 0x40000000" by (auto simp: word_unat_eq_iff)
  with run k_mem_alloc_safe [OF boot_mem_facts(1), of "0x9000" "0x40000000" st'] sz show ?thesis
    by (auto simp: live_def boot_mem_facts(2))
qed

text \<open>
  Releasing the block that \<open>k_mem_alloc\<close> has just handed out restores exactly the regions from
  before: the split is undone by the two joins, whatever the state of the neighbours.
\<close>

theorem k_mem_alloc_free_roundtrip:
  assumes "mem_inv hi st" and "k_mem_alloc n st = Some (Some a, st1)"
  shows "\<exists>st2. k_mem_free a st1 = Some st2 \<and> regions st2 = regions st \<and> mem_inv hi st2"
proof -
  have inv1: "mem_inv hi st1" by (rule kmem.alloc_inv [OF assms])
  then obtain st2 where st2: "k_mem_free a st1 = Some st2" using kmem.release_returns by blast
  have "regions st2 = ff_free (unat a) (regions st1)" by (rule k_mem_free_cases(2) [OF inv1 st2])
  also have "\<dots> = regions st"
    using assms(1) k_mem_alloc_cases(2) [OF assms, symmetric]
    by (auto simp: mem_inv_def intro: ff_free_alloc)
  finally show ?thesis using st2 k_mem_free_cases(1) [OF inv1 st2] by blast
qed

lemma boot_mem_alloc: "\<exists>st1. k_mem_alloc 0x9000 boot_mem = Some (Some 0x40000000, st1)"
proof -
  have "req_size 0x9000 = 0x9000" by (simp add: req_size_def k_mem_align_up_def)
  with k_mem_alloc_regions [OF boot_mem_facts(1), of "0x9000"] obtain r st' where
    "k_mem_alloc 0x9000 boot_mem = Some (r, st')" "map_option unat r = Some 0x40000000"
    by (auto simp: boot_mem_facts(2,3))
  then show ?thesis by (auto simp: word_unat_eq_iff)
qed

theorem k_mem_alloc_free_roundtrip_witness:
  "\<exists>st1 st2. k_mem_alloc 0x9000 boot_mem = Some (Some 0x40000000, st1) \<and>
    k_mem_free 0x40000000 st1 = Some st2 \<and> regions st2 = [(0x40000000, 0x100000, False)]"
  using boot_mem_alloc k_mem_alloc_free_roundtrip [OF boot_mem_facts(1), of "0x9000" "0x40000000"]
  by (fastforce simp: boot_mem_facts(2))

text \<open>
  From \<open>k_mem_init\<close> on, every sequence of allocations and releases (of any addresses, in any
  order) runs to its end, and the descriptors still tile the pool with no two free neighbours.
\<close>

theorem k_mem_run_invariant:
  assumes "length (mem_blocks st) = Z_MEM_MAX_BLOCKS" and "0 < tot" and "tot \<le> 0xC0000000"
  shows "\<exists>st'. mem_run ops (k_mem_init tot st) = Some st' \<and>
    tiles 0x40000000 (0x40000000 + unat tot) (regions st') \<and> no_adj (regions st')"
  using mem_run_inv [OF k_mem_init_inv [OF assms], of ops] by (auto simp: mem_inv_def)

theorem k_mem_run_invariant_witness:
  "\<exists>st'. mem_run [Alloc 1, Alloc 0x20000, Free 0x40000000, Free 7]
      (k_mem_init 0x100000 blank_mem) = Some st' \<and>
    tiles 0x40000000 0x40100000 (regions st') \<and> no_adj (regions st')"
  using k_mem_run_invariant [of blank_mem "0x100000"
      "[Alloc 1, Alloc 0x20000, Free 0x40000000, Free 7]"]
  by (simp del: mem_run.simps)

text \<open>
  The size really set aside. A request is rounded up to whole pages, at least 32 KB; a request
  within the last page of the address space wraps in \<open>k_mem_align_up\<close> and is granted 32 KB.
\<close>

theorem req_size_exact:
  "unat (req_size n) =
     (if unat n \<le> 0xFFFFF000 then max 32768 ((unat n + 4095) div 4096 * 4096) else 32768)"
proof (cases "unat n \<le> 0xFFFFF000")
  case True
  then have "(unat n + 4095) mod 4294967296 = unat n + 4095" by simp
  with True show ?thesis
    by (auto simp: req_size_def Let_def word_less_nat_alt align_up_4096 max_def)
next
  case False
  have small: "unat n - 4294963201 < 4294967296" by (rule less_imp_diff_less) simp
  with False have mod: "(unat n + 4095) mod 4294967296 = unat n - 4294963201"
    by (subst le_mod_geq) simp_all
  have "unat n - 4294963201 < 4096" using unat_lt_32 [of n] by arith
  with mod have "(unat n + 4095) mod 4294967296 div 4096 = 0"
    by simp
  with False show ?thesis
    by (simp add: req_size_def Let_def word_less_nat_alt align_up_4096)
qed

text \<open>One allocation from an entirely free pool, given back at once, costs one descriptor.\<close>

lemma alloc_split_count:
  "alloc_split req b st = (r, st') \<Longrightarrow> mem_block_count st' =
     (if req < blk_size (blk_at st b) \<and> mem_block_count st < Z_MEM_MAX_BLOCKS
      then mem_block_count st + 1 else mem_block_count st)"
  by (auto simp: alloc_split_def alloc_metadata_def Let_def split: if_splits option.splits)

lemma leak_cycle:
  assumes inv: "mem_inv hi st" and rs: "regions st = [(0x40000000, z, False)]"
    and n: "unat (req_size n) < z" and c: "mem_block_count st < Z_MEM_MAX_BLOCKS"
  shows "\<exists>st'. mem_run [Alloc n, Free Z_MEM_BASE] st = Some st' \<and> mem_inv hi st' \<and>
    regions st' = regions st \<and> mem_block_count st' = mem_block_count st + 1"
proof -
  obtain r st1 where run: "k_mem_alloc n st = Some (r, st1)" using kmem.alloc_returns [OF inv] by blast
  have "map_option unat r = Some 0x40000000"
    using k_mem_alloc_cases(2) [OF inv run] rs n c by simp
  then have r: "r = Some Z_MEM_BASE" by (auto simp: word_unat_eq_iff)
  obtain i where ids: "mem_ids st = [i]" and i: "region_of (blk_at st i) = (0x40000000, z, False)"
    using rs by (auto simp: regions_def)
  then have "alloc_split (req_size n) i st = (r, st1)" "req_size n < blk_size (blk_at st i)"
    using alloc_loop_run [OF inv, of n] run n
    by (auto simp: fits_def region_of_def word_le_nat_alt word_less_nat_alt)
  with c have count: "mem_block_count st1 = mem_block_count st + 1"
    using alloc_split_count [of "req_size n" i st r st1] by simp
  from k_mem_alloc_free_roundtrip [OF inv, of n "Z_MEM_BASE" st1] run r obtain st2 where
    "k_mem_free Z_MEM_BASE st1 = Some st2" "regions st2 = regions st" "mem_inv hi st2" by blast
  with run k_mem_free_count [OF kmem.alloc_inv [OF inv run], of Z_MEM_BASE st2] count show ?thesis
    by simp
qed

lemma leak_cycles:
  "mem_inv hi st \<Longrightarrow> regions st = [(0x40000000, z, False)] \<Longrightarrow> unat (req_size n) < z \<Longrightarrow>
   mem_block_count st + k \<le> Z_MEM_MAX_BLOCKS \<Longrightarrow>
   \<exists>st'. mem_run (concat (replicate k [Alloc n, Free Z_MEM_BASE])) st = Some st' \<and> mem_inv hi st' \<and>
     regions st' = regions st \<and> mem_block_count st' = mem_block_count st + k"
proof (induction k arbitrary: st)
  case (Suc k)
  from leak_cycle [OF Suc.prems(1-3)] Suc.prems(4) obtain st1 where st1:
    "mem_run [Alloc n, Free Z_MEM_BASE] st = Some st1" "mem_inv hi st1" "regions st1 = regions st"
    "mem_block_count st1 = mem_block_count st + 1" by auto
  moreover from Suc.IH [OF st1(2)] Suc.prems st1(3,4) obtain st2 where
    "mem_run (concat (replicate k [Alloc n, Free Z_MEM_BASE])) st1 = Some st2" "mem_inv hi st2"
    "regions st2 = regions st" "mem_block_count st2 = mem_block_count st + Suc k" by auto
  ultimately show ?case
    unfolding replicate_Suc concat.simps mem_run_append by simp
qed auto

text \<open>
  Descriptors joined away by \<open>k_mem_free\<close> never return to the pool. After 255 blocks have been
  allocated and given back one at a time, the whole pool is one free region again, and still every
  further request that needs a split fails.
\<close>

theorem k_mem_descriptors_leak:
  assumes "length (mem_blocks st) = Z_MEM_MAX_BLOCKS" and "tot \<le> 0xC0000000"
    and "req_size n < tot"
  shows "\<exists>st'. mem_run (concat (replicate 255 [Alloc n, Free 0x40000000])) (k_mem_init tot st) = Some st' \<and>
    regions st' = [(0x40000000, unat tot, False)] \<and> k_mem_alloc n st' = Some (None, st')"
proof -
  have pos: "0 < tot" using assms(3) by (simp add: word_less_nat_alt)
  have n: "unat (req_size n) < unat tot" using assms(3) by (simp add: word_less_nat_alt)
  obtain st' where st': "mem_run (concat (replicate 255 [Alloc n, Free 0x40000000])) (k_mem_init tot st) = Some st'"
    "mem_inv (0x40000000 + unat tot) st'" "regions st' = [(0x40000000, unat tot, False)]"
    "mem_block_count st' = Z_MEM_MAX_BLOCKS"
    using leak_cycles [OF k_mem_init_inv [OF assms(1) pos assms(2)], of "unat tot" n 255]
      assms(1) n by (auto simp: k_mem_init_regions)
  obtain i where ids: "mem_ids st' = [i]" and i: "region_of (blk_at st' i) = (0x40000000, unat tot, False)"
    using st'(3) by (auto simp: regions_def)
  have "k_mem_alloc n st' = Some (alloc_split (req_size n) i st')"
    using alloc_loop_run [OF st'(2), of n] ids i n
    by (auto simp: fits_def region_of_def word_le_nat_alt)
  moreover have "alloc_split (req_size n) i st' = (None, st')"
    using i n st'(4) by (intro alloc_split_fail) (auto simp: region_of_def word_less_nat_alt)
  ultimately show ?thesis using st'(1,3) by auto
qed

theorem k_mem_descriptors_leak_witness:
  "\<exists>st'. mem_run (concat (replicate 255 [Alloc 1, Free 0x40000000])) boot_mem = Some st' \<and>
    regions st' = [(0x40000000, 0x100000, False)] \<and> k_mem_alloc 1 st' = Some (None, st')"
proof -
  have "req_size 1 < 0x100000" by (simp add: req_size_def k_mem_align_up_def)
  moreover have "(0x100000 :: u32) \<le> 0xC0000000" "unat (0x100000 :: u32) = 0x100000" by simp_all
  ultimately show ?thesis
    using k_mem_descriptors_leak [OF length_blank_mem, of "0x100000" 1]
    by (simp only: boot_mem_def simp_thms)
qed

text \<open>The figures of \<open>k_mem_dump\<close>.\<close>

lemma dump_loop_fold:
  "seg (mem_blocks st) p ids None \<Longrightarrow>
   dump_loop p st s = Some (fold (\<lambda>i. dump_step (blk_at st i)) ids s)"
proof (induction ids arbitrary: p s)
  case Nil
  then show ?case by (simp add: dump_loop.simps)
next
  case (Cons i ids)
  then show ?case by (subst dump_loop.simps) simp
qed

definition sum_sizes :: "bool \<Rightarrow> region list \<Rightarrow> nat" where
  "sum_sizes used rs = (\<Sum>(s, z, u) \<leftarrow> rs. if u = used then z else 0)"

lemma sum_sizes_simps [simp]:
  "sum_sizes b [] = 0" "sum_sizes b ((s, z, u) # rs) = (if u = b then z else 0) + sum_sizes b rs"
  by (simp_all add: sum_sizes_def)

lemma tiles_sum: "tiles lo hi rs \<Longrightarrow> sum_sizes True rs + sum_sizes False rs = hi - lo"
  by (induction rs arbitrary: lo rule: coalesce.induct) (simp, fastforce dest: tiles_le)

definition region_size :: "region \<Rightarrow> nat" where
  "region_size r = fst (snd r)"

text \<open>What one pass accumulates, as long as the running total does not wrap.\<close>

lemma dump_fold_sums:
  "unat (st_total s) + sum_sizes True (map (\<lambda>i. region_of (blk_at st i)) ids) +
     sum_sizes False (map (\<lambda>i. region_of (blk_at st i)) ids) < 4294967296 \<Longrightarrow>
   unat (st_used s) \<le> unat (st_total s) \<Longrightarrow>
   d = fold (\<lambda>i. dump_step (blk_at st i)) ids s \<Longrightarrow>
   rs = map (\<lambda>i. region_of (blk_at st i)) ids \<Longrightarrow>
   unat (st_total d) = unat (st_total s) + sum_sizes True rs + sum_sizes False rs \<and>
   unat (st_used d) = unat (st_used s) + sum_sizes True rs \<and>
   st_used_blocks d = st_used_blocks s + length (filter (\<lambda>r. snd (snd r)) rs) \<and>
   st_free_blocks d = st_free_blocks s + length (filter (\<lambda>r. \<not> snd (snd r)) rs) \<and>
   unat (st_largest_free d) =
     fold max (map region_size (filter (\<lambda>r. \<not> snd (snd r)) rs)) (unat (st_largest_free s))"
proof (induction ids arbitrary: s rs)
  case (Cons i ids)
  let ?s = "dump_step (blk_at st i) s" and ?k = "blk_at st i"
  have tot: "unat (st_total ?s) = unat (st_total s) + unat (blk_size ?k)"
    using Cons.prems(1) by (simp add: dump_step_def Let_def region_of_def unat_plus_nowrap split: if_splits)
  have used: "unat (st_used ?s) = unat (st_used s) + (if blk_used ?k then unat (blk_size ?k) else 0)"
    using Cons.prems(1,2)
    by (simp add: dump_step_def Let_def region_of_def unat_plus_nowrap split: if_splits)
  have large: "unat (st_largest_free ?s) = (if blk_used ?k then unat (st_largest_free s)
      else max (unat (blk_size ?k)) (unat (st_largest_free s)))"
    by (auto simp: dump_step_def Let_def word_less_nat_alt max_def)
  have blocks: "st_used_blocks ?s = st_used_blocks s + (if blk_used ?k then 1 else 0)"
    "st_free_blocks ?s = st_free_blocks s + (if blk_used ?k then 0 else 1)"
    by (simp_all add: dump_step_def Let_def)
  have "unat (st_used ?s) \<le> unat (st_total ?s)" using Cons.prems(2) tot used by simp
  moreover have "unat (st_total ?s) + sum_sizes True (map (\<lambda>i. region_of (blk_at st i)) ids) +
     sum_sizes False (map (\<lambda>i. region_of (blk_at st i)) ids) < 4294967296"
    using Cons.prems(1) tot by (simp add: region_of_def split: if_splits)
  ultimately show ?case
    using Cons.IH [of ?s "map (\<lambda>i. region_of (blk_at st i)) ids"] Cons.prems(3,4) tot used large blocks
    by (simp add: region_of_def region_size_def)
qed simp

text \<open>
  \<open>k_mem_dump\<close> (the shell's \<open>free\<close>) ends, and its figures are those of the regions: the total is
  the size of the pool, used bytes and blocks are those in use, and the largest free block is the
  largest free region.
\<close>

theorem k_mem_dump_exact:
  assumes "mem_inv hi st"
  shows "\<exists>d. k_mem_dump st = Some d \<and>
    unat (st_total d) = hi - 0x40000000 \<and>
    unat (st_used d) = sum_sizes True (regions st) \<and>
    st_used_blocks d = length (filter (\<lambda>r. snd (snd r)) (regions st)) \<and>
    st_free_blocks d = length (filter (\<lambda>r. \<not> snd (snd r)) (regions st)) \<and>
    unat (st_largest_free d) =
      fold max (map region_size (filter (\<lambda>r. \<not> snd (snd r)) (regions st))) 0"
proof -
  have sum: "sum_sizes True (regions st) + sum_sizes False (regions st) = hi - 0x40000000"
    and hi: "hi \<le> 4294967296" and l: "seg (mem_blocks st) (block_list st) (mem_ids st) None"
    using assms tiles_sum [of "unat Z_MEM_BASE" hi "regions st"]
    by (simp_all add: mem_inv_def linked_def)
  let ?s = "\<lparr>st_total = 0, st_used = 0, st_largest_free = 0, st_used_blocks = 0, st_free_blocks = 0\<rparr>"
  have "hi - 0x40000000 < 4294967296" using hi by simp
  with dump_fold_sums [of ?s st "mem_ids st", OF _ _ refl refl] sum
  show ?thesis by (simp add: k_mem_dump_def dump_loop_fold [OF l] regions_def)
qed

theorem k_mem_dump_exact_witness:
  "\<exists>d. k_mem_dump boot_mem = Some d \<and> unat (st_total d) = 0x100000 \<and> unat (st_largest_free d) = 0x100000"
  using k_mem_dump_exact [OF boot_mem_facts(1)]
  by (auto simp: boot_mem_facts(2) region_size_def)

section \<open>An allocation that is interrupted\<close>

text \<open>
  \<open>k_mem_alloc\<close> runs with interrupts on. What it has found when the timer interrupt comes: the block before, the block, where it will
  start and what is left in front.
\<close>

partial_function (option) alloc_find ::
  "u32 \<Rightarrow> nat option \<Rightarrow> nat option \<Rightarrow> k_mem \<Rightarrow> (nat option \<times> nat \<times> u32 \<times> u32) option option" where
  "alloc_find req prev blk st =
     (case blk of
        None \<Rightarrow> Some None
      | Some b \<Rightarrow>
          (let k = blk_at st b;
               aligned_start = k_mem_align_up (blk_start k) Z_MEM_ALIGNMENT;
               padding = aligned_start - blk_start k;
               total_required = req + padding
           in if \<not> blk_used k \<and> blk_size k \<ge> total_required
              then Some (Some (prev, b, aligned_start, padding))
              else alloc_find req (Some b) (blk_next k) st))"

lemma alloc_find_first:
  "seg (mem_blocks st) p ids None \<Longrightarrow> \<forall>i \<in> set ids. 4096 dvd unat (blk_start (blk_at st i)) \<Longrightarrow>
   \<exists>prev'. alloc_find req prev p st =
     Some (map_option (\<lambda>b. (prev', b, blk_start (blk_at st b), 0)) (List.find (\<lambda>i. fits req (blk_at st i)) ids))"
proof (induction ids arbitrary: p prev)
  case Nil
  then show ?case by (simp add: alloc_find.simps)
next
  case (Cons i ids)
  then show ?case
    by (subst alloc_find.simps) (auto simp: Let_def align_up_aligned fits_def split: option.splits)
qed

lemma alloc_find_inv:
  assumes "mem_inv hi st"
  obtains prev where "alloc_find req None (block_list st) st =
     Some (map_option (\<lambda>b. (prev, b, blk_start (blk_at st b), 0)) (List.find (\<lambda>i. fits req (blk_at st i)) (mem_ids st)))"
  using alloc_find_first [of st "block_list st" "mem_ids st" req None] regions_aligned [OF assms] assms
  by (auto simp: mem_inv_def linked_def)

lemma alloc_find_take:
  assumes "mem_inv hi st"
  shows "k_mem_alloc n st =
    map_option (\<lambda>found. case found of None \<Rightarrow> (None, st) | Some (prev, b, aligned_start, padding) \<Rightarrow> alloc_take (req_size n) prev b aligned_start padding st)
      (alloc_find (req_size n) None (block_list st) st)"
  by (rule alloc_find_inv [OF assms, of "req_size n"]) (auto simp: alloc_take_def alloc_loop_run [OF assms] split: option.splits)

text \<open>
  C41: Two processes can be given the same memory. When the timer interrupt comes in the middle of an allocation, after the test of the
  block it has found and before that block is marked, and another process asks for as much meanwhile and gets memory, then the
  interrupted call, once it goes on, returns the same block.
\<close>

theorem interrupted_alloc_doubles:
  assumes "mem_inv hi st" "alloc_find (req_size n) None (block_list st) st = Some (Some (prev, b, aligned_start, padding))"
    and "k_mem_alloc n st = Some (Some a, st1)"
  shows "\<exists>st2. alloc_take (req_size n) prev b aligned_start padding st1 = (Some a, st2)"
proof -
  let ?f = "List.find (\<lambda>i. fits (req_size n) (blk_at st i)) (mem_ids st)"
  obtain prev' where "alloc_find (req_size n) None (block_list st) st = Some (map_option (\<lambda>b. (prev', b, blk_start (blk_at st b), 0)) ?f)"
    by (rule alloc_find_inv [OF assms(1)])
  then have f: "?f = Some b" and pad: "padding = 0" using assms(2) by (cases ?f; simp)+
  have split: "alloc_split (req_size n) b st = (Some a, st1)"
    using alloc_loop_run [OF assms(1), of n] assms(3) f by simp
  obtain xs ys where ids: "mem_ids st = xs @ b # ys" and fit: "fits (req_size n) (blk_at st b)"
    using find_split [OF f] by blast
  have l: "linked (xs @ b # ys) st" using assms(1) by (simp add: mem_inv_def ids)
  have "blk_size (blk_at st1 b) \<le> req_size n \<and> blk_start (blk_at st1 b) = a"
  proof (cases "blk_size (blk_at st b) = req_size n")
    case True
    from alloc_split_whole [OF l this] split show ?thesis by (auto simp: True)
  next
    case False
    then have lt: "req_size n < blk_size (blk_at st b)" using fit by (auto simp: fits_def order_less_le)
    have c: "mem_block_count st < Z_MEM_MAX_BLOCKS"
      using alloc_split_fail [OF lt] split by (cases "mem_block_count st < Z_MEM_MAX_BLOCKS") auto
    from alloc_split_part [OF l lt refl c] split show ?thesis by auto
  qed
  moreover have "blk_start (upd_nth b (blk_used_update g) xs ! b) = blk_start (xs ! b)" for g xs
    by (cases "b < length xs") (simp_all add: upd_nth_def list_update_beyond)
  ultimately show ?thesis by (auto simp: pad alloc_take_def alloc_split_def upd_blk_def Let_def)
qed

theorem interrupted_alloc_doubles_witness:
  "\<exists>found st1 st2. alloc_find (req_size 0x9000) None (block_list boot_mem) boot_mem = Some (Some found) \<and>
     k_mem_alloc 0x9000 boot_mem = Some (Some 0x40000000, st1) \<and>
     (case found of (prev, b, aligned_start, padding) \<Rightarrow> alloc_take (req_size 0x9000) prev b aligned_start padding st1) = (Some 0x40000000, st2)"
proof -
  have rq: "req_size 0x9000 = 0x9000" by (simp add: req_size_def k_mem_align_up_def)
  obtain r st1 where run: "k_mem_alloc 0x9000 boot_mem = Some (r, st1)" using kmem.alloc_returns [OF boot_mem_facts(1)] by blast
  have "map_option unat r = Some 0x40000000"
    using k_mem_alloc_cases(2) [OF boot_mem_facts(1) run] rq by (simp add: boot_mem_facts)
  then have r: "r = Some 0x40000000" by (auto simp: word_unat_eq_iff)
  obtain found where f: "alloc_find (req_size 0x9000) None (block_list boot_mem) boot_mem = Some (Some found)"
  proof (cases "List.find (\<lambda>i. fits (req_size 0x9000) (blk_at boot_mem i)) (mem_ids boot_mem)")
    case None
    then show ?thesis using alloc_loop_run [OF boot_mem_facts(1), of "0x9000"] run r by simp
  next
    case (Some b)
    show ?thesis by (rule alloc_find_inv [OF boot_mem_facts(1), of "req_size 0x9000"], rule that) (simp add: Some)
  qed
  obtain prev b aligned_start padding where fd: "found = (prev, b, aligned_start, padding)" by (cases found)
  from interrupted_alloc_doubles [OF boot_mem_facts(1) f [unfolded fd] run [unfolded r]] run r f fd show ?thesis by auto
qed

end
