(* ===== verification/Msg.thy ===== *)
theory Msg
  imports Proc Queue
begin

text \<open>
  Inter-process messages (\<open>src/sw/os/msg.c\<close>, \<open>src/sw/common/zmsg.h\<close>): the kernel-owned mailboxes,
  and the resolution of a payload that still lies in the sender's memory into the scratch arrays of
  the receiver's message. Addresses and contents of memory are 32-bit words; the sender's memory is
  a function from physical addresses to words, which a resolution only reads.
\<close>

section \<open>Objects and envelopes\<close>

abbreviation Z_NONE :: u32 where "Z_NONE \<equiv> 0"
abbreviation Z_RETVAL :: u32 where "Z_RETVAL \<equiv> 1"
abbreviation Z_UINT32 :: u32 where "Z_UINT32 \<equiv> 2"
abbreviation Z_INT32 :: u32 where "Z_INT32 \<equiv> 3"
abbreviation Z_FLOAT32 :: u32 where "Z_FLOAT32 \<equiv> 4"
abbreviation Z_STR :: u32 where "Z_STR \<equiv> 5"
abbreviation Z_LIST :: u32 where "Z_LIST \<equiv> 6"
abbreviation Z_MAP :: u32 where "Z_MAP \<equiv> 7"
abbreviation Z_BLOB :: u32 where "Z_BLOB \<equiv> 8"

abbreviation Z_MAILBOX_DEPTH :: nat where "Z_MAILBOX_DEPTH \<equiv> 32"
abbreviation Z_MSG_MAX_TABLES :: nat where "Z_MSG_MAX_TABLES \<equiv> 4"
abbreviation Z_MSG_MAX_ITEMS :: nat where "Z_MSG_MAX_ITEMS \<equiv> 16"
abbreviation Z_MSG_MAX_BLOBS :: nat where "Z_MSG_MAX_BLOBS \<equiv> 2"

text \<open>A type tag and the 32 bits of the union; tables and blobs are the indirect headers.\<close>

record z_obj =
  obj_type :: u32
  obj_val :: u32

record z_obj_table =
  t_len :: u32
  t_a :: u32
  t_b :: u32

record z_blob =
  b_len :: u32
  b_data :: u32

record z_msg_envelope =
  e_to :: u32
  e_from :: u32
  e_subject :: u32
  e_tag :: u32
  e_obj :: z_obj

record z_msg =
  m_to :: u32
  m_from :: u32
  m_subject :: u32
  m_tag :: u32
  m_obj :: z_obj
  m_tables :: "z_obj_table list"
  m_items :: "z_obj list"
  m_blobs :: "z_blob list"

section \<open>Mailboxes\<close>

record z_mailbox =
  mb_msgs :: "z_msg_envelope list"
  mb_head :: u32
  mb_tail :: u32
  mb_count :: u32

definition mb_push :: "z_msg_envelope \<Rightarrow> z_mailbox \<Rightarrow> z_mailbox option" where
  "mb_push msg mb =
     (if unat (mb_count mb) \<ge> Z_MAILBOX_DEPTH then None
      else Some (mb\<lparr>mb_msgs := (mb_msgs mb)[unat (mb_tail mb) := msg],
                    mb_tail := (mb_tail mb + 1) mod 32,
                    mb_count := mb_count mb + 1\<rparr>))"

definition mb_pop :: "z_mailbox \<Rightarrow> (z_msg_envelope \<times> z_mailbox) option" where
  "mb_pop mb =
     (if mb_count mb = 0 then None
      else Some (mb_msgs mb ! unat (mb_head mb),
                 mb\<lparr>mb_head := (mb_head mb + 1) mod 32, mb_count := mb_count mb - 1\<rparr>))"

text \<open>The same on the table of all mailboxes, as the code has it, with its return values.\<close>

definition z_mailbox_push :: "u32 \<Rightarrow> z_msg_envelope \<Rightarrow> z_mailbox list \<Rightarrow> u32 \<times> z_mailbox list" where
  "z_mailbox_push pid msg mbs =
     (case mb_push msg (mbs ! unat pid) of
        None \<Rightarrow> (Z_FAIL, mbs)
      | Some mb \<Rightarrow> (Z_OK, mbs[unat pid := mb]))"

definition z_mailbox_pop :: "u32 \<Rightarrow> z_mailbox list \<Rightarrow> (z_msg_envelope option) \<times> z_mailbox list" where
  "z_mailbox_pop pid mbs =
     (case mb_pop (mbs ! unat pid) of
        None \<Rightarrow> (None, mbs)
      | Some (env, mb) \<Rightarrow> (Some env, mbs[unat pid := mb]))"

definition z_mailbox_is_empty :: "u32 \<Rightarrow> z_mailbox list \<Rightarrow> u32" where
  "z_mailbox_is_empty pid mbs = (if mb_count (mbs ! unat pid) = 0 then Z_OK else Z_FAIL)"

definition z_mailbox_is_full :: "u32 \<Rightarrow> z_mailbox list \<Rightarrow> u32" where
  "z_mailbox_is_full pid mbs =
     (if unat (mb_count (mbs ! unat pid)) \<ge> Z_MAILBOX_DEPTH then Z_OK else Z_FAIL)"

definition mb_contents :: "z_mailbox \<Rightarrow> z_msg_envelope list" where
  "mb_contents mb = ring_list Z_MAILBOX_DEPTH (mb_msgs mb) (unat (mb_head mb)) (unat (mb_count mb))"

definition mb_inv :: "z_mailbox \<Rightarrow> bool" where
  "mb_inv mb \<longleftrightarrow>
     length (mb_msgs mb) = Z_MAILBOX_DEPTH \<and> unat (mb_head mb) < Z_MAILBOX_DEPTH \<and>
     unat (mb_count mb) \<le> Z_MAILBOX_DEPTH \<and>
     unat (mb_tail mb) = (unat (mb_head mb) + unat (mb_count mb)) mod Z_MAILBOX_DEPTH"

lemma unat_suc_mod:
  assumes "unat (x :: u32) < 4294967295"
  shows "unat ((x + 1) mod 32) = (unat x + 1) mod 32"
proof -
  have "unat (x + 1) = unat x + 1" using assms by (simp add: unat_plus_nowrap)
  then show ?thesis by (simp add: unat_mod)
qed

lemma mb_inv_push:
  assumes "mb_inv mb" "unat (mb_count mb) < Z_MAILBOX_DEPTH"
  shows "\<exists>mb'. mb_push msg mb = Some mb' \<and> mb_inv mb' \<and> mb_contents mb' = mb_contents mb @ [msg]"
proof -
  have c: "unat (mb_count mb + 1) = Suc (unat (mb_count mb))"
    using assms(2) by (simp add: unat_plus_nowrap)
  have t: "unat ((mb_tail mb + 1) mod 32) = (unat (mb_tail mb) + 1) mod 32"
    using assms(1) by (intro unat_suc_mod) (simp add: mb_inv_def)
  have "unat (mb_tail mb) = (unat (mb_head mb) + unat (mb_count mb)) mod Z_MAILBOX_DEPTH"
    "length (mb_msgs mb) = Z_MAILBOX_DEPTH" using assms(1) by (simp_all add: mb_inv_def)
  then show ?thesis
    using assms c t
    by (simp add: mb_push_def mb_inv_def mb_contents_def ring_list_push mod_simps)
qed

lemma mb_inv_pop:
  assumes "mb_inv mb" "mb_count mb \<noteq> 0"
  shows "\<exists>mb'. mb_pop mb = Some (hd (mb_contents mb), mb') \<and> mb_inv mb' \<and>
    mb_contents mb' = tl (mb_contents mb)"
proof -
  obtain n where n: "unat (mb_count mb) = Suc n"
    using assms(2) by (metis not0_implies_Suc unat_eq_zero)
  then have c: "unat (mb_count mb - 1) = n"
    by (subst unat_minus_nowrap) simp_all
  have h: "unat ((mb_head mb + 1) mod 32) = (unat (mb_head mb) + 1) mod 32"
    using assms(1) by (intro unat_suc_mod) (simp add: mb_inv_def)
  show ?thesis
    using assms n c h
    by (simp add: mb_pop_def mb_inv_def mb_contents_def ring_list_Suc mod_simps)
qed

interpretation mailbox: bounded_queue mb_push mb_pop mb_contents mb_inv Z_MAILBOX_DEPTH
proof unfold_locales
  fix mb :: z_mailbox and msg :: z_msg_envelope and rest :: "z_msg_envelope list"
  assume inv: "mb_inv mb"
  show "length (mb_contents mb) \<le> Z_MAILBOX_DEPTH"
    using inv by (simp add: mb_inv_def mb_contents_def)
  show "mb_push msg mb = None" if "length (mb_contents mb) = Z_MAILBOX_DEPTH"
    using that by (simp add: mb_push_def mb_contents_def)
  show "\<exists>mb'. mb_push msg mb = Some mb' \<and> mb_inv mb' \<and> mb_contents mb' = mb_contents mb @ [msg]"
    if "length (mb_contents mb) < Z_MAILBOX_DEPTH"
    using that mb_inv_push [OF inv] by (simp add: mb_contents_def)
  show "mb_pop mb = None" if "mb_contents mb = []"
    using that by (simp add: mb_pop_def mb_contents_def ring_list_def unat_eq_zero)
  show "\<exists>mb'. mb_pop mb = Some (msg, mb') \<and> mb_inv mb' \<and> mb_contents mb' = rest"
    if "mb_contents mb = msg # rest"
    using that mb_inv_pop [OF inv] by (fastforce simp: mb_contents_def)
qed

section \<open>Resolving a payload\<close>

text \<open>
  A pointer of process \<open>pid\<close>, whose memory starts at \<open>base\<close>, as a physical address. The kernel
  (process 0) is not relocated.
\<close>

definition z_translate :: "u32 \<Rightarrow> u32 \<Rightarrow> u32 \<Rightarrow> u32" where
  "z_translate base pid vptr =
     (if vptr = 0 then 0 else if pid = 0 then vptr else vptr - 0x80000000 + base)"

text \<open>The physical address of \<open>&p[i]\<close>, \<open>p\<close> being an array of objects of the process.\<close>

definition elem_addr :: "u32 \<Rightarrow> u32 \<Rightarrow> u32 \<Rightarrow> nat \<Rightarrow> u32" where
  "elem_addr base pid p i = z_translate base pid (p + 8 * of_nat i)"

definition read_obj :: "(u32 \<Rightarrow> u32) \<Rightarrow> u32 \<Rightarrow> z_obj" where
  "read_obj mem a = \<lparr>obj_type = mem a, obj_val = mem (a + 4)\<rparr>"

definition read_table :: "(u32 \<Rightarrow> u32) \<Rightarrow> u32 \<Rightarrow> z_obj_table" where
  "read_table mem a = \<lparr>t_len = mem a, t_a = mem (a + 4), t_b = mem (a + 8)\<rparr>"

definition read_blob :: "(u32 \<Rightarrow> u32) \<Rightarrow> u32 \<Rightarrow> z_blob" where
  "read_blob mem a = \<lparr>b_len = mem a, b_data = mem (a + 4)\<rparr>"

text \<open>
  The object under resolution is either the message's own or a slot of its item array; the scratch
  arrays of the message lie at fixed offsets of its address.
\<close>

datatype slot = Top | Item nat

record scratch =
  sc_obj :: z_obj
  sc_tables :: "z_obj_table list"
  sc_items :: "z_obj list"
  sc_blobs :: "z_blob list"
  sc_tcount :: u32
  sc_icount :: u32
  sc_bcount :: u32

definition tables_at :: "u32 \<Rightarrow> u32" where "tables_at m = m + 24"
definition items_at :: "u32 \<Rightarrow> u32" where "items_at m = m + 72"
definition blobs_at :: "u32 \<Rightarrow> u32" where "blobs_at m = m + 200"

primrec get_slot :: "slot \<Rightarrow> scratch \<Rightarrow> z_obj" where
  "get_slot Top sc = sc_obj sc"
| "get_slot (Item i) sc = sc_items sc ! i"

primrec put_slot :: "slot \<Rightarrow> z_obj \<Rightarrow> scratch \<Rightarrow> scratch" where
  "put_slot Top x sc = sc\<lparr>sc_obj := x\<rparr>"
| "put_slot (Item i) x sc = sc\<lparr>sc_items := (sc_items sc)[i := x]\<rparr>"

definition set_none :: "slot \<Rightarrow> scratch \<Rightarrow> scratch" where
  "set_none l sc = put_slot l ((get_slot l sc)\<lparr>obj_type := Z_NONE\<rparr>) sc"

definition set_val :: "slot \<Rightarrow> u32 \<Rightarrow> scratch \<Rightarrow> scratch" where
  "set_val l v sc = put_slot l ((get_slot l sc)\<lparr>obj_val := v\<rparr>) sc"

text \<open>
  A resolution either returns with a status, or writes an item past the end of the array while it
  walks the table at the given physical address, or uses up the depth given to the recursion.
\<close>

datatype resolve_fault = Overrun u32 | TooDeep

text \<open>One slot of a table: the sender's object is stored, then resolved in place.\<close>

definition resolve_slot ::
  "(slot \<Rightarrow> scratch \<Rightarrow> resolve_fault + u32 \<times> scratch) \<Rightarrow> (u32 \<Rightarrow> u32) \<Rightarrow> u32 \<Rightarrow> u32 \<Rightarrow> nat \<Rightarrow> scratch \<Rightarrow>
   resolve_fault + u32 \<times> scratch" where
  "resolve_slot rslv mem src sa k sc =
     (if k \<ge> Z_MSG_MAX_ITEMS then Inl (Overrun src)
      else rslv (Item k) (put_slot (Item k) (read_obj mem sa) sc))"

fun resolve_items ::
  "(slot \<Rightarrow> scratch \<Rightarrow> resolve_fault + u32 \<times> scratch) \<Rightarrow> (u32 \<Rightarrow> u32) \<Rightarrow> u32 \<Rightarrow> u32 \<Rightarrow> u32 \<Rightarrow> bool \<Rightarrow>
   nat \<Rightarrow> nat \<Rightarrow> nat \<Rightarrow> nat \<Rightarrow> scratch \<Rightarrow> resolve_fault + u32 \<times> scratch" where
  "resolve_items rslv mem base pid src is_map a0 b0 i 0 sc = Inr (Z_OK, sc)"
| "resolve_items rslv mem base pid src is_map a0 b0 i (Suc n) sc =
     (case resolve_slot rslv mem src
             (elem_addr base pid (t_a (read_table mem src)) i) (a0 + i) sc of
        Inl f \<Rightarrow> Inl f
      | Inr (rv, sc) \<Rightarrow>
          if rv \<noteq> Z_OK then Inr (Z_FAIL, sc)
          else if is_map then
            (case resolve_slot rslv mem src
                    (elem_addr base pid (t_b (read_table mem src)) i) (b0 + i) sc of
               Inl f \<Rightarrow> Inl f
             | Inr (rv, sc) \<Rightarrow>
                 if rv \<noteq> Z_OK then Inr (Z_FAIL, sc)
                 else resolve_items rslv mem base pid src is_map a0 b0 (Suc i) n sc)
          else resolve_items rslv mem base pid src is_map a0 b0 (Suc i) n sc)"

text \<open>The room a table takes, with the wrap-around of the C expression.\<close>

definition table_need :: "z_obj_table \<Rightarrow> bool \<Rightarrow> u32" where
  "table_need t is_map = t_len t * (if is_map then 2 else 1)"

definition resolve_blob :: "(u32 \<Rightarrow> u32) \<Rightarrow> u32 \<Rightarrow> u32 \<Rightarrow> u32 \<Rightarrow> slot \<Rightarrow> scratch \<Rightarrow> u32 \<times> scratch" where
  "resolve_blob mem base pid m l sc =
     (let src = z_translate base pid (obj_val (get_slot l sc)) in
      if src = 0 then (Z_OK, set_none l sc)
      else if unat (sc_bcount sc) \<ge> Z_MSG_MAX_BLOBS then (Z_FAIL, set_none l sc)
      else
        let k = unat (sc_bcount sc);
            b = \<lparr>b_len = b_len (read_blob mem src),
                 b_data = z_translate base pid (b_data (read_blob mem src))\<rparr> in
        (Z_OK, set_val l (blobs_at m + 8 * of_nat k)
                 (sc\<lparr>sc_blobs := (sc_blobs sc)[k := b], sc_bcount := sc_bcount sc + 1\<rparr>)))"

text \<open>The header of a table in the scratch area, its items reserved.\<close>

definition resolve_table :: "u32 \<Rightarrow> bool \<Rightarrow> u32 \<Rightarrow> scratch \<Rightarrow> scratch" where
  "resolve_table m is_map len sc =
     (let i0 = sc_icount sc;
          a = items_at m + 8 * i0;
          i1 = i0 + len;
          b = (if is_map then items_at m + 8 * i1 else 0);
          i2 = (if is_map then i1 + len else i1) in
      sc\<lparr>sc_tables := (sc_tables sc)[unat (sc_tcount sc) := \<lparr>t_len = len, t_a = a, t_b = b\<rparr>],
         sc_tcount := sc_tcount sc + 1, sc_icount := i2\<rparr>)"

primrec z_resolve_obj ::
  "nat \<Rightarrow> (u32 \<Rightarrow> u32) \<Rightarrow> u32 \<Rightarrow> u32 \<Rightarrow> u32 \<Rightarrow> slot \<Rightarrow> scratch \<Rightarrow> resolve_fault + u32 \<times> scratch" where
  "z_resolve_obj 0 mem base pid m l sc = Inl TooDeep"
| "z_resolve_obj (Suc fuel) mem base pid m l sc =
     (let ty = obj_type (get_slot l sc) in
      if ty \<in> {Z_NONE, Z_RETVAL, Z_UINT32, Z_INT32, Z_FLOAT32} then Inr (Z_OK, sc)
      else if ty = Z_STR then
        Inr (Z_OK, set_val l (z_translate base pid (obj_val (get_slot l sc))) sc)
      else if ty = Z_BLOB then Inr (resolve_blob mem base pid m l sc)
      else if ty = Z_LIST \<or> ty = Z_MAP then
        let src = z_translate base pid (obj_val (get_slot l sc));
            is_map = (ty = Z_MAP);
            len = t_len (read_table mem src);
            need = table_need (read_table mem src) is_map in
        if src = 0 then Inr (Z_OK, set_none l sc)
        else if unat (sc_tcount sc) \<ge> Z_MSG_MAX_TABLES
              \<or> unat (sc_icount sc + need) > Z_MSG_MAX_ITEMS then
          Inr (Z_FAIL, set_none l sc)
        else
          let t = unat (sc_tcount sc) in
          case resolve_items (z_resolve_obj fuel mem base pid m) mem base pid src is_map
                 (unat (sc_icount sc)) (unat (sc_icount sc + len)) 0 (unat len)
                 (resolve_table m is_map len sc) of
            Inl f \<Rightarrow> Inl f
          | Inr (rv, sc) \<Rightarrow>
              if rv \<noteq> Z_OK then Inr (Z_FAIL, set_none l sc)
              else Inr (Z_OK, set_val l (tables_at m + 12 * of_nat t) sc)
      else Inr (Z_OK, set_none l sc))"

section \<open>Resolution returns, and stays in its arrays unless a length is absurd\<close>

definition sc_wf :: "scratch \<Rightarrow> bool" where
  "sc_wf sc \<longleftrightarrow>
     length (sc_tables sc) = Z_MSG_MAX_TABLES \<and> length (sc_items sc) = Z_MSG_MAX_ITEMS \<and>
     length (sc_blobs sc) = Z_MSG_MAX_BLOBS \<and> unat (sc_tcount sc) \<le> Z_MSG_MAX_TABLES \<and>
     unat (sc_icount sc) \<le> Z_MSG_MAX_ITEMS \<and> unat (sc_bcount sc) \<le> Z_MSG_MAX_BLOBS"

primrec slot_in :: "slot \<Rightarrow> bool" where
  "slot_in Top = True"
| "slot_in (Item i) = (i < Z_MSG_MAX_ITEMS)"

definition absurd_len :: "(u32 \<Rightarrow> u32) \<Rightarrow> u32 \<Rightarrow> bool" where
  "absurd_len mem a \<longleftrightarrow> unat (t_len (read_table mem a)) \<ge> 2147483640"

lemma put_slot_frame [frame_simps]:
  "sc_tables (put_slot l x sc) = sc_tables sc" "sc_blobs (put_slot l x sc) = sc_blobs sc"
  "sc_tcount (put_slot l x sc) = sc_tcount sc" "sc_icount (put_slot l x sc) = sc_icount sc"
  "sc_bcount (put_slot l x sc) = sc_bcount sc"
  by (cases l; simp)+

lemma length_items_put_slot [simp]: "length (sc_items (put_slot l x sc)) = length (sc_items sc)"
  by (cases l) simp_all

lemma get_put_slot:
  "sc_wf sc \<Longrightarrow> slot_in l \<Longrightarrow> get_slot k (put_slot l x sc) = (if k = l then x else get_slot k sc)"
  by (cases l; cases k) (auto simp: sc_wf_def)

lemma set_none_frame [frame_simps]:
  "sc_tables (set_none l sc) = sc_tables sc" "sc_blobs (set_none l sc) = sc_blobs sc"
  "sc_tcount (set_none l sc) = sc_tcount sc" "sc_icount (set_none l sc) = sc_icount sc"
  "sc_bcount (set_none l sc) = sc_bcount sc"
  by (simp_all add: set_none_def frame_simps)

lemma set_val_frame [frame_simps]:
  "sc_tables (set_val l v sc) = sc_tables sc" "sc_blobs (set_val l v sc) = sc_blobs sc"
  "sc_tcount (set_val l v sc) = sc_tcount sc" "sc_icount (set_val l v sc) = sc_icount sc"
  "sc_bcount (set_val l v sc) = sc_bcount sc"
  by (simp_all add: set_val_def frame_simps)

lemma length_items_set [simp]:
  "length (sc_items (set_none l sc)) = length (sc_items sc)"
  "length (sc_items (set_val l v sc)) = length (sc_items sc)"
  by (simp_all add: set_none_def set_val_def)

lemma put_slot_wf [inv_intros]: "sc_wf sc \<Longrightarrow> sc_wf (put_slot l x sc)"
  by (simp add: sc_wf_def frame_simps)

lemma set_none_wf [inv_intros]: "sc_wf sc \<Longrightarrow> sc_wf (set_none l sc)"
  by (simp add: set_none_def put_slot_wf)

lemma set_val_wf [inv_intros]: "sc_wf sc \<Longrightarrow> sc_wf (set_val l v sc)"
  by (simp add: set_val_def put_slot_wf)

lemma get_set_val:
  "sc_wf sc \<Longrightarrow> slot_in l \<Longrightarrow>
   get_slot k (set_val l v sc) = (if k = l then (get_slot l sc)\<lparr>obj_val := v\<rparr> else get_slot k sc)"
  by (simp add: set_val_def get_put_slot)

lemma get_set_none:
  "sc_wf sc \<Longrightarrow> slot_in l \<Longrightarrow>
   get_slot k (set_none l sc) = (if k = l then (get_slot l sc)\<lparr>obj_type := Z_NONE\<rparr> else get_slot k sc)"
  by (simp add: set_none_def get_put_slot)

lemma resolve_blob_wf:
  assumes "sc_wf sc" "slot_in l" "resolve_blob mem base pid m l sc = (rv, sc')"
  shows "sc_wf sc' \<and> sc_tcount sc' = sc_tcount sc \<and> (rv \<noteq> Z_OK \<longrightarrow> obj_type (get_slot l sc') = Z_NONE)"
proof (cases "unat (sc_bcount sc) \<ge> Z_MSG_MAX_BLOBS \<or> z_translate base pid (obj_val (get_slot l sc)) = 0")
  case True
  with assms show ?thesis
    by (auto simp: resolve_blob_def Let_def frame_simps get_set_none inv_intros split: if_splits)
next
  case False
  then have "unat (sc_bcount sc + 1) = unat (sc_bcount sc) + 1"
    by (simp add: unat_plus_nowrap)
  with False assms show ?thesis
    by (auto simp: resolve_blob_def Let_def frame_simps sc_wf_def)
qed

lemma resolve_table_wf:
  assumes "sc_wf sc" "unat (sc_tcount sc) < Z_MSG_MAX_TABLES"
    "unat (sc_icount sc + len * (if is_map then 2 else 1)) \<le> Z_MSG_MAX_ITEMS"
  shows "sc_wf (resolve_table m is_map len sc)"
    "unat (sc_tcount (resolve_table m is_map len sc)) = unat (sc_tcount sc) + 1"
proof -
  show t: "unat (sc_tcount (resolve_table m is_map len sc)) = unat (sc_tcount sc) + 1"
    using assms(2) by (simp add: resolve_table_def Let_def unat_plus_nowrap)
  show "sc_wf (resolve_table m is_map len sc)"
    using assms t by (auto simp: sc_wf_def resolve_table_def Let_def add.assoc mult_2_right)
qed

text \<open>What a call of the resolution guarantees, given a lower bound on the tables already in use.\<close>

definition resolve_post :: "(u32 \<Rightarrow> u32) \<Rightarrow> nat \<Rightarrow> slot \<Rightarrow> resolve_fault + u32 \<times> scratch \<Rightarrow> bool" where
  "resolve_post mem t l r \<longleftrightarrow>
     (case r of
        Inl f \<Rightarrow> (\<exists>a. f = Overrun a \<and> absurd_len mem a)
      | Inr (rv, sc) \<Rightarrow> sc_wf sc \<and> t \<le> unat (sc_tcount sc) \<and>
          (rv \<noteq> Z_OK \<longrightarrow> obj_type (get_slot l sc) = Z_NONE))"

lemma resolve_slot_post:
  assumes "\<And>k sc. sc_wf sc \<Longrightarrow> slot_in k \<Longrightarrow> t \<le> unat (sc_tcount sc) \<Longrightarrow> resolve_post mem t k (rslv k sc)"
    and "sc_wf sc" "t \<le> unat (sc_tcount sc)" "absurd_len mem src \<or> k < Z_MSG_MAX_ITEMS"
  shows "resolve_post mem t (Item k) (resolve_slot rslv mem src sa k sc)"
proof (cases "k < Z_MSG_MAX_ITEMS")
  case True
  then show ?thesis
    using assms(1) [of "put_slot (Item k) (read_obj mem sa) sc" "Item k"] assms(2,3)
    by (simp add: resolve_slot_def inv_intros frame_simps del: put_slot.simps)
next
  case False
  then show ?thesis using assms(4) by (simp add: resolve_slot_def resolve_post_def)
qed

lemma resolve_items_post:
  assumes "\<And>k sc. sc_wf sc \<Longrightarrow> slot_in k \<Longrightarrow> t \<le> unat (sc_tcount sc) \<Longrightarrow> resolve_post mem t k (rslv k sc)"
    and "sc_wf sc" "t \<le> unat (sc_tcount sc)"
    and "absurd_len mem src \<or>
      (a0 + i + n \<le> Z_MSG_MAX_ITEMS \<and> (is_map \<longrightarrow> b0 + i + n \<le> Z_MSG_MAX_ITEMS))"
  shows "case resolve_items rslv mem base pid src is_map a0 b0 i n sc of
      Inl f \<Rightarrow> \<exists>a. f = Overrun a \<and> absurd_len mem a
    | Inr (rv, sc') \<Rightarrow> sc_wf sc' \<and> t \<le> unat (sc_tcount sc')"
  using assms(2-)
proof (induction n arbitrary: i sc)
  case 0
  then show ?case by simp
next
  case (Suc n)
  let ?a = "resolve_slot rslv mem src (elem_addr base pid (t_a (read_table mem src)) i) (a0 + i)"
  let ?b = "resolve_slot rslv mem src (elem_addr base pid (t_b (read_table mem src)) i) (b0 + i)"
  have slot: "resolve_post mem t (Item k) (resolve_slot rslv mem src sa k sc')"
    if "sc_wf sc'" "t \<le> unat (sc_tcount sc')" "absurd_len mem src \<or> k < Z_MSG_MAX_ITEMS" for sa k sc'
    by (rule resolve_slot_post [OF assms(1) that])
  have next_iter: "absurd_len mem src \<or>
      (a0 + Suc i + n \<le> Z_MSG_MAX_ITEMS \<and> (is_map \<longrightarrow> b0 + Suc i + n \<le> Z_MSG_MAX_ITEMS))"
    using Suc.prems(3) by auto
  have a: "resolve_post mem t (Item (a0 + i)) (?a sc)"
    using Suc.prems by (intro slot) auto
  show ?case
  proof (cases "?a sc")
    case (Inl f)
    with a show ?thesis by (simp add: resolve_post_def)
  next
    case (Inr r)
    then obtain rv sc1 where r: "?a sc = Inr (rv, sc1)" by (cases r) auto
    with a have wf1: "sc_wf sc1" "t \<le> unat (sc_tcount sc1)" by (simp_all add: resolve_post_def)
    have IH1: "case resolve_items rslv mem base pid src is_map a0 b0 (Suc i) n sc1 of
        Inl f \<Rightarrow> \<exists>a. f = Overrun a \<and> absurd_len mem a
      | Inr (rv, sc') \<Rightarrow> sc_wf sc' \<and> t \<le> unat (sc_tcount sc')"
      by (rule Suc.IH [OF wf1 next_iter])
    have b: "resolve_post mem t (Item (b0 + i)) (?b sc1)" if is_map
      using Suc.prems that by (intro slot wf1) auto
    have IH2: "case resolve_items rslv mem base pid src is_map a0 b0 (Suc i) n sc2 of
        Inl f \<Rightarrow> \<exists>a. f = Overrun a \<and> absurd_len mem a
      | Inr (rv, sc') \<Rightarrow> sc_wf sc' \<and> t \<le> unat (sc_tcount sc')"
      if "?b sc1 = Inr (rv2, sc2)" is_map for rv2 sc2
      using b that by (intro Suc.IH next_iter) (simp_all add: resolve_post_def)
    show ?thesis
      using r wf1 IH1 IH2 b
      by (cases "?b sc1") (auto simp: resolve_post_def split: sum.splits prod.splits)
  qed
qed

lemma z_resolve_obj_post:
  "sc_wf sc \<Longrightarrow> slot_in l \<Longrightarrow> fuel + unat (sc_tcount sc) \<ge> 5 \<Longrightarrow>
   resolve_post mem (unat (sc_tcount sc)) l (z_resolve_obj fuel mem base pid m l sc)"
proof (induction fuel arbitrary: l sc)
  case 0
  then show ?case by (simp add: sc_wf_def)
next
  case (Suc fuel)
  let ?ty = "obj_type (get_slot l sc)"
  let ?src = "z_translate base pid (obj_val (get_slot l sc))"
  let ?map = "?ty = Z_MAP"
  let ?len = "t_len (read_table mem ?src)"
  let ?t = "unat (sc_tcount sc)"
  let ?items = "resolve_items (z_resolve_obj fuel mem base pid m) mem base pid ?src ?map
      (unat (sc_icount sc)) (unat (sc_icount sc + ?len)) 0 (unat ?len) (resolve_table m ?map ?len sc)"
  have blob: "resolve_post mem ?t l (Inr (resolve_blob mem base pid m l sc))"
    using resolve_blob_wf [OF Suc.prems(1,2), of mem base pid m]
    by (cases "resolve_blob mem base pid m l sc") (auto simp: resolve_post_def)
  have table: "resolve_post mem ?t l (case ?items of Inl f \<Rightarrow> Inl f
      | Inr (rv, sc) \<Rightarrow> if rv \<noteq> Z_OK then Inr (Z_FAIL, set_none l sc)
                       else Inr (Z_OK, set_val l v sc))"
    if room: "?t < Z_MSG_MAX_TABLES" "unat (sc_icount sc + table_need (read_table mem ?src) ?map) \<le> Z_MSG_MAX_ITEMS"
    for v
  proof -
    have fits: "absurd_len mem ?src \<or> (unat (sc_icount sc) + 0 + unat ?len \<le> Z_MSG_MAX_ITEMS \<and>
        (?map \<longrightarrow> unat (sc_icount sc + ?len) + 0 + unat ?len \<le> Z_MSG_MAX_ITEMS))"
    proof (cases "absurd_len mem ?src")
      case False
      then have small: "unat ?len < 2147483640" by (simp add: absurd_len_def)
      have i: "unat (sc_icount sc) \<le> 16" using Suc.prems(1) by (simp add: sc_wf_def)
      have sum: "unat (sc_icount sc + ?len) = unat (sc_icount sc) + unat ?len"
        using small i by (intro unat_plus_nowrap) simp
      have sum2: "unat (sc_icount sc + ?len + ?len) = unat (sc_icount sc) + unat ?len + unat ?len"
        using small i sum by (subst unat_plus_nowrap) simp_all
      show ?thesis
        using room(2) sum sum2 by (cases ?map) (simp_all add: table_need_def mult_2_right add.assoc)
    qed simp
    note wf = resolve_table_wf [OF Suc.prems(1) room(1), of ?len ?map m]
    have "case ?items of Inl f \<Rightarrow> \<exists>a. f = Overrun a \<and> absurd_len mem a
      | Inr (rv, sc') \<Rightarrow> sc_wf sc' \<and> ?t + 1 \<le> unat (sc_tcount sc')"
    proof (rule resolve_items_post [OF _ _ _ fits])
      fix k sc' assume "sc_wf sc'" "slot_in k" "?t + 1 \<le> unat (sc_tcount sc')"
      with Suc.IH [of sc' k] Suc.prems(3)
      show "resolve_post mem (?t + 1) k (z_resolve_obj fuel mem base pid m k sc')"
        by (auto simp: resolve_post_def split: sum.splits prod.splits)
    qed (use wf room(2) in \<open>simp_all add: table_need_def\<close>)
    then show ?thesis
      using Suc.prems(2)
      by (auto simp: resolve_post_def get_set_none inv_intros frame_simps split: sum.splits prod.splits)
  qed
  show ?case
    using Suc.prems blob table
    by (auto simp: resolve_post_def Let_def inv_intros frame_simps get_set_none not_le)
qed

section \<open>What the receiver sees is what the sender sent\<close>

text \<open>
  The value an object stands for: read from the sender's memory through the sender's own pointers,
  and read by the receiver from the resolved message. The receiver's reading is confined to the
  tables in use and to the items from \<open>lo\<close> up to \<open>hi\<close>.
\<close>

datatype payload =
    PNone
  | PScalar u32 u32
  | PStr u32
  | PBlob u32 u32
  | PList "payload list"
  | PMap "payload list" "payload list"

text \<open>The values of \<open>n\<close> consecutive elements.\<close>

definition elems :: "nat \<Rightarrow> (nat \<Rightarrow> payload option) \<Rightarrow> payload list option" where
  "elems n f = those (map f [0..<n])"

definition elems_in :: "nat \<Rightarrow> nat \<Rightarrow> nat \<Rightarrow> nat \<Rightarrow> (nat \<Rightarrow> payload option) \<Rightarrow> payload list option" where
  "elems_in lo hi k n f = (if lo \<le> k \<and> k + n \<le> hi then elems n (\<lambda>i. f (k + i)) else None)"

definition pair_elems :: "payload list option \<Rightarrow> payload list option \<Rightarrow> payload option" where
  "pair_elems ks vs = (case ks of None \<Rightarrow> None | Some ks \<Rightarrow> map_option (PMap ks) vs)"

primrec payload_src :: "nat \<Rightarrow> (u32 \<Rightarrow> u32) \<Rightarrow> u32 \<Rightarrow> u32 \<Rightarrow> z_obj \<Rightarrow> payload option" where
  "payload_src 0 mem base pid x = None"
| "payload_src (Suc d) mem base pid x =
     (let ty = obj_type x; a = z_translate base pid (obj_val x); t = read_table mem a;
          els = (\<lambda>p. elems (unat (t_len t)) (\<lambda>i. payload_src d mem base pid
                     (read_obj mem (elem_addr base pid p i)))) in
      if ty \<in> {Z_RETVAL, Z_UINT32, Z_INT32, Z_FLOAT32} then Some (PScalar ty (obj_val x))
      else if ty = Z_STR then Some (PStr a)
      else if a = 0 then Some PNone
      else if ty = Z_BLOB then
        Some (PBlob (b_len (read_blob mem a)) (z_translate base pid (b_data (read_blob mem a))))
      else if ty = Z_LIST then map_option PList (els (t_a t))
      else if ty = Z_MAP then pair_elems (els (t_a t)) (els (t_b t))
      else Some PNone)"

definition table_ix :: "u32 \<Rightarrow> u32 \<Rightarrow> nat" where "table_ix m a = unat (a - tables_at m) div 12"
definition item_ix :: "u32 \<Rightarrow> u32 \<Rightarrow> nat" where "item_ix m a = unat (a - items_at m) div 8"
definition blob_ix :: "u32 \<Rightarrow> u32 \<Rightarrow> nat" where "blob_ix m a = unat (a - blobs_at m) div 8"

primrec payload_dst :: "nat \<Rightarrow> u32 \<Rightarrow> nat \<Rightarrow> nat \<Rightarrow> scratch \<Rightarrow> z_obj \<Rightarrow> payload option" where
  "payload_dst 0 m lo hi sc x = None"
| "payload_dst (Suc d) m lo hi sc x =
     (let ty = obj_type x; a = obj_val x; t = sc_tables sc ! table_ix m a;
          els = (\<lambda>p. elems_in lo hi (item_ix m p) (unat (t_len t))
                       (\<lambda>i. payload_dst d m lo hi sc (sc_items sc ! i))) in
      if ty \<in> {Z_RETVAL, Z_UINT32, Z_INT32, Z_FLOAT32} then Some (PScalar ty a)
      else if ty = Z_STR then Some (PStr a)
      else if ty = Z_BLOB then
        (if blob_ix m a < unat (sc_bcount sc) then
           Some (PBlob (b_len (sc_blobs sc ! blob_ix m a)) (b_data (sc_blobs sc ! blob_ix m a)))
         else None)
      else if ty = Z_LIST \<or> ty = Z_MAP then
        (if table_ix m a \<ge> unat (sc_tcount sc) then None
         else if ty = Z_LIST then map_option PList (els (t_a t))
         else pair_elems (els (t_a t)) (els (t_b t)))
      else Some PNone)"

lemma table_ix_at [simp]: "k < 4 \<Longrightarrow> table_ix m (tables_at m + 12 * word_of_nat k) = k"
  by (simp add: table_ix_def unat_word_ariths unat_of_nat)

lemma item_ix_at [simp]: "unat k \<le> 16 \<Longrightarrow> item_ix m (items_at m + 8 * k) = unat k"
  by (simp add: item_ix_def unat_word_ariths)

lemma blob_ix_at [simp]: "k < 2 \<Longrightarrow> blob_ix m (blobs_at m + 8 * word_of_nat k) = k"
  by (simp add: blob_ix_def unat_word_ariths unat_of_nat)

text \<open>
  The scratch area only grows: what is in use is left alone, but for the slots of \<open>X\<close>.
\<close>

definition slot_used :: "scratch \<Rightarrow> slot \<Rightarrow> bool" where
  "slot_used sc l = (case l of Top \<Rightarrow> True | Item k \<Rightarrow> k < unat (sc_icount sc))"

definition grows :: "slot set \<Rightarrow> scratch \<Rightarrow> scratch \<Rightarrow> bool" where
  "grows X sc sc' \<longleftrightarrow>
     unat (sc_tcount sc) \<le> unat (sc_tcount sc') \<and> unat (sc_icount sc) \<le> unat (sc_icount sc') \<and>
     unat (sc_bcount sc) \<le> unat (sc_bcount sc') \<and>
     (\<forall>t < unat (sc_tcount sc). sc_tables sc' ! t = sc_tables sc ! t) \<and>
     (\<forall>b < unat (sc_bcount sc). sc_blobs sc' ! b = sc_blobs sc ! b) \<and>
     (\<forall>l. slot_used sc l \<longrightarrow> l \<notin> X \<longrightarrow> get_slot l sc' = get_slot l sc)"

lemma grows_refl [simp]: "grows X sc sc"
  by (simp add: grows_def)

lemma grows_used: "grows X sc sc' \<Longrightarrow> slot_used sc l \<Longrightarrow> slot_used sc' l"
  by (auto simp: grows_def slot_used_def split: slot.splits)

lemma grows_get: "grows X sc sc' \<Longrightarrow> slot_used sc l \<Longrightarrow> l \<notin> X \<Longrightarrow> get_slot l sc' = get_slot l sc"
  by (simp add: grows_def)

lemma grows_trans:
  assumes "grows X a b" "grows Y b c"
  shows "grows (X \<union> Y) a c"
proof -
  have "get_slot l c = get_slot l a" if "slot_used a l" "l \<notin> X \<union> Y" for l
    using that assms grows_used [OF assms(1), of l] by (simp add: grows_get)
  then show ?thesis using assms by (simp add: grows_def)
qed

lemma grows_mono: "grows X a b \<Longrightarrow> X \<subseteq> Y \<Longrightarrow> grows Y a b"
  by (auto simp: grows_def)

lemma elems_in_mono:
  assumes "elems_in lo hi k n f = Some ps" "lo' \<le> lo" "hi \<le> hi'"
    "\<And>i p. lo \<le> i \<Longrightarrow> i < hi \<Longrightarrow> f i = Some p \<Longrightarrow> g i = Some p"
  shows "elems_in lo' hi' k n g = Some ps"
  using assms by (auto simp: elems_in_def elems_def split: if_splits elim!: those_map_mono)

lemma pair_elems_Some:
  "pair_elems ks vs = Some p \<longleftrightarrow> (\<exists>k v. ks = Some k \<and> vs = Some v \<and> p = PMap k v)"
  by (cases ks; cases vs) (auto simp: pair_elems_def)

lemma payload_dst_grows:
  assumes "grows X sc sc'" "\<And>k. Item k \<in> X \<Longrightarrow> k < lo \<or> hi \<le> k" "hi \<le> unat (sc_icount sc)"
    "lo' \<le> lo" "hi \<le> hi'"
  shows "payload_dst d m lo hi sc x = Some p \<Longrightarrow> payload_dst d m lo' hi' sc' x = Some p"
proof (induction d arbitrary: x p)
  case (Suc d)
  have item: "sc_items sc' ! k = sc_items sc ! k" if "lo \<le> k" "k < hi" for k
    using grows_get [OF assms(1), of "Item k"] that assms(2) [of k] assms(3)
    by (auto simp: slot_used_def)
  have els: "elems_in lo' hi' k n (\<lambda>i. payload_dst d m lo' hi' sc' (sc_items sc' ! i)) = Some ps"
    if "elems_in lo hi k n (\<lambda>i. payload_dst d m lo hi sc (sc_items sc ! i)) = Some ps" for k n ps
    using that by (rule elems_in_mono) (use assms(4,5) Suc.IH item in auto)
  have t: "table_ix m (obj_val x) < unat (sc_tcount sc) \<Longrightarrow> table_ix m (obj_val x) < unat (sc_tcount sc') \<and>
      sc_tables sc' ! table_ix m (obj_val x) = sc_tables sc ! table_ix m (obj_val x)"
    using assms(1) by (auto simp: grows_def)
  have b: "blob_ix m (obj_val x) < unat (sc_bcount sc) \<Longrightarrow> blob_ix m (obj_val x) < unat (sc_bcount sc') \<and>
      sc_blobs sc' ! blob_ix m (obj_val x) = sc_blobs sc ! blob_ix m (obj_val x)"
    using assms(1) by (auto simp: grows_def)
  consider "obj_type x = Z_BLOB" | "obj_type x = Z_LIST" | "obj_type x = Z_MAP"
    | "obj_type x \<notin> {Z_BLOB, Z_LIST, Z_MAP}" by blast
  then show ?case
  proof cases
    case 1
    with Suc.prems b show ?thesis by (simp add: Let_def split: if_splits)
  next
    case 2
    with Suc.prems t els show ?thesis by (auto simp add: Let_def split: if_splits)
  next
    case 3
    with Suc.prems t els show ?thesis by (auto simp add: Let_def pair_elems_Some split: if_splits)
  next
    case 4
    with Suc.prems show ?thesis by (auto simp: Let_def split: if_splits)
  qed
qed simp

text \<open>The same value on both sides.\<close>

definition same ::
  "nat \<Rightarrow> (u32 \<Rightarrow> u32) \<Rightarrow> u32 \<Rightarrow> u32 \<Rightarrow> u32 \<Rightarrow> nat \<Rightarrow> nat \<Rightarrow> scratch \<Rightarrow> z_obj \<Rightarrow> z_obj \<Rightarrow> bool" where
  "same d mem base pid m lo hi sc x y \<longleftrightarrow>
     (\<exists>p. payload_src d mem base pid x = Some p \<and> payload_dst d m lo hi sc y = Some p)"

definition faithful ::
  "nat \<Rightarrow> (u32 \<Rightarrow> u32) \<Rightarrow> u32 \<Rightarrow> u32 \<Rightarrow> u32 \<Rightarrow> slot \<Rightarrow> z_obj \<Rightarrow> scratch \<Rightarrow> scratch \<Rightarrow> bool" where
  "faithful d mem base pid m l x sc sc' \<longleftrightarrow>
     sc_wf sc' \<and> grows {l} sc sc' \<and>
     same d mem base pid m (unat (sc_icount sc)) (unat (sc_icount sc')) sc' x (get_slot l sc')"

lemma slot_used_in: "sc_wf sc \<Longrightarrow> slot_used sc l \<Longrightarrow> slot_in l"
  by (cases l) (auto simp: slot_used_def sc_wf_def)

lemma grows_put: "sc_wf sc \<Longrightarrow> slot_used sc l \<Longrightarrow> grows {l} sc (put_slot l x sc)"
  by (auto simp: grows_def frame_simps get_put_slot slot_used_in)

lemma same_grows:
  assumes "same d mem base pid m lo hi sc x y" "grows X sc sc'"
    "\<And>k. Item k \<in> X \<Longrightarrow> k < lo" "hi \<le> unat (sc_icount sc)" "lo' \<le> lo" "hi \<le> hi'"
  shows "same d mem base pid m lo' hi' sc' x y"
  using assms(1) payload_dst_grows [OF assms(2) _ assms(4-6)] assms(3)
  unfolding same_def by blast

text \<open>The slots of a table from the \<open>i\<close>-th on, for \<open>n\<close> of them.\<close>

definition table_slots :: "bool \<Rightarrow> nat \<Rightarrow> nat \<Rightarrow> nat \<Rightarrow> nat \<Rightarrow> slot set" where
  "table_slots is_map a0 b0 i n =
     Item ` {a0 + i..<a0 + i + n} \<union> (if is_map then Item ` {b0 + i..<b0 + i + n} else {})"

lemma resolve_slot_faithful:
  assumes "\<And>l sc sc'. sc_wf sc \<Longrightarrow> slot_used sc l \<Longrightarrow> rslv l sc = Inr (Z_OK, sc') \<Longrightarrow>
      faithful d mem base pid m l (get_slot l sc) sc sc'"
    and "sc_wf sc" "k < unat (sc_icount sc)" "resolve_slot rslv mem src sa k sc = Inr (Z_OK, sc')"
  shows "faithful d mem base pid m (Item k) (read_obj mem sa) sc sc'"
proof -
  let ?x = "read_obj mem sa" let ?sc = "put_slot (Item k) ?x sc"
  have used: "slot_used sc (Item k)" using assms(3) by (simp add: slot_used_def)
  have "faithful d mem base pid m (Item k) (get_slot (Item k) ?sc) ?sc sc'"
    using assms(2,4) used
    by (intro assms(1)) (auto simp: inv_intros frame_simps slot_used_def resolve_slot_def
        simp del: put_slot.simps split: if_splits)
  moreover have "get_slot (Item k) ?sc = ?x"
    using get_put_slot [OF assms(2) slot_used_in [OF assms(2) used]] by simp
  ultimately show ?thesis
    using grows_trans [OF grows_put [OF assms(2) used, of ?x], of "{Item k}" sc']
    by (auto simp: faithful_def frame_simps simp del: put_slot.simps)
qed

lemma resolve_slot_later:
  assumes f: "faithful d mem base pid m (Item k) x sc sc1" and g: "grows X sc1 sc'"
    and X: "X \<subseteq> Item ` {..<unat (sc_icount sc)}" "Item k \<notin> X" and k: "k < unat (sc_icount sc)"
  shows "same d mem base pid m (unat (sc_icount sc)) (unat (sc_icount sc')) sc' x (sc_items sc' ! k)"
proof -
  have "slot_used sc1 (Item k)"
    using f k by (auto simp: faithful_def grows_def slot_used_def)
  then have "sc_items sc' ! k = get_slot (Item k) sc1"
    using grows_get [OF g, of "Item k"] X by simp
  moreover have "same d mem base pid m (unat (sc_icount sc)) (unat (sc_icount sc')) sc' x (get_slot (Item k) sc1)"
    using f X g by (intro same_grows [OF _ g, of _ _ _ _ _ "unat (sc_icount sc)" "unat (sc_icount sc1)"])
      (auto simp: faithful_def grows_def)
  ultimately show ?thesis by simp
qed

text \<open>One turn of the loop that went well.\<close>

lemma resolve_items_SucE:
  assumes "resolve_items rslv mem base pid src is_map a0 b0 i (Suc n) sc = Inr (Z_OK, sc')"
  obtains sc1 sc2 where
    "resolve_slot rslv mem src (elem_addr base pid (t_a (read_table mem src)) i) (a0 + i) sc
       = Inr (Z_OK, sc1)"
    "if is_map then
       resolve_slot rslv mem src (elem_addr base pid (t_b (read_table mem src)) i) (b0 + i) sc1
         = Inr (Z_OK, sc2)
     else sc2 = sc1"
    "resolve_items rslv mem base pid src is_map a0 b0 (Suc i) n sc2 = Inr (Z_OK, sc')"
  using assms by (auto split: sum.splits prod.splits if_splits)

lemma resolve_slot_fits: "resolve_slot rslv mem src sa k sc = Inr r \<Longrightarrow> k < Z_MSG_MAX_ITEMS"
  by (simp add: resolve_slot_def split: if_splits)

lemma resolve_items_fits:
  "resolve_items rslv mem base pid src is_map a0 b0 i n sc = Inr (Z_OK, sc') \<Longrightarrow> n > 0 \<Longrightarrow>
   a0 + i + n \<le> Z_MSG_MAX_ITEMS \<and> (is_map \<longrightarrow> b0 + i + n \<le> Z_MSG_MAX_ITEMS)"
proof (induction n arbitrary: i sc)
  case (Suc n)
  from Suc.prems(1) obtain sc1 sc2 where
    "a0 + i < Z_MSG_MAX_ITEMS" "is_map \<longrightarrow> b0 + i < Z_MSG_MAX_ITEMS"
    "resolve_items rslv mem base pid src is_map a0 b0 (Suc i) n sc2 = Inr (Z_OK, sc')"
    by (elim resolve_items_SucE) (auto dest: resolve_slot_fits split: if_splits)
  with Suc.IH [of "Suc i" sc2] show ?case by (cases n) auto
qed simp

lemma resolve_items_faithful:
  assumes rslv: "\<And>l sc sc'. sc_wf sc \<Longrightarrow> slot_used sc l \<Longrightarrow> rslv l sc = Inr (Z_OK, sc') \<Longrightarrow>
      faithful d mem base pid m l (get_slot l sc) sc sc'"
    and "sc_wf sc" "a0 + i + n \<le> unat (sc_icount sc)"
    and "is_map \<longrightarrow> a0 + i + n \<le> b0 + i \<and> b0 + i + n \<le> unat (sc_icount sc)"
    and "resolve_items rslv mem base pid src is_map a0 b0 i n sc = Inr (Z_OK, sc')"
  shows "sc_wf sc' \<and> grows (table_slots is_map a0 b0 i n) sc sc' \<and>
    (\<forall>j<n. same d mem base pid m (unat (sc_icount sc)) (unat (sc_icount sc')) sc'
       (read_obj mem (elem_addr base pid (t_a (read_table mem src)) (i + j))) (sc_items sc' ! (a0 + i + j))) \<and>
    (is_map \<longrightarrow> (\<forall>j<n. same d mem base pid m (unat (sc_icount sc)) (unat (sc_icount sc')) sc'
       (read_obj mem (elem_addr base pid (t_b (read_table mem src)) (i + j))) (sc_items sc' ! (b0 + i + j))))"
  using assms(2-)
proof (induction n arbitrary: i sc)
  case 0
  then show ?case by (simp add: table_slots_def)
next
  case (Suc n)
  let ?xa = "\<lambda>j. read_obj mem (elem_addr base pid (t_a (read_table mem src)) j)"
  let ?xb = "\<lambda>j. read_obj mem (elem_addr base pid (t_b (read_table mem src)) j)"
  from Suc.prems(4) obtain sc1 sc2 where
    a: "resolve_slot rslv mem src (elem_addr base pid (t_a (read_table mem src)) i) (a0 + i) sc
          = Inr (Z_OK, sc1)" and
    b: "if is_map then
          resolve_slot rslv mem src (elem_addr base pid (t_b (read_table mem src)) i) (b0 + i) sc1
            = Inr (Z_OK, sc2)
        else sc2 = sc1" and
    rest: "resolve_items rslv mem base pid src is_map a0 b0 (Suc i) n sc2 = Inr (Z_OK, sc')"
    by (rule resolve_items_SucE)
  have fa: "faithful d mem base pid m (Item (a0 + i)) (?xa i) sc sc1"
    by (rule resolve_slot_faithful [OF _ Suc.prems(1) _ a]) (use rslv Suc.prems(2) in simp_all)
  then have 1: "sc_wf sc1" "grows {Item (a0 + i)} sc sc1" "unat (sc_icount sc) \<le> unat (sc_icount sc1)"
    by (auto simp: faithful_def grows_def)
  have fb: "faithful d mem base pid m (Item (b0 + i)) (?xb i) sc1 sc2" if is_map
    by (rule resolve_slot_faithful [OF _ 1(1)]) (use rslv b that Suc.prems(3) 1(3) in simp_all)
  let ?B = "if is_map then {Item (b0 + i)} else {}"
  have 2: "sc_wf sc2" "grows ?B sc1 sc2"
    using fb b 1(1) by (auto simp: faithful_def split: if_splits)
  then have le2: "unat (sc_icount sc1) \<le> unat (sc_icount sc2)" by (simp add: grows_def)
  let ?X = "table_slots is_map a0 b0 (Suc i) n"
  note IH = Suc.IH [OF 2(1) _ _ rest]
  have IH: "sc_wf sc'" "grows ?X sc2 sc'"
    "\<And>j. j < n \<Longrightarrow> same d mem base pid m (unat (sc_icount sc2)) (unat (sc_icount sc')) sc'
       (?xa (Suc i + j)) (sc_items sc' ! (a0 + Suc i + j))"
    "\<And>j. is_map \<Longrightarrow> j < n \<Longrightarrow> same d mem base pid m (unat (sc_icount sc2)) (unat (sc_icount sc')) sc'
       (?xb (Suc i + j)) (sc_items sc' ! (b0 + Suc i + j))"
    using IH Suc.prems(2,3) 1(3) le2 by auto
  have wide: "same d mem base pid m (unat (sc_icount sc)) (unat (sc_icount sc')) sc' x y"
    if "same d mem base pid m (unat (sc_icount s)) (unat (sc_icount sc')) sc' x y"
      "unat (sc_icount sc) \<le> unat (sc_icount s)" "unat (sc_icount sc') \<le> unat (sc_icount sc')" for x y s
    using that by (intro same_grows [OF that(1) grows_refl, of "{}"]) auto
  have X: "?B \<union> ?X \<subseteq> Item ` {..<unat (sc_icount sc)}" "Item (a0 + i) \<notin> ?B \<union> ?X" "Item (b0 + i) \<notin> ?X \<or> \<not> is_map"
    using Suc.prems(2,3) by (auto simp: table_slots_def)
  have g1: "grows (?B \<union> ?X) sc1 sc'" by (rule grows_trans [OF 2(2) IH(2)])
  have sa: "same d mem base pid m (unat (sc_icount sc)) (unat (sc_icount sc')) sc' (?xa i) (sc_items sc' ! (a0 + i))"
    using resolve_slot_later [OF fa g1 X(1,2)] Suc.prems(2) by simp
  have "?X \<subseteq> Item ` {..<unat (sc_icount sc1)}"
    using X(1) 1(3) by fastforce
  then have "same d mem base pid m (unat (sc_icount sc1)) (unat (sc_icount sc')) sc' (?xb i) (sc_items sc' ! (b0 + i))" if is_map
    using resolve_slot_later [OF fb IH(2)] X(3) that 1(3) Suc.prems(3) by simp
  then have sb: "same d mem base pid m (unat (sc_icount sc)) (unat (sc_icount sc')) sc' (?xb i) (sc_items sc' ! (b0 + i))" if is_map
    using that 1(3) by (intro wide) auto
  have all: "(\<forall>j<Suc n. P j) \<longleftrightarrow> P 0 \<and> (\<forall>j<n. P (Suc j))" for P :: "nat \<Rightarrow> bool"
    by (auto simp: less_Suc_eq_0_disj)
  have le: "unat (sc_icount sc) \<le> unat (sc_icount sc2)" using 1(3) le2 by simp
  have "grows (table_slots is_map a0 b0 i (Suc n)) sc sc'"
    by (rule grows_mono [OF grows_trans [OF 1(2) g1]]) (auto simp: table_slots_def)
  then show ?case
    using IH(1) sa sb wide [OF IH(3) le] wide [OF IH(4) le] by (simp add: all)
qed

lemma same_unfold:
  "same (Suc d) mem base pid m lo hi sc x y \<longleftrightarrow>
   payload_src (Suc d) mem base pid x \<noteq> None \<and>
   payload_src (Suc d) mem base pid x = payload_dst (Suc d) m lo hi sc y"
  by (auto simp: same_def simp del: payload_src.simps payload_dst.simps)

lemma resolve_blob_faithful:
  assumes "sc_wf sc" "slot_used sc l" "obj_type (get_slot l sc) = Z_BLOB"
    and "resolve_blob mem base pid m l sc = (Z_OK, sc')"
  shows "faithful (Suc d) mem base pid m l (get_slot l sc) sc sc'"
proof (cases "z_translate base pid (obj_val (get_slot l sc)) = 0")
  case True
  with assms show ?thesis
    by (auto simp: resolve_blob_def faithful_def set_none_def grows_put inv_intros frame_simps
        get_put_slot slot_used_in same_unfold Let_def)
next
  case False
  let ?src = "z_translate base pid (obj_val (get_slot l sc))"
  let ?k = "unat (sc_bcount sc)"
  let ?b = "\<lparr>b_len = b_len (read_blob mem ?src), b_data = z_translate base pid (b_data (read_blob mem ?src))\<rparr>"
  let ?sc = "sc\<lparr>sc_blobs := (sc_blobs sc)[?k := ?b], sc_bcount := sc_bcount sc + 1\<rparr>"
  from False assms(4) have room: "?k < 2" and sc': "sc' = set_val l (blobs_at m + 8 * of_nat ?k) ?sc"
    by (auto simp: resolve_blob_def Let_def split: if_splits)
  have b1: "unat (sc_bcount sc + 1) = ?k + 1" using room by (simp add: unat_plus_nowrap)
  have wf: "sc_wf ?sc" using assms(1) room b1 by (simp add: sc_wf_def)
  have used: "slot_used ?sc l" using assms(2) by (cases l) (simp_all add: slot_used_def)
  have "get_slot k ?sc = get_slot k sc" for k by (cases k) simp_all
  then have "grows {} sc ?sc" using assms(1) b1 by (simp add: grows_def sc_wf_def)
  from grows_trans [OF this grows_put [OF wf used]]
  have g: "grows {l} sc sc'" by (simp add: sc' set_val_def)
  have val: "get_slot l sc' = (get_slot l sc)\<lparr>obj_val := blobs_at m + 8 * of_nat ?k\<rparr>"
    using \<open>\<And>k. get_slot k ?sc = get_slot k sc\<close> get_set_val [OF wf slot_used_in [OF wf used]] by (simp add: sc')
  have blob: "sc_blobs sc' ! ?k = ?b" "?k < unat (sc_bcount sc')"
    using assms(1) room b1 by (simp_all add: sc' frame_simps sc_wf_def)
  have "same (Suc d) mem base pid m (unat (sc_icount sc)) (unat (sc_icount sc')) sc' (get_slot l sc) (get_slot l sc')"
    using assms(3) False blob blob_ix_at [OF room, of m] by (simp add: same_unfold Let_def val)
  then show ?thesis using g wf by (simp add: faithful_def sc' inv_intros)
qed

lemma elems_same:
  assumes "\<forall>j<n. same d mem base pid m lo hi sc (read_obj mem (elem_addr base pid p j)) (sc_items sc ! (k + j))"
    and "lo \<le> k" "k + n \<le> hi"
  obtains ps where
    "elems n (\<lambda>i. payload_src d mem base pid (read_obj mem (elem_addr base pid p i))) = Some ps"
    "elems_in lo hi k n (\<lambda>i. payload_dst d m lo hi sc (sc_items sc ! i)) = Some ps"
  using those_map_agree [of n "\<lambda>i. payload_src d mem base pid (read_obj mem (elem_addr base pid p i))"
      "\<lambda>i. payload_dst d m lo hi sc (sc_items sc ! (k + i))"] assms
  by (fastforce simp: same_def elems_def elems_in_def)

lemma resolve_table_faithful:
  assumes IH: "\<And>l sc sc'. sc_wf sc \<Longrightarrow> slot_used sc l \<Longrightarrow> z_resolve_obj fuel mem base pid m l sc = Inr (Z_OK, sc') \<Longrightarrow>
      faithful fuel mem base pid m l (get_slot l sc) sc sc'"
    and wf: "sc_wf sc" and used: "slot_used sc l"
    and ty: "obj_type (get_slot l sc) = (if is_map then Z_MAP else Z_LIST)"
    and src: "src = z_translate base pid (obj_val (get_slot l sc))" "src \<noteq> 0"
    and len: "len = t_len (read_table mem src)"
    and room: "unat (sc_tcount sc) < Z_MSG_MAX_TABLES"
      "unat (sc_icount sc + len * (if is_map then 2 else 1)) \<le> Z_MSG_MAX_ITEMS"
    and run: "resolve_items (z_resolve_obj fuel mem base pid m) mem base pid src is_map
                (unat (sc_icount sc)) (unat (sc_icount sc + len)) 0 (unat len)
                (resolve_table m is_map len sc) = Inr (Z_OK, sc')"
  shows "faithful (Suc fuel) mem base pid m l (get_slot l sc) sc
    (set_val l (tables_at m + 12 * of_nat (unat (sc_tcount sc))) sc')"
proof -
  let ?t = "unat (sc_tcount sc)" let ?k = "unat (sc_icount sc)" let ?n = "unat len"
  let ?s1 = "resolve_table m is_map len sc"
  let ?s2 = "set_val l (tables_at m + 12 * of_nat ?t) sc'"
  have i0: "?k \<le> 16" using wf by (simp add: sc_wf_def)
  have n: "?n \<le> 16"
    using resolve_items_fits [OF run] by (cases "?n = 0") auto
  have k1: "unat (sc_icount sc + len) = ?k + ?n"
    using i0 n by (intro unat_plus_nowrap) simp
  have k2: "unat (sc_icount sc + len + len) = ?k + ?n + ?n"
    using i0 n k1 by (subst unat_plus_nowrap) simp_all
  have ic1: "unat (sc_icount ?s1) = ?k + (if is_map then ?n + ?n else ?n)"
    using k1 k2 by (cases is_map) (simp_all add: resolve_table_def Let_def)
  have wf1: "sc_wf ?s1" using resolve_table_wf(1) [OF wf room] .
  have tc1: "unat (sc_tcount ?s1) = ?t + 1" using resolve_table_wf(2) [OF wf room] .
  have get1: "get_slot j ?s1 = get_slot j sc" for j
    by (cases j) (simp_all add: resolve_table_def Let_def)
  have g1: "grows {} sc ?s1"
    using room(1) ic1 tc1 get1 by (simp add: grows_def) (simp add: resolve_table_def Let_def)
  have loop: "sc_wf sc'" "grows (table_slots is_map ?k (?k + ?n) 0 ?n) ?s1 sc'"
    "\<forall>j<?n. same fuel mem base pid m (unat (sc_icount ?s1)) (unat (sc_icount sc')) sc'
       (read_obj mem (elem_addr base pid (t_a (read_table mem src)) j)) (sc_items sc' ! (?k + j))"
    "is_map \<longrightarrow> (\<forall>j<?n. same fuel mem base pid m (unat (sc_icount ?s1)) (unat (sc_icount sc')) sc'
       (read_obj mem (elem_addr base pid (t_b (read_table mem src)) j)) (sc_items sc' ! (?k + ?n + j)))"
  proof -
    have fit1: "?k + 0 + ?n \<le> unat (sc_icount ?s1)" using ic1 by simp
    have fit2: "is_map \<longrightarrow> ?k + 0 + ?n \<le> unat (sc_icount sc + len) + 0 \<and>
        unat (sc_icount sc + len) + 0 + ?n \<le> unat (sc_icount ?s1)" using ic1 k1 by (cases is_map) simp_all
    note L = resolve_items_faithful [OF IH wf1 fit1 fit2 run, unfolded k1 add_0 add_0_right]
    show "sc_wf sc'" "grows (table_slots is_map ?k (?k + ?n) 0 ?n) ?s1 sc'"
      "\<forall>j<?n. same fuel mem base pid m (unat (sc_icount ?s1)) (unat (sc_icount sc')) sc'
         (read_obj mem (elem_addr base pid (t_a (read_table mem src)) j)) (sc_items sc' ! (?k + j))"
      "is_map \<longrightarrow> (\<forall>j<?n. same fuel mem base pid m (unat (sc_icount ?s1)) (unat (sc_icount sc')) sc'
         (read_obj mem (elem_addr base pid (t_b (read_table mem src)) j)) (sc_items sc' ! (?k + ?n + j)))"
      using L by blast+
  qed
  have ic: "unat (sc_icount ?s1) \<le> unat (sc_icount sc')" using loop(2) by (simp add: grows_def)
  have g: "grows (table_slots is_map ?k (?k + ?n) 0 ?n) sc sc'"
    using grows_trans [OF g1 loop(2)] by simp
  have used': "slot_used sc' l" by (rule grows_used [OF g used])
  have notin: "l \<notin> table_slots is_map ?k (?k + ?n) 0 ?n"
    using used by (auto simp: table_slots_def slot_used_def split: slot.splits if_splits)
  have gl: "get_slot l sc' = get_slot l sc" by (rule grows_get [OF g used notin])
  have g2: "grows {l} sc' ?s2" unfolding set_val_def by (rule grows_put [OF loop(1) used'])
  have g3: "grows {l} sc ?s2"
  proof -
    have "get_slot j ?s2 = get_slot j sc" if j: "slot_used sc j" "j \<noteq> l" for j
    proof -
      have "j \<notin> table_slots is_map ?k (?k + ?n) 0 ?n"
        using j by (auto simp: table_slots_def slot_used_def split: slot.splits if_splits)
      from grows_get [OF g j(1) this] show ?thesis
        using grows_get [OF g2 grows_used [OF g j(1)]] j(2) by simp
    qed
    with grows_trans [OF g g2] show ?thesis by (simp add: grows_def)
  qed
  have wide: "same fuel mem base pid m ?k (unat (sc_icount sc')) ?s2 x (sc_items ?s2 ! i)"
    if "same fuel mem base pid m (unat (sc_icount ?s1)) (unat (sc_icount sc')) sc' x (sc_items sc' ! i)"
      "?k \<le> i" "i < unat (sc_icount sc')" for x i
  proof -
    have "sc_items ?s2 ! i = sc_items sc' ! i"
      using grows_get [OF g2, of "Item i"] that(2,3) used by (auto simp: slot_used_def split: slot.splits)
    moreover have "same fuel mem base pid m ?k (unat (sc_icount sc')) ?s2 x (sc_items sc' ! i)"
      using that(1) g2 by (rule same_grows) (use used ic1 in \<open>auto simp: slot_used_def split: slot.splits\<close>)
    ultimately show ?thesis by simp
  qed
  have tab: "sc_tables ?s2 ! ?t = \<lparr>t_len = len, t_a = items_at m + 8 * sc_icount sc,
      t_b = (if is_map then items_at m + 8 * (sc_icount sc + len) else 0)\<rparr>"
    "?t < unat (sc_tcount ?s2)"
  proof -
    have "sc_tables sc' ! ?t = sc_tables ?s1 ! ?t" and le: "?t + 1 \<le> unat (sc_tcount sc')"
      using loop(2) tc1 by (auto simp: grows_def)
    then show "sc_tables ?s2 ! ?t = \<lparr>t_len = len, t_a = items_at m + 8 * sc_icount sc,
        t_b = (if is_map then items_at m + 8 * (sc_icount sc + len) else 0)\<rparr>"
      using wf room(1) by (simp add: frame_simps resolve_table_def Let_def sc_wf_def)
    show "?t < unat (sc_tcount ?s2)" using le by (simp add: frame_simps)
  qed
  have ix: "item_ix m (items_at m + 8 * sc_icount sc) = ?k"
    using i0 by simp
  have "?k + ?n + ?n \<le> 16" if is_map
    using room(2) that k2 by (simp add: mult.commute add.commute)
  then have ixb: "item_ix m (items_at m + 8 * (sc_icount sc + len)) = ?k + ?n" if is_map
    using item_ix_at [of "sc_icount sc + len" m, unfolded k1] that by simp
  have fit: "?k + ?n \<le> unat (sc_icount sc')" "is_map \<longrightarrow> ?k + ?n + ?n \<le> unat (sc_icount sc')"
    using ic ic1 by (auto split: if_splits)
  obtain as where as:
    "elems ?n (\<lambda>i. payload_src fuel mem base pid (read_obj mem (elem_addr base pid (t_a (read_table mem src)) i))) = Some as"
    "elems_in ?k (unat (sc_icount sc')) ?k ?n (\<lambda>i. payload_dst fuel m ?k (unat (sc_icount sc')) ?s2 (sc_items ?s2 ! i)) = Some as"
    by (rule elems_same [of ?n fuel mem base pid m ?k "unat (sc_icount sc')" ?s2 "t_a (read_table mem src)" ?k])
      (use loop(3) wide fit(1) in auto)
  have bs: "\<exists>bs.
    elems ?n (\<lambda>i. payload_src fuel mem base pid (read_obj mem (elem_addr base pid (t_b (read_table mem src)) i))) = Some bs \<and>
    elems_in ?k (unat (sc_icount sc')) (?k + ?n) ?n (\<lambda>i. payload_dst fuel m ?k (unat (sc_icount sc')) ?s2 (sc_items ?s2 ! i)) = Some bs"
    if is_map
    by (rule elems_same [of ?n fuel mem base pid m ?k "unat (sc_icount sc')" ?s2 "t_b (read_table mem src)" "?k + ?n"])
      (use loop(4) wide fit(2) that in auto)
  have val: "get_slot l ?s2 = (get_slot l sc)\<lparr>obj_val := tables_at m + 12 * of_nat ?t\<rparr>"
    using get_set_val [OF loop(1) slot_used_in [OF loop(1) used']] gl by simp
  have "same (Suc fuel) mem base pid m ?k (unat (sc_icount ?s2)) ?s2 (get_slot l sc) (get_slot l ?s2)"
    unfolding same_unfold frame_simps val
    using ty src len tab as bs ix ixb table_ix_at [OF room(1), of m]
    by (cases is_map) (auto simp: Let_def pair_elems_def frame_simps)
  then show ?thesis
    using g3 loop(1) by (simp add: faithful_def inv_intros)
qed

lemma table_result:
  "(if bad then Inr (Z_FAIL, a)
    else case r of Inl f \<Rightarrow> Inl f
         | Inr (rv, s) \<Rightarrow> if rv \<noteq> Z_OK then Inr (Z_FAIL, h s) else Inr (Z_OK, g s)) = Inr (Z_OK, sc') \<Longrightarrow>
   \<not> bad \<and> (\<exists>s. r = Inr (Z_OK, s) \<and> sc' = g s)"
  by (auto split: if_splits sum.splits prod.splits)

lemma z_resolve_table:
  assumes "obj_type (get_slot l sc) = (if is_map then Z_MAP else Z_LIST)"
    and "src = z_translate base pid (obj_val (get_slot l sc))" "src \<noteq> 0"
  shows "z_resolve_obj (Suc fuel) mem base pid m l sc =
    (let len = t_len (read_table mem src) in
     if unat (sc_tcount sc) \<ge> Z_MSG_MAX_TABLES
        \<or> unat (sc_icount sc + len * (if is_map then 2 else 1)) > Z_MSG_MAX_ITEMS then
       Inr (Z_FAIL, set_none l sc)
     else
       case resolve_items (z_resolve_obj fuel mem base pid m) mem base pid src is_map
              (unat (sc_icount sc)) (unat (sc_icount sc + len)) 0 (unat len)
              (resolve_table m is_map len sc) of
         Inl f \<Rightarrow> Inl f
       | Inr (rv, sc') \<Rightarrow>
           if rv \<noteq> Z_OK then Inr (Z_FAIL, set_none l sc')
           else Inr (Z_OK, set_val l (tables_at m + 12 * of_nat (unat (sc_tcount sc))) sc'))"
  using assms by (cases is_map) (simp_all add: Let_def table_need_def)

lemma z_resolve_faithful:
  "sc_wf sc \<Longrightarrow> slot_used sc l \<Longrightarrow> z_resolve_obj fuel mem base pid m l sc = Inr (Z_OK, sc') \<Longrightarrow>
   faithful fuel mem base pid m l (get_slot l sc) sc sc'"
proof (induction fuel arbitrary: l sc sc')
  case (Suc fuel)
  let ?x = "get_slot l sc" let ?ty = "obj_type ?x"
  consider "?ty \<in> {Z_NONE, Z_RETVAL, Z_UINT32, Z_INT32, Z_FLOAT32}" | "?ty = Z_STR" | "?ty = Z_BLOB"
    | "?ty = Z_LIST \<or> ?ty = Z_MAP"
    | "?ty \<notin> {Z_NONE, Z_RETVAL, Z_UINT32, Z_INT32, Z_FLOAT32, Z_STR, Z_BLOB, Z_LIST, Z_MAP}" by blast
  then show ?case
  proof cases
    case 1
    with Suc.prems show ?thesis
      by (auto simp: faithful_def same_unfold Let_def)
  next
    case 2
    with Suc.prems show ?thesis
      by (auto simp: faithful_def same_unfold Let_def inv_intros set_val_def grows_put frame_simps
          get_put_slot slot_used_in)
  next
    case 3
    with Suc.prems show ?thesis
      by (intro resolve_blob_faithful) (simp_all add: Let_def)
  next
    case 4
    define src where "src = z_translate base pid (obj_val ?x)"
    define is_map where "is_map \<longleftrightarrow> ?ty = Z_MAP"
    have ty: "?ty = (if is_map then Z_MAP else Z_LIST)" using 4 by (auto simp: is_map_def)
    show ?thesis
    proof (cases "src = 0")
      case True
      with 4 Suc.prems show ?thesis
        by (auto simp: faithful_def same_unfold Let_def inv_intros set_none_def grows_put frame_simps
            get_put_slot slot_used_in src_def)
    next
      case False
      let ?len = "t_len (read_table mem src)"
      from Suc.prems(3) obtain s where
        room: "unat (sc_tcount sc) < Z_MSG_MAX_TABLES"
          "unat (sc_icount sc + ?len * (if is_map then 2 else 1)) \<le> Z_MSG_MAX_ITEMS" and
        run: "resolve_items (z_resolve_obj fuel mem base pid m) mem base pid src is_map
                (unat (sc_icount sc)) (unat (sc_icount sc + ?len)) 0 (unat ?len)
                (resolve_table m is_map ?len sc) = Inr (Z_OK, s)" and
        sc': "sc' = set_val l (tables_at m + 12 * of_nat (unat (sc_tcount sc))) s"
        unfolding z_resolve_table [OF ty src_def False] Let_def
        by (drule_tac table_result) (simp only: de_Morgan_disj not_le not_less, blast)
      show ?thesis
        unfolding sc'
        by (rule resolve_table_faithful [OF Suc.IH Suc.prems(1,2) ty src_def False refl room run])
    qed
  next
    case 5
    with Suc.prems show ?thesis
      by (auto simp: faithful_def same_unfold Let_def inv_intros set_none_def grows_put frame_simps
          get_put_slot slot_used_in)
  qed
qed simp

section \<open>The message calls\<close>

definition k_msg_send ::
  "z_proc list \<Rightarrow> u32 \<Rightarrow> z_msg \<Rightarrow> z_mailbox list \<Rightarrow> u32 \<times> z_mailbox list" where
  "k_msg_send procs z_pid msg mbs =
     (if unat (m_to msg) \<ge> Z_PROCS_MAX \<or> p_base (procs ! unat (m_to msg)) = 0 then (Z_FAIL, mbs)
      else
        let env = \<lparr>e_to = m_to msg, e_from = z_pid, e_subject = m_subject msg, e_tag = m_tag msg,
                   e_obj = m_obj msg\<rparr> in
        case z_mailbox_push (m_to msg) env mbs of
          (rv, mbs') \<Rightarrow> if rv \<noteq> Z_OK then (Z_FAIL, mbs') else (Z_OK, mbs'))"

text \<open>
  The caller's message lies at address \<open>m\<close>. The recursion of the resolution is given a depth of
  five: each level takes one of the four tables.
\<close>

definition k_msg_read ::
  "z_proc list \<Rightarrow> (u32 \<Rightarrow> u32) \<Rightarrow> u32 \<Rightarrow> u32 \<Rightarrow> z_msg \<Rightarrow> z_mailbox list \<Rightarrow>
   resolve_fault + u32 \<times> z_msg \<times> z_mailbox list" where
  "k_msg_read procs mem z_pid m msg mbs =
     (case z_mailbox_pop z_pid mbs of
        (None, mbs') \<Rightarrow> Inr (Z_FAIL, msg, mbs')
      | (Some env, mbs') \<Rightarrow>
          let sc = \<lparr>sc_obj = e_obj env, sc_tables = m_tables msg, sc_items = m_items msg,
                    sc_blobs = m_blobs msg, sc_tcount = 0, sc_icount = 0, sc_bcount = 0\<rparr> in
          case z_resolve_obj 5 mem (p_base (procs ! unat (e_from env))) (e_from env) m Top sc of
            Inl f \<Rightarrow> Inl f
          | Inr (_, sc') \<Rightarrow>
              Inr (Z_OK,
                   \<lparr>m_to = e_to env, m_from = e_from env, m_subject = e_subject env, m_tag = e_tag env,
                    m_obj = sc_obj sc', m_tables = sc_tables sc', m_items = sc_items sc',
                    m_blobs = sc_blobs sc'\<rparr>, mbs'))"

definition z_msg_new_send ::
  "z_proc list \<Rightarrow> u32 \<Rightarrow> z_msg \<Rightarrow> u32 \<Rightarrow> u32 \<Rightarrow> u32 \<Rightarrow> z_obj \<Rightarrow> z_mailbox list \<Rightarrow> u32 \<times> z_mailbox list" where
  "z_msg_new_send procs z_pid msg to subject tag obj mbs =
     k_msg_send procs z_pid (msg\<lparr>m_to := to, m_subject := subject, m_tag := tag, m_obj := obj\<rparr>) mbs"

definition mailboxes_ok :: "z_mailbox list \<Rightarrow> bool" where
  "mailboxes_ok mbs \<longleftrightarrow> length mbs = Z_PROCS_MAX \<and> (\<forall>mb \<in> set mbs. mb_inv mb)"

definition msg_ok :: "z_msg \<Rightarrow> bool" where
  "msg_ok msg \<longleftrightarrow> length (m_tables msg) = Z_MSG_MAX_TABLES \<and> length (m_items msg) = Z_MSG_MAX_ITEMS \<and>
     length (m_blobs msg) = Z_MSG_MAX_BLOBS"

definition empty_mailbox :: z_mailbox where
  "empty_mailbox = \<lparr>mb_msgs = replicate 32 \<lparr>e_to = 0, e_from = 0, e_subject = 0, e_tag = 0,
     e_obj = \<lparr>obj_type = 0, obj_val = 0\<rparr>\<rparr>, mb_head = 0, mb_tail = 0, mb_count = 0\<rparr>"

definition empty_msg :: z_msg where
  "empty_msg = \<lparr>m_to = 0, m_from = 0, m_subject = 0, m_tag = 0, m_obj = \<lparr>obj_type = 0, obj_val = 0\<rparr>,
     m_tables = replicate 4 \<lparr>t_len = 0, t_a = 0, t_b = 0\<rparr>,
     m_items = replicate 16 \<lparr>obj_type = 0, obj_val = 0\<rparr>, m_blobs = replicate 2 \<lparr>b_len = 0, b_data = 0\<rparr>\<rparr>"

lemma mailboxes_ok_boot: "mailboxes_ok (replicate 16 empty_mailbox)"
  by (simp add: mailboxes_ok_def mb_inv_def empty_mailbox_def)

lemma msg_ok_empty: "msg_ok empty_msg"
  by (simp add: msg_ok_def empty_msg_def)

lemma mailboxes_ok_nth: "mailboxes_ok mbs \<Longrightarrow> p < Z_PROCS_MAX \<Longrightarrow> mb_inv (mbs ! p)"
  by (simp add: mailboxes_ok_def)

lemma mailboxes_ok_update: "mailboxes_ok mbs \<Longrightarrow> mb_inv mb \<Longrightarrow> mailboxes_ok (mbs[p := mb])"
  by (auto simp: mailboxes_ok_def dest: set_update_subset_insert [THEN subsetD])

section \<open>Any interleaving of sends and reads\<close>

text \<open>
  A step is a send by a process or a read by a process; the log holds what was accepted, under
  the receiver it was addressed to, and what was delivered, under the receiver that read it.
\<close>

datatype msg_op = Send u32 z_msg | Read u32

fun msg_run ::
  "z_proc list \<Rightarrow> msg_op list \<Rightarrow> z_mailbox list \<Rightarrow>
   (u32 \<times> z_msg_envelope) list \<times> (u32 \<times> z_msg_envelope) list \<times> z_mailbox list" where
  "msg_run procs [] mbs = ([], [], mbs)"
| "msg_run procs (Send pid msg # ops) mbs =
     (case k_msg_send procs pid msg mbs of
        (rv, mbs') \<Rightarrow> case msg_run procs ops mbs' of
          (acc, out, mbs'') \<Rightarrow>
            (if rv = Z_OK
             then (m_to msg, \<lparr>e_to = m_to msg, e_from = pid, e_subject = m_subject msg,
                              e_tag = m_tag msg, e_obj = m_obj msg\<rparr>) # acc
             else acc, out, mbs''))"
| "msg_run procs (Read pid # ops) mbs =
     (case z_mailbox_pop pid mbs of
        (got, mbs') \<Rightarrow> case msg_run procs ops mbs' of
          (acc, out, mbs'') \<Rightarrow>
            (acc, (case got of None \<Rightarrow> out | Some env \<Rightarrow> (pid, env) # out), mbs''))"

definition for_pid :: "u32 \<Rightarrow> (u32 \<times> 'a) list \<Rightarrow> 'a list" where
  "for_pid q l = map snd (filter (\<lambda>(p, _). p = q) l)"

lemma for_pid_simps [simp]:
  "for_pid q [] = []" "for_pid q ((p, x) # l) = (if p = q then x # for_pid q l else for_pid q l)"
  by (simp_all add: for_pid_def)

lemma k_msg_send_cases:
  assumes "mailboxes_ok mbs" "k_msg_send procs pid msg mbs = (rv, mbs')"
  shows "(rv = Z_FAIL \<and> mbs' = mbs \<and> (unat (m_to msg) \<ge> Z_PROCS_MAX \<or> p_base (procs ! unat (m_to msg)) = 0 \<or>
            length (mb_contents (mbs ! unat (m_to msg))) = Z_MAILBOX_DEPTH)) \<or>
    (rv = Z_OK \<and> unat (m_to msg) < Z_PROCS_MAX \<and> p_base (procs ! unat (m_to msg)) \<noteq> 0 \<and>
     (\<exists>mb. mbs' = mbs[unat (m_to msg) := mb] \<and> mb_inv mb \<and>
       mb_contents mb = mb_contents (mbs ! unat (m_to msg)) @
         [\<lparr>e_to = m_to msg, e_from = pid, e_subject = m_subject msg, e_tag = m_tag msg, e_obj = m_obj msg\<rparr>]))"
proof (cases "unat (m_to msg) \<ge> Z_PROCS_MAX \<or> p_base (procs ! unat (m_to msg)) = 0")
  case True
  with assms(2) show ?thesis by (auto simp: k_msg_send_def)
next
  case False
  let ?env = "\<lparr>e_to = m_to msg, e_from = pid, e_subject = m_subject msg, e_tag = m_tag msg, e_obj = m_obj msg\<rparr>"
  have inv: "mb_inv (mbs ! unat (m_to msg))"
    using False by (intro mailboxes_ok_nth [OF assms(1)]) simp
  show ?thesis
  proof (cases "mb_push ?env (mbs ! unat (m_to msg))")
    case None
    with False assms(2) mailbox.push_None [OF inv] show ?thesis
      by (auto simp: k_msg_send_def z_mailbox_push_def)
  next
    case (Some mb)
    with False assms(2) mailbox.push_Some [OF inv Some] show ?thesis
      by (auto simp: k_msg_send_def z_mailbox_push_def)
  qed
qed

lemma z_mailbox_pop_cases:
  assumes "mailboxes_ok mbs" "unat pid < Z_PROCS_MAX" "z_mailbox_pop pid mbs = (got, mbs')"
  shows "(got = None \<and> mbs' = mbs \<and> mb_contents (mbs ! unat pid) = []) \<or>
    (\<exists>env mb. got = Some env \<and> mbs' = mbs[unat pid := mb] \<and> mb_inv mb \<and>
       mb_contents (mbs ! unat pid) = env # mb_contents mb)"
proof -
  have inv: "mb_inv (mbs ! unat pid)" by (intro mailboxes_ok_nth [OF assms(1)] assms(2))
  show ?thesis
  proof (cases "mb_pop (mbs ! unat pid)")
    case None
    with assms(3) mailbox.pop_None [OF inv] show ?thesis by (auto simp: z_mailbox_pop_def)
  next
    case (Some r)
    then obtain env mb where r: "mb_pop (mbs ! unat pid) = Some (env, mb)" by (cases r) auto
    with assms(3) mailbox.pop_Some [OF inv r] show ?thesis by (auto simp: z_mailbox_pop_def)
  qed
qed

lemma msg_run_step:
  assumes "mailboxes_ok mbs" "length mbs = Z_PROCS_MAX" "unat p < Z_PROCS_MAX" "unat q < Z_PROCS_MAX"
  shows "mbs[unat p := mb] ! unat q = (if p = q then mb else mbs ! unat q)"
  using assms by (auto simp: nth_list_update word_unat_eq_iff)

lemma msg_run_fifo:
  "mailboxes_ok mbs \<Longrightarrow> \<forall>pid. Read pid \<in> set ops \<longrightarrow> unat pid < Z_PROCS_MAX \<Longrightarrow>
   msg_run procs ops mbs = (acc, out, mbs') \<Longrightarrow> unat q < Z_PROCS_MAX \<Longrightarrow>
   mailboxes_ok mbs' \<and>
   mb_contents (mbs ! unat q) @ for_pid q acc = for_pid q out @ mb_contents (mbs' ! unat q)"
proof (induction procs ops mbs arbitrary: acc out mbs' rule: msg_run.induct)
  case (2 procs pid msg ops mbs)
  obtain rv mbs1 where s: "k_msg_send procs pid msg mbs = (rv, mbs1)" by fastforce
  obtain acc1 out1 mbs2 where r2: "msg_run procs ops mbs1 = (acc1, out1, mbs2)"
    by (rule prod_cases3)
  then have r: "msg_run procs ops mbs1 = (acc1, out1, mbs')"
    using "2.prems"(3) s by simp
  have len: "length mbs = Z_PROCS_MAX" using "2.prems"(1) by (simp add: mailboxes_ok_def)
  note upd = msg_run_step [OF "2.prems"(1) len _ "2.prems"(4)]
  from k_msg_send_cases [OF "2.prems"(1) s]
  consider "rv = Z_FAIL" "mbs1 = mbs"
    | mb where "rv = Z_OK" "unat (m_to msg) < Z_PROCS_MAX" "mbs1 = mbs[unat (m_to msg) := mb]" "mb_inv mb"
      "mb_contents mb = mb_contents (mbs ! unat (m_to msg)) @
         [\<lparr>e_to = m_to msg, e_from = pid, e_subject = m_subject msg, e_tag = m_tag msg, e_obj = m_obj msg\<rparr>]"
    by blast
  then show ?case
  proof cases
    case 1
    with 2 s r show ?thesis by auto
  next
    case a: (2 mb)
    have "mailboxes_ok mbs1" using a(3,4) "2.prems"(1) by (simp add: mailboxes_ok_update)
    from "2.IH" [OF s [symmetric] this _ r "2.prems"(4)] "2.prems"(2,3) s r a(1,3,5) upd [OF a(2), of mb]
    show ?thesis by (auto split: if_splits)
  qed
next
  case (3 procs pid ops mbs)
  obtain got mbs1 where s: "z_mailbox_pop pid mbs = (got, mbs1)" by fastforce
  obtain acc1 out1 mbs2 where r2: "msg_run procs ops mbs1 = (acc1, out1, mbs2)"
    by (rule prod_cases3)
  then have r: "msg_run procs ops mbs1 = (acc1, out1, mbs')"
    using "3.prems"(3) s by simp
  have len: "length mbs = Z_PROCS_MAX" using "3.prems"(1) by (simp add: mailboxes_ok_def)
  have pid: "unat pid < Z_PROCS_MAX" using "3.prems"(2) by simp
  note upd = msg_run_step [OF "3.prems"(1) len pid "3.prems"(4)]
  from z_mailbox_pop_cases [OF "3.prems"(1) pid s] show ?case
  proof (elim disjE conjE exE)
    assume "got = None" "mbs1 = mbs"
    with 3 s r show ?thesis by auto
  next
    fix env mb assume a: "got = Some env" "mbs1 = mbs[unat pid := mb]" "mb_inv mb"
      "mb_contents (mbs ! unat pid) = env # mb_contents mb"
    have "mailboxes_ok mbs1" using a(2,3) "3.prems"(1) by (simp add: mailboxes_ok_update)
    from "3.IH" [OF s [symmetric] this _ r "3.prems"(4)] "3.prems"(2,3) s r a upd [of mb]
    show ?thesis by (auto split: if_splits)
  qed
qed auto

text \<open>
  C4: Whatever processes send and read, in whatever order, every mailbox is a lossless first-in
  first-out queue: for each receiver, what was waiting followed by the messages the kernel accepted
  for it (stamped with the true sender, whatever the caller wrote in the from field) is exactly what
  was delivered to it followed by what still waits. A message is never duplicated, reordered or
  handed to another process.
\<close>

theorem mailboxes_lossless_fifo:
  assumes "mailboxes_ok mbs" "\<forall>pid. Read pid \<in> set ops \<longrightarrow> unat pid < Z_PROCS_MAX"
    and "msg_run procs ops mbs = (acc, out, mbs')" "unat q < Z_PROCS_MAX"
  shows "mb_contents (mbs ! unat q) @ for_pid q acc = for_pid q out @ mb_contents (mbs' ! unat q)
    \<and> length (mb_contents (mbs' ! unat q)) \<le> Z_MAILBOX_DEPTH"
  using msg_run_fifo [OF assms] mailbox.bounded [OF mailboxes_ok_nth] assms(4) by blast

definition two_senders :: "msg_op list" where
  "two_senders =
     [Send 1 (empty_msg\<lparr>m_to := 3, m_subject := 7, m_from := 9\<rparr>), Send 2 (empty_msg\<lparr>m_to := 3, m_subject := 8\<rparr>),
      Send 1 (empty_msg\<lparr>m_to := 4, m_subject := 6\<rparr>), Read 3]"

definition four_procs :: "z_proc list" where
  "four_procs = replicate 16 \<lparr>p_base = 0x100000, p_size = 0x8000, p_flags = 1, p_regs = replicate 32 0\<rparr>"

lemma two_senders_run:
  "case msg_run four_procs two_senders (replicate 16 empty_mailbox) of
     (acc, out, _) \<Rightarrow> map e_subject (for_pid 3 acc) = [7, 8] \<and> map e_from (for_pid 3 out) = [1]"
  by (simp add: two_senders_def four_procs_def k_msg_send_def z_mailbox_push_def mb_push_def
      z_mailbox_pop_def mb_pop_def empty_mailbox_def empty_msg_def Let_def nth_list_update)

theorem mailboxes_lossless_fifo_witness:
  "case msg_run four_procs two_senders (replicate 16 empty_mailbox) of
     (acc, out, mbs') \<Rightarrow>
       map e_subject (for_pid 3 out @ mb_contents (mbs' ! unat (3 :: u32))) = [7, 8] \<and>
       map e_from (for_pid 3 out) = [1]"
proof -
  obtain acc out mbs' where r: "msg_run four_procs two_senders (replicate 16 empty_mailbox) = (acc, out, mbs')"
    by (rule prod_cases3)
  have acc: "map e_subject (for_pid 3 acc) = [7, 8]" "map e_from (for_pid 3 out) = [1]"
    using two_senders_run unfolding r by simp_all
  have "mb_contents (replicate 16 empty_mailbox ! unat (3 :: u32)) @ for_pid 3 acc =
      for_pid 3 out @ mb_contents (mbs' ! unat (3 :: u32))"
    using mailboxes_lossless_fifo [OF mailboxes_ok_boot _ r, of 3] by (simp add: two_senders_def)
  moreover have "mb_contents (replicate 16 empty_mailbox ! unat (3 :: u32)) = []"
    by (simp add: mb_contents_def empty_mailbox_def)
  ultimately have "for_pid 3 out @ mb_contents (mbs' ! unat (3 :: u32)) = for_pid 3 acc"
    by (simp only: append_Nil)
  then have "map e_subject (for_pid 3 out @ mb_contents (mbs' ! unat (3 :: u32))) = [7, 8]"
    by (simp only: acc(1))
  then show ?thesis unfolding r prod.case using acc(2) by (rule conjI)
qed

section \<open>Reading a message\<close>

definition init_scratch :: "z_msg_envelope \<Rightarrow> z_msg \<Rightarrow> scratch" where
  "init_scratch env msg =
     \<lparr>sc_obj = e_obj env, sc_tables = m_tables msg, sc_items = m_items msg, sc_blobs = m_blobs msg,
      sc_tcount = 0, sc_icount = 0, sc_bcount = 0\<rparr>"

text \<open>The scratch area of a message that was read, all of it open to the reader.\<close>

definition msg_scratch :: "z_msg \<Rightarrow> scratch" where
  "msg_scratch msg =
     \<lparr>sc_obj = m_obj msg, sc_tables = m_tables msg, sc_items = m_items msg, sc_blobs = m_blobs msg,
      sc_tcount = 4, sc_icount = 16, sc_bcount = 2\<rparr>"

lemma k_msg_read_pop:
  assumes "z_mailbox_pop z_pid mbs = (Some env, mbs')"
  shows "k_msg_read procs mem z_pid m msg mbs =
    (case z_resolve_obj 5 mem (p_base (procs ! unat (e_from env))) (e_from env) m Top (init_scratch env msg) of
       Inl f \<Rightarrow> Inl f
     | Inr (_, sc') \<Rightarrow>
         Inr (Z_OK,
              \<lparr>m_to = e_to env, m_from = e_from env, m_subject = e_subject env, m_tag = e_tag env,
               m_obj = sc_obj sc', m_tables = sc_tables sc', m_items = sc_items sc',
               m_blobs = sc_blobs sc'\<rparr>, mbs'))"
  using assms by (simp add: k_msg_read_def init_scratch_def)

lemma init_scratch_wf: "msg_ok msg \<Longrightarrow> sc_wf (init_scratch env msg)"
  by (simp add: sc_wf_def msg_ok_def init_scratch_def)

lemma init_scratch_post:
  "msg_ok msg \<Longrightarrow> resolve_post mem 0 Top (z_resolve_obj 5 mem base pid m Top (init_scratch env msg))"
  using z_resolve_obj_post [OF init_scratch_wf, of msg Top 5 env mem base pid m]
  by (simp add: init_scratch_def)

text \<open>
  Process 2, whose memory starts at \<open>0x100000\<close>, has sent process 3 a list of a number and a string.
\<close>

definition sample_mem :: "u32 \<Rightarrow> u32" where
  "sample_mem a =
     (if a = 0x100010 then 2 else if a = 0x100014 then 0x80000020
      else if a = 0x100020 then Z_UINT32 else if a = 0x100024 then 5
      else if a = 0x100028 then Z_STR else if a = 0x10002C then 0x80000040 else 0)"

definition sample_env :: z_msg_envelope where
  "sample_env = \<lparr>e_to = 3, e_from = 2, e_subject = 7, e_tag = 0,
     e_obj = \<lparr>obj_type = Z_LIST, obj_val = 0x80000010\<rparr>\<rparr>"

definition sample_mailboxes :: "z_mailbox list" where
  "sample_mailboxes = (replicate 16 empty_mailbox)[3 := empty_mailbox\<lparr>
     mb_msgs := (mb_msgs empty_mailbox)[0 := sample_env], mb_tail := 1, mb_count := 1\<rparr>]"

lemma sample_mailboxes_ok: "mailboxes_ok sample_mailboxes"
  unfolding sample_mailboxes_def
  by (rule mailboxes_ok_update [OF mailboxes_ok_boot]) (simp add: mb_inv_def empty_mailbox_def)

lemma sample_contents: "mb_contents (sample_mailboxes ! unat (3 :: u32)) = [sample_env]"
  by (simp add: sample_mailboxes_def mb_contents_def ring_list_def empty_mailbox_def)

text \<open>
  C8: Reading a message always returns. It fails, leaving message and mailboxes alone, exactly when
  the reader's mailbox is empty; otherwise the reader gets the oldest message, which leaves the
  mailbox, with the envelope's own sender, subject and tag. No object in the sender's memory, cyclic
  or too deep ones included, makes the kernel recurse without end, and none makes it write outside
  the message's scratch arrays, unless a list or map header announces a length of nearly two
  thousand million.
\<close>

theorem k_msg_read_returns:
  assumes "mailboxes_ok mbs" "unat z_pid < Z_PROCS_MAX" "msg_ok msg"
  shows "case k_msg_read procs mem z_pid m msg mbs of
      Inl f \<Rightarrow> \<exists>a. f = Overrun a \<and> unat (t_len (read_table mem a)) \<ge> 2147483640
    | Inr (rv, msg', mbs') \<Rightarrow> msg_ok msg' \<and> mailboxes_ok mbs' \<and>
        (case mb_contents (mbs ! unat z_pid) of
           [] \<Rightarrow> rv = Z_FAIL \<and> msg' = msg \<and> mbs' = mbs
         | env # rest \<Rightarrow> rv = Z_OK \<and> m_from msg' = e_from env \<and> m_subject msg' = e_subject env \<and>
             m_tag msg' = e_tag env \<and> mb_contents (mbs' ! unat z_pid) = rest)"
proof -
  obtain got mbs' where pop: "z_mailbox_pop z_pid mbs = (got, mbs')" by fastforce
  from z_mailbox_pop_cases [OF assms(1,2) pop] consider
      "got = None" "mbs' = mbs" "mb_contents (mbs ! unat z_pid) = []"
    | env mb where "got = Some env" "mbs' = mbs[unat z_pid := mb]" "mb_inv mb"
        "mb_contents (mbs ! unat z_pid) = env # mb_contents mb" by blast
  then show ?thesis
  proof cases
    case 1
    with pop assms show ?thesis by (simp add: k_msg_read_def)
  next
    case (2 env mb)
    have len: "length mbs = 16" using assms(1) by (simp add: mailboxes_ok_def)
    have "mailboxes_ok mbs'" using 2 assms(1) by (simp add: mailboxes_ok_update)
    with 2 pop assms len
      init_scratch_post [OF assms(3), of mem "p_base (procs ! unat (e_from env))" "e_from env" m env]
    show ?thesis
      by (auto simp: k_msg_read_pop resolve_post_def absurd_len_def msg_ok_def sc_wf_def
          split: sum.splits prod.splits)
  qed
qed

theorem k_msg_read_returns_witness:
  "case k_msg_read four_procs sample_mem 3 0x200000 empty_msg sample_mailboxes of
     Inl f \<Rightarrow> \<exists>a. f = Overrun a \<and> unat (t_len (read_table sample_mem a)) \<ge> 2147483640
   | Inr (rv, msg', mbs') \<Rightarrow> rv = Z_OK \<and> m_from msg' = 2 \<and> mb_contents (mbs' ! unat (3 :: u32)) = []"
  using k_msg_read_returns [OF sample_mailboxes_ok _ msg_ok_empty, where z_pid = 3 and procs = four_procs
      and mem = sample_mem and m = "0x200000", unfolded sample_contents]
  by (auto simp: sample_env_def split: sum.splits prod.splits)

section \<open>What fits the scratch arrays is delivered\<close>

text \<open>The tables, item slots and blob headers a value takes.\<close>

fun tables_of :: "payload \<Rightarrow> nat" where
  "tables_of (PList xs) = 1 + sum_list (map tables_of xs)"
| "tables_of (PMap ks vs) = 1 + sum_list (map tables_of ks) + sum_list (map tables_of vs)"
| "tables_of _ = 0"

fun items_of :: "payload \<Rightarrow> nat" where
  "items_of (PList xs) = length xs + sum_list (map items_of xs)"
| "items_of (PMap ks vs) =
     length ks + sum_list (map items_of ks) + (length vs + sum_list (map items_of vs))"
| "items_of _ = 0"

fun blobs_of :: "payload \<Rightarrow> nat" where
  "blobs_of (PList xs) = sum_list (map blobs_of xs)"
| "blobs_of (PMap ks vs) = sum_list (map blobs_of ks) + sum_list (map blobs_of vs)"
| "blobs_of (PBlob _ _) = 1"
| "blobs_of _ = 0"

definition room :: "scratch \<Rightarrow> payload list \<Rightarrow> bool" where
  "room sc ps \<longleftrightarrow>
     unat (sc_tcount sc) + sum_list (map tables_of ps) \<le> Z_MSG_MAX_TABLES \<and>
     unat (sc_icount sc) + sum_list (map items_of ps) \<le> Z_MSG_MAX_ITEMS \<and>
     unat (sc_bcount sc) + sum_list (map blobs_of ps) \<le> Z_MSG_MAX_BLOBS"

definition spent :: "scratch \<Rightarrow> payload list \<Rightarrow> scratch \<Rightarrow> bool" where
  "spent sc ps sc' \<longleftrightarrow>
     unat (sc_tcount sc') = unat (sc_tcount sc) + sum_list (map tables_of ps) \<and>
     unat (sc_icount sc') = unat (sc_icount sc) + sum_list (map items_of ps) \<and>
     unat (sc_bcount sc') = unat (sc_bcount sc) + sum_list (map blobs_of ps)"

text \<open>A resolution that succeeds, having spent exactly what the values take.\<close>

definition delivered :: "scratch \<Rightarrow> payload list \<Rightarrow> resolve_fault + u32 \<times> scratch \<Rightarrow> bool" where
  "delivered sc ps r \<longleftrightarrow> (\<exists>sc'. r = Inr (Z_OK, sc') \<and> sc_wf sc' \<and> spent sc ps sc')"

lemma resolve_slot_delivered:
  assumes "\<And>k sc p. sc_wf sc \<Longrightarrow> slot_used sc (Item k) \<Longrightarrow> payload_src d mem base pid (get_slot (Item k) sc) = Some p \<Longrightarrow>
      room sc [p] \<Longrightarrow> delivered sc [p] (rslv (Item k) sc)"
    and "sc_wf sc" "k < unat (sc_icount sc)" "payload_src d mem base pid (read_obj mem sa) = Some p" "room sc [p]"
  shows "delivered sc [p] (resolve_slot rslv mem src sa k sc)"
proof -
  let ?sc = "put_slot (Item k) (read_obj mem sa) sc"
  have k: "k < 16" using assms(2,3) by (simp add: sc_wf_def)
  have "slot_in (Item k)" using k by simp
  from get_put_slot [OF assms(2) this] have "get_slot (Item k) ?sc = read_obj mem sa" by simp
  with assms have "delivered ?sc [p] (rslv (Item k) ?sc)"
    by (intro assms(1)) (auto simp: inv_intros frame_simps slot_used_def room_def simp del: put_slot.simps get_slot.simps)
  with k show ?thesis
    by (simp add: resolve_slot_def delivered_def spent_def frame_simps del: put_slot.simps)
qed

lemma resolve_items_delivered:
  assumes rslv: "\<And>k sc p. sc_wf sc \<Longrightarrow> slot_used sc (Item k) \<Longrightarrow> payload_src d mem base pid (get_slot (Item k) sc) = Some p \<Longrightarrow>
      room sc [p] \<Longrightarrow> delivered sc [p] (rslv (Item k) sc)"
    and "sc_wf sc" "a0 + i + n \<le> unat (sc_icount sc)" "is_map \<longrightarrow> b0 + i + n \<le> unat (sc_icount sc)"
    and "length as = n" "\<forall>j<n. payload_src d mem base pid
        (read_obj mem (elem_addr base pid (t_a (read_table mem src)) (i + j))) = Some (as ! j)"
    and "length bs = (if is_map then n else 0)" "is_map \<longrightarrow> (\<forall>j<n. payload_src d mem base pid
        (read_obj mem (elem_addr base pid (t_b (read_table mem src)) (i + j))) = Some (bs ! j))"
    and "room sc (as @ bs)"
  shows "delivered sc (as @ bs) (resolve_items rslv mem base pid src is_map a0 b0 i n sc)"
  using assms(2-)
proof (induction n arbitrary: i sc as bs)
  case 0
  then show ?case by (auto simp: delivered_def spent_def split: if_splits)
next
  case (Suc n)
  let ?sa = "elem_addr base pid (t_a (read_table mem src))"
  let ?sb = "elem_addr base pid (t_b (read_table mem src))"
  obtain a as' where as: "as = a # as'" using Suc.prems(4) by (cases as) auto
  have a: "payload_src d mem base pid (read_obj mem (?sa i)) = Some a"
    using Suc.prems(5) as by (auto dest: spec [of _ 0])
  have as': "\<forall>j<n. payload_src d mem base pid (read_obj mem (?sa (Suc i + j))) = Some (as' ! j)"
    using Suc.prems(5) as by (auto dest: spec [of _ "Suc _"])
  have "delivered sc [a] (resolve_slot rslv mem src (?sa i) (a0 + i) sc)"
    by (rule resolve_slot_delivered [OF _ Suc.prems(1) _ a])
      (use rslv Suc.prems(2,8) as in \<open>simp_all add: room_def\<close>)
  then obtain sc1 where sc1: "resolve_slot rslv mem src (?sa i) (a0 + i) sc = Inr (Z_OK, sc1)" "sc_wf sc1"
    "spent sc [a] sc1" by (auto simp: delivered_def)
  show ?case
  proof (cases is_map)
    case False
    then have bs: "bs = []" using Suc.prems(6) by simp
    have "delivered sc1 (as' @ []) (resolve_items rslv mem base pid src is_map a0 b0 (Suc i) n sc1)"
      using Suc.prems sc1(2,3) as as' bs False by (intro Suc.IH) (auto simp: room_def spent_def)
    with sc1 as bs False show ?thesis by (auto simp: delivered_def spent_def)
  next
    case True
    obtain b bs' where bs: "bs = b # bs'" using Suc.prems(6) True by (cases bs) auto
    have b: "payload_src d mem base pid (read_obj mem (?sb i)) = Some b"
      using Suc.prems(7) True bs by (auto dest: spec [of _ 0])
    have bs': "\<forall>j<n. payload_src d mem base pid (read_obj mem (?sb (Suc i + j))) = Some (bs' ! j)"
      using Suc.prems(7) True bs by (auto dest: spec [of _ "Suc _"])
    have "delivered sc1 [b] (resolve_slot rslv mem src (?sb i) (b0 + i) sc1)"
      by (rule resolve_slot_delivered [OF _ sc1(2) _ b])
        (use rslv Suc.prems(3,8) as bs True sc1(3) in \<open>simp_all add: room_def spent_def\<close>)
    then obtain sc2 where sc2: "resolve_slot rslv mem src (?sb i) (b0 + i) sc1 = Inr (Z_OK, sc2)" "sc_wf sc2"
      "spent sc1 [b] sc2" by (auto simp: delivered_def)
    have "delivered sc2 (as' @ bs') (resolve_items rslv mem base pid src is_map a0 b0 (Suc i) n sc2)"
      using Suc.prems sc1(3) sc2(2,3) as as' bs bs' True
      by (intro Suc.IH) (auto simp: room_def spent_def)
    with sc1 sc2 as bs True show ?thesis by (auto simp: delivered_def spent_def)
  qed
qed

lemma elems_Some: "elems n f = Some ps \<longleftrightarrow> length ps = n \<and> (\<forall>j<n. f j = Some (ps ! j))"
  by (auto simp: elems_def those_eq_Some list_eq_iff_nth_eq)

lemma payload_src_table:
  assumes "obj_type x = (if is_map then Z_MAP else Z_LIST)" "a = z_translate base pid (obj_val x)" "a \<noteq> 0"
    and "payload_src (Suc d) mem base pid x = Some p"
  obtains as bs where
    "length as = unat (t_len (read_table mem a))"
    "\<forall>j<unat (t_len (read_table mem a)). payload_src d mem base pid
        (read_obj mem (elem_addr base pid (t_a (read_table mem a)) j)) = Some (as ! j)"
    "length bs = (if is_map then unat (t_len (read_table mem a)) else 0)"
    "is_map \<longrightarrow> (\<forall>j<unat (t_len (read_table mem a)). payload_src d mem base pid
        (read_obj mem (elem_addr base pid (t_b (read_table mem a)) j)) = Some (bs ! j))"
    "p = (if is_map then PMap as bs else PList as)"
proof (cases is_map)
  case False
  with assms obtain as where "p = PList as" "elems (unat (t_len (read_table mem a)))
      (\<lambda>i. payload_src d mem base pid (read_obj mem (elem_addr base pid (t_a (read_table mem a)) i))) = Some as"
    by (auto simp: Let_def)
  with False that [of as "[]"] show ?thesis by (simp add: elems_Some)
next
  case True
  with assms obtain as bs where "p = PMap as bs" "elems (unat (t_len (read_table mem a)))
      (\<lambda>i. payload_src d mem base pid (read_obj mem (elem_addr base pid (t_a (read_table mem a)) i))) = Some as"
    "elems (unat (t_len (read_table mem a)))
      (\<lambda>i. payload_src d mem base pid (read_obj mem (elem_addr base pid (t_b (read_table mem a)) i))) = Some bs"
    by (auto simp: Let_def pair_elems_Some)
  with True that [of as bs] show ?thesis by (simp add: elems_Some)
qed

lemma resolve_blob_delivered:
  assumes "sc_wf sc" "slot_used sc l" "obj_type (get_slot l sc) = Z_BLOB"
    and "payload_src (Suc d) mem base pid (get_slot l sc) = Some p" "room sc [p]"
  shows "delivered sc [p] (Inr (resolve_blob mem base pid m l sc))"
proof (cases "z_translate base pid (obj_val (get_slot l sc)) = 0")
  case True
  with assms have "p = PNone" by (simp add: Let_def)
  with True assms show ?thesis
    by (simp add: resolve_blob_def Let_def delivered_def inv_intros spent_def frame_simps)
next
  case False
  with assms have b: "blobs_of p = 1" "tables_of p = 0" "items_of p = 0" by (auto simp: Let_def)
  with assms(5) have lt: "unat (sc_bcount sc) < 2" by (simp add: room_def)
  then have b1: "unat (sc_bcount sc + 1) = unat (sc_bcount sc) + 1" by (simp add: unat_plus_nowrap)
  obtain rv sc' where r: "resolve_blob mem base pid m l sc = (rv, sc')" by fastforce
  have "sc_wf sc'"
    using resolve_blob_wf [OF assms(1) slot_used_in [OF assms(1,2)] r] by simp
  with r False lt b b1 show ?thesis
    by (auto simp: resolve_blob_def Let_def delivered_def spent_def frame_simps)
qed

lemma z_resolve_delivered:
  "sc_wf sc \<Longrightarrow> slot_used sc l \<Longrightarrow> payload_src fuel mem base pid (get_slot l sc) = Some p \<Longrightarrow> room sc [p] \<Longrightarrow>
   delivered sc [p] (z_resolve_obj fuel mem base pid m l sc)"
proof (induction fuel arbitrary: l sc p)
  case (Suc fuel)
  let ?x = "get_slot l sc" let ?ty = "obj_type ?x"
  consider "?ty = Z_BLOB" | "?ty = Z_LIST \<or> ?ty = Z_MAP" | "?ty \<notin> {Z_BLOB, Z_LIST, Z_MAP}" by blast
  then show ?case
  proof cases
    case 1
    with resolve_blob_delivered [OF Suc.prems(1,2) _ Suc.prems(3,4), of m] show ?thesis by (simp add: Let_def)
  next
    case 2
    define src where "src = z_translate base pid (obj_val ?x)"
    define is_map where "is_map \<longleftrightarrow> ?ty = Z_MAP"
    have ty: "?ty = (if is_map then Z_MAP else Z_LIST)" using 2 by (auto simp: is_map_def)
    show ?thesis
    proof (cases "src = 0")
      case True
      with 2 Suc.prems have "p = PNone" by (auto simp: Let_def src_def)
      with 2 True Suc.prems show ?thesis
        by (auto simp: Let_def src_def delivered_def spent_def inv_intros frame_simps)
    next
      case False
      let ?len = "t_len (read_table mem src)" let ?n = "unat ?len" let ?k = "unat (sc_icount sc)"
      let ?s1 = "resolve_table m is_map ?len sc"
      obtain as bs where els: "length as = ?n"
        "\<forall>j<?n. payload_src fuel mem base pid
            (read_obj mem (elem_addr base pid (t_a (read_table mem src)) j)) = Some (as ! j)"
        "length bs = (if is_map then ?n else 0)"
        "is_map \<longrightarrow> (\<forall>j<?n. payload_src fuel mem base pid
            (read_obj mem (elem_addr base pid (t_b (read_table mem src)) j)) = Some (bs ! j))"
        and p: "p = (if is_map then PMap as bs else PList as)"
        using payload_src_table [OF ty src_def False Suc.prems(3)] .
      have bud: "unat (sc_tcount sc) + 1 + sum_list (map tables_of (as @ bs)) \<le> 4"
        "?k + (?n + length bs) + sum_list (map items_of (as @ bs)) \<le> 16"
        "unat (sc_bcount sc) + sum_list (map blobs_of (as @ bs)) \<le> 2"
        using Suc.prems(4) p els(1,3) by (auto simp: room_def split: if_splits)
      have k1: "unat (sc_icount sc + ?len) = ?k + ?n"
        using bud(2) by (intro unat_plus_nowrap) simp
      have k2: "unat (sc_icount sc + ?len * (if is_map then 2 else 1)) = ?k + (?n + length bs)"
      proof (cases is_map)
        case True
        have "unat (sc_icount sc + ?len + ?len) = ?k + ?n + ?n"
          using bud(2) els(3) k1 True by (subst unat_plus_nowrap) simp_all
        with True els(3) show ?thesis by (simp add: mult.commute add.commute)
      qed (use k1 els(3) in simp)
      have guard: "unat (sc_tcount sc) < 4" "unat (sc_icount sc + ?len * (if is_map then 2 else 1)) \<le> 16"
        using bud k2 by simp_all
      note wf1 = resolve_table_wf [OF Suc.prems(1) guard, of m]
      have ic1: "unat (sc_icount ?s1) = ?k + (?n + length bs)" "sc_bcount ?s1 = sc_bcount sc"
        using k1 k2 els(3) by (cases is_map; simp add: resolve_table_def Let_def mult.commute add.commute)+
      have "delivered ?s1 (as @ bs) (resolve_items (z_resolve_obj fuel mem base pid m) mem base pid src is_map
          ?k (unat (sc_icount sc + ?len)) 0 ?n ?s1)"
        by (rule resolve_items_delivered [OF Suc.IH])
          (use wf1 ic1 els bud k1 in \<open>auto simp: room_def split: if_splits\<close>)
      then obtain sc' where run: "resolve_items (z_resolve_obj fuel mem base pid m) mem base pid src is_map
          ?k (unat (sc_icount sc + ?len)) 0 ?n ?s1 = Inr (Z_OK, sc')" "sc_wf sc'" "spent ?s1 (as @ bs) sc'"
        by (auto simp: delivered_def)
      have "z_resolve_obj (Suc fuel) mem base pid m l sc
          = Inr (Z_OK, set_val l (tables_at m + 12 * of_nat (unat (sc_tcount sc))) sc')"
        unfolding z_resolve_table [OF ty src_def False] Let_def run(1) using guard by simp
      moreover have "spent sc [p] (set_val l v sc')" for v
        using run(3) wf1(2) ic1 p els(1,3) by (auto simp: spent_def frame_simps split: if_splits)
      ultimately show ?thesis using run(2) by (simp add: delivered_def inv_intros)
    qed
  next
    case 3
    with Suc.prems have "tables_of p = 0" "items_of p = 0" "blobs_of p = 0"
      by (auto simp: Let_def split: if_splits)
    with 3 Suc.prems show ?thesis
      by (auto simp: Let_def delivered_def spent_def inv_intros frame_simps)
  qed
qed simp

section \<open>What the reader of a message finds\<close>

definition sent_payload :: "z_proc list \<Rightarrow> (u32 \<Rightarrow> u32) \<Rightarrow> z_msg_envelope \<Rightarrow> payload option" where
  "sent_payload procs mem env =
     payload_src 5 mem (p_base (procs ! unat (e_from env))) (e_from env) (e_obj env)"

definition read_payload :: "u32 \<Rightarrow> z_msg \<Rightarrow> payload option" where
  "read_payload m msg = payload_dst 5 m 0 Z_MSG_MAX_ITEMS (msg_scratch msg) (m_obj msg)"

lemma sample_sent:
  "sent_payload four_procs sample_mem sample_env = Some (PList [PScalar Z_UINT32 5, PStr 0x100040])"
proof -
  have e: "read_obj sample_mem (elem_addr 0x100000 2 0x80000020 0) = \<lparr>obj_type = Z_UINT32, obj_val = 5\<rparr>"
    "read_obj sample_mem (elem_addr 0x100000 2 0x80000020 (Suc 0)) = \<lparr>obj_type = Z_STR, obj_val = 0x80000040\<rparr>"
    by (simp_all add: read_obj_def elem_addr_def z_translate_def sample_mem_def)
  have t: "t_len (read_table sample_mem 0x100010) = 2" "t_a (read_table sample_mem 0x100010) = 0x80000020"
    by (simp_all add: read_table_def sample_mem_def)
  have five: "(5 :: nat) = Suc (Suc 3)" by simp
  have n: "unat (2 :: u32) = 2" "[0..<2] = [0, 1 :: nat]" by (simp_all add: upt_rec)
  have z: "z_translate 0x100000 2 0x80000010 = 0x100010" "z_translate 0x100000 2 0x80000040 = 0x100040"
    by (simp_all add: z_translate_def)
  have p: "p_base (four_procs ! 2) = 0x100000" by (simp add: four_procs_def)
  have el: "elems 2 f = (case f 0 of None \<Rightarrow> None | Some a \<Rightarrow> map_option (\<lambda>b. [a, b]) (f (Suc 0)))" for f
    by (simp add: elems_def n split: option.split)
  show ?thesis
    unfolding sent_payload_def sample_env_def five payload_src.simps
    by (simp add: p z t el e Let_def)
qed

lemma k_msg_read_cons:
  assumes "mailboxes_ok mbs" "unat z_pid < Z_PROCS_MAX" "mb_contents (mbs ! unat z_pid) = env # rest"
  obtains mbs' where "k_msg_read procs mem z_pid m msg mbs =
    (case z_resolve_obj 5 mem (p_base (procs ! unat (e_from env))) (e_from env) m Top (init_scratch env msg) of
       Inl f \<Rightarrow> Inl f
     | Inr (_, sc') \<Rightarrow>
         Inr (Z_OK,
              \<lparr>m_to = e_to env, m_from = e_from env, m_subject = e_subject env, m_tag = e_tag env,
               m_obj = sc_obj sc', m_tables = sc_tables sc', m_items = sc_items sc',
               m_blobs = sc_blobs sc'\<rparr>, mbs'))"
proof -
  obtain got mbs' where pop: "z_mailbox_pop z_pid mbs = (got, mbs')" by fastforce
  with z_mailbox_pop_cases [OF assms(1,2) pop] assms(3) have "got = Some env" by auto
  with pop have "z_mailbox_pop z_pid mbs = (Some env, mbs')" by simp
  from that [OF k_msg_read_pop [OF this]] show ?thesis .
qed

lemma read_payload_resolved:
  assumes "sc_wf sc" "payload_dst 5 m 0 (unat (sc_icount sc)) sc (sc_obj sc) = Some p"
  shows "read_payload m \<lparr>m_to = to, m_from = from, m_subject = subject, m_tag = tag, m_obj = sc_obj sc,
      m_tables = sc_tables sc, m_items = sc_items sc, m_blobs = sc_blobs sc\<rparr> = Some p"
proof -
  let ?s = "\<lparr>sc_obj = sc_obj sc, sc_tables = sc_tables sc, sc_items = sc_items sc,
      sc_blobs = sc_blobs sc, sc_tcount = 4, sc_icount = 16, sc_bcount = 2\<rparr>"
  have "get_slot k ?s = get_slot k sc" for k by (cases k) simp_all
  then have "grows {} sc ?s"
    using assms(1) by (simp add: grows_def sc_wf_def)
  from payload_dst_grows [OF this _ _ _ _ assms(2), of 0 16] assms(1)
  have "payload_dst 5 m 0 16 ?s (sc_obj sc) = Some p" by (simp add: sc_wf_def)
  then show ?thesis by (simp add: read_payload_def msg_scratch_def del: payload_dst.simps)
qed

text \<open>
  C7: The kernel never hands over a damaged payload: when a read succeeds, the object in the
  message is either empty (the payload did not fit) or stands for exactly the value the sender's
  memory held, every list, map, string, blob and scalar of it, and the reader reaches all of it
  inside the message's own tables and items.
\<close>

theorem k_msg_read_never_damages:
  assumes "mailboxes_ok mbs" "unat z_pid < Z_PROCS_MAX" "msg_ok msg"
    and "mb_contents (mbs ! unat z_pid) = env # rest"
    and "k_msg_read procs mem z_pid m msg mbs = Inr (rv, msg', mbs')"
  shows "obj_type (m_obj msg') = Z_NONE \<or>
    (\<exists>p. sent_payload procs mem env = Some p \<and> read_payload m msg' = Some p)"
proof -
  let ?base = "p_base (procs ! unat (e_from env))" let ?sc = "init_scratch env msg"
  obtain st sc' where
    r: "z_resolve_obj 5 mem ?base (e_from env) m Top ?sc = Inr (st, sc')" and
    msg': "msg' = \<lparr>m_to = e_to env, m_from = e_from env, m_subject = e_subject env, m_tag = e_tag env,
       m_obj = sc_obj sc', m_tables = sc_tables sc', m_items = sc_items sc', m_blobs = sc_blobs sc'\<rparr>"
    by (rule k_msg_read_cons [OF assms(1,2,4), of procs mem m msg])
      (use assms(5) in \<open>auto simp del: z_resolve_obj.simps split: sum.splits prod.splits\<close>)
  show ?thesis
  proof (cases "st = Z_OK")
    case False
    with init_scratch_post [OF assms(3), of mem ?base "e_from env" m env] r show ?thesis
      by (simp add: resolve_post_def msg' del: z_resolve_obj.simps)
  next
    case True
    with r have "z_resolve_obj 5 mem ?base (e_from env) m Top ?sc = Inr (Z_OK, sc')" by simp
    from z_resolve_faithful [OF init_scratch_wf [OF assms(3)] _ this]
    have "faithful 5 mem ?base (e_from env) m Top (get_slot Top ?sc) ?sc sc'"
      by (simp add: slot_used_def)
    then obtain p where "sc_wf sc'" "payload_src 5 mem ?base (e_from env) (e_obj env) = Some p"
      "payload_dst 5 m 0 (unat (sc_icount sc')) sc' (sc_obj sc') = Some p"
      by (auto simp: faithful_def same_def init_scratch_def)
    then show ?thesis using read_payload_resolved msg' by (auto simp: sent_payload_def)
  qed
qed

lemma sample_resolves:
  "case z_resolve_obj 5 sample_mem (p_base (four_procs ! unat (e_from sample_env))) (e_from sample_env) 0x200000 Top
     (init_scratch sample_env empty_msg) of Inl _ \<Rightarrow> False | Inr (rv, _) \<Rightarrow> rv = Z_OK"
  by code_simp

theorem k_msg_read_never_damages_witness:
  "\<exists>msg' mbs'. k_msg_read four_procs sample_mem 3 0x200000 empty_msg sample_mailboxes = Inr (Z_OK, msg', mbs') \<and>
     (obj_type (m_obj msg') = Z_NONE \<or>
      (\<exists>p. sent_payload four_procs sample_mem sample_env = Some p \<and> read_payload 0x200000 msg' = Some p))"
proof -
  let ?r = "k_msg_read four_procs sample_mem 3 0x200000 empty_msg sample_mailboxes"
  have "\<exists>msg' mbs'. ?r = Inr (Z_OK, msg', mbs')"
    by (rule k_msg_read_cons [OF sample_mailboxes_ok _ sample_contents,
        where procs = four_procs and mem = sample_mem and m = "0x200000" and msg = empty_msg])
      (use sample_resolves in \<open>auto simp del: z_resolve_obj.simps split: sum.splits\<close>)
  then obtain msg' mbs' where r: "?r = Inr (Z_OK, msg', mbs')" by blast
  then show ?thesis
    using k_msg_read_never_damages [OF sample_mailboxes_ok _ msg_ok_empty sample_contents r] by simp
qed

text \<open>
  C9: Every payload within the documented budget is delivered: if the value in the sender's memory
  takes at most four tables, sixteen items and two blob headers in all, then the read succeeds and
  the receiver finds that value.
\<close>

theorem k_msg_read_delivers:
  assumes "mailboxes_ok mbs" "unat z_pid < Z_PROCS_MAX" "msg_ok msg"
    and "mb_contents (mbs ! unat z_pid) = env # rest"
    and "sent_payload procs mem env = Some p"
    and "tables_of p \<le> Z_MSG_MAX_TABLES" "items_of p \<le> Z_MSG_MAX_ITEMS" "blobs_of p \<le> Z_MSG_MAX_BLOBS"
  shows "\<exists>msg' mbs'. k_msg_read procs mem z_pid m msg mbs = Inr (Z_OK, msg', mbs') \<and>
    read_payload m msg' = Some p"
proof -
  let ?base = "p_base (procs ! unat (e_from env))" let ?sc = "init_scratch env msg"
  have wf: "sc_wf ?sc" by (rule init_scratch_wf [OF assms(3)])
  have src: "payload_src 5 mem ?base (e_from env) (get_slot Top ?sc) = Some p"
    using assms(5) by (simp add: sent_payload_def init_scratch_def)
  have "room ?sc [p]" using assms(6-8) by (simp add: room_def init_scratch_def)
  from z_resolve_delivered [OF wf _ src this, of m] obtain sc' where
    r: "z_resolve_obj 5 mem ?base (e_from env) m Top ?sc = Inr (Z_OK, sc')"
    by (auto simp: delivered_def slot_used_def simp del: z_resolve_obj.simps)
  from z_resolve_faithful [OF wf _ this] src
  have f: "sc_wf sc'" "payload_dst 5 m 0 (unat (sc_icount sc')) sc' (sc_obj sc') = Some p"
    by (auto simp: faithful_def same_def slot_used_def init_scratch_def)
  obtain mbs' where "k_msg_read procs mem z_pid m msg mbs = Inr (Z_OK,
      \<lparr>m_to = e_to env, m_from = e_from env, m_subject = e_subject env, m_tag = e_tag env,
       m_obj = sc_obj sc', m_tables = sc_tables sc', m_items = sc_items sc', m_blobs = sc_blobs sc'\<rparr>, mbs')"
    by (rule k_msg_read_cons [OF assms(1,2,4), of procs mem m msg]) (use r in simp)
  with read_payload_resolved [OF f] show ?thesis by blast
qed

theorem k_msg_read_delivers_witness:
  "\<exists>msg' mbs'. k_msg_read four_procs sample_mem 3 0x200000 empty_msg sample_mailboxes = Inr (Z_OK, msg', mbs') \<and>
     read_payload 0x200000 msg' = Some (PList [PScalar Z_UINT32 5, PStr 0x100040])"
  using k_msg_read_delivers [OF sample_mailboxes_ok _ msg_ok_empty sample_contents sample_sent,
      where m = "0x200000"] by simp

text \<open>
  The budget check of the scratch arrays can be defeated: the room a map takes is computed as
  twice its length in 32 bits, so a map that announces two thousand million entries (exactly
  \<open>0x80000000\<close>) needs no room at all. The resolution accepts it and stores items past the end of
  the array as soon as its first key is resolved.
\<close>

theorem z_resolve_map_overruns:
  assumes "obj_type (get_slot l sc) = Z_MAP" "src = z_translate base pid (obj_val (get_slot l sc))" "src \<noteq> 0"
    and "t_len (read_table mem src) = 0x80000000"
    and "obj_type (read_obj mem (elem_addr base pid (t_a (read_table mem src)) 0)) = Z_NONE"
    and "sc_tcount sc = 0" "sc_icount sc = 0" "length (sc_items sc) = Z_MSG_MAX_ITEMS"
  shows "z_resolve_obj (Suc (Suc fuel)) mem base pid m l sc = Inl (Overrun src)"
proof -
  have ty: "obj_type (get_slot l sc) = (if True then Z_MAP else Z_LIST)" using assms(1) by simp
  have n: "unat (0x80000000 :: u32) = Suc 2147483647" by simp
  show ?thesis
    unfolding z_resolve_table [OF ty assms(2,3)] assms(4) Let_def n resolve_items.simps
    using assms(5-8) by (simp add: resolve_slot_def resolve_table_def Let_def)
qed

definition huge_map_mem :: "u32 \<Rightarrow> u32" where
  "huge_map_mem a = (if a = 0x100010 then 0x80000000 else 0)"

theorem z_resolve_map_overruns_witness:
  "z_resolve_obj (Suc (Suc 3)) huge_map_mem 0x100000 2 0x200000 Top
     (init_scratch (sample_env\<lparr>e_obj := \<lparr>obj_type = Z_MAP, obj_val = 0x80000010\<rparr>\<rparr>) empty_msg)
   = Inl (Overrun 0x100010)"
  by (rule z_resolve_map_overruns)
    (simp_all add: init_scratch_def empty_msg_def z_translate_def huge_map_mem_def read_table_def read_obj_def
      elem_addr_def)

end
