(* ===== verification/Pidreg.thy ===== *)
theory Pidreg
  imports Prelude "HOL-Library.Char_ord"
begin

text \<open>
  The registry of process names (\<open>src/sw/os/pidreg.c\<close>): a table of 32 entries that gives every
  registration the smallest number not in use for its base name. Strings are lists of characters
  without the terminating NUL; a string handed over by a caller is a function from offsets to
  characters, which need not hold a NUL anywhere.
\<close>

section \<open>State and helpers\<close>

abbreviation Z_PIDREG_MAX :: nat where "Z_PIDREG_MAX \<equiv> 32"
abbreviation Z_PIDREG_BASENAME_MAX :: nat where "Z_PIDREG_BASENAME_MAX \<equiv> 16"
abbreviation Z_PIDREG_NAME_MAX :: nat where "Z_PIDREG_NAME_MAX \<equiv> 24"

record z_pidreg_entry =
  pe_name :: string
  pe_pid :: u32
  pe_active :: bool

definition k_pidreg_init :: "z_pidreg_entry list \<Rightarrow> z_pidreg_entry list" where
  "k_pidreg_init reg = map (\<lambda>e. e\<lparr>pe_active := False, pe_pid := 0, pe_name := []\<rparr>) reg"

definition digit_char :: "u32 \<Rightarrow> char" where
  "digit_char d = char_of (48 + unat d)"

text \<open>The digits, least significant first; at most ten fit the buffer.\<close>

fun dec_digits :: "nat \<Rightarrow> u32 \<Rightarrow> string" where
  "dec_digits 0 v = []"
| "dec_digits (Suc room) v =
     (if v > 0 then digit_char (v mod 10) # dec_digits room (v div 10) else [])"

definition append_decimal :: "string \<Rightarrow> nat \<Rightarrow> u32 \<Rightarrow> string" where
  "append_decimal buf bufsize val =
     (if length buf \<ge> bufsize - 1 then buf
      else
        let digits = (if val = 0 then [digit_char 0] else dec_digits 10 val) in
        buf @ take (bufsize - 1 - length buf) (rev digits))"

text \<open>Copying a caller's string: up to \<open>room\<close> characters, stopping at a NUL.\<close>

fun copy_str :: "nat \<Rightarrow> (nat \<Rightarrow> char) \<Rightarrow> nat \<Rightarrow> string" where
  "copy_str 0 s i = []"
| "copy_str (Suc room) s i = (if s i = CHR 0x00 then [] else s i # copy_str room s (Suc i))"

definition name_taken :: "z_pidreg_entry list \<Rightarrow> string \<Rightarrow> bool" where
  "name_taken reg name \<longleftrightarrow> (\<exists>e \<in> set reg. pe_active e \<and> pe_name e = name)"

definition candidate :: "string \<Rightarrow> u32 \<Rightarrow> string" where
  "candidate basename n = append_decimal (take (Z_PIDREG_NAME_MAX - 1) basename) Z_PIDREG_NAME_MAX n"

partial_function (option) free_number :: "z_pidreg_entry list \<Rightarrow> string \<Rightarrow> u32 \<Rightarrow> u32 option" where
  "free_number reg basename n =
     (if name_taken reg (candidate basename n) then free_number reg basename (n + 1) else Some n)"

fun free_slot :: "z_pidreg_entry list \<Rightarrow> nat option" where
  "free_slot [] = None"
| "free_slot (e # es) = (if \<not> pe_active e then Some 0 else map_option Suc (free_slot es))"

section \<open>Operations\<close>

text \<open>
  The argument is the caller's string, or \<open>None\<close> when it is not a string object or a null pointer.
  The outcome is the status, the string left in the argument and the registry; the outer option is
  \<open>None\<close> if the search for a number never ends.
\<close>

definition k_pid_register ::
  "u32 \<Rightarrow> (nat \<Rightarrow> char) option \<Rightarrow> z_pidreg_entry list \<Rightarrow>
   (u32 \<times> string option \<times> z_pidreg_entry list) option" where
  "k_pid_register z_pid arg reg =
     (case arg of
        None \<Rightarrow> Some (1, None, reg)
      | Some s \<Rightarrow>
          let basename = copy_str (Z_PIDREG_BASENAME_MAX - 1) s 0 in
          if basename = [] then Some (1, None, reg)
          else case free_number reg basename 0 of
            None \<Rightarrow> None
          | Some n \<Rightarrow>
              case free_slot reg of
                None \<Rightarrow> Some (1, None, reg)
              | Some slot \<Rightarrow>
                  let name = take (Z_PIDREG_NAME_MAX - 1) (candidate basename n) in
                  Some (0, Some name,
                        upd_nth slot (\<lambda>e. e\<lparr>pe_name := name, pe_pid := z_pid, pe_active := True\<rparr>) reg))"

definition k_pid_lookup :: "(nat \<Rightarrow> char) option \<Rightarrow> z_pidreg_entry list \<Rightarrow> u32 \<times> u32 option" where
  "k_pid_lookup arg reg =
     (case arg of
        None \<Rightarrow> (1, None)
      | Some s \<Rightarrow>
          let name = copy_str (Z_PIDREG_NAME_MAX - 1) s 0 in
          case List.find (\<lambda>e. pe_active e \<and> pe_name e = name) reg of
            None \<Rightarrow> (1, None)
          | Some e \<Rightarrow> (0, Some (pe_pid e)))"

definition k_pidreg_release_all :: "u32 \<Rightarrow> z_pidreg_entry list \<Rightarrow> z_pidreg_entry list" where
  "k_pidreg_release_all pid reg =
     map (\<lambda>e. if pe_active e \<and> pe_pid e = pid
              then e\<lparr>pe_active := False, pe_name := [], pe_pid := 0\<rparr> else e) reg"

text \<open>The lines of the dump: slot, name and process of every active entry.\<close>

definition k_pidreg_dump :: "z_pidreg_entry list \<Rightarrow> (nat \<times> string \<times> u32) list" where
  "k_pidreg_dump reg =
     map (\<lambda>e. (e, pe_name (reg ! e), pe_pid (reg ! e))) (filter (\<lambda>e. pe_active (reg ! e)) [0..<length reg])"

definition z_pid_register ::
  "u32 \<Rightarrow> (nat \<Rightarrow> char) \<Rightarrow> nat \<Rightarrow> z_pidreg_entry list \<Rightarrow>
   (bool \<times> string option \<times> z_pidreg_entry list) option" where
  "z_pid_register z_pid basename outlen reg =
     (if outlen = 0 then Some (False, None, reg)
      else case k_pid_register z_pid (Some basename) reg of
        None \<Rightarrow> None
      | Some (rv, out, reg') \<Rightarrow>
          (case out of
             Some name \<Rightarrow> if rv = 0 then Some (True, Some (take (outlen - 1) name), reg')
                          else Some (False, None, reg')
           | None \<Rightarrow> Some (False, None, reg')))"

definition z_pid_lookup :: "(nat \<Rightarrow> char) \<Rightarrow> z_pidreg_entry list \<Rightarrow> u32 option" where
  "z_pid_lookup name reg =
     (case k_pid_lookup (Some name) reg of (rv, out) \<Rightarrow> if rv = 0 then out else None)"

section \<open>Decimal names\<close>

text \<open>The usual decimal notation, and its value.\<close>

fun decimal :: "nat \<Rightarrow> string" where
  "decimal n = (if n < 10 then [char_of (48 + n)] else decimal (n div 10) @ [char_of (48 + n mod 10)])"

declare decimal.simps [simp del]

definition decimal_value :: "string \<Rightarrow> nat" where
  "decimal_value s = foldl (\<lambda>v c. 10 * v + (of_char c - 48)) 0 s"

lemma decimal_value_decimal: "decimal_value (decimal n) = n"
proof (induction n rule: decimal.induct)
  case (1 n)
  then show ?case
    by (subst decimal.simps) (auto simp: decimal_value_def)
qed

lemma decimal_inj: "decimal m = decimal n \<longleftrightarrow> m = n"
  using decimal_value_decimal by metis

lemma length_decimal: "n < 10 ^ Suc k \<Longrightarrow> length (decimal n) \<le> Suc k"
proof (induction k arbitrary: n)
  case 0
  then show ?case by (subst decimal.simps) simp
next
  case (Suc k)
  have "n div 10 < 10 ^ Suc k" using Suc.prems by (simp add: div_less_iff_less_mult)
  with Suc.IH [of "n div 10"] show ?case by (subst decimal.simps) simp
qed

lemma decimal_not_Nil [simp]: "decimal n \<noteq> []"
  by (subst decimal.simps) simp

lemma rev_dec_digits:
  "0 < unat v \<Longrightarrow> unat v < 10 ^ room \<Longrightarrow> rev (dec_digits room v) = decimal (unat v)"
proof (induction room arbitrary: v)
  case (Suc room)
  have v: "v > 0" using Suc.prems(1) by (simp add: word_greater_zero_iff) auto
  have d: "unat (v div 10) = unat v div 10" "unat (v mod 10) = unat v mod 10"
    by (simp_all add: unat_div unat_mod)
  show ?case
  proof (cases "unat v < 10")
    case True
    then have "unat (v div 10) = 0" by (simp add: d)
    then have "v div 10 = 0" by (simp only: unat_eq_zero)
    with True v d show ?thesis
      by (cases room) (simp_all add: digit_char_def decimal.simps [of "unat v"])
  next
    case False
    then have "rev (dec_digits room (v div 10)) = decimal (unat v div 10)"
      using Suc.IH [of "v div 10"] Suc.prems(2) by (simp add: d div_less_iff_less_mult mult.commute)
    with False v d show ?thesis
      by (simp add: digit_char_def decimal.simps [of "unat v"])
  qed
qed simp

lemma append_decimal_eq:
  assumes "length buf \<le> bufsize - 1"
  shows "append_decimal buf bufsize val = take (bufsize - 1) (buf @ decimal (unat val))"
proof (cases "length buf = bufsize - 1")
  case False
  have "rev (if val = 0 then [digit_char 0] else dec_digits 10 val) = decimal (unat val)"
  proof (cases "val = 0")
    case True
    then show ?thesis by (simp add: digit_char_def decimal.simps)
  next
    case False
    have "unat val < 4294967296" by (rule unat_lt_32)
    also have "\<dots> < 10 ^ 10" by simp
    finally have "unat val < 10 ^ 10" .
    with False show ?thesis using rev_dec_digits [of val 10] by (simp add: unat_gt_0)
  qed
  with False assms show ?thesis by (simp add: append_decimal_def Let_def)
qed (simp add: append_decimal_def)

section \<open>The registry as a finite map from names to processes\<close>

definition active_entries :: "z_pidreg_entry list \<Rightarrow> z_pidreg_entry list" where
  "active_entries reg = filter pe_active reg"

definition names :: "z_pidreg_entry list \<Rightarrow> string \<Rightarrow> u32 option" where
  "names reg = map_of (map (\<lambda>e. (pe_name e, pe_pid e)) (active_entries reg))"

definition reg_ok :: "z_pidreg_entry list \<Rightarrow> bool" where
  "reg_ok reg \<longleftrightarrow> length reg = Z_PIDREG_MAX \<and> distinct (map pe_name (active_entries reg)) \<and>
     (\<forall>e \<in> set reg. pe_active e \<longrightarrow> length (pe_name e) < Z_PIDREG_NAME_MAX)"

lemma name_taken_names: "name_taken reg name \<longleftrightarrow> names reg name \<noteq> None"
  by (force simp: name_taken_def names_def active_entries_def map_of_eq_None_iff)

lemma free_slot_None: "free_slot reg = None \<longleftrightarrow> active_entries reg = reg"
proof (induction reg)
  case (Cons e es)
  have "length (filter pe_active es) \<le> length es" by (rule length_filter_le)
  then have "filter pe_active es \<noteq> e # es" by (metis impossible_Cons)
  with Cons show ?case by (auto simp: active_entries_def)
qed (simp add: active_entries_def)

lemma free_slot_Some:
  "free_slot reg = Some k \<Longrightarrow> \<exists>xs e ys. reg = xs @ e # ys \<and> length xs = k \<and> \<not> pe_active e \<and> filter pe_active xs = xs"
proof (induction reg arbitrary: k)
  case (Cons a es)
  show ?case
  proof (cases "pe_active a")
    case False
    with Cons.prems show ?thesis by (intro exI [of _ "[]"] exI [of _ a] exI [of _ es]) simp
  next
    case True
    with Cons.prems obtain j where j: "free_slot es = Some j" "k = Suc j" by auto
    with Cons.IH obtain xs e ys where "es = xs @ e # ys" "length xs = j" "\<not> pe_active e" "filter pe_active xs = xs"
      by blast
    with True j show ?thesis by (intro exI [of _ "a # xs"] exI [of _ e] exI [of _ ys]) simp
  qed
qed simp

lemma names_store:
  assumes "free_slot reg = Some k" "names reg name = None"
  shows "names (upd_nth k (\<lambda>e. e\<lparr>pe_name := name, pe_pid := pid, pe_active := True\<rparr>) reg)
      = (names reg)(name \<mapsto> pid)"
    "reg_ok reg \<Longrightarrow> length name < Z_PIDREG_NAME_MAX \<Longrightarrow>
      reg_ok (upd_nth k (\<lambda>e. e\<lparr>pe_name := name, pe_pid := pid, pe_active := True\<rparr>) reg)"
proof -
  from free_slot_Some [OF assms(1)] obtain xs e ys where
    reg: "reg = xs @ e # ys" "length xs = k" "\<not> pe_active e" "filter pe_active xs = xs" by blast
  let ?e = "e\<lparr>pe_name := name, pe_pid := pid, pe_active := True\<rparr>"
  have upd: "upd_nth k (\<lambda>e. e\<lparr>pe_name := name, pe_pid := pid, pe_active := True\<rparr>) reg = xs @ ?e # ys"
    using reg by (simp add: upd_nth_def list_update_append)
  have fresh: "name \<notin> pe_name ` set xs" "name \<notin> pe_name ` set (filter pe_active ys)"
    using assms(2) reg by (force simp: names_def active_entries_def map_of_eq_None_iff)+
  show "names (upd_nth k (\<lambda>e. e\<lparr>pe_name := name, pe_pid := pid, pe_active := True\<rparr>) reg)
      = (names reg)(name \<mapsto> pid)"
  proof -
    have "map_of (map (\<lambda>e. (pe_name e, pe_pid e)) xs) name = None"
      using fresh(1) by (simp add: map_of_eq_None_iff image_image)
    then show ?thesis
      unfolding upd using reg
      by (auto simp: names_def active_entries_def map_add_def fun_eq_iff split: option.splits)
  qed
  show "reg_ok (upd_nth k (\<lambda>e. e\<lparr>pe_name := name, pe_pid := pid, pe_active := True\<rparr>) reg)"
    if "reg_ok reg" "length name < Z_PIDREG_NAME_MAX"
    unfolding upd using that fresh reg by (auto simp: reg_ok_def active_entries_def)
qed

section \<open>The search for a number\<close>

lemma copy_str_props:
  "length (copy_str room s i) \<le> room" "CHR 0x00 \<notin> set (copy_str room s i)"
  by (induction room s i rule: copy_str.induct) auto

lemma candidate_eq:
  assumes "length basename \<le> 15" "unat n < 100"
  shows "candidate basename n = basename @ decimal (unat n)" "length (candidate basename n) \<le> 17"
proof -
  have d: "length (decimal (unat n)) \<le> 2" using length_decimal [of "unat n" 1] assms(2) by simp
  then show eq: "candidate basename n = basename @ decimal (unat n)"
    using assms(1) by (simp add: candidate_def append_decimal_eq)
  show "length (candidate basename n) \<le> 17" using d assms(1) by (simp add: eq)
qed

lemma free_number_least:
  assumes "\<forall>j<k. name_taken reg (candidate basename (of_nat j))" "\<not> name_taken reg (candidate basename (of_nat k))"
  shows "j \<le> k \<Longrightarrow> free_number reg basename (of_nat j) = Some (of_nat k)"
proof (induction "k - j" arbitrary: j)
  case 0
  with assms(2) show ?case by (subst free_number.simps) simp
next
  case (Suc d)
  then have "free_number reg basename (of_nat j + 1) = Some (of_nat k)"
    using Suc.hyps(1) [of "Suc j"] by (simp add: add.commute)
  with Suc assms(1) show ?case by (subst free_number.simps) simp
qed

lemma some_number_free:
  assumes "length reg \<le> Z_PIDREG_MAX" "length basename \<le> 15"
  shows "\<exists>k \<le> length (active_entries reg). \<not> name_taken reg (candidate basename (of_nat k))"
proof (rule ccontr)
  let ?n = "length (active_entries reg)" and ?f = "\<lambda>k. basename @ decimal k"
  have n: "?n \<le> 32" using order_trans [OF length_filter_le [of pe_active reg] assms(1)] by (simp add: active_entries_def)
  assume "\<not> ?thesis"
  then have taken: "name_taken reg (candidate basename (of_nat k))" if "k \<le> ?n" for k
    using that by blast
  have "?f k \<in> set (map pe_name (active_entries reg))" if k: "k \<le> ?n" for k
  proof -
    have "candidate basename (of_nat k) = ?f k"
      using candidate_eq(1) [of basename "of_nat k"] assms(2) k n by (simp add: unat_of_nat)
    with taken [OF k] show ?thesis by (force simp: name_taken_def active_entries_def)
  qed
  then have "?f ` {..?n} \<subseteq> set (map pe_name (active_entries reg))" by auto
  then have "card (?f ` {..?n}) \<le> card (set (map pe_name (active_entries reg)))"
    by (rule card_mono [rotated]) simp
  also have "\<dots> \<le> ?n" using card_length [of "map pe_name (active_entries reg)"] by simp
  finally have "card (?f ` {..?n}) \<le> ?n" .
  moreover have "inj_on ?f {..?n}" by (simp add: inj_on_def decimal_inj)
  ultimately show False by (simp add: card_image)
qed

lemma free_number_spec:
  assumes "reg_ok reg" "length basename \<le> 15"
  obtains k where "free_number reg basename 0 = Some (of_nat k)" "k \<le> length (active_entries reg)"
    "names reg (basename @ decimal k) = None" "\<forall>j<k. names reg (basename @ decimal j) \<noteq> None"
proof -
  let ?P = "\<lambda>k. \<not> name_taken reg (candidate basename (of_nat k))"
  have len: "length reg = 32" using assms(1) by (simp add: reg_ok_def)
  obtain k0 where k0: "k0 \<le> length (active_entries reg)" "?P k0"
    using some_number_free [of reg basename] len assms(2) by auto
  then obtain k where k: "?P k" "\<forall>j<k. \<not> ?P j"
    using exists_least_iff [of ?P] by blast
  then have le: "k \<le> length (active_entries reg)" using k0 by (metis not_le order_trans)
  have small: "k \<le> 32"
    using le length_filter_le [of pe_active reg] len by (simp add: active_entries_def)
  have cand: "candidate basename (of_nat j) = basename @ decimal j" if "j \<le> k" for j
    using candidate_eq(1) [of basename "of_nat j"] assms(2) that small by (simp add: unat_of_nat)
  show thesis
  proof (rule that [of k])
    show "free_number reg basename 0 = Some (of_nat k)"
      using free_number_least [of k reg basename 0] k by simp
    show "names reg (basename @ decimal k) = None"
      using k(1) cand [of k] by (simp add: name_taken_names)
    show "\<forall>j<k. names reg (basename @ decimal j) \<noteq> None"
      using k(2) cand by (metis less_imp_le name_taken_names)
  qed (rule le)
qed

section \<open>What the calls do to the map\<close>

lemma all_active: "length (active_entries reg) = length reg \<longleftrightarrow> active_entries reg = reg"
  unfolding active_entries_def by (metis filter_id_conv length_filter_less less_irrefl)

lemma reg_ok_boot:
  assumes "length reg = Z_PIDREG_MAX"
  shows "reg_ok (k_pidreg_init reg)" "names (k_pidreg_init reg) = Map.empty"
  using assms by (auto simp: reg_ok_def k_pidreg_init_def active_entries_def names_def o_def)

lemma k_pid_register_refines_aux:
  assumes "reg_ok reg" "basename = copy_str (Z_PIDREG_BASENAME_MAX - 1) s 0"
  shows "\<exists>rv out reg'. k_pid_register z_pid (Some s) reg = Some (rv, out, reg') \<and> reg_ok reg' \<and>
    (if basename = [] \<or> length (active_entries reg) = Z_PIDREG_MAX
     then rv = 1 \<and> out = None \<and> reg' = reg
     else \<exists>n \<le> length (active_entries reg).
       rv = 0 \<and> out = Some (basename @ decimal n) \<and>
       names reg (basename @ decimal n) = None \<and> (\<forall>j<n. names reg (basename @ decimal j) \<noteq> None) \<and>
       names reg' = (names reg)(basename @ decimal n \<mapsto> z_pid))"
proof -
  have len: "length basename \<le> 15" "length reg = 32"
    using copy_str_props(1) [of 15 s 0] assms by (simp_all add: reg_ok_def)
  obtain k where k: "free_number reg basename 0 = Some (of_nat k)" "k \<le> length (active_entries reg)"
    "names reg (basename @ decimal k) = None" "\<forall>j<k. names reg (basename @ decimal j) \<noteq> None"
    by (rule free_number_spec [OF assms(1) len(1)])
  have small: "k \<le> 32" "unat (of_nat k :: u32) = k"
    using k(2) length_filter_le [of pe_active reg] len(2) by (simp_all add: active_entries_def unat_of_nat)
  have cand: "candidate basename (of_nat k) = basename @ decimal k" "length (basename @ decimal k) \<le> 17"
    using candidate_eq [of basename "of_nat k"] len(1) small by simp_all
  note reg = k_pid_register_def option.case Let_def assms(2) [symmetric, simplified]
  show ?thesis
  proof (cases "basename = []")
    case True
    then show ?thesis using assms by (simp add: k_pid_register_def Let_def)
  next
    case nonempty: False
    show ?thesis
    proof (cases "free_slot reg")
      case None
      then have "length (active_entries reg) = 32" using len(2) by (simp add: free_slot_None)
      then show ?thesis using assms(1) nonempty k(1) None
        by (simp add: k_pid_register_def Let_def assms(2) [symmetric, simplified])
    next
      case (Some slot)
      then have "length (active_entries reg) \<noteq> 32"
        using all_active [of reg] free_slot_None [of reg] len(2) by simp
      moreover have "length (basename @ decimal k) < Z_PIDREG_NAME_MAX" using cand(2) by simp
      ultimately show ?thesis
        using nonempty Some k cand names_store(1) [OF Some k(3), of z_pid]
          names_store(2) [OF Some k(3) assms(1), of z_pid]
        by (auto simp: k_pid_register_def Let_def assms(2) [symmetric, simplified])
    qed
  qed
qed


lemma find_active:
  assumes "distinct (map pe_name (active_entries reg))"
  shows "map_option pe_pid (List.find (\<lambda>e. pe_active e \<and> pe_name e = name) reg) = names reg name"
  using assms by (induction reg) (auto simp: names_def active_entries_def)

lemma names_release:
  assumes "distinct (map pe_name (active_entries reg))"
  shows "names (k_pidreg_release_all pid reg) name = (if names reg name = Some pid then None else names reg name)"
  using assms
proof (induction reg)
  case (Cons e reg)
  have "name \<notin> pe_name ` set (active_entries reg) \<longleftrightarrow> names reg name = None"
    by (auto simp: names_def map_of_eq_None_iff image_image)
  with Cons show ?case
    by (auto simp: names_def active_entries_def k_pidreg_release_all_def split: if_splits)
qed (simp add: names_def active_entries_def k_pidreg_release_all_def)

lemma active_release:
  "active_entries (k_pidreg_release_all pid reg) = filter (\<lambda>e. pe_pid e \<noteq> pid) (active_entries reg)"
  by (induction reg) (auto simp: active_entries_def k_pidreg_release_all_def)

lemma reg_ok_release [inv_intros]:
  assumes "reg_ok reg"
  shows "reg_ok (k_pidreg_release_all pid reg)"
  using assms unfolding reg_ok_def active_release
  by (auto simp: k_pidreg_release_all_def distinct_map_filter)

text \<open>
  Looking a name up reads that map, and releasing a process takes exactly its names out of it:
  afterwards none of its names is found, every name of every other process still is, and what the
  dump prints is what is registered.
\<close>

theorem k_pid_lookup_release:
  assumes "reg_ok reg" "name = copy_str (Z_PIDREG_NAME_MAX - 1) s 0"
  shows "k_pid_lookup (Some s) reg = (case names reg name of None \<Rightarrow> (1, None) | Some p \<Rightarrow> (0, Some p)) \<and>
    k_pid_lookup (Some s) (k_pidreg_release_all pid reg) =
      (if names reg name = Some pid then (1, None) else k_pid_lookup (Some s) reg) \<and>
    reg_ok (k_pidreg_release_all pid reg) \<and>
    set (map (\<lambda>(_, n, p). (n, p)) (k_pidreg_dump reg)) = {(n, p). names reg n = Some p}"
proof -
  have look: "k_pid_lookup (Some s) r = (case names r name of None \<Rightarrow> (1, None) | Some p \<Rightarrow> (0, Some p))"
    if "reg_ok r" for r
    using find_active [of r name] that
    by (cases "List.find (\<lambda>e. pe_active e \<and> pe_name e = name) r"; cases "names r name")
      (auto simp: k_pid_lookup_def Let_def assms(2) [symmetric, simplified] reg_ok_def)
  have dist: "distinct (map pe_name (active_entries reg))" using assms(1) by (simp add: reg_ok_def)
  have "{(n, p). names reg n = Some p} = (\<lambda>e. (pe_name e, pe_pid e)) ` set (active_entries reg)"
    using dist by (auto simp: names_def map_of_eq_Some_iff o_def distinct_map)
  also have "set (active_entries reg) = (\<lambda>i. reg ! i) ` set (filter (\<lambda>i. pe_active (reg ! i)) [0..<length reg])"
    by (auto simp: active_entries_def in_set_conv_nth)
  finally have "set (map (\<lambda>(_, n, p). (n, p)) (k_pidreg_dump reg)) = {(n, p). names reg n = Some p}"
    by (simp add: k_pidreg_dump_def image_image)
  then show ?thesis
    using look [OF assms(1)] look [OF reg_ok_release [OF assms(1), of pid]] names_release [OF dist, of pid name]
      reg_ok_release [OF assms(1), of pid]
    by simp
qed

definition sample_reg :: "z_pidreg_entry list" where
  "sample_reg = [\<lparr>pe_name = ''term0'', pe_pid = 3, pe_active = True\<rparr>,
     \<lparr>pe_name = '''', pe_pid = 0, pe_active = False\<rparr>, \<lparr>pe_name = ''term2'', pe_pid = 5, pe_active = True\<rparr>]
     @ replicate 29 \<lparr>pe_name = '''', pe_pid = 0, pe_active = False\<rparr>"

definition c_str :: "string \<Rightarrow> nat \<Rightarrow> char" where
  "c_str s i = (if i < length s then s ! i else CHR 0x00)"

lemma sample_reg_ok: "reg_ok sample_reg"
  by (simp add: reg_ok_def sample_reg_def active_entries_def)

lemma sample_names: "names sample_reg = [''term0'' \<mapsto> 3, ''term2'' \<mapsto> 5]"
  by (rule ext) (simp add: names_def sample_reg_def active_entries_def)


theorem k_pid_lookup_release_witness:
  "k_pid_lookup (Some (c_str ''term2'')) sample_reg = (0, Some 5) \<and>
   k_pid_lookup (Some (c_str ''term2'')) (k_pidreg_release_all 5 sample_reg) = (1, None)"
proof -
  have b: "''term2'' = copy_str (Z_PIDREG_NAME_MAX - 1) (c_str ''term2'') 0"
    by (simp add: eval_nat_numeral c_str_def)
  show ?thesis
    using k_pid_lookup_release [OF sample_reg_ok b, of 5]
    by (simp add: sample_names)
qed

end
