(* ===== verification/Hid.thy ===== *)
theory Hid
  imports Queue
begin

text \<open>
  The USB keyboard driver (\<open>src/sw/os/hid.c\<close>): each port's interrupt compares the new report with
  the previous one of that port and pushes one event per key or modifier that changed into a shared
  ring of 32 events, which processes drain.
\<close>

section \<open>State\<close>

abbreviation HID_FIFO_SIZE :: nat where "HID_FIFO_SIZE \<equiv> 32"
abbreviation Z_HID_USAGE_LCTRL :: u8 where "Z_HID_USAGE_LCTRL \<equiv> 0xE0"

record hid_port =
  hp_modifiers :: u8
  hp_keys :: "u8 list"

record hid =
  hid_fifo :: "u32 byte_ring"
  hid_port0 :: hid_port
  hid_port1 :: hid_port

definition z_hid_init :: "hid \<Rightarrow> hid" where
  "z_hid_init h =
     h\<lparr>hid_port0 := \<lparr>hp_modifiers = 0, hp_keys = [0, 0, 0, 0]\<rparr>,
       hid_port1 := \<lparr>hp_modifiers = 0, hp_keys = [0, 0, 0, 0]\<rparr>,
       hid_fifo := (hid_fifo h)\<lparr>r_head := 0, r_tail := 0\<rparr>\<rparr>"

section \<open>Events\<close>

definition hid_event :: "u8 \<Rightarrow> u8 \<Rightarrow> bool \<Rightarrow> u32" where
  "hid_event usage mods pressed =
     push_bit 9 (ucast mods AND 0xFF) OR push_bit 1 (ucast usage AND 0xFF) OR (if pressed then 1 else 0)"

definition hid_push :: "u32 \<Rightarrow> u32 byte_ring \<Rightarrow> u32 byte_ring" where
  "hid_push ev r = (case ring_push HID_FIFO_SIZE ev r of None \<Rightarrow> r | Some r' \<Rightarrow> r')"

definition hid_usage_valid :: "u8 \<Rightarrow> bool" where
  "hid_usage_valid usage \<longleftrightarrow> usage \<ge> 4"

definition key_in_set :: "u8 list \<Rightarrow> u8 \<Rightarrow> bool" where
  "key_in_set ks usage \<longleftrightarrow> ks ! 0 = usage \<or> ks ! 1 = usage \<or> ks ! 2 = usage \<or> ks ! 3 = usage"

text \<open>The four key bytes of a report, the first in the highest byte of the register.\<close>

definition report_keys :: "u32 \<Rightarrow> u8 list" where
  "report_keys keys = [ucast (drop_bit 24 keys), ucast (drop_bit 16 keys), ucast (drop_bit 8 keys), ucast keys]"

definition push_modifiers :: "u8 \<Rightarrow> u8 \<Rightarrow> u32 byte_ring \<Rightarrow> u32 byte_ring" where
  "push_modifiers old mods r =
     (if mods \<noteq> old then
        fold (\<lambda>b r. if \<not> bit (mods XOR old) b then r
                    else hid_push (hid_event (Z_HID_USAGE_LCTRL + of_nat b) mods (bit mods b)) r) [0..<8] r
      else r)"

definition push_releases :: "u8 list \<Rightarrow> u8 list \<Rightarrow> u8 \<Rightarrow> u32 byte_ring \<Rightarrow> u32 byte_ring" where
  "push_releases old cur mods r =
     fold (\<lambda>i r. let u = old ! i in
             if \<not> hid_usage_valid u then r
             else if \<not> key_in_set cur u then hid_push (hid_event u mods False) r else r) [0..<4] r"

definition push_presses :: "u8 list \<Rightarrow> u8 list \<Rightarrow> u8 \<Rightarrow> u32 byte_ring \<Rightarrow> u32 byte_ring" where
  "push_presses old cur mods r =
     fold (\<lambda>i r. let u = cur ! i in
             if \<not> hid_usage_valid u then r
             else if \<not> key_in_set old u then hid_push (hid_event u mods True) r else r) [0..<4] r"

definition hid_irq_common :: "hid_port \<Rightarrow> u32 \<Rightarrow> u32 \<Rightarrow> u32 byte_ring \<Rightarrow> hid_port \<times> u32 byte_ring" where
  "hid_irq_common st info keys r =
     (if drop_bit 24 info AND 3 \<noteq> 1 then (st, r)
      else
        let mods = ucast info;
            cur = report_keys keys;
            r = push_modifiers (hp_modifiers st) mods r;
            r = push_releases (hp_keys st) cur mods r;
            r = push_presses (hp_keys st) cur mods r in
        (\<lparr>hp_modifiers = mods, hp_keys = cur\<rparr>, r))"

definition z_hid_irq0 :: "u32 \<Rightarrow> u32 \<Rightarrow> hid \<Rightarrow> hid" where
  "z_hid_irq0 info keys h =
     (case hid_irq_common (hid_port0 h) info keys (hid_fifo h) of
        (p, r) \<Rightarrow> h\<lparr>hid_port0 := p, hid_fifo := r\<rparr>)"

definition z_hid_irq1 :: "u32 \<Rightarrow> u32 \<Rightarrow> hid \<Rightarrow> hid" where
  "z_hid_irq1 info keys h =
     (case hid_irq_common (hid_port1 h) info keys (hid_fifo h) of
        (p, r) \<Rightarrow> h\<lparr>hid_port1 := p, hid_fifo := r\<rparr>)"

definition k_hid_read_key :: "hid \<Rightarrow> u32 \<times> hid" where
  "k_hid_read_key h =
     (case ring_pop HID_FIFO_SIZE (hid_fifo h) of
        None \<Rightarrow> (-1, h)
      | Some (ev, r) \<Rightarrow> (ev, h\<lparr>hid_fifo := r\<rparr>))"

section \<open>The queue\<close>

interpretation hidq: bounded_queue "ring_push HID_FIFO_SIZE" "ring_pop HID_FIFO_SIZE" "ring_contents 32"
    "ring_inv HID_FIFO_SIZE 32" "32 - 1"
  by (rule ring_queue [OF ring_size_32])

lemma hid_push_contents:
  assumes "ring_inv HID_FIFO_SIZE 32 r"
  shows "ring_inv HID_FIFO_SIZE 32 (hid_push ev r) \<and>
    ring_contents 32 (hid_push ev r) = (if length (ring_contents 32 r) < 31 then ring_contents 32 r @ [ev]
                                         else ring_contents 32 r)"
  using hidq.push_cases [OF assms, of ev] assms by (auto simp: hid_push_def)

text \<open>What a sequence of events leaves in the queue: as many of them as fit.\<close>

lemma hid_push_all:
  assumes "ring_inv HID_FIFO_SIZE 32 r"
  shows "ring_inv HID_FIFO_SIZE 32 (fold hid_push evs r) \<and>
    ring_contents 32 (fold hid_push evs r) = ring_contents 32 r @ take (31 - length (ring_contents 32 r)) evs"
  using assms
proof (induction evs arbitrary: r)
  case (Cons ev evs)
  note p = hid_push_contents [OF Cons.prems, of ev]
  show ?case
  proof (cases "length (ring_contents 32 r) < 31")
    case True
    then have "31 - length (ring_contents 32 r) = Suc (30 - length (ring_contents 32 r))" by simp
    with True p Cons.IH [of "hid_push ev r"] show ?thesis by simp
  next
    case False
    with p Cons.IH [of "hid_push ev r"] show ?thesis by simp
  qed
qed simp

section \<open>The events of a report\<close>

definition modifier_events :: "u8 \<Rightarrow> u8 \<Rightarrow> u32 list" where
  "modifier_events old mods =
     map (\<lambda>b. hid_event (Z_HID_USAGE_LCTRL + of_nat b) mods (bit mods b)) (filter (bit (mods XOR old)) [0..<8])"

definition release_events :: "u8 list \<Rightarrow> u8 list \<Rightarrow> u8 \<Rightarrow> u32 list" where
  "release_events old cur mods =
     map (\<lambda>u. hid_event u mods False) (filter (\<lambda>u. hid_usage_valid u \<and> \<not> key_in_set cur u) old)"

definition press_events :: "u8 list \<Rightarrow> u8 list \<Rightarrow> u8 \<Rightarrow> u32 list" where
  "press_events old cur mods =
     map (\<lambda>u. hid_event u mods True) (filter (\<lambda>u. hid_usage_valid u \<and> \<not> key_in_set old u) cur)"

definition report_events :: "hid_port \<Rightarrow> u32 \<Rightarrow> u32 \<Rightarrow> u32 list" where
  "report_events st info keys =
     (if drop_bit 24 info AND 3 \<noteq> 1 then []
      else modifier_events (hp_modifiers st) (ucast info)
         @ release_events (hp_keys st) (report_keys keys) (ucast info)
         @ press_events (hp_keys st) (report_keys keys) (ucast info))"

lemma fold_filter_map: "fold (\<lambda>x r. if P x then h (f x) r else r) xs r = fold h (map f (filter P xs)) r"
  by (induction xs arbitrary: r) auto

lemma push_modifiers_eq: "push_modifiers old mods r = fold hid_push (modifier_events old mods) r"
proof (cases "mods = old")
  case True
  then show ?thesis by (simp add: push_modifiers_def modifier_events_def)
next
  case False
  have "fold (\<lambda>b r. if \<not> bit (mods XOR old) b then r
      else hid_push (hid_event (Z_HID_USAGE_LCTRL + of_nat b) mods (bit mods b)) r) [0..<8] r =
    fold (\<lambda>b r. if bit (mods XOR old) b then hid_push (hid_event (Z_HID_USAGE_LCTRL + of_nat b) mods (bit mods b)) r
      else r) [0..<8] r"
    by (rule fold_cong) auto
  also have "\<dots> = fold hid_push (modifier_events old mods) r"
    unfolding modifier_events_def by (rule fold_filter_map)
  finally show ?thesis using False by (simp add: push_modifiers_def)
qed

lemma fold_nth: "length xs = n \<Longrightarrow> fold (\<lambda>i. f (xs ! i)) [0..<n] r = fold f xs r"
proof -
  have "fold (\<lambda>i. f (xs ! i)) [0..<n] r = fold f (map (\<lambda>i. xs ! i) [0..<n]) r" by (simp add: fold_map o_def)
  then show "length xs = n \<Longrightarrow> ?thesis" by (auto simp: map_nth)
qed

lemma push_keys_eq:
  assumes "length old = 4" "length cur = 4"
  shows "push_releases old cur mods r = fold hid_push (release_events old cur mods) r"
    "push_presses old cur mods r = fold hid_push (press_events old cur mods) r"
proof -
  have *: "(if \<not> hid_usage_valid u then r else if \<not> key_in_set ks u then x else r) =
      (if hid_usage_valid u \<and> \<not> key_in_set ks u then x else r)" for u ks and r x :: "u32 byte_ring" by simp
  show "push_releases old cur mods r = fold hid_push (release_events old cur mods) r"
    unfolding push_releases_def Let_def * release_events_def
    by (subst fold_filter_map [symmetric]) (rule fold_nth [OF assms(1)])
  show "push_presses old cur mods r = fold hid_push (press_events old cur mods) r"
    unfolding push_presses_def Let_def * press_events_def
    by (subst fold_filter_map [symmetric]) (rule fold_nth [OF assms(2)])
qed

lemma hid_irq_common_eq:
  assumes "length (hp_keys st) = 4"
  shows "hid_irq_common st info keys r =
    (if drop_bit 24 info AND 3 \<noteq> 1 then st else \<lparr>hp_modifiers = ucast info, hp_keys = report_keys keys\<rparr>,
     fold hid_push (report_events st info keys) r)"
proof -
  have "length (report_keys keys) = 4" by (simp add: report_keys_def)
  with assms show ?thesis
    by (simp add: hid_irq_common_def Let_def report_events_def push_modifiers_eq push_keys_eq)
qed

section \<open>Events describe the keys held\<close>

definition ev_pressed :: "u32 \<Rightarrow> bool" where "ev_pressed ev = bit ev 0"
definition ev_usage :: "u32 \<Rightarrow> u8" where "ev_usage ev = ucast (drop_bit 1 ev)"
definition ev_modifiers :: "u32 \<Rightarrow> u8" where "ev_modifiers ev = ucast (drop_bit 9 ev)"

lemma hid_event_fields:
  "ev_pressed (hid_event u m p) = p" "ev_usage (hid_event u m p) = u" "ev_modifiers (hid_event u m p) = m"
  "17 \<le> n \<Longrightarrow> \<not> bit (hid_event u m p) n"
proof -
  have ff: "(0xFF :: u32) = mask 8" by (simp add: mask_eq_exp_minus_1)
  show "ev_pressed (hid_event u m p) = p"
    by (simp add: ev_pressed_def hid_event_def bit_simps)
  show "ev_usage (hid_event u m p) = u"
    by (rule bit_word_eqI) (auto simp: ev_usage_def hid_event_def ff bit_simps simp del: push_bit_Suc)
  show "ev_modifiers (hid_event u m p) = m"
    by (rule bit_word_eqI) (auto simp: ev_modifiers_def hid_event_def ff bit_simps simp del: push_bit_Suc)
  show "17 \<le> n \<Longrightarrow> \<not> bit (hid_event u m p) n"
    by (auto simp: hid_event_def ff bit_simps simp del: push_bit_Suc)
qed

definition held :: "hid_port \<Rightarrow> u8 set" where
  "held st = {u \<in> set (hp_keys st). hid_usage_valid u} \<union>
     (\<lambda>b. Z_HID_USAGE_LCTRL + of_nat b) ` {b. b < 8 \<and> bit (hp_modifiers st) b}"

definition apply_event :: "u32 \<Rightarrow> u8 set \<Rightarrow> u8 set" where
  "apply_event ev S = (if ev_pressed ev then insert (ev_usage ev) S else S - {ev_usage ev})"

lemma apply_releases: "fold apply_event (map (\<lambda>u. hid_event u m False) us) S = S - set us"
  by (induction us arbitrary: S) (auto simp: apply_event_def hid_event_fields)

lemma apply_presses: "fold apply_event (map (\<lambda>u. hid_event u m True) us) S = S \<union> set us"
  by (induction us arbitrary: S) (auto simp: apply_event_def hid_event_fields)

lemma apply_mixed:
  "inj_on f (set bs) \<Longrightarrow> distinct bs \<Longrightarrow>
   fold apply_event (map (\<lambda>b. hid_event (f b) m (P b)) bs) S = (S - f ` set bs) \<union> f ` {b \<in> set bs. P b}"
proof (induction bs arbitrary: S)
  case (Cons b bs)
  then have fb: "f b \<notin> f ` set bs" by (auto simp: inj_on_def)
  have "inj_on f (set bs)" "distinct bs" using Cons.prems by auto
  then have "fold apply_event (map (\<lambda>b. hid_event (f b) m (P b)) (b # bs)) S
      = (apply_event (hid_event (f b) m (P b)) S - f ` set bs) \<union> f ` {b \<in> set bs. P b}"
    using Cons.IH by simp
  also have "\<dots> = (S - f ` set (b # bs)) \<union> f ` {c \<in> set (b # bs). P c}"
    using fb by (auto simp: apply_event_def hid_event_fields) (metis imageI)
  finally show ?case .
qed simp

lemma usage_of_bit: "unat (Z_HID_USAGE_LCTRL + of_nat b) = 224 + b" if "b < 8"
  using that by (simp add: unat_word_ariths unat_of_nat)

lemma usage_inj: "inj_on (\<lambda>b. Z_HID_USAGE_LCTRL + of_nat b) {b. b < 8}"
  by (rule inj_onI) (metis add_left_cancel mem_Collect_eq usage_of_bit)

lemma key_in_set_iff: "length ks = 4 \<Longrightarrow> key_in_set ks u \<longleftrightarrow> u \<in> set ks"
  by (auto simp: key_in_set_def numeral_eq_Suc length_Suc_conv)

lemma held_after_report:
  assumes "length (hp_keys st) = 4" "\<forall>k \<in> set (hp_keys st) \<union> set (report_keys keys). unat k < 224"
    and "drop_bit 24 info AND 3 = 1"
  shows "fold apply_event (report_events st info keys) (held st)
    = held \<lparr>hp_modifiers = ucast info, hp_keys = report_keys keys\<rparr>"
proof -
  let ?f = "\<lambda>b. Z_HID_USAGE_LCTRL + of_nat b" and ?old = "hp_modifiers st" and ?mods = "ucast info :: u8"
  let ?cur = "report_keys keys"
  let ?C = "filter (bit (?mods XOR ?old)) [0..<8]"
  let ?R = "filter (\<lambda>u. hid_usage_valid u \<and> \<not> key_in_set ?cur u) (hp_keys st)"
  let ?P = "filter (\<lambda>u. hid_usage_valid u \<and> \<not> key_in_set (hp_keys st) u) ?cur"
  let ?M = "\<lambda>m :: u8. ?f ` {b. b < 8 \<and> bit m b}" and ?K = "\<lambda>ks. {u \<in> set ks. hid_usage_valid u}"
  have inj: "inj_on ?f (set ?C)" by (rule inj_on_subset [OF usage_inj]) auto
  have high: "unat x \<ge> 224" if "x \<in> ?f ` A" "A \<subseteq> {b. b < 8}" for x A
    using that by (auto dest!: subsetD simp: usage_of_bit)
  have low: "unat x < 224" if "x \<in> set (hp_keys st) \<union> set ?cur" for x using that assms(2) by blast
  have apart: "x \<notin> ?f ` A" if "x \<in> set (hp_keys st) \<union> set ?cur" "A \<subseteq> {b. b < 8}" for x A
    using high [of x A] low [of x] that by fastforce
  have step1: "fold apply_event (modifier_events ?old ?mods) (held st) = ?K (hp_keys st) \<union> ?M ?mods"
  proof -
    have "fold apply_event (modifier_events ?old ?mods) (held st)
        = (held st - ?f ` set ?C) \<union> ?f ` {b \<in> set ?C. bit ?mods b}"
      unfolding modifier_events_def by (rule apply_mixed [OF inj]) simp
    also have "held st - ?f ` set ?C = ?K (hp_keys st) \<union> (?M ?old - ?f ` set ?C)"
      using apart [of _ "set ?C"] by (auto simp: held_def)
    also have "?M ?old - ?f ` set ?C = ?f ` ({b. b < 8 \<and> bit ?old b} - set ?C)"
      by (rule inj_on_image_set_diff [symmetric, OF usage_inj]) auto
    also have "?K (hp_keys st) \<union> ?f ` ({b. b < 8 \<and> bit ?old b} - set ?C) \<union> ?f ` {b \<in> set ?C. bit ?mods b}
        = ?K (hp_keys st) \<union> ?M ?mods"
    proof -
      have "({b. b < 8 \<and> bit ?old b} - set ?C) \<union> {b \<in> set ?C. bit ?mods b} = {b. b < 8 \<and> bit ?mods b}"
        by (auto simp: bit_simps)
      then show ?thesis by (metis (no_types, lifting) Un_assoc image_Un)
    qed
    finally show ?thesis .
  qed
  have "fold apply_event (report_events st info keys) (held st) = ((?K (hp_keys st) \<union> ?M ?mods) - set ?R) \<union> set ?P"
    using assms(3) by (simp add: report_events_def step1 release_events_def press_events_def apply_releases apply_presses)
  also have "\<dots> = (?K (hp_keys st) - set ?R) \<union> set ?P \<union> ?M ?mods"
    using apart [of _ "{b. b < 8 \<and> bit ?mods b}"] by auto
  also have "(?K (hp_keys st) - set ?R) \<union> set ?P = ?K ?cur"
    using assms(1) by (auto simp: key_in_set_iff report_keys_def)
  finally show ?thesis by (simp add: held_def)
qed

text \<open>The usages of a report's events are those that are held before or after, not both, and each event tells which.\<close>

lemma held_split:
  "u \<in> held st \<longleftrightarrow> u \<in> set (hp_keys st) \<and> hid_usage_valid u \<or> (\<exists>b<8. u = Z_HID_USAGE_LCTRL + of_nat b \<and> bit (hp_modifiers st) b)"
  by (auto simp: held_def)

lemma mod_usage_inj: "b < 8 \<Longrightarrow> c < 8 \<Longrightarrow> Z_HID_USAGE_LCTRL + of_nat b = Z_HID_USAGE_LCTRL + of_nat c \<longleftrightarrow> b = c"
  using usage_inj by (auto simp: inj_on_def)

lemma modifier_events_mem:
  "e \<in> set (modifier_events old mods) \<longleftrightarrow>
   (\<exists>b<8. bit mods b \<noteq> bit old b \<and> e = hid_event (Z_HID_USAGE_LCTRL + of_nat b) mods (bit mods b))"
  by (simp only: modifier_events_def set_map set_filter image_iff) (auto simp: bit_simps)

lemma modifier_events_distinct: "distinct (map ev_usage (modifier_events old mods))"
proof -
  have "map ev_usage (modifier_events old mods) = map (\<lambda>b. Z_HID_USAGE_LCTRL + of_nat b) (filter (bit (mods XOR old)) [0..<8])"
    by (simp add: modifier_events_def hid_event_fields o_def)
  moreover have "inj_on (\<lambda>b. Z_HID_USAGE_LCTRL + of_nat b) (set (filter (bit (mods XOR old)) [0..<8]))"
    by (rule inj_on_subset [OF usage_inj]) auto
  ultimately show ?thesis by (simp add: distinct_map)
qed

text \<open>Ordinary keys are below the usages of the modifiers.\<close>

definition plain_keys :: "u8 list \<Rightarrow> bool" where "plain_keys ks \<longleftrightarrow> length ks = 4 \<and> (\<forall>k\<in>set ks. unat k < 0xE0)"

lemma plain_apart: "plain_keys ks \<Longrightarrow> b < 8 \<Longrightarrow> Z_HID_USAGE_LCTRL + of_nat b \<notin> set ks"
  using usage_of_bit by (fastforce simp: plain_keys_def)

lemma plain_held:
  assumes "plain_keys (hp_keys st)"
  shows "unat u < 0xE0 \<Longrightarrow> u \<in> held st \<longleftrightarrow> u \<in> set (hp_keys st) \<and> hid_usage_valid u"
    "b < 8 \<Longrightarrow> Z_HID_USAGE_LCTRL + of_nat b \<in> held st \<longleftrightarrow> bit (hp_modifiers st) b"
  using plain_apart [OF assms] usage_of_bit mod_usage_inj by (fastforce simp: held_split)+

lemma report_events_tell:
  assumes "plain_keys (hp_keys st)" "plain_keys (report_keys keys)" "drop_bit 24 info AND 3 = 1"
    and st': "st' = \<lparr>hp_modifiers = ucast info, hp_keys = report_keys keys\<rparr>"
  shows "ev_usage ` set (report_events st info keys) = (held st - held st') \<union> (held st' - held st)"
    and "e \<in> set (report_events st info keys) \<Longrightarrow> ev_pressed e \<longleftrightarrow> ev_usage e \<in> held st'"
    and "e \<in> set (report_events st info keys) \<Longrightarrow> e = hid_event (ev_usage e) (ucast info) (ev_pressed e)"
proof -
  let ?mods = "ucast info :: u8" and ?cur = "report_keys keys"
  have p': "plain_keys (hp_keys st')" by (simp add: st' assms(2))
  note h = plain_held [OF assms(1)] and h' = plain_held [OF p']
  have mem: "e \<in> set (report_events st info keys) \<longleftrightarrow>
    (\<exists>b<8. bit ?mods b \<noteq> bit (hp_modifiers st) b \<and> e = hid_event (Z_HID_USAGE_LCTRL + of_nat b) ?mods (bit ?mods b)) \<or>
    (\<exists>u\<in>set (hp_keys st). hid_usage_valid u \<and> u \<notin> set ?cur \<and> e = hid_event u ?mods False) \<or>
    (\<exists>u\<in>set ?cur. hid_usage_valid u \<and> u \<notin> set (hp_keys st) \<and> e = hid_event u ?mods True)" for e
    using assms(1-3) by (auto simp: report_events_def modifier_events_mem release_events_def press_events_def key_in_set_iff plain_keys_def)
  have low: "unat u < 0xE0" if "u \<in> set (hp_keys st) \<union> set ?cur" for u using that assms(1,2) by (auto simp: plain_keys_def)
  have keys: "hp_keys st' = ?cur" "hp_modifiers st' = ?mods" by (simp_all add: st')
  show *: "e \<in> set (report_events st info keys) \<Longrightarrow> ev_pressed e \<longleftrightarrow> ev_usage e \<in> held st'" for e
    unfolding mem using low h' keys by (auto simp: hid_event_fields)
  show "e \<in> set (report_events st info keys) \<Longrightarrow> e = hid_event (ev_usage e) (ucast info) (ev_pressed e)"
    unfolding mem by (auto simp: hid_event_fields)
  have "u \<in> ev_usage ` set (report_events st info keys) \<longleftrightarrow>
    (\<exists>b<8. u = Z_HID_USAGE_LCTRL + of_nat b \<and> bit ?mods b \<noteq> bit (hp_modifiers st) b) \<or>
    (u \<in> set (hp_keys st) \<and> hid_usage_valid u \<and> u \<notin> set ?cur) \<or> (u \<in> set ?cur \<and> hid_usage_valid u \<and> u \<notin> set (hp_keys st))" for u
  proof -
    have "u \<in> ev_usage ` set (report_events st info keys) \<longleftrightarrow> (\<exists>e. e \<in> set (report_events st info keys) \<and> u = ev_usage e)" by auto
    then show ?thesis unfolding mem by (simp add: hid_event_fields ex_disj_distrib conj_disj_distribR ex_simps) (fastforce simp: hid_event_fields)
  qed
  moreover have "(u \<in> held st) \<noteq> (u \<in> held st') \<longleftrightarrow>
    (\<exists>b<8. u = Z_HID_USAGE_LCTRL + of_nat b \<and> bit ?mods b \<noteq> bit (hp_modifiers st) b) \<or>
    (u \<in> set (hp_keys st) \<and> hid_usage_valid u \<and> u \<notin> set ?cur) \<or> (u \<in> set ?cur \<and> hid_usage_valid u \<and> u \<notin> set (hp_keys st))" for u
  proof (cases "unat u < 0xE0")
    case True
    then have "u \<noteq> Z_HID_USAGE_LCTRL + of_nat b" if "b < 8" for b using usage_of_bit [OF that] by auto
    then show ?thesis using h(1) [OF True] h'(1) [OF True] keys by auto
  next
    case False
    then have u: "u \<notin> set (hp_keys st) \<union> set ?cur" using low by blast
    show ?thesis
    proof (cases "\<exists>b<8. u = Z_HID_USAGE_LCTRL + of_nat b")
      case True
      then obtain b where b: "b < 8" "u = Z_HID_USAGE_LCTRL + of_nat b" by blast
      have "(\<exists>c<8. u = Z_HID_USAGE_LCTRL + of_nat c \<and> Q c) \<longleftrightarrow> Q b" for Q
        using b mod_usage_inj [OF b(1)] by metis
      moreover have "(u \<in> held st) = bit (hp_modifiers st) b" "(u \<in> held st') = bit ?mods b"
        unfolding b(2) using h(2) [OF b(1)] h'(2) [OF b(1)] keys(2) by simp_all
      ultimately show ?thesis using u by auto
    next
      case False
      then have "u \<notin> held st" "u \<notin> held st'" using u keys(1) by (auto simp: held_split)
      with False u show ?thesis by auto
    qed
  qed
  ultimately show "ev_usage ` set (report_events st info keys) = (held st - held st') \<union> (held st' - held st)"
    by (intro set_eqI) auto
qed

lemma report_events_distinct:
  assumes "plain_keys (hp_keys st)" "plain_keys (report_keys keys)"
    and "distinct (filter hid_usage_valid (hp_keys st))" "distinct (filter hid_usage_valid (report_keys keys))"
  shows "distinct (map ev_usage (report_events st info keys))"
proof -
  have rel: "map ev_usage (release_events (hp_keys st) (report_keys keys) m) = filter (\<lambda>u. \<not> key_in_set (report_keys keys) u) (filter hid_usage_valid (hp_keys st))"
    and pre: "map ev_usage (press_events (hp_keys st) (report_keys keys) m) = filter (\<lambda>u. \<not> key_in_set (hp_keys st) u) (filter hid_usage_valid (report_keys keys))" for m
    by (simp_all add: release_events_def press_events_def hid_event_fields o_def conj_commute)
  have m: "ev_usage e \<notin> set ks" if "plain_keys ks" "e \<in> set (modifier_events old mods)" for old mods ks e
    using plain_apart [OF that(1)] that(2) by (auto simp: modifier_events_mem hid_event_fields)
  have k: "length (hp_keys st) = 4" "length (report_keys keys) = 4" using assms(1,2) by (simp_all add: plain_keys_def)
  let ?M = "map ev_usage (modifier_events (hp_modifiers st) (ucast info))"
  let ?R = "filter (\<lambda>u. \<not> key_in_set (report_keys keys) u) (filter hid_usage_valid (hp_keys st))"
  let ?P = "filter (\<lambda>u. \<not> key_in_set (hp_keys st) u) (filter hid_usage_valid (report_keys keys))"
  have "set ?M \<inter> set ?R = {}" "set ?M \<inter> set ?P = {}" using m [OF assms(1)] m [OF assms(2)] by auto
  moreover have "set ?R \<inter> set ?P = {}" by (auto simp: key_in_set_iff k)
  moreover have "distinct ?M" "distinct ?R" "distinct ?P" using modifier_events_distinct assms(3,4) by (simp_all only: distinct_filter)
  ultimately have d: "distinct (?M @ ?R @ ?P)" by (auto simp only: distinct_append set_append)
  show ?thesis
  proof (cases "drop_bit 24 info AND 3 = 1")
    case True
    then have "report_events st info keys = modifier_events (hp_modifiers st) (ucast info) @
        release_events (hp_keys st) (report_keys keys) (ucast info) @ press_events (hp_keys st) (report_keys keys) (ucast info)"
      by (simp add: report_events_def)
    then show ?thesis using d by (simp only: map_append rel pre)
  qed (simp add: report_events_def)
qed

lemma report_events_order:
  assumes "plain_keys (hp_keys st)" "plain_keys (report_keys keys)" "drop_bit 24 info AND 3 = 1"
  shows "\<exists>ms rs ps. report_events st info keys = ms @ rs @ ps \<and> (\<forall>e\<in>set ms. 0xE0 \<le> unat (ev_usage e)) \<and>
      (\<forall>e\<in>set rs. unat (ev_usage e) < 0xE0 \<and> \<not> ev_pressed e) \<and> (\<forall>e\<in>set ps. unat (ev_usage e) < 0xE0 \<and> ev_pressed e)"
proof -
  let ?m = "ucast info :: u8"
  have "\<forall>e\<in>set (modifier_events (hp_modifiers st) ?m). 0xE0 \<le> unat (ev_usage e)"
    by (auto simp: modifier_events_mem hid_event_fields usage_of_bit)
  moreover have "\<forall>e\<in>set (release_events (hp_keys st) (report_keys keys) ?m). unat (ev_usage e) < 0xE0 \<and> \<not> ev_pressed e"
    using assms(1) by (auto simp: release_events_def hid_event_fields plain_keys_def)
  moreover have "\<forall>e\<in>set (press_events (hp_keys st) (report_keys keys) ?m). unat (ev_usage e) < 0xE0 \<and> ev_pressed e"
    using assms(2) by (auto simp: press_events_def hid_event_fields plain_keys_def)
  moreover have "report_events st info keys = modifier_events (hp_modifiers st) ?m @ release_events (hp_keys st) (report_keys keys) ?m
      @ press_events (hp_keys st) (report_keys keys) ?m"
    using assms(3) by (simp add: report_events_def)
  ultimately show ?thesis by blast
qed

text \<open>
  C11: A keyboard report is turned into exactly the events that lead from the keys held before to the keys held now. Modifiers count as
  usages \<open>0xE0\<close> to \<open>0xE7\<close>, and no key byte of a report is one of these. With room in the queue there is one event for every usage that is
  held before or after but not both and none for any other (as many as there are such keys, when no report names a key twice), each a
  press if the usage is held now and a release otherwise, with the new modifiers in it; the modifiers come first, then the releases, then
  the presses, behind what was queued; and the driver remembers the new report. If the queue fills up, what was queued stays and the last
  events are dropped.
\<close>

theorem hid_events_track_keys:
  assumes "hid_irq_common st info keys r = (st', r')" "ring_inv HID_FIFO_SIZE 32 r"
    and "length (hp_keys st) = 4" "\<forall>k \<in> set (hp_keys st) \<union> set (report_keys keys). unat k < 0xE0"
    and "drop_bit 24 info AND 3 = 1"
  shows "ring_inv HID_FIFO_SIZE 32 r' \<and>
    (\<exists>evs. ring_contents 32 r' = ring_contents 32 r @ take (31 - length (ring_contents 32 r)) evs \<and>
      fold apply_event evs (held st) = held st' \<and>
      ev_usage ` set evs = (held st - held st') \<union> (held st' - held st) \<and>
      (\<forall>e\<in>set evs. e = hid_event (ev_usage e) (ucast info) (ev_usage e \<in> held st')) \<and>
      (distinct (filter hid_usage_valid (hp_keys st)) \<and> distinct (filter hid_usage_valid (report_keys keys)) \<longrightarrow> distinct (map ev_usage evs)) \<and>
      (\<exists>ms rs ps. evs = ms @ rs @ ps \<and> (\<forall>e\<in>set ms. 0xE0 \<le> unat (ev_usage e)) \<and>
        (\<forall>e\<in>set rs. unat (ev_usage e) < 0xE0 \<and> \<not> ev_pressed e) \<and> (\<forall>e\<in>set ps. unat (ev_usage e) < 0xE0 \<and> ev_pressed e))) \<and>
    st' = \<lparr>hp_modifiers = ucast info, hp_keys = report_keys keys\<rparr>"
proof -
  let ?evs = "report_events st info keys"
  have st': "st' = \<lparr>hp_modifiers = ucast info, hp_keys = report_keys keys\<rparr>"
    and r': "r' = fold hid_push ?evs r"
    using assms(1,5) by (simp_all add: hid_irq_common_eq [OF assms(3)])
  have p: "plain_keys (hp_keys st)" "plain_keys (report_keys keys)"
    using assms(3,4) by (auto simp: plain_keys_def report_keys_def)
  have "fold apply_event ?evs (held st) = held st'"
    unfolding st' by (rule held_after_report [OF assms(3)]) (use assms(4,5) in simp_all)
  moreover note report_events_order [OF p assms(5)]
  moreover have "\<forall>e\<in>set ?evs. e = hid_event (ev_usage e) (ucast info) (ev_usage e \<in> held st')"
  proof
    fix e assume e: "e \<in> set ?evs"
    show "e = hid_event (ev_usage e) (ucast info) (ev_usage e \<in> held st')"
      using report_events_tell(3) [OF p assms(5) st' e] report_events_tell(2) [OF p assms(5) st' e] by (simp only:)
  qed
  moreover have "distinct (filter hid_usage_valid (hp_keys st)) \<and> distinct (filter hid_usage_valid (report_keys keys)) \<longrightarrow> distinct (map ev_usage ?evs)"
    by (intro impI report_events_distinct [OF p]) simp_all
  moreover note report_events_tell(1) [OF p assms(5) st']
  moreover have "ring_inv HID_FIFO_SIZE 32 r'" "ring_contents 32 r' = ring_contents 32 r @ take (31 - length (ring_contents 32 r)) ?evs"
    using hid_push_all [OF assms(2), of ?evs] by (simp_all add: r')
  ultimately have all: "ring_contents 32 r' = ring_contents 32 r @ take (31 - length (ring_contents 32 r)) ?evs \<and>
      fold apply_event ?evs (held st) = held st' \<and>
      ev_usage ` set ?evs = (held st - held st') \<union> (held st' - held st) \<and>
      (\<forall>e\<in>set ?evs. e = hid_event (ev_usage e) (ucast info) (ev_usage e \<in> held st')) \<and>
      (distinct (filter hid_usage_valid (hp_keys st)) \<and> distinct (filter hid_usage_valid (report_keys keys)) \<longrightarrow> distinct (map ev_usage ?evs)) \<and>
      (\<exists>ms rs ps. ?evs = ms @ rs @ ps \<and> (\<forall>e\<in>set ms. 0xE0 \<le> unat (ev_usage e)) \<and>
        (\<forall>e\<in>set rs. unat (ev_usage e) < 0xE0 \<and> \<not> ev_pressed e) \<and> (\<forall>e\<in>set ps. unat (ev_usage e) < 0xE0 \<and> ev_pressed e))"
    and inv: "ring_inv HID_FIFO_SIZE 32 r'"
    by - (intro conjI; assumption)+
  show ?thesis by (intro conjI) (rule inv, rule exI [of _ ?evs], rule all, rule st')
qed

text \<open>Left shift goes down together with the key of usage 4 while the key of usage 5 goes up.\<close>

definition hid_sample_ring :: "u32 byte_ring" where
  "hid_sample_ring = \<lparr>r_buf = replicate 32 0, r_head = 31, r_tail = 31\<rparr>"

definition hid_sample_port :: hid_port where
  "hid_sample_port = \<lparr>hp_modifiers = 0, hp_keys = [5, 0, 0, 0]\<rparr>"

theorem hid_events_track_keys_witness:
  "\<exists>evs. ring_contents 32 (snd (hid_irq_common hid_sample_port 0x01000002 0x04000000 hid_sample_ring))
       = take 31 evs \<and>
     fold apply_event evs {5} = held \<lparr>hp_modifiers = 2, hp_keys = [4, 0, 0, 0]\<rparr>"
proof -
  obtain st' r' where r: "hid_irq_common hid_sample_port 0x01000002 0x04000000 hid_sample_ring = (st', r')"
    by fastforce
  have rk: "report_keys 0x04000000 = [4, 0, 0, 0]" by (simp add: report_keys_def)
  have m: "(16777218 :: u8) = 2" by simp
  have held: "held hid_sample_port = {5}"
    by (auto simp: held_def hid_sample_port_def hid_usage_valid_def)
  have inv: "ring_inv HID_FIFO_SIZE 32 hid_sample_ring" by (simp add: ring_inv_def hid_sample_ring_def)
  have empty: "ring_contents 32 hid_sample_ring = []"
    by (simp add: ring_contents_def ring_count_def hid_sample_ring_def)
  show ?thesis
    using hid_events_track_keys [OF r inv] r held empty rk m by (auto simp: hid_sample_port_def)
qed

text \<open>
  A queued event can be told from the empty queue and read back: usage, modifiers and direction
  are recovered from the word, whatever they are, and as a signed 32-bit value the word is never the
  -1 that stands for an empty queue.
\<close>

theorem hid_event_roundtrip:
  "ev_usage (hid_event u m p) = u \<and> ev_modifiers (hid_event u m p) = m \<and> ev_pressed (hid_event u m p) = p \<and>
   hid_event u m p \<noteq> -1 \<and> \<not> bit (hid_event u m p) 31"
proof -
  have "\<not> bit (hid_event u m p) 31" by (rule hid_event_fields(4)) simp
  moreover have "bit (-1 :: u32) 31" by (simp add: bit_simps)
  ultimately have "hid_event u m p \<noteq> -1" by metis
  with \<open>\<not> bit (hid_event u m p) 31\<close> show ?thesis by (simp add: hid_event_fields)
qed

end
