(* ===== verification/Uart.thy ===== *)
theory Uart
  imports Queue "HOL-Library.Sublist"
begin

text \<open>
  The serial port (\<open>src/sw/os/uart.c\<close>): two arrays of 512 bytes used as rings whose indices are
  single bytes, filled and drained by the interrupt handler and by the calls of processes. Every read
  of a device register is an input of the model: a read of the line status register takes the next
  value of \<open>hw_lsr\<close> (zero, nothing ready, when there is none left), a read of the data register the
  next byte of \<open>hw_rx\<close>. What is written to the data register is appended to \<open>hw_tx\<close>.
\<close>

abbreviation UART_FIFO_SIZE :: nat where "UART_FIFO_SIZE \<equiv> 512"

record uart_hw =
  hw_lsr :: "u8 list"
  hw_rx :: "nat \<Rightarrow> u8"
  hw_rxn :: nat
  hw_tx :: "u8 list"
  hw_ier :: u8

record uart =
  uart_rx :: "u8 byte_ring"
  uart_tx :: "u8 byte_ring"

section \<open>Device registers\<close>

definition read_lsr :: "uart_hw \<Rightarrow> u8 \<times> uart_hw" where
  "read_lsr hw = (case hw_lsr hw of [] \<Rightarrow> (0, hw) | l # ls \<Rightarrow> (l, hw\<lparr>hw_lsr := ls\<rparr>))"

definition read_data :: "uart_hw \<Rightarrow> u8 \<times> uart_hw" where
  "read_data hw = (hw_rx hw (hw_rxn hw), hw\<lparr>hw_rxn := hw_rxn hw + 1\<rparr>)"

definition write_data :: "u8 \<Rightarrow> uart_hw \<Rightarrow> uart_hw" where
  "write_data c hw = hw\<lparr>hw_tx := hw_tx hw @ [c]\<rparr>"

section \<open>The interrupt handler\<close>

lemma length_read_lsr: "hw_lsr hw \<noteq> [] \<Longrightarrow> length (hw_lsr (snd (read_lsr hw))) < length (hw_lsr hw)"
  by (auto simp: read_lsr_def neq_Nil_conv)

text \<open>
  The two loops end because each turn reads the status register once more and stops when it does not
  announce anything; the first also stops when the ring is empty.
\<close>

function drain_tx :: "uart \<Rightarrow> uart_hw \<Rightarrow> uart \<times> uart_hw" where
  "drain_tx u hw =
     (case read_lsr hw of (l, hw) \<Rightarrow>
        if l AND 0x20 \<noteq> 0 \<and> r_head (uart_tx u) \<noteq> r_tail (uart_tx u) then
          drain_tx (u\<lparr>uart_tx := (uart_tx u)\<lparr>r_tail := next_ix UART_FIFO_SIZE (r_tail (uart_tx u))\<rparr>\<rparr>)
                   (write_data (r_buf (uart_tx u) ! unat (r_tail (uart_tx u))) hw)
        else (u, hw))"
  by pat_completeness auto
termination
  by (relation "measure (\<lambda>(u, hw). length (hw_lsr hw))")
    (auto simp: read_lsr_def write_data_def split: list.splits)

function fill_rx :: "uart \<Rightarrow> uart_hw \<Rightarrow> uart \<times> uart_hw" where
  "fill_rx u hw =
     (case read_lsr hw of (l, hw) \<Rightarrow>
        if l AND 0x01 \<noteq> 0 then
          (case read_data hw of (c, hw) \<Rightarrow>
             let next = next_ix UART_FIFO_SIZE (r_head (uart_rx u)) in
             if next \<noteq> r_tail (uart_rx u) then
               fill_rx (u\<lparr>uart_rx := (uart_rx u)\<lparr>r_buf := (r_buf (uart_rx u))[unat (r_head (uart_rx u)) := c],
                                                 r_head := next\<rparr>\<rparr>) hw
             else fill_rx u hw)
        else (u, hw))"
  by pat_completeness auto
termination
  by (relation "measure (\<lambda>(u, hw). length (hw_lsr hw))")
    (auto simp: read_lsr_def read_data_def split: list.splits)

declare drain_tx.simps [simp del] fill_rx.simps [simp del]

definition z_uart_irq :: "u8 \<Rightarrow> uart \<Rightarrow> uart_hw \<Rightarrow> uart \<times> uart_hw" where
  "z_uart_irq iir u hw =
     (if iir AND 0x01 = 0 then
        (case read_lsr hw of (lsr, hw) \<Rightarrow>
           if lsr AND 0x80 \<noteq> 0 then (u, snd (read_data hw))
           else
             let int_id = drop_bit 1 iir AND 0x07 in
             if int_id = 1 then
               (if r_head (uart_tx u) = r_tail (uart_tx u) then (u, hw\<lparr>hw_ier := 0x01\<rparr>)
                else case drain_tx u hw of (u, hw) \<Rightarrow>
                  (if r_head (uart_tx u) = r_tail (uart_tx u) then (u, hw\<lparr>hw_ier := 0x01\<rparr>) else (u, hw)))
             else if int_id = 2 \<or> int_id = 6 then fill_rx u hw
             else (u, hw))
      else (u, hw))"

section \<open>Calls\<close>

text \<open>
  The full test compares an integer with a byte: the next index is not cut to a byte here.
\<close>

definition k_uart_rx_empty :: "uart \<Rightarrow> bool" where
  "k_uart_rx_empty u = (r_head (uart_rx u) = r_tail (uart_rx u))"

definition k_uart_tx_full :: "uart \<Rightarrow> bool" where
  "k_uart_tx_full u = ((unat (r_head (uart_tx u)) + 1) mod UART_FIFO_SIZE = unat (r_tail (uart_tx u)))"

definition k_uart_getc :: "uart \<Rightarrow> int \<times> uart" where
  "k_uart_getc u =
     (if r_head (uart_rx u) = r_tail (uart_rx u) then (-1, u)
      else (int (unat (r_buf (uart_rx u) ! unat (r_tail (uart_rx u)))),
            u\<lparr>uart_rx := (uart_rx u)\<lparr>r_tail := next_ix UART_FIFO_SIZE (r_tail (uart_rx u))\<rparr>\<rparr>))"

definition k_uart_putc :: "u8 \<Rightarrow> uart \<Rightarrow> uart_hw \<Rightarrow> uart \<times> uart_hw" where
  "k_uart_putc c u hw =
     (let t = uart_tx u; next = next_ix UART_FIFO_SIZE (r_head t) in
      if next = r_tail t then (u, hw)
      else
        let fifo_was_empty = (r_head t = r_tail t);
            t = t\<lparr>r_buf := (r_buf t)[unat (r_head t) := c], r_head := next\<rparr>;
            (t, hw) =
              (if fifo_was_empty then
                 (case read_lsr hw of (l, hw) \<Rightarrow>
                    if l AND 0x20 \<noteq> 0 then
                      (t\<lparr>r_tail := next_ix UART_FIFO_SIZE (r_tail t)\<rparr>,
                       write_data (r_buf t ! unat (r_tail t)) hw)
                    else (t, hw))
               else (t, hw));
            hw = (if r_head t \<noteq> r_tail t then hw\<lparr>hw_ier := 3\<rparr> else hw) in
        (u\<lparr>uart_tx := t\<rparr>, hw))"

text \<open>The system calls pass their result or argument through the value of the object.\<close>

definition z_uart_rx_empty :: "uart \<Rightarrow> u32" where
  "z_uart_rx_empty u = (if k_uart_rx_empty u then 1 else 0)"

definition z_uart_tx_full :: "uart \<Rightarrow> u32" where
  "z_uart_tx_full u = (if k_uart_tx_full u then 1 else 0)"

definition z_uart_getc :: "uart \<Rightarrow> u32 \<times> uart" where
  "z_uart_getc u = (case k_uart_getc u of (c, u) \<Rightarrow> (word_of_int c, u))"

definition z_uart_putc :: "u32 \<Rightarrow> uart \<Rightarrow> uart_hw \<Rightarrow> uart \<times> uart_hw" where
  "z_uart_putc v u hw = k_uart_putc (ucast v) u hw"

section \<open>Both directions are queues of 255 bytes\<close>

interpretation uartq: bounded_queue "ring_push UART_FIFO_SIZE" "ring_pop UART_FIFO_SIZE" "ring_contents 256"
    "ring_inv UART_FIFO_SIZE 256" "256 - 1"
  by (rule ring_queue [OF ring_size_512])

definition uart_ok :: "uart \<Rightarrow> bool" where
  "uart_ok u \<longleftrightarrow> ring_inv UART_FIFO_SIZE 256 (uart_rx u) \<and> ring_inv UART_FIFO_SIZE 256 (uart_tx u)"

definition rx_waiting :: "uart \<Rightarrow> u8 list" where "rx_waiting u = ring_contents 256 (uart_rx u)"
definition tx_waiting :: "uart \<Rightarrow> u8 list" where "tx_waiting u = ring_contents 256 (uart_tx u)"

lemma tx_pop:
  assumes "uart_ok u" "r_head (uart_tx u) \<noteq> r_tail (uart_tx u)"
  shows "\<exists>c cs. tx_waiting u = c # cs \<and> r_buf (uart_tx u) ! unat (r_tail (uart_tx u)) = c \<and>
    uart_ok (u\<lparr>uart_tx := (uart_tx u)\<lparr>r_tail := next_ix UART_FIFO_SIZE (r_tail (uart_tx u))\<rparr>\<rparr>) \<and>
    tx_waiting (u\<lparr>uart_tx := (uart_tx u)\<lparr>r_tail := next_ix UART_FIFO_SIZE (r_tail (uart_tx u))\<rparr>\<rparr>) = cs"
  using uartq.pop_Some [of "uart_tx u" "r_buf (uart_tx u) ! unat (r_tail (uart_tx u))"
      "(uart_tx u)\<lparr>r_tail := next_ix UART_FIFO_SIZE (r_tail (uart_tx u))\<rparr>"] assms
  by (simp add: uart_ok_def tx_waiting_def ring_pop_def)

lemma rx_pop:
  assumes "uart_ok u" "r_head (uart_rx u) \<noteq> r_tail (uart_rx u)"
  shows "\<exists>c cs. rx_waiting u = c # cs \<and> r_buf (uart_rx u) ! unat (r_tail (uart_rx u)) = c \<and>
    uart_ok (u\<lparr>uart_rx := (uart_rx u)\<lparr>r_tail := next_ix UART_FIFO_SIZE (r_tail (uart_rx u))\<rparr>\<rparr>) \<and>
    rx_waiting (u\<lparr>uart_rx := (uart_rx u)\<lparr>r_tail := next_ix UART_FIFO_SIZE (r_tail (uart_rx u))\<rparr>\<rparr>) = cs"
  using uartq.pop_Some [of "uart_rx u" "r_buf (uart_rx u) ! unat (r_tail (uart_rx u))"
      "(uart_rx u)\<lparr>r_tail := next_ix UART_FIFO_SIZE (r_tail (uart_rx u))\<rparr>"] assms
  by (simp add: uart_ok_def rx_waiting_def ring_pop_def)

text \<open>A byte put into a ring that has room.\<close>

lemma ring_room:
  assumes "ring_inv UART_FIFO_SIZE 256 r" "next_ix UART_FIFO_SIZE (r_head r) \<noteq> r_tail r"
  shows "ring_inv UART_FIFO_SIZE 256 (r\<lparr>r_buf := (r_buf r)[unat (r_head r) := c], r_head := next_ix UART_FIFO_SIZE (r_head r)\<rparr>) \<and>
    ring_contents 256 (r\<lparr>r_buf := (r_buf r)[unat (r_head r) := c], r_head := next_ix UART_FIFO_SIZE (r_head r)\<rparr>)
      = ring_contents 256 r @ [c]"
  using uartq.push_Some [OF assms(1), of c] assms(2) by (simp add: ring_push_def)

lemma ring_full:
  assumes "ring_inv UART_FIFO_SIZE 256 r"
  shows "next_ix UART_FIFO_SIZE (r_head r) = r_tail r \<longleftrightarrow> length (ring_contents 256 r) = 255"
  using uartq.push_None [OF assms, of x] by (simp add: ring_push_def split: if_splits)

section \<open>Nothing is lost or reordered on the way out\<close>

lemma drain_tx_spec:
  "uart_ok u \<Longrightarrow> drain_tx u hw = (u', hw') \<Longrightarrow>
   uart_ok u' \<and> uart_rx u' = uart_rx u \<and> hw_rx hw' = hw_rx hw \<and> hw_rxn hw' = hw_rxn hw \<and>
   hw_tx hw' @ tx_waiting u' = hw_tx hw @ tx_waiting u"
proof (induction u hw rule: drain_tx.induct)
  case (1 u hw)
  obtain l hw1 where l: "read_lsr hw = (l, hw1)" by fastforce
  then have hw1: "hw_tx hw1 = hw_tx hw" "hw_rx hw1 = hw_rx hw" "hw_rxn hw1 = hw_rxn hw"
    by (auto simp: read_lsr_def split: list.splits)
  show ?case
  proof (cases "l AND 0x20 \<noteq> 0 \<and> r_head (uart_tx u) \<noteq> r_tail (uart_tx u)")
    case True
    from tx_pop [OF "1.prems"(1)] True obtain c cs where
      c: "tx_waiting u = c # cs" "r_buf (uart_tx u) ! unat (r_tail (uart_tx u)) = c"
        "uart_ok (u\<lparr>uart_tx := (uart_tx u)\<lparr>r_tail := next_ix UART_FIFO_SIZE (r_tail (uart_tx u))\<rparr>\<rparr>)"
        "tx_waiting (u\<lparr>uart_tx := (uart_tx u)\<lparr>r_tail := next_ix UART_FIFO_SIZE (r_tail (uart_tx u))\<rparr>\<rparr>) = cs"
      by blast
    have "drain_tx (u\<lparr>uart_tx := (uart_tx u)\<lparr>r_tail := next_ix UART_FIFO_SIZE (r_tail (uart_tx u))\<rparr>\<rparr>)
        (write_data c hw1) = (u', hw')"
      using "1.prems"(2) l True c(2) by (subst (asm) drain_tx.simps) simp
    from "1.IH" [OF l [symmetric] True, unfolded c(2), OF c(3) this] True c hw1
    show ?thesis by (simp add: write_data_def)
  next
    case False
    with "1.prems" l hw1 show ?thesis by (subst (asm) drain_tx.simps) auto
  qed
qed

lemma fill_rx_spec:
  "uart_ok u \<Longrightarrow> fill_rx u hw = (u', hw') \<Longrightarrow>
   uart_ok u' \<and> uart_tx u' = uart_tx u \<and> hw_tx hw' = hw_tx hw \<and> hw_rx hw' = hw_rx hw \<and>
   hw_rxn hw \<le> hw_rxn hw' \<and>
   (\<exists>taken. rx_waiting u' = rx_waiting u @ taken \<and> subseq taken (map (hw_rx hw) [hw_rxn hw..<hw_rxn hw']))"
proof (induction u hw rule: fill_rx.induct)
  case (1 u hw)
  obtain l hw1 where l: "read_lsr hw = (l, hw1)" by fastforce
  then have hw1: "hw_tx hw1 = hw_tx hw" "hw_rx hw1 = hw_rx hw" "hw_rxn hw1 = hw_rxn hw"
    by (auto simp: read_lsr_def split: list.splits)
  let ?c = "hw_rx hw (hw_rxn hw)" and ?hw2 = "hw1\<lparr>hw_rxn := hw_rxn hw + 1\<rparr>"
  let ?next = "next_ix UART_FIFO_SIZE (r_head (uart_rx u))"
  let ?u1 = "u\<lparr>uart_rx := (uart_rx u)\<lparr>r_buf := (r_buf (uart_rx u))[unat (r_head (uart_rx u)) := ?c], r_head := ?next\<rparr>\<rparr>"
  have d: "read_data hw1 = (?c, ?hw2)" using hw1 by (simp add: read_data_def)
  have seq: "map (hw_rx hw) [hw_rxn hw..<n] = ?c # map (hw_rx hw) [Suc (hw_rxn hw)..<n]" if "Suc (hw_rxn hw) \<le> n" for n
    using that by (simp add: upt_conv_Cons)
  show ?case
  proof (cases "l AND 0x01 \<noteq> 0")
    case False
    with "1.prems" l hw1 show ?thesis by (subst (asm) fill_rx.simps) auto
  next
    case ready: True
    show ?thesis
    proof (cases "?next \<noteq> r_tail (uart_rx u)")
      case True
      have ok1: "uart_ok ?u1" "rx_waiting ?u1 = rx_waiting u @ [?c]"
        using ring_room [of "uart_rx u" ?c] True "1.prems"(1) by (simp_all add: uart_ok_def rx_waiting_def)
      have "fill_rx ?u1 ?hw2 = (u', hw')"
        using "1.prems"(2) l ready d True by (subst (asm) fill_rx.simps) simp
      from "1.IH"(1) [OF l [symmetric] ready d [symmetric] refl True ok1(1) this] ok1(2) hw1 seq
      show ?thesis by (fastforce simp: subseq_Cons2)
    next
      case False
      have "fill_rx u ?hw2 = (u', hw')"
        using "1.prems"(2) l ready d False by (subst (asm) fill_rx.simps) simp
      from "1.IH"(2) [OF l [symmetric] ready d [symmetric] refl False "1.prems"(1) this] hw1 seq
      show ?thesis by fastforce
    qed
  qed
qed

lemma k_uart_putc_spec:
  assumes "uart_ok u" "k_uart_putc c u hw = (u', hw')"
  shows "uart_ok u' \<and> uart_rx u' = uart_rx u \<and> hw_rx hw' = hw_rx hw \<and> hw_rxn hw' = hw_rxn hw \<and>
    hw_tx hw' @ tx_waiting u' = hw_tx hw @ tx_waiting u @ (if length (tx_waiting u) < 255 then [c] else [])"
proof (cases "next_ix UART_FIFO_SIZE (r_head (uart_tx u)) = r_tail (uart_tx u)")
  case True
  with assms ring_full [of "uart_tx u"] show ?thesis
    by (simp add: k_uart_putc_def Let_def uart_ok_def tx_waiting_def)
next
  case False
  let ?t = "(uart_tx u)\<lparr>r_buf := (r_buf (uart_tx u))[unat (r_head (uart_tx u)) := c],
      r_head := next_ix UART_FIFO_SIZE (r_head (uart_tx u))\<rparr>"
  let ?u = "u\<lparr>uart_tx := ?t\<rparr>"
  have ok: "uart_ok ?u" "tx_waiting ?u = tx_waiting u @ [c]"
    using ring_room [of "uart_tx u" c] False assms(1) by (simp_all add: uart_ok_def tx_waiting_def)
  have room: "length (tx_waiting u) < 255"
    using False assms(1) ring_full [of "uart_tx u"] uartq.bounded [of "uart_tx u"]
    by (simp add: uart_ok_def tx_waiting_def)
  obtain l hw1 where l: "read_lsr hw = (l, hw1)" by fastforce
  then have hw1: "hw_tx hw1 = hw_tx hw" "hw_rx hw1 = hw_rx hw" "hw_rxn hw1 = hw_rxn hw"
    by (auto simp: read_lsr_def split: list.splits)
  have ne: "r_head ?t \<noteq> r_tail ?t" using False by simp
  from tx_pop [OF ok(1)] ne obtain d cs where p: "tx_waiting ?u = d # cs" "r_buf ?t ! unat (r_tail ?t) = d"
    "uart_ok (?u\<lparr>uart_tx := ?t\<lparr>r_tail := next_ix UART_FIFO_SIZE (r_tail ?t)\<rparr>\<rparr>)"
    "tx_waiting (?u\<lparr>uart_tx := ?t\<lparr>r_tail := next_ix UART_FIFO_SIZE (r_tail ?t)\<rparr>\<rparr>) = cs"
    by auto
  show ?thesis
  proof (cases "r_head (uart_tx u) = r_tail (uart_tx u) \<and> l AND 0x20 \<noteq> 0")
    case True
    with assms(2) False l p(2) have "u' = u\<lparr>uart_tx := ?t\<lparr>r_tail := next_ix UART_FIFO_SIZE (r_tail ?t)\<rparr>\<rparr>"
      "hw_tx hw' = hw_tx hw1 @ [d]" "hw_rx hw' = hw_rx hw1" "hw_rxn hw' = hw_rxn hw1"
      by (auto simp: k_uart_putc_def Let_def write_data_def split: if_splits)
    then show ?thesis using p ok(2) room hw1 by simp
  next
    case no: False
    with assms(2) False l have "u' = ?u" "hw_tx hw' = hw_tx hw" "hw_rx hw' = hw_rx hw" "hw_rxn hw' = hw_rxn hw"
      using hw1 by (auto simp: k_uart_putc_def Let_def split: if_splits)
    then show ?thesis using ok room by simp
  qed
qed

lemma z_uart_irq_spec:
  assumes "uart_ok u" "z_uart_irq iir u hw = (u', hw')"
  shows "uart_ok u' \<and> hw_rx hw' = hw_rx hw \<and> hw_rxn hw \<le> hw_rxn hw' \<and>
    hw_tx hw' @ tx_waiting u' = hw_tx hw @ tx_waiting u \<and>
    (\<exists>taken. rx_waiting u' = rx_waiting u @ taken \<and> subseq taken (map (hw_rx hw) [hw_rxn hw..<hw_rxn hw']))"
proof -
  obtain l hw1 where l: "read_lsr hw = (l, hw1)" by fastforce
  then have hw1: "hw_tx hw1 = hw_tx hw" "hw_rx hw1 = hw_rx hw" "hw_rxn hw1 = hw_rxn hw"
    by (auto simp: read_lsr_def split: list.splits)
  let ?int = "drop_bit 1 iir AND 0x07"
  consider "iir AND 1 \<noteq> 0" | "iir AND 1 = 0" "l AND 0x80 \<noteq> 0"
    | "iir AND 1 = 0" "l AND 0x80 = 0" "?int = 1" | "iir AND 1 = 0" "l AND 0x80 = 0" "?int = 2 \<or> ?int = 6"
    | "iir AND 1 = 0" "l AND 0x80 = 0" "?int \<notin> {1, 2, 6}" by blast
  then show ?thesis
  proof cases
    case 3
    obtain u1 hw2 where d: "drain_tx u hw1 = (u1, hw2)" by fastforce
    from 3 assms(2) l d have
      "u' = (if r_head (uart_tx u) = r_tail (uart_tx u) then u else u1) \<and>
       hw_tx hw' = hw_tx (if r_head (uart_tx u) = r_tail (uart_tx u) then hw1 else hw2) \<and>
       hw_rx hw' = hw_rx (if r_head (uart_tx u) = r_tail (uart_tx u) then hw1 else hw2) \<and>
       hw_rxn hw' = hw_rxn (if r_head (uart_tx u) = r_tail (uart_tx u) then hw1 else hw2)"
      by (auto simp: z_uart_irq_def Let_def split: if_splits)
    with drain_tx_spec [OF assms(1) d] assms(1) hw1 show ?thesis by (auto simp: rx_waiting_def)
  next
    case 4
    with assms(2) l have "fill_rx u hw1 = (u', hw')" by (auto simp: z_uart_irq_def Let_def)
    from fill_rx_spec [OF assms(1) this] hw1 show ?thesis by (auto simp: tx_waiting_def)
  qed (use assms l hw1 in \<open>auto simp: z_uart_irq_def Let_def read_data_def\<close>)
qed

lemma k_uart_getc_spec:
  assumes "uart_ok u" "k_uart_getc u = (c, u')"
  shows "uart_ok u' \<and> uart_tx u' = uart_tx u \<and>
    (case rx_waiting u of [] \<Rightarrow> c = -1 \<and> u' = u | x # xs \<Rightarrow> c = int (unat x) \<and> rx_waiting u' = xs)"
proof (cases "r_head (uart_rx u) = r_tail (uart_rx u)")
  case True
  then have "rx_waiting u = []"
    using uartq.pop_None [of "uart_rx u"] assms(1) by (simp add: uart_ok_def rx_waiting_def ring_pop_def)
  with True assms show ?thesis by (simp add: k_uart_getc_def)
next
  case False
  from rx_pop [OF assms(1) this] False assms(2) show ?thesis by (auto simp: k_uart_getc_def)
qed

section \<open>Runs of the driver\<close>

text \<open>
  Interrupts and calls in any order. The log holds the bytes the calls accepted for sending, and the
  results of the calls that read.
\<close>

datatype uart_op = Irq u8 | Putc u8 | Getc

fun uart_run :: "uart_op list \<Rightarrow> uart \<Rightarrow> uart_hw \<Rightarrow> u8 list \<times> int list \<times> uart \<times> uart_hw" where
  "uart_run [] u hw = ([], [], u, hw)"
| "uart_run (Irq iir # ops) u hw = (case z_uart_irq iir u hw of (u, hw) \<Rightarrow> uart_run ops u hw)"
| "uart_run (Putc c # ops) u hw =
     (let accepted = next_ix UART_FIFO_SIZE (r_head (uart_tx u)) \<noteq> r_tail (uart_tx u) in
      case k_uart_putc c u hw of (u, hw) \<Rightarrow> case uart_run ops u hw of
        (sent, got, r) \<Rightarrow> (if accepted then c # sent else sent, got, r))"
| "uart_run (Getc # ops) u hw =
     (case k_uart_getc u of (c, u) \<Rightarrow> case uart_run ops u hw of (sent, got, r) \<Rightarrow> (sent, c # got, r))"

definition bytes_of :: "int list \<Rightarrow> u8 list" where
  "bytes_of cs = map word_of_int (filter (\<lambda>c. c \<noteq> -1) cs)"

lemma bytes_of_simps [simp]:
  "bytes_of [] = []" "bytes_of (-1 # cs) = bytes_of cs" "bytes_of (uint x # cs) = x # bytes_of cs"
proof -
  have "uint x \<noteq> -1" using uint_ge_0 [of x] by linarith
  then show "bytes_of (uint x # cs) = x # bytes_of cs" by (simp add: bytes_of_def)
qed (simp_all add: bytes_of_def)

lemma subseq_map_upt:
  assumes "subseq xs (map f [a..<b])" "subseq ys (map f [b..<c])" "a \<le> b" "b \<le> c"
  shows "subseq (xs @ ys) (map f [a..<c])"
proof -
  have "[a..<c] = [a..<b] @ [b..<c]" using assms(3,4) by (metis le_Suc_ex upt_add_eq_append)
  then show ?thesis using list_emb_append_mono [OF assms(1,2)] by simp
qed

lemma tx_accepts: "uart_ok u \<Longrightarrow> next_ix UART_FIFO_SIZE (r_head (uart_tx u)) \<noteq> r_tail (uart_tx u) \<longleftrightarrow> length (tx_waiting u) < 255"
  using ring_full [of "uart_tx u"] uartq.bounded [of "uart_tx u"] by (auto simp: uart_ok_def tx_waiting_def)

text \<open>
  C12: Whatever interrupts and calls come in whatever order, what left the serial port followed by
  what still waits is exactly what had left and waited before followed by the bytes the calls
  accepted, in order: no accepted byte is lost, doubled or overtaken on the way out. On the way in,
  what readers got followed by what waits is what waited before followed by bytes the device
  delivered since, in order, of which some may have been dropped.
\<close>

theorem uart_conserves_bytes:
  "uart_ok u \<Longrightarrow> uart_run ops u hw = (sent, got, u', hw') \<Longrightarrow>
   uart_ok u' \<and> hw_tx hw' @ tx_waiting u' = hw_tx hw @ tx_waiting u @ sent \<and>
   (\<exists>taken. bytes_of got @ rx_waiting u' = rx_waiting u @ taken \<and> hw_rxn hw \<le> hw_rxn hw' \<and>
      hw_rx hw' = hw_rx hw \<and> subseq taken (map (hw_rx hw) [hw_rxn hw..<hw_rxn hw']))"
proof (induction ops u hw arbitrary: sent got rule: uart_run.induct)
  case (2 iir ops u hw)
  obtain u1 hw1 where s: "z_uart_irq iir u hw = (u1, hw1)" by fastforce
  from z_uart_irq_spec [OF "2.prems"(1) s] obtain taken where
    1: "uart_ok u1" "hw_rx hw1 = hw_rx hw" "hw_rxn hw \<le> hw_rxn hw1"
      "hw_tx hw1 @ tx_waiting u1 = hw_tx hw @ tx_waiting u" "rx_waiting u1 = rx_waiting u @ taken"
      "subseq taken (map (hw_rx hw) [hw_rxn hw..<hw_rxn hw1])" by blast
  from "2.IH" [OF s [symmetric] 1(1)] "2.prems"(2) s obtain taken2 where
    2: "uart_ok u'" "hw_tx hw' @ tx_waiting u' = hw_tx hw1 @ tx_waiting u1 @ sent"
      "bytes_of got @ rx_waiting u' = rx_waiting u1 @ taken2" "hw_rxn hw1 \<le> hw_rxn hw'" "hw_rx hw' = hw_rx hw1"
      "subseq taken2 (map (hw_rx hw1) [hw_rxn hw1..<hw_rxn hw'])" by auto
  have "subseq (taken @ taken2) (map (hw_rx hw) [hw_rxn hw..<hw_rxn hw'])"
    using 1 2 by (intro subseq_map_upt) simp_all
  moreover have "hw_tx hw' @ tx_waiting u' = hw_tx hw @ tx_waiting u @ sent"
    using 1(4) 2(2) by (metis append.assoc)
  ultimately show ?case using 1 2 by (intro conjI exI [of _ "taken @ taken2"]) simp_all
next
  case (3 c ops u hw)
  obtain u1 hw1 where s: "k_uart_putc c u hw = (u1, hw1)" by fastforce
  obtain sent1 got1 r where r: "uart_run ops u1 hw1 = (sent1, got1, r)" by (rule prod_cases3)
  have o: "sent = (if length (tx_waiting u) < 255 then c # sent1 else sent1)" "got = got1" "r = (u', hw')"
    using "3.prems"(2) s r tx_accepts [OF "3.prems"(1)] by (auto simp: Let_def)
  note p = k_uart_putc_spec [OF "3.prems"(1) s]
  have ok1: "uart_ok u1" using p by simp
  from "3.IH" [OF refl s [symmetric] ok1] r o(3) obtain taken where
    2: "uart_ok u'" "hw_tx hw' @ tx_waiting u' = hw_tx hw1 @ tx_waiting u1 @ sent1"
      "bytes_of got1 @ rx_waiting u' = rx_waiting u1 @ taken" "hw_rxn hw1 \<le> hw_rxn hw'" "hw_rx hw' = hw_rx hw1"
      "subseq taken (map (hw_rx hw1) [hw_rxn hw1..<hw_rxn hw'])" by auto
  have "hw_tx hw' @ tx_waiting u' = hw_tx hw @ tx_waiting u @ sent"
    using p 2(2) o(1) by (auto simp flip: append_assoc)
  then show ?case using p 2 o(2) by (auto simp: rx_waiting_def intro!: exI [of _ taken])
next
  case (4 ops u hw)
  obtain c u1 where s: "k_uart_getc u = (c, u1)" by fastforce
  obtain sent1 got1 r where r: "uart_run ops u1 hw = (sent1, got1, r)" by (rule prod_cases3)
  have o: "sent = sent1" "got = c # got1" "r = (u', hw')" using "4.prems"(2) s r by auto
  note p = k_uart_getc_spec [OF "4.prems"(1) s]
  from "4.IH" [OF s [symmetric]] p r o(3) obtain taken where
    2: "uart_ok u'" "hw_tx hw' @ tx_waiting u' = hw_tx hw @ tx_waiting u1 @ sent1"
      "bytes_of got1 @ rx_waiting u' = rx_waiting u1 @ taken" "hw_rxn hw \<le> hw_rxn hw'" "hw_rx hw' = hw_rx hw"
      "subseq taken (map (hw_rx hw) [hw_rxn hw..<hw_rxn hw'])" by auto
  show ?case using p 2 o
    by (cases "rx_waiting u") (auto simp: tx_waiting_def intro!: exI [of _ taken])
qed auto

text \<open>
  The test a writer polls before it sends is wrong in one state: it compares an index that was
  not cut to a byte, so with the head at slot 255 and the tail at slot 0 it reports room although the
  ring is full, and the byte written then is dropped. In every other state it is exact.
\<close>

theorem k_uart_tx_full_misses_wrap:
  assumes "uart_ok u"
  shows "(k_uart_tx_full u \<longleftrightarrow> length (tx_waiting u) = 255 \<and> r_head (uart_tx u) \<noteq> 255) \<and>
    (length (tx_waiting u) = 255 \<longrightarrow> k_uart_putc c u hw = (u, hw))"
proof -
  let ?h = "r_head (uart_tx u)" and ?t = "r_tail (uart_tx u)"
  have full: "next_ix UART_FIFO_SIZE ?h = ?t \<longleftrightarrow> length (tx_waiting u) = 255"
    using assms ring_full [of "uart_tx u"] by (simp add: uart_ok_def tx_waiting_def)
  have h: "unat ?h < 256" "unat ?t < 256" by (rule unat_lt_8)+
  have "(unat ?h + 1) mod 512 = unat ?t \<longleftrightarrow> next_ix UART_FIFO_SIZE ?h = ?t \<and> ?h \<noteq> 255"
  proof (cases "unat ?h = 255")
    case True
    then have "?h = 255" by (simp add: word_unat_eq_iff)
    moreover have "unat ?t \<noteq> 256" using h(2) by linarith
    ultimately show ?thesis by simp
  next
    case False
    then have "?h \<noteq> 255" by (auto simp: word_unat_eq_iff)
    moreover have lt: "Suc (unat ?h) < 256" using False h(1) by linarith
    moreover from lt have "unat (next_ix UART_FIFO_SIZE ?h) = Suc (unat ?h)"
      unfolding next_ix_def unat_of_nat by simp
    then have "next_ix UART_FIFO_SIZE ?h = ?t \<longleftrightarrow> Suc (unat ?h) = unat ?t"
      by (metis word_unat_eq_iff)
    moreover have "(unat ?h + 1) mod 512 = Suc (unat ?h)" using lt by simp
    ultimately show ?thesis by simp
  qed
  with full show ?thesis by (auto simp: k_uart_tx_full_def k_uart_putc_def)
qed


definition idle_uart :: uart where
  "idle_uart = \<lparr>uart_rx = \<lparr>r_buf = replicate 512 0, r_head = 0, r_tail = 0\<rparr>,
                uart_tx = \<lparr>r_buf = replicate 512 0, r_head = 0, r_tail = 0\<rparr>\<rparr>"

definition ready_hw :: uart_hw where
  "ready_hw = \<lparr>hw_lsr = [0x20, 0, 0, 1, 0], hw_rx = (\<lambda>_. 90), hw_rxn = 0, hw_tx = [], hw_ier = 1\<rparr>"

lemma idle_uart_ok: "uart_ok idle_uart" "tx_waiting idle_uart = []" "rx_waiting idle_uart = []"
  by (simp_all add: uart_ok_def ring_inv_def idle_uart_def tx_waiting_def rx_waiting_def ring_contents_def ring_count_def)

theorem uart_conserves_bytes_witness:
  "\<exists>sent got u' hw'. uart_run [Putc 65, Putc 66, Irq 4, Getc] idle_uart ready_hw = (sent, got, u', hw') \<and>
     hw_tx hw' @ tx_waiting u' = sent"
proof -
  obtain sent got r where r: "uart_run [Putc 65, Putc 66, Irq 4, Getc] idle_uart ready_hw = (sent, got, r)"
    by (rule prod_cases3)
  obtain u' hw' where r2: "r = (u', hw')" by fastforce
  show ?thesis
    using uart_conserves_bytes [OF idle_uart_ok(1) r [unfolded r2]] r r2 idle_uart_ok
    by (auto simp: ready_hw_def)
qed

text \<open>A ring filled from slot 0 up to slot 254, its head at slot 255.\<close>

definition wrapped_uart :: uart where
  "wrapped_uart = idle_uart\<lparr>uart_tx := \<lparr>r_buf = replicate 512 0, r_head = 255, r_tail = 0\<rparr>\<rparr>"

theorem k_uart_tx_full_misses_wrap_witness:
  "\<not> k_uart_tx_full wrapped_uart \<and> k_uart_putc 65 wrapped_uart ready_hw = (wrapped_uart, ready_hw)"
proof -
  have ok: "uart_ok wrapped_uart"
    using idle_uart_ok(1) by (simp add: uart_ok_def wrapped_uart_def ring_inv_def)
  have "length (tx_waiting wrapped_uart) = 255"
    by (simp add: tx_waiting_def wrapped_uart_def ring_contents_def ring_count_def)
  then show ?thesis
    using k_uart_tx_full_misses_wrap [OF ok, of 65 ready_hw] by (simp add: wrapped_uart_def)
qed

end
