(* ===== verification/Kernel.thy ===== *)
theory Kernel
  imports Mem Msg Pidreg Hid Uart
begin

text \<open>
  The kernel (\<open>src/sw/os/kernel.c\<close>, \<open>kernel.h\<close>): creating, starting, stopping and killing processes,
  the interrupt entry with the round-robin scheduler that also buries killed processes, and the
  composition of the allocator, the mailboxes, the name registry and the two input drivers.
\<close>

section \<open>State\<close>

abbreviation Z_IRQ_KTIMER :: nat where "Z_IRQ_KTIMER \<equiv> 3"
abbreviation Z_IRQ_UART :: nat where "Z_IRQ_UART \<equiv> 4"
abbreviation Z_IRQ_HID :: nat where "Z_IRQ_HID \<equiv> 5"
abbreviation Z_IRQ_HID1 :: nat where "Z_IRQ_HID1 \<equiv> 6"

abbreviation Z_PROC_STACK_SIZE_DEFAULT :: u32 where "Z_PROC_STACK_SIZE_DEFAULT \<equiv> 16 * 1024"
abbreviation Z_PROC_STACK_SIZE_LARGE :: u32 where "Z_PROC_STACK_SIZE_LARGE \<equiv> 64 * 1024"

record kstate =
  ks_pid :: u32
  ks_procs :: "z_proc list"
  ks_ticks :: u32
  ks_mem :: k_mem
  ks_ram :: "u32 \<Rightarrow> u32"
  ks_mtu :: u32
  ks_reg :: "z_pidreg_entry list"
  ks_mbs :: "z_mailbox list"
  ks_hid :: hid
  ks_uart :: uart
  ks_hw :: uart_hw

abbreviation proc :: "kstate \<Rightarrow> u32 \<Rightarrow> z_proc" where
  "proc s p \<equiv> ks_procs s ! unat p"

section \<open>Processes\<close>

definition z_proc_stack_size_for :: "string \<Rightarrow> u32" where
  "z_proc_stack_size_for name =
     (if name = ''repl'' \<or> name = ''net'' then Z_PROC_STACK_SIZE_LARGE else Z_PROC_STACK_SIZE_DEFAULT)"

text \<open>The first slot with no memory, as the loop over the slots finds it.\<close>

fun free_pid :: "nat \<Rightarrow> z_proc list \<Rightarrow> nat option" where
  "free_pid p [] = None"
| "free_pid p (x # xs) = (if p_base x \<noteq> 0 then free_pid (Suc p) xs else Some p)"

text \<open>
  Process 0 is the kernel itself, linked at \<open>0x40000000\<close>; every other process sees its memory at
  \<open>0x80000000\<close>. The initial return address is stored through the physical address of the block.
\<close>

definition new_regs :: "nat \<Rightarrow> u32 \<Rightarrow> u32 list" where
  "new_regs p mem_size =
     (let zero = replicate 32 (0 :: u32) in
      if p = 0 then zero[0 := 0x40000000, 2 := 0x40000000 + mem_size]
      else zero[0 := 0x80000000, 2 := 0x80000000 + mem_size - 4])"

definition k_proc_create :: "u32 \<Rightarrow> u32 \<Rightarrow> kstate \<Rightarrow> (u32 \<times> kstate) option" where
  "k_proc_create sz stack_size s =
     (let mem_size = k_mem_align_up (sz + stack_size) Z_MEM_ALIGNMENT in
      case free_pid 0 (ks_procs s) of
        None \<Rightarrow> Some (0, s)
      | Some p \<Rightarrow> do {
          (mem, m) \<leftarrow> k_mem_alloc mem_size (ks_mem s);
          let s = s\<lparr>ks_mem := m\<rparr>;
          case mem of
            None \<Rightarrow> Some (0, s)
          | Some base \<Rightarrow>
              let regs = new_regs p mem_size;
                  s = s\<lparr>ks_procs := upd_nth p (\<lambda>x. x\<lparr>p_base := base, p_size := mem_size, p_regs := regs\<rparr>)
                                    (ks_procs s)\<rparr>;
                  s = (if p = 0 then s
                       else s\<lparr>ks_ram := (ks_ram s)(base + mem_size - 4 := regs ! 1)\<rparr>) in
              Some (of_nat p, s)
        })"

text \<open>
  \<open>k_proc_run\<close>: the size of the file and its loading at a physical address are the file system's.
\<close>

definition k_proc_run ::
  "(string \<Rightarrow> u32) \<Rightarrow> (u32 \<Rightarrow> string \<Rightarrow> (u32 \<Rightarrow> u32) \<Rightarrow> u32 \<Rightarrow> u32) \<Rightarrow> (nat \<Rightarrow> char) option \<Rightarrow> kstate \<Rightarrow>
   (u32 \<times> u32 \<times> kstate) option" where
  "k_proc_run fs_size fs_load arg s =
     (case arg of
        None \<Rightarrow> Some (Z_FAIL, 0, s)
      | Some str \<Rightarrow>
          let name = copy_str 31 str 0; sz = fs_size name; stack_size = z_proc_stack_size_for name in
          if sz \<noteq> 0 then do {
            (pid, s) \<leftarrow> k_proc_create sz stack_size s;
            if pid \<noteq> 0 then
              let base = k_proc_base pid (ks_procs s);
                  s = s\<lparr>ks_ram := fs_load base name (ks_ram s), ks_procs := k_proc_start pid (ks_procs s)\<rparr> in
              Some (Z_OK, pid, s)
            else Some (Z_FAIL, 0, s)
          }
          else Some (Z_FAIL, 0, s))"

text \<open>A system call argument is a tagged object here reduced to tag and value.\<close>

definition k_proc_kill_syscall :: "(u32 \<times> u32) option \<Rightarrow> kstate \<Rightarrow> u32 \<times> kstate" where
  "k_proc_kill_syscall arg s =
     (case arg of
        None \<Rightarrow> (Z_FAIL, s)
      | Some (ty, v) \<Rightarrow>
          if ty \<noteq> Z_UINT32 then (Z_FAIL, s)
          else case k_proc_kill v (ks_procs s) of
            (rv, ps) \<Rightarrow> (if rv = Z_OK then Z_OK else Z_FAIL, s\<lparr>ks_procs := ps\<rparr>))"

text \<open>The call that ends a process marks it; the process then waits to be buried.\<close>

definition z_exit :: "kstate \<Rightarrow> kstate" where
  "z_exit s = s\<lparr>ks_procs := snd (k_proc_kill (ks_pid s) (ks_procs s))\<rparr>"

definition z_uptime :: "kstate \<Rightarrow> u32 \<times> u32" where "z_uptime s = (Z_UINT32, ks_ticks s)"
definition k_getpid :: "kstate \<Rightarrow> u32 \<times> u32" where "k_getpid s = (Z_UINT32, ks_pid s)"

text \<open>The lines of the process list: slot, base, size, program counter, stack pointer, flags.\<close>

definition k_proc_dump :: "z_proc list \<Rightarrow> (nat \<times> u32 \<times> u32 \<times> u32 \<times> u32 \<times> u32) list" where
  "k_proc_dump ps =
     map (\<lambda>i. (i, p_base (ps ! i), p_size (ps ! i), p_regs (ps ! i) ! 0, p_regs (ps ! i) ! 2, p_flags (ps ! i)))
       (filter (\<lambda>i. p_base (ps ! i) \<noteq> 0) [0..<Z_PROCS_MAX])"

section \<open>Boot\<close>

text \<open>\<open>main\<close> up to the start of the shell; \<open>mem_mb\<close> is what the capability registers report.\<close>

definition k_boot :: "u32 \<Rightarrow> u32 \<Rightarrow> kstate \<Rightarrow> kstate option" where
  "k_boot mem_mb image_size s =
     (let mem_total = (if mem_mb \<noteq> 0 then mem_mb * 1024 * 1024 else 1024 * 1024);
          s = s\<lparr>ks_hid := z_hid_init (ks_hid s)\<rparr>;
          s = s\<lparr>ks_mem := k_mem_init mem_total (ks_mem s)\<rparr>;
          s = s\<lparr>ks_procs := map (\<lambda>p. p\<lparr>p_base := 0, p_flags := 0\<rparr>) (ks_procs s)\<rparr>;
          s = s\<lparr>ks_reg := k_pidreg_init (ks_reg s)\<rparr> in
      do {
        (_, s) \<leftarrow> k_proc_create image_size Z_PROC_STACK_SIZE_DEFAULT s;
        Some (s\<lparr>ks_procs := k_proc_start 0 (ks_procs s)\<rparr>)
      })"

section \<open>The interrupt entry\<close>

text \<open>Burying a killed process: its memory, its names, its slot.\<close>

definition bury :: "u32 \<Rightarrow> kstate \<Rightarrow> kstate option" where
  "bury pid s = do {
     m \<leftarrow> k_mem_free (p_base (proc s pid)) (ks_mem s);
     Some (s\<lparr>ks_mem := m, ks_reg := k_pidreg_release_all pid (ks_reg s),
             ks_procs := upd_nth (unat pid) (\<lambda>p. p\<lparr>p_base := 0, p_flags := 0\<rparr>) (ks_procs s)\<rparr>)
   }"

text \<open>The loop behind the label \<open>next_process\<close>; \<open>None\<close> if it never leaves.\<close>

definition advance :: "kstate \<Rightarrow> kstate" where
  "advance s = s\<lparr>ks_pid := (if unat (ks_pid s + 1) \<ge> Z_PROCS_MAX then 0 else ks_pid s + 1)\<rparr>"

partial_function (option) next_process :: "kstate \<Rightarrow> kstate option" where
  "next_process s =
     (let s = advance s in
      if proc_dying (proc s (ks_pid s)) then Option.bind (bury (ks_pid s) s) next_process
      else if \<not> proc_active (proc s (ks_pid s)) then next_process s
      else Some (s\<lparr>ks_mtu := p_base (proc s (ks_pid s))\<rparr>))"

text \<open>What the devices present when the interrupt comes.\<close>

record irq_in =
  in_iir :: u8
  in_usb0 :: "u32 \<times> u32"
  in_usb1 :: "u32 \<times> u32"

definition k_drivers :: "u32 \<Rightarrow> irq_in \<Rightarrow> kstate \<Rightarrow> kstate" where
  "k_drivers irqs inp s =
     (let s = (if bit irqs Z_IRQ_UART then
                 (case z_uart_irq (in_iir inp) (ks_uart s) (ks_hw s) of (u, hw) \<Rightarrow> s\<lparr>ks_uart := u, ks_hw := hw\<rparr>)
               else s);
          s = (if bit irqs Z_IRQ_HID then s\<lparr>ks_hid := z_hid_irq0 (fst (in_usb0 inp)) (snd (in_usb0 inp)) (ks_hid s)\<rparr>
               else s) in
      if bit irqs Z_IRQ_HID1 then s\<lparr>ks_hid := z_hid_irq1 (fst (in_usb1 inp)) (snd (in_usb1 inp)) (ks_hid s)\<rparr>
      else s)"

definition k_interrupt :: "u32 \<Rightarrow> u32 list \<Rightarrow> irq_in \<Rightarrow> kstate \<Rightarrow> (u32 list \<times> kstate) option" where
  "k_interrupt irqs regs inp s =
     (let s = (if bit irqs Z_IRQ_KTIMER then s\<lparr>ks_ticks := ks_ticks s + 1\<rparr> else s);
          s = k_drivers irqs inp s in
      if bit irqs Z_IRQ_KTIMER then
        if k_proc_active_count (ks_procs s) < 2 then Some (regs, s)
        else do {
          let s = s\<lparr>ks_procs := upd_nth (unat (ks_pid s)) (\<lambda>p. p\<lparr>p_regs := regs\<rparr>) (ks_procs s)\<rparr>;
          s \<leftarrow> next_process s;
          Some (p_regs (proc s (ks_pid s)), s)
        }
      else Some (regs, s))"

text \<open>
  The entry itself: a system call is looked up in the table of handlers, anything else is an
  interrupt. A handler takes the argument and gives its answer with the new state.
\<close>

definition z_kernel_entry ::
  "(kstate \<Rightarrow> u32 list \<Rightarrow> (u32 list \<times> kstate) option) option list \<Rightarrow> u32 list \<Rightarrow>
   u32 \<Rightarrow> u32 list \<Rightarrow> u32 \<Rightarrow> irq_in \<Rightarrow> kstate \<Rightarrow> (u32 list \<times> kstate) option" where
  "z_kernel_entry table fail syscall_id regs irqs inp s =
     (if syscall_id \<noteq> 0 then
        (if unat syscall_id \<ge> length table then Some (fail, s)
         else case table ! unat syscall_id of None \<Rightarrow> Some (fail, s) | Some h \<Rightarrow> h s regs)
      else k_interrupt irqs regs inp s)"

section \<open>What the scheduler does\<close>

definition runnable :: "z_proc \<Rightarrow> bool" where
  "runnable p \<longleftrightarrow> proc_active p \<and> \<not> proc_dying p"

definition buried :: "z_proc \<Rightarrow> z_proc" where
  "buried p = p\<lparr>p_base := 0, p_flags := 0\<rparr>"

text \<open>The parts of the state the scheduler has no business with.\<close>

definition same_rest :: "kstate \<Rightarrow> kstate \<Rightarrow> bool" where
  "same_rest s s' \<longleftrightarrow> ks_ticks s' = ks_ticks s \<and> ks_ram s' = ks_ram s \<and> ks_mbs s' = ks_mbs s \<and>
     ks_hid s' = ks_hid s \<and> ks_uart s' = ks_uart s \<and> ks_hw s' = ks_hw s"

text \<open>The effect of burying the processes in the slots \<open>B\<close>.\<close>

definition buries :: "nat set \<Rightarrow> kstate \<Rightarrow> kstate \<Rightarrow> bool" where
  "buries B s s' \<longleftrightarrow>
     length (ks_procs s') = length (ks_procs s) \<and>
     (\<forall>p < Z_PROCS_MAX. ks_procs s' ! p = (if p \<in> B then buried (ks_procs s ! p) else ks_procs s ! p)) \<and>
     (\<forall>a. live (ks_mem s') a =
        (if a \<in> (\<lambda>p. unat (p_base (ks_procs s ! p))) ` B then None else live (ks_mem s) a)) \<and>
     (\<forall>n. names (ks_reg s') n =
        (case names (ks_reg s) n of None \<Rightarrow> None | Some v \<Rightarrow> if unat v \<in> B then None else Some v)) \<and>
     same_rest s s'"

lemma buries_refl: "buries {} s s"
  by (simp add: buries_def same_rest_def split: option.split)

lemma buries_trans:
  assumes "buries B s s1" "buries C s1 s2" "B \<inter> C = {}" "B \<union> C \<subseteq> {..<Z_PROCS_MAX}"
  shows "buries (B \<union> C) s s2"
proof -
  have C: "ks_procs s1 ! p = ks_procs s ! p" if "p \<in> C" for p
  proof -
    have "p < Z_PROCS_MAX" "p \<notin> B" using that assms(3,4) by auto
    with assms(1) show ?thesis by (simp add: buries_def)
  qed
  have img: "(\<lambda>p. unat (p_base (ks_procs s1 ! p))) ` C = (\<lambda>p. unat (p_base (ks_procs s ! p))) ` C"
    by (rule image_cong) (simp_all add: C)
  have "\<forall>p < Z_PROCS_MAX. ks_procs s2 ! p = (if p \<in> B \<union> C then buried (ks_procs s ! p) else ks_procs s ! p)"
    using assms(1-3) by (auto simp: buries_def)
  moreover have "\<forall>a. live (ks_mem s2) a =
      (if a \<in> (\<lambda>p. unat (p_base (ks_procs s ! p))) ` (B \<union> C) then None else live (ks_mem s) a)"
    using assms(1,2) unfolding buries_def img by (auto simp: image_Un)
  moreover have "\<forall>n. names (ks_reg s2) n =
      (case names (ks_reg s) n of None \<Rightarrow> None | Some v \<Rightarrow> if unat v \<in> B \<union> C then None else Some v)"
    using assms(1,2) unfolding buries_def by (auto split: option.splits)
  ultimately show ?thesis using assms(1,2) by (simp add: buries_def same_rest_def)
qed

text \<open>What the scheduler needs of the state.\<close>

definition sched_ok :: "nat \<Rightarrow> kstate \<Rightarrow> bool" where
  "sched_ok hi s \<longleftrightarrow> length (ks_procs s) = Z_PROCS_MAX \<and> unat (ks_pid s) < Z_PROCS_MAX \<and>
     mem_inv hi (ks_mem s) \<and> reg_ok (ks_reg s)"

lemma advance_pid:
  assumes "unat (ks_pid s) < Z_PROCS_MAX"
  shows "unat (ks_pid (advance s)) = (unat (ks_pid s) + 1) mod Z_PROCS_MAX"
proof -
  have "unat (ks_pid s + 1) = unat (ks_pid s) + 1" using assms by (simp add: unat_plus_nowrap)
  with assms show ?thesis by (cases "unat (ks_pid s) = 15") (auto simp: advance_def)
qed

lemma advance_simps [simp]:
  "ks_procs (advance s) = ks_procs s" "ks_mem (advance s) = ks_mem s" "ks_reg (advance s) = ks_reg s"
  "ks_ticks (advance s) = ks_ticks s" "ks_ram (advance s) = ks_ram s" "ks_mbs (advance s) = ks_mbs s"
  "ks_hid (advance s) = ks_hid s" "ks_uart (advance s) = ks_uart s" "ks_hw (advance s) = ks_hw s"
  by (simp_all add: advance_def)

lemma buries_advance [simp]: "buries B (advance s) s' \<longleftrightarrow> buries B s s'"
  by (simp add: buries_def same_rest_def)

lemma same_rest_advance: "same_rest s (advance s)"
  by (simp add: same_rest_def advance_def)

lemma bury_buries:
  assumes "sched_ok hi s" "unat p < Z_PROCS_MAX"
  shows "\<exists>s'. bury p s = Some s' \<and> ks_pid s' = ks_pid s \<and> sched_ok hi s' \<and> buries {unat p} s s'"
proof -
  have inv: "mem_inv hi (ks_mem s)" and reg: "reg_ok (ks_reg s)" and len: "length (ks_procs s) = 16"
    using assms(1) by (simp_all add: sched_ok_def)
  obtain m where m: "k_mem_free (p_base (proc s p)) (ks_mem s) = Some m"
    using kmem.release_returns [OF inv] by blast
  have "mem_inv hi m" "live m = (live (ks_mem s))(unat (p_base (proc s p)) := None)"
    using kmem.release_inv [OF inv m] kmem.release_live [OF inv m] by simp_all
  moreover have "names (k_pidreg_release_all p (ks_reg s)) n =
      (case names (ks_reg s) n of None \<Rightarrow> None | Some v \<Rightarrow> if unat v \<in> {unat p} then None else Some v)" for n
    using names_release [of "ks_reg s" p n] reg by (auto simp: reg_ok_def word_unat_eq_iff split: option.splits)
  ultimately show ?thesis
    using assms len m reg_ok_release [OF reg]
    by (auto simp: bury_def sched_ok_def buries_def same_rest_def buried_def)
qed

text \<open>The killed processes among the next \<open>d\<close> slots.\<close>

definition passed :: "nat \<Rightarrow> nat \<Rightarrow> z_proc list \<Rightarrow> nat set" where
  "passed pid d ps = {p. \<exists>j. 1 \<le> j \<and> j < d \<and> p = (pid + j) mod Z_PROCS_MAX \<and> proc_dying (ps ! p)}"

lemma passed_1: "passed pid 1 ps = {}"
  by (auto simp: passed_def)

lemma mod_slots_neq: "0 < j \<Longrightarrow> j < Z_PROCS_MAX \<Longrightarrow> (q + j) mod Z_PROCS_MAX \<noteq> q mod Z_PROCS_MAX"
  using ring_slot_less [of 0 j "Z_PROCS_MAX" q] by auto

lemma passed_Suc:
  assumes "d \<ge> 1" "d < Z_PROCS_MAX" "q = (pid + 1) mod Z_PROCS_MAX"
    and "\<forall>p < Z_PROCS_MAX. p \<noteq> q \<longrightarrow> ps' ! p = ps ! p"
  shows "passed pid (Suc d) ps = (if proc_dying (ps ! q) then {q} else {}) \<union> passed q d ps'"
proof -
  have split: "{p. \<exists>j. 1 \<le> j \<and> j < Suc d \<and> P j p} = {p. P 1 p \<or> (\<exists>j. 1 \<le> j \<and> j < d \<and> P (Suc j) p)}" for P
  proof (rule Collect_cong, rule iffI)
    fix p assume "\<exists>j. 1 \<le> j \<and> j < Suc d \<and> P j p"
    then obtain j where j: "1 \<le> j" "j < Suc d" "P j p" by blast
    then show "P 1 p \<or> (\<exists>j. 1 \<le> j \<and> j < d \<and> P (Suc j) p)"
      by (cases "j = 1") (auto intro!: exI [of _ "j - 1"])
  next
    fix p assume "P 1 p \<or> (\<exists>j. 1 \<le> j \<and> j < d \<and> P (Suc j) p)"
    then show "\<exists>j. 1 \<le> j \<and> j < Suc d \<and> P j p"
      using assms(1) by (auto intro: exI [of _ 1] exI [of _ "Suc _"])
  qed
  have "passed q d ps' = {p. \<exists>j. 1 \<le> j \<and> j < d \<and> p = (pid + Suc j) mod Z_PROCS_MAX \<and> proc_dying (ps ! p)}"
  proof -
    have "ps' ! ((pid + Suc j) mod Z_PROCS_MAX) = ps ! ((pid + Suc j) mod Z_PROCS_MAX)" if "1 \<le> j" "j < d" for j
    proof -
      have "(q + j) mod Z_PROCS_MAX \<noteq> q mod Z_PROCS_MAX"
        using that assms(2) by (intro mod_slots_neq) auto
      then have "(pid + Suc j) mod Z_PROCS_MAX \<noteq> q" using assms(3) by (simp add: mod_simps)
      with assms(4) show ?thesis by simp
    qed
    then show ?thesis unfolding passed_def assms(3) by (auto simp: mod_simps)
  qed
  then show ?thesis unfolding passed_def split using assms(3) by auto
qed

lemma next_process_runs:
  assumes "sched_ok hi s" "1 \<le> d" "d \<le> Z_PROCS_MAX"
    and "runnable (ks_procs s ! ((unat (ks_pid s) + d) mod Z_PROCS_MAX))"
    and "\<forall>j. 1 \<le> j \<longrightarrow> j < d \<longrightarrow> \<not> runnable (ks_procs s ! ((unat (ks_pid s) + j) mod Z_PROCS_MAX))"
  shows "\<exists>s'. next_process s = Some s' \<and> sched_ok hi s' \<and>
    unat (ks_pid s') = (unat (ks_pid s) + d) mod Z_PROCS_MAX \<and>
    ks_mtu s' = p_base (ks_procs s ! ((unat (ks_pid s) + d) mod Z_PROCS_MAX)) \<and>
    buries (passed (unat (ks_pid s)) d (ks_procs s)) s s'"
  using assms
proof (induction d arbitrary: s)
  case (Suc d)
  let ?pid = "unat (ks_pid s)" let ?q = "(?pid + 1) mod Z_PROCS_MAX" let ?a = "advance s"
  have pid: "unat (ks_pid ?a) = ?q" using advance_pid Suc.prems(1) by (simp add: sched_ok_def)
  have ok: "sched_ok hi ?a" using Suc.prems(1) pid by (simp add: sched_ok_def)
  show ?case
  proof (cases "d = 0")
    case True
    then have "runnable (ks_procs s ! ?q)" using Suc.prems(4) by simp
    then have "next_process s = Some (?a\<lparr>ks_mtu := p_base (ks_procs s ! ?q)\<rparr>)"
      by (subst next_process.simps) (simp add: Let_def pid runnable_def)
    moreover have "buries {} s (?a\<lparr>ks_mtu := p_base (ks_procs s ! ?q)\<rparr>)"
      using buries_refl [of s] same_rest_advance [of s] by (simp add: buries_def same_rest_def)
    ultimately show ?thesis using True ok pid passed_1 [of ?pid "ks_procs s"] by (simp add: sched_ok_def)
  next
    case False
    have nq: "\<not> runnable (ks_procs s ! ?q)"
      using Suc.prems(5) False by (auto dest: spec [of _ 1])
    let ?B = "if proc_dying (ks_procs s ! ?q) then {?q} else {}"
    obtain s1 where s1: "next_process s = next_process s1" "sched_ok hi s1" "unat (ks_pid s1) = ?q" "buries ?B s s1"
    proof (cases "proc_dying (ks_procs s ! ?q)")
      case True
      obtain s1 where b: "bury (ks_pid ?a) ?a = Some s1" "ks_pid s1 = ks_pid ?a" "sched_ok hi s1"
        "buries {unat (ks_pid ?a)} ?a s1"
        using bury_buries [OF ok, of "ks_pid ?a"] pid by auto
      have "next_process s = next_process s1"
        using True by (subst next_process.simps) (simp add: Let_def pid b(1))
      moreover have "buries ?B s s1"
        using b(4) True pid by simp
      ultimately show ?thesis using that [of s1] b pid by simp
    next
      case alive: False
      then have "next_process s = next_process ?a"
        using nq by (subst next_process.simps) (simp add: Let_def pid runnable_def)
      moreover have "buries ?B s ?a"
        using alive buries_refl [of s] same_rest_advance [of s] by (simp add: buries_def same_rest_def)
      ultimately show ?thesis using that [of ?a] ok pid by simp
    qed
    have others: "\<forall>p < Z_PROCS_MAX. p \<noteq> ?q \<longrightarrow> ks_procs s1 ! p = ks_procs s ! p"
      using s1(4) by (auto simp: buries_def split: if_splits)
    have slot: "(?q + j) mod Z_PROCS_MAX = (?pid + Suc j) mod Z_PROCS_MAX" for j by (simp add: mod_simps)
    have same: "ks_procs s1 ! ((?pid + Suc j) mod Z_PROCS_MAX) = ks_procs s ! ((?pid + Suc j) mod Z_PROCS_MAX)"
      if "1 \<le> j" "j \<le> d" for j
    proof -
      have "(?q + j) mod Z_PROCS_MAX \<noteq> ?q mod Z_PROCS_MAX"
        using that Suc.prems(3) by (intro mod_slots_neq) auto
      then have "(?pid + Suc j) mod Z_PROCS_MAX \<noteq> ?q" by (simp add: slot mod_simps)
      with others show ?thesis by simp
    qed
    obtain s' where s': "next_process s1 = Some s'" "sched_ok hi s'"
      "unat (ks_pid s') = (?pid + Suc d) mod Z_PROCS_MAX"
      "ks_mtu s' = p_base (ks_procs s ! ((?pid + Suc d) mod Z_PROCS_MAX))"
      "buries (passed ?q d (ks_procs s1)) s1 s'"
    proof -
      have "runnable (ks_procs s1 ! ((unat (ks_pid s1) + d) mod Z_PROCS_MAX))"
        using Suc.prems(4) same [of d] False s1(3) slot [of d] by simp
      moreover have "\<forall>j. 1 \<le> j \<longrightarrow> j < d \<longrightarrow> \<not> runnable (ks_procs s1 ! ((unat (ks_pid s1) + j) mod Z_PROCS_MAX))"
        using Suc.prems(5) same s1(3) slot by (metis Suc_less_eq le_SucI less_or_eq_imp_le)
      ultimately show ?thesis
        using Suc.IH [OF s1(2)] that False Suc.prems(3) s1(3) slot [of d] same [of d] by auto
    qed
    have "buries (passed ?pid (Suc d) (ks_procs s)) s s'"
    proof -
      have "passed ?pid (Suc d) (ks_procs s) = ?B \<union> passed ?q d (ks_procs s1)"
        by (rule passed_Suc) (use False Suc.prems(3) others in auto)
      moreover have "buries (?B \<union> passed ?q d (ks_procs s1)) s s'"
      proof (rule buries_trans [OF s1(4) s'(5)])
        show "?B \<inter> passed ?q d (ks_procs s1) = {}"
        proof -
          have "?q \<notin> passed ?q d (ks_procs s1)"
          proof
            assume "?q \<in> passed ?q d (ks_procs s1)"
            then obtain j where j: "1 \<le> j" "j < d" "?q = (?q + j) mod Z_PROCS_MAX"
              unfolding passed_def by blast
            with mod_slots_neq [of j ?q] Suc.prems(3) show False by simp
          qed
          then show ?thesis by simp
        qed
        show "?B \<union> passed ?q d (ks_procs s1) \<subseteq> {..<Z_PROCS_MAX}" by (auto simp: passed_def)
      qed
      ultimately show ?thesis by simp
    qed
    with s' s1(1) show ?thesis by auto
  qed
qed simp

section \<open>The scheduler returns exactly when somebody can run\<close>

text \<open>How far the next process that can run is, counting the current one last.\<close>

definition next_dist :: "kstate \<Rightarrow> nat option" where
  "next_dist s = List.find (\<lambda>d. runnable (ks_procs s ! ((unat (ks_pid s) + d) mod Z_PROCS_MAX))) [1..<17]"

definition slot_after :: "kstate \<Rightarrow> nat \<Rightarrow> nat" where
  "slot_after s d = (unat (ks_pid s) + d) mod Z_PROCS_MAX"

lemma next_dist_Some:
  assumes "next_dist s = Some d"
  shows "1 \<le> d \<and> d \<le> Z_PROCS_MAX \<and> runnable (ks_procs s ! slot_after s d) \<and>
    (\<forall>j. 1 \<le> j \<longrightarrow> j < d \<longrightarrow> \<not> runnable (ks_procs s ! slot_after s j))"
proof -
  from assms obtain i where i: "i < length [1..<17 :: nat]" "runnable (ks_procs s ! slot_after s ([1..<17] ! i))"
    "d = [1..<17] ! i" "\<forall>j<i. \<not> runnable (ks_procs s ! slot_after s ([1..<17] ! j))"
    unfolding next_dist_def slot_after_def by (auto simp: find_Some_iff)
  then have d: "d = Suc i" by simp
  have "\<not> runnable (ks_procs s ! slot_after s j)" if "1 \<le> j" "j < d" for j
  proof -
    obtain k where k: "j = Suc k" using \<open>1 \<le> j\<close> by (cases j) auto
    with that(2) d have "k < i" by simp
    with i(4) i(1) k show ?thesis by auto
  qed
  with i(1,2) d show ?thesis by simp
qed

lemma next_dist_le:
  assumes "1 \<le> d" "d \<le> Z_PROCS_MAX" "runnable (ks_procs s ! slot_after s d)"
  shows "\<exists>e \<le> d. next_dist s = Some e"
proof (cases "next_dist s")
  case None
  then have "\<forall>x \<in> set [1..<17]. \<not> runnable (ks_procs s ! slot_after s x)"
    unfolding next_dist_def slot_after_def by (auto simp: find_None_iff)
  moreover have "d \<in> set [1..<17]" using assms(1,2) by auto
  ultimately show ?thesis using assms(3) by blast
next
  case (Some e)
  with next_dist_Some [OF Some] assms show ?thesis by (metis not_le)
qed

text \<open>The distance to a given slot, from one to sixteen.\<close>

definition dist_to :: "kstate \<Rightarrow> nat \<Rightarrow> nat" where
  "dist_to s p = (if (p + Z_PROCS_MAX - unat (ks_pid s)) mod Z_PROCS_MAX = 0 then Z_PROCS_MAX
                  else (p + Z_PROCS_MAX - unat (ks_pid s)) mod Z_PROCS_MAX)"

lemma dist_to_slot:
  assumes "unat (ks_pid s) < Z_PROCS_MAX" "p < Z_PROCS_MAX"
  shows "1 \<le> dist_to s p" "dist_to s p \<le> Z_PROCS_MAX" "slot_after s (dist_to s p) = p"
proof -
  let ?i = "unat (ks_pid s)"
  show "1 \<le> dist_to s p" by (simp add: dist_to_def Suc_le_eq)
  show "dist_to s p \<le> Z_PROCS_MAX"
    using mod_less_divisor [of 16 "p + 16 - ?i"] by (simp add: dist_to_def)
  have "(?i + (p + 16 - ?i) mod 16) mod 16 = (?i + (p + 16 - ?i)) mod 16" by (rule mod_add_right_eq)
  also have "\<dots> = p" using assms by simp
  finally have *: "(?i + (p + 16 - ?i) mod 16) mod 16 = p" .
  then show "slot_after s (dist_to s p) = p"
    by (auto simp: dist_to_def slot_after_def mod_simps)
qed

lemma next_dist_None:
  assumes "unat (ks_pid s) < Z_PROCS_MAX"
  shows "next_dist s = None \<longleftrightarrow> (\<forall>p < Z_PROCS_MAX. \<not> runnable (ks_procs s ! p))"
proof
  assume none: "next_dist s = None"
  show "\<forall>p < Z_PROCS_MAX. \<not> runnable (ks_procs s ! p)"
  proof (intro allI impI notI)
    fix p assume "p < Z_PROCS_MAX" "runnable (ks_procs s ! p)"
    with dist_to_slot [OF assms, of p] next_dist_le [of "dist_to s p" s] none show False by simp
  qed
next
  assume "\<forall>p < Z_PROCS_MAX. \<not> runnable (ks_procs s ! p)"
  then show "next_dist s = None"
    by (auto simp: next_dist_def find_None_iff)
qed

lemma runnable_buried [simp]: "\<not> runnable (buried p)"
  by (simp add: runnable_def buried_def proc_active_def)

lemma next_process_stuck:
  "next_process s = Some s' \<Longrightarrow> length (ks_procs s) = Z_PROCS_MAX \<Longrightarrow> unat (ks_pid s) < Z_PROCS_MAX \<Longrightarrow>
   \<exists>p < Z_PROCS_MAX. runnable (ks_procs s ! p)"
proof (induction rule: next_process.raw_induct [rotated, consumes 1, case_names step])
  case (step np s s')
  let ?a = "advance s"
  have q: "unat (ks_pid ?a) < Z_PROCS_MAX" using advance_pid [OF step(4)] by simp
  show ?case
  proof (cases "proc_dying (proc ?a (ks_pid ?a))")
    case True
    with step(2) obtain s1 where s1: "bury (ks_pid ?a) ?a = Some s1" "np s1 = Some s'"
      by (auto simp: Let_def split: Option.bind_splits)
    then have procs: "ks_procs s1 = upd_nth (unat (ks_pid ?a)) (\<lambda>p. p\<lparr>p_base := 0, p_flags := 0\<rparr>) (ks_procs s)"
      "ks_pid s1 = ks_pid ?a"
      by (auto simp: bury_def split: Option.bind_splits)
    from step(1) [OF s1(2)] step(3) procs q obtain p where
      "p < Z_PROCS_MAX" "runnable (ks_procs s1 ! p)" by auto
    with procs step(3) q show ?thesis
      by (cases "p = unat (ks_pid ?a)") (auto simp: runnable_def proc_active_def)
  next
    case alive: False
    show ?thesis
    proof (cases "proc_active (proc ?a (ks_pid ?a))")
      case True
      with alive q show ?thesis by (auto simp: runnable_def)
    next
      case False
      with alive step(2) have "np ?a = Some s'" by (simp add: Let_def)
      from step(1) [OF this] step(3,4) q show ?thesis by simp
    qed
  qed
qed

section \<open>The timer interrupt\<close>

text \<open>The state the scheduler starts from: tick counted, drivers run, registers saved.\<close>

definition timer_entry :: "u32 \<Rightarrow> u32 list \<Rightarrow> irq_in \<Rightarrow> kstate \<Rightarrow> kstate" where
  "timer_entry irqs regs inp s =
     (let s = k_drivers irqs inp (s\<lparr>ks_ticks := ks_ticks s + 1\<rparr>) in
      s\<lparr>ks_procs := upd_nth (unat (ks_pid s)) (\<lambda>p. p\<lparr>p_regs := regs\<rparr>) (ks_procs s)\<rparr>)"

lemma k_drivers_frame [frame_simps]:
  "ks_pid (k_drivers irqs inp s) = ks_pid s" "ks_procs (k_drivers irqs inp s) = ks_procs s"
  "ks_mem (k_drivers irqs inp s) = ks_mem s" "ks_reg (k_drivers irqs inp s) = ks_reg s"
  "ks_mtu (k_drivers irqs inp s) = ks_mtu s" "ks_mbs (k_drivers irqs inp s) = ks_mbs s"
  "ks_ram (k_drivers irqs inp s) = ks_ram s" "ks_ticks (k_drivers irqs inp s) = ks_ticks s"
  by (auto simp: k_drivers_def Let_def split: prod.splits)

lemma timer_entry_frame [frame_simps]:
  "ks_pid (timer_entry irqs regs inp s) = ks_pid s"
  "ks_procs (timer_entry irqs regs inp s) = upd_nth (unat (ks_pid s)) (\<lambda>p. p\<lparr>p_regs := regs\<rparr>) (ks_procs s)"
  "ks_mem (timer_entry irqs regs inp s) = ks_mem s" "ks_reg (timer_entry irqs regs inp s) = ks_reg s"
  "ks_mtu (timer_entry irqs regs inp s) = ks_mtu s" "ks_mbs (timer_entry irqs regs inp s) = ks_mbs s"
  "ks_ram (timer_entry irqs regs inp s) = ks_ram s" "ks_ticks (timer_entry irqs regs inp s) = ks_ticks s + 1"
  by (simp_all add: timer_entry_def Let_def frame_simps)

lemma flags_regs [simp]:
  "runnable (p\<lparr>p_regs := r\<rparr>) = runnable p" "proc_dying (p\<lparr>p_regs := r\<rparr>) = proc_dying p"
  "proc_active (p\<lparr>p_regs := r\<rparr>) = proc_active p"
  by (simp_all add: runnable_def proc_dying_def proc_active_def)

lemma timer_entry_procs:
  assumes "sched_ok hi s" "p < Z_PROCS_MAX"
  shows "ks_procs (timer_entry irqs regs inp s) ! p
    = (if p = unat (ks_pid s) then (ks_procs s ! p)\<lparr>p_regs := regs\<rparr> else ks_procs s ! p)"
  using assms by (auto simp: frame_simps sched_ok_def)

lemma timer_entry_ok: "sched_ok hi s \<Longrightarrow> sched_ok hi (timer_entry irqs regs inp s)"
  by (simp add: sched_ok_def frame_simps)

lemma timer_entry_flags:
  assumes "sched_ok hi s" "p < Z_PROCS_MAX"
  shows "runnable (ks_procs (timer_entry irqs regs inp s) ! p) = runnable (ks_procs s ! p)"
    "proc_dying (ks_procs (timer_entry irqs regs inp s) ! p) = proc_dying (ks_procs s ! p)"
  by (simp_all add: timer_entry_procs [OF assms])

lemma next_dist_entry:
  assumes "sched_ok hi s"
  shows "next_dist (timer_entry irqs regs inp s) = next_dist s"
  unfolding next_dist_def
  by (rule find_cong)
    (simp_all add: timer_entry_flags [OF assms] timer_entry_frame(1))

lemma passed_entry:
  assumes "sched_ok hi s"
  shows "passed pid d (ks_procs (timer_entry irqs regs inp s)) = passed pid d (ks_procs s)"
  unfolding passed_def by (rule Collect_cong) (metis timer_entry_flags(2) [OF assms] mod_less_divisor zero_less_numeral)

lemma k_interrupt_timer:
  assumes "bit irqs Z_IRQ_KTIMER" "k_proc_active_count (ks_procs s) \<ge> 2"
  shows "k_interrupt irqs regs inp s =
    Option.bind (next_process (timer_entry irqs regs inp s)) (\<lambda>s'. Some (p_regs (proc s' (ks_pid s')), s'))"
  using assms by (simp add: k_interrupt_def timer_entry_def Let_def frame_simps)

lemma k_timer_round_robin_aux:
  assumes "sched_ok hi s" "bit irqs Z_IRQ_KTIMER" "k_proc_active_count (ks_procs s) \<ge> 2"
  shows "case next_dist s of
      None \<Rightarrow> k_interrupt irqs regs inp s = None \<and> (\<forall>p < Z_PROCS_MAX. \<not> runnable (ks_procs s ! p))
    | Some d \<Rightarrow> \<exists>s'. k_interrupt irqs regs inp s
          = Some (if slot_after s d = unat (ks_pid s) then regs else p_regs (ks_procs s ! slot_after s d), s') \<and>
        sched_ok hi s' \<and> unat (ks_pid s') = slot_after s d \<and> runnable (ks_procs s ! slot_after s d) \<and>
        (\<forall>j. 1 \<le> j \<longrightarrow> j < d \<longrightarrow> \<not> runnable (ks_procs s ! slot_after s j)) \<and>
        ks_mtu s' = p_base (ks_procs s ! slot_after s d) \<and>
        buries (passed (unat (ks_pid s)) d (ks_procs s)) (timer_entry irqs regs inp s) s'"
proof -
  let ?e = "timer_entry irqs regs inp s"
  have ok: "sched_ok hi ?e" by (rule timer_entry_ok [OF assms(1)])
  have pid: "unat (ks_pid s) < Z_PROCS_MAX" using assms(1) by (simp add: sched_ok_def)
  have lt: "slot_after s d < Z_PROCS_MAX" for d by (simp add: slot_after_def)
  have sl: "slot_after ?e d = slot_after s d" for d by (simp add: slot_after_def timer_entry_frame)
  show ?thesis
  proof (cases "next_dist s")
    case None
    then have no: "\<forall>p < Z_PROCS_MAX. \<not> runnable (ks_procs s ! p)" by (simp add: next_dist_None [OF pid])
    then have "\<forall>p < Z_PROCS_MAX. \<not> runnable (ks_procs ?e ! p)" by (simp add: timer_entry_flags [OF assms(1)])
    then have "next_process ?e = None"
      using next_process_stuck [of ?e] ok by (cases "next_process ?e") (auto simp: sched_ok_def)
    with None no show ?thesis by (simp add: k_interrupt_timer [OF assms(2,3)])
  next
    case (Some d)
    note d = next_dist_Some [OF Some]
    have "runnable (ks_procs ?e ! ((unat (ks_pid ?e) + d) mod Z_PROCS_MAX))"
      using d timer_entry_flags(1) [OF assms(1) lt] by (simp add: slot_after_def timer_entry_frame(1))
    moreover have "\<forall>j. 1 \<le> j \<longrightarrow> j < d \<longrightarrow> \<not> runnable (ks_procs ?e ! ((unat (ks_pid ?e) + j) mod Z_PROCS_MAX))"
      using d timer_entry_flags(1) [OF assms(1) lt] by (simp add: slot_after_def timer_entry_frame(1))
    ultimately obtain s' where s': "next_process ?e = Some s'" "sched_ok hi s'" "unat (ks_pid s') = slot_after s d"
      "ks_mtu s' = p_base (ks_procs ?e ! slot_after s d)"
      "buries (passed (unat (ks_pid s)) d (ks_procs ?e)) ?e s'"
      using next_process_runs [OF ok, of d] d by (auto simp: slot_after_def timer_entry_frame(1))
    have "slot_after s d \<notin> passed (unat (ks_pid s)) d (ks_procs s)"
      using d by (auto simp: passed_def runnable_def)
    then have "ks_procs s' ! slot_after s d = ks_procs ?e ! slot_after s d"
      using s'(5) lt [of d] by (auto simp: buries_def passed_entry [OF assms(1)])
    with s' d Some show ?thesis
      by (auto simp: k_interrupt_timer [OF assms(2,3)] passed_entry [OF assms(1)] timer_entry_procs [OF assms(1) lt])
  qed
qed

text \<open>
  C2: The timer interrupt switches processes round robin. With at least two active processes it
  returns exactly when some process is active and not marked for death; it then resumes the first
  such process after the current one (the current one itself if there is no other), gives it back the
  registers it was interrupted with, points the address translation at its memory, has saved the
  interrupted process's registers, and has buried exactly the marked processes it passed on the way:
  their memory is free, their names are released and their slots are empty, and nobody else is touched.
\<close>

theorem k_timer_round_robin:
  assumes "sched_ok hi s" "bit irqs Z_IRQ_KTIMER" "k_proc_active_count (ks_procs s) \<ge> 2"
  shows "case next_dist s of
      None \<Rightarrow> k_interrupt irqs regs inp s = None \<and> (\<forall>p < Z_PROCS_MAX. \<not> runnable (ks_procs s ! p))
    | Some d \<Rightarrow> \<exists>s'. k_interrupt irqs regs inp s
          = Some (if slot_after s d = unat (ks_pid s) then regs else p_regs (ks_procs s ! slot_after s d), s') \<and>
        sched_ok hi s' \<and> unat (ks_pid s') = slot_after s d \<and> runnable (ks_procs s ! slot_after s d) \<and>
        (\<forall>j. 1 \<le> j \<longrightarrow> j < d \<longrightarrow> \<not> runnable (ks_procs s ! slot_after s j)) \<and>
        ks_mtu s' = p_base (ks_procs s ! slot_after s d) \<and>
        buries (passed (unat (ks_pid s)) d (ks_procs s)) (timer_entry irqs regs inp s) s'"
  by (rule k_timer_round_robin_aux [OF assms])

section \<open>Nobody waits for ever\<close>

fun timer_run ::
  "(u32 \<times> u32 list \<times> irq_in) list \<Rightarrow> kstate \<Rightarrow> (u32 list \<times> kstate) option" where
  "timer_run [] s = Some ([], s)"
| "timer_run ((irqs, regs, inp) # is) s = do {
     (_, s1) \<leftarrow> k_interrupt irqs regs inp s;
     (pids, s2) \<leftarrow> timer_run is s1;
     Some (ks_pid s1 # pids, s2)
   }"

lemma active_count_ge:
  assumes "p < Z_PROCS_MAX" "q < Z_PROCS_MAX" "p \<noteq> q" "runnable (ps ! p)" "runnable (ps ! q)"
  shows "k_proc_active_count ps \<ge> 2"
proof -
  let ?l = "filter (\<lambda>i. proc_active (ps ! i)) [0..<Z_PROCS_MAX]"
  have "{p, q} \<subseteq> set ?l" using assms by (auto simp: runnable_def)
  then have "card {p, q} \<le> card (set ?l)" by (rule card_mono [rotated]) simp
  also have "\<dots> \<le> length ?l" by (rule card_length)
  finally show ?thesis using assms(3) by (simp add: k_proc_active_count_def)
qed

lemma runnable_kept:
  assumes "sched_ok hi s" "buries (passed pid d (ks_procs s)) (timer_entry irqs regs inp s) s'"
    "p < Z_PROCS_MAX" "runnable (ks_procs s ! p)"
  shows "runnable (ks_procs s' ! p)"
proof -
  have "p \<notin> passed pid d (ks_procs s)" using assms(4) by (auto simp: passed_def runnable_def)
  with assms show ?thesis by (simp add: buries_def timer_entry_flags [OF assms(1)])
qed

lemma dist_after:
  assumes "unat (ks_pid s) < Z_PROCS_MAX" "p < Z_PROCS_MAX" "unat (ks_pid s') = slot_after s d"
    and "1 \<le> d" "d < dist_to s p"
  shows "dist_to s' p < dist_to s p"
proof -
  have a: "p = (unat (ks_pid s) + dist_to s p) mod 16" "dist_to s p \<le> 16"
    using dist_to_slot [OF assms(1,2)] by (simp_all add: slot_after_def)
  have b: "p = (unat (ks_pid s') + dist_to s' p) mod 16" "1 \<le> dist_to s' p" "dist_to s' p \<le> 16"
    using dist_to_slot [of s' p] assms(2,3) by (simp_all add: slot_after_def)
  have "(unat (ks_pid s) + d + dist_to s' p) mod 16 = (unat (ks_pid s) + d + (dist_to s p - d)) mod 16"
    using a b assms(3-5) by (simp add: slot_after_def mod_simps)
  moreover have "dist_to s' p - 1 < 16" "dist_to s p - d - 1 < 16" using a(2) b(2,3) by linarith+
  ultimately have "dist_to s' p - 1 = dist_to s p - d - 1"
    using ring_slot_inj [of "dist_to s' p - 1" 16 "dist_to s p - d - 1" "unat (ks_pid s) + d + 1"] b(2) assms(4,5)
    by fastforce
  then have "dist_to s' p = dist_to s p - d" using b(2) assms(4,5) by linarith
  with assms(4,5) show ?thesis by simp
qed

lemma timer_run_visits:
  "sched_ok hi s \<Longrightarrow> p < Z_PROCS_MAX \<Longrightarrow> q < Z_PROCS_MAX \<Longrightarrow> p \<noteq> q \<Longrightarrow>
   runnable (ks_procs s ! p) \<Longrightarrow> runnable (ks_procs s ! q) \<Longrightarrow> \<forall>(irqs, _) \<in> set is. bit irqs Z_IRQ_KTIMER \<Longrightarrow>
   \<exists>pids s'. timer_run is s = Some (pids, s') \<and> length pids = length is \<and>
     (dist_to s p \<le> length is \<longrightarrow> p \<in> unat ` set pids)"
proof (induction "is" arbitrary: s)
  case Nil
  have "1 \<le> dist_to s p" using Nil by (intro dist_to_slot) (simp_all add: sched_ok_def)
  then show ?case by simp
next
  case (Cons i "is")
  obtain irqs regs inp where i: "i = (irqs, regs, inp)" by (rule prod_cases3)
  have timer: "bit irqs Z_IRQ_KTIMER" using Cons.prems(7) i by auto
  have pid: "unat (ks_pid s) < Z_PROCS_MAX" using Cons.prems(1) by (simp add: sched_ok_def)
  have count: "k_proc_active_count (ks_procs s) \<ge> 2" by (rule active_count_ge [OF Cons.prems(2-6)])
  have dp: "1 \<le> dist_to s p" "dist_to s p \<le> Z_PROCS_MAX" "slot_after s (dist_to s p) = p"
    using dist_to_slot [OF pid Cons.prems(2)] by simp_all
  obtain d where d: "next_dist s = Some d" "d \<le> dist_to s p"
    using next_dist_le [of "dist_to s p" s] dp Cons.prems(5) by auto
  from k_timer_round_robin_aux [OF Cons.prems(1) timer count, of regs inp] d obtain regs' s1 where
    s1: "k_interrupt irqs regs inp s = Some (regs', s1)" "sched_ok hi s1" "unat (ks_pid s1) = slot_after s d"
    "buries (passed (unat (ks_pid s)) d (ks_procs s)) (timer_entry irqs regs inp s) s1"
    by auto
  have run: "runnable (ks_procs s1 ! p)" "runnable (ks_procs s1 ! q)"
    using runnable_kept [OF Cons.prems(1) s1(4)] Cons.prems(2,3,5,6) by blast+
  obtain pids s' where IH: "timer_run is s1 = Some (pids, s')" "length pids = length is"
    "dist_to s1 p \<le> length is \<longrightarrow> p \<in> unat ` set pids"
    using Cons.IH [OF s1(2) Cons.prems(2-4) run] Cons.prems(7) by auto
  have "p \<in> unat ` set (ks_pid s1 # pids)" if "dist_to s p \<le> length (i # is)"
  proof (cases "d = dist_to s p")
    case True
    with dp(3) s1(3) show ?thesis by simp
  next
    case False
    then have "dist_to s1 p < dist_to s p"
      using dist_after [OF pid Cons.prems(2) s1(3)] next_dist_Some [OF d(1)] d(2) by simp
    with that IH(3) show ?thesis by simp
  qed
  then show ?case using i s1(1) IH by simp
qed

text \<open>
  C5: Scheduling is fair: while some other process can run as well, sixteen timer interrupts in a row
  all return, and after at least one of them the given process is the one that runs.
\<close>

theorem round_robin_fair:
  assumes "sched_ok hi s" "p < Z_PROCS_MAX" "q < Z_PROCS_MAX" "p \<noteq> q"
    and "runnable (ks_procs s ! p)" "runnable (ks_procs s ! q)"
    and "\<forall>(irqs, _) \<in> set is. bit irqs Z_IRQ_KTIMER" "length is \<ge> Z_PROCS_MAX"
  shows "\<exists>pids s'. timer_run is s = Some (pids, s') \<and> length pids = length is \<and> p \<in> unat ` set pids"
proof -
  have "dist_to s p \<le> Z_PROCS_MAX"
    using dist_to_slot [of s p] assms(1,2) by (simp add: sched_ok_def)
  with timer_run_visits [OF assms(1-7)] assms(8) show ?thesis by fastforce
qed

section \<open>Creating a process\<close>

lemma free_pid_Some:
  "free_pid n ps = Some p \<Longrightarrow> n \<le> p \<and> p < n + length ps \<and> p_base (ps ! (p - n)) = 0 \<and>
   (\<forall>i < p - n. p_base (ps ! i) \<noteq> 0)"
proof (induction n ps rule: free_pid.induct)
  case (2 n x xs)
  show ?case
  proof (cases "p_base x = 0")
    case True
    with 2 show ?thesis by simp
  next
    case False
    with 2 have IH: "Suc n \<le> p \<and> p < Suc n + length xs \<and> p_base (xs ! (p - Suc n)) = 0 \<and>
        (\<forall>i < p - Suc n. p_base (xs ! i) \<noteq> 0)" by simp
    then have "p - n = Suc (p - Suc n)" by (simp add: Suc_diff_Suc Suc_le_eq)
    with IH False show ?thesis by (auto simp: less_Suc_eq_0_disj)
  qed
qed simp

lemma free_pid_None: "free_pid n ps = None \<longleftrightarrow> (\<forall>x \<in> set ps. p_base x \<noteq> 0)"
  by (induction n ps rule: free_pid.induct) auto

lemma live_above_base:
  assumes "mem_inv hi m" "live m a = Some z"
  shows "unat Z_MEM_BASE \<le> a \<and> a + z \<le> hi"
proof -
  have t: "tiles (unat Z_MEM_BASE) hi (regions m)" using assms(1) by (simp add: mem_inv_def)
  have "(a, z, True) \<in> set (regions m)" using live_member assms(2) by (simp add: live_def)
  with tiles_member [OF t] show ?thesis by fastforce
qed

text \<open>Everything \<open>k_proc_create\<close> can do.\<close>

lemma k_proc_create_cases:
  assumes "mem_inv hi (ks_mem s)" "length (ks_procs s) = Z_PROCS_MAX"
    and "mem_size = k_mem_align_up (sz + stack_size) Z_MEM_ALIGNMENT"
  obtains (full) "k_proc_create sz stack_size s = Some (0, s)" "\<forall>x \<in> set (ks_procs s). p_base x \<noteq> 0"
  | (no_memory) m where "k_proc_create sz stack_size s = Some (0, s\<lparr>ks_mem := m\<rparr>)" "mem_inv hi m"
      "live m = live (ks_mem s)"
  | (created) p base m ram where
      "k_proc_create sz stack_size s = Some (of_nat p, s\<lparr>ks_mem := m, ks_ram := ram,
         ks_procs := upd_nth p (\<lambda>x. x\<lparr>p_base := base, p_size := mem_size, p_regs := new_regs p mem_size\<rparr>) (ks_procs s)\<rparr>)"
      "p < Z_PROCS_MAX" "p_base (ks_procs s ! p) = 0" "\<forall>i<p. p_base (ks_procs s ! i) \<noteq> 0" "base \<noteq> 0"
      "mem_inv hi m" "live (ks_mem s) (unat base) = None"
      "live m = (live (ks_mem s))(unat base \<mapsto> unat (req_size mem_size))"
      "ram = (if p = 0 then ks_ram s else (ks_ram s)(base + mem_size - 4 := 0))"
proof (cases "free_pid 0 (ks_procs s)")
  case None
  with full show ?thesis by (simp add: k_proc_create_def free_pid_None)
next
  case (Some p)
  have p: "p < Z_PROCS_MAX" "p_base (ks_procs s ! p) = 0" "\<forall>i<p. p_base (ks_procs s ! i) \<noteq> 0"
    using free_pid_Some [OF Some] assms(2) by simp_all
  obtain r m where a: "k_mem_alloc mem_size (ks_mem s) = Some (r, m)"
    using kmem.alloc_returns [OF assms(1)] by blast
  have m: "mem_inv hi m" by (rule kmem.alloc_inv [OF assms(1) a])
  show ?thesis
  proof (cases r)
    case None
    with a kmem.alloc_null [OF assms(1)] m Some assms(3) no_memory [of m] show ?thesis
      by (simp add: k_proc_create_def Let_def)
  next
    case base: (Some base)
    have l: "live (ks_mem s) (unat base) = None" "live m = (live (ks_mem s))(unat base \<mapsto> unat (req_size mem_size))"
      using kmem.alloc_new [OF assms(1) a [unfolded base]] by simp_all
    have "base \<noteq> 0" using live_above_base [OF m, of "unat base"] l(2) by auto
    moreover have "new_regs p mem_size ! 1 = 0" by (simp add: new_regs_def Let_def)
    ultimately show ?thesis
      using created [where p = p and m = m and base = base
          and ram = "if p = 0 then ks_ram s else (ks_ram s)(base + mem_size - 4 := 0)"]
        Some a base p m l assms(3)
      by (simp add: k_proc_create_def Let_def)
  qed
qed

section \<open>The kernel as a transition system\<close>

text \<open>
  What holds of the kernel between two operations: the components' own invariants; every occupied
  slot owns a block of the allocator, no two the same one; only occupied slots are active, the
  current process and every process with a registered name among them.
\<close>

definition owns :: "kstate \<Rightarrow> nat \<Rightarrow> bool" where
  "owns s p \<longleftrightarrow> live (ks_mem s) (unat (p_base (ks_procs s ! p))) = Some (unat (req_size (p_size (ks_procs s ! p))))
     \<and> 4096 dvd unat (p_size (ks_procs s ! p))"

definition kinv :: "nat \<Rightarrow> kstate \<Rightarrow> bool" where
  "kinv hi s \<longleftrightarrow>
     sched_ok hi s \<and> mailboxes_ok (ks_mbs s) \<and>
     (\<forall>p < Z_PROCS_MAX. p_base (ks_procs s ! p) \<noteq> 0 \<longrightarrow> owns s p) \<and>
     (\<forall>p < Z_PROCS_MAX. \<forall>q < Z_PROCS_MAX. p \<noteq> q \<longrightarrow> p_base (ks_procs s ! p) \<noteq> 0 \<longrightarrow>
        p_base (ks_procs s ! p) \<noteq> p_base (ks_procs s ! q)) \<and>
     (\<forall>n v. names (ks_reg s) n = Some v \<longrightarrow> unat v < Z_PROCS_MAX \<and> p_base (proc s v) \<noteq> 0) \<and>
     (\<forall>p < Z_PROCS_MAX. proc_active (ks_procs s ! p) \<longrightarrow> p_base (ks_procs s ! p) \<noteq> 0) \<and>
     p_base (proc s (ks_pid s)) \<noteq> 0"

text \<open>
  The operations a process or the shell can ask for, and interrupts. A process is only started after
  it was created; a call is made by the current process. Each call is one step: interrupts fall
  between calls. The code masks interrupts only while it works on a mailbox, on the keyboard state or
  on the serial queues; in the other calls the timer can interrupt halfway, and such runs are not
  among these. For the allocator they are looked at in \<open>Mem\<close> (\<open>interrupted_alloc_doubles\<close>).
\<close>

inductive kstep :: "kstate \<Rightarrow> kstate \<Rightarrow> bool" where
  interrupt: "k_interrupt irqs regs inp s = Some (regs', s') \<Longrightarrow> kstep s s'"
| create: "k_proc_create sz stack_size s = Some (pid, s') \<Longrightarrow> kstep s s'"
| run: "k_proc_run fs_size fs_load arg s = Some (rv, pid, s') \<Longrightarrow> kstep s s'"
| start: "unat pid < Z_PROCS_MAX \<Longrightarrow> p_base (proc s pid) \<noteq> 0 \<Longrightarrow>
    kstep s (s\<lparr>ks_procs := k_proc_start pid (ks_procs s)\<rparr>)"
| stop: "unat pid < Z_PROCS_MAX \<Longrightarrow> kstep s (s\<lparr>ks_procs := k_proc_stop pid (ks_procs s)\<rparr>)"
| kill: "kstep s (snd (k_proc_kill_syscall arg s))"
| exit: "kstep s (z_exit s)"
| register: "k_pid_register (ks_pid s) arg (ks_reg s) = Some (rv, out, reg) \<Longrightarrow> kstep s (s\<lparr>ks_reg := reg\<rparr>)"
| send: "kstep s (s\<lparr>ks_mbs := snd (k_msg_send (ks_procs s) (ks_pid s) msg (ks_mbs s))\<rparr>)"
| read: "k_msg_read (ks_procs s) mem (ks_pid s) m msg (ks_mbs s) = Inr (rv, msg', mbs) \<Longrightarrow>
    kstep s (s\<lparr>ks_mbs := mbs\<rparr>)"
| read_key: "kstep s (s\<lparr>ks_hid := snd (k_hid_read_key (ks_hid s))\<rparr>)"
| getc: "kstep s (s\<lparr>ks_uart := snd (k_uart_getc (ks_uart s))\<rparr>)"
| putc: "k_uart_putc c (ks_uart s) (ks_hw s) = (u, hw) \<Longrightarrow> kstep s (s\<lparr>ks_uart := u, ks_hw := hw\<rparr>)"

text \<open>An operation that only changes flags and registers, or parts the invariant does not look at.\<close>

lemma kinv_flags:
  assumes "kinv hi s" "ks_pid s' = ks_pid s" "ks_mem s' = ks_mem s" "ks_reg s' = ks_reg s"
    and "length (ks_procs s') = length (ks_procs s)" "mailboxes_ok (ks_mbs s')"
    and "\<And>p. p < Z_PROCS_MAX \<Longrightarrow> p_base (ks_procs s' ! p) = p_base (ks_procs s ! p) \<and>
      p_size (ks_procs s' ! p) = p_size (ks_procs s ! p) \<and>
      (proc_active (ks_procs s' ! p) \<longrightarrow> p_base (ks_procs s ! p) \<noteq> 0)"
  shows "kinv hi s'"
  using assms by (auto simp: kinv_def sched_ok_def owns_def)

lemma kinv_mailboxes: "kinv hi s \<Longrightarrow> mailboxes_ok (ks_mbs s)"
  by (simp add: kinv_def)

lemma kinv_drivers:
  assumes "kinv hi s"
  shows "kinv hi (k_drivers irqs inp (s\<lparr>ks_ticks := t\<rparr>))" "kinv hi (k_drivers irqs inp s)"
  by (rule kinv_flags [OF assms]; use assms in \<open>simp add: frame_simps kinv_def\<close>)+

lemma kinv_timer_entry: "kinv hi s \<Longrightarrow> kinv hi (timer_entry irqs regs inp s)"
proof (rule kinv_flags)
  assume inv: "kinv hi s"
  fix p assume p: "p < Z_PROCS_MAX"
  have "sched_ok hi s" using inv by (simp add: kinv_def)
  from timer_entry_procs [OF this p, of irqs regs inp] inv p
  show "p_base (ks_procs (timer_entry irqs regs inp s) ! p) = p_base (ks_procs s ! p) \<and>
      p_size (ks_procs (timer_entry irqs regs inp s) ! p) = p_size (ks_procs s ! p) \<and>
      (proc_active (ks_procs (timer_entry irqs regs inp s) ! p) \<longrightarrow> p_base (ks_procs s ! p) \<noteq> 0)"
    by (auto simp: kinv_def)
qed (simp_all add: frame_simps kinv_mailboxes)

lemma kinv_buries:
  assumes "kinv hi s" "buries B s s'" "B \<subseteq> {..<Z_PROCS_MAX}" "sched_ok hi s'"
    and "unat (ks_pid s') \<notin> B" "p_base (proc s (ks_pid s')) \<noteq> 0"
  shows "kinv hi s'"
proof -
  have procs: "ks_procs s' ! p = (if p \<in> B then buried (ks_procs s ! p) else ks_procs s ! p)" if "p < Z_PROCS_MAX" for p
    using assms(2) that by (simp add: buries_def)
  have live: "live (ks_mem s') a =
      (if a \<in> (\<lambda>p. unat (p_base (ks_procs s ! p))) ` B then None else live (ks_mem s) a)" for a
    using assms(2) by (simp add: buries_def)
  have pid: "unat (ks_pid s') < Z_PROCS_MAX" using assms(4) by (simp add: sched_ok_def)
  have "owns s' p" if "p < Z_PROCS_MAX" "p_base (ks_procs s' ! p) \<noteq> 0" for p
  proof -
    have nB: "p \<notin> B" "ks_procs s' ! p = ks_procs s ! p"
      using that procs [OF that(1)] by (auto simp: buried_def split: if_splits)
    have "unat (p_base (ks_procs s ! p)) \<notin> (\<lambda>p. unat (p_base (ks_procs s ! p))) ` B"
    proof
      assume "unat (p_base (ks_procs s ! p)) \<in> (\<lambda>p. unat (p_base (ks_procs s ! p))) ` B"
      then obtain q where q: "q \<in> B" "p_base (ks_procs s ! p) = p_base (ks_procs s ! q)"
        by (auto simp: word_unat_eq_iff)
      then have "q < Z_PROCS_MAX" "p \<noteq> q" "p_base (ks_procs s ! p) \<noteq> 0" using assms(3) that nB by auto
      with q(2) assms(1) that(1) show False unfolding kinv_def by blast
    qed
    with live nB assms(1) that show ?thesis by (simp add: kinv_def owns_def)
  qed
  moreover have "p_base (ks_procs s' ! p) \<noteq> p_base (ks_procs s' ! q)"
    if "p < Z_PROCS_MAX" "q < Z_PROCS_MAX" "p \<noteq> q" "p_base (ks_procs s' ! p) \<noteq> 0" for p q
    using that procs [OF that(1)] procs [OF that(2)] assms(1) by (auto simp: kinv_def buried_def split: if_splits)
  moreover have "unat v < Z_PROCS_MAX \<and> p_base (proc s' v) \<noteq> 0" if "names (ks_reg s') n = Some v" for n v
  proof -
    have "names (ks_reg s) n = Some v" "unat v \<notin> B"
      using assms(2) that by (auto simp: buries_def split: option.splits if_splits)
    with assms(1) procs show ?thesis by (auto simp: kinv_def)
  qed
  moreover have "p_base (ks_procs s' ! p) \<noteq> 0" if "p < Z_PROCS_MAX" "proc_active (ks_procs s' ! p)" for p
    using that procs [OF that(1)] assms(1) by (auto simp: kinv_def buried_def proc_active_def split: if_splits)
  moreover have "mailboxes_ok (ks_mbs s')"
    using assms(1,2) by (simp add: kinv_def buries_def same_rest_def)
  moreover have "p_base (proc s' (ks_pid s')) \<noteq> 0" using procs [OF pid] assms(5,6) by simp
  ultimately show ?thesis using assms(4) by (simp add: kinv_def)
qed

lemma kinv_interrupt:
  assumes "kinv hi s" "k_interrupt irqs regs inp s = Some (regs', s')"
  shows "kinv hi s'"
proof (cases "bit irqs Z_IRQ_KTIMER \<and> k_proc_active_count (ks_procs s) \<ge> 2")
  case False
  with assms(2) have "s' = k_drivers irqs inp s \<or> s' = k_drivers irqs inp (s\<lparr>ks_ticks := ks_ticks s + 1\<rparr>)"
    by (auto simp: k_interrupt_def Let_def frame_simps split: if_splits)
  with kinv_drivers [OF assms(1)] show ?thesis by auto
next
  case True
  let ?e = "timer_entry irqs regs inp s"
  have ok: "sched_ok hi s" using assms(1) by (simp add: kinv_def)
  have inv: "kinv hi ?e" by (rule kinv_timer_entry [OF assms(1)])
  obtain d where d: "next_dist s = Some d"
    using k_timer_round_robin_aux [OF ok, of irqs regs inp] True assms(2) by (cases "next_dist s") auto
  with k_timer_round_robin_aux [OF ok, of irqs regs inp] True assms(2) have
    s': "sched_ok hi s'" "unat (ks_pid s') = slot_after s d" "runnable (ks_procs s ! slot_after s d)"
      "buries (passed (unat (ks_pid s)) d (ks_procs s)) ?e s'" by auto
  have lt: "slot_after s d < Z_PROCS_MAX" by (simp add: slot_after_def)
  show ?thesis
  proof (rule kinv_buries [OF inv s'(4) _ s'(1)])
    show "passed (unat (ks_pid s)) d (ks_procs s) \<subseteq> {..<Z_PROCS_MAX}" by (auto simp: passed_def)
    show "unat (ks_pid s') \<notin> passed (unat (ks_pid s)) d (ks_procs s)"
      using s'(2,3) by (auto simp: passed_def runnable_def)
    show "p_base (proc ?e (ks_pid s')) \<noteq> 0"
      using s'(2,3) assms(1) lt timer_entry_procs [OF ok lt, of irqs regs inp] by (auto simp: kinv_def runnable_def)
  qed
qed

lemma kinv_create:
  assumes "kinv hi s" "k_proc_create sz stack_size s = Some (pid, s')"
  shows "kinv hi s' \<and> ks_pid s' = ks_pid s \<and> (pid \<noteq> 0 \<longrightarrow> unat pid < Z_PROCS_MAX \<and> p_base (proc s' pid) \<noteq> 0)"
proof -
  have inv: "mem_inv hi (ks_mem s)" and len: "length (ks_procs s) = Z_PROCS_MAX"
    using assms(1) by (simp_all add: kinv_def sched_ok_def)
  show ?thesis
  proof (cases rule: k_proc_create_cases [OF inv len refl, of sz stack_size, case_names full no_memory created])
    case full
    with assms show ?thesis by simp
  next
    case (no_memory m)
    with assms show ?thesis by (auto simp: kinv_def sched_ok_def owns_def)
  next
    case (created p base m ram)
    let ?mem_size = "k_mem_align_up (sz + stack_size) Z_MEM_ALIGNMENT"
    have s': "s' = s\<lparr>ks_mem := m, ks_ram := ram, ks_procs := upd_nth p (\<lambda>x. x\<lparr>p_base := base,
        p_size := ?mem_size, p_regs := new_regs p ?mem_size\<rparr>) (ks_procs s)\<rparr>" and pid: "pid = of_nat p"
      using created(1) assms(2) by auto
    have procs: "ks_procs s' ! q = (if q = p then (ks_procs s ! p)\<lparr>p_base := base, p_size := ?mem_size,
        p_regs := new_regs p ?mem_size\<rparr> else ks_procs s ! q)" for q
      using created(2) len by (simp add: s')
    have new: "p_base (ks_procs s ! q) \<noteq> base" if "q < Z_PROCS_MAX" for q
    proof
      assume "p_base (ks_procs s ! q) = base"
      with created(5,7) assms(1) that show False by (auto simp: kinv_def owns_def)
    qed
    have dvd: "4096 dvd unat ?mem_size" by (simp add: align_up_4096)
    have "owns s' q" if "q < Z_PROCS_MAX" "p_base (ks_procs s' ! q) \<noteq> 0" for q
    proof (cases "q = p")
      case True
      with procs [of q] created(8) dvd show ?thesis by (simp add: owns_def s' created(2) len)
    next
      case False
      with that assms(1) procs [of q] have "owns s q" by (simp add: kinv_def)
      with False procs [of q] created(8) new [OF that(1)] show ?thesis
        by (simp add: owns_def) (simp add: s' word_unat_eq_iff)
    qed
    moreover have "p_base (ks_procs s' ! a) \<noteq> p_base (ks_procs s' ! b)"
      if "a < Z_PROCS_MAX" "b < Z_PROCS_MAX" "a \<noteq> b" "p_base (ks_procs s' ! a) \<noteq> 0" for a b
      using that procs [of a] procs [of b] new [of a] new [of b] assms(1) by (auto simp: kinv_def split: if_splits)
    moreover have "unat v < Z_PROCS_MAX \<and> p_base (proc s' v) \<noteq> 0" if "names (ks_reg s') n = Some v" for n v
      using that assms(1) procs [of "unat v"] created(5) by (auto simp: kinv_def s')
    moreover have "p_base (ks_procs s' ! q) \<noteq> 0" if "q < Z_PROCS_MAX" "proc_active (ks_procs s' ! q)" for q
      using that assms(1) procs [of q] created(5) by (auto simp: kinv_def proc_active_def split: if_splits)
    moreover have "p_base (proc s' (ks_pid s')) \<noteq> 0"
      using assms(1) procs [of "unat (ks_pid s')"] created(5) by (auto simp: kinv_def s')
    moreover have "sched_ok hi s'" "mailboxes_ok (ks_mbs s')"
      using assms(1) created(6) by (simp_all add: kinv_def sched_ok_def s')
    ultimately have "kinv hi s'" by (simp add: kinv_def)
    moreover have "unat pid = p" using created(2) by (simp add: pid unat_of_nat)
    ultimately show ?thesis using created(2,5) procs [of p] by (simp add: s')
  qed
qed

lemma k_proc_run_cases:
  assumes "k_proc_run fs_size fs_load arg s = Some (rv, pid, s')"
  obtains (unchanged) "s' = s"
  | (created) sz st pid1 where "k_proc_create sz st s = Some (pid1, s')"
  | (started) sz st pid1 s1 ram where "k_proc_create sz st s = Some (pid1, s1)" "pid1 \<noteq> 0"
      "s' = s1\<lparr>ks_ram := ram, ks_procs := k_proc_start pid1 (ks_procs s1)\<rparr>"
proof (cases arg)
  case None
  with assms unchanged show ?thesis by (simp add: k_proc_run_def)
next
  case (Some str)
  let ?name = "copy_str 31 str 0"
  show ?thesis
  proof (cases "fs_size ?name = 0")
    case True
    with Some assms unchanged show ?thesis by (simp add: k_proc_run_def Let_def)
  next
    case False
    then obtain pid1 s1 where c: "k_proc_create (fs_size ?name) (z_proc_stack_size_for ?name) s = Some (pid1, s1)"
      using Some assms by (cases "k_proc_create (fs_size ?name) (z_proc_stack_size_for ?name) s")
        (auto simp: k_proc_run_def Let_def)
    show ?thesis
    proof (cases "pid1 = 0")
      case True
      with False Some assms c created show ?thesis by (simp add: k_proc_run_def Let_def)
    next
      case nz: False
      have "s' = s1\<lparr>ks_ram := fs_load (k_proc_base pid1 (ks_procs s1)) ?name (ks_ram s1),
          ks_procs := k_proc_start pid1 (ks_procs s1)\<rparr>"
        using False Some assms c nz by (auto simp: k_proc_run_def Let_def)
      with started [OF c nz] show ?thesis by blast
    qed
  qed
qed

inductive_cases kstepE: "kstep s s'"

lemma kstep_kinv: "kstep s s' \<Longrightarrow> kinv hi s \<Longrightarrow> kinv hi s'"
proof (induction rule: kstep.induct)
  case (interrupt irqs regs inp s regs' s')
  then show ?case by (rule kinv_interrupt [rotated])
next
  case (create sz stack_size s pid s')
  then show ?case using kinv_create by blast
next
  case (run fs_size fs_load arg s rv pid s')
  from run.hyps show ?case
  proof (cases rule: k_proc_run_cases [case_names unchanged created started])
    case unchanged
    with run.prems show ?thesis by simp
  next
    case (created sz st pid1)
    with kinv_create [OF run.prems] show ?thesis by blast
  next
    case (started sz st pid1 s1 ram)
    note k = kinv_create [OF run.prems started(1)]
    then have k1: "kinv hi s1" by simp
    then have len: "length (ks_procs s1) = Z_PROCS_MAX" by (simp add: kinv_def sched_ok_def)
    show ?thesis
      using k started len by (intro kinv_flags [OF k1]) (auto simp: k_proc_start_def kinv_def nth_list_update upd_nth_def)
  qed
next
  case (start pid s)
  have "length (ks_procs s) = Z_PROCS_MAX" using start.prems by (simp add: kinv_def sched_ok_def)
  with start show ?case
    by (intro kinv_flags [OF start.prems]) (auto simp: k_proc_start_def kinv_def nth_list_update upd_nth_def)
next
  case (stop pid s)
  have "length (ks_procs s) = Z_PROCS_MAX" using stop.prems by (simp add: kinv_def sched_ok_def)
  with stop show ?case
    by (intro kinv_flags [OF stop.prems])
      (auto simp: k_proc_stop_def kinv_def nth_list_update upd_nth_def proc_active_stopped [simplified] split: if_splits)
next
  case (kill arg s)
  then show ?case
    by (intro kinv_flags [OF kill])
      (auto simp: k_proc_kill_syscall_def k_proc_kill_def kinv_def nth_list_update upd_nth_def sched_ok_def
        proc_active_def flag_bits split: option.splits)
next
  case (exit s)
  then show ?case
    by (intro kinv_flags [OF exit])
      (auto simp: z_exit_def k_proc_kill_def kinv_def nth_list_update upd_nth_def sched_ok_def proc_active_def flag_bits)
next
  case (register s arg rv out reg)
  have ok: "reg_ok (ks_reg s)" using register.prems by (simp add: kinv_def sched_ok_def)
  have "reg_ok reg \<and> (reg = ks_reg s \<or> (\<exists>n. names reg = (names (ks_reg s))(n \<mapsto> ks_pid s)))"
  proof (cases arg)
    case None
    with register.hyps ok show ?thesis by (simp add: k_pid_register_def)
  next
    case (Some str)
    with k_pid_register_refines_aux [OF ok refl, of "ks_pid s" str] register.hyps show ?thesis
      by (auto split: if_splits)
  qed
  with register.prems show ?case
    by (auto simp: kinv_def sched_ok_def owns_def split: if_splits)
next
  case (send s msg)
  have mb: "mailboxes_ok (ks_mbs s)" by (rule kinv_mailboxes [OF send])
  obtain rv mbs where k: "k_msg_send (ks_procs s) (ks_pid s) msg (ks_mbs s) = (rv, mbs)" by fastforce
  have "mailboxes_ok mbs" using k_msg_send_cases [OF mb k] mb mailboxes_ok_update by blast
  with send k show ?case by (intro kinv_flags [OF send]) (auto simp: kinv_def)
next
  case (read s mem m msg rv msg' mbs)
  have mb: "mailboxes_ok (ks_mbs s)" by (rule kinv_mailboxes [OF read.prems])
  obtain got mbs1 where k: "z_mailbox_pop (ks_pid s) (ks_mbs s) = (got, mbs1)" by fastforce
  have "unat (ks_pid s) < Z_PROCS_MAX" using read.prems by (simp add: kinv_def sched_ok_def)
  from z_mailbox_pop_cases [OF mb this k] mb have "mailboxes_ok mbs1" using mailboxes_ok_update by blast
  moreover have "mbs = mbs1"
    using read.hyps k by (auto simp: k_msg_read_def Let_def split: option.splits sum.splits prod.splits)
  ultimately show ?case using read.prems by (intro kinv_flags [OF read.prems]) (auto simp: kinv_def)
next
  case (read_key s)
  then show ?case by (intro kinv_flags [OF read_key]) (auto simp: kinv_def)
next
  case (getc s)
  then show ?case by (intro kinv_flags [OF getc]) (auto simp: kinv_def)
next
  case (putc c s u hw)
  then show ?case by (intro kinv_flags [OF putc.prems]) (auto simp: kinv_def)
qed

definition bootable :: "kstate \<Rightarrow> bool" where
  "bootable s \<longleftrightarrow> length (ks_procs s) = Z_PROCS_MAX \<and> ks_pid s = 0 \<and> length (mem_blocks (ks_mem s)) = Z_MEM_MAX_BLOCKS \<and>
     length (ks_reg s) = Z_PIDREG_MAX \<and> mailboxes_ok (ks_mbs s)"

definition boot_size :: "u32 \<Rightarrow> u32" where
  "boot_size image_size = k_mem_align_up (image_size + Z_PROC_STACK_SIZE_DEFAULT) Z_MEM_ALIGNMENT"

definition boot_total :: "u32 \<Rightarrow> u32" where
  "boot_total mem_mb = (if mem_mb \<noteq> 0 then mem_mb * 1024 * 1024 else 1024 * 1024)"

lemma k_boot_kinv:
  assumes "bootable s" "0 < boot_total mem_mb" "boot_total mem_mb \<le> 0xC0000000"
    and "unat (req_size (boot_size image_size)) \<le> unat (boot_total mem_mb)"
  shows "\<exists>s'. k_boot mem_mb image_size s = Some s' \<and> kinv (unat Z_MEM_BASE + unat (boot_total mem_mb)) s' \<and>
    ks_pid s' = 0 \<and> p_base (ks_procs s' ! 0) = 0x40000000 \<and> p_size (ks_procs s' ! 0) = boot_size image_size \<and>
    runnable (ks_procs s' ! 0) \<and> (\<forall>p < Z_PROCS_MAX. p \<noteq> 0 \<longrightarrow> p_base (ks_procs s' ! p) = 0 \<and> p_flags (ks_procs s' ! p) = 0) \<and>
    regions (ks_mem s') = snd (ff_alloc True (unat (req_size (boot_size image_size)))
      [(unat Z_MEM_BASE, unat (boot_total mem_mb), False)])"
proof -
  let ?tot = "boot_total mem_mb" let ?hi = "unat Z_MEM_BASE + unat ?tot"
  let ?m = "k_mem_init ?tot (ks_mem s)"
  let ?ps = "map (\<lambda>p. p\<lparr>p_base := 0, p_flags := 0\<rparr>) (ks_procs s)"
  let ?s1 = "s\<lparr>ks_hid := z_hid_init (ks_hid s), ks_mem := ?m, ks_procs := ?ps, ks_reg := k_pidreg_init (ks_reg s)\<rparr>"
  have lens: "length (mem_blocks (ks_mem s)) = 256" "length (ks_procs s) = 16" "length (ks_reg s) = 32" "ks_pid s = 0"
    "mailboxes_ok (ks_mbs s)" using assms(1) by (simp_all add: bootable_def)
  have inv: "mem_inv ?hi ?m" by (rule k_mem_init_inv [OF lens(1) assms(2,3)])
  have reg: "regions ?m = [(unat Z_MEM_BASE, unat ?tot, False)]" by (rule k_mem_init_regions [OF lens(1)])
  obtain r m where a: "k_mem_alloc (boot_size image_size) ?m = Some (r, m)"
    using kmem.alloc_returns [OF inv] by blast
  have cnt: "mem_block_count ?m < Z_MEM_MAX_BLOCKS" using k_mem_init_count [OF lens(1)[simplified]] lens(1) by simp
  have ff: "(map_option unat r, regions m) = ff_alloc True (unat (req_size (boot_size image_size)))
      [(unat Z_MEM_BASE, unat ?tot, False)]"
    using k_mem_alloc_cases(2) [OF inv a] reg cnt by simp
  have "map_option unat r = Some (unat Z_MEM_BASE)"
    using k_mem_alloc_cases(2) [OF inv a] assms(4) reg cnt by (auto split: if_splits)
  then have r: "r = Some Z_MEM_BASE" by (auto simp: word_unat_eq_iff)
  have free: "free_pid 0 ?ps = Some 0"
    using lens(2) by (cases "ks_procs s") auto
  let ?p = "(?ps ! 0)\<lparr>p_base := 0x40000000, p_size := boot_size image_size, p_regs := new_regs 0 (boot_size image_size)\<rparr>"
  let ?s2 = "?s1\<lparr>ks_mem := m, ks_procs := upd_nth 0 (\<lambda>_. ?p) ?ps\<rparr>"
  have create: "k_proc_create image_size Z_PROC_STACK_SIZE_DEFAULT ?s1 = Some (0, ?s2)"
    using a r free by (simp add: k_proc_create_def boot_size_def Let_def upd_nth_def)
  let ?s' = "?s2\<lparr>ks_procs := k_proc_start 0 (ks_procs ?s2)\<rparr>"
  have boot: "k_boot mem_mb image_size s = Some ?s'"
    unfolding k_boot_def Let_def using create by (simp add: boot_total_def [symmetric])
  have procs: "ks_procs ?s' ! p = (if p = 0 then ?p\<lparr>p_flags := 1\<rparr> else (ks_procs s ! p)\<lparr>p_base := 0, p_flags := 0\<rparr>)"
    if "p < 16" for p
    using that lens(2) by (cases p) (simp_all add: k_proc_start_def upd_nth_def)
  have m: "mem_inv ?hi m" by (rule kmem.alloc_inv [OF inv a])
  have live: "live m = (live ?m)(unat Z_MEM_BASE \<mapsto> unat (req_size (boot_size image_size)))"
    using kmem.alloc_new [OF inv a [unfolded r]] by simp
  have "kinv ?hi ?s'"
    unfolding kinv_def owns_def sched_ok_def
    using procs live m lens reg_ok_boot [OF lens(3)]
    by (auto simp: proc_active_def boot_size_def align_up_4096 split: if_splits)
  with boot procs lens ff [symmetric] show ?thesis
    by (auto simp: runnable_def proc_active_def proc_dying_def)
qed

end
