(* ===== verification/System.thy ===== *)
theory System
  imports Kernel
begin

text \<open>
  The kernel from power-on: what the invariant of \<open>Kernel\<close> gives for every state a booted machine
  reaches (\<open>src/sw/os/kernel.c\<close> with \<open>mem.c\<close>, \<open>msg.c\<close>, \<open>pidreg.c\<close>), a concrete machine with two
  processes, and what a slot keeps from its previous owner.
\<close>

section \<open>A machine with two processes\<close>

definition power_on :: kstate where
  "power_on = \<lparr>ks_pid = 0, ks_procs = replicate Z_PROCS_MAX \<lparr>p_base = 0xDEADBEEF, p_size = 0, p_flags = 2, p_regs = []\<rparr>,
     ks_ticks = 0, ks_mem = blank_mem, ks_ram = (\<lambda>_. 0), ks_mtu = 0,
     ks_reg = replicate Z_PIDREG_MAX \<lparr>pe_name = ''x'', pe_pid = 7, pe_active = True\<rparr>,
     ks_mbs = replicate Z_PROCS_MAX empty_mailbox,
     ks_hid = \<lparr>hid_fifo = \<lparr>r_buf = replicate 32 0, r_head = 3, r_tail = 1\<rparr>,
       hid_port0 = \<lparr>hp_modifiers = 0, hp_keys = replicate 4 0\<rparr>, hid_port1 = \<lparr>hp_modifiers = 0, hp_keys = replicate 4 0\<rparr>\<rparr>,
     ks_uart = idle_uart, ks_hw = ready_hw\<rparr>"

lemma power_on_bootable: "bootable power_on"
  using mailboxes_ok_boot by (simp add: bootable_def power_on_def)

text \<open>One megabyte of memory; the kernel's image is 32 KB; one process takes all the rest.\<close>

definition boot_regions :: "region list" where
  "boot_regions = [(0x40000000, 0xC000, True), (0x4000C000, 0xF4000, False)]"

lemma booted:
  obtains s where "k_boot 0 0x8000 power_on = Some s" "kinv 0x40100000 s" "ks_pid s = 0"
    "p_base (ks_procs s ! 0) = 0x40000000" "runnable (ks_procs s ! 0)"
    "\<forall>p < Z_PROCS_MAX. p \<noteq> 0 \<longrightarrow> p_base (ks_procs s ! p) = 0 \<and> p_flags (ks_procs s ! p) = 0"
    "regions (ks_mem s) = boot_regions"
proof -
  have bs: "boot_size 0x8000 = 0xC000" "boot_total 0 = 0x100000" "req_size 0xC000 = 0xC000"
    by (simp_all add: boot_size_def boot_total_def req_size_def k_mem_align_up_def)
  show ?thesis
    using k_boot_kinv [OF power_on_bootable, of 0 "0x8000"] bs that by (auto simp: boot_regions_def)
qed

lemma create_second:
  assumes "kinv 0x40100000 s" "regions (ks_mem s) = boot_regions"
    and "p_base (ks_procs s ! 0) \<noteq> 0" "p_base (ks_procs s ! 1) = 0"
  obtains s1 where "k_proc_create 0xF0000 Z_PROC_STACK_SIZE_DEFAULT s = Some (1, s1)"
    "ks_procs s1 = upd_nth 1 (\<lambda>x. x\<lparr>p_base := 0x4000C000, p_size := 0xF4000, p_regs := new_regs 1 0xF4000\<rparr>) (ks_procs s)"
    "ks_pid s1 = ks_pid s" "p_base (proc s1 1) = 0x4000C000"
proof -
  have inv: "mem_inv 0x40100000 (ks_mem s)" and len: "length (ks_procs s) = 16"
    using assms(1) by (simp_all add: kinv_def sched_ok_def)
  obtain r m where a: "k_mem_alloc 0xF4000 (ks_mem s) = Some (r, m)" using kmem.alloc_returns [OF inv] by blast
  have "req_size 0xF4000 = 0xF4000" by (simp add: req_size_def k_mem_align_up_def)
  then have "map_option unat r = Some 0x4000C000"
    using k_mem_alloc_cases(2) [OF inv a] by (simp add: assms(2) boot_regions_def)
  then have r: "r = Some 0x4000C000" by (auto simp: word_unat_eq_iff)
  obtain x y ys where ps: "ks_procs s = x # y # ys" using len by (cases "ks_procs s"; cases "tl (ks_procs s)") auto
  then have "free_pid 0 (ks_procs s) = Some 1" using assms(3,4) by simp
  with a r that show ?thesis by (simp add: k_proc_create_def k_mem_align_up_def Let_def ps upd_nth_def)
qed

lemma two_processes:
  "\<exists>s s1 s2. k_boot 0 0x8000 power_on = Some s \<and> kinv 0x40100000 s \<and>
     k_proc_create 0xF0000 Z_PROC_STACK_SIZE_DEFAULT s = Some (1, s1) \<and>
     s2 = s1\<lparr>ks_procs := k_proc_start 1 (ks_procs s1)\<rparr> \<and> kstep\<^sup>*\<^sup>* s s2 \<and> kinv 0x40100000 s2 \<and> ks_pid s2 = 0 \<and>
     runnable (ks_procs s2 ! 0) \<and> runnable (ks_procs s2 ! 1) \<and>
     p_base (ks_procs s2 ! 0) = 0x40000000 \<and> p_base (ks_procs s2 ! 1) = 0x4000C000"
proof -
  obtain s where s: "k_boot 0 0x8000 power_on = Some s" "kinv 0x40100000 s" "ks_pid s = 0"
    "p_base (ks_procs s ! 0) = 0x40000000" "runnable (ks_procs s ! 0)"
    "\<forall>p < Z_PROCS_MAX. p \<noteq> 0 \<longrightarrow> p_base (ks_procs s ! p) = 0 \<and> p_flags (ks_procs s ! p) = 0"
    "regions (ks_mem s) = boot_regions" by (rule booted)
  have len: "length (ks_procs s) = 16" using s(2) by (simp add: kinv_def sched_ok_def)
  have "p_base (ks_procs s ! 0) \<noteq> 0" "p_base (ks_procs s ! 1) = 0" using s(4,6) by simp_all
  then obtain s1 where c: "k_proc_create 0xF0000 Z_PROC_STACK_SIZE_DEFAULT s = Some (1, s1)"
    and ps1: "ks_procs s1 = upd_nth 1 (\<lambda>x. x\<lparr>p_base := 0x4000C000, p_size := 0xF4000, p_regs := new_regs 1 0xF4000\<rparr>) (ks_procs s)"
    and pid: "ks_pid s1 = 0" by (rule create_second [OF s(2,7)]) (simp add: s(3))
  let ?s2 = "s1\<lparr>ks_procs := k_proc_start 1 (ks_procs s1)\<rparr>"
  have k1: "kstep s s1" by (rule kstep.create [OF c])
  have k2: "kstep s1 ?s2" by (rule kstep.start) (use ps1 len in simp_all)
  have inv2: "kinv 0x40100000 ?s2" using kstep_kinv [OF k2 kstep_kinv [OF k1 s(2)]] .
  have p0: "ks_procs ?s2 ! 0 = ks_procs s ! 0" using ps1 len by (simp add: k_proc_start_def upd_nth_def)
  have "p_flags (ks_procs ?s2 ! 1) = 1" "p_base (ks_procs ?s2 ! 1) = 0x4000C000"
    using ps1 len s(6) by (simp_all add: k_proc_start_def upd_nth_def)
  then show ?thesis using s c k1 k2 inv2 pid p0 unfolding runnable_def proc_active_def proc_dying_def
    by (intro exI [of _ s] exI [of _ s1] exI [of _ ?s2]) (auto intro: rtranclp.rtrancl_into_rtrancl)
qed

section \<open>Isolation\<close>

lemma kinv_reachable: "kstep\<^sup>*\<^sup>* s s' \<Longrightarrow> kinv hi s \<Longrightarrow> kinv hi s'"
  by (induction rule: rtranclp_induct) (auto intro: kstep_kinv)

lemma aligned_le: "4096 dvd unat (n :: u32) \<Longrightarrow> unat n \<le> 4294963200"
proof -
  assume "4096 dvd unat n"
  then obtain k where k: "unat n = 4096 * k" by (auto simp: dvd_def)
  with unat_lt_32 [of n] have "k \<le> 1048575" by simp
  with k show ?thesis by simp
qed

text \<open>The memory a process may touch through its window.\<close>

definition window :: "z_proc \<Rightarrow> nat set" where
  "window p = {unat (p_base p) ..< unat (p_base p) + unat (p_size p)}"

lemma kinv_window:
  assumes "kinv hi s" "p < Z_PROCS_MAX" "p_base (ks_procs s ! p) \<noteq> 0"
  shows "window (ks_procs s ! p) \<subseteq> {unat Z_MEM_BASE ..< hi} \<and>
    (\<exists>z. live (ks_mem s) (unat (p_base (ks_procs s ! p))) = Some z \<and> unat (p_size (ks_procs s ! p)) \<le> z)"
proof -
  have o: "owns s p" and inv: "mem_inv hi (ks_mem s)" using assms by (simp_all add: kinv_def sched_ok_def)
  then have "unat (p_size (ks_procs s ! p)) \<le> unat (req_size (p_size (ks_procs s ! p)))"
    by (intro req_size_ge aligned_le) (simp add: owns_def)
  with o live_above_base [OF inv, of "unat (p_base (ks_procs s ! p))"] show ?thesis
    by (auto simp: owns_def window_def)
qed

lemma kinv_disjoint:
  assumes "kinv hi s" "p < Z_PROCS_MAX" "q < Z_PROCS_MAX" "p \<noteq> q"
    and "p_base (ks_procs s ! p) \<noteq> 0" "p_base (ks_procs s ! q) \<noteq> 0"
  shows "window (ks_procs s ! p) \<inter> window (ks_procs s ! q) = {}"
proof -
  have inv: "mem_inv hi (ks_mem s)" using assms(1) by (simp add: kinv_def sched_ok_def)
  have ne: "unat (p_base (ks_procs s ! p)) \<noteq> unat (p_base (ks_procs s ! q))"
    using assms by (auto simp: kinv_def word_unat_eq_iff)
  from kinv_window [OF assms(1,2,5)] kinv_window [OF assms(1,3,6)] obtain z w
    where z: "live (ks_mem s) (unat (p_base (ks_procs s ! p))) = Some z" "unat (p_size (ks_procs s ! p)) \<le> z"
      "live (ks_mem s) (unat (p_base (ks_procs s ! q))) = Some w" "unat (p_size (ks_procs s ! q)) \<le> w" by blast
  from kmem.live_disjoint [OF inv z(1,3) ne] z(2,4) show ?thesis
    by (auto simp: window_def)
qed



section \<open>Creating a process\<close>

text \<open>
  Creating a process takes the lowest free slot or fails. In a good state \<open>k_proc_create\<close> returns;
  with every slot taken, or no memory, it answers 0 and no process changes. Otherwise it answers the
  first free slot, whose process gets a fresh block of its own, the rounded size, the entry address,
  a stack pointer at the top of its window and a zero return address there, and is not started: its
  flags are the slot's old ones. Everybody else is left alone.
\<close>

theorem k_proc_create_effect:
  assumes "kinv hi s" "mem_size = k_mem_align_up (sz + stack_size) Z_MEM_ALIGNMENT"
  shows "case k_proc_create sz stack_size s of
      None \<Rightarrow> False
    | Some (pid, s') \<Rightarrow> kinv hi s' \<and>
       (if ks_procs s' = ks_procs s then pid = 0 \<and> ks_ram s' = ks_ram s \<and> live (ks_mem s') = live (ks_mem s)
        else (let q = proc s' pid; base = p_base q in
          p_base (proc s pid) = 0 \<and> (\<forall>i < unat pid. p_base (ks_procs s ! i) \<noteq> 0) \<and>
          q = (proc s pid)\<lparr>p_base := base, p_size := mem_size, p_regs := new_regs (unat pid) mem_size\<rparr> \<and>
          (\<forall>p < Z_PROCS_MAX. p \<noteq> unat pid \<longrightarrow> ks_procs s' ! p = ks_procs s ! p) \<and>
          live (ks_mem s) (unat base) = None \<and>
          live (ks_mem s') = (live (ks_mem s))(unat base \<mapsto> unat (req_size mem_size)) \<and>
          (pid \<noteq> 0 \<longrightarrow> ks_ram s' = (ks_ram s)(base + mem_size - 4 := 0))))"
proof -
  have inv: "mem_inv hi (ks_mem s)" and len: "length (ks_procs s) = Z_PROCS_MAX"
    using assms(1) by (simp_all add: kinv_def sched_ok_def)
  show ?thesis
  proof (cases rule: k_proc_create_cases [OF inv len assms(2), case_names full no_memory created])
    case full
    with assms(1) show ?thesis by simp
  next
    case (no_memory m)
    with kinv_create [OF assms(1) no_memory(1)] show ?thesis by simp
  next
    case (created p base m ram)
    then have "unat (of_nat p :: u32) = p" by (simp add: unat_of_nat)
    moreover have ne: "upd_nth p (\<lambda>x. x\<lparr>p_base := base, p_size := mem_size, p_regs := new_regs p mem_size\<rparr>) (ks_procs s)
        \<noteq> ks_procs s" (is "?ps \<noteq> _")
    proof
      assume "?ps = ks_procs s"
      then have "p_base (?ps ! p) = p_base (ks_procs s ! p)" by simp
      with created(2,3,5) len show False by (simp add: upd_nth_def)
    qed
    ultimately show ?thesis
      using created len kinv_create [OF assms(1) created(1)]
      by (auto simp: Let_def)
  qed
qed

theorem k_proc_create_effect_witness:
  "\<exists>s s1. kinv 0x40100000 s \<and> k_proc_create 0xF0000 0x4000 s = Some (1, s1) \<and> ks_procs s1 \<noteq> ks_procs s \<and>
     live (ks_mem s1) (unat (p_base (proc s1 1))) = Some 0xF4000"
proof -
  obtain s s1 where s: "kinv 0x40100000 s" "k_proc_create 0xF0000 Z_PROC_STACK_SIZE_DEFAULT s = Some (1, s1)"
    using two_processes by metis
  have "req_size (k_mem_align_up (0xF0000 + Z_PROC_STACK_SIZE_DEFAULT) Z_MEM_ALIGNMENT) = 0xF4000"
    by (simp add: req_size_def k_mem_align_up_def)
  with k_proc_create_effect [OF s(1) refl, of "0xF0000" Z_PROC_STACK_SIZE_DEFAULT] s show ?thesis
    by (intro exI [of _ s] exI [of _ s1]) (auto simp: Let_def split: if_splits)
qed

section \<open>The scheduler on the machine with two processes\<close>

theorem k_timer_round_robin_witness:
  "\<forall>regs inp. \<exists>s s'. sched_ok 0x40100000 s \<and> next_dist s = Some 1 \<and>
     k_interrupt 8 regs inp s = Some (p_regs (ks_procs s ! 1), s') \<and> unat (ks_pid s') = 1"
  (is "\<forall>regs inp. ?P regs inp")
proof (intro allI)
  fix regs :: "u32 list" and inp :: irq_in
  obtain s where s: "kinv 0x40100000 s" "ks_pid s = 0" "runnable (ks_procs s ! 0)" "runnable (ks_procs s ! 1)"
    using two_processes by metis
  then have ok: "sched_ok 0x40100000 s" by (simp add: kinv_def)
  have "k_proc_active_count (ks_procs s) \<ge> 2" by (rule active_count_ge [where p = 0 and q = 1]) (use s in simp_all)
  moreover have "next_dist s = Some 1" using s by (simp add: next_dist_def slot_after_def upt_rec)
  moreover have "bit (8 :: u32) Z_IRQ_KTIMER" by simp
  ultimately show "?P regs inp"
    using k_timer_round_robin [OF ok, of 8 regs inp] ok s(2) by (auto simp: slot_after_def)
qed

theorem round_robin_fair_witness:
  "\<forall>regs inp. \<exists>s pids s'. sched_ok 0x40100000 s \<and> ks_pid s = 0 \<and>
     timer_run (replicate 16 (8, regs, inp)) s = Some (pids, s') \<and> 1 \<in> unat ` set pids"
  (is "\<forall>regs inp. ?P regs inp")
proof (intro allI)
  fix regs :: "u32 list" and inp :: irq_in
  obtain s where s: "kinv 0x40100000 s" "ks_pid s = 0" "runnable (ks_procs s ! 0)" "runnable (ks_procs s ! 1)"
    using two_processes by metis
  then have ok: "sched_ok 0x40100000 s" by (simp add: kinv_def)
  have "\<forall>(irqs, _) \<in> set (replicate 16 (8 :: u32, regs, inp)). bit irqs Z_IRQ_KTIMER" by simp
  with round_robin_fair [OF ok, of 1 0] s(2-4) ok show "?P regs inp" by fastforce
qed

section \<open>What a slot keeps from its past\<close>

lemma only_current:
  assumes "sched_ok hi s" "runnable (proc s (ks_pid s))"
    and "\<forall>p < Z_PROCS_MAX. p \<noteq> unat (ks_pid s) \<longrightarrow> \<not> runnable (ks_procs s ! p)"
  shows "next_dist s = Some 16"
proof -
  have pid: "unat (ks_pid s) < Z_PROCS_MAX" using assms(1) by (simp add: sched_ok_def)
  have "runnable (ks_procs s ! slot_after s 16)" using assms(2) pid by (simp add: slot_after_def)
  then obtain e where e: "next_dist s = Some e" "e \<le> 16" using next_dist_le [of 16 s] by auto
  then have ne: "1 \<le> e" "runnable (ks_procs s ! slot_after s e)" using next_dist_Some by blast+
  have "e = 16"
  proof (rule ccontr)
    assume "e \<noteq> 16"
    with ne e(2) mod_slots_neq [of e "unat (ks_pid s)"] pid have "slot_after s e \<noteq> unat (ks_pid s)"
      by (simp add: slot_after_def)
    with assms(3) ne(2) show False by (simp add: slot_after_def)
  qed
  with e(1) show ?thesis by simp
qed

lemma create_in_slot:
  assumes "kinv hi s" "k_proc_create sz stack_size s = Some (pid, s')" "p_base (proc s pid) = 0" "p_base (proc s' pid) \<noteq> 0"
  obtains base where "ks_procs s' = upd_nth (unat pid) (\<lambda>x. x\<lparr>p_base := base,
    p_size := k_mem_align_up (sz + stack_size) Z_MEM_ALIGNMENT,
    p_regs := new_regs (unat pid) (k_mem_align_up (sz + stack_size) Z_MEM_ALIGNMENT)\<rparr>) (ks_procs s)"
proof -
  have inv: "mem_inv hi (ks_mem s)" and len: "length (ks_procs s) = Z_PROCS_MAX"
    using assms(1) by (simp_all add: kinv_def sched_ok_def)
  show ?thesis
  proof (cases rule: k_proc_create_cases [OF inv len refl, of sz stack_size, case_names full no_memory created])
    case full
    with assms show ?thesis by simp
  next
    case (no_memory m)
    with assms show ?thesis by auto
  next
    case (created p base m ram)
    then have "unat (of_nat p :: u32) = p" "pid = of_nat p" using assms(2) by (simp_all add: unat_of_nat)
    with created(1) assms(2) show ?thesis by (intro that [of base]) auto
  qed
qed

lemma two_active:
  assumes "p < Z_PROCS_MAX" "q < Z_PROCS_MAX" "p \<noteq> q" "proc_active (ps ! p)" "proc_active (ps ! q)"
  shows "k_proc_active_count ps \<ge> 2"
proof -
  have "{p, q} \<subseteq> {i. i < 16 \<and> proc_active (ps ! i)}" using assms by auto
  then have "card {p, q} \<le> card {i. i < 16 \<and> proc_active (ps ! i)}"
    by (intro card_mono) simp_all
  moreover have "k_proc_active_count ps = card {i. i < 16 \<and> proc_active (ps ! i)}"
    unfolding k_proc_active_count_def by (subst distinct_card [symmetric]) (auto intro!: arg_cong [where f = card])
  ultimately show ?thesis using assms(3) by simp
qed

lemma passed_full_turn:
  assumes "p \<noteq> pid" "p < Z_PROCS_MAX" "pid < Z_PROCS_MAX" "proc_dying (ps ! p)"
  shows "p \<in> passed pid 16 ps"
proof -
  have "\<exists>j. 1 \<le> j \<and> j < 16 \<and> p = (pid + j) mod 16"
    using assms(1-3) by (intro exI [of _ "(p + 16 - pid) mod 16"]) (simp add: mod_if; arith)
  with assms(4) show ?thesis by (auto simp: passed_def)
qed

text \<open>
  Killing a slot nobody uses kills the next process put into it. \<open>k_proc_kill\<close> accepts an empty
  slot and sets its death mark, and \<open>k_proc_create\<close> does not reset the flags: the process created
  there and started is marked from its first moment, and if nobody but the caller can run, the
  very next timer interrupt returns to the caller having buried it, memory and all.
\<close>

theorem kill_of_empty_slot_sticks:
  assumes "kinv hi s" "runnable (proc s (ks_pid s))" "p_base (proc s pid) = 0" "unat pid < Z_PROCS_MAX"
    and "\<forall>p < Z_PROCS_MAX. p \<noteq> unat (ks_pid s) \<longrightarrow> \<not> runnable (ks_procs s ! p)"
    and "k_proc_kill pid (ks_procs s) = (Z_OK, ps)" "s1 = s\<lparr>ks_procs := ps\<rparr>"
    and "k_proc_create sz stack_size s1 = Some (pid, s2)" "p_base (proc s2 pid) \<noteq> 0"
    and "s3 = s2\<lparr>ks_procs := k_proc_start pid (ks_procs s2)\<rparr>" "bit irqs Z_IRQ_KTIMER"
  shows "\<exists>s4. k_interrupt irqs regs inp s3 = Some (regs, s4) \<and> ks_pid s4 = ks_pid s \<and>
    p_base (proc s3 pid) \<noteq> 0 \<and> live (ks_mem s3) (unat (p_base (proc s3 pid))) \<noteq> None \<and>
    p_base (proc s4 pid) = 0 \<and> live (ks_mem s4) (unat (p_base (proc s3 pid))) = None"
proof -
  have len: "length (ks_procs s) = Z_PROCS_MAX" "unat (ks_pid s) < Z_PROCS_MAX"
    and cur: "p_base (proc s (ks_pid s)) \<noteq> 0" using assms(1) by (simp_all add: kinv_def sched_ok_def)
  have ps: "ps = upd_nth (unat pid) (\<lambda>p. p\<lparr>p_flags := p_flags p OR Z_PROC_FLAG_DIE\<rparr>) (ks_procs s)"
    using assms(4,6) by (simp add: k_proc_kill_def)
  have "s1 = snd (k_proc_kill_syscall (Some (Z_UINT32, pid)) s)"
    using assms(6,7) by (simp add: k_proc_kill_syscall_def)
  then have k1: "kinv hi s1" using kstep_kinv [OF kstep.kill assms(1)] by simp
  have k2: "kinv hi s2" "ks_pid s2 = ks_pid s" using kinv_create [OF k1 assms(8)] assms(7) by simp_all
  then have k3: "kinv hi s3" unfolding assms(10)
    using kstep_kinv [OF kstep.start [OF assms(4,9)]] by simp
  have ne: "unat (ks_pid s) \<noteq> unat pid" using cur assms(3) by auto
  have b1: "p_base (proc s1 pid) = 0" using assms(3,4,7) ps len by simp
  obtain base where q: "ks_procs s2 = upd_nth (unat pid) (\<lambda>x. x\<lparr>p_base := base,
      p_size := k_mem_align_up (sz + stack_size) Z_MEM_ALIGNMENT,
      p_regs := new_regs (unat pid) (k_mem_align_up (sz + stack_size) Z_MEM_ALIGNMENT)\<rparr>) (ks_procs s1)"
    by (rule create_in_slot [OF k1 assms(8) b1 assms(9)])
  have other: "ks_procs s3 ! p = ks_procs s ! p" if "p \<noteq> unat pid" for p
    using that q ps by (simp add: assms(7,10) k_proc_start_def)
  have new: "p_flags (proc s3 pid) = (p_flags (proc s pid) OR Z_PROC_FLAG_DIE) OR Z_PROC_FLAG_ACTIVE"
    using q ps assms(4) len by (simp add: assms(7,10) k_proc_start_def)
  have dying: "proc_dying (proc s3 pid)" "proc_active (proc s3 pid)"
    by (simp_all add: proc_dying_def proc_active_def new flag_bits)
  have pid3: "ks_pid s3 = ks_pid s" using k2(2) assms(10) by simp
  have ok: "sched_ok hi s3" using k3 by (simp add: kinv_def)
  have none: "\<forall>p < Z_PROCS_MAX. p \<noteq> unat (ks_pid s3) \<longrightarrow> \<not> runnable (ks_procs s3 ! p)"
    using assms(5) other dying(1) pid3 by (metis runnable_def)
  have run3: "runnable (proc s3 (ks_pid s3))" using assms(2) other [OF ne] pid3 by simp
  have d: "next_dist s3 = Some 16" by (rule only_current [OF ok run3 none])
  have cnt: "k_proc_active_count (ks_procs s3) \<ge> 2"
    by (rule two_active [OF len(2) assms(4) ne]) (use run3 dying(2) pid3 in \<open>simp_all add: runnable_def\<close>)
  have sa: "slot_after s3 16 = unat (ks_pid s3)" using len(2) pid3 by (simp add: slot_after_def)
  obtain s4 where s4: "k_interrupt irqs regs inp s3 = Some (regs, s4)" "unat (ks_pid s4) = unat (ks_pid s3)"
    "buries (passed (unat (ks_pid s3)) 16 (ks_procs s3)) (timer_entry irqs regs inp s3) s4"
    using k_timer_round_robin_aux [OF ok assms(11) cnt, of regs inp] d sa by auto
  have mem: "unat pid \<in> passed (unat (ks_pid s3)) 16 (ks_procs s3)"
    using passed_full_turn [of "unat pid" "unat (ks_pid s3)"] ne assms(4) len(2) pid3 dying(1) by simp
  have same: "p_base (ks_procs (timer_entry irqs regs inp s3) ! p) = p_base (ks_procs s3 ! p)" if "p < 16" for p
    using timer_entry_procs [OF ok that] by simp
  have "p_base (proc s4 pid) = 0" "live (ks_mem s4) (unat (p_base (proc s3 pid))) = None"
    using s4(3) mem assms(4) same [OF assms(4)] by (force simp: buries_def buried_def)+
  moreover have "p_base (proc s3 pid) \<noteq> 0" "live (ks_mem s3) (unat (p_base (proc s3 pid))) \<noteq> None"
  proof -
    show "p_base (proc s3 pid) \<noteq> 0" using assms(4,9) k2 by (simp add: assms(10) k_proc_start_def kinv_def sched_ok_def)
    with k3 assms(4) show "live (ks_mem s3) (unat (p_base (proc s3 pid))) \<noteq> None" by (simp add: kinv_def owns_def)
  qed
  ultimately show ?thesis using s4(1,2) pid3 by (auto simp: word_unat_eq_iff)
qed

text \<open>
  Burying a process leaves its mailbox as it is, and a process created in the freed slot inherits
  it: whatever had been sent to the dead process is still queued, in order, for the new one, and its
  first read hands it over.
\<close>

theorem reused_slot_inherits_mail:
  assumes "kinv hi s" "unat pid < Z_PROCS_MAX" "mb_contents (ks_mbs s ! unat pid) = env # rest"
    and "bury pid s = Some s1" "k_proc_create sz stack_size s1 = Some (pid, s2)"
    and "s3 = s2\<lparr>ks_procs := k_proc_start pid (ks_procs s2)\<rparr>"
  shows "mb_contents (ks_mbs s3 ! unat pid) = env # rest \<and>
    (\<exists>mbs. z_mailbox_pop pid (ks_mbs s3) = (Some env, mbs) \<and> mb_contents (mbs ! unat pid) = rest)"
proof -
  have ok: "sched_ok hi s" and mb: "mailboxes_ok (ks_mbs s)" using assms(1) by (simp_all add: kinv_def)
  obtain s1' where "bury pid s = Some s1'" "sched_ok hi s1'" "buries {unat pid} s s1'"
    using bury_buries [OF ok assms(2)] by blast
  then have s1: "sched_ok hi s1" "ks_mbs s1 = ks_mbs s"
    using assms(4) by (simp_all add: buries_def same_rest_def)
  then have inv: "mem_inv hi (ks_mem s1)" "length (ks_procs s1) = Z_PROCS_MAX" by (simp_all add: sched_ok_def)
  have "ks_mbs s3 = ks_mbs s1"
    using assms(5,6)
    by (cases rule: k_proc_create_cases [OF inv refl, of sz stack_size, case_names full no_memory created]) auto
  with s1 have s3: "ks_mbs s3 = ks_mbs s" by simp
  obtain got mbs where pop: "z_mailbox_pop pid (ks_mbs s) = (got, mbs)" by fastforce
  from z_mailbox_pop_cases [OF mb assms(2) pop] assms(2,3) mb show ?thesis
    by (auto simp: s3 pop mailboxes_ok_def)
qed

text \<open>A machine whose process 1 has a letter waiting when it dies.\<close>

definition one_letter :: "z_mailbox list" where
  "one_letter = (replicate 16 empty_mailbox)[1 := empty_mailbox\<lparr>
     mb_msgs := (mb_msgs empty_mailbox)[0 := sample_env], mb_tail := 1, mb_count := 1\<rparr>]"

lemma one_letter_ok: "mailboxes_ok one_letter" "mb_contents (one_letter ! 1) = [sample_env]"
  unfolding one_letter_def
  by (rule mailboxes_ok_update [OF mailboxes_ok_boot])
    (simp_all add: mb_inv_def mb_contents_def ring_list_def empty_mailbox_def)

theorem kill_of_empty_slot_sticks_witness:
  "\<forall>regs inp. \<exists>s s2 s4. kinv 0x40100000 s \<and>
     k_proc_create 0xF0000 0x4000 (s\<lparr>ks_procs := snd (k_proc_kill 1 (ks_procs s))\<rparr>) = Some (1, s2) \<and>
     k_interrupt 8 regs inp (s2\<lparr>ks_procs := k_proc_start 1 (ks_procs s2)\<rparr>) = Some (regs, s4) \<and>
     p_base (proc s4 1) = 0"
  (is "\<forall>regs inp. ?P regs inp")
proof (intro allI)
  fix regs :: "u32 list" and inp :: irq_in
  obtain s where s: "kinv 0x40100000 s" "ks_pid s = 0"
    "p_base (ks_procs s ! 0) = 0x40000000" "runnable (ks_procs s ! 0)"
    "\<forall>p < Z_PROCS_MAX. p \<noteq> 0 \<longrightarrow> p_base (ks_procs s ! p) = 0 \<and> p_flags (ks_procs s ! p) = 0"
    "regions (ks_mem s) = boot_regions" by (rule booted)
  have len: "length (ks_procs s) = 16" using s(1) by (simp add: kinv_def sched_ok_def)
  let ?s1 = "s\<lparr>ks_procs := snd (k_proc_kill 1 (ks_procs s))\<rparr>"
  have "kinv 0x40100000 ?s1"
    using kstep_kinv [OF kstep.kill s(1), of "Some (Z_UINT32, 1)"] by (simp add: k_proc_kill_syscall_def k_proc_kill_def)
  then obtain s2 where c: "k_proc_create 0xF0000 Z_PROC_STACK_SIZE_DEFAULT ?s1 = Some (1, s2)"
    and b: "p_base (proc s2 1) = 0x4000C000"
    by (rule create_second) (use s len in \<open>simp_all add: k_proc_kill_def\<close>)
  have idle: "\<forall>p < Z_PROCS_MAX. p \<noteq> unat (ks_pid s) \<longrightarrow> \<not> runnable (ks_procs s ! p)"
    using s(2,5) by (simp add: runnable_def proc_active_def)
  have "k_proc_kill 1 (ks_procs s) = (Z_OK, snd (k_proc_kill 1 (ks_procs s)))" by (simp add: k_proc_kill_def)
  from kill_of_empty_slot_sticks [OF s(1) _ _ _ idle this refl c _ refl, of 8 regs inp] s b c show "?P regs inp" by auto
qed

theorem reused_slot_inherits_mail_witness:
  "\<exists>s s1 s2. kinv 0x40100000 s \<and> bury 1 s = Some s1 \<and> k_proc_create 0xF0000 0x4000 s1 = Some (1, s2) \<and>
     mb_contents (ks_mbs s2 ! 1) = [sample_env]"
proof -
  obtain s0 where s0: "kinv 0x40100000 s0" "ks_pid s0 = 0"
    "p_base (ks_procs s0 ! 0) = 0x40000000" "runnable (ks_procs s0 ! 0)"
    "\<forall>p < Z_PROCS_MAX. p \<noteq> 0 \<longrightarrow> p_base (ks_procs s0 ! p) = 0 \<and> p_flags (ks_procs s0 ! p) = 0"
    "regions (ks_mem s0) = boot_regions" by (rule booted)
  let ?s = "s0\<lparr>ks_mbs := one_letter\<rparr>"
  have inv: "kinv 0x40100000 ?s" by (rule kinv_flags [OF s0(1)]) (use s0(1) one_letter_ok in \<open>simp_all add: kinv_def\<close>)
  then have ok: "sched_ok 0x40100000 ?s" by (simp add: kinv_def)
  obtain s1 where s1: "bury 1 ?s = Some s1" "ks_pid s1 = 0" "sched_ok 0x40100000 s1" "buries {1} ?s s1"
    using bury_buries [OF ok, of 1] s0(2) by auto
  have m0: "k_mem_free 0 (ks_mem s0) = Some (ks_mem s1)"
    using s1(1) s0(5) by (auto simp: bury_def split: Option.bind_splits)
  have "mem_inv 0x40100000 (ks_mem s0)" using s0(1) by (simp add: kinv_def sched_ok_def)
  from k_mem_free_cases(2) [OF this m0] have rs: "regions (ks_mem s1) = boot_regions"
    by (simp add: s0(6) boot_regions_def ff_free_def join_next_def)
  have p1: "ks_procs s1 ! 0 = ks_procs s0 ! 0" "p_base (ks_procs s1 ! 1) = 0" "length (ks_procs s1) = length (ks_procs s0)"
    using s1(4) by (simp_all add: buries_def buried_def)
  have "kinv 0x40100000 s1"
    by (rule kinv_buries [OF inv s1(4) _ s1(3)]) (use s1(2) s0(3) in simp_all)
  then obtain s2 where c: "k_proc_create 0xF0000 Z_PROC_STACK_SIZE_DEFAULT s1 = Some (1, s2)"
    by (rule create_second) (use rs p1 s0(3) in simp_all)
  from reused_slot_inherits_mail [OF inv _ _ s1(1) c refl, of sample_env "[]"] one_letter_ok inv s1(1) c
  show ?thesis by (intro exI [of _ ?s] exI [of _ s1] exI [of _ s2]) simp
qed

end
