(* ===== verification/Stream.thy ===== *)
theory Stream
  imports Prelude
begin

text \<open>
  Streams over messages (\<open>src/sw/common/zstream.c\<close>, \<open>zstream.h\<close>): a producer that answers pulls with
  chunks, a consumer that pulls them, both fed the messages their callers read; and the blocking
  consumer calls. A chunk's bytes stay in the producer's heap until the next pull shows that the
  consumer has them.
\<close>

section \<open>Messages, heap, state\<close>

abbreviation Z_STREAM_OPEN :: u32 where "Z_STREAM_OPEN \<equiv> 400"
abbreviation Z_STREAM_OPEN_REPLY :: u32 where "Z_STREAM_OPEN_REPLY \<equiv> 401"
abbreviation Z_STREAM_PULL :: u32 where "Z_STREAM_PULL \<equiv> 402"
abbreviation Z_STREAM_CHUNK :: u32 where "Z_STREAM_CHUNK \<equiv> 403"
abbreviation Z_STREAM_EOF :: u32 where "Z_STREAM_EOF \<equiv> 404"
abbreviation Z_STREAM_ERROR :: u32 where "Z_STREAM_ERROR \<equiv> 405"
abbreviation Z_STREAM_ABORT :: u32 where "Z_STREAM_ABORT \<equiv> 406"
abbreviation ZSTREAM_TIMEOUT_TICKS :: u32 where "ZSTREAM_TIMEOUT_TICKS \<equiv> 3 * 732"
abbreviation UINT32_MAX :: u32 where "UINT32_MAX \<equiv> 0xFFFFFFFF"

text \<open>A blob is known by its address in the producer's heap; a string may be a null pointer.\<close>

datatype sobj = SNone | SUint u32 | SStr "string option" | SBlob nat | SOther

record smsg =
  sm_to :: u32
  sm_subject :: u32
  sm_tag :: u32
  sm_obj :: sobj

text \<open>The heap: the number of the next allocation, which allocations succeed, and what is stored where.\<close>

record blobs =
  bl_next :: nat
  bl_ok :: "nat \<Rightarrow> bool"
  bl_data :: "nat \<Rightarrow> u8 list option"

definition z_obj_blob :: "u8 list \<Rightarrow> blobs \<Rightarrow> sobj \<times> blobs" where
  "z_obj_blob data h =
     (if bl_ok h (bl_next h) then (SBlob (bl_next h), h\<lparr>bl_next := Suc (bl_next h), bl_data := (bl_data h)(bl_next h \<mapsto> data)\<rparr>)
      else (SNone, h\<lparr>bl_next := Suc (bl_next h)\<rparr>))"

primrec free_chunk :: "sobj \<Rightarrow> blobs \<Rightarrow> blobs" where
  "free_chunk (SBlob a) h = h\<lparr>bl_data := (bl_data h)(a := None)\<rparr>"
| "free_chunk SNone h = h"
| "free_chunk (SUint u) h = h"
| "free_chunk (SStr s) h = h"
| "free_chunk SOther h = h"

record zstream_producer =
  sp_stream_id :: u32
  sp_consumer_pid :: u32
  sp_seq :: u32
  sp_active :: bool
  sp_last_chunk :: sobj

record zstream_consumer =
  sc_stream_id :: u32
  sc_producer_pid :: u32
  sc_seq :: u32
  sc_active :: bool
  sc_open_tag :: u32

definition ZSTREAM_TAG :: "u32 \<Rightarrow> u32 \<Rightarrow> u32" where
  "ZSTREAM_TAG stream_id seq = push_bit 16 (stream_id AND 0xFFFF) OR (seq AND 0xFFFF)"

definition ZSTREAM_TAG_STREAM_ID :: "u32 \<Rightarrow> u32" where
  "ZSTREAM_TAG_STREAM_ID tag = drop_bit 16 tag AND 0xFFFF"

definition ZSTREAM_TAG_SEQ :: "u32 \<Rightarrow> u32" where
  "ZSTREAM_TAG_SEQ tag = tag AND 0xFFFF"

definition z_msg_new :: "u32 \<Rightarrow> u32 \<Rightarrow> u32 \<Rightarrow> sobj \<Rightarrow> smsg" where
  "z_msg_new to subject tag obj = \<lparr>sm_to = to, sm_subject = subject, sm_tag = tag, sm_obj = obj\<rparr>"

text \<open>What ends up in the caller's error buffer, if it gave one.\<close>

definition set_err :: "u32 \<Rightarrow> string \<Rightarrow> string option" where
  "set_err err_len msg = (if err_len = 0 then None else Some (take (unat (err_len - 1)) msg))"

section \<open>Producer\<close>

definition next_seq :: "zstream_producer \<Rightarrow> u32" where
  "next_seq st = (if sp_seq st = UINT32_MAX then 0 else sp_seq st + 1)"

text \<open>\<open>next_stream_id\<close> is a counter of the library that skips zero.\<close>

definition zstream_accept :: "u32 \<Rightarrow> u32 \<Rightarrow> u32 \<Rightarrow> zstream_producer \<times> u32 \<times> smsg list" where
  "zstream_accept consumer_pid open_tag next_stream_id =
     (let nxt = next_stream_id + 1 in
      (\<lparr>sp_stream_id = next_stream_id, sp_consumer_pid = consumer_pid, sp_seq = UINT32_MAX,
        sp_active = True, sp_last_chunk = SNone\<rparr>,
       if nxt = 0 then 1 else nxt,
       [z_msg_new consumer_pid Z_STREAM_OPEN_REPLY open_tag (SUint next_stream_id)]))"

definition zstream_reject :: "u32 \<Rightarrow> u32 \<Rightarrow> string \<Rightarrow> smsg list" where
  "zstream_reject consumer_pid open_tag err =
     [z_msg_new consumer_pid Z_STREAM_OPEN_REPLY open_tag (SStr (Some err))]"

datatype zstream_event = EVENT_NONE | EVENT_PULL | EVENT_ABORT

definition zstream_producer_handle ::
  "zstream_producer \<Rightarrow> smsg \<Rightarrow> blobs \<Rightarrow> zstream_event \<times> zstream_producer \<times> blobs \<times> smsg list" where
  "zstream_producer_handle st msg h =
     (if \<not> sp_active st then (EVENT_NONE, st, h, [])
      else if ZSTREAM_TAG_STREAM_ID (sm_tag msg) \<noteq> sp_stream_id st AND 0xFFFF then (EVENT_NONE, st, h, [])
      else if sm_subject msg = Z_STREAM_ABORT then (EVENT_ABORT, st, h, [])
      else if sm_subject msg \<noteq> Z_STREAM_PULL then (EVENT_NONE, st, h, [])
      else
        let seq = ZSTREAM_TAG_SEQ (sm_tag msg) in
        if seq = next_seq st then (EVENT_PULL, st\<lparr>sp_last_chunk := SNone\<rparr>, free_chunk (sp_last_chunk st) h, [])
        else if sp_seq st \<noteq> UINT32_MAX \<and> seq = sp_seq st then
          (EVENT_NONE, st, h,
           [z_msg_new (sp_consumer_pid st) Z_STREAM_CHUNK (ZSTREAM_TAG (sp_stream_id st) (sp_seq st)) (sp_last_chunk st)])
        else (EVENT_NONE, st, h, []))"

definition zstream_send_chunk ::
  "zstream_producer \<Rightarrow> u8 list \<Rightarrow> blobs \<Rightarrow> zstream_producer \<times> blobs \<times> smsg list" where
  "zstream_send_chunk st data h =
     (let seq = next_seq st; (chunk, h) = z_obj_blob data h in
      (st\<lparr>sp_last_chunk := chunk, sp_seq := seq\<rparr>, h,
       [z_msg_new (sp_consumer_pid st) Z_STREAM_CHUNK (ZSTREAM_TAG (sp_stream_id st) seq) chunk]))"

definition zstream_send_eof :: "zstream_producer \<Rightarrow> blobs \<Rightarrow> zstream_producer \<times> blobs \<times> smsg list" where
  "zstream_send_eof st h =
     (let h = free_chunk (sp_last_chunk st) h; seq = next_seq st in
      (st\<lparr>sp_last_chunk := SNone, sp_seq := seq\<rparr>, h,
       [z_msg_new (sp_consumer_pid st) Z_STREAM_EOF (ZSTREAM_TAG (sp_stream_id st) seq) SNone]))"

definition zstream_send_error ::
  "zstream_producer \<Rightarrow> string \<Rightarrow> blobs \<Rightarrow> zstream_producer \<times> blobs \<times> smsg list" where
  "zstream_send_error st msg h =
     (let h = free_chunk (sp_last_chunk st) h; seq = next_seq st in
      (st\<lparr>sp_last_chunk := SNone, sp_seq := seq\<rparr>, h,
       [z_msg_new (sp_consumer_pid st) Z_STREAM_ERROR (ZSTREAM_TAG (sp_stream_id st) seq) (SStr (Some msg))]))"

definition zstream_producer_close :: "zstream_producer \<Rightarrow> blobs \<Rightarrow> zstream_producer \<times> blobs" where
  "zstream_producer_close st h = (st\<lparr>sp_active := False\<rparr>, free_chunk (sp_last_chunk st) h)"

section \<open>Consumer\<close>

text \<open>
  The result of a call that may fill the error buffer: the text, when one is set, and the chunk, when
  one came.
\<close>

definition zstream_open_async :: "u32 \<Rightarrow> sobj \<Rightarrow> u32 \<Rightarrow> zstream_consumer \<times> u32 \<times> smsg list" where
  "zstream_open_async producer_pid open_payload next_open_tag =
     (let nxt = next_open_tag + 1 in
      (\<lparr>sc_stream_id = 0, sc_producer_pid = producer_pid, sc_seq = 0, sc_active = False, sc_open_tag = next_open_tag\<rparr>,
       if nxt = 0 then 1 else nxt,
       [z_msg_new producer_pid Z_STREAM_OPEN next_open_tag open_payload]))"

definition zstream_pull_async :: "zstream_consumer \<Rightarrow> smsg list" where
  "zstream_pull_async st =
     (if \<not> sc_active st then []
      else [z_msg_new (sc_producer_pid st) Z_STREAM_PULL (ZSTREAM_TAG (sc_stream_id st) (sc_seq st)) SNone])"

definition zstream_abort :: "zstream_consumer \<Rightarrow> zstream_consumer \<times> smsg list" where
  "zstream_abort st =
     (if \<not> sc_active st then (st, [])
      else (st\<lparr>sc_active := False\<rparr>,
        [z_msg_new (sc_producer_pid st) Z_STREAM_ABORT (ZSTREAM_TAG (sc_stream_id st) (sc_seq st)) SNone]))"

datatype zstream_consumer_event =
  CEVENT_NONE | CEVENT_OPENED | CEVENT_OPEN_FAILED | CEVENT_CHUNK | CEVENT_EOF | CEVENT_ERROR

definition error_text :: "u32 \<Rightarrow> sobj \<Rightarrow> string option" where
  "error_text err_len obj =
     (case obj of SStr (Some s) \<Rightarrow> set_err err_len s | _ \<Rightarrow> set_err err_len ''producer reported an error'')"

definition zstream_consumer_handle ::
  "u32 \<Rightarrow> zstream_consumer \<Rightarrow> smsg \<Rightarrow> zstream_consumer_event \<times> zstream_consumer \<times> nat option \<times> string option" where
  "zstream_consumer_handle err_len st msg =
     (if \<not> sc_active st \<and> sc_stream_id st = 0 then
        (if sm_subject msg \<noteq> Z_STREAM_OPEN_REPLY \<or> sm_tag msg \<noteq> sc_open_tag st then (CEVENT_NONE, st, None, None)
         else case sm_obj msg of
             SUint u \<Rightarrow> (CEVENT_OPENED, st\<lparr>sc_stream_id := u, sc_seq := 0, sc_active := True\<rparr>, None, None)
           | SStr (Some s) \<Rightarrow> (CEVENT_OPEN_FAILED, st, None, set_err err_len s)
           | _ \<Rightarrow> (CEVENT_OPEN_FAILED, st, None, set_err err_len ''malformed open reply''))
      else if \<not> sc_active st then (CEVENT_NONE, st, None, None)
      else if sm_tag msg \<noteq> ZSTREAM_TAG (sc_stream_id st) (sc_seq st) then (CEVENT_NONE, st, None, None)
      else if sm_subject msg = Z_STREAM_CHUNK then
        (case sm_obj msg of
           SBlob a \<Rightarrow> (CEVENT_CHUNK, st\<lparr>sc_seq := sc_seq st + 1\<rparr>, Some a, None)
         | _ \<Rightarrow> (CEVENT_ERROR, st\<lparr>sc_active := False\<rparr>, None, set_err err_len ''malformed chunk (not a blob)''))
      else if sm_subject msg = Z_STREAM_EOF then (CEVENT_EOF, st\<lparr>sc_active := False\<rparr>, None, None)
      else if sm_subject msg = Z_STREAM_ERROR then
        (CEVENT_ERROR, st\<lparr>sc_active := False\<rparr>, None, error_text err_len (sm_obj msg))
      else (CEVENT_NONE, st, None, None))"

section \<open>Blocking consumer calls\<close>

text \<open>
  A blocking call looks at the clock and then polls its mailbox, over and over: the list gives what it
  sees each time. It has not returned when the list ends before it does.
\<close>

type_synonym polls = "(u32 \<times> smsg option) list"

fun open_wait ::
  "u32 \<Rightarrow> u32 \<Rightarrow> u32 \<Rightarrow> zstream_consumer \<Rightarrow> polls \<Rightarrow> (bool \<times> zstream_consumer \<times> string option) option" where
  "open_wait start open_tag err_len st [] = None"
| "open_wait start open_tag err_len st ((now, got) # ps) =
     (if now - start < ZSTREAM_TIMEOUT_TICKS then
        (case got of
           None \<Rightarrow> open_wait start open_tag err_len st ps
         | Some reply \<Rightarrow>
             if sm_subject reply \<noteq> Z_STREAM_OPEN_REPLY \<or> sm_tag reply \<noteq> open_tag then
               open_wait start open_tag err_len st ps
             else (case sm_obj reply of
                 SUint u \<Rightarrow> Some (True, st\<lparr>sc_stream_id := u, sc_seq := 0, sc_active := True\<rparr>, None)
               | SStr (Some s) \<Rightarrow> Some (False, st, set_err err_len s)
               | _ \<Rightarrow> Some (False, st, set_err err_len ''malformed open reply'')))
      else Some (False, st, set_err err_len ''timed out waiting to open stream''))"

definition zstream_open ::
  "u32 \<Rightarrow> sobj \<Rightarrow> u32 \<Rightarrow> u32 \<Rightarrow> u32 \<Rightarrow> polls \<Rightarrow>
   (bool \<times> zstream_consumer \<times> string option) option \<times> u32 \<times> smsg list" where
  "zstream_open producer_pid open_payload err_len next_open_tag start ps =
     (let st = \<lparr>sc_stream_id = 0, sc_producer_pid = producer_pid, sc_seq = 0, sc_active = False, sc_open_tag = 0\<rparr>;
          nxt = next_open_tag + 1 in
      (open_wait start next_open_tag err_len st ps, if nxt = 0 then 1 else nxt,
       [z_msg_new producer_pid Z_STREAM_OPEN next_open_tag open_payload]))"

datatype zstream_result = ZSTREAM_CHUNK | ZSTREAM_EOF | ZSTREAM_ERROR

fun pull_wait ::
  "u32 \<Rightarrow> u32 \<Rightarrow> u32 \<Rightarrow> zstream_consumer \<Rightarrow> polls \<Rightarrow>
   (zstream_result \<times> zstream_consumer \<times> nat option \<times> string option) option" where
  "pull_wait start tag err_len st [] = None"
| "pull_wait start tag err_len st ((now, got) # ps) =
     (if now - start < ZSTREAM_TIMEOUT_TICKS then
        (case got of
           None \<Rightarrow> pull_wait start tag err_len st ps
         | Some msg \<Rightarrow>
             if sm_tag msg \<noteq> tag then pull_wait start tag err_len st ps
             else if sm_subject msg = Z_STREAM_CHUNK then
               (case sm_obj msg of
                  SBlob a \<Rightarrow> Some (ZSTREAM_CHUNK, st\<lparr>sc_seq := sc_seq st + 1\<rparr>, Some a, None)
                | _ \<Rightarrow> Some (ZSTREAM_ERROR, st\<lparr>sc_active := False\<rparr>, None,
                          set_err err_len ''malformed chunk (not a blob)''))
             else if sm_subject msg = Z_STREAM_EOF then Some (ZSTREAM_EOF, st\<lparr>sc_active := False\<rparr>, None, None)
             else if sm_subject msg = Z_STREAM_ERROR then
               Some (ZSTREAM_ERROR, st\<lparr>sc_active := False\<rparr>, None, error_text err_len (sm_obj msg))
             else pull_wait start tag err_len st ps)
      else Some (ZSTREAM_ERROR, st\<lparr>sc_active := False\<rparr>, None,
             set_err err_len ''timed out waiting for next chunk''))"

definition zstream_pull ::
  "u32 \<Rightarrow> zstream_consumer \<Rightarrow> u32 \<Rightarrow> polls \<Rightarrow>
   (zstream_result \<times> zstream_consumer \<times> nat option \<times> string option) option \<times> smsg list" where
  "zstream_pull err_len st start ps =
     (if \<not> sc_active st then (Some (ZSTREAM_ERROR, st, None, set_err err_len ''stream not open''), [])
      else
        let tag = ZSTREAM_TAG (sc_stream_id st) (sc_seq st) in
        (pull_wait start tag err_len st ps, [z_msg_new (sc_producer_pid st) Z_STREAM_PULL tag SNone]))"

section \<open>Tags\<close>

lemma and_ffff: "(x :: u32) AND 0xFFFF = take_bit 16 x"
proof -
  have "(0xFFFF :: u32) = mask 16" by (simp add: mask_eq_exp_minus_1)
  then show ?thesis by (simp only: take_bit_eq_mask)
qed

lemma tag_fields:
  "ZSTREAM_TAG_SEQ (ZSTREAM_TAG sid q) = take_bit 16 q"
  "ZSTREAM_TAG_STREAM_ID (ZSTREAM_TAG sid q) = take_bit 16 sid"
  unfolding ZSTREAM_TAG_def ZSTREAM_TAG_SEQ_def ZSTREAM_TAG_STREAM_ID_def and_ffff
  by (rule bit_word_eqI; auto simp: bit_simps)+

lemma small_seq: "j < 65536 \<Longrightarrow> take_bit 16 (of_nat j :: u32) = of_nat j"
  by (simp add: take_bit_of_nat take_bit_nat_eq_self)

lemma of_nat_32_eq: "i < 4294967296 \<Longrightarrow> j < 4294967296 \<Longrightarrow> (of_nat i :: u32) = of_nat j \<longleftrightarrow> i = j"
  by (auto simp: word_of_nat_eq_iff take_bit_nat_eq_self)

lemma tag_eq:
  assumes "i < 65536" "j < 65536"
  shows "ZSTREAM_TAG sid (of_nat i) = ZSTREAM_TAG sid (of_nat j) \<longleftrightarrow> i = j"
proof
  assume "ZSTREAM_TAG sid (of_nat i) = ZSTREAM_TAG sid (of_nat j)"
  then have "ZSTREAM_TAG_SEQ (ZSTREAM_TAG sid (of_nat i)) = ZSTREAM_TAG_SEQ (ZSTREAM_TAG sid (of_nat j))" by simp
  then show "i = j" using assms by (simp add: tag_fields small_seq of_nat_32_eq)
qed simp

lemma next_seq_eq: "next_seq st = sp_seq st + 1"
  by (auto simp: next_seq_def)

section \<open>A producer and a consumer with lossy mailboxes between them\<close>

record link =
  lk_p :: zstream_producer
  lk_c :: zstream_consumer
  lk_h :: blobs
  lk_to_p :: "smsg list"
  lk_to_c :: "smsg list"
  lk_src :: "u8 list list"
  lk_got :: "u8 list option list"
  lk_eof :: bool

text \<open>
  The consumer asks, or gives up; the producer handles its next message and, for a new pull, answers
  with the next chunk of the source, with the end, or with an error, and closes when the consumer has
  given up; it may also close of its own accord once it holds no chunk; the consumer handles its next
  message and reads the chunk where it lies in the producer's heap. An error sent, or a close made,
  while the consumer may still have to read a chunk is not a step here: see \<open>stream_error_frees_early\<close>.
\<close>

definition link_pull :: "link \<Rightarrow> link" where
  "link_pull k = k\<lparr>lk_to_p := lk_to_p k @ zstream_pull_async (lk_c k)\<rparr>"

definition link_answer :: "zstream_producer \<Rightarrow> blobs \<Rightarrow> smsg list \<Rightarrow> link \<Rightarrow> link" where
  "link_answer p h outs k = k\<lparr>lk_p := p, lk_h := h, lk_to_c := lk_to_c k @ outs\<rparr>"

definition link_serve :: "link \<Rightarrow> link" where
  "link_serve k =
     (case lk_to_p k of
        [] \<Rightarrow> k
      | m # ms \<Rightarrow>
          let k = k\<lparr>lk_to_p := ms\<rparr>; (ev, p, h, outs) = zstream_producer_handle (lk_p k) m (lk_h k) in
          if ev = EVENT_ABORT then (case zstream_producer_close p h of (p, h) \<Rightarrow> link_answer p h outs k)
          else if ev \<noteq> EVENT_PULL then link_answer p h outs k
          else (case lk_src k of
              [] \<Rightarrow> (case zstream_send_eof p h of (p, h, outs) \<Rightarrow> link_answer p h outs k)
            | d # ds \<Rightarrow> (case zstream_send_chunk p d h of (p, h, outs) \<Rightarrow>
                link_answer p h outs (k\<lparr>lk_src := ds\<rparr>))))"

definition link_refuse :: "string \<Rightarrow> link \<Rightarrow> link" where
  "link_refuse err k =
     (case lk_to_p k of
        [] \<Rightarrow> k
      | m # ms \<Rightarrow>
          (case zstream_producer_handle (lk_p k) m (lk_h k) of (ev, p, h, outs) \<Rightarrow>
             if ev \<noteq> EVENT_PULL then link_serve k
             else (case zstream_send_error p err h of (p, h, outs) \<Rightarrow> link_answer p h outs (k\<lparr>lk_to_p := ms\<rparr>))))"

definition link_close :: "link \<Rightarrow> link" where
  "link_close k = (case zstream_producer_close (lk_p k) (lk_h k) of (p, h) \<Rightarrow> k\<lparr>lk_p := p, lk_h := h\<rparr>)"

definition link_abort :: "link \<Rightarrow> link" where
  "link_abort k = (case zstream_abort (lk_c k) of (c, outs) \<Rightarrow> k\<lparr>lk_c := c, lk_to_p := lk_to_p k @ outs\<rparr>)"

definition link_receive :: "link \<Rightarrow> link" where
  "link_receive k =
     (case lk_to_c k of
        [] \<Rightarrow> k
      | m # ms \<Rightarrow> (case zstream_consumer_handle 0 (lk_c k) m of (ev, c, a, _) \<Rightarrow>
          k\<lparr>lk_c := c, lk_to_c := ms,
            lk_got := (case a of None \<Rightarrow> lk_got k | Some a \<Rightarrow> lk_got k @ [bl_data (lk_h k) a]),
            lk_eof := (lk_eof k \<or> ev = CEVENT_EOF)\<rparr>))"

text \<open>The consumer opens, the producer accepts, the consumer hears of it.\<close>

definition link_open :: "(nat \<Rightarrow> bool) \<Rightarrow> u32 \<Rightarrow> u32 \<Rightarrow> u32 \<Rightarrow> u32 \<Rightarrow> u8 list list \<Rightarrow> link" where
  "link_open alloc ppid cpid open_tag sid src =
     (case zstream_open_async ppid SNone open_tag of (c, _, _) \<Rightarrow>
      case zstream_accept cpid (sc_open_tag c) sid of (p, _, outs) \<Rightarrow>
      case zstream_consumer_handle 0 c (hd outs) of (_, c, _, _) \<Rightarrow>
        \<lparr>lk_p = p, lk_c = c, lk_h = \<lparr>bl_next = 0, bl_ok = alloc, bl_data = Map.empty\<rparr>, lk_to_p = [], lk_to_c = [],
         lk_src = src, lk_got = [], lk_eof = False\<rparr>)"

inductive link_step :: "link \<Rightarrow> link \<Rightarrow> bool" where
  pull: "link_step k (link_pull k)"
| serve: "link_step k (link_serve k)"
| refuse: "link_step k (link_refuse err k)"
| close: "sp_last_chunk (lk_p k) = SNone \<Longrightarrow> link_step k (link_close k)"
| abort: "link_step k (link_abort k)"
| receive: "link_step k (link_receive k)"
| lose_to_p: "link_step k (k\<lparr>lk_to_p := tl (lk_to_p k)\<rparr>)"
| lose_to_c: "link_step k (k\<lparr>lk_to_c := tl (lk_to_c k)\<rparr>)"

text \<open>
  What a message to the consumer can be when \<open>q\<close> answers have been given: the newest chunk is the one
  the producer still holds.
\<close>

definition answer_ok :: "u32 \<Rightarrow> nat \<Rightarrow> nat \<Rightarrow> sobj \<Rightarrow> smsg \<Rightarrow> bool" where
  "answer_ok sid len q held m \<longleftrightarrow>
     (\<exists>j < q. sm_tag m = ZSTREAM_TAG sid (of_nat j) \<and>
       (sm_subject m = Z_STREAM_CHUNK \<and> (j = q - 1 \<longrightarrow> sm_obj m = held) \<or>
        sm_subject m = Z_STREAM_EOF \<and> j = len \<or> sm_subject m = Z_STREAM_ERROR))"

definition last_ok :: "u8 list list \<Rightarrow> nat \<Rightarrow> sobj \<Rightarrow> blobs \<Rightarrow> bool" where
  "last_ok src q held h \<longleftrightarrow>
     (held = SNone \<or> 0 < q \<and> q \<le> length src \<and> (\<exists>a. held = SBlob a \<and> bl_data h a = Some (src ! (q - 1))))"

definition link_inv :: "u32 \<Rightarrow> u8 list list \<Rightarrow> nat \<Rightarrow> link \<Rightarrow> bool" where
  "link_inv sid src q k \<longleftrightarrow>
     sp_stream_id (lk_p k) = sid \<and> sc_stream_id (lk_c k) = sid \<and>
     sc_seq (lk_c k) = of_nat (length (lk_got k)) \<and> sp_seq (lk_p k) = of_nat q - 1 \<and>
     length (lk_got k) \<le> q \<and> q \<le> length (lk_got k) + 1 \<and> length (lk_got k) \<le> length src \<and>
     lk_got k = map Some (take (length (lk_got k)) src) \<and>
     (lk_src k = drop q src \<or> q = length (lk_got k) + 1 \<and> sp_last_chunk (lk_p k) = SNone) \<and>
     last_ok src q (sp_last_chunk (lk_p k)) (lk_h k) \<and>
     (\<forall>m \<in> set (lk_to_p k). sm_subject m = Z_STREAM_PULL \<and>
        (\<exists>j \<le> length (lk_got k). sm_tag m = ZSTREAM_TAG sid (of_nat j))) \<and>
     (\<forall>m \<in> set (lk_to_c k). answer_ok sid (length src) q (sp_last_chunk (lk_p k)) m) \<and>
     (lk_eof k \<longrightarrow> length (lk_got k) = length src)"

lemma link_inv_open:
  "sid \<noteq> 0 \<Longrightarrow> link_inv sid src 0 (link_open alloc ppid cpid open_tag sid src)"
  by (simp add: link_inv_def link_open_def zstream_open_async_def zstream_accept_def zstream_consumer_handle_def
      z_msg_new_def Let_def last_ok_def)

lemma link_inv_pull:
  assumes "link_inv sid src q k"
  shows "link_inv sid src q (link_pull k)"
  using assms by (auto simp: link_inv_def link_pull_def zstream_pull_async_def z_msg_new_def)

lemma link_inv_lose:
  assumes "link_inv sid src q k"
  shows "link_inv sid src q (k\<lparr>lk_to_p := tl (lk_to_p k)\<rparr>)" "link_inv sid src q (k\<lparr>lk_to_c := tl (lk_to_c k)\<rparr>)"
proof -
  have "set (tl xs) \<subseteq> set xs" for xs :: "smsg list" by (cases xs) auto
  then show "link_inv sid src q (k\<lparr>lk_to_p := tl (lk_to_p k)\<rparr>)" "link_inv sid src q (k\<lparr>lk_to_c := tl (lk_to_c k)\<rparr>)"
    using assms unfolding link_inv_def by (simp_all add: subset_iff)
qed

text \<open>A new pull is for the next answer, and only comes when all earlier ones have arrived.\<close>

lemma handle_pull:
  assumes "sp_active p" "sp_stream_id p = sid" "sp_seq p = of_nat q - 1" "q < 65537"
    and "sm_subject m = Z_STREAM_PULL" "sm_tag m = ZSTREAM_TAG sid (of_nat j)" "j < 65536"
  shows "zstream_producer_handle p m h =
    (if j = q then (EVENT_PULL, p\<lparr>sp_last_chunk := SNone\<rparr>, free_chunk (sp_last_chunk p) h, [])
     else if Suc j = q then (EVENT_NONE, p, h,
       [z_msg_new (sp_consumer_pid p) Z_STREAM_CHUNK (ZSTREAM_TAG sid (of_nat j)) (sp_last_chunk p)])
     else (EVENT_NONE, p, h, []))"
proof -
  have nxt: "next_seq p = of_nat q" using assms(3) by (simp add: next_seq_eq)
  have a: "(of_nat j :: u32) = of_nat q \<longleftrightarrow> j = q" using assms(4,7) by (intro of_nat_32_eq) auto
  have b: "(of_nat j :: u32) = of_nat q - 1 \<longleftrightarrow> Suc j = q"
  proof -
    have "(of_nat j :: u32) = of_nat q - 1 \<longleftrightarrow> of_nat (Suc j) = (of_nat q :: u32)"
      by (auto simp: algebra_simps)
    also have "\<dots> \<longleftrightarrow> Suc j = q" using assms(4,7) by (intro of_nat_32_eq) auto
    finally show ?thesis .
  qed
  have c: "(of_nat q :: u32) - 1 = 0xFFFFFFFF \<Longrightarrow> q = 0"
  proof -
    assume "(of_nat q :: u32) - 1 = 0xFFFFFFFF"
    then have "(of_nat q :: u32) = 0xFFFFFFFF + 1" by (metis diff_add_cancel)
    then have "(of_nat q :: u32) = of_nat 0" by simp
    with of_nat_32_eq [of q 0] assms(4) show "q = 0" by simp
  qed
  have seq: "ZSTREAM_TAG_SEQ (sm_tag m) = of_nat j" using assms(6,7) by (simp add: tag_fields small_seq)
  have id: "ZSTREAM_TAG_STREAM_ID (sm_tag m) = sp_stream_id p AND 0xFFFF"
    using assms(2,6) by (simp add: tag_fields and_ffff)
  have old: "sp_seq p \<noteq> UINT32_MAX \<and> of_nat j = sp_seq p \<longleftrightarrow> Suc j = q"
    using b c assms(3) by auto
  have "ZSTREAM_TAG (sp_stream_id p) (sp_seq p) = ZSTREAM_TAG sid (of_nat j)" if "Suc j = q"
    using that b assms(2,3) by simp
  then show ?thesis
    using assms(1,5) by (simp add: zstream_producer_handle_def id seq nxt a old Let_def)
qed

lemma of_nat_pred_Suc: "(of_nat q :: u32) - 1 + 1 = of_nat q"
  by simp

lemma answer_ok_older: "answer_ok sid len q held m \<Longrightarrow> answer_ok sid len (Suc q) held' m"
  unfolding answer_ok_def by (metis diff_Suc_1 less_Suc_eq nat_neq_iff)

lemma link_inv_answer:
  assumes "link_inv sid src q k" "q = length (lk_got k)" "lk_to_p k = m # ms"
    and "sp_stream_id p = sid" "sp_seq p = of_nat q" "s = drop (Suc q) src \<or> sp_last_chunk p = SNone"
    and "last_ok src (Suc q) (sp_last_chunk p) h" "answer_ok sid (length src) (Suc q) (sp_last_chunk p) out"
  shows "link_inv sid src (Suc q) (link_answer p h [out] (k\<lparr>lk_to_p := ms, lk_src := s\<rparr>))"
  using assms answer_ok_older by (auto simp: link_inv_def link_answer_def)

text \<open>What the producer makes of a message: nothing, the answer it gave last, or a new pull.\<close>

lemma link_handle_cases:
  assumes inv: "link_inv sid src q k" and len: "length src < 65536" and m: "lk_to_p k = m # ms"
  obtains (stale) "zstream_producer_handle (lk_p k) m (lk_h k) = (EVENT_NONE, lk_p k, lk_h k, [])"
  | (again) out where "zstream_producer_handle (lk_p k) m (lk_h k) = (EVENT_NONE, lk_p k, lk_h k, [out])"
      "answer_ok sid (length src) q (sp_last_chunk (lk_p k)) out"
  | (fresh) "q = length (lk_got k)" "zstream_producer_handle (lk_p k) m (lk_h k) =
      (EVENT_PULL, (lk_p k)\<lparr>sp_last_chunk := SNone\<rparr>, free_chunk (sp_last_chunk (lk_p k)) (lk_h k), [])"
proof (cases "sp_active (lk_p k)")
  case False
  then show ?thesis using stale by (simp add: zstream_producer_handle_def)
next
  case True
  let ?n = "length (lk_got k)"
  from inv m obtain j where j: "sm_subject m = Z_STREAM_PULL" "j \<le> ?n" "sm_tag m = ZSTREAM_TAG sid (of_nat j)"
    by (auto simp: link_inv_def)
  have le: "?n \<le> length src" "?n \<le> q" "q \<le> ?n + 1" using inv by (simp_all add: link_inv_def)
  have p: "sp_stream_id (lk_p k) = sid" "sp_seq (lk_p k) = of_nat q - 1" using inv by (simp_all add: link_inv_def)
  note h = handle_pull [OF True p _ j(1,3), of "lk_h k"]
  consider "j = q" "q = ?n" | "j \<noteq> q" "Suc j = q" | "j \<noteq> q" "Suc j \<noteq> q" using j(2) le by linarith
  then show ?thesis
  proof cases
    case 1
    then show ?thesis using fresh h le len by simp
  next
    case 2
    let ?out = "z_msg_new (sp_consumer_pid (lk_p k)) Z_STREAM_CHUNK (ZSTREAM_TAG sid (of_nat j)) (sp_last_chunk (lk_p k))"
    have "answer_ok sid (length src) q (sp_last_chunk (lk_p k)) ?out"
      unfolding answer_ok_def using 2 by (intro exI [of _ j]) (auto simp: z_msg_new_def)
    then show ?thesis using again [of ?out] h 2 le len j(2) by simp
  next
    case 3
    then show ?thesis using stale h le len j(2) by simp
  qed
qed

lemma link_inv_serve:
  assumes inv: "link_inv sid src q k" and len: "length src < 65536"
  shows "\<exists>q'. link_inv sid src q' (link_serve k)"
proof (cases "lk_to_p k")
  case Nil
  with inv show ?thesis by (auto simp: link_serve_def)
next
  case (Cons m ms)
  let ?p = "(lk_p k)\<lparr>sp_last_chunk := SNone\<rparr>" and ?h = "free_chunk (sp_last_chunk (lk_p k)) (lk_h k)"
  have le: "length (lk_got k) \<le> length src" using inv by (simp add: link_inv_def)
  have p: "sp_stream_id (lk_p k) = sid" "sp_seq (lk_p k) = of_nat q - 1" using inv by (simp_all add: link_inv_def)
  from inv len Cons show ?thesis
  proof (cases rule: link_handle_cases)
    case stale
    with Cons inv show ?thesis
      by (intro exI [of _ q]) (simp add: link_serve_def link_answer_def link_inv_def)
  next
    case (again out)
    with Cons inv show ?thesis
      by (intro exI [of _ q]) (auto simp: link_serve_def link_answer_def link_inv_def)
  next
    case fresh
    have nxt: "next_seq ?p = of_nat q" using p(2) by (simp add: next_seq_eq)
    have src: "lk_src k = drop q src" using inv fresh(1) by (simp add: link_inv_def)
    show ?thesis
    proof (cases "q < length src")
      case False
      then have q: "q = length src" "lk_src k = []" using src fresh(1) le by simp_all
      have "link_serve k = link_answer (?p\<lparr>sp_seq := of_nat q\<rparr>) ?h
          [z_msg_new (sp_consumer_pid (lk_p k)) Z_STREAM_EOF (ZSTREAM_TAG sid (of_nat q)) SNone]
          (k\<lparr>lk_to_p := ms, lk_src := lk_src k\<rparr>)"
        using fresh(2) Cons q p(1) nxt by (simp add: link_serve_def zstream_send_eof_def Let_def link_answer_def)
      moreover have "link_inv sid src (Suc q) \<dots>"
        by (rule link_inv_answer [OF inv fresh(1) Cons])
          (use p q in \<open>auto simp: last_ok_def answer_ok_def z_msg_new_def\<close>)
      ultimately show ?thesis by metis
    next
      case True
      let ?z = "z_obj_blob (src ! q) ?h"
      have cons: "lk_src k = src ! q # drop (Suc q) src" using src True by (simp add: Cons_nth_drop_Suc)
      have "link_serve k = link_answer (?p\<lparr>sp_last_chunk := fst ?z, sp_seq := of_nat q\<rparr>) (snd ?z)
          [z_msg_new (sp_consumer_pid (lk_p k)) Z_STREAM_CHUNK (ZSTREAM_TAG sid (of_nat q)) (fst ?z)]
          (k\<lparr>lk_to_p := ms, lk_src := drop (Suc q) src\<rparr>)"
        using fresh(2) Cons cons p(1) nxt
        by (simp add: link_serve_def zstream_send_chunk_def Let_def link_answer_def split_beta)
      moreover have "link_inv sid src (Suc q) \<dots>"
        by (rule link_inv_answer [OF inv fresh(1) Cons])
          (use p True in \<open>auto simp: last_ok_def answer_ok_def z_msg_new_def z_obj_blob_def\<close>)
      ultimately show ?thesis by metis
    qed
  qed
qed

lemma link_inv_refuse:
  assumes inv: "link_inv sid src q k" and len: "length src < 65536"
  shows "\<exists>q'. link_inv sid src q' (link_refuse err k)"
proof (cases "lk_to_p k")
  case Nil
  with inv show ?thesis by (auto simp: link_refuse_def)
next
  case (Cons m ms)
  let ?p = "(lk_p k)\<lparr>sp_last_chunk := SNone\<rparr>" and ?h = "free_chunk (sp_last_chunk (lk_p k)) (lk_h k)"
  have p: "sp_stream_id (lk_p k) = sid" "sp_seq (lk_p k) = of_nat q - 1" using inv by (simp_all add: link_inv_def)
  from inv len Cons show ?thesis
  proof (cases rule: link_handle_cases)
    case fresh
    have nxt: "next_seq ?p = of_nat q" using p(2) by (simp add: next_seq_eq)
    have "link_refuse err k = link_answer (?p\<lparr>sp_seq := of_nat q\<rparr>) ?h
        [z_msg_new (sp_consumer_pid (lk_p k)) Z_STREAM_ERROR (ZSTREAM_TAG sid (of_nat q)) (SStr (Some err))]
        (k\<lparr>lk_to_p := ms, lk_src := lk_src k\<rparr>)"
      using fresh(2) Cons p(1) nxt by (simp add: link_refuse_def zstream_send_error_def Let_def)
    moreover have "link_inv sid src (Suc q) \<dots>"
      by (rule link_inv_answer [OF inv fresh(1) Cons])
        (use p in \<open>auto simp: last_ok_def answer_ok_def z_msg_new_def\<close>)
    ultimately show ?thesis by metis
  qed (use Cons link_inv_serve [OF inv len] in \<open>simp_all add: link_refuse_def\<close>)
qed

lemma link_inv_close:
  assumes "link_inv sid src q k" "sp_last_chunk (lk_p k) = SNone"
  shows "link_inv sid src q (link_close k)"
  using assms by (simp add: link_inv_def link_close_def zstream_producer_close_def)

lemma link_inv_receive:
  assumes inv: "link_inv sid src q k" and len: "length src < 65536" and sid: "sid \<noteq> 0"
  shows "link_inv sid src q (link_receive k)"
proof (cases "lk_to_c k")
  case Nil
  with inv show ?thesis by (simp add: link_receive_def)
next
  case (Cons m ms)
  let ?n = "length (lk_got k)" and ?c = "lk_c k"
  from inv Cons obtain j where j: "j < q" "sm_tag m = ZSTREAM_TAG sid (of_nat j)"
    "sm_subject m = Z_STREAM_CHUNK \<and> (j = q - 1 \<longrightarrow> sm_obj m = sp_last_chunk (lk_p k)) \<or>
     sm_subject m = Z_STREAM_EOF \<and> j = length src \<or> sm_subject m = Z_STREAM_ERROR"
    by (auto simp: link_inv_def answer_ok_def)
  have le: "?n \<le> length src" "?n \<le> q" "q \<le> ?n + 1" using inv by (simp_all add: link_inv_def)
  have c: "sc_stream_id ?c = sid" "sc_seq ?c = of_nat ?n" using inv by (simp_all add: link_inv_def)
  have tag: "sm_tag m = ZSTREAM_TAG (sc_stream_id ?c) (sc_seq ?c) \<longleftrightarrow> j = ?n"
    unfolding c j(2) by (rule tag_eq) (use j(1) le len in auto)
  show ?thesis
  proof (cases "sc_active ?c \<and> j = ?n")
    case False
    then have "zstream_consumer_handle 0 ?c m = (CEVENT_NONE, ?c, None, None)"
      using c(1) sid tag by (auto simp: zstream_consumer_handle_def)
    with Cons inv show ?thesis by (simp add: link_receive_def link_inv_def)
  next
    case True
    then have q: "q = Suc ?n" using j(1) le by simp
    have l: "last_ok src q (sp_last_chunk (lk_p k)) (lk_h k)" using inv by (simp add: link_inv_def)
    have s: "sm_subject m = Z_STREAM_CHUNK \<Longrightarrow> sm_obj m = sp_last_chunk (lk_p k)" using j(3) True q by auto
    consider (eof) "sm_subject m = Z_STREAM_EOF" "?n = length src" | (error) "sm_subject m = Z_STREAM_ERROR"
      | (none) "sm_subject m = Z_STREAM_CHUNK" "sm_obj m = SNone"
      | (chunk) a where "sm_subject m = Z_STREAM_CHUNK" "sm_obj m = SBlob a" "?n < length src"
          "bl_data (lk_h k) a = Some (src ! ?n)"
      using j(3) True s l q by (auto simp: last_ok_def)
    then show ?thesis
    proof cases
      case eof
      then have "zstream_consumer_handle 0 ?c m = (CEVENT_EOF, ?c\<lparr>sc_active := False\<rparr>, None, None)"
        using True tag by (simp add: zstream_consumer_handle_def)
      with eof Cons inv show ?thesis by (auto simp: link_receive_def link_inv_def)
    next
      case error
      then have "zstream_consumer_handle 0 ?c m = (CEVENT_ERROR, ?c\<lparr>sc_active := False\<rparr>, None, error_text 0 (sm_obj m))"
        using True tag by (simp add: zstream_consumer_handle_def)
      with Cons inv show ?thesis by (simp add: link_receive_def link_inv_def)
    next
      case none
      then have "zstream_consumer_handle 0 ?c m = (CEVENT_ERROR, ?c\<lparr>sc_active := False\<rparr>, None, None)"
        using True tag by (simp add: zstream_consumer_handle_def set_err_def)
      with Cons inv show ?thesis by (simp add: link_receive_def link_inv_def)
    next
      case (chunk a)
      then have "zstream_consumer_handle 0 ?c m = (CEVENT_CHUNK, ?c\<lparr>sc_seq := sc_seq ?c + 1\<rparr>, Some a, None)"
        using True tag by (simp add: zstream_consumer_handle_def)
      then have eq: "link_receive k = k\<lparr>lk_c := ?c\<lparr>sc_seq := sc_seq ?c + 1\<rparr>, lk_to_c := ms,
          lk_got := lk_got k @ [Some (src ! ?n)], lk_eof := lk_eof k\<rparr>"
        using Cons chunk(4) by (simp add: link_receive_def)
      have got: "lk_got k @ [Some (src ! ?n)] = map Some (take (Suc ?n) src)"
        using inv chunk(3) by (simp add: link_inv_def take_Suc_conv_app_nth)
      have eof: "\<not> lk_eof k" using inv chunk(3) by (auto simp: link_inv_def)
      have held: "sp_last_chunk (lk_p k) \<noteq> SNone" using s chunk(1,2) by auto
      have "\<forall>m \<in> set (lk_to_p k). sm_subject m = Z_STREAM_PULL \<and>
          (\<exists>j \<le> Suc ?n. sm_tag m = ZSTREAM_TAG sid (of_nat j))"
        using inv unfolding link_inv_def by (meson le_SucI)
      then show ?thesis
        using inv chunk(3) held q c got eof Cons unfolding eq link_inv_def by (simp add: add.commute)
    qed
  qed
qed

text \<open>
  A consumer that is no longer in the stream, because it gave up or was told of the end or of an error,
  takes nothing more from it.
\<close>

definition link_done :: "u32 \<Rightarrow> u8 list list \<Rightarrow> link \<Rightarrow> bool" where
  "link_done sid src k \<longleftrightarrow>
     \<not> sc_active (lk_c k) \<and> sc_stream_id (lk_c k) = sid \<and>
     lk_got k = map Some (take (length (lk_got k)) src) \<and> (lk_eof k \<longrightarrow> length (lk_got k) = length src)"

lemma link_serve_same:
  "lk_c (link_serve k) = lk_c k" "lk_got (link_serve k) = lk_got k" "lk_eof (link_serve k) = lk_eof k"
  by (auto simp: link_serve_def link_answer_def Let_def split: list.splits prod.splits)

lemma link_refuse_same:
  "lk_c (link_refuse err k) = lk_c k" "lk_got (link_refuse err k) = lk_got k" "lk_eof (link_refuse err k) = lk_eof k"
  by (auto simp: link_refuse_def link_answer_def link_serve_same split: list.splits prod.splits)

lemma link_done_step:
  assumes "link_step k k'" "link_done sid src k" "sid \<noteq> 0"
  shows "link_done sid src k'"
  using assms
proof cases
  case receive
  with assms(2,3) show ?thesis
    by (cases "lk_to_c k") (auto simp: link_done_def link_receive_def zstream_consumer_handle_def)
qed (use assms(2) in \<open>auto simp: link_done_def link_serve_same link_refuse_same link_pull_def link_close_def
      link_abort_def zstream_abort_def zstream_producer_close_def\<close>)

lemma link_inv_abort:
  assumes "link_inv sid src q k"
  shows "link_inv sid src q (link_abort k) \<or> link_done sid src (link_abort k)"
  using assms by (auto simp: link_inv_def link_done_def link_abort_def zstream_abort_def)

lemma link_inv_reachable:
  assumes "link_step\<^sup>*\<^sup>* (link_open alloc ppid cpid open_tag sid src) k" "sid \<noteq> 0" "length src < 65536"
  shows "(\<exists>q. link_inv sid src q k) \<or> link_done sid src k"
  using assms(1)
proof (induction rule: rtranclp_induct)
  case base
  then show ?case using link_inv_open [OF assms(2)] by blast
next
  case (step k k')
  from step.IH show ?case
  proof
    assume "link_done sid src k"
    with step.hyps(2) assms(2) show ?thesis by (blast intro: link_done_step)
  next
    assume "\<exists>q. link_inv sid src q k"
    then obtain q where q: "link_inv sid src q k" ..
    from step.hyps(2) show ?thesis
    proof cases
      case serve then show ?thesis using link_inv_serve [OF q assms(3)] by simp
    next
      case refuse then show ?thesis using link_inv_refuse [OF q assms(3)] by simp
    next
      case abort then show ?thesis using link_inv_abort [OF q] by blast
    qed (use q in \<open>auto intro: link_inv_pull link_inv_lose link_inv_close link_inv_receive [OF _ assms(3,2)]\<close>)
  qed
qed

section \<open>A round without losses\<close>

definition link_round :: "link \<Rightarrow> link" where
  "link_round k = link_receive (link_serve (link_pull k))"

definition held_blob :: "sobj \<Rightarrow> nat set" where
  "held_blob s = (case s of SBlob a \<Rightarrow> {a} | _ \<Rightarrow> {})"

text \<open>Between two rounds nothing is under way, and only the newest chunk is in memory.\<close>

definition link_quiet :: "u32 \<Rightarrow> u8 list list \<Rightarrow> nat \<Rightarrow> link \<Rightarrow> bool" where
  "link_quiet sid src q k \<longleftrightarrow> link_inv sid src q k \<and> q = length (lk_got k) \<and> lk_to_p k = [] \<and> lk_to_c k = [] \<and>
     sc_active (lk_c k) \<and> sp_active (lk_p k) \<and> (\<forall>n. bl_ok (lk_h k) n) \<and>
     dom (bl_data (lk_h k)) = held_blob (sp_last_chunk (lk_p k))"

lemma free_held: "dom (bl_data h) = held_blob s \<Longrightarrow> bl_data (free_chunk s h) = Map.empty"
  by (cases s) (simp_all add: held_blob_def flip: dom_eq_empty_conv)

lemma free_ok: "bl_ok (free_chunk s h) = bl_ok h"
  by (cases s) simp_all

lemma quiet_serve:
  assumes "link_quiet sid src q k" "length src < 65536"
  defines "p \<equiv> (lk_p k)\<lparr>sp_last_chunk := SNone\<rparr>" and "h \<equiv> free_chunk (sp_last_chunk (lk_p k)) (lk_h k)"
  shows "link_serve (link_pull k) =
     (if q < length src then
        link_answer (p\<lparr>sp_last_chunk := SBlob (bl_next h), sp_seq := of_nat q\<rparr>)
          (h\<lparr>bl_next := Suc (bl_next h), bl_data := (bl_data h)(bl_next h \<mapsto> src ! q)\<rparr>)
          [z_msg_new (sp_consumer_pid (lk_p k)) Z_STREAM_CHUNK (ZSTREAM_TAG sid (of_nat q)) (SBlob (bl_next h))]
          (k\<lparr>lk_src := drop (Suc q) src\<rparr>)
      else link_answer (p\<lparr>sp_seq := of_nat q\<rparr>) h
          [z_msg_new (sp_consumer_pid (lk_p k)) Z_STREAM_EOF (ZSTREAM_TAG sid (of_nat q)) SNone] k)"
proof -
  have inv: "link_inv sid src q k" "q = length (lk_got k)" and q: "lk_to_p k = []" "lk_to_c k = []" "sc_active (lk_c k)"
    using assms(1) by (auto simp: link_quiet_def)
  have c: "sc_stream_id (lk_c k) = sid" "sc_seq (lk_c k) = of_nat q" and p: "sp_active (lk_p k)" "sp_stream_id (lk_p k) = sid"
    "sp_seq (lk_p k) = of_nat q - 1" and le: "q \<le> length src" and src: "lk_src k = drop q src"
    using inv assms(1) by (simp_all add: link_inv_def link_quiet_def)
  have ok: "bl_ok h n" for n using assms(1) by (simp add: link_quiet_def h_def free_ok)
  let ?m = "z_msg_new (sc_producer_pid (lk_c k)) Z_STREAM_PULL (ZSTREAM_TAG sid (of_nat q)) SNone"
  have pull: "lk_to_p (link_pull k) = [?m]"
    using q c by (simp add: link_pull_def zstream_pull_async_def)
  have h: "zstream_producer_handle (lk_p k) ?m (lk_h k) = (EVENT_PULL, p, h, [])"
    using handle_pull [OF p, of ?m q "lk_h k"] le assms(2) by (simp add: z_msg_new_def p_def h_def)
  have nxt: "next_seq p = of_nat q" using p(3) by (simp add: next_seq_eq p_def)
  have sid: "sp_stream_id p = sid" "sp_consumer_pid p = sp_consumer_pid (lk_p k)" using p by (simp_all add: p_def)
  show ?thesis
  proof (cases "q < length src")
    case True
    then have "lk_src k = src ! q # drop (Suc q) src" using src by (simp add: Cons_nth_drop_Suc)
    with True pull h nxt sid q(1) ok show ?thesis
      by (simp add: link_serve_def zstream_send_chunk_def z_obj_blob_def Let_def link_answer_def link_pull_def)
  next
    case False
    then have "lk_src k = []" using src by simp
    moreover have "free_chunk (sp_last_chunk p) h = h" by (simp add: p_def)
    moreover have "p\<lparr>sp_last_chunk := SNone, sp_seq := of_nat q\<rparr> = p\<lparr>sp_seq := of_nat q\<rparr>" by (simp add: p_def)
    ultimately show ?thesis using False pull h nxt sid q(1)
      by (simp add: link_serve_def zstream_send_eof_def Let_def link_answer_def link_pull_def)
  qed
qed

lemma quiet_round:
  assumes "link_quiet sid src q k" "length src < 65536" "sid \<noteq> 0"
  shows "if q < length src then link_quiet sid src (Suc q) (link_round k)
    else lk_got (link_round k) = map Some src \<and> lk_eof (link_round k) \<and> bl_data (lk_h (link_round k)) = Map.empty"
proof -
  let ?k = "link_serve (link_pull k)"
  have inv: "link_inv sid src q k" "q = length (lk_got k)" and quiet: "lk_to_p k = []" "lk_to_c k = []" "sc_active (lk_c k)"
    and mem: "bl_data (free_chunk (sp_last_chunk (lk_p k)) (lk_h k)) = Map.empty"
    and ok: "sp_active (lk_p k)" "\<And>n. bl_ok (lk_h k) n"
    using assms(1) free_held by (auto simp: link_quiet_def)
  have c: "sc_stream_id (lk_c k) = sid" "sc_seq (lk_c k) = of_nat q" and le: "q \<le> length src"
    and got: "lk_got k = map Some (take q src)"
    using inv by (simp_all add: link_inv_def)
  note serve = quiet_serve [OF assms(1,2)]
  obtain q' where q': "link_inv sid src q' ?k"
    using link_inv_serve [OF link_inv_pull [OF inv(1)] assms(2)] by blast
  then have inv': "link_inv sid src q' (link_round k)"
    using link_inv_receive [OF q' assms(2,3)] by (simp add: link_round_def)
  show ?thesis
  proof (cases "q < length src")
    case True
    have r: "link_round k = ?k\<lparr>lk_c := (lk_c k)\<lparr>sc_seq := sc_seq (lk_c k) + 1\<rparr>, lk_to_c := [],
        lk_got := lk_got k @ [Some (src ! q)]\<rparr>"
      using True serve quiet c
      by (simp add: link_round_def link_receive_def link_answer_def z_msg_new_def zstream_consumer_handle_def)
    have "q' = Suc q"
    proof -
      have "(of_nat q' :: u32) - 1 = of_nat q" using q' True serve by (simp add: link_inv_def link_answer_def)
      then have "(of_nat q' :: u32) = of_nat (Suc q)" by (simp add: algebra_simps)
      moreover have "q' \<le> Suc (length src)" using q' by (auto simp: link_inv_def)
      ultimately show ?thesis using of_nat_32_eq [of q' "Suc q"] le assms(2) by simp
    qed
    with True inv' r serve quiet inv(2) mem ok show ?thesis
      by (simp add: link_quiet_def link_answer_def held_blob_def free_ok)
  next
    case False
    with le have "q = length src" by simp
    with False serve quiet c mem got show ?thesis
      by (simp add: link_round_def link_receive_def link_answer_def z_msg_new_def zstream_consumer_handle_def)
  qed
qed

lemma rounds_quiet:
  assumes "sid \<noteq> 0" "length src < 65536" "\<And>n. alloc n" "i \<le> length src"
  shows "link_quiet sid src i ((link_round ^^ i) (link_open alloc ppid cpid open_tag sid src))"
  using assms(4)
proof (induction i)
  case 0
  have "link_inv sid src 0 (link_open alloc ppid cpid open_tag sid src)" by (rule link_inv_open [OF assms(1)])
  moreover have "alloc = (\<lambda>_. True)" using assms(3) by auto
  ultimately show ?case using assms(1)
    by (simp add: link_quiet_def link_open_def zstream_open_async_def zstream_accept_def zstream_consumer_handle_def
        z_msg_new_def Let_def held_blob_def)
next
  case (Suc i)
  then show ?case using quiet_round [OF Suc.IH assms(2,1)] by simp
qed

lemma rounds_complete:
  assumes "sid \<noteq> 0" "length src < 65536" "\<And>n. alloc n"
    and "k = (link_round ^^ Suc (length src)) (link_open alloc ppid cpid open_tag sid src)"
  shows "lk_got k = map Some src \<and> lk_eof k \<and> bl_data (lk_h k) = Map.empty"
  using quiet_round [OF rounds_quiet [where alloc = alloc, OF assms(1,2,3) order_refl] assms(2,1)] assms(4) by simp

lemma rounds_steps: "link_step\<^sup>*\<^sup>* k ((link_round ^^ n) k)"
proof (induction n)
  case (Suc n)
  have "link_step\<^sup>*\<^sup>* k (link_round k)" for k
  proof -
    have "link_step k (link_pull k)" by (rule link_step.pull)
    moreover have "link_step (link_pull k) (link_serve (link_pull k))" by (rule link_step.serve)
    moreover have "link_step (link_serve (link_pull k)) (link_round k)"
      unfolding link_round_def by (rule link_step.receive)
    ultimately show ?thesis by (meson rtranclp.rtrancl_refl rtranclp.rtrancl_into_rtrancl)
  qed
  then have "link_step\<^sup>*\<^sup>* ((link_round ^^ n) k) ((link_round ^^ Suc n) k)" by simp
  with Suc show ?case by (rule rtranclp_trans)
qed simp

section \<open>Properties\<close>





text \<open>
  An error out of turn. A producer that has sent a chunk and then, before the next pull, sends an error
  (as the file transfer proxy does on an error packet) frees the chunk: the consumer, which
  handles the chunk's message first, reads memory that is no longer the chunk's.
\<close>

theorem stream_error_frees_early:
  "lk_got (link_receive (case zstream_send_error (lk_p k) err (lk_h k) of (p, h, outs) \<Rightarrow> link_answer p h outs k)) = [None]"
  if "k = link_serve (link_pull (link_open (\<lambda>_. True) 3 0 1 7 [[1, 2], [3]]))"
proof -
  have "zstream_producer_handle (lk_p (link_open (\<lambda>_. True) 3 0 1 7 [[1, 2], [3]]))
      (z_msg_new 3 Z_STREAM_PULL (ZSTREAM_TAG 7 (of_nat 0)) SNone) h
    = (EVENT_PULL, lk_p (link_open (\<lambda>_. True) 3 0 1 7 [[1, 2], [3]]), h, [])" for h
    by (subst handle_pull [where q = 0 and sid = 7 and j = 0])
      (simp_all add: link_open_def zstream_open_async_def zstream_accept_def zstream_consumer_handle_def z_msg_new_def)
  then show ?thesis
    unfolding that
    by (simp add: link_open_def link_pull_def link_serve_def link_receive_def link_answer_def zstream_pull_async_def
        zstream_open_async_def zstream_accept_def zstream_consumer_handle_def zstream_send_chunk_def zstream_send_error_def
        z_obj_blob_def z_msg_new_def next_seq_def Let_def)
qed

text \<open>
  The events a polling consumer sees: the first message its handler reacts to, or the time running out.
\<close>

fun first_event ::
  "u32 \<Rightarrow> u32 \<Rightarrow> zstream_consumer \<Rightarrow> polls \<Rightarrow>
   (zstream_consumer_event \<times> zstream_consumer \<times> nat option \<times> string option) option" where
  "first_event start err_len st [] = None"
| "first_event start err_len st ((now, got) # ps) =
     (if now - start < ZSTREAM_TIMEOUT_TICKS then
        (case got of
           None \<Rightarrow> first_event start err_len st ps
         | Some msg \<Rightarrow>
             let r = zstream_consumer_handle err_len st msg in
             if fst r = CEVENT_NONE then first_event start err_len st ps else Some r)
      else Some (CEVENT_ERROR, st\<lparr>sc_active := False\<rparr>, None, set_err err_len ''timed out waiting for next chunk''))"

definition result_event :: "zstream_result \<Rightarrow> zstream_consumer_event" where
  "result_event r = (case r of ZSTREAM_CHUNK \<Rightarrow> CEVENT_CHUNK | ZSTREAM_EOF \<Rightarrow> CEVENT_EOF | ZSTREAM_ERROR \<Rightarrow> CEVENT_ERROR)"

lemma pull_wait_first_event:
  "sc_active st \<Longrightarrow>
   map_option (apfst result_event) (pull_wait start (ZSTREAM_TAG (sc_stream_id st) (sc_seq st)) err_len st ps)
   = first_event start err_len st ps"
  by (induction ps) (auto simp: zstream_consumer_handle_def result_event_def split: option.splits sobj.splits)

text \<open>
  The blocking pull is the non-blocking one with a loop around it. On an open stream it sends the
  message \<open>zstream_pull_async\<close> sends and returns what \<open>zstream_consumer_handle\<close> makes of the first polled
  message it reacts to, or closes the stream with an error at the first look at the clock that shows
  three seconds gone; and it returns as soon as such a message or such a look comes.
\<close>

theorem zstream_pull_blocking:
  assumes "sc_active st"
  shows "snd (zstream_pull err_len st start ps) = zstream_pull_async st \<and>
    map_option (apfst result_event) (fst (zstream_pull err_len st start ps)) = first_event start err_len st ps \<and>
    ((\<exists>x \<in> set ps. fst x - start \<ge> ZSTREAM_TIMEOUT_TICKS) \<longrightarrow> fst (zstream_pull err_len st start ps) \<noteq> None)"
proof -
  have "\<exists>x \<in> set ps. fst x - start \<ge> ZSTREAM_TIMEOUT_TICKS \<Longrightarrow> first_event start err_len st ps \<noteq> None"
  proof (induction ps)
    case (Cons x ps)
    show ?case
    proof (cases "fst x - start < ZSTREAM_TIMEOUT_TICKS")
      case True
      with Cons.prems have "\<exists>x \<in> set ps. fst x - start \<ge> ZSTREAM_TIMEOUT_TICKS" by auto
      from Cons.IH [OF this] show ?thesis by (cases x) (auto simp: Let_def simp del: not_None_eq split: option.splits)
    qed (cases x, simp)
  qed simp
  with pull_wait_first_event [OF assms, of start err_len ps, symmetric] assms show ?thesis
    by (simp add: zstream_pull_def zstream_pull_async_def Let_def del: not_None_eq split_paired_Ex)
qed

definition open_consumer :: zstream_consumer where
  "open_consumer = \<lparr>sc_stream_id = 7, sc_producer_pid = 3, sc_seq = 2, sc_active = True, sc_open_tag = 0\<rparr>"

theorem zstream_pull_blocking_witness:
  "map_option (apfst result_event)
     (fst (zstream_pull 0 open_consumer 10 [(11, None), (12, Some (z_msg_new 0 Z_STREAM_EOF (ZSTREAM_TAG 7 2) SNone))]))
   = Some (CEVENT_EOF, open_consumer\<lparr>sc_active := False\<rparr>, None, None)"
  using zstream_pull_blocking [of open_consumer 0 10 "[(11, None), (12, Some (z_msg_new 0 Z_STREAM_EOF (ZSTREAM_TAG 7 2) SNone))]"]
  by (simp add: open_consumer_def z_msg_new_def zstream_consumer_handle_def Let_def)

text \<open>
  Where the protocol gives up. After 65536 chunks the producer takes the next pull for a stale one
  and says nothing, so the consumer runs into its time limit; and the retry meant for a lost answer
  does not work for the end of file: the producer then sends a chunk message without a chunk, which
  the consumer reports as an error.
\<close>

theorem stream_limits:
  assumes "sp_active p" "sc_active c" "sp_stream_id p = sc_stream_id c" "sp_seq p + 1 = sc_seq c"
  shows "(sp_seq p = 0xFFFF \<longrightarrow>
       zstream_producer_handle p (hd (zstream_pull_async c)) h = (EVENT_NONE, p, h, [])) \<and>
    (sc_seq c < 65536 \<longrightarrow>
       (case zstream_send_eof p h of (p2, h2, eof) \<Rightarrow>
        case zstream_producer_handle p2 (hd (zstream_pull_async c)) h2 of (ev, p3, h3, again) \<Rightarrow>
          fst (zstream_consumer_handle 64 c (hd eof)) = CEVENT_EOF \<and>
          length again = 1 \<and> fst (zstream_consumer_handle 64 c (hd again)) = CEVENT_ERROR))"
proof -
  let ?s = "sc_seq c"
  have p: "sp_seq p = ?s - 1" using assms(4) by (simp add: eq_diff_eq)
  have nxt: "next_seq p = ?s" by (simp add: next_seq_eq p)
  have pull: "zstream_pull_async c = [z_msg_new (sc_producer_pid c) Z_STREAM_PULL (ZSTREAM_TAG (sc_stream_id c) ?s) SNone]"
    using assms(2) by (simp add: zstream_pull_async_def)
  have "zstream_producer_handle p (hd (zstream_pull_async c)) h = (EVENT_NONE, p, h, [])" if "sp_seq p = 0xFFFF"
  proof -
    have s: "?s = 0x10000" using assms(4) that by simp
    have "ZSTREAM_TAG_SEQ (ZSTREAM_TAG (sc_stream_id c) 0x10000) = 0"
      by (simp add: tag_fields take_bit_eq_mod flip: take_bit_eq_mask)
    with pull nxt s that assms show ?thesis
      by (simp add: zstream_producer_handle_def z_msg_new_def tag_fields and_ffff Let_def)
  qed
  moreover have "case zstream_send_eof p h of (p2, h2, eof) \<Rightarrow>
      case zstream_producer_handle p2 (hd (zstream_pull_async c)) h2 of (ev, p3, h3, again) \<Rightarrow>
        fst (zstream_consumer_handle 64 c (hd eof)) = CEVENT_EOF \<and>
        length again = 1 \<and> fst (zstream_consumer_handle 64 c (hd again)) = CEVENT_ERROR" if "?s < 65536"
  proof -
    have "unat ?s < 65536" using that by (simp add: word_less_nat_alt)
    then have s: "take_bit 16 ?s = ?s"
      using small_seq [of "unat ?s"] by simp
    have ne: "?s \<noteq> UINT32_MAX" "?s \<noteq> ?s + 1" using that by auto
    show ?thesis
      using pull nxt s ne assms
      by (simp add: zstream_send_eof_def zstream_producer_handle_def zstream_consumer_handle_def z_msg_new_def tag_fields
          and_ffff next_seq_eq Let_def)
  qed
  ultimately show ?thesis by blast
qed

theorem stream_limits_witness:
  "zstream_producer_handle \<lparr>sp_stream_id = 7, sp_consumer_pid = 0, sp_seq = 0xFFFF, sp_active = True, sp_last_chunk = SNone\<rparr>
     (hd (zstream_pull_async (open_consumer\<lparr>sc_seq := 0x10000\<rparr>))) \<lparr>bl_next = 0, bl_ok = (\<lambda>_. True), bl_data = Map.empty\<rparr> =
   (EVENT_NONE, \<lparr>sp_stream_id = 7, sp_consumer_pid = 0, sp_seq = 0xFFFF, sp_active = True, sp_last_chunk = SNone\<rparr>, \<lparr>bl_next = 0, bl_ok = (\<lambda>_. True), bl_data = Map.empty\<rparr>, [])"
  using stream_limits [of "\<lparr>sp_stream_id = 7, sp_consumer_pid = 0, sp_seq = 0xFFFF, sp_active = True, sp_last_chunk = SNone\<rparr>"
      "open_consumer\<lparr>sc_seq := 0x10000\<rparr>" "\<lparr>bl_next = 0, bl_ok = (\<lambda>_. True), bl_data = Map.empty\<rparr>"] by (simp add: open_consumer_def)

end
