(* ===== verification/Inet.thy ===== *)
theory Inet
  imports Prelude
begin

text \<open>
  The lower layers of the network process: Ethernet frames (\<open>src/sw/apps/net/eth.c\<close>), address
  resolution (\<open>arp.c\<close>), IPv4 with ICMP echo (\<open>ip.c\<close>) and UDP (\<open>udp.c\<close>). A received packet is a view:
  a function from offsets to the bytes behind a C pointer, with the length the code was told, so that
  a length beyond the buffer is visible. The network driver is an argument of the state: whether it
  accepts a frame. A callback at the end of a handler is the handler's result.
\<close>

section \<open>Bytes\<close>

type_synonym bytes = "u8 list"
type_synonym view = "nat \<Rightarrow> u8"

definition put16 :: "u16 \<Rightarrow> bytes" where
  "put16 x = [ucast (drop_bit 8 x AND 0xFF), ucast (x AND 0xFF)]"

definition put32 :: "u32 \<Rightarrow> bytes" where
  "put32 x = [ucast (drop_bit 24 x AND 0xFF), ucast (drop_bit 16 x AND 0xFF),
              ucast (drop_bit 8 x AND 0xFF), ucast (x AND 0xFF)]"

definition get16 :: "view \<Rightarrow> nat \<Rightarrow> u16" where
  "get16 p i = push_bit 8 (ucast (p i)) OR ucast (p (i + 1))"

definition get32 :: "view \<Rightarrow> nat \<Rightarrow> u32" where
  "get32 p i = push_bit 24 (ucast (p i)) OR push_bit 16 (ucast (p (i + 1))) OR
               push_bit 8 (ucast (p (i + 2))) OR ucast (p (i + 3))"

definition view_of :: "bytes \<Rightarrow> view" where
  "view_of xs i = (if i < length xs then xs ! i else 0)"

definition view_at :: "view \<Rightarrow> nat \<Rightarrow> view" where
  "view_at p k i = p (k + i)"

definition view_bytes :: "view \<Rightarrow> nat \<Rightarrow> bytes" where
  "view_bytes p n = map p [0..<n]"

section \<open>State\<close>

abbreviation ETH_HDR_LEN :: nat where "ETH_HDR_LEN \<equiv> 14"
abbreviation ETH_MTU :: nat where "ETH_MTU \<equiv> 1518"
abbreviation ETHERTYPE_IPV4 :: u16 where "ETHERTYPE_IPV4 \<equiv> 0x0800"
abbreviation ETHERTYPE_ARP :: u16 where "ETHERTYPE_ARP \<equiv> 0x0806"
abbreviation ARP_CACHE_SIZE :: nat where "ARP_CACHE_SIZE \<equiv> 8"
abbreviation IP_HDR_LEN :: nat where "IP_HDR_LEN \<equiv> 20"
abbreviation IP_MAX_PAYLOAD :: nat where "IP_MAX_PAYLOAD \<equiv> 1480"
abbreviation UDP_MAX_LISTENERS :: nat where "UDP_MAX_LISTENERS \<equiv> 4"
abbreviation UDP_HDR_LEN :: nat where "UDP_HDR_LEN \<equiv> 8"
abbreviation UDP_MAX_PAYLOAD :: nat where "UDP_MAX_PAYLOAD \<equiv> 1472"

record arp_entry =
  ae_used :: bool
  ae_ip :: u32
  ae_mac :: bytes

text \<open>The callback of a listener is known by a number.\<close>

record udp_listener =
  ul_used :: bool
  ul_port :: u16
  ul_handler :: nat

record net =
  n_mac :: bytes
  n_phy :: "bytes \<Rightarrow> bool"
  n_sent :: "bytes list"
  n_arp_cache :: "arp_entry list"
  n_arp_ip :: u32
  n_ip :: u32
  n_netmask :: u32
  n_gateway :: u32
  n_ip_id :: u16
  n_pending :: "(u32 \<times> bytes) option"
  n_listeners :: "udp_listener list"

section \<open>Ethernet\<close>

definition eth_init :: "bytes \<Rightarrow> net \<Rightarrow> net" where
  "eth_init mac s = s\<lparr>n_mac := mac\<rparr>"

definition eth_send :: "bytes \<Rightarrow> u16 \<Rightarrow> bytes \<Rightarrow> net \<Rightarrow> bool \<times> net" where
  "eth_send dst_mac ethertype payload s =
     (if ETH_HDR_LEN + length payload > ETH_MTU then (False, s)
      else
        let txbuf = dst_mac @ n_mac s @ put16 ethertype @ payload;
            frame = txbuf @ replicate (60 - length txbuf) 0 in
        (n_phy s frame, s\<lparr>n_sent := n_sent s @ [frame]\<rparr>))"

section \<open>ARP\<close>

definition bcast_mac :: bytes where "bcast_mac = replicate 6 0xFF"

definition arp_init :: "u32 \<Rightarrow> net \<Rightarrow> net" where
  "arp_init ip s = s\<lparr>n_arp_ip := ip, n_arp_cache := map (\<lambda>e. e\<lparr>ae_used := False\<rparr>) (n_arp_cache s)\<rparr>"

fun find_ix :: "('a \<Rightarrow> bool) \<Rightarrow> 'a list \<Rightarrow> nat option" where
  "find_ix P [] = None"
| "find_ix P (x # xs) = (if P x then Some 0 else map_option Suc (find_ix P xs))"

definition arp_cache_insert :: "u32 \<Rightarrow> bytes \<Rightarrow> arp_entry list \<Rightarrow> arp_entry list" where
  "arp_cache_insert ip mac cache =
     (case find_ix (\<lambda>e. ae_used e \<and> ae_ip e = ip) cache of
        Some i \<Rightarrow> upd_nth i (\<lambda>e. e\<lparr>ae_mac := mac\<rparr>) cache
      | None \<Rightarrow>
          (case find_ix (\<lambda>e. \<not> ae_used e) cache of
             Some i \<Rightarrow> upd_nth i (\<lambda>e. e\<lparr>ae_used := True, ae_ip := ip, ae_mac := mac\<rparr>) cache
           | None \<Rightarrow> upd_nth 0 (\<lambda>e. e\<lparr>ae_used := True, ae_ip := ip, ae_mac := mac\<rparr>) cache))"

definition arp_lookup :: "u32 \<Rightarrow> arp_entry list \<Rightarrow> bytes option" where
  "arp_lookup ip cache = map_option ae_mac (List.find (\<lambda>e. ae_used e \<and> ae_ip e = ip) cache)"

definition arp_send :: "u16 \<Rightarrow> bytes option \<Rightarrow> u32 \<Rightarrow> net \<Rightarrow> net" where
  "arp_send oper target_mac target_ip s =
     (let p = [0, 1] @ [8, 0] @ [6] @ [4] @ put16 oper @ n_mac s @ put32 (n_arp_ip s) @
              (case target_mac of Some m \<Rightarrow> m | None \<Rightarrow> replicate 6 0) @ put32 target_ip in
      snd (eth_send (case target_mac of Some m \<Rightarrow> m | None \<Rightarrow> bcast_mac) ETHERTYPE_ARP p s))"

definition arp_request :: "u32 \<Rightarrow> net \<Rightarrow> net" where
  "arp_request ip s = arp_send 1 None ip s"

definition arp_handle :: "view \<Rightarrow> nat \<Rightarrow> net \<Rightarrow> net" where
  "arp_handle p len s =
     (if len < 28 then s
      else if get16 p 0 \<noteq> 1 \<or> get16 p 2 \<noteq> 0x0800 \<or> p 4 \<noteq> 6 \<or> p 5 \<noteq> 4 then s
      else
        let oper = get16 p 6; sha = view_bytes (view_at p 8) 6; spa = get32 p 14; tpa = get32 p 24;
            s = s\<lparr>n_arp_cache := arp_cache_insert spa sha (n_arp_cache s)\<rparr> in
        if oper = 1 \<and> tpa = n_arp_ip s then arp_send 2 (Some sha) spa s else s)"

section \<open>IPv4\<close>

fun sum16 :: "bytes \<Rightarrow> u32" where
  "sum16 (a # b # xs) = (push_bit 8 (ucast a) OR ucast b) + sum16 xs"
| "sum16 [a] = push_bit 8 (ucast a)"
| "sum16 [] = 0"

text \<open>Folding the carries back in ends: each turn makes the sum smaller.\<close>

lemma unat_fold:
  "unat ((s AND 0xFFFF) + drop_bit 16 s :: u32) = unat s mod 65536 + unat s div 65536"
proof -
  have m: "(0xFFFF :: u32) = mask 16" by (simp add: mask_eq_exp_minus_1)
  have a: "unat (s AND 0xFFFF) = unat s mod 65536"
    unfolding m by (simp only: unsigned_take_bit_eq take_bit_eq_mask [symmetric]) (simp add: take_bit_eq_mod)
  have d: "unat (drop_bit 16 s) = unat s div 65536" by (simp add: drop_bit_eq_div unat_div)
  have "unat s mod 65536 + unat s div 65536 \<le> unat s"
    using mult_div_mod_eq [of 65536 "unat s"] by linarith
  then have "unat (s AND 0xFFFF) + unat (drop_bit 16 s) < 4294967296"
    unfolding a d using unat_lt_32 [of s] by linarith
  from unat_plus_nowrap [OF this] show ?thesis unfolding a d .
qed

lemma high_nonzero: "drop_bit 16 (s :: u32) \<noteq> 0 \<longleftrightarrow> 65536 \<le> unat s"
proof -
  have "unat (drop_bit 16 s) = unat s div 65536" by (simp add: drop_bit_eq_div unat_div)
  then have "drop_bit 16 s = 0 \<longleftrightarrow> unat s div 65536 = 0" by (metis unat_0 unat_eq_0)
  then show ?thesis by (simp add: div_eq_0_iff not_less)
qed

lemma fold_less:
  assumes "drop_bit 16 (s :: u32) \<noteq> 0"
  shows "unat ((s AND 0xFFFF) + drop_bit 16 s) < unat s"
proof -
  have "unat s div 65536 \<ge> 1" using assms high_nonzero by (simp add: div_le_mono [of 65536 "unat s" 65536, simplified])
  then show ?thesis unfolding unat_fold using mult_div_mod_eq [of 65536 "unat s"] by linarith
qed

function fold_sum :: "u32 \<Rightarrow> u32" where
  "fold_sum s = (if drop_bit 16 s \<noteq> 0 then fold_sum ((s AND 0xFFFF) + drop_bit 16 s) else s)"
  by pat_completeness auto
termination by (relation "measure unat") (use fold_less in auto)

declare fold_sum.simps [simp del]

definition ip_checksum :: "bytes \<Rightarrow> u16" where
  "ip_checksum data = ucast (NOT (fold_sum (sum16 data)))"

definition ip_init :: "u32 \<Rightarrow> u32 \<Rightarrow> u32 \<Rightarrow> net \<Rightarrow> net" where
  "ip_init ip netmask gateway_ip s = s\<lparr>n_ip := ip, n_netmask := netmask, n_gateway := gateway_ip\<rparr>"

definition ip_our_addr :: "net \<Rightarrow> u32" where "ip_our_addr s = n_ip s"

definition ip_is_local :: "u32 \<Rightarrow> net \<Rightarrow> bool" where
  "ip_is_local ip s \<longleftrightarrow> ip AND n_netmask s = n_ip s AND n_netmask s"

definition ip_header :: "u32 \<Rightarrow> u8 \<Rightarrow> nat \<Rightarrow> net \<Rightarrow> bytes" where
  "ip_header dst_ip protocol total_len s =
     [0x45, 0x00] @ put16 (of_nat total_len) @ put16 (n_ip_id s) @ [0x40, 0x00, 64, protocol, 0, 0] @
     put32 (n_ip s) @ put32 dst_ip"

definition with_checksum :: "nat \<Rightarrow> u16 \<Rightarrow> bytes \<Rightarrow> bytes" where
  "with_checksum at_byte csum pkt =
     pkt[at_byte := ucast (drop_bit 8 csum AND 0xFF), at_byte + 1 := ucast (csum AND 0xFF)]"

definition ip_send :: "u32 \<Rightarrow> u8 \<Rightarrow> bytes \<Rightarrow> net \<Rightarrow> bool \<times> net" where
  "ip_send dst_ip protocol payload s =
     (if length payload > IP_MAX_PAYLOAD then (False, s)
      else
        let total_len = IP_HDR_LEN + length payload;
            hdr = ip_header dst_ip protocol total_len s;
            s = s\<lparr>n_ip_id := n_ip_id s + 1\<rparr>;
            pkt = with_checksum 10 (ip_checksum hdr) hdr @ payload in
        if dst_ip = 0xFFFFFFFF then eth_send bcast_mac ETHERTYPE_IPV4 pkt s
        else
          let next_hop = (if ip_is_local dst_ip s then dst_ip else n_gateway s) in
          case arp_lookup next_hop (n_arp_cache s) of
            None \<Rightarrow> (False, (arp_request next_hop s)\<lparr>n_pending := Some (next_hop, pkt)\<rparr>)
          | Some dst_mac \<Rightarrow> eth_send dst_mac ETHERTYPE_IPV4 pkt s)"

definition ip_poll :: "net \<Rightarrow> net" where
  "ip_poll s =
     (case n_pending s of
        None \<Rightarrow> s
      | Some (next_hop, pkt) \<Rightarrow>
          (case arp_lookup next_hop (n_arp_cache s) of
             None \<Rightarrow> s
           | Some dst_mac \<Rightarrow> snd (eth_send dst_mac ETHERTYPE_IPV4 pkt (s\<lparr>n_pending := None\<rparr>))))"

definition icmp_handle :: "u32 \<Rightarrow> view \<Rightarrow> nat \<Rightarrow> net \<Rightarrow> net" where
  "icmp_handle src_ip p len s =
     (if len < 8 then s
      else if p 0 \<noteq> 8 then s
      else if len > IP_MAX_PAYLOAD then s
      else
        let reply = (view_bytes p len)[0 := 0, 1 := 0, 2 := 0, 3 := 0] in
        snd (ip_send src_ip 1 (with_checksum 2 (ip_checksum reply) reply) s))"

section \<open>UDP\<close>

definition udp_listen :: "u16 \<Rightarrow> nat \<Rightarrow> net \<Rightarrow> net" where
  "udp_listen port handler s =
     (case find_ix (\<lambda>l. ul_used l \<and> ul_port l = port) (n_listeners s) of
        Some i \<Rightarrow> s\<lparr>n_listeners := upd_nth i (\<lambda>l. l\<lparr>ul_handler := handler\<rparr>) (n_listeners s)\<rparr>
      | None \<Rightarrow>
          (case find_ix (\<lambda>l. \<not> ul_used l) (n_listeners s) of
             Some i \<Rightarrow> s\<lparr>n_listeners := upd_nth i (\<lambda>l. l\<lparr>ul_used := True, ul_port := port, ul_handler := handler\<rparr>)
                                                   (n_listeners s)\<rparr>
           | None \<Rightarrow> s))"

definition udp_close :: "u16 \<Rightarrow> net \<Rightarrow> net" where
  "udp_close port s = s\<lparr>n_listeners :=
     map (\<lambda>l. if ul_used l \<and> ul_port l = port then l\<lparr>ul_used := False\<rparr> else l) (n_listeners s)\<rparr>"

definition udp_send :: "u32 \<Rightarrow> u16 \<Rightarrow> u16 \<Rightarrow> bytes \<Rightarrow> net \<Rightarrow> bool \<times> net" where
  "udp_send dst_ip dst_port src_port data s =
     (if length data > UDP_MAX_PAYLOAD then (False, s)
      else
        let total_len = UDP_HDR_LEN + length data;
            pkt = put16 src_port @ put16 dst_port @ put16 (of_nat total_len) @ [0, 0] @ data in
        ip_send dst_ip 17 pkt s)"

text \<open>What a handler passes on: to the TCP layer, or to a UDP listener.\<close>

datatype upcall =
    NoCall
  | TcpCall u32 view nat
  | UdpCall nat u32 u16 view nat

definition udp_handle :: "u32 \<Rightarrow> view \<Rightarrow> nat \<Rightarrow> net \<Rightarrow> upcall" where
  "udp_handle src_ip p len s =
     (if len < UDP_HDR_LEN then NoCall
      else
        let src_port = get16 p 0; dst_port = get16 p 2; total_len = get16 p 4 in
        if unat total_len > len then NoCall
        else
          let payload = view_at p UDP_HDR_LEN; paylen = total_len - 8 in
          case List.find (\<lambda>l. ul_used l \<and> ul_port l = dst_port) (n_listeners s) of
            Some l \<Rightarrow> UdpCall (ul_handler l) src_ip src_port payload (unat paylen)
          | None \<Rightarrow> NoCall)"

definition ip_handle :: "view \<Rightarrow> nat \<Rightarrow> net \<Rightarrow> upcall \<times> net" where
  "ip_handle p len s =
     (if len < IP_HDR_LEN then (NoCall, s)
      else
        let ihl = unat ((p 0 AND 0x0F) * 4) in
        if ihl < IP_HDR_LEN \<or> len < ihl then (NoCall, s)
        else
          let total_len = get16 p 2 in
          if unat total_len > len then (NoCall, s)
          else
            let protocol = p 9; src_ip = get32 p 12; dst_ip = get32 p 16 in
            if dst_ip \<noteq> n_ip s \<and> dst_ip \<noteq> 0xFFFFFFFF \<and> n_ip s \<noteq> 0 then (NoCall, s)
            else
              let payload = view_at p ihl; paylen = unat (total_len - of_nat ihl) in
              if protocol = 1 then (NoCall, icmp_handle src_ip payload paylen s)
              else if protocol = 6 then (TcpCall src_ip payload paylen, s)
              else if protocol = 17 then (udp_handle src_ip payload paylen s, s)
              else (NoCall, s))"

section \<open>Receiving frames\<close>

definition eth_frame :: "view \<Rightarrow> nat \<Rightarrow> net \<Rightarrow> upcall \<times> net" where
  "eth_frame rxbuf len s =
     (if len < ETH_HDR_LEN then (NoCall, s)
      else
        let ethertype = get16 rxbuf 12; payload = view_at rxbuf ETH_HDR_LEN; paylen = len - ETH_HDR_LEN in
        if ethertype = ETHERTYPE_ARP then (NoCall, arp_handle payload paylen s)
        else if ethertype = ETHERTYPE_IPV4 then ip_handle payload paylen s
        else (NoCall, s))"

text \<open>
  \<open>eth_poll\<close> takes at most 64 of the frames the driver has; the callbacks run between frames, so it
  is given what they do to the state.
\<close>

fun eth_poll :: "(upcall \<Rightarrow> net \<Rightarrow> net) \<Rightarrow> nat \<Rightarrow> bytes list \<Rightarrow> net \<Rightarrow> net \<times> bytes list" where
  "eth_poll call drained [] s = (s, [])"
| "eth_poll call drained (f # fs) s =
     (if drained \<ge> 64 then (s, fs)
      else case eth_frame (view_of f) (length f) s of (u, s) \<Rightarrow> eth_poll call (Suc drained) fs (call u s))"

section \<open>Reading back what was written\<close>

lemma ucast_u16_bytes:
  "push_bit 8 (ucast (ucast (drop_bit 8 x AND 0xFF) :: u8)) OR ucast (ucast (x AND 0xFF) :: u8) = (x :: u16)"
  (is "?l = x")
proof (rule bit_word_eqI)
  fix n assume "n < LENGTH(16)"
  have m: "(0xFF :: u16) = mask 8" by (simp add: mask_eq_exp_minus_1)
  from \<open>n < LENGTH(16)\<close> show "bit ?l n \<longleftrightarrow> bit x n"
    unfolding m by (auto simp: bit_simps)
qed

lemma ucast_u32_bytes:
  "push_bit 24 (ucast (ucast (drop_bit 24 x AND 0xFF) :: u8)) OR push_bit 16 (ucast (ucast (drop_bit 16 x AND 0xFF) :: u8)) OR
   push_bit 8 (ucast (ucast (drop_bit 8 x AND 0xFF) :: u8)) OR ucast (ucast (x AND 0xFF) :: u8) = (x :: u32)"
  (is "?l = x")
proof (rule bit_word_eqI)
  fix n assume "n < LENGTH(32)"
  have m: "(0xFF :: u32) = mask 8" by (simp add: mask_eq_exp_minus_1)
  consider "n < 8" | "8 \<le> n \<and> n < 16" | "16 \<le> n \<and> n < 24" | "24 \<le> n" by linarith
  then show "bit ?l n \<longleftrightarrow> bit x n"
    using \<open>n < LENGTH(32)\<close> unfolding m by cases (auto simp: bit_simps)
qed

lemma length_put [simp]: "length (put16 x) = 2" "length (put32 y) = 4"
  by (simp_all add: put16_def put32_def)

lemma view_of_nth: "i < length xs \<Longrightarrow> view_of xs i = xs ! i"
  by (simp add: view_of_def)

lemma get16_put: "length pre = i \<Longrightarrow> get16 (view_of (pre @ put16 x @ post)) i = x"
  by (auto simp: get16_def view_of_def put16_def nth_append ucast_u16_bytes)

lemma get32_put: "length pre = i \<Longrightarrow> get32 (view_of (pre @ put32 x @ post)) i = x"
  by (auto simp: get32_def view_of_def put32_def nth_append ucast_u32_bytes)

lemma get16_nth: "get16 (view_of xs) i = push_bit 8 (ucast (view_of xs i)) OR ucast (view_of xs (i + 1))"
  by (simp add: get16_def)

section \<open>The Internet checksum\<close>

text \<open>The sum as a number, and folding as the remainder modulo 65535 that avoids zero.\<close>

fun words :: "bytes \<Rightarrow> nat" where
  "words (a # b # xs) = 256 * unat a + unat b + words xs"
| "words [a] = 256 * unat a"
| "words [] = 0"

lemma unat_le_8: "unat (x :: u8) \<le> 255"
  using unat_lt_8 [of x] by linarith

lemma unat_be: "unat (push_bit 8 (ucast (a :: u8)) OR ucast (b :: u8) :: u32) = 256 * unat a + unat b"
proof -
  have "push_bit 8 (ucast a) OR ucast b = (push_bit 8 (ucast a) + ucast b :: u32)"
    by (rule disjunctive_add [symmetric]) (auto simp: bit_simps dest: bit_imp_le_length)
  moreover have "unat (push_bit 8 (ucast a) :: u32) = 256 * unat a"
    using unat_le_8 [of a] by (simp add: push_bit_eq_mult unat_word_ariths unsigned_ucast_eq take_bit_eq_mod)
  moreover have "unat (ucast b :: u32) = unat b" using unat_le_8 [of b] by (simp add: unsigned_ucast_eq take_bit_eq_mod)
  moreover have "256 * unat a + unat b < 4294967296" using unat_le_8 [of a] unat_le_8 [of b] by linarith
  ultimately show ?thesis by (simp add: unat_plus_nowrap)
qed

lemma words_le: "words xs \<le> 65535 * ((length xs + 1) div 2)"
proof (induction xs rule: words.induct)
  case (1 a b xs)
  have "256 * unat a + unat b \<le> 65535" using unat_le_8 [of a] unat_le_8 [of b] by linarith
  with 1 show ?case by simp
next
  case (2 a)
  show ?case using unat_le_8 [of a] by simp
qed simp

lemma unat_sum16: "length xs \<le> 100000 \<Longrightarrow> unat (sum16 xs) = words xs"
proof (induction xs rule: words.induct)
  case (1 a b xs)
  then have "unat (sum16 xs) = words xs" by simp
  moreover have "256 * unat a + unat b + words xs < 4294967296"
    using words_le [of "a # b # xs"] 1(2) by simp
  ultimately show ?case by (simp add: unat_plus_nowrap unat_be)
next
  case (2 a)
  have "unat (sum16 [a]) = 256 * unat a" using unat_be [of a 0] by simp
  then show ?case by simp
qed simp

lemma fold_sum_props:
  "unat (fold_sum s) < 65536 \<and> unat (fold_sum s) mod 65535 = unat s mod 65535 \<and> (fold_sum s = 0 \<longleftrightarrow> s = 0)"
proof (induction s rule: fold_sum.induct)
  case (1 s)
  show ?case
  proof (cases "drop_bit 16 s = 0")
    case True
    then have "unat s < 65536" using high_nonzero [of s] by linarith
    then show ?thesis using True by (subst (1 2 3) fold_sum.simps) simp
  next
    case False
    let ?t = "(s AND 0xFFFF) + drop_bit 16 s"
    have eq: "unat s = 65536 * (unat s div 65536) + unat s mod 65536" by simp
    have "unat ?t + 65535 * (unat s div 65536) = unat s"
      unfolding unat_fold using eq by linarith
    then have "unat ?t mod 65535 = unat s mod 65535" by (metis mod_mult_self2)
    moreover have "?t \<noteq> 0"
    proof
      assume "?t = 0"
      then have "unat ?t = 0" by simp
      then have "unat s mod 65536 = 0" "unat s div 65536 = 0" unfolding unat_fold by simp_all
      with eq have "unat s = 0" by simp
      with False high_nonzero [of s] show False by simp
    qed
    moreover have "s \<noteq> 0" using False by auto
    moreover have "fold_sum s = fold_sum ?t" using False by (subst fold_sum.simps) simp
    ultimately show ?thesis using 1 [OF False] by metis
  qed
qed

lemma unat_complement: "unat (ucast (NOT (fold_sum s)) :: u16) = 65535 - unat (fold_sum s)"
proof -
  let ?f = "fold_sum s"
  have "unat ?f < 65536" using fold_sum_props by blast
  then have f: "unat (ucast ?f :: u16) = unat ?f" by (simp add: unsigned_ucast_eq take_bit_eq_mod)
  have "(ucast (NOT ?f) :: u16) = NOT (ucast ?f)" by (rule bit_word_eqI) (simp add: bit_simps)
  then have "(ucast (NOT ?f) :: u16) = 0xFFFF - ucast ?f" by (simp add: not_eq_complement)
  then show ?thesis using f \<open>unat ?f < 65536\<close> by (simp add: unat_sub word_le_nat_alt)
qed

text \<open>Adding the complement of the folded sum makes the folded sum all ones.\<close>

lemma fold_complement:
  assumes "unat s' = unat s + unat (ucast (NOT (fold_sum s)) :: u16)"
  shows "(ucast (NOT (fold_sum s')) :: u16) = 0"
proof -
  let ?F = "unat (fold_sum s)" let ?G = "unat (fold_sum s')"
  have F: "?F < 65536" "?F mod 65535 = unat s mod 65535" "?F = 0 \<longleftrightarrow> unat s = 0"
    using fold_sum_props [of s] by (auto simp: unat_eq_0)
  have G: "?G < 65536" "?G mod 65535 = unat s' mod 65535" "?G = 0 \<longleftrightarrow> unat s' = 0"
    using fold_sum_props [of s'] by (auto simp: unat_eq_0)
  have S: "unat s' = unat s + 65535 - ?F" using assms F(1) by (simp add: unat_complement)
  have pos: "unat s + 65535 - ?F > 0" using F by (cases "unat s = 0") auto
  have "(unat s + 65535 - ?F) mod 65535 = 0"
  proof -
    have "unat s + 65535 - ?F + ?F = unat s + 65535" using F(1) by simp
    then have "((unat s + 65535 - ?F) + ?F) mod 65535 = ?F mod 65535" using F(2) by simp
    then have "65535 dvd (unat s + 65535 - ?F) + ?F - ?F" by (simp only: mod_eq_dvd_iff_nat [OF le_add2])
    then show ?thesis by (simp add: dvd_imp_mod_0)
  qed
  then have "?G mod 65535 = 0" "?G \<noteq> 0" using S G pos by simp_all
  moreover from \<open>?G mod 65535 = 0\<close> obtain k where k: "?G = 65535 * k" by (auto simp: mod_eq_0_iff_dvd dvd_def)
  ultimately have "k \<noteq> 0" by auto
  moreover have "k < 2" using k G(1) by linarith
  ultimately have "?G = 65535" using k by (simp add: less_2_cases_iff)
  then show ?thesis using unat_complement [of s'] by (simp add: unat_eq_0)
qed

lemma words_update:
  "Suc (2 * j) < length xs \<Longrightarrow> xs ! (2 * j) = 0 \<Longrightarrow> xs ! Suc (2 * j) = 0 \<Longrightarrow>
   words (xs[2 * j := a, Suc (2 * j) := b]) = words xs + 256 * unat a + unat b"
proof (induction xs arbitrary: j rule: words.induct)
  case (1 x y xs)
  then show ?case by (cases j) auto
qed auto

lemma words_with_checksum:
  assumes "Suc (2 * j) < length xs" "xs ! (2 * j) = 0" "xs ! Suc (2 * j) = 0"
  shows "words (with_checksum (2 * j) c xs) = words xs + unat c"
proof -
  have m: "(0xFF :: u16) = mask 8" by (simp add: mask_eq_exp_minus_1)
  have "unat (drop_bit 8 c) = unat c div 256" by (simp add: drop_bit_eq_div unat_div)
  moreover have "unat c div 256 < 256" using unat_lt_16 [of c] by linarith
  ultimately have "unat (ucast (drop_bit 8 c AND 0xFF) :: u8) = unat c div 256"
    unfolding m take_bit_eq_mask [symmetric] unsigned_ucast_eq unsigned_take_bit_eq
    by (simp only:) (simp add: take_bit_eq_mod)
  moreover have "unat (ucast (c AND 0xFF) :: u8) = unat c mod 256"
    unfolding m take_bit_eq_mask [symmetric] unsigned_ucast_eq unsigned_take_bit_eq by (simp add: take_bit_eq_mod)
  ultimately show ?thesis
    using words_update [OF assms] by (simp add: with_checksum_def)
qed

text \<open>A packet with its checksum filled in sums to all ones.\<close>

lemma checksum_verifies:
  assumes "length xs \<le> 100000" "Suc (2 * j) < length xs" "xs ! (2 * j) = 0" "xs ! Suc (2 * j) = 0"
  shows "ip_checksum (with_checksum (2 * j) (ip_checksum xs) xs) = 0"
  unfolding ip_checksum_def
  by (rule fold_complement [where s = "sum16 xs"])
    (use assms(1) words_with_checksum [OF assms(2-4)] in \<open>simp add: unat_sum16 with_checksum_def\<close>)

section \<open>The ARP cache as a map\<close>

lemma find_ix_Some: "find_ix P xs = Some i \<Longrightarrow> i < length xs \<and> P (xs ! i) \<and> (\<forall>j < i. \<not> P (xs ! j))"
proof (induction xs arbitrary: i)
  case (Cons x xs)
  show ?case
  proof (cases "P x")
    case True
    with Cons.prems show ?thesis by simp
  next
    case False
    with Cons.prems obtain k where k: "i = Suc k" "find_ix P xs = Some k" by auto
    from Cons.IH [OF k(2)] False k(1) show ?thesis by (auto simp: less_Suc_eq_0_disj)
  qed
qed simp

lemma find_ix_None: "find_ix P xs = None \<longleftrightarrow> (\<forall>i < length xs. \<not> P (xs ! i))"
  by (induction xs) (auto simp: less_Suc_eq_0_disj)

definition arp_ok :: "arp_entry list \<Rightarrow> bool" where
  "arp_ok cache \<longleftrightarrow> length cache = ARP_CACHE_SIZE \<and>
     (\<forall>i < length cache. \<forall>j < length cache.
        ae_used (cache ! i) \<longrightarrow> ae_used (cache ! j) \<longrightarrow> ae_ip (cache ! i) = ae_ip (cache ! j) \<longrightarrow> i = j)"

definition arp_full :: "arp_entry list \<Rightarrow> bool" where
  "arp_full cache \<longleftrightarrow> (\<forall>e \<in> set cache. ae_used e)"

lemma arp_lookup_iff:
  assumes "arp_ok cache"
  shows "arp_lookup ip cache = Some m \<longleftrightarrow>
    (\<exists>i < length cache. ae_used (cache ! i) \<and> ae_ip (cache ! i) = ip \<and> ae_mac (cache ! i) = m)"
proof
  assume "arp_lookup ip cache = Some m"
  then show "\<exists>i < length cache. ae_used (cache ! i) \<and> ae_ip (cache ! i) = ip \<and> ae_mac (cache ! i) = m"
    by (auto simp: arp_lookup_def find_Some_iff)
next
  assume "\<exists>i < length cache. ae_used (cache ! i) \<and> ae_ip (cache ! i) = ip \<and> ae_mac (cache ! i) = m"
  then obtain i where i: "i < length cache" "ae_used (cache ! i)" "ae_ip (cache ! i) = ip" "ae_mac (cache ! i) = m" by blast
  then have "\<forall>j < i. \<not> (ae_used (cache ! j) \<and> ae_ip (cache ! j) = ip)"
    using assms unfolding arp_ok_def by (metis less_trans nat_neq_iff)
  with i show "arp_lookup ip cache = Some m"
    unfolding arp_lookup_def by (auto simp: find_Some_iff intro!: exI [of _ "cache ! i"] exI [of _ i])
qed

lemma arp_lookup_None:
  "arp_lookup ip cache = None \<longleftrightarrow> (\<forall>i < length cache. ae_used (cache ! i) \<longrightarrow> ae_ip (cache ! i) \<noteq> ip)"
  by (auto simp: arp_lookup_def find_None_iff in_set_conv_nth)

lemma arp_entry_new [simp]:
  "e\<lparr>ae_used := True, ae_ip := ip, ae_mac := mac\<rparr> = \<lparr>ae_used = True, ae_ip = ip, ae_mac = mac\<rparr>"
  by (cases e) simp

lemma option_eqI: "(\<And>m. x = Some m \<longleftrightarrow> y = Some m) \<Longrightarrow> x = y"
  by (cases x; cases y) auto

text \<open>The slot an insertion uses, and what it means for everybody else.\<close>

lemma arp_cache_insert_slot:
  assumes "arp_ok cache"
  obtains i where "i < length cache" "arp_cache_insert ip mac cache = cache[i := \<lparr>ae_used = True, ae_ip = ip, ae_mac = mac\<rparr>]"
    "\<forall>j < length cache. j \<noteq> i \<longrightarrow> ae_used (cache ! j) \<longrightarrow> ae_ip (cache ! j) \<noteq> ip"
    "ae_used (cache ! i) \<longrightarrow> ae_ip (cache ! i) = ip \<or> (arp_full cache \<and> i = 0 \<and> arp_lookup ip cache = None)"
proof (cases "find_ix (\<lambda>e. ae_used e \<and> ae_ip e = ip) cache")
  case (Some i)
  from find_ix_Some [OF Some] have i: "i < length cache" "ae_used (cache ! i)" "ae_ip (cache ! i) = ip" by auto
  have rec: "(cache ! i)\<lparr>ae_mac := mac\<rparr> = \<lparr>ae_used = True, ae_ip = ip, ae_mac = mac\<rparr>"
    using i by (cases "cache ! i") simp
  have "arp_cache_insert ip mac cache = cache[i := \<lparr>ae_used = True, ae_ip = ip, ae_mac = mac\<rparr>]"
    unfolding arp_cache_insert_def Some upd_nth_def option.case by (simp only: rec)
  then show ?thesis by (rule that [OF i(1)]) (use i assms in \<open>auto simp: arp_ok_def\<close>)
next
  case None
  then have no: "\<And>j. j < length cache \<Longrightarrow> ae_used (cache ! j) \<Longrightarrow> ae_ip (cache ! j) \<noteq> ip"
    by (auto simp: find_ix_None)
  show ?thesis
  proof (cases "find_ix (\<lambda>e. \<not> ae_used e) cache")
    case (Some i)
    from find_ix_Some [OF Some] have i: "i < length cache" "\<not> ae_used (cache ! i)" by auto
    then show ?thesis using that [of i] None Some no by (auto simp: arp_cache_insert_def upd_nth_def)
  next
    case full: None
    then have "arp_full cache" by (auto simp: find_ix_None arp_full_def in_set_conv_nth)
    moreover have "0 < length cache" using assms by (simp add: arp_ok_def)
    moreover have "arp_lookup ip cache = None" using no by (simp add: arp_lookup_None)
    ultimately show ?thesis using that [of 0] None full no by (simp add: arp_cache_insert_def upd_nth_def)
  qed
qed

lemma arp_insert_ok:
  assumes "arp_ok cache"
  shows "arp_ok (arp_cache_insert ip mac cache)"
proof -
  obtain i where "i < length cache" "arp_cache_insert ip mac cache = cache[i := \<lparr>ae_used = True, ae_ip = ip, ae_mac = mac\<rparr>]"
    "\<forall>j < length cache. j \<noteq> i \<longrightarrow> ae_used (cache ! j) \<longrightarrow> ae_ip (cache ! j) \<noteq> ip"
    by (rule arp_cache_insert_slot [OF assms, of ip mac])
  with assms show ?thesis by (auto simp: arp_ok_def nth_list_update)
qed

lemma arp_lookup_insert:
  assumes "arp_ok cache"
  shows "arp_lookup ip' (arp_cache_insert ip mac cache) =
    (if ip' = ip then Some mac
     else if arp_full cache \<and> arp_lookup ip cache = None \<and> ip' = ae_ip (cache ! 0) then None
     else arp_lookup ip' cache)"
proof -
  obtain i where i: "i < length cache" "arp_cache_insert ip mac cache = cache[i := \<lparr>ae_used = True, ae_ip = ip, ae_mac = mac\<rparr>]"
    "\<forall>j < length cache. j \<noteq> i \<longrightarrow> ae_used (cache ! j) \<longrightarrow> ae_ip (cache ! j) \<noteq> ip"
    "ae_used (cache ! i) \<longrightarrow> ae_ip (cache ! i) = ip \<or> (arp_full cache \<and> i = 0 \<and> arp_lookup ip cache = None)"
    by (rule arp_cache_insert_slot [OF assms, of ip mac])
  have ok: "arp_ok (cache[i := \<lparr>ae_used = True, ae_ip = ip, ae_mac = mac\<rparr>])" using arp_insert_ok [OF assms, of ip mac] i(2) by simp
  have upd: "arp_lookup ip' (cache[i := \<lparr>ae_used = True, ae_ip = ip, ae_mac = mac\<rparr>]) = Some m \<longleftrightarrow>
      (ip' = ip \<and> m = mac) \<or> (ip' \<noteq> ip \<and> arp_lookup ip' cache = Some m \<and> \<not> (ae_used (cache ! i) \<and> ae_ip (cache ! i) = ip'))" for m
  proof -
    have split: "(\<exists>k < length cache. Q (cache[i := e] ! k)) \<longleftrightarrow> Q e \<or> (\<exists>k < length cache. k \<noteq> i \<and> Q (cache ! k))" for Q e
      using i(1) by (metis nth_list_update)
    have iff: "arp_lookup ip' (cache[i := \<lparr>ae_used = True, ae_ip = ip, ae_mac = mac\<rparr>]) = Some m \<longleftrightarrow>
        (ip' = ip \<and> m = mac) \<or>
        (\<exists>k < length cache. k \<noteq> i \<and> ae_used (cache ! k) \<and> ae_ip (cache ! k) = ip' \<and> ae_mac (cache ! k) = m)"
      unfolding arp_lookup_iff [OF ok] length_list_update split [of "\<lambda>e. ae_used e \<and> ae_ip e = ip' \<and> ae_mac e = m"]
      by auto
    show ?thesis
    proof (cases "ip' = ip")
      case True
      with iff i(3) show ?thesis by auto
    next
      case False
      have uniq: "k = i" if "k < length cache" "ae_used (cache ! k)" "ae_ip (cache ! k) = ip'"
        "ae_used (cache ! i)" "ae_ip (cache ! i) = ip'" for k
        using assms that i(1) unfolding arp_ok_def by blast
      with iff False show ?thesis unfolding arp_lookup_iff [OF assms] by blast
    qed
  qed
  have evict: "ae_used (cache ! i) \<and> ae_ip (cache ! i) = ip' \<longleftrightarrow>
      arp_full cache \<and> arp_lookup ip cache = None \<and> ip' = ae_ip (cache ! 0)" if "ip' \<noteq> ip"
  proof
    assume "ae_used (cache ! i) \<and> ae_ip (cache ! i) = ip'"
    with i(4) that show "arp_full cache \<and> arp_lookup ip cache = None \<and> ip' = ae_ip (cache ! 0)" by blast
  next
    assume f: "arp_full cache \<and> arp_lookup ip cache = None \<and> ip' = ae_ip (cache ! 0)"
    then have u: "ae_used (cache ! i)" using i(1) by (simp add: arp_full_def)
    moreover have "ae_ip (cache ! i) \<noteq> ip" using f u i(1) unfolding arp_lookup_None by blast
    ultimately show "ae_used (cache ! i) \<and> ae_ip (cache ! i) = ip'" using i(4) f by blast
  qed
  show ?thesis
    unfolding i(2)
  proof (rule option_eqI)
    fix m
    show "arp_lookup ip' (cache[i := \<lparr>ae_used = True, ae_ip = ip, ae_mac = mac\<rparr>]) = Some m \<longleftrightarrow>
      (if ip' = ip then Some mac
       else if arp_full cache \<and> arp_lookup ip cache = None \<and> ip' = ae_ip (cache ! 0) then None
       else arp_lookup ip' cache) = Some m"
      unfolding upd using evict by auto
  qed
qed

end
