(* ===== verification/Netpath.thy ===== *)
theory Netpath
  imports Inet
begin

text \<open>
  From one machine to another: what the layers of \<open>Inet\<close> do together. Datagrams that arrive as they
  were sent, address resolution between two hosts, ping, and the lengths a handler is told.
\<close>

section \<open>The layout of frames and packets\<close>

lemma view_at_append: "k = length xs \<Longrightarrow> view_at (view_of (xs @ ys)) k = view_of ys"
  by (auto simp: view_at_def view_of_def nth_append fun_eq_iff)

lemma view_bytes_append: "n = length xs \<Longrightarrow> view_bytes (view_of (xs @ ys)) n = xs"
  by (rule nth_equalityI) (auto simp: view_bytes_def view_of_def nth_append)

lemma unat_of_nat_16: "n < 65536 \<Longrightarrow> unat (of_nat n :: u16) = n"
  by (simp add: unat_of_nat)

definition ip_packet :: "u32 \<Rightarrow> u8 \<Rightarrow> bytes \<Rightarrow> net \<Rightarrow> bytes" where
  "ip_packet dst_ip protocol payload s =
     (let hdr = ip_header dst_ip protocol (IP_HDR_LEN + length payload) s in
      with_checksum 10 (ip_checksum hdr) hdr @ payload)"

definition eth_bytes :: "bytes \<Rightarrow> u16 \<Rightarrow> bytes \<Rightarrow> net \<Rightarrow> bytes" where
  "eth_bytes dst_mac ethertype payload s =
     (let f = dst_mac @ n_mac s @ put16 ethertype @ payload in f @ replicate (60 - length f) 0)"

lemma eth_send_sent:
  "length payload \<le> 1504 \<Longrightarrow>
   eth_send dst_mac ethertype payload s
   = (n_phy s (eth_bytes dst_mac ethertype payload s), s\<lparr>n_sent := n_sent s @ [eth_bytes dst_mac ethertype payload s]\<rparr>)"
  by (simp add: eth_send_def eth_bytes_def Let_def)

lemma eth_frame_bytes:
  assumes "length dst_mac = 6" "length (n_mac s) = 6"
  obtains pad where "eth_frame (view_of (eth_bytes dst_mac ethertype payload s)) (length (eth_bytes dst_mac ethertype payload s)) t
    = (if ethertype = ETHERTYPE_ARP then (NoCall, arp_handle (view_of (payload @ pad)) (length (payload @ pad)) t)
       else if ethertype = ETHERTYPE_IPV4 then ip_handle (view_of (payload @ pad)) (length (payload @ pad)) t
       else (NoCall, t))"
proof -
  let ?pad = "replicate (60 - length (dst_mac @ n_mac s @ put16 ethertype @ payload)) 0 :: bytes"
  have f: "eth_bytes dst_mac ethertype payload s = (dst_mac @ n_mac s) @ put16 ethertype @ payload @ ?pad"
    by (simp add: eth_bytes_def Let_def)
  have et: "get16 (view_of (eth_bytes dst_mac ethertype payload s)) 12 = ethertype"
    unfolding f by (rule get16_put) (use assms in simp)
  have at: "view_at (view_of (eth_bytes dst_mac ethertype payload s)) 14 = view_of (payload @ ?pad)"
    unfolding f using assms view_at_append [of 14 "dst_mac @ n_mac s @ put16 ethertype" "payload @ ?pad"] by simp
  have len: "length (eth_bytes dst_mac ethertype payload s) - 14 = length (payload @ ?pad)"
    "\<not> length (eth_bytes dst_mac ethertype payload s) < 14"
    unfolding f using assms by simp_all
  show ?thesis by (rule that [of ?pad]) (use et at len in \<open>simp add: eth_frame_def Let_def\<close>)
qed

lemma ip_header_bytes:
  "ip_header dst protocol n s =
     [0x45, 0] @ put16 (of_nat n) @ put16 (n_ip_id s) @ [0x40, 0, 64, protocol, 0, 0] @ put32 (n_ip s) @ put32 dst"
  by (simp add: ip_header_def)

lemma ip_packet_bytes:
  "ip_packet dst protocol payload s =
     [0x45, 0] @ put16 (of_nat (IP_HDR_LEN + length payload)) @ put16 (n_ip_id s) @ [0x40, 0, 64, protocol] @
     put16 (ip_checksum (ip_header dst protocol (IP_HDR_LEN + length payload) s)) @ put32 (n_ip s) @ put32 dst @ payload"
  unfolding ip_packet_def Let_def with_checksum_def ip_header_bytes put16_def put32_def by simp

lemma length_ip_packet [simp]: "length (ip_packet dst protocol payload s) = IP_HDR_LEN + length payload"
  by (simp add: ip_packet_bytes)

lemma ip_handle_packet:
  assumes "length payload \<le> IP_MAX_PAYLOAD" "dst = n_ip t \<or> dst = 0xFFFFFFFF \<or> n_ip t = 0"
    and "p = view_of (ip_packet dst protocol payload s @ pad)" "len = length (ip_packet dst protocol payload s @ pad)"
  shows "ip_handle p len t =
    (if protocol = 1 then (NoCall, icmp_handle (n_ip s) (view_of (payload @ pad)) (length payload) t)
     else if protocol = 6 then (TcpCall (n_ip s) (view_of (payload @ pad)) (length payload), t)
     else if protocol = 17 then (udp_handle (n_ip s) (view_of (payload @ pad)) (length payload) t, t)
     else (NoCall, t))"
proof -
  let ?tl = "IP_HDR_LEN + length payload" let ?c = "ip_checksum (ip_header dst protocol ?tl s)"
  have b: "ip_packet dst protocol payload s @ pad = [0x45, 0] @ put16 (of_nat ?tl) @ put16 (n_ip_id s) @
      [0x40, 0, 64, protocol] @ put16 ?c @ put32 (n_ip s) @ put32 dst @ payload @ pad"
    by (simp add: ip_packet_bytes)
  have p0: "p 0 = 0x45" unfolding assms(3) b by (simp add: view_of_def)
  have p9: "p 9 = protocol" unfolding assms(3) b by (simp add: view_of_def nth_append)
  have tl: "get16 p 2 = of_nat ?tl" unfolding assms(3) b by (rule get16_put) simp
  have src: "get32 p 12 = n_ip s"
    unfolding assms(3) b
    using get32_put [of "[0x45, 0] @ put16 (of_nat ?tl) @ put16 (n_ip_id s) @ [0x40, 0, 64, protocol] @ put16 ?c" 12 "n_ip s"
        "put32 dst @ payload @ pad"] by simp
  have dst: "get32 p 16 = dst"
    unfolding assms(3) b
    using get32_put [of "[0x45, 0] @ put16 (of_nat ?tl) @ put16 (n_ip_id s) @ [0x40, 0, 64, protocol] @ put16 ?c @ put32 (n_ip s)"
        16 dst "payload @ pad"] by simp
  have at: "view_at p 20 = view_of (payload @ pad)"
    unfolding assms(3) b
    using view_at_append [of 20 "[0x45, 0] @ put16 (of_nat ?tl) @ put16 (n_ip_id s) @ [0x40, 0, 64, protocol] @ put16 ?c @
        put32 (n_ip s) @ put32 dst" "payload @ pad"] by simp
  have n: "unat (of_nat ?tl :: u16) = ?tl" by (rule unat_of_nat_16) (use assms(1) in simp)
  have d: "unat ((of_nat ?tl :: u16) - 20) = length payload"
  proof -
    have "(of_nat ?tl :: u16) - 20 = of_nat (length payload)" by simp
    then show ?thesis using assms(1) by (simp add: unat_of_nat)
  qed
  have len: "len = ?tl + length pad" using assms(4) by simp
  show ?thesis
    using p0 p9 tl src dst at n d len assms(2) unfolding ip_handle_def Let_def by auto
qed

lemma udp_handle_datagram:
  assumes "length data \<le> UDP_MAX_PAYLOAD"
    and "p = view_of (put16 sport @ put16 dport @ put16 (of_nat (UDP_HDR_LEN + length data)) @ [0, 0] @ data @ pad)"
  shows "udp_handle src p (UDP_HDR_LEN + length data) t =
    (case List.find (\<lambda>l. ul_used l \<and> ul_port l = dport) (n_listeners t) of
       Some l \<Rightarrow> UdpCall (ul_handler l) src sport (view_of (data @ pad)) (length data)
     | None \<Rightarrow> NoCall)"
proof -
  let ?tl = "UDP_HDR_LEN + length data"
  have a: "get16 p 0 = sport" "get16 p 2 = dport" "get16 p 4 = of_nat ?tl"
    unfolding assms(2)
    using get16_put [of "[]" 0 sport] get16_put [of "put16 sport" 2 dport] get16_put [of "put16 sport @ put16 dport" 4] by simp_all
  have at: "view_at p 8 = view_of (data @ pad)"
    unfolding assms(2)
    using view_at_append [of 8 "put16 sport @ put16 dport @ put16 (of_nat ?tl) @ [0, 0]" "data @ pad"] by simp
  have n: "unat (of_nat ?tl :: u16) = ?tl" by (rule unat_of_nat_16) (use assms(1) in simp)
  have "unat ((of_nat ?tl :: u16) - 8) = length data"
    using assms(1) unat_of_nat_16 [of "length data"] by simp
  with n a at show ?thesis unfolding udp_handle_def Let_def by (simp split: option.split)
qed

lemma ip_send_resolved:
  assumes "length payload \<le> IP_MAX_PAYLOAD" "dst \<noteq> 0xFFFFFFFF"
    and "arp_lookup (if ip_is_local dst s then dst else n_gateway s) (n_arp_cache s) = Some mac"
  shows "ip_send dst protocol payload s =
    (let f = eth_bytes mac ETHERTYPE_IPV4 (ip_packet dst protocol payload s) s in
     (n_phy s f, s\<lparr>n_ip_id := n_ip_id s + 1, n_sent := n_sent s @ [f]\<rparr>))"
proof -
  have "ip_is_local dst (s\<lparr>n_ip_id := n_ip_id s + 1\<rparr>) = ip_is_local dst s" by (simp add: ip_is_local_def)
  moreover have "eth_bytes mac ETHERTYPE_IPV4 q (s\<lparr>n_ip_id := n_ip_id s + 1\<rparr>) = eth_bytes mac ETHERTYPE_IPV4 q s" for q
    by (simp add: eth_bytes_def)
  moreover have "length (ip_packet dst protocol payload s) \<le> 1504" using assms(1) by simp
  ultimately show ?thesis
    using assms eth_send_sent [of "ip_packet dst protocol payload s" mac ETHERTYPE_IPV4 "s\<lparr>n_ip_id := n_ip_id s + 1\<rparr>"]
    by (cases "ip_is_local dst s") (simp_all add: ip_send_def ip_packet_def Let_def)
qed

lemma length_put_datagram:
  "length data \<le> UDP_MAX_PAYLOAD \<Longrightarrow>
   length (put16 sport @ put16 dport @ put16 x @ [0, 0] @ data) = UDP_HDR_LEN + length data"
  by simp

section \<open>Properties\<close>

text \<open>
  C15: A datagram arrives as it was sent. Sent to a host whose link address is known, \<open>udp_send\<close> puts
  exactly one frame on the wire, addressed to that link address; given to the other host's receive
  path, short frames padded and all, it reaches the listener on the destination port with the
  sender's address and port and exactly the bytes that were sent.
\<close>

theorem udp_end_to_end:
  assumes "length data \<le> UDP_MAX_PAYLOAD" "dst \<noteq> 0xFFFFFFFF" "length (n_mac a) = 6" "length mac = 6"
    and "arp_lookup (if ip_is_local dst a then dst else n_gateway a) (n_arp_cache a) = Some mac"
    and "n_ip b = dst" "List.find (\<lambda>l. ul_used l \<and> ul_port l = dport) (n_listeners b) = Some l"
  shows "\<exists>frame view. n_sent (snd (udp_send dst dport sport data a)) = n_sent a @ [frame] \<and>
    fst (udp_send dst dport sport data a) = n_phy a frame \<and> take 6 frame = mac \<and>
    eth_frame (view_of frame) (length frame) b = (UdpCall (ul_handler l) (n_ip a) sport view (length data), b) \<and>
    view_bytes view (length data) = data"
proof -
  let ?d = "put16 sport @ put16 dport @ put16 (of_nat (UDP_HDR_LEN + length data)) @ [0, 0] @ data"
  let ?f = "eth_bytes mac ETHERTYPE_IPV4 (ip_packet dst 17 ?d a) a"
  have len: "length ?d \<le> IP_MAX_PAYLOAD" using assms(1) by simp
  have send: "udp_send dst dport sport data a = (n_phy a ?f, a\<lparr>n_ip_id := n_ip_id a + 1, n_sent := n_sent a @ [?f]\<rparr>)"
    using assms(1) ip_send_resolved [OF len assms(2,5), of 17] by (simp add: udp_send_def Let_def)
  obtain pad where recv: "eth_frame (view_of ?f) (length ?f) b =
      ip_handle (view_of (ip_packet dst 17 ?d a @ pad)) (length (ip_packet dst 17 ?d a @ pad)) b"
    by (rule eth_frame_bytes [where dst_mac = mac and s = a and ethertype = ETHERTYPE_IPV4 and t = b
          and payload = "ip_packet dst 17 ?d a"]) (use assms(3,4) in auto)
  also have "\<dots> = (udp_handle (n_ip a) (view_of (?d @ pad)) (length ?d) b, b)"
    using ip_handle_packet [OF len _ refl refl, where protocol = 17 and s = a and t = b] assms(6) by simp
  also have "udp_handle (n_ip a) (view_of (?d @ pad)) (length ?d) b
      = UdpCall (ul_handler l) (n_ip a) sport (view_of (data @ pad)) (length data)"
  proof -
    have dlen: "length ?d = UDP_HDR_LEN + length data" by simp
    have app: "?d @ pad = put16 sport @ put16 dport @ put16 (of_nat (UDP_HDR_LEN + length data)) @ [0, 0] @ data @ pad"
      by simp
    show ?thesis
      unfolding dlen app udp_handle_datagram [OF assms(1) refl] by (simp add: assms(7))
  qed
  finally have "eth_frame (view_of ?f) (length ?f) b =
      (UdpCall (ul_handler l) (n_ip a) sport (view_of (data @ pad)) (length data), b)" .
  moreover have "take 6 ?f = mac" using assms(4) by (simp add: eth_bytes_def Let_def)
  moreover have "view_bytes (view_of (data @ pad)) (length data) = data" by (rule view_bytes_append) simp
  ultimately show ?thesis using send by (intro exI [of _ ?f] exI [of _ "view_of (data @ pad)"]) simp
qed

section \<open>Address resolution between two hosts\<close>

definition arp_packet :: "u16 \<Rightarrow> bytes \<Rightarrow> u32 \<Rightarrow> bytes \<Rightarrow> u32 \<Rightarrow> bytes" where
  "arp_packet oper smac sip tmac tip =
     [0, 1, 8, 0, 6, 4] @ put16 oper @ smac @ put32 sip @ tmac @ put32 tip"

lemma arp_send_sent:
  assumes "length (n_mac s) = 6" "\<forall>m. tm = Some m \<longrightarrow> length m = 6"
  shows "arp_send oper tm tip s = s\<lparr>n_sent := n_sent s @
    [eth_bytes (case tm of Some m \<Rightarrow> m | None \<Rightarrow> bcast_mac) ETHERTYPE_ARP
      (arp_packet oper (n_mac s) (n_arp_ip s) (case tm of Some m \<Rightarrow> m | None \<Rightarrow> replicate 6 0) tip) s]\<rparr>"
  using assms by (cases tm) (simp_all add: arp_send_def arp_packet_def Let_def eth_send_sent)

lemma arp_handle_packet:
  assumes "length smac = 6" "length tmac = 6"
  shows "arp_handle (view_of (arp_packet oper smac sip tmac tip @ pad)) (length (arp_packet oper smac sip tmac tip @ pad)) t =
    (let t' = t\<lparr>n_arp_cache := arp_cache_insert sip smac (n_arp_cache t)\<rparr> in
     if oper = 1 \<and> tip = n_arp_ip t then arp_send 2 (Some smac) sip t' else t')"
proof -
  define p where "p = view_of (arp_packet oper smac sip tmac tip @ pad)"
  have a: "arp_packet oper smac sip tmac tip @ pad =
      [0, 1, 8, 0, 6, 4] @ put16 oper @ smac @ put32 sip @ tmac @ put32 tip @ pad" by (simp add: arp_packet_def)
  note p = p_def [unfolded a]
  have "get16 p 0 = 1" "get16 p 2 = 0x0800" "p 4 = 6" "p 5 = 4"
    unfolding p by (simp_all add: get16_def view_of_def)
  moreover have "get16 p 6 = oper" unfolding p by (rule get16_put) simp
  moreover have "view_bytes (view_at p 8) 6 = smac"
    unfolding p using view_at_append [of 8 "[0, 1, 8, 0, 6, 4] @ put16 oper" "smac @ put32 sip @ tmac @ put32 tip @ pad"]
      view_bytes_append [of 6 smac "put32 sip @ tmac @ put32 tip @ pad"] assms by simp
  moreover have "get32 p 14 = sip"
    unfolding p using get32_put [of "[0, 1, 8, 0, 6, 4] @ put16 oper @ smac" 14 sip "tmac @ put32 tip @ pad"] assms by simp
  moreover have "get32 p 24 = tip"
    unfolding p using get32_put [of "[0, 1, 8, 0, 6, 4] @ put16 oper @ smac @ put32 sip @ tmac" 24 tip pad] assms by simp
  moreover have "\<not> length (arp_packet oper smac sip tmac tip @ pad) < 28" using assms by (simp add: arp_packet_def)
  ultimately show ?thesis unfolding arp_handle_def Let_def p_def [symmetric] by simp
qed

lemma arp_frame:
  assumes "length dst_mac = 6" "length (n_mac s) = 6" "length tmac = 6"
  shows "eth_frame (view_of (eth_bytes dst_mac ETHERTYPE_ARP (arp_packet oper (n_mac s) sip tmac tip) s))
      (length (eth_bytes dst_mac ETHERTYPE_ARP (arp_packet oper (n_mac s) sip tmac tip) s)) t =
    (NoCall, let t' = t\<lparr>n_arp_cache := arp_cache_insert sip (n_mac s) (n_arp_cache t)\<rparr> in
       if oper = 1 \<and> tip = n_arp_ip t then arp_send 2 (Some (n_mac s)) sip t' else t')"
  by (rule eth_frame_bytes [OF assms(1,2), where ethertype = ETHERTYPE_ARP and t = t
        and payload = "arp_packet oper (n_mac s) sip tmac tip"])
    (use arp_handle_packet [OF assms(2,3)] in simp)

lemma ip_send_unresolved:
  assumes "length payload \<le> IP_MAX_PAYLOAD" "dst \<noteq> 0xFFFFFFFF" "ip_is_local dst s"
    and "arp_lookup dst (n_arp_cache s) = None" "length (n_mac s) = 6"
  shows "ip_send dst protocol payload s = (False, s\<lparr>n_ip_id := n_ip_id s + 1,
     n_sent := n_sent s @ [eth_bytes bcast_mac ETHERTYPE_ARP
       (arp_packet 1 (n_mac s) (n_arp_ip s) (replicate 6 0) dst) s],
     n_pending := Some (dst, ip_packet dst protocol payload s)\<rparr>)"
proof -
  have "ip_is_local dst (s\<lparr>n_ip_id := n_ip_id s + 1\<rparr>)" using assms(3) by (simp add: ip_is_local_def)
  with assms arp_send_sent [of "s\<lparr>n_ip_id := n_ip_id s + 1\<rparr>" None 1 dst] show ?thesis
    by (simp add: ip_send_def ip_packet_def arp_request_def eth_bytes_def Let_def)
qed

text \<open>
  A packet for a neighbour whose link address is not known yet is not lost. \<open>ip_send\<close> broadcasts a
  request and keeps the packet; the neighbour's receive path, given that frame, learns the sender and
  answers with one frame to it; the sender's receive path, given the answer, learns the neighbour;
  and the next \<open>ip_poll\<close> puts the packet on the wire, addressed to the neighbour, with nothing pending
  any more.
\<close>

theorem arp_resolves:
  assumes "length payload \<le> IP_MAX_PAYLOAD" "dst \<noteq> 0xFFFFFFFF" "ip_is_local dst a"
    and "arp_lookup dst (n_arp_cache a) = None" "length (n_mac a) = 6" "length (n_mac b) = 6"
    and "arp_ok (n_arp_cache a)" "arp_ok (n_arp_cache b)" "n_arp_ip b = dst"
  shows "\<exists>req rep a1 b1 a2. ip_send dst protocol payload a = (False, a1) \<and> n_sent a1 = n_sent a @ [req] \<and>
    take 6 req = bcast_mac \<and>
    eth_frame (view_of req) (length req) b = (NoCall, b1) \<and> n_sent b1 = n_sent b @ [rep] \<and>
    arp_lookup (n_arp_ip a) (n_arp_cache b1) = Some (n_mac a) \<and> take 6 rep = n_mac a \<and>
    eth_frame (view_of rep) (length rep) a1 = (NoCall, a2) \<and>
    n_sent (ip_poll a2) = n_sent a1 @ [eth_bytes (n_mac b) ETHERTYPE_IPV4 (ip_packet dst protocol payload a) a] \<and>
    n_pending (ip_poll a2) = None"
proof -
  let ?req = "eth_bytes bcast_mac ETHERTYPE_ARP (arp_packet 1 (n_mac a) (n_arp_ip a) (replicate 6 0) dst) a"
  let ?a1 = "a\<lparr>n_ip_id := n_ip_id a + 1, n_sent := n_sent a @ [?req],
    n_pending := Some (dst, ip_packet dst protocol payload a)\<rparr>"
  let ?b0 = "b\<lparr>n_arp_cache := arp_cache_insert (n_arp_ip a) (n_mac a) (n_arp_cache b)\<rparr>"
  let ?rep = "eth_bytes (n_mac a) ETHERTYPE_ARP (arp_packet 2 (n_mac b) dst (n_mac a) (n_arp_ip a)) b"
  let ?b1 = "?b0\<lparr>n_sent := n_sent b @ [?rep]\<rparr>"
  let ?a2 = "?a1\<lparr>n_arp_cache := arp_cache_insert dst (n_mac b) (n_arp_cache a)\<rparr>"
  have send: "ip_send dst protocol payload a = (False, ?a1)"
    by (rule ip_send_unresolved [OF assms(1-5)])
  have bc: "length bcast_mac = 6" by (simp add: bcast_mac_def)
  have f1: "eth_frame (view_of ?req) (length ?req) b = (NoCall, arp_send 2 (Some (n_mac a)) (n_arp_ip a) ?b0)"
    using arp_frame [OF bc assms(5), of "replicate 6 0" 1 "n_arp_ip a" dst b] assms(9) by (simp add: Let_def)
  have "arp_send 2 (Some (n_mac a)) (n_arp_ip a) ?b0 = ?b1"
    using arp_send_sent [of ?b0 "Some (n_mac a)" 2 "n_arp_ip a"] assms(5,6,9) by (simp add: eth_bytes_def)
  with f1 have f1: "eth_frame (view_of ?req) (length ?req) b = (NoCall, ?b1)" by simp
  have f2: "eth_frame (view_of ?rep) (length ?rep) ?a1 = (NoCall, ?a2)"
    using arp_frame [OF assms(5,6,5), of 2 dst "n_arp_ip a" ?a1] by (simp add: Let_def)
  have "arp_lookup dst (n_arp_cache ?a2) = Some (n_mac b)"
    using arp_lookup_insert [OF assms(7), of dst dst "n_mac b"] by simp
  moreover have "length (ip_packet dst protocol payload a) \<le> 1504" using assms(1) by simp
  ultimately have poll: "ip_poll ?a2 = ?a2\<lparr>n_pending := None, n_sent := n_sent ?a1 @
      [eth_bytes (n_mac b) ETHERTYPE_IPV4 (ip_packet dst protocol payload a) a]\<rparr>"
    using eth_send_sent [of "ip_packet dst protocol payload a" "n_mac b" ETHERTYPE_IPV4 "?a2\<lparr>n_pending := None\<rparr>"]
    by (simp add: ip_poll_def eth_bytes_def del: length_ip_packet)
  have "arp_lookup (n_arp_ip a) (n_arp_cache ?b1) = Some (n_mac a)"
    using arp_lookup_insert [OF assms(8), of "n_arp_ip a" "n_arp_ip a" "n_mac a"] by simp
  moreover have "take 6 ?req = bcast_mac" "take 6 ?rep = n_mac a"
    using bc assms(5) by (simp_all add: eth_bytes_def Let_def)
  ultimately show ?thesis
    using send f1 f2 poll by (intro exI [of _ ?req] exI [of _ ?rep] exI [of _ ?a1] exI [of _ ?b1] exI [of _ ?a2]) simp
qed

section \<open>Ping\<close>

lemma ip_header_verifies: "ip_checksum (take IP_HDR_LEN (ip_packet dst protocol payload s)) = 0"
proof -
  let ?hdr = "ip_header dst protocol (IP_HDR_LEN + length payload) s"
  have len: "length ?hdr = IP_HDR_LEN" by (simp add: ip_header_bytes)
  have "?hdr ! (2 * 5) = 0" "?hdr ! Suc (2 * 5) = 0" by (simp_all add: ip_header_bytes put16_def)
  then have "ip_checksum (with_checksum (2 * 5) (ip_checksum ?hdr) ?hdr) = 0"
    using len by (intro checksum_verifies) simp_all
  moreover have "take IP_HDR_LEN (ip_packet dst protocol payload s) = with_checksum 10 (ip_checksum ?hdr) ?hdr"
    using len by (simp add: ip_packet_def with_checksum_def Let_def)
  ultimately show ?thesis by simp
qed

text \<open>
  A ping is answered. For an echo request of up to 1480 bytes from a host whose link address is
  known, one frame goes to that address: an IP packet to the sender whose header checksum verifies,
  carrying an echo reply of the same length, with the same identifier, sequence number and data, whose
  own checksum verifies; and nothing else changes.
\<close>

theorem icmp_echo_reply:
  assumes "p 0 = 8" "8 \<le> len" "len \<le> IP_MAX_PAYLOAD" "src \<noteq> 0xFFFFFFFF"
    and "arp_lookup (if ip_is_local src s then src else n_gateway s) (n_arp_cache s) = Some mac"
  shows "\<exists>r. icmp_handle src p len s = s\<lparr>n_ip_id := n_ip_id s + 1,
      n_sent := n_sent s @ [eth_bytes mac ETHERTYPE_IPV4 (ip_packet src 1 r s) s]\<rparr> \<and>
    ip_checksum (take IP_HDR_LEN (ip_packet src 1 r s)) = 0 \<and>
    length r = len \<and> r ! 0 = 0 \<and> r ! 1 = 0 \<and> drop 4 r = drop 4 (view_bytes p len) \<and> ip_checksum r = 0"
proof -
  let ?x = "(view_bytes p len)[0 := 0, 1 := 0, 2 := 0, 3 := 0]"
  let ?r = "with_checksum 2 (ip_checksum ?x) ?x"
  have len: "length ?x = len" by (simp add: view_bytes_def)
  have "ip_checksum (with_checksum (2 * 1) (ip_checksum ?x) ?x) = 0"
    by (rule checksum_verifies) (use len assms(2,3) in simp_all)
  then have sum: "ip_checksum ?r = 0" by simp
  have rlen: "length ?r = len" using len by (simp add: with_checksum_def)
  have "icmp_handle src p len s = snd (ip_send src 1 ?r s)"
    using assms(1-3) by (simp add: icmp_handle_def Let_def)
  also have "\<dots> = s\<lparr>n_ip_id := n_ip_id s + 1,
      n_sent := n_sent s @ [eth_bytes mac ETHERTYPE_IPV4 (ip_packet src 1 ?r s) s]\<rparr>"
    using ip_send_resolved [OF _ assms(4,5), of ?r 1] rlen assms(3) by (simp add: Let_def)
  finally show ?thesis
    using sum rlen len assms(2) ip_header_verifies
    by (intro exI [of _ ?r]) (auto simp: with_checksum_def drop_update_cancel)
qed

section \<open>Lengths a handler is told\<close>

lemma unat_minus_16:
  "unat (x - y :: u16) = (if unat y \<le> unat x then unat x - unat y else 65536 + unat x - unat y)"
  by (simp add: unat_sub_if' word_le_nat_alt) arith

lemma ihl_16: "unat (of_nat (unat ((p 0 AND 0x0F) * 4 :: u8)) :: u16) = unat ((p 0 AND 0x0F) * 4)"
  by (rule unat_of_nat_16) (use unat_lt_8 [of "(p 0 AND 0x0F) * 4"] in linarith)

lemma ip_handle_tcp:
  assumes "ip_handle p len s = (TcpCall src v n, s')"
  shows "unat ((p 0 AND 0x0F) * 4) \<le> len \<and> unat (get16 p 2) \<le> len \<and> v = view_at p (unat ((p 0 AND 0x0F) * 4)) \<and>
    n = unat (get16 p 2 - of_nat (unat ((p 0 AND 0x0F) * 4)))"
proof -
  have no: "udp_handle a q m s \<noteq> TcpCall src v n" for a q m
    by (simp add: udp_handle_def Let_def split: option.split)
  let ?ihl = "unat ((p 0 AND 0x0F) * 4)"
  have 1: "\<not> len < 20"
  proof
    assume "len < 20"
    with assms show False by (simp add: ip_handle_def)
  qed
  have 2: "\<not> (?ihl < 20 \<or> len < ?ihl)"
  proof
    assume "?ihl < 20 \<or> len < ?ihl"
    with 1 assms show False by (simp add: ip_handle_def Let_def)
  qed
  have 3: "\<not> len < unat (get16 p 2)"
  proof
    assume "len < unat (get16 p 2)"
    with 1 2 assms show False by (simp add: ip_handle_def Let_def)
  qed
  have 4: "\<not> (get32 p 16 \<noteq> n_ip s \<and> get32 p 16 \<noteq> 0xFFFFFFFF \<and> n_ip s \<noteq> 0)"
  proof
    assume "get32 p 16 \<noteq> n_ip s \<and> get32 p 16 \<noteq> 0xFFFFFFFF \<and> n_ip s \<noteq> 0"
    with 1 2 3 assms show False by (simp add: ip_handle_def Let_def)
  qed
  have 5: "p 9 = 6"
  proof (rule ccontr)
    assume "p 9 \<noteq> 6"
    with assms show False unfolding ip_handle_def Let_def if_not_P [OF 1] if_not_P [OF 2] if_not_P [OF 3] if_not_P [OF 4]
      using no by (cases "p 9 = 1"; cases "p 9 = 17") simp_all
  qed
  from assms 5 show ?thesis
    unfolding ip_handle_def Let_def if_not_P [OF 1] if_not_P [OF 2] if_not_P [OF 3] if_not_P [OF 4]
    using 2 3 by simp
qed

lemma udp_handle_call:
  "udp_handle src p len s = UdpCall h src' port v n \<Longrightarrow>
   unat (get16 p 4) \<le> len \<and> v = view_at p 8 \<and> n = unat (get16 p 4 - 8)"
  by (auto simp: udp_handle_def Let_def not_less split: if_splits option.splits)

text \<open>
  The length fields are only checked against one side. A TCP or UDP handler is told a length that
  lies within what was received when the packet's own length covers its header; when it does not, the
  16-bit subtraction wraps and the handler is told some 65000 bytes it never received: the IP length
  of a TCP packet against its header length, the UDP length against its eight bytes.
\<close>

theorem handler_lengths:
  "(ip_handle p len s = (TcpCall src v n, s') \<longrightarrow>
      (let ihl = unat ((p 0 AND 0x0F) * 4); tot = unat (get16 p 2) in
       v = view_at p ihl \<and> (if ihl \<le> tot then n = tot - ihl \<and> ihl + n \<le> len else n = 65536 + tot - ihl))) \<and>
   (udp_handle src p len s = UdpCall h src' port v n \<longrightarrow>
      (let tot = unat (get16 p 4) in
       v = view_at p 8 \<and> (if 8 \<le> tot then n = tot - 8 \<and> 8 + n \<le> len else n = 65528 + tot)))"
  using ip_handle_tcp [of p len s src v n s'] udp_handle_call [of src p len s h src' port v n]
    unat_minus_16 [of "get16 p 2" "of_nat (unat ((p 0 AND 0x0F) * 4))"] unat_minus_16 [of "get16 p 4" 8] ihl_16 [of p]
  by (auto simp: Let_def)

section \<open>Two hosts\<close>

definition host :: "bytes \<Rightarrow> u32 \<Rightarrow> arp_entry list \<Rightarrow> net" where
  "host mac ip cache = \<lparr>n_mac = mac, n_phy = (\<lambda>f. True), n_sent = [], n_arp_cache = cache, n_arp_ip = ip, n_ip = ip,
     n_netmask = 0xFFFFFF00, n_gateway = 0x0A000001, n_ip_id = 1, n_pending = None,
     n_listeners = \<lparr>ul_used = True, ul_port = 69, ul_handler = 3\<rparr> #
       replicate 3 \<lparr>ul_used = False, ul_port = 0, ul_handler = 0\<rparr>\<rparr>"

definition no_arp :: "arp_entry list" where
  "no_arp = replicate 8 \<lparr>ae_used = False, ae_ip = 0, ae_mac = []\<rparr>"

definition alice :: net where "alice = host [2, 0, 0, 0, 0, 1] 0x0A000002 no_arp"
definition bob :: net where "bob = host [2, 0, 0, 0, 0, 2] 0x0A000003 no_arp"

definition alice_knows :: net where
  "alice_knows = alice\<lparr>n_arp_cache := arp_cache_insert 0x0A000003 (n_mac bob) no_arp\<rparr>"

lemmas hosts = alice_knows_def alice_def bob_def host_def no_arp_def

lemma no_arp_ok: "arp_ok no_arp" "arp_lookup ip no_arp = None"
  by (simp_all add: arp_ok_def no_arp_def arp_lookup_None)

lemma alice_knows_bob: "arp_lookup 0x0A000003 (n_arp_cache alice_knows) = Some (n_mac bob)"
  using arp_lookup_insert [OF no_arp_ok(1)] by (simp add: alice_knows_def)

lemma alice_near_bob: "ip_is_local 0x0A000003 alice_knows" "ip_is_local 0x0A000003 alice"
  by (simp_all add: ip_is_local_def hosts)

theorem udp_end_to_end_witness:
  "\<exists>frame view. n_sent (snd (udp_send 0x0A000003 69 1024 [1, 2, 3] alice_knows)) = [frame] \<and>
     eth_frame (view_of frame) (length frame) bob = (UdpCall 3 0x0A000002 1024 view 3, bob) \<and> view_bytes view 3 = [1, 2, 3]"
proof -
  have l: "List.find (\<lambda>l. ul_used l \<and> ul_port l = 69) (n_listeners bob) = Some \<lparr>ul_used = True, ul_port = 69, ul_handler = 3\<rparr>"
    by (simp add: bob_def host_def)
  have len: "length [1, 2, 3 :: u8] \<le> UDP_MAX_PAYLOAD" "length (n_mac alice_knows) = 6" "length (n_mac bob) = 6"
    "n_ip bob = 0x0A000003" "n_ip alice_knows = 0x0A000002" "n_sent alice_knows = []"
    by (simp_all add: hosts)
  have "arp_lookup (if ip_is_local 0x0A000003 alice_knows then 0x0A000003 else n_gateway alice_knows)
      (n_arp_cache alice_knows) = Some (n_mac bob)"
    using alice_knows_bob alice_near_bob by simp
  from udp_end_to_end [OF len(1) _ len(2,3) this len(4) l, of 1024] len(5,6) show ?thesis
    by (auto simp: numeral_3_eq_3)
qed

theorem arp_resolves_witness:
  "\<exists>req a1 b1. ip_send 0x0A000003 17 [9] alice = (False, a1) \<and> n_sent a1 = [req] \<and>
     eth_frame (view_of req) (length req) bob = (NoCall, b1) \<and>
     arp_lookup 0x0A000002 (n_arp_cache b1) = Some [2, 0, 0, 0, 0, 1]"
proof -
  have c: "length [9 :: u8] \<le> IP_MAX_PAYLOAD" "(0x0A000003 :: u32) \<noteq> 0xFFFFFFFF" "arp_lookup 0x0A000003 (n_arp_cache alice) = None"
    "length (n_mac alice) = 6" "length (n_mac bob) = 6" "arp_ok (n_arp_cache alice)" "arp_ok (n_arp_cache bob)" "n_arp_ip bob = 0x0A000003"
    "n_arp_ip alice = 0x0A000002" "n_mac alice = [2, 0, 0, 0, 0, 1]" "n_sent alice = []"
    using no_arp_ok by (simp_all add: alice_def bob_def host_def)
  from arp_resolves [OF c(1,2) alice_near_bob(2) c(3-8), of 17] c(9-11) show ?thesis by auto
qed

theorem icmp_echo_reply_witness:
  "\<exists>r. n_sent (icmp_handle 0x0A000003 (view_of [8, 0, 0, 0, 1, 2, 3, 4, 5]) 9 alice_knows)
        = [eth_bytes (n_mac bob) ETHERTYPE_IPV4 (ip_packet 0x0A000003 1 r alice_knows) alice_knows] \<and>
     drop 4 r = [1, 2, 3, 4, 5] \<and> ip_checksum r = 0"
proof -
  have a: "arp_lookup (if ip_is_local 0x0A000003 alice_knows then 0x0A000003 else n_gateway alice_knows)
      (n_arp_cache alice_knows) = Some (n_mac bob)"
    using alice_knows_bob alice_near_bob by simp
  have s: "n_sent alice_knows = []" by (simp add: hosts)
  have b: "view_bytes (view_of [8, 0, 0, 0, 1, 2, 3, 4, 5]) 9 = [8, 0, 0, 0, 1, 2, 3, 4, 5]"
    using view_bytes_append [of 9 "[8, 0, 0, 0, 1, 2, 3, 4, 5]" "[]"] by simp
  have "view_of [8, 0, 0, 0, 1, 2, 3, 4, 5] 0 = 8" by (simp add: view_of_def)
  from icmp_echo_reply [where p = "view_of [8, 0, 0, 0, 1, 2, 3, 4, 5]" and len = 9, OF this _ _ _ a] show ?thesis by (auto simp: s b)
qed

text \<open>An IP header that claims no length, in front of a TCP header; a UDP header that claims no length.\<close>

theorem handler_lengths_witness:
  "(\<exists>v. ip_handle (view_of ([0x45, 0, 0, 0, 0, 0, 0, 0, 64, 6, 0, 0, 1, 1, 1, 1, 0x0A, 0, 0, 2] @ replicate 20 0)) 40 alice
       = (TcpCall 0x01010101 v 65516, alice)) \<and>
   (\<exists>v. udp_handle 0x01010101 (view_of [4, 0, 0, 69, 0, 0, 0, 0]) 8 bob = UdpCall 3 0x01010101 0x400 v 65528)"
proof -
  let ?p = "view_of ([0x45, 0, 0, 0, 0, 0, 0, 0, 64, 6, 0, 0, 1, 1, 1, 1, 0x0A, 0, 0, 2] @ replicate 20 0)"
  have f: "?p 0 = 0x45" "get16 ?p 2 = 0" "?p 9 = 6" "get32 ?p 12 = 0x01010101" "get32 ?p 16 = 0x0A000002"
    by (simp_all add: view_of_def get16_def get32_def)
  have ip: "n_ip alice = 0x0A000002" by (simp add: alice_def host_def)
  obtain v n where t: "ip_handle ?p 40 alice = (TcpCall 0x01010101 v n, alice)"
    using f ip by (simp add: ip_handle_def Let_def)
  have n: "n = 65516"
    using handler_lengths [where p = ?p and len = 40 and s = alice and src = "0x01010101" and v = v and n = n and s' = alice] t f
    by (simp add: Let_def)
  let ?q = "view_of [4, 0, 0, 69, 0, 0, 0, 0]"
  have g: "get16 ?q 0 = 0x400" "get16 ?q 2 = 69" "get16 ?q 4 = 0" by (simp_all add: view_of_def get16_def)
  have "List.find (\<lambda>l. ul_used l \<and> ul_port l = 69) (n_listeners bob) = Some \<lparr>ul_used = True, ul_port = 69, ul_handler = 3\<rparr>"
    by (simp add: bob_def host_def)
  with g obtain w m where u: "udp_handle 0x01010101 ?q 8 bob = UdpCall 3 0x01010101 0x400 w m"
    by (simp add: udp_handle_def Let_def)
  have "m = 65528"
    using handler_lengths [where src = "0x01010101" and p = ?q and len = 8 and s = bob and h = 3 and src' = "0x01010101" and port = "0x400"
        and v = w and n = m] u g by (simp add: Let_def)
  with t n u show ?thesis by blast
qed

section \<open>The cache\<close>

text \<open>
  C16: The ARP cache is a map with room for eight. Inserting a mapping keeps every address in at most one
  slot and makes the address resolve to the new link address; every other address resolves as before,
  except that when the cache is full and the address is new, the one in the first slot is forgotten.
\<close>

theorem arp_cache_refines:
  assumes "arp_ok cache"
  shows "arp_ok (arp_cache_insert ip mac cache) \<and>
    arp_lookup ip' (arp_cache_insert ip mac cache) =
      (if ip' = ip then Some mac
       else if arp_full cache \<and> arp_lookup ip cache = None \<and> ip' = ae_ip (cache ! 0) then None
       else arp_lookup ip' cache)"
  using arp_insert_ok [OF assms] arp_lookup_insert [OF assms] by blast

theorem arp_cache_refines_witness:
  "arp_lookup 0x0A000003 (arp_cache_insert 0x0A000003 [1, 2, 3, 4, 5, 6] no_arp) = Some [1, 2, 3, 4, 5, 6] \<and>
   arp_lookup 0x0A000004 (arp_cache_insert 0x0A000003 [1, 2, 3, 4, 5, 6] no_arp) = None"
  using arp_cache_refines [OF no_arp_ok(1), of "0x0A000003" "[1, 2, 3, 4, 5, 6]"] no_arp_ok(2) by simp

end
