(* ===== verification/Tcp.thy ===== *)
theory Tcp
  imports Netpath
begin

text \<open>
  The TCP client (\<open>src/sw/apps/net/tcp.c\<close>): one connection, one segment outstanding. The state holds
  the control block, what was handed to \<open>ip_send\<close> (whose answer nobody looks at), the clock the code
  reads, and the caller's own state; the caller's event handler is an argument of the operations.
\<close>

section \<open>State\<close>

abbreviation TCP_HDR_LEN :: nat where "TCP_HDR_LEN \<equiv> 20"
abbreviation TCP_MAX_PAYLOAD :: nat where "TCP_MAX_PAYLOAD \<equiv> 536"
abbreviation TCP_RTO_TICKS_BASE :: u32 where "TCP_RTO_TICKS_BASE \<equiv> 366"
abbreviation TCP_RTO_MAX_SHIFT :: nat where "TCP_RTO_MAX_SHIFT \<equiv> 4"
abbreviation TCP_MAX_RETRIES :: nat where "TCP_MAX_RETRIES \<equiv> 7"
abbreviation TCP_TIME_WAIT_TICKS :: u32 where "TCP_TIME_WAIT_TICKS \<equiv> 732 * 3"

abbreviation TCP_FLAG_FIN :: u8 where "TCP_FLAG_FIN \<equiv> 0x01"
abbreviation TCP_FLAG_SYN :: u8 where "TCP_FLAG_SYN \<equiv> 0x02"
abbreviation TCP_FLAG_RST :: u8 where "TCP_FLAG_RST \<equiv> 0x04"
abbreviation TCP_FLAG_PSH :: u8 where "TCP_FLAG_PSH \<equiv> 0x08"
abbreviation TCP_FLAG_ACK :: u8 where "TCP_FLAG_ACK \<equiv> 0x10"

definition has :: "u8 \<Rightarrow> u8 \<Rightarrow> bool" where "has flags f \<longleftrightarrow> flags AND f \<noteq> 0"

datatype tcp_state =
  TCP_CLOSED | TCP_SYN_SENT | TCP_ESTABLISHED | TCP_FIN_WAIT_1 | TCP_FIN_WAIT_2 | TCP_CLOSING | TCP_TIME_WAIT | TCP_LAST_ACK

datatype tcp_event = EvEstablished | EvData bytes | EvClosed

record 'a tcp =
  t_state :: tcp_state
  t_remote_ip :: u32
  t_remote_port :: u16
  t_local_port :: u16
  t_snd_una :: u32
  t_snd_nxt :: u32
  t_rcv_nxt :: u32
  t_tx_pending :: bool
  t_tx_seq :: u32
  t_tx_flags :: u8
  t_tx_buf :: bytes
  t_last_send :: u32
  t_retries :: nat
  t_time_wait_start :: u32
  t_handler :: bool
  t_our_ip :: u32
  t_next_port :: u16
  t_now :: u32
  t_out :: "(u32 \<times> bytes) list"
  t_app :: 'a

type_synonym 'a handler = "tcp_event \<Rightarrow> 'a tcp \<Rightarrow> 'a tcp"

definition tcp_init :: "u32 \<Rightarrow> 'a tcp \<Rightarrow> 'a tcp" where
  "tcp_init ip s = s\<lparr>t_our_ip := ip, t_state := TCP_CLOSED, t_tx_pending := False, t_handler := False,
     t_next_port := 49152 + ucast (t_now s mod 16384)\<rparr>"

section \<open>Sending\<close>

definition tcp_checksum :: "u32 \<Rightarrow> u32 \<Rightarrow> bytes \<Rightarrow> u16" where
  "tcp_checksum src_ip dst_ip seg =
     (let sum = (drop_bit 16 src_ip AND 0xFFFF) + (src_ip AND 0xFFFF) + (drop_bit 16 dst_ip AND 0xFFFF) +
                (dst_ip AND 0xFFFF) + 6 + of_nat (length seg) in
      ucast (NOT (fold_sum (sum + sum16 seg))))"

definition tcp_segment :: "u32 \<Rightarrow> u8 \<Rightarrow> bytes \<Rightarrow> 'a tcp \<Rightarrow> bytes" where
  "tcp_segment seq flags data s =
     (let pkt = put16 (t_local_port s) @ put16 (t_remote_port s) @ put32 seq @ put32 (t_rcv_nxt s) @
                [0x50, flags] @ put16 2048 @ [0, 0, 0, 0] @ data in
      with_checksum 16 (tcp_checksum (t_our_ip s) (t_remote_ip s) pkt) pkt)"

definition tcp_send_segment :: "u32 \<Rightarrow> u8 \<Rightarrow> bytes \<Rightarrow> 'a tcp \<Rightarrow> 'a tcp" where
  "tcp_send_segment seq flags data s =
     s\<lparr>t_out := t_out s @ [(t_remote_ip s, tcp_segment seq flags data s)]\<rparr>"

definition consumed :: "u8 \<Rightarrow> bytes \<Rightarrow> u32" where
  "consumed flags data =
     of_nat (length data) + (if has flags TCP_FLAG_SYN then 1 else 0) + (if has flags TCP_FLAG_FIN then 1 else 0)"

definition send_tracked :: "u8 \<Rightarrow> bytes \<Rightarrow> 'a tcp \<Rightarrow> 'a tcp" where
  "send_tracked flags data s =
     (let seq = t_snd_nxt s; s = tcp_send_segment seq flags data s in
      s\<lparr>t_tx_pending := True, t_tx_seq := seq, t_tx_flags := flags, t_tx_buf := data, t_last_send := t_now s,
        t_retries := 0, t_snd_nxt := t_snd_nxt s + consumed flags data\<rparr>)"

definition send_ack :: "'a tcp \<Rightarrow> 'a tcp" where
  "send_ack s = tcp_send_segment (t_snd_nxt s) TCP_FLAG_ACK [] s"

definition send_rst :: "'a tcp \<Rightarrow> 'a tcp" where
  "send_rst s = tcp_send_segment (t_snd_nxt s) TCP_FLAG_RST [] s"

definition reset_to_closed :: "'a tcp \<Rightarrow> 'a tcp" where
  "reset_to_closed s = s\<lparr>t_state := TCP_CLOSED, t_tx_pending := False, t_handler := False\<rparr>"

section \<open>Calls\<close>

definition tcp_connect :: "u32 \<Rightarrow> u16 \<Rightarrow> 'a tcp \<Rightarrow> bool \<times> 'a tcp" where
  "tcp_connect dst_ip dst_port s =
     (if t_state s \<noteq> TCP_CLOSED then (False, s)
      else
        let port = t_next_port s; nxt = port + 1; isn = t_now s * 2654435761 in
        (True, send_tracked TCP_FLAG_SYN []
           (s\<lparr>t_remote_ip := dst_ip, t_remote_port := dst_port, t_local_port := port,
              t_next_port := (if nxt = 0 then 49152 else nxt), t_snd_una := isn, t_snd_nxt := isn, t_rcv_nxt := 0,
              t_handler := True, t_tx_pending := False, t_state := TCP_SYN_SENT\<rparr>)))"

definition tcp_is_connected :: "'a tcp \<Rightarrow> bool" where "tcp_is_connected s \<longleftrightarrow> t_state s = TCP_ESTABLISHED"

definition tcp_send :: "bytes \<Rightarrow> 'a tcp \<Rightarrow> bool \<times> 'a tcp" where
  "tcp_send data s =
     (if t_state s \<noteq> TCP_ESTABLISHED then (False, s)
      else if t_tx_pending s then (False, s)
      else if length data > TCP_MAX_PAYLOAD then (False, s)
      else (True, send_tracked (TCP_FLAG_ACK OR TCP_FLAG_PSH) data s))"

definition tcp_close :: "'a tcp \<Rightarrow> bool \<times> 'a tcp" where
  "tcp_close s =
     (if t_state s \<noteq> TCP_ESTABLISHED then (False, s)
      else if t_tx_pending s then (False, s)
      else (True, (send_tracked (TCP_FLAG_ACK OR TCP_FLAG_FIN) [] s)\<lparr>t_state := TCP_FIN_WAIT_1\<rparr>))"

definition tcp_abort :: "'a tcp \<Rightarrow> 'a tcp" where
  "tcp_abort s = reset_to_closed (if t_state s \<noteq> TCP_CLOSED then send_rst s else s)"

definition notify :: "'a handler \<Rightarrow> tcp_event \<Rightarrow> 'a tcp \<Rightarrow> 'a tcp" where
  "notify h ev s = (if t_handler s then h ev s else s)"

section \<open>Receiving\<close>

definition process_ack :: "u32 \<Rightarrow> 'a tcp \<Rightarrow> bool \<times> 'a tcp" where
  "process_ack ack_num s =
     (if \<not> t_tx_pending s then (False, s)
      else
        let cons = consumed (t_tx_flags s) (t_tx_buf s) in
        if ack_num - t_tx_seq s < cons then (False, s)
        else (True, s\<lparr>t_snd_una := t_tx_seq s + cons, t_tx_pending := False\<rparr>))"

text \<open>A received segment, as the handler takes it apart.\<close>

record segment =
  sg_seq :: u32
  sg_ack :: u32
  sg_flags :: u8
  sg_data :: bytes

definition segment_of :: "view \<Rightarrow> nat \<Rightarrow> segment" where
  "segment_of p len =
     (let data_offset = unat (drop_bit 4 (p 12) * 4) in
      \<lparr>sg_seq = get32 p 4, sg_ack = get32 p 8, sg_flags = p 13,
       sg_data = view_bytes (view_at p data_offset) (len - data_offset)\<rparr>)"

definition handle_syn_sent :: "'a handler \<Rightarrow> segment \<Rightarrow> 'a tcp \<Rightarrow> 'a tcp" where
  "handle_syn_sent h g s =
     (if \<not> has (sg_flags g) TCP_FLAG_SYN \<or> \<not> has (sg_flags g) TCP_FLAG_ACK then s
      else case process_ack (sg_ack g) s of (ok, s) \<Rightarrow>
        if \<not> ok then s
        else notify h EvEstablished (send_ack (s\<lparr>t_rcv_nxt := sg_seq g + 1, t_state := TCP_ESTABLISHED\<rparr>)))"

definition take_data :: "'a handler \<Rightarrow> segment \<Rightarrow> 'a tcp \<Rightarrow> 'a tcp" where
  "take_data h g s =
     (if length (sg_data g) > 0 then
        (if sg_seq g = t_rcv_nxt s then
           notify h (EvData (sg_data g)) (send_ack (s\<lparr>t_rcv_nxt := t_rcv_nxt s + of_nat (length (sg_data g))\<rparr>))
         else if sg_seq g < t_rcv_nxt s then send_ack s
         else s)
      else s)"

definition take_fin :: "'a handler \<Rightarrow> segment \<Rightarrow> 'a tcp \<Rightarrow> 'a tcp" where
  "take_fin h g s =
     (if has (sg_flags g) TCP_FLAG_FIN then
        (let fin_seq = sg_seq g + of_nat (length (sg_data g)) in
         if fin_seq = t_rcv_nxt s then
           let s = send_ack (s\<lparr>t_rcv_nxt := t_rcv_nxt s + 1\<rparr>);
               s = (if \<not> t_tx_pending s then send_tracked (TCP_FLAG_ACK OR TCP_FLAG_FIN) [] s else s) in
           notify h EvClosed (s\<lparr>t_state := TCP_LAST_ACK\<rparr>)
         else s)
      else s)"

definition handle_established :: "'a handler \<Rightarrow> segment \<Rightarrow> 'a tcp \<Rightarrow> 'a tcp" where
  "handle_established h g s =
     (let s = (if has (sg_flags g) TCP_FLAG_ACK then snd (process_ack (sg_ack g) s) else s) in
      take_fin h g (take_data h g s))"

definition handle_fin_wait_1 :: "segment \<Rightarrow> 'a tcp \<Rightarrow> 'a tcp" where
  "handle_fin_wait_1 g s =
     (case (if has (sg_flags g) TCP_FLAG_ACK then process_ack (sg_ack g) s else (False, s)) of (our_fin_acked, s) \<Rightarrow>
        if has (sg_flags g) TCP_FLAG_FIN then
          let s = send_ack (s\<lparr>t_rcv_nxt := sg_seq g + 1\<rparr>) in
          if our_fin_acked then s\<lparr>t_state := TCP_TIME_WAIT, t_time_wait_start := t_now s\<rparr>
          else s\<lparr>t_state := TCP_CLOSING\<rparr>
        else if our_fin_acked then s\<lparr>t_state := TCP_FIN_WAIT_2\<rparr>
        else s)"

definition handle_fin_wait_2 :: "segment \<Rightarrow> 'a tcp \<Rightarrow> 'a tcp" where
  "handle_fin_wait_2 g s =
     (if has (sg_flags g) TCP_FLAG_FIN then
        (send_ack (s\<lparr>t_rcv_nxt := sg_seq g + 1\<rparr>))\<lparr>t_state := TCP_TIME_WAIT, t_time_wait_start := t_now s\<rparr>
      else s)"

definition handle_closing :: "segment \<Rightarrow> 'a tcp \<Rightarrow> 'a tcp" where
  "handle_closing g s =
     (if \<not> has (sg_flags g) TCP_FLAG_ACK then s
      else case process_ack (sg_ack g) s of (ok, s) \<Rightarrow>
        if ok then s\<lparr>t_state := TCP_TIME_WAIT, t_time_wait_start := t_now s\<rparr> else s)"

definition handle_last_ack :: "segment \<Rightarrow> 'a tcp \<Rightarrow> 'a tcp" where
  "handle_last_ack g s =
     (if \<not> has (sg_flags g) TCP_FLAG_ACK then s
      else case process_ack (sg_ack g) s of (ok, s) \<Rightarrow> if ok then reset_to_closed s else s)"

definition handle_state :: "'a handler \<Rightarrow> segment \<Rightarrow> 'a tcp \<Rightarrow> 'a tcp" where
  "handle_state h g s =
     (case t_state s of
        TCP_SYN_SENT \<Rightarrow> handle_syn_sent h g s
      | TCP_ESTABLISHED \<Rightarrow> handle_established h g s
      | TCP_FIN_WAIT_1 \<Rightarrow> handle_fin_wait_1 g s
      | TCP_FIN_WAIT_2 \<Rightarrow> handle_fin_wait_2 g s
      | TCP_CLOSING \<Rightarrow> handle_closing g s
      | TCP_LAST_ACK \<Rightarrow> handle_last_ack g s
      | TCP_TIME_WAIT \<Rightarrow> (if has (sg_flags g) TCP_FLAG_FIN then send_ack s else s)
      | TCP_CLOSED \<Rightarrow> s)"

definition tcp_handle :: "'a handler \<Rightarrow> u32 \<Rightarrow> view \<Rightarrow> nat \<Rightarrow> 'a tcp \<Rightarrow> 'a tcp" where
  "tcp_handle h src_ip p len s =
     (if t_state s = TCP_CLOSED then s
      else if len < TCP_HDR_LEN then s
      else
        let src_port = get16 p 0; dst_port = get16 p 2 in
        if src_ip \<noteq> t_remote_ip s \<or> src_port \<noteq> t_remote_port s \<or> dst_port \<noteq> t_local_port s then s
        else
          let data_offset = unat (drop_bit 4 (p 12) * 4) in
          if data_offset < TCP_HDR_LEN \<or> data_offset > len then s
          else
            let g = segment_of p len in
            if has (sg_flags g) TCP_FLAG_RST then reset_to_closed (notify h EvClosed s)
            else handle_state h g s)"

section \<open>The timer\<close>

definition rto :: "'a tcp \<Rightarrow> u32" where
  "rto s = push_bit (if t_retries s < TCP_RTO_MAX_SHIFT then t_retries s else TCP_RTO_MAX_SHIFT) TCP_RTO_TICKS_BASE"

definition tcp_poll :: "'a handler \<Rightarrow> 'a tcp \<Rightarrow> 'a tcp" where
  "tcp_poll h s =
     (if t_state s = TCP_CLOSED then s
      else if t_state s = TCP_TIME_WAIT then
        (if t_now s - t_time_wait_start s \<ge> TCP_TIME_WAIT_TICKS then reset_to_closed s else s)
      else if \<not> t_tx_pending s then s
      else if t_now s - t_last_send s < rto s then s
      else if t_retries s \<ge> TCP_MAX_RETRIES then reset_to_closed (notify h EvClosed s)
      else
        let s = tcp_send_segment (t_tx_seq s) (t_tx_flags s) (t_tx_buf s) s in
        s\<lparr>t_last_send := t_now s, t_retries := t_retries s + 1\<rparr>)"

section \<open>What the operations leave alone\<close>

lemma send_simps [simp]:
  "t_state (tcp_send_segment q f d s) = t_state s" "t_rcv_nxt (tcp_send_segment q f d s) = t_rcv_nxt s"
  "t_app (tcp_send_segment q f d s) = t_app s" "t_handler (tcp_send_segment q f d s) = t_handler s"
  "t_tx_pending (tcp_send_segment q f d s) = t_tx_pending s" "t_now (tcp_send_segment q f d s) = t_now s"
  "t_remote_ip (tcp_send_segment q f d s) = t_remote_ip s" "t_remote_port (tcp_send_segment q f d s) = t_remote_port s"
  "t_local_port (tcp_send_segment q f d s) = t_local_port s"
  by (simp_all add: tcp_send_segment_def)

lemma send_ack_simps [simp]:
  "t_state (send_ack s) = t_state s" "t_rcv_nxt (send_ack s) = t_rcv_nxt s"
  "t_app (send_ack s) = t_app s" "t_handler (send_ack s) = t_handler s" "t_now (send_ack s) = t_now s"
  "t_tx_pending (send_ack s) = t_tx_pending s" "t_remote_ip (send_ack s) = t_remote_ip s"
  "t_remote_port (send_ack s) = t_remote_port s" "t_local_port (send_ack s) = t_local_port s"
  by (simp_all add: send_ack_def)

lemma send_tracked_simps [simp]:
  "t_remote_ip (send_tracked f d s) = t_remote_ip s" "t_remote_port (send_tracked f d s) = t_remote_port s"
  "t_local_port (send_tracked f d s) = t_local_port s"
  "t_state (send_tracked f d s) = t_state s" "t_rcv_nxt (send_tracked f d s) = t_rcv_nxt s"
  "t_app (send_tracked f d s) = t_app s" "t_handler (send_tracked f d s) = t_handler s"
  by (simp_all add: send_tracked_def Let_def)

lemma reset_simps [simp]:
  "t_state (reset_to_closed s) = TCP_CLOSED" "t_app (reset_to_closed s) = t_app s"
  by (simp_all add: reset_to_closed_def)

lemma process_ack_simps [simp]:
  "t_remote_ip (snd (process_ack a s)) = t_remote_ip s" "t_remote_port (snd (process_ack a s)) = t_remote_port s"
  "t_local_port (snd (process_ack a s)) = t_local_port s"
  "t_state (snd (process_ack a s)) = t_state s" "t_rcv_nxt (snd (process_ack a s)) = t_rcv_nxt s"
  "t_app (snd (process_ack a s)) = t_app s" "t_handler (snd (process_ack a s)) = t_handler s"
  by (simp_all add: process_ack_def Let_def)

section \<open>In-order delivery\<close>

text \<open>A caller that writes down the events.\<close>

definition log :: "tcp_event list handler" where
  "log ev s = s\<lparr>t_app := t_app s @ [ev]\<rparr>"

fun event_data :: "tcp_event \<Rightarrow> bytes" where
  "event_data (EvData d) = d"
| "event_data EvEstablished = []"
| "event_data EvClosed = []"

definition delivered :: "tcp_event list tcp \<Rightarrow> bytes" where
  "delivered s = concat (map event_data (t_app s))"

lemma notify_log:
  "t_remote_ip (notify log ev s) = t_remote_ip s" "t_remote_port (notify log ev s) = t_remote_port s"
  "t_local_port (notify log ev s) = t_local_port s"
  "t_state (notify log ev s) = t_state s" "t_rcv_nxt (notify log ev s) = t_rcv_nxt s"
  "t_handler (notify log ev s) = t_handler s"
  "delivered (notify log ev s) = delivered s @ (if t_handler s then event_data ev else [])"
  by (simp_all add: notify_def log_def delivered_def)

lemma delivered_simps:
  "delivered (send_ack s) = delivered s" "delivered (send_tracked f d s) = delivered s"
  "delivered (send_rst s) = delivered s" "delivered (reset_to_closed s) = delivered s"
  "delivered (tcp_send_segment q f d s) = delivered s"
  "delivered (s\<lparr>t_state := st\<rparr>) = delivered s" "delivered (s\<lparr>t_rcv_nxt := rn\<rparr>) = delivered s"
  "delivered (s\<lparr>t_last_send := ls\<rparr>) = delivered s" "delivered (s\<lparr>t_retries := r\<rparr>) = delivered s"
  "delivered (s\<lparr>t_now := now\<rparr>) = delivered s"
  by (simp_all add: delivered_def send_rst_def)

text \<open>
  A segment of a peer that sends the byte \<open>k\<close> of its stream under the sequence number \<open>base + k\<close>, and its SYN
  under the number before.
\<close>

definition honest :: "bytes \<Rightarrow> u32 \<Rightarrow> segment \<Rightarrow> bool" where
  "honest stream base g \<longleftrightarrow>
     (has (sg_flags g) TCP_FLAG_SYN \<longrightarrow> sg_seq g + 1 = base) \<and>
     (sg_data g \<noteq> [] \<longrightarrow> (\<exists>k. sg_seq g = base + of_nat k \<and> k + length (sg_data g) \<le> length stream \<and>
        sg_data g = take (length (sg_data g)) (drop k stream)))"

definition matches :: "u32 \<Rightarrow> view \<Rightarrow> 'a tcp \<Rightarrow> bool" where
  "matches src p s \<longleftrightarrow> src = t_remote_ip s \<and> get16 p 0 = t_remote_port s \<and> get16 p 2 = t_local_port s"

text \<open>Anything may happen to an open connection: segments in any order and number, calls, time.\<close>

inductive tcp_step :: "bytes \<Rightarrow> u32 \<Rightarrow> tcp_event list tcp \<Rightarrow> tcp_event list tcp \<Rightarrow> bool" for stream base where
  recv: "(matches src p s \<longrightarrow> honest stream base (segment_of p len)) \<Longrightarrow> tcp_step stream base s (tcp_handle log src p len s)"
| poll: "tcp_step stream base s (tcp_poll log s)"
| send: "tcp_step stream base s (snd (tcp_send d s))"
| close: "tcp_step stream base s (snd (tcp_close s))"
| abort: "tcp_step stream base s (tcp_abort s)"
| clock: "tcp_step stream base s (s\<lparr>t_now := now\<rparr>)"

definition in_order :: "bytes \<Rightarrow> u32 \<Rightarrow> tcp_event list tcp \<Rightarrow> bool" where
  "in_order stream base s \<longleftrightarrow>
     (t_state s = TCP_SYN_SENT \<longrightarrow> delivered s = [] \<and> t_handler s) \<and>
     (\<exists>n \<le> length stream. delivered s = take n stream \<and> (t_state s = TCP_ESTABLISHED \<longrightarrow> t_rcv_nxt s = base + of_nat n \<and> t_handler s))"

lemma in_orderI:
  "(t_state s = TCP_SYN_SENT \<Longrightarrow> delivered s = [] \<and> t_handler s) \<Longrightarrow> n \<le> length stream \<Longrightarrow> delivered s = take n stream \<Longrightarrow>
   (t_state s = TCP_ESTABLISHED \<Longrightarrow> t_rcv_nxt s = base + of_nat n \<and> t_handler s) \<Longrightarrow> in_order stream base s"
  by (auto simp: in_order_def)

text \<open>An operation that delivers nothing and does not open the connection.\<close>

lemma in_order_closed:
  "in_order stream base s \<Longrightarrow> delivered s' = delivered s \<Longrightarrow> t_state s' \<notin> {TCP_ESTABLISHED, TCP_SYN_SENT} \<Longrightarrow>
   in_order stream base s'"
  by (auto simp: in_order_def)

lemma in_order_same:
  "in_order stream base s \<Longrightarrow> delivered s' = delivered s \<Longrightarrow> t_state s' = t_state s \<Longrightarrow> t_rcv_nxt s' = t_rcv_nxt s \<Longrightarrow>
   t_handler s' = t_handler s \<Longrightarrow> in_order stream base s'"
  by (auto simp: in_order_def)

lemma take_data_in_order:
  assumes "in_order stream base s" "t_state s = TCP_ESTABLISHED" "honest stream base g" "length stream < 4294967296"
  shows "in_order stream base (take_data log g s)"
proof (cases "sg_data g \<noteq> [] \<and> sg_seq g = t_rcv_nxt s")
  case False
  then show ?thesis by (intro in_order_same [OF assms(1)]) (auto simp: take_data_def delivered_simps)
next
  case True
  let ?d = "sg_data g"
  obtain n where n: "n \<le> length stream" "delivered s = take n stream" "t_rcv_nxt s = base + of_nat n" "t_handler s"
    using assms(1,2) by (auto simp: in_order_def)
  obtain k where k: "sg_seq g = base + of_nat k" "k + length ?d \<le> length stream" "?d = take (length ?d) (drop k stream)"
    using assms(3) True by (auto simp: honest_def)
  have "(of_nat k :: u32) = of_nat n" using True k(1) n(3) by simp
  then have "k = n" using k(2) n(1) assms(4) by (auto simp: word_of_nat_eq_iff take_bit_nat_eq_self)
  let ?s = "send_ack (s\<lparr>t_rcv_nxt := t_rcv_nxt s + of_nat (length ?d)\<rparr>)"
  have eq: "take_data log g s = notify log (EvData ?d) ?s" using True by (simp add: take_data_def)
  have d: "delivered ?s = take n stream" using n(2) by (simp add: delivered_def)
  have "take n stream @ ?d = take (n + length ?d) stream"
    using k(3) \<open>k = n\<close> by (metis take_add)
  then show ?thesis
    unfolding eq using d k(2) \<open>k = n\<close> n(3,4) assms(2)
    by (intro in_orderI [where n = "n + length ?d"]) (simp_all add: notify_log add.assoc)
qed

lemma take_fin_cases:
  "take_fin log g s = s \<or> delivered (take_fin log g s) = delivered s \<and> t_state (take_fin log g s) = TCP_LAST_ACK"
  by (auto simp: take_fin_def Let_def notify_log delivered_simps)

lemma take_fin_in_order: "in_order stream base s \<Longrightarrow> in_order stream base (take_fin log g s)"
  using take_fin_cases [of g s] by (auto intro: in_order_closed)

lemma handle_other_states:
  assumes "t_state s \<notin> {TCP_ESTABLISHED, TCP_SYN_SENT}"
  shows "delivered (handle_state h g s) = delivered s \<and> t_state (handle_state h g s) \<notin> {TCP_ESTABLISHED, TCP_SYN_SENT}"
proof -
  obtain ok s' where pa: "process_ack (sg_ack g) s = (ok, s')" by fastforce
  with process_ack_simps [of "sg_ack g" s] have "t_state s' = t_state s" "t_app s' = t_app s" by simp_all
  with assms show ?thesis
    by (cases "t_state s")
      (auto simp: handle_state_def handle_fin_wait_1_def handle_fin_wait_2_def handle_closing_def handle_last_ack_def
        Let_def delivered_def pa)
qed

lemma handle_in_order:
  assumes "in_order stream base s" "honest stream base g" "length stream < 4294967296"
  shows "in_order stream base (handle_state log g s)"
proof (cases "t_state s = TCP_ESTABLISHED")
  case True
  let ?s = "if has (sg_flags g) TCP_FLAG_ACK then snd (process_ack (sg_ack g) s) else s"
  have "in_order stream base ?s" "t_state ?s = TCP_ESTABLISHED"
    using True by (auto intro!: in_order_same [OF assms(1)] assms(1) simp: delivered_def)
  then have "in_order stream base (take_fin log g (take_data log g ?s))"
    by (intro take_fin_in_order take_data_in_order assms(2,3))
  with True show ?thesis by (simp add: handle_state_def handle_established_def Let_def)
next
  case False
  show ?thesis
  proof (cases "t_state s = TCP_SYN_SENT")
    case True
    obtain ok s' where pa: "process_ack (sg_ack g) s = (ok, s')" by fastforce
    with process_ack_simps [of "sg_ack g" s]
    have s': "t_state s' = t_state s" "t_app s' = t_app s" "t_handler s' = t_handler s" "t_rcv_nxt s' = t_rcv_nxt s" by simp_all
    have d: "delivered s' = []" "delivered s = []" "t_handler s"
      using assms(1) True s'(2) by (simp_all add: in_order_def delivered_def)
    have "in_order stream base s'" using s' d by (intro in_order_same [OF assms(1)]) simp_all
    moreover have "in_order stream base
        (notify log EvEstablished (send_ack (s'\<lparr>t_rcv_nxt := sg_seq g + 1, t_state := TCP_ESTABLISHED\<rparr>)))"
      if "has (sg_flags g) TCP_FLAG_SYN"
      using that assms(2) d s' by (intro in_orderI [where n = 0]) (simp_all add: notify_log delivered_simps honest_def)
    ultimately show ?thesis using True assms(1) by (auto simp: handle_state_def handle_syn_sent_def pa)
  next
    case F: False
    with False have "t_state s \<notin> {TCP_ESTABLISHED, TCP_SYN_SENT}" by simp
    from handle_other_states [OF this] show ?thesis by (intro in_order_closed [OF assms(1)]) blast+
  qed
qed

lemma tcp_step_in_order:
  assumes "tcp_step stream base s s'" "in_order stream base s" "length stream < 4294967296"
  shows "in_order stream base s'"
  using assms(1)
proof cases
  case (recv src p len)
  show ?thesis
  proof (cases "matches src p s")
    case True
    let ?g = "segment_of p len"
    have "in_order stream base (handle_state log ?g s)"
      using handle_in_order [OF assms(2) _ assms(3)] recv(2) True by blast
    moreover have "in_order stream base (reset_to_closed (notify log EvClosed s))"
      by (rule in_order_closed [OF assms(2)]) (simp_all add: notify_log delivered_simps)
    ultimately show ?thesis using assms(2) unfolding recv(1) tcp_handle_def Let_def by simp
  next
    case False
    then have "s' = s" unfolding recv(1) by (auto simp: tcp_handle_def matches_def Let_def)
    with assms(2) show ?thesis by simp
  qed
next
  case poll
  have "delivered s' = delivered s \<and> t_state s' = t_state s \<and> t_rcv_nxt s' = t_rcv_nxt s \<and> t_handler s' = t_handler s \<or>
    delivered s' = delivered s \<and> t_state s' = TCP_CLOSED"
    unfolding poll by (simp add: tcp_poll_def Let_def delivered_simps notify_log)
  then show ?thesis using in_order_same [OF assms(2)] in_order_closed [OF assms(2)] by auto
next
  case (send d)
  then show ?thesis
    by (intro in_order_same [OF assms(2)]) (simp_all add: tcp_send_def delivered_simps)
next
  case close
  have "delivered s' = delivered s \<and> t_state s' = t_state s \<and> t_rcv_nxt s' = t_rcv_nxt s \<and> t_handler s' = t_handler s \<or>
    delivered s' = delivered s \<and> t_state s' = TCP_FIN_WAIT_1"
    unfolding close by (simp add: tcp_close_def delivered_simps)
  then show ?thesis using in_order_same [OF assms(2)] in_order_closed [OF assms(2)] by auto
next
  case abort
  then show ?thesis
    by (intro in_order_closed [OF assms(2)]) (simp_all add: tcp_abort_def delivered_simps)
next
  case (clock now)
  then show ?thesis
    by (intro in_order_same [OF assms(2)]) (simp_all add: delivered_simps)
qed

lemma tcp_steps_in_order:
  "(tcp_step stream base)\<^sup>*\<^sup>* s s' \<Longrightarrow> in_order stream base s \<Longrightarrow> length stream < 4294967296 \<Longrightarrow> in_order stream base s'"
  by (induction rule: rtranclp_induct) (auto intro: tcp_step_in_order)

text \<open>
  C17: A caller that connects and writes down what its handler is told has, whatever the network loses, duplicates or
  reorders, whatever it sends, and whenever it polls or gives up, been given a prefix of the peer's stream: no byte
  twice, none out of order and none left out.
\<close>

theorem tcp_delivers_in_order:
  assumes "tcp_connect ip port s0 = (True, s)" "t_app s0 = []" "(tcp_step stream base)\<^sup>*\<^sup>* s s'"
    and "length stream < 4294967296"
  shows "\<exists>n \<le> length stream. delivered s' = take n stream \<and> (tcp_is_connected s' \<longrightarrow> t_rcv_nxt s' = base + of_nat n)"
proof -
  have "t_app s = []" "t_state s = TCP_SYN_SENT" "t_handler s"
    using assms(1,2) by (auto simp: tcp_connect_def Let_def split: if_splits)
  then have "in_order stream base s" by (auto simp: in_order_def delivered_def)
  with tcp_steps_in_order [OF assms(3)] assms(4) show ?thesis by (auto simp: in_order_def tcp_is_connected_def)
qed

section \<open>The wire format\<close>

lemma tcp_segment_bytes:
  obtains c where "tcp_segment seq flags data s =
    put16 (t_local_port s) @ put16 (t_remote_port s) @ put32 seq @ put32 (t_rcv_nxt s) @ [0x50, flags] @ put16 2048 @
    put16 c @ [0, 0] @ data"
proof -
  define pkt where "pkt = put16 (t_local_port s) @ put16 (t_remote_port s) @ put32 seq @ put32 (t_rcv_nxt s) @
    [0x50, flags] @ put16 2048 @ [0, 0, 0, 0] @ data"
  have "tcp_segment seq flags data s = with_checksum 16 (tcp_checksum (t_our_ip s) (t_remote_ip s) pkt) pkt"
    by (simp add: tcp_segment_def pkt_def Let_def)
  also have "\<dots> = put16 (t_local_port s) @ put16 (t_remote_port s) @ put32 seq @ put32 (t_rcv_nxt s) @ [0x50, flags] @
    put16 2048 @ put16 (tcp_checksum (t_our_ip s) (t_remote_ip s) pkt) @ [0, 0] @ data"
    by (simp add: with_checksum_def pkt_def put16_def put32_def)
  finally show ?thesis by (rule that)
qed

lemma unat_and_16: "unat (x AND 0xFFFF :: u32) < 65536"
proof -
  have "x AND 0xFFFF = take_bit 16 x" by (simp add: take_bit_eq_mask mask_eq_exp_minus_1)
  then have "unat (x AND 0xFFFF) = unat x mod 65536"
    by (simp only: unsigned_take_bit_eq) (simp add: take_bit_eq_mod)
  then show ?thesis by simp
qed

lemma pseudo_header_small:
  assumes "n \<le> 1000"
  shows "unat ((drop_bit 16 a AND 0xFFFF) + (a AND 0xFFFF) + (drop_bit 16 b AND 0xFFFF) + (b AND 0xFFFF) + 6 + of_nat n :: u32)
    < 300000"
proof -
  have add: "unat (x + y) \<le> unat x + unat y" for x y :: u32 by (simp add: unat_word_ariths)
  have "unat (of_nat n :: u32) \<le> 1000" using assms by (simp add: unat_of_nat)
  moreover have "unat (6 :: u32) = 6" by simp
  moreover note unat_and_16 [of "drop_bit 16 a"] unat_and_16 [of a] unat_and_16 [of "drop_bit 16 b"] unat_and_16 [of b]
  moreover note add [of "drop_bit 16 a AND 0xFFFF" "a AND 0xFFFF"]
    add [of "(drop_bit 16 a AND 0xFFFF) + (a AND 0xFFFF)" "drop_bit 16 b AND 0xFFFF"]
    add [of "(drop_bit 16 a AND 0xFFFF) + (a AND 0xFFFF) + (drop_bit 16 b AND 0xFFFF)" "b AND 0xFFFF"]
    add [of "(drop_bit 16 a AND 0xFFFF) + (a AND 0xFFFF) + (drop_bit 16 b AND 0xFFFF) + (b AND 0xFFFF)" 6]
    add [of "(drop_bit 16 a AND 0xFFFF) + (a AND 0xFFFF) + (drop_bit 16 b AND 0xFFFF) + (b AND 0xFFFF) + 6" "of_nat n"]
  ultimately show ?thesis by linarith
qed

lemma tcp_checksum_verifies:
  assumes "length pkt \<le> 1000" "17 < length pkt" "pkt ! 16 = 0" "pkt ! 17 = 0"
  shows "tcp_checksum src dst (with_checksum 16 (tcp_checksum src dst pkt) pkt) = 0"
proof -
  let ?c = "tcp_checksum src dst pkt" let ?pkt = "with_checksum 16 (tcp_checksum src dst pkt) pkt"
  define sum where "sum = (drop_bit 16 src AND 0xFFFF) + (src AND 0xFFFF) + (drop_bit 16 dst AND 0xFFFF) +
    (dst AND 0xFFFF) + 6 + (of_nat (length pkt) :: u32)"
  have len: "length ?pkt = length pkt" by (simp add: with_checksum_def)
  have c: "?c = ucast (NOT (fold_sum (sum + sum16 pkt)))" "tcp_checksum src dst ?pkt = ucast (NOT (fold_sum (sum + sum16 ?pkt)))"
    unfolding tcp_checksum_def Let_def sum_def by (simp_all only: len [unfolded tcp_checksum_def Let_def])
  have w: "words ?pkt = words pkt + unat ?c"
    using words_with_checksum [of 8 pkt ?c] assms by simp
  have "unat sum < 300000" unfolding sum_def by (rule pseudo_header_small [OF assms(1)])
  moreover have "words ?pkt \<le> 65535 * 500"
    by (rule order_trans [OF words_le]) (use len assms(1) in simp)
  ultimately have "unat (sum + sum16 ?pkt) = unat (sum + sum16 pkt) + unat ?c"
    using w assms(1) len by (simp add: unat_plus_nowrap unat_sum16)
  then have "(ucast (NOT (fold_sum (sum + sum16 ?pkt))) :: u16) = 0"
    by (intro fold_complement [where s = "sum + sum16 pkt"]) (simp only: c(1) [symmetric])
  then show ?thesis by (simp only: c(2))
qed

lemma tcp_segment_reads_back:
  assumes "length data \<le> TCP_MAX_PAYLOAD"
  shows "let p = view_of (tcp_segment seq flags data s) in
    p 12 = 0x50 \<and> get16 p 0 = t_local_port s \<and> get16 p 2 = t_remote_port s \<and>
    segment_of p (length (tcp_segment seq flags data s))
      = \<lparr>sg_seq = seq, sg_ack = t_rcv_nxt s, sg_flags = flags, sg_data = data\<rparr> \<and>
    tcp_checksum (t_our_ip s) (t_remote_ip s) (tcp_segment seq flags data s) = 0"
proof -
  obtain c where b: "tcp_segment seq flags data s =
    put16 (t_local_port s) @ put16 (t_remote_port s) @ put32 seq @ put32 (t_rcv_nxt s) @ [0x50, flags] @ put16 2048 @
    put16 c @ [0, 0] @ data" by (rule tcp_segment_bytes)
  define p where "p = view_of (tcp_segment seq flags data s)"
  have "get16 p 0 = t_local_port s" "get16 p 2 = t_remote_port s"
    using get16_put [of "[]" 0] get16_put [of "put16 (t_local_port s)" 2] unfolding p_def b by simp_all
  moreover have f: "get32 p 4 = seq" "get32 p 8 = t_rcv_nxt s"
    using get32_put [of "put16 (t_local_port s) @ put16 (t_remote_port s)" 4]
      get32_put [of "put16 (t_local_port s) @ put16 (t_remote_port s) @ put32 seq" 8] unfolding p_def b by simp_all
  moreover have "p 12 = 0x50" "p 13 = flags" unfolding p_def b by (simp_all add: view_of_def nth_append)
  moreover have at: "view_at p 20 = view_of data"
    unfolding p_def b
    using view_at_append [of 20 "put16 (t_local_port s) @ put16 (t_remote_port s) @ put32 seq @ put32 (t_rcv_nxt s) @
      [0x50, flags] @ put16 2048 @ put16 c @ [0, 0]" data] by simp
  moreover have len: "length (tcp_segment seq flags data s) = 20 + length data" unfolding b by simp
  moreover have "tcp_checksum (t_our_ip s) (t_remote_ip s) (tcp_segment seq flags data s) = 0"
    unfolding tcp_segment_def Let_def
    by (rule tcp_checksum_verifies) (use assms in \<open>simp_all add: nth_append\<close>)
  ultimately show ?thesis
    using view_bytes_append [of "length data" data "[]"]
    by (simp add: segment_of_def Let_def p_def [symmetric] at)
qed

lemma length_tcp_segment: "length (tcp_segment seq flags data s) = 20 + length data"
  by (simp add: tcp_segment_def with_checksum_def Let_def)

lemma tcp_handle_segment:
  assumes "length data \<le> TCP_MAX_PAYLOAD" "t_state s \<noteq> TCP_CLOSED" "src = t_remote_ip s"
    and "t_local_port q = t_remote_port s" "t_remote_port q = t_local_port s"
  shows "tcp_handle h src (view_of (tcp_segment seq flags data q)) (length (tcp_segment seq flags data q)) s =
    (if has flags TCP_FLAG_RST then reset_to_closed (notify h EvClosed s)
     else handle_state h \<lparr>sg_seq = seq, sg_ack = t_rcv_nxt q, sg_flags = flags, sg_data = data\<rparr> s)"
proof -
  have "\<not> length (tcp_segment seq flags data q) < 20" by (simp add: length_tcp_segment)
  then show ?thesis
    using tcp_segment_reads_back [OF assms(1), of seq flags q] assms(2-5) by (simp add: tcp_handle_def Let_def)
qed

text \<open>
  Every segment the client sends reads back as what was put into it: the ports, the two sequence numbers, the flags and
  the data, which start at the offset the header names; and its checksum verifies.
\<close>

theorem tcp_segment_roundtrip:
  assumes "length data \<le> TCP_MAX_PAYLOAD"
  shows "let p = view_of (tcp_segment seq flags data s) in
    get16 p 0 = t_local_port s \<and> get16 p 2 = t_remote_port s \<and>
    segment_of p (length (tcp_segment seq flags data s))
      = \<lparr>sg_seq = seq, sg_ack = t_rcv_nxt s, sg_flags = flags, sg_data = data\<rparr> \<and>
    tcp_checksum (t_our_ip s) (t_remote_ip s) (tcp_segment seq flags data s) = 0"
  using tcp_segment_reads_back [OF assms, of seq flags s] by (simp add: Let_def)

section \<open>Retransmission\<close>

text \<open>Polls at the given times, and one poll at the moment the timer runs out.\<close>

definition polls :: "u32 list \<Rightarrow> tcp_event list tcp \<Rightarrow> tcp_event list tcp" where
  "polls ts s = fold (\<lambda>now s. tcp_poll log (s\<lparr>t_now := now\<rparr>)) ts s"

definition expire :: "tcp_event list tcp \<Rightarrow> tcp_event list tcp" where
  "expire s = tcp_poll log (s\<lparr>t_now := t_last_send s + rto s\<rparr>)"

definition tracked :: "tcp_event list tcp \<Rightarrow> u32 \<times> bytes" where
  "tracked s = (t_remote_ip s, tcp_segment (t_tx_seq s) (t_tx_flags s) (t_tx_buf s) s)"

text \<open>The states a connection passes through while its segment stays unanswered.\<close>

definition waiting :: "tcp_event list tcp \<Rightarrow> nat \<Rightarrow> tcp_event list tcp \<Rightarrow> bool" where
  "waiting s0 n s \<longleftrightarrow> n \<le> TCP_MAX_RETRIES \<and> t_state s = t_state s0 \<and> t_tx_pending s \<and> t_handler s \<and> t_retries s = n \<and>
     t_out s = t_out s0 @ replicate n (tracked s0) \<and> tracked s = tracked s0 \<and> t_app s = t_app s0"

definition given_up :: "tcp_event list tcp \<Rightarrow> tcp_event list tcp \<Rightarrow> bool" where
  "given_up s0 s \<longleftrightarrow> t_state s = TCP_CLOSED \<and> t_out s = t_out s0 @ replicate TCP_MAX_RETRIES (tracked s0) \<and>
     t_app s = t_app s0 @ [EvClosed]"

lemma tracked_simps [simp]:
  "tracked (s\<lparr>t_now := now\<rparr>) = tracked s" "tracked (s\<lparr>t_last_send := now\<rparr>) = tracked s"
  "tracked (s\<lparr>t_retries := n\<rparr>) = tracked s" "tracked (tcp_send_segment q f d s) = tracked s"
  by (simp_all add: tracked_def tcp_segment_def tcp_send_segment_def)

lemma rto_now [simp]: "rto (s\<lparr>t_now := now\<rparr>) = rto s"
  by (simp add: rto_def)

lemma waiting_now: "waiting s0 n (s\<lparr>t_now := now\<rparr>) = waiting s0 n s"
  by (simp add: waiting_def)

lemma tcp_poll_waiting:
  assumes "waiting s0 n s" "t_state s0 \<notin> {TCP_CLOSED, TCP_TIME_WAIT}"
  shows "if t_now s - t_last_send s < rto s then tcp_poll log s = s
    else if n < TCP_MAX_RETRIES then waiting s0 (n + 1) (tcp_poll log s)
    else given_up s0 (tcp_poll log s)"
proof -
  have s: "t_state s = t_state s0" "t_tx_pending s" "t_retries s = n" "n \<le> 7" "t_handler s"
    "t_out s = t_out s0 @ replicate n (tracked s0)" "tracked s = tracked s0" "t_app s = t_app s0"
    using assms(1) by (simp_all add: waiting_def)
  show ?thesis
  proof (cases "t_now s - t_last_send s < rto s \<or> n < 7")
    case True
    have "tcp_send_segment (t_tx_seq s) (t_tx_flags s) (t_tx_buf s) s = s\<lparr>t_out := t_out s @ [tracked s]\<rparr>"
      by (simp add: tcp_send_segment_def tracked_def)
    moreover have "tracked (s\<lparr>t_out := out\<rparr>) = tracked s" for out by (simp add: tracked_def tcp_segment_def)
    moreover have "replicate n (tracked s0) @ [tracked s0] = replicate (Suc n) (tracked s0)"
      by (simp add: replicate_append_same)
    ultimately show ?thesis using True s assms(2) by (auto simp: tcp_poll_def waiting_def Let_def)
  next
    case False
    then show ?thesis using s assms(2)
      by (simp add: tcp_poll_def given_up_def notify_def log_def reset_to_closed_def)
  qed
qed

lemma tcp_poll_closed: "t_state s = TCP_CLOSED \<Longrightarrow> tcp_poll h s = s"
  by (simp add: tcp_poll_def)

lemma given_up_now: "given_up s0 (s\<lparr>t_now := now\<rparr>) = given_up s0 s"
  by (simp add: given_up_def)

lemma polls_waiting:
  assumes "t_state s0 \<notin> {TCP_CLOSED, TCP_TIME_WAIT}"
  shows "(\<exists>n. waiting s0 n s) \<or> given_up s0 s \<Longrightarrow> (\<exists>n. waiting s0 n (polls ts s)) \<or> given_up s0 (polls ts s)"
proof (induction ts arbitrary: s)
  case Nil
  then show ?case by (simp add: polls_def)
next
  case (Cons now ts)
  let ?s = "s\<lparr>t_now := now\<rparr>"
  have eq: "polls (now # ts) s = polls ts (tcp_poll log ?s)" by (simp add: polls_def)
  have "(\<exists>n. waiting s0 n (tcp_poll log ?s)) \<or> given_up s0 (tcp_poll log ?s)"
    using Cons.prems
  proof
    assume "\<exists>n. waiting s0 n s"
    then obtain n where "waiting s0 n ?s" by (auto simp: waiting_now)
    from tcp_poll_waiting [OF this assms] this show ?thesis by (auto split: if_splits)
  next
    assume "given_up s0 s"
    then have "given_up s0 ?s" by (simp add: given_up_now)
    moreover from this have "tcp_poll log ?s = ?s" by (intro tcp_poll_closed) (simp add: given_up_def)
    ultimately show ?thesis by simp
  qed
  then show ?case unfolding eq by (rule Cons.IH)
qed

lemma expire_waiting:
  assumes "waiting s0 n s" "t_state s0 \<notin> {TCP_CLOSED, TCP_TIME_WAIT}"
  shows "if n < TCP_MAX_RETRIES then waiting s0 (n + 1) (expire s) else given_up s0 (expire s)"
proof -
  let ?s = "s\<lparr>t_now := t_last_send s + rto s\<rparr>"
  have "waiting s0 n ?s" using assms(1) by (simp add: waiting_now)
  moreover have "\<not> t_now ?s - t_last_send ?s < rto ?s" by (simp add: rto_def)
  ultimately show ?thesis
    unfolding expire_def using tcp_poll_waiting [OF _ assms(2), of n ?s] by (cases "n < 7") (simp_all only: if_True if_False)
qed

lemma expires_waiting:
  assumes "t_state s0 \<notin> {TCP_CLOSED, TCP_TIME_WAIT}" "waiting s0 0 s0"
  shows "n \<le> 7 \<Longrightarrow> waiting s0 n ((expire ^^ n) s0)"
proof (induction n)
  case 0
  then show ?case using assms(2) by simp
next
  case (Suc n)
  then have "waiting s0 n ((expire ^^ n) s0)" by simp
  from expire_waiting [OF this assms(1)] Suc.prems show ?case by simp
qed

text \<open>
  A segment that nobody answers is sent again at most seven times, unchanged, and the caller is told that the connection is
  closed exactly when the client gives up, whatever the times of the polls; and if the polls come when the timer runs out,
  the seventh of them sends the last copy and the eighth gives up.
\<close>

theorem tcp_retransmits_then_gives_up:
  assumes "t_state s \<notin> {TCP_CLOSED, TCP_TIME_WAIT}" "t_tx_pending s" "t_handler s" "t_retries s = 0"
  shows "(let s' = polls ts s in
      \<exists>n \<le> TCP_MAX_RETRIES. t_out s' = t_out s @ replicate n (t_remote_ip s, tcp_segment (t_tx_seq s) (t_tx_flags s) (t_tx_buf s) s) \<and>
        (if t_state s' = TCP_CLOSED then n = TCP_MAX_RETRIES \<and> t_app s' = t_app s @ [EvClosed]
         else t_state s' = t_state s \<and> t_app s' = t_app s)) \<and>
    t_state ((expire ^^ 7) s) = t_state s \<and>
    length (t_out ((expire ^^ 7) s)) = length (t_out s) + 7 \<and>
    t_state ((expire ^^ 8) s) = TCP_CLOSED"
proof -
  have w: "waiting s 0 s" using assms by (simp add: waiting_def)
  have "(\<exists>n. waiting s n (polls ts s)) \<or> given_up s (polls ts s)"
    using polls_waiting [OF assms(1)] w by blast
  then have "\<exists>n \<le> 7. t_out (polls ts s) = t_out s @ replicate n (tracked s) \<and>
        (if t_state (polls ts s) = TCP_CLOSED then n = 7 \<and> t_app (polls ts s) = t_app s @ [EvClosed]
         else t_state (polls ts s) = t_state s \<and> t_app (polls ts s) = t_app s)"
  proof
    assume "\<exists>n. waiting s n (polls ts s)"
    then show ?thesis using assms(1) by (auto simp: waiting_def)
  next
    assume "given_up s (polls ts s)"
    then show ?thesis by (intro exI [of _ 7]) (simp add: given_up_def)
  qed
  moreover have 7: "waiting s 7 ((expire ^^ 7) s)" by (rule expires_waiting [OF assms(1) w]) simp
  moreover have "(expire ^^ 8) s = expire ((expire ^^ 7) s)" by (simp add: numeral_eq_Suc)
  then have "given_up s ((expire ^^ 8) s)" using expire_waiting [OF 7 assms(1)] by simp
  ultimately show ?thesis unfolding Let_def tracked_def by (simp add: waiting_def given_up_def)
qed

section \<open>An old acknowledgement\<close>

text \<open>
  A segment that acknowledges less than what was already acknowledged when the outstanding data was sent (an older
  segment that was overtaken on its way) counts as the acknowledgement of that data: the client takes the data for
  delivered, tells nobody, and will not send it again, whenever it is polled.
\<close>

theorem old_ack_stops_retransmission:
  assumes "t_state s = TCP_ESTABLISHED" "t_tx_pending s" "length (t_tx_buf s) \<le> TCP_MAX_PAYLOAD"
    and "0 < k" "k \<le> 2147483648" "sg_ack g = t_tx_seq s - of_nat k" "sg_flags g = TCP_FLAG_ACK" "sg_data g = []"
  shows "let s' = handle_state h g s in
    \<not> t_tx_pending s' \<and> t_state s' = TCP_ESTABLISHED \<and> t_out s' = t_out s \<and> t_app s' = t_app s \<and>
    (\<forall>now. tcp_poll h (s'\<lparr>t_now := now\<rparr>) = s'\<lparr>t_now := now\<rparr>)"
proof -
  have "unat (consumed (t_tx_flags s) (t_tx_buf s)) \<le> 538"
  proof -
    have "unat (of_nat (length (t_tx_buf s)) :: u32) \<le> 536" using assms(3) by (simp add: unat_of_nat)
    then show ?thesis by (simp add: consumed_def unat_word_ariths)
  qed
  moreover have "unat (- of_nat k :: u32) = 4294967296 - k"
  proof -
    have "(- of_nat k :: u32) = of_nat (4294967296 - k)" using assms(5) by (simp add: of_nat_diff)
    moreover have "unat (of_nat (4294967296 - k) :: u32) = 4294967296 - k"
      by (subst unat_of_nat) (use assms(4) in simp)
    ultimately show ?thesis by (simp only:)
  qed
  ultimately have "\<not> - of_nat k < consumed (t_tx_flags s) (t_tx_buf s)"
    using assms(5) by (simp add: word_less_nat_alt)
  then have "process_ack (sg_ack g) s =
      (True, s\<lparr>t_snd_una := t_tx_seq s + consumed (t_tx_flags s) (t_tx_buf s), t_tx_pending := False\<rparr>)"
    using assms(2,6) by (simp add: process_ack_def Let_def)
  then have "handle_state h g s = s\<lparr>t_snd_una := t_tx_seq s + consumed (t_tx_flags s) (t_tx_buf s), t_tx_pending := False\<rparr>"
    using assms(1,7,8) by (simp add: handle_state_def handle_established_def take_data_def take_fin_def has_def Let_def)
  then show ?thesis using assms(1) by (simp add: tcp_poll_def Let_def)
qed

section \<open>Witnesses\<close>

definition client :: "tcp_event list tcp" where
  "client = \<lparr>t_state = TCP_CLOSED, t_remote_ip = 0, t_remote_port = 0, t_local_port = 0, t_snd_una = 0, t_snd_nxt = 0,
     t_rcv_nxt = 0, t_tx_pending = False, t_tx_seq = 0, t_tx_flags = 0, t_tx_buf = [], t_last_send = 0, t_retries = 0,
     t_time_wait_start = 0, t_handler = False, t_our_ip = 0x0A000001, t_next_port = 50000, t_now = 0, t_out = [], t_app = []\<rparr>"

text \<open>A client in the middle of sending three bytes, and the peer that it talks to.\<close>

definition sender :: "tcp_event list tcp" where
  "sender = client\<lparr>t_state := TCP_ESTABLISHED, t_remote_ip := 0x0A000002, t_remote_port := 80, t_local_port := 50000,
     t_snd_nxt := 104, t_tx_pending := True, t_tx_seq := 101, t_tx_flags := 0x18, t_tx_buf := [1, 2, 3], t_handler := True\<rparr>"

definition server :: "tcp_event list tcp" where
  "server = client\<lparr>t_our_ip := 0x0A000002, t_remote_ip := 0x0A000001, t_local_port := 80, t_remote_port := 50000, t_rcv_nxt := 1\<rparr>"

theorem tcp_segment_roundtrip_witness:
  "let p = view_of (tcp_segment 101 0x18 [1, 2, 3] sender) in
    get16 p 0 = 50000 \<and> get16 p 2 = 80 \<and>
    segment_of p (length (tcp_segment 101 0x18 [1, 2, 3] sender))
      = \<lparr>sg_seq = 101, sg_ack = 0, sg_flags = 0x18, sg_data = [1, 2, 3]\<rparr> \<and>
    tcp_checksum 0x0A000001 0x0A000002 (tcp_segment 101 0x18 [1, 2, 3] sender) = 0"
  using tcp_segment_roundtrip [of "[1, 2, 3]" 101 "0x18" sender] by (simp add: Let_def sender_def client_def)

theorem tcp_retransmits_then_gives_up_witness:
  "t_state ((expire ^^ 7) sender) = TCP_ESTABLISHED \<and> length (t_out ((expire ^^ 7) sender)) = 7 \<and>
   t_state ((expire ^^ 8) sender) = TCP_CLOSED"
  using tcp_retransmits_then_gives_up [of sender "[]"] by (simp add: sender_def client_def)

theorem old_ack_stops_retransmission_witness:
  "let s' = handle_state log \<lparr>sg_seq = 0, sg_ack = 96, sg_flags = 0x10, sg_data = []\<rparr> sender in
    \<not> t_tx_pending s' \<and> (\<forall>now. tcp_poll log (s'\<lparr>t_now := now\<rparr>) = s'\<lparr>t_now := now\<rparr>)"
  using old_ack_stops_retransmission [of sender 5 "\<lparr>sg_seq = 0, sg_ack = 96, sg_flags = 0x10, sg_data = []\<rparr>" log]
  by (simp add: Let_def sender_def client_def)

text \<open>A connection that opens, receives the same two bytes twice and delivers them once.\<close>

definition opened :: "tcp_event list tcp" where "opened = snd (tcp_connect 0x0A000002 80 client)"

definition from_server :: "u32 \<Rightarrow> u8 \<Rightarrow> bytes \<Rightarrow> tcp_event list tcp \<Rightarrow> tcp_event list tcp" where
  "from_server seq flags data s =
     tcp_handle log 0x0A000002 (view_of (tcp_segment seq flags data server)) (length (tcp_segment seq flags data server)) s"

lemma server_simps [simp]: "t_rcv_nxt server = 1" "t_local_port server = 80" "t_remote_port server = 50000"
  by (simp_all add: server_def client_def)

definition talking :: "tcp_state \<Rightarrow> tcp_event list tcp \<Rightarrow> bool" where
  "talking st s \<longleftrightarrow> t_state s = st \<and> t_remote_ip s = 0x0A000002 \<and> t_remote_port s = 80 \<and> t_local_port s = 50000 \<and>
     t_handler s"

lemma from_server_eq:
  assumes "talking st s" "st \<noteq> TCP_CLOSED" "length data \<le> TCP_MAX_PAYLOAD" "\<not> has flags TCP_FLAG_RST"
  shows "from_server seq flags data s = handle_state log \<lparr>sg_seq = seq, sg_ack = 1, sg_flags = flags, sg_data = data\<rparr> s"
  using tcp_handle_segment [OF assms(3), of s "0x0A000002" server log seq flags] assms(1,2,4)
  by (auto simp: from_server_def talking_def)

lemma from_server_step:
  assumes "honest stream base \<lparr>sg_seq = seq, sg_ack = 1, sg_flags = flags, sg_data = data\<rparr>" "length data \<le> TCP_MAX_PAYLOAD"
  shows "tcp_step stream base s (from_server seq flags data s)"
  unfolding from_server_def
proof (rule tcp_step.recv)
  show "matches 0x0A000002 (view_of (tcp_segment seq flags data server)) s \<longrightarrow>
    honest stream base (segment_of (view_of (tcp_segment seq flags data server)) (length (tcp_segment seq flags data server)))"
    using tcp_segment_reads_back [OF assms(2), of seq flags server] assms(1) by (simp add: Let_def)
qed

lemma opened_run:
  defines "s1 \<equiv> from_server 999 0x12 [] opened"
  defines "s2 \<equiv> from_server 1000 0x18 [7, 9] s1"
  shows "(tcp_step [7, 9, 11] 1000)\<^sup>*\<^sup>* opened (from_server 1000 0x18 [7, 9] s2)"
proof -
  have "tcp_step [7, 9, 11] 1000 opened s1"
    unfolding s1_def by (rule from_server_step) (simp_all add: honest_def)
  moreover have "tcp_step [7, 9, 11] 1000 s (from_server 1000 0x18 [7, 9] s)" for s
    by (rule from_server_step) (auto simp: honest_def has_def intro: exI [of _ 0])
  ultimately show ?thesis unfolding s2_def by (meson converse_rtranclp_into_rtranclp rtranclp.rtrancl_refl)
qed

lemma opened_talks: "talking TCP_SYN_SENT opened \<and> t_tx_pending opened \<and> t_tx_seq opened = 0 \<and>
    consumed (t_tx_flags opened) (t_tx_buf opened) = 1 \<and> delivered opened = []"
  by (simp add: talking_def opened_def tcp_connect_def client_def Let_def send_tracked_def tcp_send_segment_def has_def
    consumed_def delivered_def)

lemma from_server_syn:
  "talking TCP_ESTABLISHED (from_server 999 0x12 [] opened) \<and> t_rcv_nxt (from_server 999 0x12 [] opened) = 1000 \<and>
   delivered (from_server 999 0x12 [] opened) = []"
proof -
  have "from_server 999 0x12 [] opened = handle_state log \<lparr>sg_seq = 999, sg_ack = 1, sg_flags = 0x12, sg_data = []\<rparr> opened"
    using opened_talks by (intro from_server_eq) (auto simp: has_def)
  then show ?thesis
    using opened_talks
    by (simp add: handle_state_def handle_syn_sent_def talking_def has_def process_ack_def Let_def notify_log delivered_simps)
      (simp add: delivered_def)
qed

lemma from_server_data:
  assumes "talking TCP_ESTABLISHED s" "t_rcv_nxt s = seq" "d \<noteq> []" "length d \<le> TCP_MAX_PAYLOAD"
  shows "talking TCP_ESTABLISHED (from_server seq 0x18 d s) \<and>
    t_rcv_nxt (from_server seq 0x18 d s) = seq + of_nat (length d) \<and>
    delivered (from_server seq 0x18 d s) = delivered s @ d"
proof -
  have "from_server seq 0x18 d s = handle_state log \<lparr>sg_seq = seq, sg_ack = 1, sg_flags = 0x18, sg_data = d\<rparr> s"
    using assms by (intro from_server_eq) (auto simp: has_def)
  moreover have "delivered (snd (process_ack 1 s)) = delivered s" by (simp add: delivered_def)
  ultimately show ?thesis
    using assms
    by (simp add: handle_state_def handle_established_def take_data_def take_fin_def talking_def has_def Let_def notify_log
      delivered_simps)
qed

lemma from_server_again:
  assumes "talking TCP_ESTABLISHED s" "seq < t_rcv_nxt s" "d \<noteq> []" "length d \<le> TCP_MAX_PAYLOAD"
  shows "delivered (from_server seq 0x18 d s) = delivered s"
proof -
  have "from_server seq 0x18 d s = handle_state log \<lparr>sg_seq = seq, sg_ack = 1, sg_flags = 0x18, sg_data = d\<rparr> s"
    using assms by (intro from_server_eq) (auto simp: has_def)
  moreover have "delivered (snd (process_ack 1 s)) = delivered s" by (simp add: delivered_def)
  ultimately show ?thesis
    using assms by (auto simp: handle_state_def handle_established_def take_data_def take_fin_def talking_def has_def Let_def
      delivered_simps)
qed

lemma opened_delivers:
  defines "s1 \<equiv> from_server 999 0x12 [] opened"
  defines "s2 \<equiv> from_server 1000 0x18 [7, 9] s1"
  shows "delivered (from_server 1000 0x18 [7, 9] s2) = [7, 9]"
proof -
  have 1: "talking TCP_ESTABLISHED s1" "t_rcv_nxt s1 = 1000" "delivered s1 = []"
    using from_server_syn unfolding s1_def by auto
  have 2: "talking TCP_ESTABLISHED s2" "t_rcv_nxt s2 = 1002" "delivered s2 = [7, 9]"
    using from_server_data [OF 1(1,2), of "[7, 9]"] 1(3) unfolding s2_def by simp_all
  show ?thesis using from_server_again [OF 2(1), of 1000 "[7, 9]"] 2(2,3) by simp
qed

theorem tcp_delivers_in_order_witness:
  "let s1 = from_server 999 0x12 [] opened; s2 = from_server 1000 0x18 [7, 9] s1; s3 = from_server 1000 0x18 [7, 9] s2 in
   delivered s3 = [7, 9] \<and> (\<exists>n \<le> 3. delivered s3 = take n [7, 9, 11])"
proof -
  have c: "tcp_connect 0x0A000002 80 client = (True, opened)" by (simp add: opened_def tcp_connect_def client_def Let_def)
  have e: "t_app client = []" by (simp add: client_def)
  have len: "length [7, 9, 11 :: u8] = 3" by simp
  have "length [7, 9, 11 :: u8] < 4294967296" by simp
  from tcp_delivers_in_order [OF c e opened_run this] show ?thesis
    unfolding Let_def len using opened_delivers by blast
qed

end
