(* ===== verification/Vt100.thy ===== *)
theory Vt100
  imports Prelude
begin

text \<open>
  The terminal emulation core (\<open>src/sw/common/zvt100.c\<close>): an 80 by 25 grid of cells driven by a byte
  stream with escape sequences. The C ints are integers cut to 32 bits where the code computes with
  unbounded values (the parameters and the cursor moves); a write outside the grid, which in C damages
  what lies beside it, is \<open>None\<close>.
\<close>

section \<open>State\<close>

abbreviation VT_COLS :: int where "VT_COLS \<equiv> 80"
abbreviation VT_ROWS :: int where "VT_ROWS \<equiv> 25"
abbreviation VT_CSI_MAX_PARAMS :: nat where "VT_CSI_MAX_PARAMS \<equiv> 8"

definition wrap32 :: "int \<Rightarrow> int" where
  "wrap32 i = (i + 2147483648) mod 4294967296 - 2147483648"

record vt_cell =
  vc_ch :: u8
  vc_reverse :: bool

datatype vt_pstate = VT_PSTATE_NORMAL | VT_PSTATE_ESC | VT_PSTATE_CSI

record vt_screen =
  vt_cells :: "vt_cell list list"
  vt_cursor_x :: int
  vt_cursor_y :: int
  vt_reverse :: bool
  vt_pst :: vt_pstate
  vt_csi_params :: "int list"
  vt_csi_has_param :: "bool list"
  vt_csi_param_count :: nat
  vt_dirty :: "bool list"

definition blank :: "bool \<Rightarrow> vt_cell" where "blank r = \<lparr>vc_ch = 32, vc_reverse = r\<rparr>"

section \<open>Operations on the grid\<close>

definition mark_dirty :: "int \<Rightarrow> vt_screen \<Rightarrow> vt_screen" where
  "mark_dirty row vt = (if row \<ge> 0 \<and> row < VT_ROWS then vt\<lparr>vt_dirty := (vt_dirty vt)[nat row := True]\<rparr> else vt)"

definition set_cell :: "int \<Rightarrow> int \<Rightarrow> vt_cell \<Rightarrow> vt_screen \<Rightarrow> vt_screen option" where
  "set_cell row col cell vt =
     (if 0 \<le> row \<and> row < VT_ROWS \<and> 0 \<le> col \<and> col < VT_COLS
      then Some (vt\<lparr>vt_cells := upd_nth (nat row) (\<lambda>cs. cs[nat col := cell]) (vt_cells vt)\<rparr>)
      else None)"

definition scroll_up :: "vt_screen \<Rightarrow> vt_screen" where
  "scroll_up vt =
     fold mark_dirty [0..VT_ROWS - 1]
       (vt\<lparr>vt_cells := map (\<lambda>r. if r < 24 then vt_cells vt ! (r + 1) else replicate 80 (blank (vt_reverse vt))) [0..<25]\<rparr>)"

definition newline :: "vt_screen \<Rightarrow> vt_screen" where
  "newline vt =
     (let vt = vt\<lparr>vt_cursor_y := wrap32 (vt_cursor_y vt + 1)\<rparr> in
      if vt_cursor_y vt \<ge> VT_ROWS then scroll_up (vt\<lparr>vt_cursor_y := VT_ROWS - 1\<rparr>) else vt)"

definition put_char :: "u8 \<Rightarrow> vt_screen \<Rightarrow> vt_screen option" where
  "put_char c vt =
     (let vt = (if vt_cursor_x vt \<ge> VT_COLS then newline (vt\<lparr>vt_cursor_x := 0\<rparr>) else vt) in
      map_option (\<lambda>vt. (mark_dirty (vt_cursor_y vt) vt)\<lparr>vt_cursor_x := wrap32 (vt_cursor_x vt + 1)\<rparr>)
        (set_cell (vt_cursor_y vt) (vt_cursor_x vt) \<lparr>vc_ch = c, vc_reverse = vt_reverse vt\<rparr> vt))"

definition erase_cell :: "int \<Rightarrow> int \<Rightarrow> vt_screen \<Rightarrow> vt_screen option" where
  "erase_cell row col vt = set_cell row col (blank (vt_reverse vt)) vt"

text \<open>A loop over cells, in the order of the list.\<close>

fun erase_cells :: "(int \<times> int) list \<Rightarrow> vt_screen \<Rightarrow> vt_screen option" where
  "erase_cells [] vt = Some vt"
| "erase_cells ((row, col) # rest) vt = Option.bind (erase_cell row col vt) (erase_cells rest)"

definition row_cells :: "int \<Rightarrow> int \<Rightarrow> int \<Rightarrow> (int \<times> int) list" where
  "row_cells row a b = map (Pair row) [a..b]"

definition rows_cells :: "int \<Rightarrow> int \<Rightarrow> (int \<times> int) list" where
  "rows_cells a b = concat (map (\<lambda>r. row_cells r 0 (VT_COLS - 1)) [a..b])"

section \<open>Escape sequences\<close>

definition csi_param :: "vt_screen \<Rightarrow> nat \<Rightarrow> int \<Rightarrow> int" where
  "csi_param vt idx default_val =
     (if idx \<ge> VT_CSI_MAX_PARAMS then default_val
      else if \<not> vt_csi_has_param vt ! idx then default_val
      else vt_csi_params vt ! idx)"

definition csi_count :: "vt_screen \<Rightarrow> int" where
  "csi_count vt = (let n = csi_param vt 0 1 in if n < 1 then 1 else n)"

definition erase_display :: "vt_screen \<Rightarrow> vt_screen option" where
  "erase_display vt =
     (let mode = csi_param vt 0 0; y = vt_cursor_y vt; x = vt_cursor_x vt in
      map_option (fold mark_dirty [0..VT_ROWS - 1])
        (if mode = 0 then erase_cells (row_cells y x (VT_COLS - 1) @ rows_cells (y + 1) (VT_ROWS - 1)) vt
         else if mode = 1 then erase_cells (rows_cells 0 (y - 1) @ row_cells y 0 (min x (VT_COLS - 1))) vt
         else erase_cells (rows_cells 0 (VT_ROWS - 1)) vt))"

definition erase_line :: "vt_screen \<Rightarrow> vt_screen option" where
  "erase_line vt =
     (let mode = csi_param vt 0 0; y = vt_cursor_y vt; x = vt_cursor_x vt in
      map_option (mark_dirty y)
        (if mode = 0 then erase_cells (row_cells y x (VT_COLS - 1)) vt
         else if mode = 1 then erase_cells (row_cells y 0 (min x (VT_COLS - 1))) vt
         else erase_cells (row_cells y 0 (VT_COLS - 1)) vt))"

definition sgr :: "int \<Rightarrow> vt_screen \<Rightarrow> vt_screen" where
  "sgr p vt =
     (if p = 0 then vt\<lparr>vt_reverse := False\<rparr>
      else if p = 7 then vt\<lparr>vt_reverse := True\<rparr>
      else if p = 27 then vt\<lparr>vt_reverse := False\<rparr>
      else vt)"

definition select_graphic :: "vt_screen \<Rightarrow> vt_screen" where
  "select_graphic vt =
     (let n = min (vt_csi_param_count vt + 1) VT_CSI_MAX_PARAMS in
      fold (\<lambda>i vt. sgr (csi_param vt i 0) vt) [0..<n] vt)"

text \<open>The final bytes: \<open>A\<close> to \<open>D\<close> move, \<open>H\<close> and \<open>f\<close> place the cursor, \<open>J\<close> and \<open>K\<close> erase, \<open>m\<close> selects.\<close>

definition csi_dispatch :: "u8 \<Rightarrow> vt_screen \<Rightarrow> vt_screen option" where
  "csi_dispatch final vt =
     (if final = 0x41 then
        let y = wrap32 (vt_cursor_y vt - csi_count vt) in Some (vt\<lparr>vt_cursor_y := (if y < 0 then 0 else y)\<rparr>)
      else if final = 0x42 then
        let y = wrap32 (vt_cursor_y vt + csi_count vt) in
        Some (vt\<lparr>vt_cursor_y := (if y \<ge> VT_ROWS then VT_ROWS - 1 else y)\<rparr>)
      else if final = 0x43 then
        let x = wrap32 (vt_cursor_x vt + csi_count vt) in
        Some (vt\<lparr>vt_cursor_x := (if x \<ge> VT_COLS then VT_COLS - 1 else x)\<rparr>)
      else if final = 0x44 then
        let x = wrap32 (vt_cursor_x vt - csi_count vt) in Some (vt\<lparr>vt_cursor_x := (if x < 0 then 0 else x)\<rparr>)
      else if final = 0x48 \<or> final = 0x66 then
        let row = csi_param vt 0 1; col = csi_param vt 1 1;
            row = (if row < 1 then 1 else row); col = (if col < 1 then 1 else col) in
        Some (vt\<lparr>vt_cursor_y := (if row - 1 \<ge> VT_ROWS then VT_ROWS - 1 else row - 1),
                 vt_cursor_x := (if col - 1 \<ge> VT_COLS then VT_COLS - 1 else col - 1)\<rparr>)
      else if final = 0x4A then erase_display vt
      else if final = 0x4B then erase_line vt
      else if final = 0x6D then Some (select_graphic vt)
      else Some vt)"

definition feed_normal :: "u8 \<Rightarrow> vt_screen \<Rightarrow> vt_screen option" where
  "feed_normal c vt =
     (if c = 0x1B then Some (vt\<lparr>vt_pst := VT_PSTATE_ESC\<rparr>)
      else if c = 0x0D then Some (vt\<lparr>vt_cursor_x := 0\<rparr>)
      else if c = 0x0A then Some (newline vt)
      else if c = 0x08 then Some (if vt_cursor_x vt > 0 then vt\<lparr>vt_cursor_x := vt_cursor_x vt - 1\<rparr> else vt)
      else if c = 0x09 then
        let x = vt_cursor_x vt; next_tab = ((if x < 0 then - (- x div 8) else x div 8) + 1) * 8 in
        Some (vt\<lparr>vt_cursor_x := (if next_tab \<ge> VT_COLS then VT_COLS - 1 else next_tab)\<rparr>)
      else if c = 0x07 then Some vt
      else if c \<ge> 0x20 \<and> c < 0x7F then put_char c vt
      else Some vt)"

definition feed_esc :: "u8 \<Rightarrow> vt_screen \<Rightarrow> vt_screen" where
  "feed_esc c vt =
     (if c = 0x5B then
        vt\<lparr>vt_pst := VT_PSTATE_CSI, vt_csi_param_count := 0, vt_csi_params := replicate VT_CSI_MAX_PARAMS 0,
           vt_csi_has_param := replicate VT_CSI_MAX_PARAMS False\<rparr>
      else vt\<lparr>vt_pst := VT_PSTATE_NORMAL\<rparr>)"

definition is_digit :: "u8 \<Rightarrow> bool" where "is_digit c \<longleftrightarrow> c \<ge> 0x30 \<and> c \<le> 0x39"

definition feed_csi :: "u8 \<Rightarrow> vt_screen \<Rightarrow> vt_screen option" where
  "feed_csi c vt =
     (let k = vt_csi_param_count vt in
      if is_digit c then
        Some (if k < VT_CSI_MAX_PARAMS
              then vt\<lparr>vt_csi_params := upd_nth k (\<lambda>p. wrap32 (wrap32 (p * 10) + (uint c - 48))) (vt_csi_params vt),
                      vt_csi_has_param := (vt_csi_has_param vt)[k := True]\<rparr>
              else vt)
      else if c = 0x3B then
        Some (if k < VT_CSI_MAX_PARAMS - 1 then vt\<lparr>vt_csi_param_count := k + 1\<rparr> else vt)
      else map_option (\<lambda>vt. vt\<lparr>vt_pst := VT_PSTATE_NORMAL\<rparr>) (csi_dispatch c vt))"

definition vt_feed_byte :: "u8 \<Rightarrow> vt_screen \<Rightarrow> vt_screen option" where
  "vt_feed_byte c vt =
     (case vt_pst vt of
        VT_PSTATE_NORMAL \<Rightarrow> feed_normal c vt
      | VT_PSTATE_ESC \<Rightarrow> Some (feed_esc c vt)
      | VT_PSTATE_CSI \<Rightarrow> feed_csi c vt)"

fun vt_feed :: "u8 list \<Rightarrow> vt_screen \<Rightarrow> vt_screen option" where
  "vt_feed [] vt = Some vt"
| "vt_feed (c # cs) vt = Option.bind (vt_feed_byte c vt) (vt_feed cs)"

definition vt_init :: vt_screen where
  "vt_init = \<lparr>vt_cells = replicate 25 (replicate 80 (blank False)), vt_cursor_x = 0, vt_cursor_y = 0, vt_reverse = False,
     vt_pst = VT_PSTATE_NORMAL, vt_csi_params = replicate VT_CSI_MAX_PARAMS 0,
     vt_csi_has_param = replicate VT_CSI_MAX_PARAMS False, vt_csi_param_count = 0, vt_dirty = replicate 25 True\<rparr>"

definition vt_row_dirty :: "int \<Rightarrow> vt_screen \<Rightarrow> bool" where
  "vt_row_dirty row vt = (if row < 0 \<or> row \<ge> VT_ROWS then False else vt_dirty vt ! nat row)"

definition vt_clear_dirty :: "vt_screen \<Rightarrow> vt_screen" where
  "vt_clear_dirty vt = vt\<lparr>vt_dirty := replicate 25 False\<rparr>"

definition vt_mark_all_dirty :: "vt_screen \<Rightarrow> vt_screen" where
  "vt_mark_all_dirty vt = vt\<lparr>vt_dirty := replicate 25 True\<rparr>"

section \<open>Well-formed screens\<close>

definition vt_shape :: "vt_screen \<Rightarrow> bool" where
  "vt_shape vt \<longleftrightarrow> length (vt_cells vt) = 25 \<and> (\<forall>r < 25. length (vt_cells vt ! r) = 80) \<and> length (vt_dirty vt) = 25 \<and>
     length (vt_csi_params vt) = VT_CSI_MAX_PARAMS \<and> length (vt_csi_has_param vt) = VT_CSI_MAX_PARAMS \<and>
     vt_csi_param_count vt < VT_CSI_MAX_PARAMS"

definition cursor_ok :: "vt_screen \<Rightarrow> bool" where
  "cursor_ok vt \<longleftrightarrow> 0 \<le> vt_cursor_x vt \<and> vt_cursor_x vt \<le> VT_COLS \<and> 0 \<le> vt_cursor_y vt \<and> vt_cursor_y vt < VT_ROWS"

definition vt_ok :: "vt_screen \<Rightarrow> bool" where
  "vt_ok vt \<longleftrightarrow> vt_shape vt \<and> cursor_ok vt"

text \<open>What the grid operations leave alone.\<close>

definition same_control :: "vt_screen \<Rightarrow> vt_screen \<Rightarrow> bool" where
  "same_control a b \<longleftrightarrow> vt_cursor_x b = vt_cursor_x a \<and> vt_cursor_y b = vt_cursor_y a \<and> vt_reverse b = vt_reverse a \<and>
     vt_pst b = vt_pst a \<and> vt_csi_params b = vt_csi_params a \<and> vt_csi_has_param b = vt_csi_has_param a \<and>
     vt_csi_param_count b = vt_csi_param_count a"

lemma same_control_refl [simp]: "same_control a a" by (simp add: same_control_def)

lemma same_control_trans: "same_control a b \<Longrightarrow> same_control b c \<Longrightarrow> same_control a c"
  by (simp add: same_control_def)

lemma mark_dirty_frame: "vt_cells (mark_dirty r vt) = vt_cells vt" "same_control vt (mark_dirty r vt)"
  "vt_shape (mark_dirty r vt) = vt_shape vt" "length (vt_dirty (mark_dirty r vt)) = length (vt_dirty vt)"
  by (simp_all add: mark_dirty_def same_control_def vt_shape_def)

lemma fold_mark_dirty_frame:
  "vt_cells (fold mark_dirty rs vt) = vt_cells vt \<and> same_control vt (fold mark_dirty rs vt) \<and>
   vt_shape (fold mark_dirty rs vt) = vt_shape vt"
proof (induction rs arbitrary: vt)
  case (Cons r rs)
  show ?case
    using Cons.IH [of "mark_dirty r vt"] same_control_trans [OF mark_dirty_frame(2) [of vt r]] by (simp add: mark_dirty_frame)
qed simp

lemma mark_dirty_nth:
  "length (vt_dirty vt) = 25 \<Longrightarrow> i < 25 \<Longrightarrow> vt_dirty (mark_dirty r vt) ! i = (vt_dirty vt ! i \<or> r = int i)"
  by (auto simp: mark_dirty_def nth_list_update)

lemma fold_mark_dirty_nth:
  "length (vt_dirty vt) = 25 \<Longrightarrow> i < 25 \<Longrightarrow> vt_dirty (fold mark_dirty rs vt) ! i = (vt_dirty vt ! i \<or> int i \<in> set rs)"
  by (induction rs arbitrary: vt) (auto simp: mark_dirty_nth mark_dirty_frame)

lemma set_cell_ok:
  assumes "vt_shape vt" "0 \<le> row" "row < VT_ROWS" "0 \<le> col" "col < VT_COLS"
  shows "\<exists>vt'. set_cell row col cell vt = Some vt' \<and> vt_shape vt' \<and> same_control vt vt' \<and> vt_dirty vt' = vt_dirty vt"
  using assms
  by (auto simp: set_cell_def vt_shape_def same_control_def)

lemma erase_cells_ok:
  assumes "vt_shape vt" "\<forall>(r, c) \<in> set ps. 0 \<le> r \<and> r < VT_ROWS \<and> 0 \<le> c \<and> c < VT_COLS"
  shows "\<exists>vt'. erase_cells ps vt = Some vt' \<and> vt_shape vt' \<and> same_control vt vt' \<and> vt_dirty vt' = vt_dirty vt"
  using assms
proof (induction ps arbitrary: vt)
  case Nil
  then show ?case by simp
next
  case (Cons p ps)
  obtain r c where p: "p = (r, c)" by fastforce
  obtain vt1 where 1: "erase_cell r c vt = Some vt1" "vt_shape vt1" "same_control vt vt1" "vt_dirty vt1 = vt_dirty vt"
    using set_cell_ok [OF Cons.prems(1), of r c "blank (vt_reverse vt)"] Cons.prems(2) p by (auto simp: erase_cell_def)
  from Cons.IH [OF 1(2)] Cons.prems(2) 1 p show ?case by (auto intro: same_control_trans)
qed

lemma row_cells_in: "(r, c) \<in> set (row_cells y a b) \<longleftrightarrow> r = y \<and> a \<le> c \<and> c \<le> b"
  by (auto simp: row_cells_def)

lemma rows_cells_in: "(r, c) \<in> set (rows_cells a b) \<longleftrightarrow> a \<le> r \<and> r \<le> b \<and> 0 \<le> c \<and> c < VT_COLS"
  by (auto simp: rows_cells_def row_cells_def image_iff)

lemma wrap32_id: "-2147483648 \<le> i \<Longrightarrow> i < 2147483648 \<Longrightarrow> wrap32 i = i"
  by (simp add: wrap32_def)

lemma scroll_up_frame:
  assumes "vt_shape vt"
  shows "vt_shape (scroll_up vt) \<and> same_control vt (scroll_up vt) \<and>
    vt_cells (scroll_up vt) = map (\<lambda>r. if r < 24 then vt_cells vt ! (r + 1) else replicate 80 (blank (vt_reverse vt))) [0..<25] \<and>
    (\<forall>i < 25. vt_dirty (scroll_up vt) ! i)"
proof -
  let ?vt = "vt\<lparr>vt_cells := map (\<lambda>r. if r < 24 then vt_cells vt ! (r + 1) else replicate 80 (blank (vt_reverse vt))) [0..<25]\<rparr>"
  have "vt_shape ?vt" using assms by (auto simp: vt_shape_def)
  moreover have "same_control vt ?vt" by (simp add: same_control_def)
  ultimately show ?thesis
    unfolding scroll_up_def using fold_mark_dirty_frame [of "[0..24]" ?vt] assms
    by (auto intro: same_control_trans simp: fold_mark_dirty_nth vt_shape_def)
qed

lemma newline_ok:
  assumes "vt_shape vt" "0 \<le> vt_cursor_y vt" "vt_cursor_y vt < VT_ROWS"
  shows "vt_shape (newline vt) \<and> vt_cursor_x (newline vt) = vt_cursor_x vt \<and> 0 \<le> vt_cursor_y (newline vt) \<and>
    vt_cursor_y (newline vt) < VT_ROWS \<and> vt_csi_params (newline vt) = vt_csi_params vt \<and> vt_pst (newline vt) = vt_pst vt \<and>
    vt_csi_param_count (newline vt) = vt_csi_param_count vt \<and> vt_reverse (newline vt) = vt_reverse vt"
proof -
  have w: "wrap32 (vt_cursor_y vt + 1) = vt_cursor_y vt + 1" using assms by (intro wrap32_id) auto
  let ?vt = "vt\<lparr>vt_cursor_y := VT_ROWS - 1\<rparr>"
  have "vt_shape ?vt" using assms(1) by (simp add: vt_shape_def)
  from scroll_up_frame [OF this] assms w show ?thesis
    by (auto simp: newline_def Let_def same_control_def vt_shape_def)
qed

lemma put_char_ok:
  assumes "vt_ok vt"
  shows "\<exists>vt'. put_char c vt = Some vt' \<and> vt_ok vt' \<and> vt_csi_params vt' = vt_csi_params vt \<and> vt_pst vt' = vt_pst vt \<and>
    vt_csi_param_count vt' = vt_csi_param_count vt"
proof -
  let ?vt = "if vt_cursor_x vt \<ge> VT_COLS then newline (vt\<lparr>vt_cursor_x := 0\<rparr>) else vt"
  have s: "vt_shape (vt\<lparr>vt_cursor_x := 0\<rparr>)" using assms by (simp add: vt_ok_def vt_shape_def)
  have 1: "vt_shape ?vt" "0 \<le> vt_cursor_y ?vt" "vt_cursor_y ?vt < VT_ROWS" "0 \<le> vt_cursor_x ?vt" "vt_cursor_x ?vt < VT_COLS"
    "vt_csi_params ?vt = vt_csi_params vt" "vt_pst ?vt = vt_pst vt" "vt_csi_param_count ?vt = vt_csi_param_count vt"
    using newline_ok [OF s] assms by (auto simp: vt_ok_def cursor_ok_def)
  obtain vt1 where 2: "set_cell (vt_cursor_y ?vt) (vt_cursor_x ?vt) \<lparr>vc_ch = c, vc_reverse = vt_reverse ?vt\<rparr> ?vt = Some vt1"
      "vt_shape vt1" "same_control ?vt vt1"
    using set_cell_ok [OF 1(1-5)] by blast
  have "put_char c vt = Some ((mark_dirty (vt_cursor_y vt1) vt1)\<lparr>vt_cursor_x := wrap32 (vt_cursor_x vt1 + 1)\<rparr>)"
    using 2(1) by (simp add: put_char_def Let_def)
  moreover have "wrap32 (vt_cursor_x vt1 + 1) = vt_cursor_x vt1 + 1"
    using 1(4,5) 2(3) by (intro wrap32_id) (auto simp: same_control_def)
  moreover have "vt_shape (mark_dirty (vt_cursor_y vt1) vt1)" using 2(2) by (simp add: mark_dirty_frame)
  ultimately show ?thesis
    using 1 2(3) mark_dirty_frame(2) [of vt1 "vt_cursor_y vt1"]
    by (auto simp: vt_ok_def cursor_ok_def same_control_def vt_shape_def)
qed

section \<open>No byte stream with numbers below ten digits leaves the grid\<close>

text \<open>The parts of the parser that a control function does not touch.\<close>

definition same_parser :: "vt_screen \<Rightarrow> vt_screen \<Rightarrow> bool" where
  "same_parser a b \<longleftrightarrow> vt_csi_params b = vt_csi_params a \<and> vt_csi_param_count b = vt_csi_param_count a"

lemma same_control_parser: "same_control a b \<Longrightarrow> same_parser a b"
  by (simp add: same_control_def same_parser_def)

lemma select_graphic_ok: "vt_ok vt \<Longrightarrow> vt_ok (select_graphic vt) \<and> same_parser vt (select_graphic vt)"
proof -
  have "vt_ok vt \<Longrightarrow> vt_ok (fold (\<lambda>i vt. sgr (csi_param vt i 0) vt) is vt) \<and>
      same_parser vt (fold (\<lambda>i vt. sgr (csi_param vt i 0) vt) is vt)" for "is" vt
  proof (induction "is" arbitrary: vt)
    case (Cons i "is")
    have "vt_ok (sgr p vt)" "same_parser vt (sgr p vt)" for p
      using Cons.prems by (auto simp: sgr_def vt_ok_def vt_shape_def cursor_ok_def same_parser_def)
    from Cons.IH [OF this(1)] this(2) show ?case by (simp add: same_parser_def)
  qed (simp add: same_parser_def)
  then show "vt_ok vt \<Longrightarrow> ?thesis" unfolding select_graphic_def Let_def .
qed

lemma vt_ok_control: "vt_ok vt \<Longrightarrow> vt_shape vt' \<Longrightarrow> same_control vt vt' \<Longrightarrow> vt_ok vt'"
  by (simp add: vt_ok_def cursor_ok_def same_control_def)

lemma erase_display_ok:
  assumes "vt_ok vt"
  shows "\<exists>vt'. erase_display vt = Some vt' \<and> vt_ok vt' \<and> same_parser vt vt'"
proof -
  define ps where "ps = (if csi_param vt 0 0 = 0
      then row_cells (vt_cursor_y vt) (vt_cursor_x vt) (VT_COLS - 1) @ rows_cells (vt_cursor_y vt + 1) (VT_ROWS - 1)
      else if csi_param vt 0 0 = 1
      then rows_cells 0 (vt_cursor_y vt - 1) @ row_cells (vt_cursor_y vt) 0 (min (vt_cursor_x vt) (VT_COLS - 1))
      else rows_cells 0 (VT_ROWS - 1))"
  have "\<forall>(r, c) \<in> set ps. 0 \<le> r \<and> r < VT_ROWS \<and> 0 \<le> c \<and> c < VT_COLS"
    using assms by (auto simp: ps_def row_cells_in rows_cells_in vt_ok_def cursor_ok_def)
  moreover have "vt_shape vt" using assms by (simp add: vt_ok_def)
  ultimately obtain vt1 where 1: "erase_cells ps vt = Some vt1" "vt_shape vt1" "same_control vt vt1"
    using erase_cells_ok by blast
  have "erase_display vt = map_option (fold mark_dirty [0..VT_ROWS - 1]) (erase_cells ps vt)"
    by (simp add: erase_display_def ps_def Let_def)
  then have "erase_display vt = Some (fold mark_dirty [0..VT_ROWS - 1] vt1)" using 1(1) by simp
  moreover have "vt_shape (fold mark_dirty [0..VT_ROWS - 1] vt1)" "same_control vt (fold mark_dirty [0..VT_ROWS - 1] vt1)"
    using fold_mark_dirty_frame [of "[0..VT_ROWS - 1]" vt1] 1(2,3) same_control_trans by blast+
  ultimately show ?thesis using vt_ok_control [OF assms] same_control_parser by blast
qed

lemma erase_line_ok:
  assumes "vt_ok vt"
  shows "\<exists>vt'. erase_line vt = Some vt' \<and> vt_ok vt' \<and> same_parser vt vt'"
proof -
  define ps where "ps = (if csi_param vt 0 0 = 0 then row_cells (vt_cursor_y vt) (vt_cursor_x vt) (VT_COLS - 1)
      else if csi_param vt 0 0 = 1 then row_cells (vt_cursor_y vt) 0 (min (vt_cursor_x vt) (VT_COLS - 1))
      else row_cells (vt_cursor_y vt) 0 (VT_COLS - 1))"
  have "\<forall>(r, c) \<in> set ps. 0 \<le> r \<and> r < VT_ROWS \<and> 0 \<le> c \<and> c < VT_COLS"
    using assms by (auto simp: ps_def row_cells_in vt_ok_def cursor_ok_def)
  moreover have "vt_shape vt" using assms by (simp add: vt_ok_def)
  ultimately obtain vt1 where 1: "erase_cells ps vt = Some vt1" "vt_shape vt1" "same_control vt vt1"
    using erase_cells_ok by blast
  have "erase_line vt = map_option (mark_dirty (vt_cursor_y vt)) (erase_cells ps vt)"
    by (simp add: erase_line_def ps_def Let_def)
  then have "erase_line vt = Some (mark_dirty (vt_cursor_y vt) vt1)" using 1(1) by simp
  moreover have "vt_shape (mark_dirty (vt_cursor_y vt) vt1)" "same_control vt (mark_dirty (vt_cursor_y vt) vt1)"
    using mark_dirty_frame(2) [of vt1 "vt_cursor_y vt"] mark_dirty_frame(3) [of "vt_cursor_y vt" vt1] 1(2,3) same_control_trans by blast+
  ultimately show ?thesis using vt_ok_control [OF assms] same_control_parser by blast
qed

lemma csi_count_range:
  assumes "0 \<le> vt_csi_params vt ! 0" "vt_csi_params vt ! 0 < 1000000000"
  shows "1 \<le> csi_count vt \<and> csi_count vt < 1000000000"
  using assms by (auto simp: csi_count_def csi_param_def Let_def)

lemma csi_dispatch_ok:
  assumes "vt_ok vt" "0 \<le> vt_csi_params vt ! 0" "vt_csi_params vt ! 0 < 1000000000"
  shows "\<exists>vt'. csi_dispatch c vt = Some vt' \<and> vt_ok vt' \<and> same_parser vt vt'"
proof -
  have c: "0 \<le> vt_cursor_x vt" "vt_cursor_x vt \<le> VT_COLS" "0 \<le> vt_cursor_y vt" "vt_cursor_y vt < VT_ROWS"
    using assms(1) by (simp_all add: vt_ok_def cursor_ok_def)
  note n = csi_count_range [OF assms(2,3)]
  have w: "wrap32 (vt_cursor_y vt + csi_count vt) = vt_cursor_y vt + csi_count vt"
    "wrap32 (vt_cursor_y vt - csi_count vt) = vt_cursor_y vt - csi_count vt"
    "wrap32 (vt_cursor_x vt + csi_count vt) = vt_cursor_x vt + csi_count vt"
    "wrap32 (vt_cursor_x vt - csi_count vt) = vt_cursor_x vt - csi_count vt"
    using c n by (auto intro!: wrap32_id)
  have s: "vt_shape vt" using assms(1) by (simp add: vt_ok_def)
  have move: "vt_ok (vt\<lparr>vt_cursor_y := y, vt_cursor_x := x\<rparr>)" "same_parser vt (vt\<lparr>vt_cursor_y := y, vt_cursor_x := x\<rparr>)"
    if "0 \<le> y" "y < VT_ROWS" "0 \<le> x" "x \<le> VT_COLS" for x y
    using that s by (simp_all add: vt_ok_def cursor_ok_def vt_shape_def same_parser_def)
  have y: "vt_ok (vt\<lparr>vt_cursor_y := y\<rparr>)" "same_parser vt (vt\<lparr>vt_cursor_y := y\<rparr>)" if "0 \<le> y" "y < VT_ROWS" for y
    using move [of y "vt_cursor_x vt"] that c by simp_all
  have x: "vt_ok (vt\<lparr>vt_cursor_x := x\<rparr>)" "same_parser vt (vt\<lparr>vt_cursor_x := x\<rparr>)" if "0 \<le> x" "x \<le> VT_COLS" for x
    using move [of "vt_cursor_y vt" x] that c by simp_all
  define P where "P o' \<longleftrightarrow> (\<exists>vt'. o' = Some vt' \<and> vt_ok vt' \<and> same_parser vt vt')" for o'
  have P: "P (Some (vt\<lparr>vt_cursor_y := i\<rparr>))" if "0 \<le> i" "i < VT_ROWS" for i
    using y [OF that] by (simp add: P_def)
  have Px: "P (Some (vt\<lparr>vt_cursor_x := i\<rparr>))" if "0 \<le> i" "i \<le> VT_COLS" for i
    using x [OF that] by (simp add: P_def)
  have Pm: "P (Some (vt\<lparr>vt_cursor_y := i, vt_cursor_x := j\<rparr>))" if "0 \<le> i" "i < VT_ROWS" "0 \<le> j" "j \<le> VT_COLS" for i j
    using move [OF that] by (simp add: P_def)
  have Po: "P (erase_display vt)" "P (erase_line vt)" "P (Some (select_graphic vt))" "P (Some vt)"
    using erase_display_ok [OF assms(1)] erase_line_ok [OF assms(1)] select_graphic_ok [OF assms(1)] assms(1)
    by (simp_all add: P_def same_parser_def)
  let ?n = "csi_count vt" let ?x = "vt_cursor_x vt" let ?y = "vt_cursor_y vt"
  let ?row = "csi_param vt 0 1" let ?col = "csi_param vt 1 1"
  have "P (Some (vt\<lparr>vt_cursor_y := (if ?y - ?n < 0 then 0 else ?y - ?n)\<rparr>))" by (rule P) (use c n in auto)
  moreover have "P (Some (vt\<lparr>vt_cursor_y := (if ?y + ?n \<ge> VT_ROWS then VT_ROWS - 1 else ?y + ?n)\<rparr>))"
    by (rule P) (use c n in auto)
  moreover have "P (Some (vt\<lparr>vt_cursor_x := (if ?x + ?n \<ge> VT_COLS then VT_COLS - 1 else ?x + ?n)\<rparr>))"
    by (rule Px) (use c n in auto)
  moreover have "P (Some (vt\<lparr>vt_cursor_x := (if ?x - ?n < 0 then 0 else ?x - ?n)\<rparr>))" by (rule Px) (use c n in auto)
  moreover have "P (Some (vt\<lparr>vt_cursor_y := (if (if ?row < 1 then 1 else ?row) - 1 \<ge> VT_ROWS then VT_ROWS - 1
        else (if ?row < 1 then 1 else ?row) - 1),
      vt_cursor_x := (if (if ?col < 1 then 1 else ?col) - 1 \<ge> VT_COLS then VT_COLS - 1
        else (if ?col < 1 then 1 else ?col) - 1)\<rparr>))" by (rule Pm) auto
  ultimately have "P (csi_dispatch c vt)"
    unfolding csi_dispatch_def w Let_def by (simp only: if_distrib [where f = P] Po simp_thms if_cancel)
  then show ?thesis by (simp add: P_def)
qed

text \<open>The length of the run of digits read last.\<close>

definition run_ok :: "nat \<Rightarrow> vt_screen \<Rightarrow> bool" where
  "run_ok r vt \<longleftrightarrow> vt_ok vt \<and> r \<le> 9 \<and> 0 \<le> vt_csi_params vt ! 0 \<and> vt_csi_params vt ! 0 < 1000000000 \<and>
     (vt_pst vt = VT_PSTATE_CSI \<longrightarrow> vt_csi_param_count vt = 0 \<longrightarrow> vt_csi_params vt ! 0 < 10 ^ r)"

fun short_runs :: "nat \<Rightarrow> u8 list \<Rightarrow> bool" where
  "short_runs r [] = True"
| "short_runs r (c # cs) = (if is_digit c then r < 9 \<and> short_runs (r + 1) cs else short_runs 0 cs)"

lemma vt_ok_field:
  "vt_ok vt \<Longrightarrow> vt_ok (vt\<lparr>vt_pst := st\<rparr>)" "vt_ok vt \<Longrightarrow> k < VT_CSI_MAX_PARAMS \<Longrightarrow> vt_ok (vt\<lparr>vt_csi_param_count := k\<rparr>)"
  by (simp_all add: vt_ok_def vt_shape_def cursor_ok_def)

lemma feed_normal_ok:
  assumes "vt_ok vt" "vt_pst vt = VT_PSTATE_NORMAL"
  shows "\<exists>vt'. feed_normal c vt = Some vt' \<and> vt_ok vt' \<and> same_parser vt vt' \<and> vt_pst vt' \<noteq> VT_PSTATE_CSI"
proof -
  have c: "0 \<le> vt_cursor_x vt" "vt_cursor_x vt \<le> VT_COLS" "0 \<le> vt_cursor_y vt" "vt_cursor_y vt < VT_ROWS" and s: "vt_shape vt"
    using assms(1) by (simp_all add: vt_ok_def cursor_ok_def)
  have x: "vt_ok (vt\<lparr>vt_cursor_x := x\<rparr>)" if "0 \<le> x" "x \<le> VT_COLS" for x
    using that s c by (simp add: vt_ok_def cursor_ok_def vt_shape_def)
  have nl: "vt_ok (newline vt) \<and> same_parser vt (newline vt) \<and> vt_pst (newline vt) = vt_pst vt"
    using newline_ok [OF s c(3,4)] c by (simp add: vt_ok_def cursor_ok_def same_parser_def)
  show ?thesis
    unfolding feed_normal_def Let_def
    using c nl put_char_ok [OF assms(1), of c] assms vt_ok_field(1) [OF assms(1)]
    by (auto intro!: x simp: same_parser_def)
qed

lemma run_ok_plain:
  assumes "run_ok r vt" "vt_ok vt'" "same_parser vt vt'" "vt_pst vt' \<noteq> VT_PSTATE_CSI" "r' \<le> 9"
  shows "run_ok r' vt'"
  using assms by (simp add: run_ok_def same_parser_def)

lemma vt_feed_byte_ok:
  assumes "run_ok r vt" "is_digit c \<longrightarrow> r < 9"
  shows "\<exists>vt'. vt_feed_byte c vt = Some vt' \<and> run_ok (if is_digit c then r + 1 else 0) vt'"
proof -
  have ok: "vt_ok vt" "r \<le> 9" "0 \<le> vt_csi_params vt ! 0" "vt_csi_params vt ! 0 < 1000000000"
    using assms(1) by (simp_all add: run_ok_def)
  show ?thesis
  proof (cases "vt_pst vt")
    case VT_PSTATE_NORMAL
    from feed_normal_ok [OF ok(1) this, of c] VT_PSTATE_NORMAL show ?thesis
      using run_ok_plain [OF assms(1)] assms(2) ok(2) by (auto simp: vt_feed_byte_def)
  next
    case VT_PSTATE_ESC
    have "run_ok (if is_digit c then r + 1 else 0) (feed_esc c vt)"
    proof (cases "c = 0x5B")
      case True
      then show ?thesis using ok(1) by (simp add: run_ok_def feed_esc_def is_digit_def vt_ok_def vt_shape_def cursor_ok_def)
    next
      case False
      then show ?thesis using run_ok_plain [OF assms(1) vt_ok_field(1) [OF ok(1)]] assms(2)
        by (cases "is_digit c") (simp_all add: feed_esc_def same_parser_def)
    qed
    with VT_PSTATE_ESC show ?thesis by (simp add: vt_feed_byte_def)
  next
    case VT_PSTATE_CSI
    let ?k = "vt_csi_param_count vt"
    have k: "?k < VT_CSI_MAX_PARAMS" and len: "length (vt_csi_params vt) = VT_CSI_MAX_PARAMS"
      using ok(1) by (simp_all add: vt_ok_def vt_shape_def)
    have "\<exists>vt'. feed_csi c vt = Some vt' \<and> run_ok (if is_digit c then r + 1 else 0) vt'"
    proof (cases "is_digit c")
      case True
      have d: "0 \<le> uint c - 48" "uint c - 48 \<le> 9"
        using True by (simp_all add: is_digit_def word_le_def)
      have p: "?k = 0 \<longrightarrow> vt_csi_params vt ! 0 < 10 ^ r" using assms(1) VT_PSTATE_CSI by (simp add: run_ok_def)
      have "(10 :: int) ^ r \<le> 10 ^ 8" using assms(2) True by (intro power_increasing) simp_all
      then have "wrap32 (wrap32 (vt_csi_params vt ! 0 * 10) + (uint c - 48)) = vt_csi_params vt ! 0 * 10 + (uint c - 48)" if "?k = 0"
        using p that d ok(3) by (simp add: wrap32_id)
      moreover have "vt_csi_params vt ! 0 * 10 + (uint c - 48) < 10 ^ (r + 1)" if "?k = 0"
      proof -
        have "vt_csi_params vt ! 0 \<le> 10 ^ r - 1" using p that by simp
        then show ?thesis using d by simp
      qed
      moreover have "(10 :: int) ^ (r + 1) \<le> 10 ^ 9" using assms(2) True by (intro power_increasing) simp_all
      ultimately show ?thesis
        using True ok k len d assms(2)
        by (auto simp: feed_csi_def Let_def run_ok_def vt_ok_def vt_shape_def cursor_ok_def upd_nth_def nth_list_update)
    next
      case False
      show ?thesis
      proof (cases "c = 0x3B")
        case True
        then show ?thesis using False ok k by (auto simp: feed_csi_def Let_def run_ok_def vt_ok_def vt_shape_def cursor_ok_def)
      next
        case 2: False
        obtain vt' where 1: "csi_dispatch c vt = Some vt'" "vt_ok vt'" "same_parser vt vt'"
          using csi_dispatch_ok [OF ok(1,3,4)] by blast
        then show ?thesis
          using False 2 run_ok_plain [OF assms(1), of "vt'\<lparr>vt_pst := VT_PSTATE_NORMAL\<rparr>" 0] vt_ok_field(1) [OF 1(2)]
          by (simp add: feed_csi_def Let_def same_parser_def)
      qed
    qed
    with VT_PSTATE_CSI show ?thesis by (simp add: vt_feed_byte_def)
  qed
qed

lemma vt_feed_ok:
  "run_ok r vt \<Longrightarrow> short_runs r cs \<Longrightarrow> \<exists>vt'. vt_feed cs vt = Some vt' \<and> vt_ok vt'"
proof (induction cs arbitrary: r vt)
  case Nil
  then show ?case by (simp add: run_ok_def)
next
  case (Cons c cs)
  obtain vt1 where "vt_feed_byte c vt = Some vt1" "run_ok (if is_digit c then r + 1 else 0) vt1"
    using vt_feed_byte_ok [OF Cons.prems(1), of c] Cons.prems(2) by (auto split: if_splits)
  with Cons.IH [OF this(2)] Cons.prems(2) show ?case by (auto split: if_splits)
qed

lemma vt_init_ok: "run_ok 0 vt_init"
  by (simp add: run_ok_def vt_ok_def vt_shape_def cursor_ok_def vt_init_def)

text \<open>
  C18: Whatever bytes a program or a remote host sends, as long as no ten digits follow one another, no write leaves the grid,
  and afterwards the grid has its 25 rows of 80 cells, the cursor lies on a row and at most one column past its end, and the
  parameter in use is one of the eight.
\<close>

theorem vt_feed_stays_on_screen:
  assumes "short_runs 0 cs"
  shows "\<exists>vt. vt_feed cs vt_init = Some vt \<and> vt_ok vt"
  by (rule vt_feed_ok [OF vt_init_ok assms])

text \<open>
  The bound is needed: a move down by the largest number adds to a cursor that is not on the first row in 32 bits, the row
  becomes negative, and the next character is written in front of the grid.
\<close>

theorem vt_cursor_overflow:
  "vt_feed [0x0A, 0x1B, 0x5B, 0x32, 0x31, 0x34, 0x37, 0x34, 0x38, 0x33, 0x36, 0x34, 0x37, 0x42] vt_init \<noteq> None \<and>
   vt_feed [0x0A, 0x1B, 0x5B, 0x32, 0x31, 0x34, 0x37, 0x34, 0x38, 0x33, 0x36, 0x34, 0x37, 0x42, 0x41] vt_init = None"
proof -
  let ?digits = "[0x32, 0x31, 0x34, 0x37, 0x34, 0x38, 0x33, 0x36, 0x34, 0x37] :: u8 list"
  show ?thesis
    by (simp add: vt_feed_byte_def feed_normal_def newline_def feed_esc_def feed_csi_def is_digit_def csi_dispatch_def
      csi_count_def csi_param_def put_char_def set_cell_def upd_nth_def wrap32_def vt_init_def Let_def)
qed

theorem vt_feed_stays_on_screen_witness:
  "\<exists>vt. vt_feed [0x1B, 0x5B, 0x39, 0x39, 0x3B, 0x39, 0x39, 0x39, 0x39, 0x48, 0x41, 0x42, 0x1B, 0x5B, 0x31, 0x4A] vt_init = Some vt \<and>
     vt_ok vt"
  by (rule vt_feed_stays_on_screen) (simp add: is_digit_def)

section \<open>Plain text\<close>

text \<open>The cell a text shows at a place of the grid: the text runs in lines of 80, and the last 25 of them are seen.\<close>

definition line_cell :: "nat \<Rightarrow> u8 list \<Rightarrow> nat \<Rightarrow> nat \<Rightarrow> vt_cell" where
  "line_cell q s r c =
     (let i = (q - 24 + r) * 80 + c in if i < length s then \<lparr>vc_ch = s ! i, vc_reverse = False\<rparr> else blank False)"

definition shown :: "u8 list \<Rightarrow> nat \<Rightarrow> nat \<Rightarrow> vt_cell" where
  "shown s = line_cell ((length s - 1) div 80) s"

text \<open>The screen after the text \<open>s\<close>, which fills \<open>q\<close> lines and \<open>x\<close> columns.\<close>

definition typed :: "nat \<Rightarrow> nat \<Rightarrow> u8 list \<Rightarrow> vt_screen \<Rightarrow> bool" where
  "typed q x s vt \<longleftrightarrow> vt_ok vt \<and> vt_pst vt = VT_PSTATE_NORMAL \<and> \<not> vt_reverse vt \<and> length s = 80 * q + x \<and> x \<le> 80 \<and>
     vt_cursor_x vt = int x \<and> vt_cursor_y vt = int (min 24 q) \<and> (\<forall>r < 25. \<forall>c < 80. vt_cells vt ! r ! c = line_cell q s r c)"

text \<open>The same, except for the cell under the cursor.\<close>

definition typed_but_cursor :: "nat \<Rightarrow> nat \<Rightarrow> u8 list \<Rightarrow> vt_screen \<Rightarrow> bool" where
  "typed_but_cursor q x s vt \<longleftrightarrow> vt_ok vt \<and> vt_pst vt = VT_PSTATE_NORMAL \<and> \<not> vt_reverse vt \<and> length s = 80 * q + x \<and> x \<le> 80 \<and>
     vt_cursor_x vt = int x \<and> vt_cursor_y vt = int (min 24 q) \<and>
     (\<forall>r < 25. \<forall>c < 80. (r, c) \<noteq> (min 24 q, x) \<longrightarrow> vt_cells vt ! r ! c = line_cell q s r c)"

lemma typed_any: "typed q x s vt \<Longrightarrow> typed_but_cursor q x s vt"
  by (simp add: typed_def typed_but_cursor_def)

lemma typed_newline:
  assumes "typed q 80 s vt"
  shows "typed (q + 1) 0 s (newline (vt\<lparr>vt_cursor_x := 0\<rparr>))"
proof -
  let ?vt = "vt\<lparr>vt_cursor_x := 0\<rparr>"
  have vt: "vt_ok vt" "vt_pst vt = VT_PSTATE_NORMAL" "\<not> vt_reverse vt" "length s = 80 * q + 80" "vt_cursor_y vt = int (min 24 q)"
    and cells: "\<And>r c. r < 25 \<Longrightarrow> c < 80 \<Longrightarrow> vt_cells vt ! r ! c = line_cell q s r c"
    using assms by (simp_all add: typed_def)
  have s: "vt_shape ?vt" "0 \<le> vt_cursor_y ?vt" "vt_cursor_y ?vt < VT_ROWS"
    using vt(1) by (simp_all add: vt_ok_def vt_shape_def cursor_ok_def)
  note nl = newline_ok [OF s]
  have w: "wrap32 (vt_cursor_y vt + 1) = vt_cursor_y vt + 1" using vt(5) by (intro wrap32_id) auto
  have main: "vt_cells (newline ?vt) ! r ! c = line_cell (q + 1) s r c \<and> vt_cursor_y (newline ?vt) = int (min 24 (q + 1))"
    if "r < 25" "c < 80" for r c
  proof (cases "q < 24")
    case True
    then have "newline ?vt = ?vt\<lparr>vt_cursor_y := vt_cursor_y vt + 1\<rparr>" using w vt(5) by (simp add: newline_def Let_def)
    then show ?thesis using True cells [OF that] vt(5) by (simp add: line_cell_def)
  next
    case False
    let ?v = "vt\<lparr>vt_cursor_x := 0, vt_cursor_y := 24\<rparr>"
    have eq: "newline ?vt = scroll_up ?v" using False w vt(5) by (simp add: newline_def Let_def)
    have "vt_shape ?v" using vt(1) by (simp add: vt_ok_def vt_shape_def)
    from scroll_up_frame [OF this] have sc: "vt_cursor_y (scroll_up ?v) = 24"
      "vt_cells (scroll_up ?v) = map (\<lambda>r. if r < 24 then vt_cells vt ! (r + 1) else replicate 80 (blank (vt_reverse vt))) [0..<25]"
      by (simp_all add: same_control_def)
    have e: "Suc q - 24 + r = q - 24 + (r + 1)" using False by simp
    show ?thesis
    proof (cases "r < 24")
      case True
      then show ?thesis using cells [of "r + 1" c] that sc False e unfolding eq by (simp add: line_cell_def)
    next
      case r: False
      then have "\<not> (Suc q - 24 + r) * 80 + c < length s" using vt(4) that False by simp
      then show ?thesis using r that sc False vt(3) unfolding eq by (simp add: line_cell_def Let_def)
    qed
  qed
  then have "\<forall>r < 25. \<forall>c < 80. vt_cells (newline ?vt) ! r ! c = line_cell (q + 1) s r c" by blast
  moreover have "vt_cursor_y (newline ?vt) = int (min 24 (q + 1))" using main [of 0 0] by simp
  ultimately show ?thesis using nl vt by (simp add: typed_def vt_ok_def cursor_ok_def)
qed

lemma typed_over:
  assumes "typed_but_cursor q x s vt" "x < 80"
  shows "\<exists>vt'. put_char b vt = Some vt' \<and> typed q (x + 1) (s @ [b]) vt'"
proof -
  have vt: "vt_ok vt" "vt_pst vt = VT_PSTATE_NORMAL" "\<not> vt_reverse vt" "length s = 80 * q + x" "vt_cursor_y vt = int (min 24 q)"
    "vt_cursor_x vt = int x"
    and cells: "\<And>r c. r < 25 \<Longrightarrow> c < 80 \<Longrightarrow> \<not> (r = min 24 q \<and> c = x) \<Longrightarrow> vt_cells vt ! r ! c = line_cell q s r c"
    using assms(1) by (simp_all add: typed_but_cursor_def)
  have len: "length (vt_cells vt) = 25" "\<And>r. r < 25 \<Longrightarrow> length (vt_cells vt ! r) = 80"
    using vt(1) by (simp_all add: vt_ok_def vt_shape_def)
  obtain vt' where p: "put_char b vt = Some vt'" "vt_ok vt'" "vt_pst vt' = vt_pst vt" using put_char_ok [OF vt(1)] by blast
  have w: "wrap32 (int x + 1) = int x + 1" using assms(2) by (intro wrap32_id) auto
  have y: "nat (vt_cursor_y vt) = min 24 q" "min 24 q < 25" using vt(5) by simp_all
  define cells' where "cells' = upd_nth (min 24 q) (\<lambda>cs. cs[x := \<lparr>vc_ch = b, vc_reverse = False\<rparr>]) (vt_cells vt)"
  have eq: "vt' = (mark_dirty (vt_cursor_y vt) (vt\<lparr>vt_cells := cells'\<rparr>))\<lparr>vt_cursor_x := int x + 1\<rparr>"
    using p(1) vt assms(2) y w
    by (auto simp: put_char_def set_cell_def Let_def cells'_def mark_dirty_def)
  have "cells' ! r ! c = line_cell q (s @ [b]) r c" if "r < 25" "c < 80" for r c
  proof (cases "r = min 24 q \<and> c = x")
    case True
    then have "(q - 24 + r) * 80 + c = length s" using vt(4) by (cases "q \<le> 24") auto
    then show ?thesis using True len y assms(2) by (simp add: cells'_def line_cell_def Let_def)
  next
    case False
    have "(q - 24 + r) * 80 + c \<noteq> length s"
    proof
      assume "(q - 24 + r) * 80 + c = length s"
      moreover define m where "m = q - 24 + r"
      ultimately have "m * 80 + c = q * 80 + x" using vt(4) by simp
      then have "(m * 80 + c) div 80 = (q * 80 + x) div 80" "(m * 80 + c) mod 80 = (q * 80 + x) mod 80" by simp_all
      then have "q - 24 + r = q" "c = x" using that(2) assms(2) by (simp_all add: m_def [symmetric])
      then show False using False by (cases "q \<le> 24") auto
    qed
    then have "line_cell q (s @ [b]) r c = line_cell q s r c" by (simp add: line_cell_def Let_def nth_append)
    moreover have "cells' ! r ! c = vt_cells vt ! r ! c" using False len y that by (auto simp: cells'_def)
    ultimately show ?thesis using cells [OF that False] by simp
  qed
  then show ?thesis using p vt assms(2) eq mark_dirty_frame(1) mark_dirty_frame(2) [of "vt\<lparr>vt_cells := cells'\<rparr>" "vt_cursor_y vt"]
    by (simp add: typed_def same_control_def)
qed

lemmas typed_char = typed_over [OF typed_any]

lemma typed_text:
  assumes "\<forall>b \<in> set s. 0x20 \<le> b \<and> b < 0x7F"
  shows "\<exists>q x vt. vt_feed s vt_init = Some vt \<and> typed q x s vt \<and> (x = 0 \<longrightarrow> q = 0)"
  using assms
proof (induction s rule: rev_induct)
  case Nil
  have "typed 0 0 [] vt_init"
    using vt_init_ok by (simp add: typed_def run_ok_def vt_init_def line_cell_def)
  then show ?case by (intro exI [of _ 0] exI [of _ vt_init]) simp
next
  case (snoc b s)
  then obtain q x vt where 1: "vt_feed s vt_init = Some vt" "typed q x s vt" "x = 0 \<longrightarrow> q = 0" by auto
  have app: "vt_feed (cs @ ds) v = Option.bind (vt_feed cs v) (vt_feed ds)" for cs ds v
    by (induction cs arbitrary: v) (auto split: Option.bind_splits)
  have "b \<noteq> 0x1B \<and> b \<noteq> 0x0D \<and> b \<noteq> 0x0A \<and> b \<noteq> 0x08 \<and> b \<noteq> 0x09 \<and> b \<noteq> 0x07 \<and> 0x20 \<le> b \<and> b < 0x7F"
    using snoc.prems by (auto simp: word_le_nat_alt)
  then have "vt_feed_byte b vt = put_char b vt" using 1(2) by (simp add: vt_feed_byte_def feed_normal_def typed_def)
  moreover have "\<exists>q x vt'. put_char b vt = Some vt' \<and> typed q (x + 1) (s @ [b]) vt'"
  proof (cases "x = 80")
    case True
    have "put_char b vt = put_char b (newline (vt\<lparr>vt_cursor_x := 0\<rparr>))"
      using 1(2) True typed_newline [of q s vt] by (simp add: put_char_def Let_def typed_def)
    with typed_char [OF typed_newline [of q s vt], of b] 1(2) True show ?thesis by auto
  next
    case False
    with 1(2) have "x < 80" by (simp add: typed_def)
    from typed_char [OF 1(2) this, of b] show ?thesis by blast
  qed
  then obtain q' x' vt' where "put_char b vt = Some vt'" "typed q' (Suc x') (s @ [b]) vt'" by auto
  ultimately show ?case
    using 1(1) by (intro exI [of _ q'] exI [of _ "Suc x'"] exI [of _ vt']) (simp add: app)
qed

text \<open>
  C19: Printable text of any length, fed to a fresh terminal, shows its last 25 lines of 80 columns: a line that is exactly full
  does not open an empty one below it.
\<close>

theorem vt_shows_text:
  assumes "\<forall>b \<in> set s. 0x20 \<le> b \<and> b < 0x7F"
  shows "\<exists>vt. vt_feed s vt_init = Some vt \<and> (\<forall>r < 25. \<forall>c < 80. vt_cells vt ! r ! c = shown s r c)"
proof -
  obtain q x vt where 1: "vt_feed s vt_init = Some vt" "typed q x s vt" "x = 0 \<longrightarrow> q = 0"
    using typed_text [OF assms] by blast
  have "(length s - 1) div 80 = q"
  proof (cases "x = 0")
    case False
    then have "length s - 1 = q * 80 + (x - 1)" "x - 1 < 80" using 1(2) by (auto simp: typed_def)
    then show ?thesis by simp
  qed (use 1 in \<open>simp add: typed_def\<close>)
  with 1 show ?thesis by (auto simp: typed_def shown_def)
qed

theorem vt_shows_text_witness:
  "\<exists>vt. vt_feed (replicate 81 0x78) vt_init = Some vt \<and> vt_cells vt ! 1 ! 0 = \<lparr>vc_ch = 0x78, vc_reverse = False\<rparr> \<and>
     vt_cells vt ! 1 ! 1 = blank False"
proof -
  obtain vt where "vt_feed (replicate 81 0x78) vt_init = Some vt"
    "\<forall>r < 25. \<forall>c < 80. vt_cells vt ! r ! c = shown (replicate 81 0x78) r c"
    using vt_shows_text [of "replicate 81 0x78"] by auto
  then show ?thesis by (simp add: shown_def line_cell_def)
qed

section \<open>Dirty rows\<close>

definition tracks :: "vt_screen \<Rightarrow> vt_screen \<Rightarrow> bool" where
  "tracks a b \<longleftrightarrow> (length (vt_dirty a) = 25 \<longrightarrow> length (vt_dirty b) = 25 \<and>
     (\<forall>r < 25. \<not> vt_dirty b ! r \<longrightarrow> \<not> vt_dirty a ! r \<and> vt_cells b ! r = vt_cells a ! r))"

lemma tracks_trans: "tracks a b \<Longrightarrow> tracks b c \<Longrightarrow> tracks a c"
  by (simp add: tracks_def)

lemma tracks_same: "vt_cells b = vt_cells a \<Longrightarrow> vt_dirty b = vt_dirty a \<Longrightarrow> tracks a b"
  by (simp add: tracks_def)

lemma fold_mark_dirty_length: "length (vt_dirty (fold mark_dirty rs vt)) = length (vt_dirty vt)"
  by (induction rs arbitrary: vt) (simp_all add: mark_dirty_frame)

lemma tracks_all: "length (vt_dirty b) = length (vt_dirty a) \<Longrightarrow> tracks a (fold mark_dirty [0..24] b)"
  by (auto simp: tracks_def fold_mark_dirty_length fold_mark_dirty_nth)

lemma newline_tracks: "tracks vt (newline vt)"
  by (auto simp: newline_def Let_def scroll_up_def intro: tracks_all tracks_same)

lemma erase_cells_frame:
  "erase_cells ps vt = Some vt' \<Longrightarrow> vt_dirty vt' = vt_dirty vt \<and> (\<forall>r < 25. int r \<notin> fst ` set ps \<longrightarrow> vt_cells vt' ! r = vt_cells vt ! r)"
proof (induction ps arbitrary: vt)
  case (Cons p ps)
  obtain r c where p: "p = (r, c)" by fastforce
  obtain vt1 where 1: "erase_cell r c vt = Some vt1" "erase_cells ps vt1 = Some vt'"
    using Cons.prems by (auto simp: p bind_eq_Some_conv)
  have "vt_dirty vt1 = vt_dirty vt \<and> (\<forall>i < 25. int i \<noteq> r \<longrightarrow> vt_cells vt1 ! i = vt_cells vt ! i)"
    using 1(1) by (auto simp: erase_cell_def set_cell_def upd_nth_def split: if_splits)
  with Cons.IH [OF 1(2)] show ?case by (auto simp: p)
qed simp

lemma csi_dispatch_tracks: "csi_dispatch c vt = Some vt' \<Longrightarrow> tracks vt vt'"
proof -
  have sgr: "vt_cells (sgr p v) = vt_cells v \<and> vt_dirty (sgr p v) = vt_dirty v" for p v by (simp add: sgr_def)
  have "vt_cells (fold (\<lambda>i v. sgr (csi_param v i 0) v) is v) = vt_cells v \<and>
      vt_dirty (fold (\<lambda>i v. sgr (csi_param v i 0) v) is v) = vt_dirty v" for "is" v
    by (induction "is" arbitrary: v) (simp_all add: sgr)
  then have sg: "tracks vt (select_graphic vt)"
    unfolding select_graphic_def Let_def by (intro tracks_same) blast+
  have ed: "tracks vt v" if "erase_display vt = Some v" for v
    using that erase_cells_frame
    by (auto simp: erase_display_def Let_def split: if_splits intro!: tracks_all dest: erase_cells_frame)
  have el: "tracks vt v" if e: "erase_line vt = Some v" for v
  proof -
    define ps where "ps = (if csi_param vt 0 0 = 0 then row_cells (vt_cursor_y vt) (vt_cursor_x vt) (VT_COLS - 1)
        else if csi_param vt 0 0 = 1 then row_cells (vt_cursor_y vt) 0 (min (vt_cursor_x vt) (VT_COLS - 1))
        else row_cells (vt_cursor_y vt) 0 (VT_COLS - 1))"
    have "erase_line vt = map_option (mark_dirty (vt_cursor_y vt)) (erase_cells ps vt)"
      by (simp add: erase_line_def ps_def Let_def)
    moreover have "fst ` set ps \<subseteq> {vt_cursor_y vt}" by (auto simp: ps_def row_cells_def)
    ultimately obtain vt1 where
      1: "erase_cells ps vt = Some vt1" "v = mark_dirty (vt_cursor_y vt) vt1" "fst ` set ps \<subseteq> {vt_cursor_y vt}"
      using e by (cases "erase_cells ps vt") auto
    have "int r \<notin> fst ` set ps" if "int r \<noteq> vt_cursor_y vt" for r using 1(3) that by blast
    with erase_cells_frame [OF 1(1)] 1(2) show ?thesis
      by (auto simp: tracks_def mark_dirty_nth mark_dirty_frame)
  qed
  assume "csi_dispatch c vt = Some vt'"
  then show ?thesis
    unfolding csi_dispatch_def Let_def
    by (auto split: if_splits intro: sg ed el tracks_same)
qed

lemma vt_feed_byte_tracks:
  assumes "vt_feed_byte c vt = Some vt'"
  shows "tracks vt vt'"
proof -
  have set: "tracks v (mark_dirty r v')" if "set_cell r k cell v = Some v'" for r k cell v v'
    using that by (auto simp: set_cell_def tracks_def mark_dirty_nth mark_dirty_frame upd_nth_def split: if_splits)
  have put: "tracks vt v" if p: "put_char c vt = Some v" for v
  proof -
    let ?vt = "if vt_cursor_x vt \<ge> VT_COLS then newline (vt\<lparr>vt_cursor_x := 0\<rparr>) else vt"
    obtain v1 where 1: "set_cell (vt_cursor_y ?vt) (vt_cursor_x ?vt) \<lparr>vc_ch = c, vc_reverse = vt_reverse ?vt\<rparr> ?vt = Some v1"
      "v = (mark_dirty (vt_cursor_y v1) v1)\<lparr>vt_cursor_x := wrap32 (vt_cursor_x v1 + 1)\<rparr>"
      using p by (auto simp: put_char_def Let_def)
    have "vt_cursor_y v1 = vt_cursor_y ?vt" using 1(1) by (auto simp: set_cell_def split: if_splits)
    then have "tracks ?vt (mark_dirty (vt_cursor_y v1) v1)" using set [OF 1(1)] by simp
    moreover have "tracks vt ?vt" using newline_tracks [of "vt\<lparr>vt_cursor_x := 0\<rparr>"] by (simp add: tracks_def)
    ultimately show ?thesis unfolding 1(2) using tracks_trans by (auto simp: tracks_def)
  qed
  show ?thesis
  proof (cases "vt_pst vt")
    case VT_PSTATE_NORMAL
    with assms show ?thesis
      by (auto simp: vt_feed_byte_def feed_normal_def Let_def split: if_splits intro: put newline_tracks tracks_same)
  next
    case VT_PSTATE_ESC
    with assms show ?thesis by (auto simp: vt_feed_byte_def feed_esc_def intro: tracks_same)
  next
    case VT_PSTATE_CSI
    show ?thesis
    proof (cases "is_digit c \<or> c = 0x3B")
      case True
      with VT_PSTATE_CSI assms show ?thesis
        by (auto simp: vt_feed_byte_def feed_csi_def Let_def split: if_splits intro!: tracks_same)
    next
      case False
      then obtain v where v: "csi_dispatch c vt = Some v" "vt' = v\<lparr>vt_pst := VT_PSTATE_NORMAL\<rparr>"
        using VT_PSTATE_CSI assms by (auto simp: vt_feed_byte_def feed_csi_def Let_def)
      from csi_dispatch_tracks [OF v(1)] v(2) show ?thesis by (simp add: tracks_def)
    qed
  qed
qed

lemma vt_feed_tracks: "vt_feed cs vt = Some vt' \<Longrightarrow> tracks vt vt'"
proof (induction cs arbitrary: vt)
  case Nil
  then show ?case by (simp add: tracks_def)
next
  case (Cons c cs)
  then show ?case by (auto simp: bind_eq_Some_conv intro: tracks_trans [OF vt_feed_byte_tracks])
qed

text \<open>
  A renderer may redraw the dirty rows alone: after the marks were cleared, whatever was fed since, a row without a mark shows
  what it showed then.
\<close>

theorem vt_dirty_rows_complete:
  assumes "vt_feed cs (vt_clear_dirty vt) = Some vt'" "0 \<le> row" "row < VT_ROWS" "\<not> vt_row_dirty row vt'"
  shows "vt_cells vt' ! nat row = vt_cells vt ! nat row"
proof -
  have "\<not> vt_dirty vt' ! nat row" "nat row < 25" using assms(2-4) by (simp_all add: vt_row_dirty_def)
  with vt_feed_tracks [OF assms(1)] show ?thesis by (simp add: tracks_def vt_clear_dirty_def)
qed

theorem vt_dirty_rows_complete_witness:
  "\<exists>vt'. vt_feed [0x0D, 0x1B, 0x5B, 0x41] (vt_clear_dirty vt_init) = Some vt' \<and> vt_cells vt' ! 2 = vt_cells vt_init ! 2"
proof -
  define vt' where "vt' = the (vt_feed [0x0D, 0x1B, 0x5B, 0x41] (vt_clear_dirty vt_init))"
  have 1: "vt_feed [0x0D, 0x1B, 0x5B, 0x41] (vt_clear_dirty vt_init) = Some vt'" "\<not> vt_row_dirty 2 vt'"
    unfolding vt'_def
    by (simp_all add: vt_feed_byte_def feed_normal_def feed_esc_def feed_csi_def is_digit_def csi_dispatch_def Let_def vt_init_def
        vt_clear_dirty_def vt_row_dirty_def)
  from vt_dirty_rows_complete [OF 1(1) _ _ 1(2)] 1(1) show ?thesis by auto
qed

end
