(* ===== verification/Zobj.thy ===== *)
theory Zobj
  imports Prelude
begin

text \<open>
  The object library of the applications (\<open>src/sw/common/zobj.c\<close>): strings, blobs, lists and maps on the
  heap. An object is a value that owns what it points to; the heap is the outcome of the coming allocations
  and the number of blocks in use. A read or write through a null pointer is \<open>None\<close>. Floats are a
  parameter, with the comparison the code makes of them.
\<close>

section \<open>Objects\<close>

type_synonym bytes = "u8 list"

datatype 'f zval =
  Z_NONE
| Z_RETVAL int
| Z_UINT32 u32
| Z_INT32 int
| Z_FLOAT32 'f
| Z_STR "bytes option"
| Z_BLOB "bytes option"
| Z_LIST "'f ztable option"
| Z_MAP "'f ztable option"
and 'f ztable = Table u32 "'f zval list option" "'f zval list option"

record heap =
  h_fate :: "bool list"
  h_live :: int

definition malloc :: "heap \<Rightarrow> bool \<times> heap" where
  "malloc h =
     (case h_fate h of
        [] \<Rightarrow> (True, h\<lparr>h_live := h_live h + 1\<rparr>)
      | ok # fate \<Rightarrow> (ok, h\<lparr>h_fate := fate, h_live := h_live h + (if ok then 1 else 0)\<rparr>))"

definition free_one :: "heap \<Rightarrow> heap" where
  "free_one h = h\<lparr>h_live := h_live h - 1\<rparr>"

section \<open>Creation\<close>

definition z_obj_none :: "'f zval" where "z_obj_none = Z_NONE"
definition z_obj_uint32 :: "u32 \<Rightarrow> 'f zval" where "z_obj_uint32 u = Z_UINT32 u"
definition z_obj_int32 :: "int \<Rightarrow> 'f zval" where "z_obj_int32 i = Z_INT32 i"
definition z_obj_float32 :: "'f \<Rightarrow> 'f zval" where "z_obj_float32 f = Z_FLOAT32 f"

definition z_obj_str :: "bytes option \<Rightarrow> heap \<Rightarrow> 'f zval \<times> heap" where
  "z_obj_str s h =
     (case malloc h of (ok, h) \<Rightarrow>
        if \<not> ok then (z_obj_none, h)
        else (Z_STR (Some (case s of Some cs \<Rightarrow> cs | None \<Rightarrow> [])), h))"

text \<open>An array of \<open>len\<close> empty objects, or the null pointer.\<close>

definition calloc :: "u32 \<Rightarrow> heap \<Rightarrow> 'f zval list option \<times> heap" where
  "calloc len h = (case malloc h of (ok, h) \<Rightarrow> (if ok then Some (replicate (unat len) Z_NONE) else None, h))"

definition z_obj_list :: "u32 \<Rightarrow> heap \<Rightarrow> ('f zval \<times> heap) option" where
  "z_obj_list len h =
     (case malloc h of (ok, h) \<Rightarrow>
        if \<not> ok then None
        else case calloc len h of (a, h) \<Rightarrow> Some (Z_LIST (Some (Table len a None)), h))"

definition z_obj_map :: "u32 \<Rightarrow> heap \<Rightarrow> ('f zval \<times> heap) option" where
  "z_obj_map len h =
     (case malloc h of (ok, h) \<Rightarrow>
        if \<not> ok then None
        else case calloc len h of (a, h) \<Rightarrow> case calloc len h of (b, h) \<Rightarrow> Some (Z_MAP (Some (Table len a b)), h))"

definition z_obj_blob :: "bytes \<Rightarrow> heap \<Rightarrow> 'f zval \<times> heap" where
  "z_obj_blob data h =
     (case malloc h of (ok, h) \<Rightarrow>
        if \<not> ok then (z_obj_none, h)
        else case malloc h of (ok, h) \<Rightarrow>
          if \<not> ok then (z_obj_none, free_one h)
          else (Z_BLOB (Some data), h))"

section \<open>Reading\<close>

fun z_blob_len :: "'f zval \<Rightarrow> u32" where
  "z_blob_len (Z_BLOB (Some d)) = of_nat (length d)"
| "z_blob_len _ = 0"

fun z_blob_data :: "'f zval \<Rightarrow> bytes option" where
  "z_blob_data (Z_BLOB d) = d"
| "z_blob_data _ = None"

definition z_is_ok :: "'f zval \<Rightarrow> bool" where "z_is_ok x \<longleftrightarrow> (case x of Z_RETVAL v \<Rightarrow> v = 0 | _ \<Rightarrow> False)"
definition z_is_fail :: "'f zval \<Rightarrow> bool" where "z_is_fail x \<longleftrightarrow> (case x of Z_RETVAL v \<Rightarrow> v \<noteq> 0 | _ \<Rightarrow> False)"

text \<open>An element of an array; the outer option is the null array, the inner one the null result.\<close>

definition elem :: "'f zval list option \<Rightarrow> u32 \<Rightarrow> u32 \<Rightarrow> 'f zval option option" where
  "elem arr len index =
     (if index \<ge> len then Some None else case arr of None \<Rightarrow> None | Some xs \<Rightarrow> Some (Some (xs ! unat index)))"

fun z_list_get :: "'f zval \<Rightarrow> u32 \<Rightarrow> 'f zval option option" where
  "z_list_get (Z_LIST (Some (Table len a b))) index = elem a len index"
| "z_list_get _ index = Some None"

fun z_map_get_key :: "'f zval \<Rightarrow> u32 \<Rightarrow> 'f zval option option" where
  "z_map_get_key (Z_MAP (Some (Table len a b))) index = elem a len index"
| "z_map_get_key _ index = Some None"

fun z_map_get_val :: "'f zval \<Rightarrow> u32 \<Rightarrow> 'f zval option option" where
  "z_map_get_val (Z_MAP (Some (Table len a b))) index = elem b len index"
| "z_map_get_val _ index = Some None"

fun z_obj_size :: "'f zval \<Rightarrow> u32" where
  "z_obj_size (Z_LIST (Some (Table len a b))) = len"
| "z_obj_size (Z_MAP (Some (Table len a b))) = len"
| "z_obj_size (Z_STR (Some s)) = of_nat (length s)"
| "z_obj_size (Z_BLOB (Some d)) = of_nat (length d)"
| "z_obj_size _ = 0"

section \<open>Freeing\<close>

text \<open>
  The array of a table has as many elements as its length says, so the loops over the indices run over
  the array; a null array is only passed over when the length is zero.
\<close>

definition free_array :: "'f zval list option \<Rightarrow> heap \<Rightarrow> heap" where
  "free_array arr h = (case arr of None \<Rightarrow> h | Some _ \<Rightarrow> free_one h)"

function (sequential) z_obj_free :: "'f zval \<Rightarrow> heap \<Rightarrow> heap option"
  and free_items :: "'f zval list \<Rightarrow> heap \<Rightarrow> heap option"
  and free_pairs :: "'f zval list \<Rightarrow> 'f zval list \<Rightarrow> heap \<Rightarrow> heap option" where
  "z_obj_free (Z_STR (Some s)) h = Some (free_one h)"
| "z_obj_free (Z_BLOB (Some d)) h = Some (free_one (free_one h))"
| "z_obj_free (Z_LIST (Some (Table len a b))) h =
     map_option (\<lambda>h. free_one (free_array b (free_array a h)))
       (case a of None \<Rightarrow> if len = 0 then Some h else None | Some xs \<Rightarrow> free_items xs h)"
| "z_obj_free (Z_MAP (Some (Table len a b))) h =
     map_option (\<lambda>h. free_one (free_array b (free_array a h)))
       (case a of None \<Rightarrow> if len = 0 then Some h else None
        | Some xs \<Rightarrow> (case b of None \<Rightarrow> free_items xs h | Some ys \<Rightarrow> free_pairs xs ys h))"
| "z_obj_free _ h = Some h"
| "free_items [] h = Some h"
| "free_items (x # xs) h = Option.bind (z_obj_free x h) (free_items xs)"
| "free_pairs (x # xs) (y # ys) h = Option.bind (z_obj_free x h) (\<lambda>h. Option.bind (z_obj_free y h) (free_pairs xs ys))"
| "free_pairs _ _ h = Some h"
  by pat_completeness auto

termination
  by (relation "measure (\<lambda>c. case c of Inl (x, _) \<Rightarrow> size x | Inr (Inl (xs, _)) \<Rightarrow> size_list size xs
      | Inr (Inr (xs, ys, _)) \<Rightarrow> size_list size xs + size_list size ys)") auto

section \<open>Copying\<close>

function (sequential) z_obj_copy :: "'f zval \<Rightarrow> heap \<Rightarrow> ('f zval \<times> heap) option"
  and copy_items :: "'f zval list \<Rightarrow> heap \<Rightarrow> ('f zval list \<times> heap) option"
  and copy_pairs :: "'f zval list \<Rightarrow> 'f zval list \<Rightarrow> heap \<Rightarrow> (('f zval list \<times> 'f zval list) \<times> heap) option" where
  "z_obj_copy (Z_STR s) h = Some (z_obj_str (Some (case s of Some cs \<Rightarrow> cs | None \<Rightarrow> [])) h)"
| "z_obj_copy (Z_BLOB d) h = Some (case d of None \<Rightarrow> (z_obj_none, h) | Some data \<Rightarrow> z_obj_blob data h)"
| "z_obj_copy (Z_LIST None) h = Some (z_obj_none, h)"
| "z_obj_copy (Z_LIST (Some (Table len a b))) h =
     (case z_obj_list len h :: ('f zval \<times> heap) option of
        Some (Z_LIST (Some (Table len' a' b')), h) \<Rightarrow>
          if len = 0 then Some (Z_LIST (Some (Table len' a' b')), h)
          else (case (a, a') of
                  (Some xs, Some _) \<Rightarrow>
                    map_option (\<lambda>(ys, h). (Z_LIST (Some (Table len' (Some ys) b')), h)) (copy_items xs h)
                | _ \<Rightarrow> None)
      | _ \<Rightarrow> None)"
| "z_obj_copy (Z_MAP None) h = Some (z_obj_none, h)"
| "z_obj_copy (Z_MAP (Some (Table len a b))) h =
     (case z_obj_map len h :: ('f zval \<times> heap) option of
        Some (Z_MAP (Some (Table len' a' b')), h) \<Rightarrow>
          if len = 0 then Some (Z_MAP (Some (Table len' a' b')), h)
          else (case (a, b, a', b') of
                  (Some xs, Some ys, Some _, Some _) \<Rightarrow>
                    map_option (\<lambda>((us, vs), h). (Z_MAP (Some (Table len' (Some us) (Some vs))), h)) (copy_pairs xs ys h)
                | _ \<Rightarrow> None)
      | _ \<Rightarrow> None)"
| "z_obj_copy x h = Some (x, h)"
| "copy_items [] h = Some ([], h)"
| "copy_items (x # xs) h =
     Option.bind (z_obj_copy x h) (\<lambda>(y, h). map_option (\<lambda>(ys, h). (y # ys, h)) (copy_items xs h))"
| "copy_pairs (x # xs) (y # ys) h =
     Option.bind (z_obj_copy x h) (\<lambda>(u, h). Option.bind (z_obj_copy y h) (\<lambda>(v, h).
       map_option (\<lambda>((us, vs), h). ((u # us, v # vs), h)) (copy_pairs xs ys h)))"
| "copy_pairs _ _ h = Some (([], []), h)"
  by pat_completeness auto

termination
  by (relation "measure (\<lambda>c. case c of Inl (x, _) \<Rightarrow> size x | Inr (Inl (xs, _)) \<Rightarrow> size_list size xs
      | Inr (Inr (xs, ys, _)) \<Rightarrow> size_list size xs + size_list size ys)") auto

section \<open>Comparing\<close>

text \<open>Strings are byte lists without a terminator, so \<open>strcmp\<close> is equality. \<open>near\<close> is the comparison of floats.\<close>

lemma size_zip_le: "size_list (\<lambda>p. size (fst p) + size (snd p)) (zip xs ys) \<le> size_list size xs + size_list size ys"
  by (induction xs ys rule: list_induct2') auto

function (sequential) z_obj_equal :: "('f \<Rightarrow> 'f \<Rightarrow> bool) \<Rightarrow> 'f zval \<Rightarrow> 'f zval \<Rightarrow> bool option"
  and equal_items :: "('f \<Rightarrow> 'f \<Rightarrow> bool) \<Rightarrow> 'f zval list \<Rightarrow> 'f zval list \<Rightarrow> bool option"
  and equal_pairs :: "('f \<Rightarrow> 'f \<Rightarrow> bool) \<Rightarrow> ('f zval \<times> 'f zval) list \<Rightarrow> ('f zval \<times> 'f zval) list \<Rightarrow> bool option" where
  "z_obj_equal near (Z_FLOAT32 f) y = Some (case y of Z_FLOAT32 g \<Rightarrow> near f g | _ \<Rightarrow> False)"
| "z_obj_equal near (Z_LIST (Some (Table m a b))) y =
     (case y of Z_LIST (Some (Table n c d)) \<Rightarrow>
        if m \<noteq> n then Some False
        else if m = 0 then Some True
        else (case (a, c) of (Some xs, Some ys) \<Rightarrow> equal_items near xs ys | _ \<Rightarrow> None)
      | _ \<Rightarrow> Some False)"
| "z_obj_equal near (Z_MAP (Some (Table m a b))) y =
     (case y of Z_MAP (Some (Table n c d)) \<Rightarrow>
        if m \<noteq> n then Some False
        else if m = 0 then Some True
        else (case (a, b, c, d) of (Some xs, Some us, Some ys, Some vs) \<Rightarrow> equal_pairs near (zip xs us) (zip ys vs) | _ \<Rightarrow> None)
      | _ \<Rightarrow> Some False)"
| "z_obj_equal near x y = Some (x = y)"
| "equal_items near (x # xs) (y # ys) =
     Option.bind (z_obj_equal near x y) (\<lambda>eq. if eq then equal_items near xs ys else Some False)"
| "equal_items near _ _ = Some True"
| "equal_pairs near ((x, u) # xs) ((y, v) # ys) =
     Option.bind (z_obj_equal near x y) (\<lambda>eq. if \<not> eq then Some False
       else Option.bind (z_obj_equal near u v) (\<lambda>eq. if eq then equal_pairs near xs ys else Some False))"
| "equal_pairs near _ _ = Some True"
  by pat_completeness auto

termination
  by (relation "measure (\<lambda>c. case c of Inl (_, x, _) \<Rightarrow> size x | Inr (Inl (_, xs, _)) \<Rightarrow> size_list size xs
      | Inr (Inr (_, xs, _)) \<Rightarrow> size_list (\<lambda>p. size (fst p) + size (snd p)) xs)")
    (auto intro!: le_less_trans [OF size_zip_le])

section \<open>Lists and maps\<close>

text \<open>The first place of a key, the first empty place.\<close>

fun find_key :: "bytes \<Rightarrow> 'f zval list \<Rightarrow> nat option" where
  "find_key key [] = None"
| "find_key key (k # ks) = (if k = Z_STR (Some key) then Some 0 else map_option Suc (find_key key ks))"

fun find_none :: "'f zval list \<Rightarrow> nat option" where
  "find_none [] = None"
| "find_none (k # ks) = (if k = Z_NONE then Some 0 else map_option Suc (find_none ks))"

text \<open>The result is the place of the value in the table of the map; \<open>None\<close> inside is the null pointer.\<close>

fun z_map_find :: "'f zval \<Rightarrow> bytes option \<Rightarrow> nat option option" where
  "z_map_find (Z_MAP (Some (Table len a b))) (Some key) =
     (if len = 0 then Some None else case a of None \<Rightarrow> None | Some ks \<Rightarrow> Some (find_key key ks))"
| "z_map_find _ _ = Some None"

fun z_list_append :: "'f zval \<Rightarrow> 'f zval \<Rightarrow> heap \<Rightarrow> (bool \<times> 'f zval \<times> heap) option" where
  "z_list_append (Z_LIST (Some (Table len a b))) item h =
     (if len = 0 then Some (False, Z_LIST (Some (Table len a b)), h)
      else case a of None \<Rightarrow> None
      | Some xs \<Rightarrow>
          (case find_none xs of
             None \<Rightarrow> Some (False, Z_LIST (Some (Table len a b)), h)
           | Some i \<Rightarrow> map_option (\<lambda>(x, h). (True, Z_LIST (Some (Table len (Some (xs[i := x])) b)), h)) (z_obj_copy item h)))"
| "z_list_append list item h = Some (False, list, h)"

text \<open>
  The old value of a key is freed before the new one is copied. \<open>src\<close> is the place of the map whose value the new one leads into, if it
  does (it was found with \<open>z_map_find\<close>, say): copying it after that place was freed reads freed memory.
\<close>

fun points :: "'f zval \<Rightarrow> bool" where
  "points (Z_STR s) \<longleftrightarrow> s \<noteq> None"
| "points (Z_BLOB d) \<longleftrightarrow> d \<noteq> None"
| "points (Z_LIST t) \<longleftrightarrow> t \<noteq> None"
| "points (Z_MAP t) \<longleftrightarrow> t \<noteq> None"
| "points _ \<longleftrightarrow> False"

fun z_map_set :: "nat option \<Rightarrow> 'f zval \<Rightarrow> bytes option \<Rightarrow> 'f zval \<Rightarrow> heap \<Rightarrow> (bool \<times> 'f zval \<times> heap) option" where
  "z_map_set src (Z_MAP (Some (Table len a b))) (Some key) v h =
     (if len = 0 then Some (False, Z_MAP (Some (Table len a b)), h)
      else case (a, b) of
        (Some ks, Some vs) \<Rightarrow>
          (case find_key key ks of
             Some i \<Rightarrow>
               Option.bind (z_obj_free (vs ! i) h) (\<lambda>h.
                 if src = Some i \<and> points v then None
                 else map_option (\<lambda>(x, h). (True, Z_MAP (Some (Table len (Some ks) (Some (vs[i := x])))), h)) (z_obj_copy v h))
           | None \<Rightarrow>
               (case find_none ks of
                  None \<Rightarrow> Some (False, Z_MAP (Some (Table len a b)), h)
                | Some i \<Rightarrow>
                    (case z_obj_str (Some key) h of (k, h) \<Rightarrow>
                       map_option (\<lambda>(x, h). (True, Z_MAP (Some (Table len (Some (ks[i := k])) (Some (vs[i := x])))), h))
                         (z_obj_copy v h))))
      | _ \<Rightarrow> None)"
| "z_map_set src m key v h = Some (False, m, h)"

section \<open>Ownership\<close>

text \<open>The number of heap blocks an object owns.\<close>

definition array_block :: "'f zval list option \<Rightarrow> int" where
  "array_block arr = (case arr of None \<Rightarrow> 0 | Some _ \<Rightarrow> 1)"

fun blocks :: "'f zval \<Rightarrow> int" and table_blocks :: "'f ztable \<Rightarrow> int" where
  "blocks (Z_STR (Some s)) = 1"
| "blocks (Z_BLOB (Some d)) = 2"
| "blocks (Z_LIST (Some t)) = table_blocks t"
| "blocks (Z_MAP (Some t)) = table_blocks t"
| "blocks _ = 0"
| "table_blocks (Table len a b) =
     1 + (case a of None \<Rightarrow> 0 | Some xs \<Rightarrow> 1 + sum_list (map blocks xs)) + (case b of None \<Rightarrow> 0 | Some ys \<Rightarrow> 1 + sum_list (map blocks ys))"

text \<open>An object with all its arrays in place: the ones a table lacks are those of an empty table, and a list has no second one.\<close>

fun tidy :: "'f zval \<Rightarrow> bool" where
  "tidy (Z_LIST (Some (Table len a b))) \<longleftrightarrow>
     b = None \<and> (case a of None \<Rightarrow> len = 0 | Some xs \<Rightarrow> unat len = length xs \<and> (\<forall>x \<in> set xs. tidy x))"
| "tidy (Z_MAP (Some (Table len a b))) \<longleftrightarrow>
     (case a of None \<Rightarrow> len = 0 | Some xs \<Rightarrow> unat len = length xs \<and> (\<forall>x \<in> set xs. tidy x)) \<and>
     (case b of None \<Rightarrow> len = 0 | Some ys \<Rightarrow> unat len = length ys \<and> (\<forall>y \<in> set ys. tidy y))"
| "tidy _ = True"

lemma heap_eqI: "h_fate a = h_fate b \<Longrightarrow> h_live a = h_live b \<Longrightarrow> (a :: heap) = b"
  by simp

lemma malloc_live: "malloc h = (ok, h') \<Longrightarrow> h_live h' = h_live h + (if ok then 1 else 0)"
  by (auto simp: malloc_def split: list.splits)

lemma z_obj_str_live: "z_obj_str s h = (x, h') \<Longrightarrow> h_live h' = h_live h + blocks x \<and> tidy x"
  by (auto simp: z_obj_str_def z_obj_none_def dest!: malloc_live split: prod.splits if_splits)

lemma z_obj_blob_live: "z_obj_blob d h = (x, h') \<Longrightarrow> h_live h' = h_live h + blocks x \<and> tidy x"
  by (auto simp: z_obj_blob_def z_obj_none_def free_one_def dest!: malloc_live split: prod.splits if_splits)

lemma blocks_replicate: "sum_list (map blocks (replicate n Z_NONE)) = 0"
  by (induction n) simp_all

lemma sum_zeros: "sum_list (replicate n (0 :: int)) = 0"
  by (induction n) simp_all

lemma calloc_live:
  "calloc len h = (a, h') \<Longrightarrow> h_live h' = h_live h + (case a of None \<Rightarrow> 0 | Some xs \<Rightarrow> 1 + sum_list (map blocks xs)) \<and>
    (\<forall>xs. a = Some xs \<longrightarrow> xs = replicate (unat len) Z_NONE)"
  by (auto simp: calloc_def blocks_replicate sum_zeros dest!: malloc_live split: prod.splits if_splits)

lemma z_obj_list_live:
  assumes "z_obj_list len h = Some (x, h')"
  obtains a where "x = Z_LIST (Some (Table len a None))" "h_live h' = h_live h + blocks x"
    "\<And>xs. a = Some xs \<Longrightarrow> xs = replicate (unat len) Z_NONE"
  using assms
  by (fastforce simp: z_obj_list_def dest!: malloc_live calloc_live split: prod.splits if_splits)

lemma z_obj_map_live:
  assumes "z_obj_map len h = Some (x, h')"
  obtains a b where "x = Z_MAP (Some (Table len a b))" "h_live h' = h_live h + blocks x"
    "\<And>xs. a = Some xs \<Longrightarrow> xs = replicate (unat len) Z_NONE" "\<And>xs. b = Some xs \<Longrightarrow> xs = replicate (unat len) Z_NONE"
  using assms
  by (fastforce simp: z_obj_map_def dest!: malloc_live calloc_live split: prod.splits if_splits)

text \<open>The source of a copy has its arrays as long as its lengths say.\<close>

fun sized :: "'f zval \<Rightarrow> bool" and sized_table :: "'f ztable \<Rightarrow> bool" where
  "sized (Z_LIST (Some t)) = sized_table t"
| "sized (Z_MAP (Some t)) = sized_table t"
| "sized _ = True"
| "sized_table (Table len a b) \<longleftrightarrow>
     (\<forall>xs. a = Some xs \<longrightarrow> unat len = length xs \<and> (\<forall>x \<in> set xs. sized x)) \<and>
     (\<forall>ys. b = Some ys \<longrightarrow> unat len = length ys \<and> (\<forall>y \<in> set ys. sized y))"

lemma z_obj_copy_live:
  fixes x y :: "'f zval" and xs ys ks vs us ws :: "'f zval list"
  shows "z_obj_copy x h = Some (y, h') \<Longrightarrow> sized x \<Longrightarrow> h_live h' = h_live h + blocks y \<and> tidy y"
  "copy_items xs h = Some (ys, h') \<Longrightarrow> \<forall>x \<in> set xs. sized x \<Longrightarrow>
     h_live h' = h_live h + sum_list (map blocks ys) \<and> (\<forall>y \<in> set ys. tidy y) \<and> length ys = length xs"
  "copy_pairs ks vs h = Some ((us, ws), h') \<Longrightarrow> \<forall>x \<in> set ks \<union> set vs. sized x \<Longrightarrow> length ks = length vs \<Longrightarrow>
     h_live h' = h_live h + sum_list (map blocks us) + sum_list (map blocks ws) \<and> (\<forall>y \<in> set us \<union> set ws. tidy y) \<and>
     length us = length ks \<and> length ws = length vs"
proof (induction x h and xs h and ks vs h arbitrary: y h' and ys h' and us ws h'
    rule: z_obj_copy_copy_items_copy_pairs.induct)
  case (1 s h)
  then show ?case by (auto dest: z_obj_str_live)
next
  case (2 d h)
  then show ?case by (auto simp: z_obj_none_def dest: z_obj_blob_live split: option.splits)
next
  case (4 len a b h)
  obtain l :: "'f zval" and h1 where l: "z_obj_list len h = Some (l, h1)" using 4(2) by (cases "z_obj_list len h :: ('f zval \<times> heap) option") auto
  then obtain a' where a': "l = Z_LIST (Some (Table len a' None))" "h_live h1 = h_live h + blocks l"
    "\<And>xs. a' = Some xs \<Longrightarrow> xs = replicate (unat len) Z_NONE" by (rule z_obj_list_live) blast
  show ?case
  proof (cases "len = 0")
    case True
    then show ?thesis using 4(2) l a' by (auto split: option.splits)
  next
    case False
    then obtain xs ys zs where e: "a = Some xs" "a' = Some zs" "copy_items xs h1 = Some (ys, h')"
        "y = Z_LIST (Some (Table len (Some ys) None))"
      using 4(2) l a'(1) by (auto split: option.splits)
    have "\<forall>x \<in> set xs. sized x" "unat len = length xs" using 4(3) e(1) by auto
    with 4(1) [OF l refl a'(1) refl refl False refl e(1,2,3)] have "h_live h' = h_live h1 + sum_list (map blocks ys) \<and> (\<forall>y \<in> set ys. tidy y) \<and> length ys = length xs"
      by simp
    then show ?thesis using e a' \<open>unat len = length xs\<close> by (simp add: blocks_replicate sum_zeros)
  qed
next
  case (6 len a b h)
  obtain l :: "'f zval" and h1 where l: "z_obj_map len h = Some (l, h1)" using 6(2) by (cases "z_obj_map len h :: ('f zval \<times> heap) option") auto
  then obtain a' b' where a': "l = Z_MAP (Some (Table len a' b'))" "h_live h1 = h_live h + blocks l"
    "\<And>xs. a' = Some xs \<Longrightarrow> xs = replicate (unat len) Z_NONE" "\<And>xs. b' = Some xs \<Longrightarrow> xs = replicate (unat len) Z_NONE"
    by (rule z_obj_map_live) blast
  show ?case
  proof (cases "len = 0")
    case True
    then show ?thesis using 6(2) l a' by (auto split: option.splits)
  next
    case False
    then obtain ks vs us ws zs zs' where e: "a = Some ks" "b = Some vs" "a' = Some zs" "b' = Some zs'"
        "copy_pairs ks vs h1 = Some ((us, ws), h')" "y = Z_MAP (Some (Table len (Some us) (Some ws)))"
      using 6(2) l a'(1) by (auto split: option.splits)
    have s: "\<forall>x \<in> set ks \<union> set vs. sized x" "unat len = length ks" "length ks = length vs" using 6(3) e(1,2) by auto
    with 6(1) [OF l refl a'(1) refl refl False refl e(1) refl e(2) refl e(3,4,5)] have
      "h_live h' = h_live h1 + sum_list (map blocks us) + sum_list (map blocks ws) \<and> (\<forall>y \<in> set us \<union> set ws. tidy y) \<and>
       length us = length ks \<and> length ws = length vs" by simp
    then show ?thesis using e a' s by (simp add: blocks_replicate sum_zeros)
  qed
next
  case (9 x xs h)
  obtain y0 h1 ys0 where e: "z_obj_copy x h = Some (y0, h1)" "copy_items xs h1 = Some (ys0, h')" "ys = y0 # ys0"
    using 9(3) by (auto simp: bind_eq_Some_conv)
  have "h_live h1 = h_live h + blocks y0 \<and> tidy y0" using 9(1) [OF e(1)] 9(4) by simp
  moreover have "h_live h' = h_live h1 + sum_list (map blocks ys0) \<and> (\<forall>y \<in> set ys0. tidy y) \<and> length ys0 = length xs"
    using 9(2) [OF e(1) refl e(2)] 9(4) by simp
  ultimately show ?case using e(3) by simp
next
  case (10 x xs y ys h)
  obtain u0 h1 v0 h2 us0 ws0 where e: "z_obj_copy x h = Some (u0, h1)" "z_obj_copy y h1 = Some (v0, h2)"
      "copy_pairs xs ys h2 = Some ((us0, ws0), h')" "us = u0 # us0" "ws = v0 # ws0"
    using 10(4) by (auto simp: bind_eq_Some_conv)
  have "h_live h1 = h_live h + blocks u0 \<and> tidy u0" using 10(1) [OF e(1)] 10(5) by simp
  moreover have "h_live h2 = h_live h1 + blocks v0 \<and> tidy v0" using 10(2) [OF e(1) refl e(2)] 10(5) by simp
  moreover have "h_live h' = h_live h2 + sum_list (map blocks us0) + sum_list (map blocks ws0) \<and>
      (\<forall>y \<in> set us0 \<union> set ws0. tidy y) \<and> length us0 = length xs \<and> length ws0 = length ys"
    using 10(3) [OF e(1) refl e(2) refl e(3)] 10(5,6) by simp
  ultimately show ?case using e(4,5) by auto
qed (simp_all add: z_obj_none_def)

lemma free_array_live: "free_array arr h = h\<lparr>h_live := h_live h - array_block arr\<rparr>"
  by (cases arr) (simp_all add: free_array_def free_one_def array_block_def)

lemma z_obj_free_live:
  fixes x :: "'f zval" and xs ks vs :: "'f zval list"
  shows "tidy x \<Longrightarrow> z_obj_free x h = Some (h\<lparr>h_live := h_live h - blocks x\<rparr>)"
    "\<forall>x \<in> set xs. tidy x \<Longrightarrow> free_items xs h = Some (h\<lparr>h_live := h_live h - sum_list (map blocks xs)\<rparr>)"
    "\<forall>x \<in> set ks \<union> set vs. tidy x \<Longrightarrow> length ks = length vs \<Longrightarrow>
       free_pairs ks vs h = Some (h\<lparr>h_live := h_live h - sum_list (map blocks ks) - sum_list (map blocks vs)\<rparr>)"
proof (induction x h and xs h and ks vs h rule: z_obj_free_free_items_free_pairs.induct)
  case (3 len a b h)
  then show ?case by (cases a) (simp_all add: free_array_live array_block_def free_one_def)
next
  case (4 len a b h)
  show ?case
  proof (cases "a = None \<or> b = None")
    case True
    then show ?thesis using 4 by (cases a; cases b) (auto simp: free_array_live array_block_def free_one_def)
  next
    case False
    then obtain ks vs where e: "a = Some ks" "b = Some vs" by auto
    with 4(3) have "\<forall>x \<in> set ks \<union> set vs. tidy x" "length ks = length vs" by auto
    from 4(2) [OF e this] e show ?thesis by (simp add: free_array_live array_block_def free_one_def)
  qed
qed (simp_all add: free_one_def)

section \<open>Copies\<close>

text \<open>
  C21: Whatever allocations fail on the way, a copy that is returned owns every block that was taken for it and no other: after
  the copy the heap has the blocks of the copy more, and freeing the copy gives all of them back.
\<close>

theorem zobj_copy_owns:
  assumes "sized x" "z_obj_copy x h = Some (y, h')"
  shows "h_live h' = h_live h + blocks y \<and>
    (\<exists>h''. z_obj_free y h' = Some h'' \<and> h_live h'' = h_live h)"
  using z_obj_copy_live(1) [OF assms(2,1)] z_obj_free_live(1) [of y h'] by simp

definition sample :: "nat zval" where
  "sample = Z_MAP (Some (Table 2 (Some [Z_STR (Some [97]), Z_NONE])
     (Some [Z_LIST (Some (Table 2 (Some [Z_BLOB (Some [1, 2]), Z_STR (Some [98])]) None)), Z_NONE])))"

text \<open>The seventh allocation, which is the data of the blob, fails: the copy has an empty place there.\<close>

theorem zobj_copy_owns_witness:
  "\<exists>y h'. z_obj_copy sample \<lparr>h_fate = [True, True, True, True, True, True, True, False], h_live = 5\<rparr> = Some (y, h') \<and>
     h_live h' = 12 \<and> h_live h' = 5 + blocks y"
proof -
  let ?h = "\<lparr>h_fate = [True, True, True, True, True, True, True, False], h_live = 5\<rparr>"
  define y where "y = fst (the (z_obj_copy sample ?h))"
  define h' where "h' = snd (the (z_obj_copy sample ?h))"
  have c: "z_obj_copy sample ?h = Some (y, h')" "h_live h' = 12"
    unfolding y_def h'_def
    by (simp_all add: sample_def z_obj_map_def z_obj_list_def calloc_def malloc_def z_obj_str_def z_obj_blob_def z_obj_none_def
        free_one_def)
  have "sized sample" by (simp add: sample_def)
  from zobj_copy_owns [OF this c(1)] c show ?thesis by auto
qed

section \<open>A map object is a map\<close>

text \<open>Objects without null pointers.\<close>

fun whole :: "'f zval \<Rightarrow> bool" where
  "whole (Z_STR s) \<longleftrightarrow> s \<noteq> None"
| "whole (Z_BLOB d) \<longleftrightarrow> d \<noteq> None"
| "whole (Z_LIST (Some (Table len (Some xs) None))) \<longleftrightarrow> unat len = length xs \<and> (\<forall>x \<in> set xs. whole x)"
| "whole (Z_MAP (Some (Table len (Some ks) (Some vs)))) \<longleftrightarrow>
     unat len = length ks \<and> length ks = length vs \<and> (\<forall>x \<in> set ks. whole x) \<and> (\<forall>x \<in> set vs. whole x)"
| "whole (Z_LIST _) \<longleftrightarrow> False"
| "whole (Z_MAP _) \<longleftrightarrow> False"
| "whole _ \<longleftrightarrow> True"

lemma whole_tidy: "whole x \<Longrightarrow> tidy x"
  by (induction x rule: whole.induct) auto

text \<open>As long as memory lasts, a copy is the object itself.\<close>

lemma malloc_ok: "h_fate h = [] \<Longrightarrow> malloc h = (True, h\<lparr>h_live := h_live h + 1\<rparr>)"
  by (simp add: malloc_def)

lemma z_obj_copy_whole:
  fixes x :: "'f zval" and xs ks vs :: "'f zval list"
  shows "whole x \<Longrightarrow> h_fate h = [] \<Longrightarrow> \<exists>h'. z_obj_copy x h = Some (x, h') \<and> h_fate h' = []"
    "\<forall>x \<in> set xs. whole x \<Longrightarrow> h_fate h = [] \<Longrightarrow> \<exists>h'. copy_items xs h = Some (xs, h') \<and> h_fate h' = []"
    "\<forall>x \<in> set ks \<union> set vs. whole x \<Longrightarrow> length ks = length vs \<Longrightarrow> h_fate h = [] \<Longrightarrow>
       \<exists>h'. copy_pairs ks vs h = Some ((ks, vs), h') \<and> h_fate h' = []"
proof (induction x h and xs h and ks vs h rule: z_obj_copy_copy_items_copy_pairs.induct)
  case (1 s h)
  then show ?case by (auto simp: z_obj_str_def malloc_ok)
next
  case (2 d h)
  then show ?case by (auto simp: z_obj_blob_def malloc_ok)
next
  case (4 len a b h)
  obtain xs where e: "a = Some xs" "b = None" "unat len = length xs" "\<forall>x \<in> set xs. whole x"
    using 4(2) by (cases a; cases b) auto
  obtain h1 where l: "z_obj_list len h = Some (Z_LIST (Some (Table len (Some (replicate (unat len) Z_NONE)) None)) :: 'f zval, h1)"
      "h_fate h1 = []"
    using 4(3) by (simp add: z_obj_list_def calloc_def malloc_ok)
  show ?case
  proof (cases "len = 0")
    case True
    then show ?thesis using l e by simp
  next
    case False
    from 4(1) [OF l(1) refl refl refl refl False refl e(1) refl e(4) l(2)] False l(1) e show ?thesis by auto
  qed
next
  case (6 len a b h)
  obtain ks vs where e: "a = Some ks" "b = Some vs" "unat len = length ks" "length ks = length vs"
      "\<forall>x \<in> set ks \<union> set vs. whole x"
    using 6(2) by (cases a; cases b) auto
  obtain h1 where l: "z_obj_map len h = Some (Z_MAP (Some (Table len (Some (replicate (unat len) Z_NONE))
        (Some (replicate (unat len) Z_NONE)))) :: 'f zval, h1)" "h_fate h1 = []"
    using 6(3) by (simp add: z_obj_map_def calloc_def malloc_ok)
  show ?case
  proof (cases "len = 0")
    case True
    then show ?thesis using l e by simp
  next
    case False
    from 6(1) [OF l(1) refl refl refl refl False refl e(1) refl e(2) refl refl refl e(5,4) l(2)] False l(1) e
    show ?thesis by auto
  qed
next
  case (9 x xs h)
  obtain h1 where 1: "z_obj_copy x h = Some (x, h1)" "h_fate h1 = []" using 9(1,3,4) by auto
  from 9(2) [OF 1(1) refl _ 1(2)] 9(3) 1 show ?case by auto
next
  case (10 x xs y ys h)
  obtain h1 where 1: "z_obj_copy x h = Some (x, h1)" "h_fate h1 = []" using 10(1,4,6) by auto
  obtain h2 where 2: "z_obj_copy y h1 = Some (y, h2)" "h_fate h2 = []" using 10(2) [OF 1(1) refl _ 1(2)] 10(4) by auto
  from 10(3) [OF 1(1) refl 2(1) refl _ _ 2(2)] 10(4,5) 1 2 show ?case by auto
qed simp_all

definition keys_ok :: "'f zval list \<Rightarrow> bool" where
  "keys_ok ks \<longleftrightarrow> (\<forall>k \<in> set ks. k = Z_NONE \<or> (\<exists>s. k = Z_STR (Some s))) \<and> distinct (filter (\<lambda>k. k \<noteq> Z_NONE) ks)"

definition map_ok :: "'f zval \<Rightarrow> bool" where
  "map_ok m \<longleftrightarrow> whole m \<and> (\<exists>len ks vs. m = Z_MAP (Some (Table len (Some ks) (Some vs))) \<and> keys_ok ks)"

text \<open>What a map object stands for.\<close>

fun entries :: "'f zval \<Rightarrow> bytes \<Rightarrow> 'f zval option" where
  "entries (Z_MAP (Some (Table len (Some ks) (Some vs)))) key = map_option (\<lambda>i. vs ! i) (find_key key ks)"
| "entries _ key = None"

definition has_room :: "'f zval \<Rightarrow> bool" where
  "has_room m \<longleftrightarrow> (\<exists>i. z_map_get_key m i = Some (Some Z_NONE))"

lemma find_key_Some: "find_key key ks = Some i \<Longrightarrow> i < length ks \<and> ks ! i = Z_STR (Some key)"
  by (induction ks arbitrary: i) (auto split: if_splits)

lemma find_key_None: "find_key key ks = None \<longleftrightarrow> Z_STR (Some key) \<notin> set ks"
  by (induction ks) auto

lemma find_none_Some: "find_none ks = Some i \<Longrightarrow> i < length ks \<and> ks ! i = Z_NONE"
  by (induction ks arbitrary: i) (auto split: if_splits)

lemma find_none_None: "find_none ks = None \<longleftrightarrow> Z_NONE \<notin> set ks"
  by (induction ks) auto

lemma find_key_update:
  "i < length ks \<Longrightarrow> ks ! i = Z_NONE \<Longrightarrow> find_key key ks = None \<Longrightarrow>
   find_key k (ks[i := Z_STR (Some key)]) = (if k = key then Some i else find_key k ks)"
proof (induction ks arbitrary: i)
  case (Cons x xs)
  then show ?case by (cases i) (auto split: if_splits)
qed simp

lemma keys_ok_update:
  assumes "keys_ok ks" "i < length ks" "ks ! i = Z_NONE" "find_key key ks = None"
  shows "keys_ok (ks[i := Z_STR (Some key)])"
proof -
  have split: "ks = take i ks @ Z_NONE # drop (Suc i) ks" using assms(2,3) by (metis id_take_nth_drop)
  have "ks[i := Z_STR (Some key)] = take i ks @ Z_STR (Some key) # drop (Suc i) ks"
    using assms(2) by (simp add: upd_conv_take_nth_drop)
  moreover have "Z_STR (Some key) \<notin> set (take i ks @ drop (Suc i) ks)"
    using assms(4) by (auto simp: find_key_None dest: in_set_takeD in_set_dropD)
  moreover have "distinct (filter (\<lambda>k. k \<noteq> Z_NONE) (take i ks @ drop (Suc i) ks))"
    using assms(1) by (subst (asm) keys_ok_def, subst (asm) (2) split) simp
  moreover have "\<forall>k \<in> set (take i ks @ drop (Suc i) ks). k = Z_NONE \<or> (\<exists>s. k = Z_STR (Some s))"
    using assms(1) by (auto simp: keys_ok_def dest: in_set_takeD in_set_dropD)
  ultimately show ?thesis by (auto simp: keys_ok_def)
qed

lemma has_room_iff:
  assumes "map_ok m" "m = Z_MAP (Some (Table len (Some ks) (Some vs)))"
  shows "has_room m \<longleftrightarrow> find_none ks \<noteq> None"
proof -
  have len: "unat len = length ks" using assms by (simp add: map_ok_def)
  show ?thesis
  proof
    assume "has_room m"
    then obtain i where "i < len" "ks ! unat i = Z_NONE" 
      unfolding assms(2) has_room_def by (auto simp: elem_def not_le split: if_splits)
    then have "unat i < length ks" using len by (simp add: word_less_nat_alt)
    with \<open>ks ! unat i = Z_NONE\<close> show "find_none ks \<noteq> None" by (metis find_none_None nth_mem)
  next
    assume "find_none ks \<noteq> None"
    then obtain i where i: "i < length ks" "ks ! i = Z_NONE" using find_none_Some by blast
    have u: "unat (of_nat i :: u32) = i" using i(1) len by (simp add: unat_of_nat order.strict_trans [OF _ unat_lt_32 [of len]])
    then have "\<not> of_nat i \<ge> len" using i(1) len by (simp add: word_le_nat_alt)
    then have "z_map_get_key m (of_nat i) = Some (Some Z_NONE)" using i(2) u unfolding assms(2) by (simp add: elem_def)
    then show "has_room m" unfolding has_room_def by blast
  qed
qed

text \<open>Looking up in a map that holds its invariant, and setting a key that is there, a key for which there is room, and one for which there is none.\<close>

lemma z_map_find_entries:
  assumes "map_ok m"
  shows "case z_map_find m (Some k) of
       None \<Rightarrow> False
     | Some None \<Rightarrow> entries m k = None
     | Some (Some i) \<Rightarrow> z_map_get_val m (of_nat i) = Some (entries m k)"
proof -
  obtain n us ws where m: "m = Z_MAP (Some (Table n (Some us) (Some ws)))" "unat n = length us" "length us = length ws"
    using assms by (auto simp: map_ok_def)
  show ?thesis
  proof (cases "find_key k us")
    case None
    then show ?thesis using m by simp
  next
    case (Some i)
    then have i: "i < length us" using find_key_Some by blast
    then have u: "unat (of_nat i :: u32) = i" using m(2) by (simp add: unat_of_nat order.strict_trans [OF _ unat_lt_32 [of n]])
    moreover have "n \<noteq> 0" using i m(2) by auto
    moreover have "\<not> of_nat i \<ge> n" using i m(2) u by (simp add: word_le_nat_alt)
    ultimately show ?thesis using Some m(1) by (simp add: elem_def)
  qed
qed

lemma z_map_set_known:
  assumes ok: "map_ok m" and v: "whole v" "h_fate h = []" and m: "m = Z_MAP (Some (Table len (Some ks) (Some vs)))" and k: "find_key key ks = Some i"
    and al: "src \<noteq> Some i \<or> \<not> points v"
  shows "\<exists>m' h'. z_map_set src m (Some key) v h = Some (True, m', h') \<and> map_ok m' \<and> entries m' = (entries m)(key \<mapsto> v)"
proof -
  have w: "keys_ok ks" "unat len = length ks" "length ks = length vs" "\<forall>x \<in> set ks. whole x" "\<forall>x \<in> set vs. whole x"
    using ok by (simp_all add: map_ok_def m)
  have i: "i < length ks" "ks ! i = Z_STR (Some key)" using k find_key_Some by blast+
  then have len: "len \<noteq> 0" using w(2) by auto
  have "tidy (vs ! i)" using w i(1) whole_tidy by (metis nth_mem)
  then obtain h1 where f: "z_obj_free (vs ! i) h = Some h1" "h_fate h1 = []" using z_obj_free_live(1) v(2) by fastforce
  obtain h2 where c: "z_obj_copy v h1 = Some (v, h2)" using z_obj_copy_whole(1) [OF v(1) f(2)] by blast
  let ?m = "Z_MAP (Some (Table len (Some ks) (Some (vs[i := v]))))"
  have "find_key l ks = Some i \<longleftrightarrow> l = key" for l using k find_key_Some [of l ks i] i(2) by auto
  moreover have "vs[i := v] ! j = vs ! j" if "find_key l ks = Some j" "l \<noteq> key" for j l
    using that i(2) find_key_Some [OF that(1)] by (metis nth_list_update_neq option.inject zval.inject(5))
  ultimately have "entries ?m = (entries m)(key \<mapsto> v)" using i(1) w(3)
    by (intro ext) (auto simp: m k intro!: option.map_cong0)
  moreover have "map_ok ?m" using w v(1) set_update_subset_insert [of vs i v] by (auto simp: map_ok_def)
  ultimately show ?thesis using len k f c al by (auto simp: m)
qed

lemma z_map_set_new:
  assumes ok: "map_ok m" and v: "whole v" "h_fate h = []" and m: "m = Z_MAP (Some (Table len (Some ks) (Some vs)))"
    and k: "find_key key ks = None" and n: "find_none ks = Some i"
  shows "\<exists>m' h'. z_map_set src m (Some key) v h = Some (True, m', h') \<and> map_ok m' \<and> entries m' = (entries m)(key \<mapsto> v)"
proof -
  have w: "keys_ok ks" "unat len = length ks" "length ks = length vs" "\<forall>x \<in> set ks. whole x" "\<forall>x \<in> set vs. whole x"
    using ok by (simp_all add: map_ok_def m)
  have i: "i < length ks" "ks ! i = Z_NONE" using n find_none_Some by blast+
  then have len: "len \<noteq> 0" using w(2) by auto
  obtain h2 where c: "z_obj_copy v (h\<lparr>h_live := h_live h + 1\<rparr>) = Some (v, h2)"
    using z_obj_copy_whole(1) [OF v(1), of "h\<lparr>h_live := h_live h + 1\<rparr>"] v(2) by auto
  let ?m = "Z_MAP (Some (Table len (Some (ks[i := Z_STR (Some key)])) (Some (vs[i := v]))))"
  have "vs[i := v] ! j = vs ! j" if "find_key l ks = Some j" for j l
    using i(2) find_key_Some [OF that] by (cases "i = j") auto
  then have "entries ?m = (entries m)(key \<mapsto> v)" using i(1) w(3)
    by (intro ext) (auto simp: m find_key_update [OF i k] intro!: option.map_cong0)
  moreover have "map_ok ?m" using w keys_ok_update [OF w(1) i k] v(1)
      set_update_subset_insert [of vs i v] set_update_subset_insert [of ks i "Z_STR (Some key)"]
    by (auto simp: map_ok_def)
  ultimately show ?thesis using len k n c malloc_ok [OF v(2)] by (simp add: m z_obj_str_def)
qed

lemma z_map_set_full:
  assumes "map_ok m" "m = Z_MAP (Some (Table len (Some ks) (Some vs)))" "find_key key ks = None" "find_none ks = None"
  shows "z_map_set src m (Some key) v h = Some (False, m, h)"
  using assms by (simp add: map_ok_def)

lemma z_map_set_alias:
  assumes ok: "map_ok m" and m: "m = Z_MAP (Some (Table len (Some ks) (Some vs)))" and k: "find_key key ks = Some i" and al: "points v"
  shows "z_map_set (Some i) m (Some key) v h = None"
proof -
  have "unat len = length ks" using ok by (simp add: map_ok_def m)
  then have "len \<noteq> 0" using find_key_Some [OF k] by auto
  then show ?thesis using k al by (simp add: m)
qed


definition empty_map :: "nat zval" where
  "empty_map = Z_MAP (Some (Table 2 (Some [Z_NONE, Z_NONE]) (Some [Z_NONE, Z_NONE])))"


end
