(* ===== verification/Line.thy ===== *)
theory Line
  imports Vt100
begin

text \<open>
  Line editing for byte streams (\<open>src/sw/common/zline.c\<close>) and key codes (\<open>src/sw/common/zkbd.c\<close>): what a
  provider echoes for each byte, the line it collects, and how the two appear on the terminal of
  \<open>Vt100\<close>.
\<close>

section \<open>The line buffer\<close>

abbreviation Z_LINE_MAX :: nat where "Z_LINE_MAX \<equiv> 128"

record z_line =
  ln_buf :: "u8 list"
  ln_len :: nat
  ln_had_cr :: bool

definition z_line_reset :: "z_line \<Rightarrow> z_line" where
  "z_line_reset l = l\<lparr>ln_len := 0, ln_buf := (ln_buf l)[0 := 0], ln_had_cr := False\<rparr>"

text \<open>Whether the line is complete, the line, and the bytes to echo.\<close>

definition z_line_feed :: "u8 \<Rightarrow> nat \<Rightarrow> z_line \<Rightarrow> bool \<times> z_line \<times> u8 list" where
  "z_line_feed byte echo_cap l =
     (if byte = 0x0D then
        (True, l\<lparr>ln_buf := (ln_buf l)[ln_len l := 0], ln_had_cr := True\<rparr>, if echo_cap \<ge> 2 then [0x0D, 0x0A] else [])
      else if byte = 0x0A then
        (if ln_had_cr l then (False, l\<lparr>ln_had_cr := False\<rparr>, [])
         else (True, l\<lparr>ln_buf := (ln_buf l)[ln_len l := 0]\<rparr>, if echo_cap \<ge> 2 then [0x0D, 0x0A] else []))
      else
        let l = l\<lparr>ln_had_cr := False\<rparr> in
        if byte = 0x7F \<or> byte = 0x08 then
          (if ln_len l > 0
           then (False, l\<lparr>ln_len := ln_len l - 1\<rparr>, if echo_cap \<ge> 3 then [0x08, 0x20, 0x08] else [])
           else (False, l, []))
        else if byte < 0x20 \<or> byte \<ge> 0x7F then (False, l, [])
        else if ln_len l \<ge> Z_LINE_MAX then (False, l, [])
        else (False, l\<lparr>ln_buf := (ln_buf l)[ln_len l := byte], ln_len := ln_len l + 1\<rparr>,
              if echo_cap \<ge> 1 then [byte] else []))"

definition line_text :: "z_line \<Rightarrow> u8 list" where
  "line_text l = take (ln_len l) (ln_buf l)"

definition line_ok :: "z_line \<Rightarrow> bool" where
  "line_ok l \<longleftrightarrow> length (ln_buf l) = Z_LINE_MAX + 1 \<and> ln_len l \<le> Z_LINE_MAX"

text \<open>Editing as the user sees it.\<close>

definition edit :: "u8 \<Rightarrow> u8 list \<Rightarrow> u8 list" where
  "edit b s =
     (if b = 0x7F \<or> b = 0x08 then butlast s
      else if 0x20 \<le> b \<and> b < 0x7F \<and> length s < Z_LINE_MAX then s @ [b]
      else s)"

text \<open>The C string in the buffer.\<close>

definition c_string :: "u8 list \<Rightarrow> u8 list" where "c_string xs = takeWhile (\<lambda>b. b \<noteq> 0) xs"

lemma c_string_stop: "0 \<notin> set xs \<Longrightarrow> c_string (xs @ 0 # ys) = xs"
  by (induction xs) (auto simp: c_string_def)

lemma edit_no_zero: "0 \<notin> set s \<Longrightarrow> 0 \<notin> set (edit b s)"
proof (cases "b = 0")
  case True
  then show "0 \<notin> set s \<Longrightarrow> ?thesis" by (simp add: edit_def)
next
  case False
  then show "0 \<notin> set s \<Longrightarrow> ?thesis" by (simp add: edit_def) (blast dest: in_set_butlastD)
qed

lemma line_reset_text: "line_ok l \<Longrightarrow> line_ok (z_line_reset l) \<and> line_text (z_line_reset l) = []"
  by (simp add: line_ok_def line_text_def z_line_reset_def)

lemma z_line_feed_edits:
  assumes "line_ok l" "b \<noteq> 0x0D" "b \<noteq> 0x0A" "z_line_feed b cap l = (complete, l', echo)" "cap \<ge> 3"
  shows "\<not> complete \<and> line_ok l' \<and> line_text l' = edit b (line_text l) \<and> length (line_text l') = ln_len l' \<and>
    echo = (if b = 0x7F \<or> b = 0x08 then (if line_text l = [] then [] else [0x08, 0x20, 0x08])
            else if 0x20 \<le> b \<and> b < 0x7F \<and> length (line_text l) < Z_LINE_MAX then [b] else [])"
proof -
  have len: "length (line_text l) = ln_len l" "ln_len l < length (ln_buf l)" using assms(1) by (simp_all add: line_text_def line_ok_def)
  have bl: "butlast (line_text l) = take (ln_len l - 1) (ln_buf l)"
    using len by (simp add: line_text_def butlast_take)
  have app: "take (Suc n) (xs[n := b]) = take n xs @ [b]" if "n < length xs" for n and xs :: "u8 list"
    using that by (simp add: take_Suc_conv_app_nth)
  have nil: "line_text l = [] \<longleftrightarrow> ln_len l = 0" using len by auto
  let ?l = "l\<lparr>ln_had_cr := False\<rparr>"
  consider (erase) "b = 0x7F \<or> b = 0x08" | (char) "b \<noteq> 0x7F \<and> b \<noteq> 0x08" "0x20 \<le> b" "b < 0x7F" "ln_len l < Z_LINE_MAX"
    | (drop) "b \<noteq> 0x7F \<and> b \<noteq> 0x08" "\<not> (0x20 \<le> b \<and> b < 0x7F \<and> ln_len l < Z_LINE_MAX)"
    by blast
  then show ?thesis
  proof cases
    case erase
    then have "z_line_feed b cap l
        = (if ln_len l > 0 then (False, ?l\<lparr>ln_len := ln_len l - 1\<rparr>, [0x08, 0x20, 0x08]) else (False, ?l, []))"
      using assms(2,3,5) by (simp add: z_line_feed_def)
    then show ?thesis
      using assms(1,4) erase len bl nil by (cases "ln_len l = 0") (auto simp: edit_def line_ok_def line_text_def)
  next
    case char
    then have "\<not> b < 0x20" "\<not> 0x7F \<le> b" "\<not> Z_LINE_MAX \<le> ln_len l" by (simp_all only: not_less not_le)
    with char(1) have "z_line_feed b cap l = (False, ?l\<lparr>ln_buf := (ln_buf l)[ln_len l := b], ln_len := ln_len l + 1\<rparr>, [b])"
      using assms(2,3,5) by (simp add: z_line_feed_def Let_def)
    then have "l' = ?l\<lparr>ln_buf := (ln_buf l)[ln_len l := b], ln_len := ln_len l + 1\<rparr>" "echo = [b]" "\<not> complete"
      using assms(4) by simp_all
    moreover from this have "line_text l' = line_text l @ [b]" using app [OF len(2)] by (simp add: line_text_def)
    ultimately show ?thesis using char len assms(1) by (simp add: edit_def line_ok_def)
  next
    case drop
    then have "z_line_feed b cap l = (False, ?l, [])"
      using assms(2,3) by (auto simp: z_line_feed_def Let_def not_less not_le)
    then have e: "l' = ?l" "echo = []" "\<not> complete" using assms(4) by simp_all
    have "line_text ?l = line_text l" by (simp add: line_text_def)
    moreover have "\<not> (0x20 \<le> b \<and> b < 0x7F \<and> length (line_text l) < Z_LINE_MAX)" using drop(2) len(1) by simp
    ultimately show ?thesis using drop(1) e assms(1) len by (simp add: edit_def line_ok_def)
  qed
qed

section \<open>The line on the terminal\<close>

text \<open>A provider and a terminal connected to it: each byte goes through the line, its echo to the screen.\<close>

fun type_line :: "u8 list \<Rightarrow> z_line \<times> vt_screen \<Rightarrow> (z_line \<times> vt_screen) option" where
  "type_line [] s = Some s"
| "type_line (b # bs) (l, vt) =
     (case z_line_feed b 4 l of (_, l, echo) \<Rightarrow> Option.bind (vt_feed echo vt) (\<lambda>vt. type_line bs (l, vt)))"

lemma line_cell_blank: "line_cell 0 (s @ [0x20]) = line_cell 0 s"
  by (intro ext) (auto simp: line_cell_def Let_def nth_append blank_def not_less le_eq_less_or_eq)

lemma typed_erase:
  assumes "typed 0 (Suc x) (s @ [b]) vt"
  shows "\<exists>vt'. vt_feed [0x08, 0x20, 0x08] vt = Some vt' \<and> typed 0 x s vt'"
proof -
  have vt: "vt_ok vt" "vt_pst vt = VT_PSTATE_NORMAL" "vt_cursor_x vt = int (Suc x)" "Suc x \<le> 80" "length s = x"
    using assms by (simp_all add: typed_def)
  let ?vt = "vt\<lparr>vt_cursor_x := int x\<rparr>"
  have one: "vt_feed_byte 0x08 vt = Some ?vt" using vt by (simp add: vt_feed_byte_def feed_normal_def)
  have "line_cell 0 (s @ [b]) r c = line_cell 0 s r c" if "(r, c) \<noteq> (0, x)" "c < 80" for r c
  proof -
    have "r * 80 + c \<noteq> x" using that vt(4) by (cases r) auto
    then show ?thesis using vt(5) by (simp add: line_cell_def Let_def nth_append)
  qed
  then have "typed_but_cursor 0 x s ?vt"
    using assms by (simp add: typed_def typed_but_cursor_def vt_ok_def vt_shape_def cursor_ok_def)
  then obtain vt2 where 2: "put_char 0x20 ?vt = Some vt2" "typed 0 (x + 1) (s @ [0x20]) vt2"
    using typed_over [where b = "0x20" and q = 0 and x = x and s = s and vt = ?vt] vt(4) by auto
  have "vt_feed_byte 0x20 ?vt = Some vt2" using 2(1) vt(2) by (simp add: vt_feed_byte_def feed_normal_def)
  moreover have "vt_feed_byte 0x08 vt2 = Some (vt2\<lparr>vt_cursor_x := int x\<rparr>)"
    using 2(2) by (simp add: vt_feed_byte_def feed_normal_def typed_def)
  moreover have "typed 0 x s (vt2\<lparr>vt_cursor_x := int x\<rparr>)"
    using 2(2) vt(4) by (simp add: typed_def line_cell_blank vt_ok_def vt_shape_def cursor_ok_def)
  ultimately show ?thesis using one by simp
qed

lemma type_line_shows:
  "line_ok l \<Longrightarrow> typed 0 (ln_len l) (line_text l) vt \<Longrightarrow>
   \<forall>b \<in> set bs. b \<noteq> 0x0D \<and> b \<noteq> 0x0A \<Longrightarrow> \<forall>n \<le> length bs. length (fold edit (take n bs) (line_text l)) \<le> 80 \<Longrightarrow>
   \<exists>l' vt'. type_line bs (l, vt) = Some (l', vt') \<and> line_ok l' \<and> line_text l' = fold edit bs (line_text l) \<and>
     typed 0 (ln_len l') (line_text l') vt'"
proof (induction bs arbitrary: l vt)
  case Nil
  then show ?case by simp
next
  case (Cons b bs)
  obtain complete l1 echo where f: "z_line_feed b 4 l = (complete, l1, echo)" using prod_cases3 by blast
  have nl: "b \<noteq> 0x0D" "b \<noteq> 0x0A" using Cons.prems(3) by simp_all
  have "(3 :: nat) \<le> 4" by simp
  from z_line_feed_edits [OF Cons.prems(1) nl f this]
  have l1: "line_ok l1" "line_text l1 = edit b (line_text l)" "length (line_text l1) = ln_len l1"
    and echo: "echo = (if b = 0x7F \<or> b = 0x08 then (if line_text l = [] then [] else [0x08, 0x20, 0x08])
      else if 0x20 \<le> b \<and> b < 0x7F \<and> length (line_text l) < Z_LINE_MAX then [b] else [])" by blast+
  have len: "ln_len l = length (line_text l)" using Cons.prems(1) by (simp add: line_text_def line_ok_def)
  have short: "length (edit b (line_text l)) \<le> 80"
    using Cons.prems(4)[rule_format, of 1] by simp
  have "\<exists>vt1. vt_feed echo vt = Some vt1 \<and> typed 0 (ln_len l1) (line_text l1) vt1"
  proof (cases "b = 0x7F \<or> b = 0x08")
    case True
    show ?thesis
    proof (cases "line_text l" rule: rev_cases)
      case Nil
      then show ?thesis using True Cons.prems(2) l1 echo len by (auto simp: edit_def)
    next
      case (snoc ys y)
      then have "typed 0 (Suc (length ys)) (ys @ [y]) vt" using Cons.prems(2) len by simp
      from typed_erase [OF this] show ?thesis using True snoc l1 echo by (auto simp: edit_def)
    qed
  next
    case False
    show ?thesis
    proof (cases "0x20 \<le> b \<and> b < 0x7F \<and> length (line_text l) < Z_LINE_MAX")
      case True
      then have e: "edit b (line_text l) = line_text l @ [b]" using False by (simp add: edit_def)
      then have "ln_len l < 80" using short len by simp
      from typed_char [OF Cons.prems(2) this, of b]
      obtain vt1 where 1: "put_char b vt = Some vt1" "typed 0 (ln_len l + 1) (line_text l @ [b]) vt1" by blast
      have "b \<noteq> 0x1B \<and> b \<noteq> 0x0D \<and> b \<noteq> 0x0A \<and> b \<noteq> 0x08 \<and> b \<noteq> 0x09 \<and> b \<noteq> 0x07"
        using True by (auto simp: word_le_nat_alt)
      then have "vt_feed_byte b vt = put_char b vt"
        using True Cons.prems(2) by (simp add: vt_feed_byte_def feed_normal_def typed_def)
      then show ?thesis using 1 e l1 len echo True False by simp
    next
      case n: False
      then have "edit b (line_text l) = line_text l" using False by (auto simp: edit_def)
      then show ?thesis using n False Cons.prems(2) l1 echo len by auto
    qed
  qed
  then obtain vt1 where 1: "vt_feed echo vt = Some vt1" "typed 0 (ln_len l1) (line_text l1) vt1" by blast
  have "\<forall>n \<le> length bs. length (fold edit (take n bs) (line_text l1)) \<le> 80"
    using Cons.prems(4) l1(2) by (metis Suc_le_mono fold_simps(2) length_Cons take_Suc_Cons)
  from Cons.IH [OF l1(1) 1(2) _ this] Cons.prems(3) f 1(1) l1(2) show ?case by auto
qed

text \<open>
  C22: What is typed is what is seen and what is entered. As long as the line fits the first row of a fresh terminal, after any
  sequence of characters and erasures the row shows the edited text and nothing else, the cursor stands behind it, and the
  return key completes a line whose C string is that text.
\<close>

theorem typing_shows_line:
  assumes "line_ok l" "\<forall>b \<in> set bs. b \<noteq> 0x0D \<and> b \<noteq> 0x0A" "\<forall>n \<le> length bs. length (fold edit (take n bs) []) \<le> 80"
  shows "\<exists>l' vt. type_line bs (z_line_reset l, vt_init) = Some (l', vt) \<and>
    (\<forall>c < 80. vt_cells vt ! 0 ! c =
      (if c < length (fold edit bs []) then \<lparr>vc_ch = fold edit bs [] ! c, vc_reverse = False\<rparr> else blank False)) \<and>
    vt_cursor_x vt = int (length (fold edit bs [])) \<and> vt_cursor_y vt = 0 \<and>
    (case z_line_feed 0x0D 4 l' of (complete, l'', echo) \<Rightarrow> complete \<and> c_string (ln_buf l'') = fold edit bs [])"
proof -
  have l: "line_ok (z_line_reset l)" "line_text (z_line_reset l) = []" "ln_len (z_line_reset l) = 0"
    using line_reset_text [OF assms(1)] by (simp_all add: z_line_reset_def)
  have "typed 0 0 [] vt_init" using vt_init_ok by (simp add: typed_def run_ok_def vt_init_def line_cell_def)
  then obtain l' vt where 1: "type_line bs (z_line_reset l, vt_init) = Some (l', vt)" "line_ok l'" "line_text l' = fold edit bs []"
    "typed 0 (ln_len l') (line_text l') vt"
    using type_line_shows [OF l(1), of vt_init bs] l assms(2,3) by auto
  have len: "ln_len l' = length (line_text l')" "ln_len l' < length (ln_buf l')"
    using 1(2) by (simp_all add: line_text_def line_ok_def)
  have "0 \<notin> set (fold edit bs s)" if "0 \<notin> set s" for s
    using that by (induction bs arbitrary: s) (simp_all add: edit_no_zero)
  then have "0 \<notin> set (line_text l')" using 1(3) by simp
  moreover have "(ln_buf l')[ln_len l' := 0] = line_text l' @ 0 # drop (Suc (ln_len l')) (ln_buf l')"
    using len(2) by (simp add: upd_conv_take_nth_drop line_text_def)
  ultimately have "c_string ((ln_buf l')[ln_len l' := 0]) = line_text l'" by (simp add: c_string_stop)
  then have "case z_line_feed 0x0D 4 l' of (complete, l'', echo) \<Rightarrow> complete \<and> c_string (ln_buf l'') = fold edit bs []"
    using 1(3) by (simp add: z_line_feed_def)
  moreover have "\<forall>c < 80. vt_cells vt ! 0 ! c =
      (if c < length (fold edit bs []) then \<lparr>vc_ch = fold edit bs [] ! c, vc_reverse = False\<rparr> else blank False)"
    using 1(3,4) by (simp add: typed_def line_cell_def)
  ultimately show ?thesis using 1 len by (simp add: typed_def)
qed

definition some_line :: z_line where
  "some_line = \<lparr>ln_buf = replicate 129 0, ln_len = 0, ln_had_cr = False\<rparr>"

text \<open>An \<open>l\<close>, an \<open>x\<close> that is erased, and an \<open>s\<close>.\<close>

theorem typing_shows_line_witness:
  "\<exists>l vt. type_line [0x6C, 0x78, 0x7F, 0x73] (z_line_reset some_line, vt_init) = Some (l, vt) \<and>
     vt_cells vt ! 0 ! 1 = \<lparr>vc_ch = 0x73, vc_reverse = False\<rparr> \<and> vt_cells vt ! 0 ! 2 = blank False \<and> vt_cursor_x vt = 2"
proof -
  let ?bs = "[0x6C, 0x78, 0x7F, 0x73] :: u8 list"
  have fin: "fold edit ?bs [] = [0x6C, 0x73]" by (simp add: edit_def)
  have "length (fold edit (take n ?bs) []) \<le> 80" if "n \<le> length ?bs" for n
  proof -
    have "length (edit b s) \<le> length s + 1" for b s by (simp add: edit_def le_SucI)
    then have "length (fold edit bs s) \<le> length s + length bs" for bs s
      by (induction bs arbitrary: s) (simp, fastforce intro: order_trans)
    from this [of "take n ?bs" "[]"] show ?thesis by simp
  qed
  moreover have "line_ok some_line" by (simp add: line_ok_def some_line_def)
  moreover have "\<forall>b \<in> set ?bs. b \<noteq> 0x0D \<and> b \<noteq> 0x0A" by simp
  ultimately obtain l vt where 1: "type_line ?bs (z_line_reset some_line, vt_init) = Some (l, vt)"
      "\<forall>c < 80. vt_cells vt ! 0 ! c = (if c < length [0x6C, 0x73 :: u8]
        then \<lparr>vc_ch = [0x6C, 0x73 :: u8] ! c, vc_reverse = False\<rparr> else blank False)"
      "vt_cursor_x vt = int (length [0x6C, 0x73 :: u8])"
    using typing_shows_line [of some_line ?bs] unfolding fin by blast
  from 1(2)[rule_format, of 1] 1(2)[rule_format, of 2] 1(1,3) show ?thesis by auto
qed

section \<open>Return and line feed\<close>

text \<open>The lines a provider gets that resets the buffer after each, as \<open>zline.h\<close> asks it to.\<close>

fun enter_lines :: "u8 list \<Rightarrow> z_line \<Rightarrow> u8 list list" where
  "enter_lines [] l = []"
| "enter_lines (b # bs) l =
     (case z_line_feed b 4 l of (complete, l, _) \<Rightarrow>
        if complete then c_string (ln_buf l) # enter_lines bs (z_line_reset l) else enter_lines bs l)"

text \<open>
  The reset that ends a line forgets that it ended with a return: a line that ends with return and line feed is followed by an
  empty line, although the line feed would be swallowed without the reset.
\<close>

theorem crlf_enters_twice:
  assumes "line_ok l"
  shows "enter_lines [0x0D, 0x0A] (z_line_reset l) = [[], []] \<and>
    (case z_line_feed 0x0D 4 (z_line_reset l) of (_, l', _) \<Rightarrow> \<not> fst (z_line_feed 0x0A 4 l'))"
proof -
  have "c_string ((ln_buf l)[0 := 0]) = []" using assms by (cases "ln_buf l") (simp_all add: c_string_def line_ok_def)
  then show ?thesis by (simp add: z_line_feed_def z_line_reset_def)
qed

theorem crlf_enters_twice_witness: "enter_lines [0x0D, 0x0A] (z_line_reset some_line) = [[], []]"
  using crlf_enters_twice [of some_line] by (simp add: line_ok_def some_line_def)

section \<open>Key codes\<close>

abbreviation Z_KBD_MOD_CTRL :: u8 where "Z_KBD_MOD_CTRL \<equiv> 0x11"
abbreviation Z_KBD_MOD_SHIFT :: u8 where "Z_KBD_MOD_SHIFT \<equiv> 0x22"
abbreviation Z_KEY_NONE :: u32 where "Z_KEY_NONE \<equiv> 0"

text \<open>Usage, unshifted and shifted character.\<close>

definition punct_map :: "(u8 \<times> u8 \<times> u8) list" where
  "punct_map =
     [(0x1E, 0x31, 0x21), (0x1F, 0x32, 0x40), (0x20, 0x33, 0x23), (0x21, 0x34, 0x24), (0x22, 0x35, 0x25), (0x23, 0x36, 0x5E),
      (0x24, 0x37, 0x26), (0x25, 0x38, 0x2A), (0x26, 0x39, 0x28), (0x27, 0x30, 0x29), (0x2D, 0x2D, 0x5F), (0x2E, 0x3D, 0x2B),
      (0x2F, 0x5B, 0x7B), (0x30, 0x5D, 0x7D), (0x31, 0x5C, 0x7C), (0x33, 0x3B, 0x3A), (0x34, 0x27, 0x22), (0x35, 0x60, 0x7E),
      (0x36, 0x2C, 0x3C), (0x37, 0x2E, 0x3E), (0x38, 0x2F, 0x3F)]"

definition named_keys :: "(u8 \<times> u32) list" where
  "named_keys =
     [(0x28, 0x0D), (0x29, 0x1B), (0x2A, 0x7F), (0x2B, 0x09), (0x2C, 0x20),
      (0x3A, 0x110), (0x3B, 0x111), (0x3C, 0x112), (0x3D, 0x113), (0x3E, 0x114), (0x3F, 0x115), (0x40, 0x116), (0x41, 0x117),
      (0x42, 0x118), (0x43, 0x119), (0x44, 0x11A), (0x45, 0x11B),
      (0x49, 0x108), (0x4A, 0x104), (0x4B, 0x106), (0x4C, 0x109), (0x4D, 0x105), (0x4E, 0x107),
      (0x4F, 0x103), (0x50, 0x102), (0x51, 0x101), (0x52, 0x100)]"

definition z_kbd_usage_to_keysym :: "u8 \<Rightarrow> u8 \<Rightarrow> u32" where
  "z_kbd_usage_to_keysym usage modifiers =
     (let shift = modifiers AND Z_KBD_MOD_SHIFT \<noteq> 0; ctrl = modifiers AND Z_KBD_MOD_CTRL \<noteq> 0 in
      if usage \<ge> 0x04 \<and> usage \<le> 0x1D then
        if ctrl then ucast usage - 4 + 1
        else if shift then 0x41 + (ucast usage - 4) else 0x61 + (ucast usage - 4)
      else case List.find (\<lambda>(u, _, _). u = usage) punct_map of
        Some (_, unshifted, shifted) \<Rightarrow> ucast (if shift then shifted else unshifted)
      | None \<Rightarrow>
          (case map_of named_keys usage of Some k \<Rightarrow> k | None \<Rightarrow> Z_KEY_NONE))"

text \<open>Without control, a letter key gives its letter, in capitals with shift; with control it gives the control code.\<close>

lemma letter_keys:
  assumes "n < 26"
  shows "z_kbd_usage_to_keysym (4 + of_nat n) 0 = 0x61 + of_nat n" "z_kbd_usage_to_keysym (4 + of_nat n) 0x20 = 0x41 + of_nat n"
    "z_kbd_usage_to_keysym (4 + of_nat n) 0x01 = 1 + of_nat n"
proof -
  have u: "unat (4 + of_nat n :: u8) = 4 + n" using assms by (simp add: unat_word_ariths unat_of_nat)
  then have "4 \<le> (4 + of_nat n :: u8)" "(4 + of_nat n :: u8) \<le> 29" using assms by (simp_all add: word_le_nat_alt)
  moreover have "ucast (4 + of_nat n :: u8) = (4 + of_nat n :: u32)"
    using u assms by (intro word_unat_eq_iff [THEN iffD2]) (simp add: unsigned_ucast_eq take_bit_eq_mod unat_word_ariths unat_of_nat)
  ultimately show "z_kbd_usage_to_keysym (4 + of_nat n) 0 = 0x61 + of_nat n"
    "z_kbd_usage_to_keysym (4 + of_nat n) 0x20 = 0x41 + of_nat n" "z_kbd_usage_to_keysym (4 + of_nat n) 0x01 = 1 + of_nat n"
    by (simp_all add: z_kbd_usage_to_keysym_def)
qed

end
