(* ===== verification/Port.thy ===== *)
theory Port
  imports Stream Queue
begin

text \<open>
  Ports (\<open>src/sw/common/zport.c\<close>, \<open>zport.h\<close>): connections between two processes over messages, with data
  that stays in the sender's heap until it is acknowledged; and the echo server \<open>portdemo.c\<close>. Heap and
  messages are those of \<open>Stream\<close>. What the kernel answers to a send, whether an allocation succeeds, and
  what the clock and the mailbox show are inputs.
\<close>

section \<open>Ports\<close>

abbreviation Z_PORT_CONNECT :: u32 where "Z_PORT_CONNECT \<equiv> 120"
abbreviation Z_PORT_CONNECTED :: u32 where "Z_PORT_CONNECTED \<equiv> 121"
abbreviation Z_PORT_REFUSED :: u32 where "Z_PORT_REFUSED \<equiv> 122"
abbreviation Z_PORT_DATA :: u32 where "Z_PORT_DATA \<equiv> 123"
abbreviation Z_PORT_CLOSE :: u32 where "Z_PORT_CLOSE \<equiv> 124"
abbreviation Z_PORT_DATA_ACK :: u32 where "Z_PORT_DATA_ACK \<equiv> 125"
abbreviation Z_PORT_MAX_PENDING_SENDS :: nat where "Z_PORT_MAX_PENDING_SENDS \<equiv> 8"
abbreviation Z_PORT_CONNECT_TIMEOUT_TICKS :: u32 where "Z_PORT_CONNECT_TIMEOUT_TICKS \<equiv> 732 * 2"
abbreviation Z_PORT_ACK_RETRY_TICKS :: u32 where "Z_PORT_ACK_RETRY_TICKS \<equiv> 732 div 2"

text \<open>A message as it is read: the kernel stamps who sent it.\<close>

record rmsg =
  rm_from :: u32
  rm_subject :: u32
  rm_tag :: u32
  rm_obj :: sobj

definition received :: "u32 \<Rightarrow> smsg \<Rightarrow> rmsg" where
  "received from m = \<lparr>rm_from = from, rm_subject = sm_subject m, rm_tag = sm_tag m, rm_obj = sm_obj m\<rparr>"

record z_port =
  zp_peer_pid :: u32
  zp_conn_id :: u32
  zp_connected :: bool
  zp_pending :: "nat list"
  zp_pending_head :: nat
  zp_pending_count :: nat

text \<open>
  Waiting for the answer to a connect: the list gives the clock and the mailbox at each turn of the loop; \<open>None\<close> when it ends
  before the call returns. A reply that says connected but carries no number hands over whatever lies in the value: \<open>junk\<close>.
\<close>

fun connect_wait :: "(sobj \<Rightarrow> u32) \<Rightarrow> u32 \<Rightarrow> u32 \<Rightarrow> z_port \<Rightarrow> (u32 \<times> rmsg option) list \<Rightarrow> (bool \<times> z_port) option" where
  "connect_wait junk start timeout_ticks port [] = None"
| "connect_wait junk start timeout_ticks port ((now, got) # ps) =
     (if now - start < timeout_ticks then
        (case got of
           None \<Rightarrow> connect_wait junk start timeout_ticks port ps
         | Some msg \<Rightarrow>
             if rm_subject msg = Z_PORT_CONNECTED \<and> rm_tag msg = 0 then
               Some (True, port\<lparr>zp_conn_id := (case rm_obj msg of SUint u \<Rightarrow> u | obj \<Rightarrow> junk obj), zp_connected := True\<rparr>)
             else if rm_subject msg = Z_PORT_REFUSED \<and> rm_tag msg = 0 then Some (False, port)
             else connect_wait junk start timeout_ticks port ps)
      else Some (False, port))"

definition z_port_connect_arg_timeout ::
  "(sobj \<Rightarrow> u32) \<Rightarrow> u32 \<Rightarrow> sobj \<Rightarrow> u32 \<Rightarrow> u32 \<Rightarrow> (u32 \<times> rmsg option) list \<Rightarrow> z_port \<Rightarrow> (bool \<times> z_port) option \<times> smsg list" where
  "z_port_connect_arg_timeout junk provider_pid arg timeout_ticks start ps port =
     (let port = port\<lparr>zp_peer_pid := provider_pid, zp_conn_id := 0, zp_connected := False\<rparr> in
      (connect_wait junk start timeout_ticks port ps, [z_msg_new provider_pid Z_PORT_CONNECT 0 arg]))"

definition z_port_connect_arg ::
  "(sobj \<Rightarrow> u32) \<Rightarrow> u32 \<Rightarrow> sobj \<Rightarrow> u32 \<Rightarrow> (u32 \<times> rmsg option) list \<Rightarrow> z_port \<Rightarrow> (bool \<times> z_port) option \<times> smsg list" where
  "z_port_connect_arg junk provider_pid arg start ps port =
     z_port_connect_arg_timeout junk provider_pid arg Z_PORT_CONNECT_TIMEOUT_TICKS start ps port"

definition z_port_connect ::
  "(sobj \<Rightarrow> u32) \<Rightarrow> u32 \<Rightarrow> u32 \<Rightarrow> (u32 \<times> rmsg option) list \<Rightarrow> z_port \<Rightarrow> (bool \<times> z_port) option \<times> smsg list" where
  "z_port_connect junk provider_pid start ps port = z_port_connect_arg junk provider_pid SNone start ps port"

definition pending_add :: "nat \<Rightarrow> z_port \<Rightarrow> z_port" where
  "pending_add b port =
     port\<lparr>zp_pending := (zp_pending port)[(zp_pending_head port + zp_pending_count port) mod Z_PORT_MAX_PENDING_SENDS := b],
          zp_pending_count := zp_pending_count port + 1\<rparr>"

text \<open>\<open>sent\<close>: the kernel queues the message. A blob that cannot be allocated is not sent.\<close>

definition z_port_send :: "u8 list \<Rightarrow> bool \<Rightarrow> z_port \<Rightarrow> blobs \<Rightarrow> bool \<times> z_port \<times> blobs \<times> smsg list" where
  "z_port_send data sent port h =
     (if \<not> zp_connected port then (False, port, h, [])
      else if zp_pending_count port \<ge> Z_PORT_MAX_PENDING_SENDS then (False, port, h, [])
      else
        let (obj, h') = z_obj_blob data h in
        if obj = SNone then (False, port, h', [])
        else if \<not> sent then (False, port, free_chunk obj h', [])
        else (True, pending_add (bl_next h) port, h',
              [z_msg_new (zp_peer_pid port) Z_PORT_DATA (zp_conn_id port) obj]))"

definition z_port_close :: "z_port \<Rightarrow> z_port \<times> smsg list" where
  "z_port_close port =
     (if \<not> zp_connected port then (port, [])
      else (port\<lparr>zp_connected := False\<rparr>, [z_msg_new (zp_peer_pid port) Z_PORT_CLOSE (zp_conn_id port) SNone]))"

text \<open>Each turn of the loop: whether the kernel took the message, and the clock after it.\<close>

fun ack_loop :: "u32 \<Rightarrow> smsg \<Rightarrow> (bool \<times> u32) list \<Rightarrow> smsg list option" where
  "ack_loop start m [] = None"
| "ack_loop start m ((sent, now) # ps) =
     (if sent then Some [m] else if now - start < Z_PORT_ACK_RETRY_TICKS then ack_loop start m ps else Some [])"

definition z_port_send_ack :: "u32 \<Rightarrow> (bool \<times> u32) list \<Rightarrow> rmsg \<Rightarrow> smsg list option" where
  "z_port_send_ack start ps data_msg =
     (case rm_obj data_msg of
        SBlob _ \<Rightarrow> ack_loop start (z_msg_new (rm_from data_msg) Z_PORT_DATA_ACK (rm_tag data_msg) SNone) ps
      | _ \<Rightarrow> Some [])"

definition pending_drop :: "z_port \<Rightarrow> z_port" where
  "pending_drop port =
     port\<lparr>zp_pending_head := (zp_pending_head port + 1) mod Z_PORT_MAX_PENDING_SENDS,
          zp_pending_count := zp_pending_count port - 1\<rparr>"

definition z_port_handle_ack :: "z_port \<Rightarrow> rmsg \<Rightarrow> blobs \<Rightarrow> z_port \<times> blobs" where
  "z_port_handle_ack port msg h =
     (if \<not> zp_connected port \<or> rm_tag msg \<noteq> zp_conn_id port then (port, h)
      else if zp_pending_count port = 0 then (port, h)
      else (pending_drop port, free_chunk (SBlob (zp_pending port ! zp_pending_head port)) h))"

definition z_port_accept :: "z_port \<Rightarrow> rmsg \<Rightarrow> u32 \<Rightarrow> z_port \<times> smsg list" where
  "z_port_accept out_port connect_msg conn_id =
     (out_port\<lparr>zp_peer_pid := rm_from connect_msg, zp_conn_id := conn_id, zp_connected := True\<rparr>,
      [z_msg_new (rm_from connect_msg) Z_PORT_CONNECTED 0 (SUint conn_id)])"

text \<open>\<open>alloc\<close>: the string can be copied; a null reason is sent as the empty string.\<close>

definition z_port_refuse :: "rmsg \<Rightarrow> bool \<Rightarrow> string option \<Rightarrow> smsg list" where
  "z_port_refuse connect_msg alloc reason =
     [z_msg_new (rm_from connect_msg) Z_PORT_REFUSED 0
        (if alloc then SStr (Some (case reason of Some r \<Rightarrow> r | None \<Rightarrow> [])) else SNone)]"

section \<open>The pending sends are a queue\<close>

definition pending_list :: "z_port \<Rightarrow> nat list" where
  "pending_list port = ring_list Z_PORT_MAX_PENDING_SENDS (zp_pending port) (zp_pending_head port) (zp_pending_count port)"

definition port_ok :: "z_port \<Rightarrow> bool" where
  "port_ok port \<longleftrightarrow> length (zp_pending port) = Z_PORT_MAX_PENDING_SENDS \<and> zp_pending_head port < Z_PORT_MAX_PENDING_SENDS \<and>
     zp_pending_count port \<le> Z_PORT_MAX_PENDING_SENDS"

definition pending_push :: "nat \<Rightarrow> z_port \<Rightarrow> z_port option" where
  "pending_push b port = (if zp_pending_count port \<ge> Z_PORT_MAX_PENDING_SENDS then None else Some (pending_add b port))"

definition pending_pop :: "z_port \<Rightarrow> (nat \<times> z_port) option" where
  "pending_pop port =
     (if zp_pending_count port = 0 then None else Some (zp_pending port ! zp_pending_head port, pending_drop port))"

lemma pending_count: "length (pending_list port) = zp_pending_count port"
  by (simp add: pending_list_def)

interpretation pq: bounded_queue pending_push pending_pop pending_list port_ok Z_PORT_MAX_PENDING_SENDS
proof
  fix port :: z_port and b :: nat and bs :: "nat list"
  assume ok: "port_ok port"
  show "length (pending_list port) \<le> Z_PORT_MAX_PENDING_SENDS" using ok by (simp add: pending_count port_ok_def)
  show "pending_push b port = None" if "length (pending_list port) = Z_PORT_MAX_PENDING_SENDS"
    using that by (simp add: pending_count pending_push_def)
  show "\<exists>p. pending_push b port = Some p \<and> port_ok p \<and> pending_list p = pending_list port @ [b]"
    if "length (pending_list port) < Z_PORT_MAX_PENDING_SENDS"
  proof -
    have "zp_pending_count port < 8" using that by (simp add: pending_count)
    then show ?thesis
      using ok ring_list_push [of "zp_pending_count port" 8 "zp_pending port" "zp_pending_head port" b]
      by (simp add: pending_push_def pending_add_def port_ok_def pending_list_def)
  qed
  show "pending_pop port = None" if "pending_list port = []"
    using that pending_count [of port] by (simp add: pending_pop_def)
  show "\<exists>p. pending_pop port = Some (b, p) \<and> port_ok p \<and> pending_list p = bs" if l: "pending_list port = b # bs"
  proof -
    obtain n where n: "zp_pending_count port = Suc n" using l pending_count [of port] by (cases "zp_pending_count port") auto
    then have "b = zp_pending port ! zp_pending_head port" "bs = ring_list 8 (zp_pending port) (Suc (zp_pending_head port) mod 8) n"
      using l ok by (simp_all add: pending_list_def ring_list_Suc port_ok_def)
    then show ?thesis using n ok by (simp add: pending_pop_def pending_drop_def port_ok_def pending_list_def)
  qed
qed

lemma send_cases:
  assumes "port_ok port" "zp_connected port"
  shows "z_port_send data sent port h =
      (if length (pending_list port) = Z_PORT_MAX_PENDING_SENDS then (False, port, h, [])
       else if \<not> bl_ok h (bl_next h) then (False, port, h\<lparr>bl_next := Suc (bl_next h)\<rparr>, [])
       else if \<not> sent then (False, port, h\<lparr>bl_next := Suc (bl_next h), bl_data := (bl_data h)(bl_next h := None)\<rparr>, [])
       else (True, pending_add (bl_next h) port,
             h\<lparr>bl_next := Suc (bl_next h), bl_data := (bl_data h)(bl_next h \<mapsto> data)\<rparr>,
             [z_msg_new (zp_peer_pid port) Z_PORT_DATA (zp_conn_id port) (SBlob (bl_next h))]))"
proof -
  have "zp_pending_count port \<ge> 8 \<longleftrightarrow> zp_pending_count port = 8" using assms(1) by (auto simp: port_ok_def)
  then show ?thesis using assms by (simp add: z_port_send_def z_obj_blob_def pending_count)
qed

lemma pending_add_list:
  assumes "port_ok port" "length (pending_list port) \<noteq> Z_PORT_MAX_PENDING_SENDS"
  shows "port_ok (pending_add b port) \<and> pending_list (pending_add b port) = pending_list port @ [b]"
proof -
  have "pending_push b port = Some (pending_add b port)"
    using assms by (auto simp: pending_push_def pending_count port_ok_def)
  from pq.push_Some [OF assms(1) this] show ?thesis .
qed

lemma handle_ack_pops:
  assumes "port_ok port" "zp_connected port" "rm_tag msg = zp_conn_id port" "pending_list port = b # bs"
  shows "\<exists>port'. z_port_handle_ack port msg h = (port', free_chunk (SBlob b) h) \<and> port_ok port' \<and> pending_list port' = bs \<and>
    zp_connected port' \<and> zp_conn_id port' = zp_conn_id port \<and> zp_peer_pid port' = zp_peer_pid port"
proof -
  from pq.pop_front [OF assms(1,4)] obtain p where p: "pending_pop port = Some (b, p)" "port_ok p" "pending_list p = bs" by blast
  then have "zp_pending_count port \<noteq> 0" "b = zp_pending port ! zp_pending_head port" "p = pending_drop port"
    by (auto simp: pending_pop_def split: if_splits)
  then show ?thesis using p assms(2,3) by (simp add: z_port_handle_ack_def) (simp add: pending_drop_def)
qed

lemma handle_ack_idle:
  assumes "pending_list port = []"
  shows "z_port_handle_ack port msg h = (port, h)"
  using assms pending_count [of port] by (simp add: z_port_handle_ack_def)

section \<open>A sender and a receiver\<close>

text \<open>
  One direction of a connection: the sender's port and heap, the two mailboxes, the message the receiver has read and not yet
  acknowledged, what was accepted for sending and what the receiver has read when it acknowledges.
\<close>

record channel =
  ch_port :: z_port
  ch_h :: blobs
  ch_data :: "rmsg list"
  ch_hand :: "rmsg option"
  ch_acks :: "rmsg list"
  ch_sent :: "u8 list list"
  ch_got :: "u8 list option list"

datatype channel_op =
    Send "u8 list" bool
  | Take
  | Ack "(bool \<times> u32) list"
  | HandleAck

definition ch_send :: "u8 list \<Rightarrow> bool \<Rightarrow> channel \<Rightarrow> channel" where
  "ch_send data sent k =
     (case z_port_send data sent (ch_port k) (ch_h k) of (ok, p, h, outs) \<Rightarrow>
        k\<lparr>ch_port := p, ch_h := h, ch_data := ch_data k @ map (received 0) outs,
          ch_sent := (if ok then ch_sent k @ [data] else ch_sent k)\<rparr>)"

definition ch_take :: "channel \<Rightarrow> channel" where
  "ch_take k =
     (case (ch_hand k, ch_data k) of (None, m # ms) \<Rightarrow> k\<lparr>ch_hand := Some m, ch_data := ms\<rparr> | _ \<Rightarrow> k)"

definition blob_at :: "sobj \<Rightarrow> blobs \<Rightarrow> u8 list option" where
  "blob_at obj h = (case obj of SBlob a \<Rightarrow> bl_data h a | _ \<Rightarrow> None)"

text \<open>The last look at the payload, and the acknowledgement, which may be lost in the end.\<close>

definition ch_ack :: "(bool \<times> u32) list \<Rightarrow> channel \<Rightarrow> channel" where
  "ch_ack ps k =
     (case ch_hand k of
        None \<Rightarrow> k
      | Some m \<Rightarrow>
          (case z_port_send_ack 0 ps m of
             None \<Rightarrow> k
           | Some outs \<Rightarrow> k\<lparr>ch_hand := None, ch_acks := ch_acks k @ map (received 0) outs,
                            ch_got := ch_got k @ [blob_at (rm_obj m) (ch_h k)]\<rparr>))"

definition ch_handle_ack :: "channel \<Rightarrow> channel" where
  "ch_handle_ack k =
     (case ch_acks k of
        [] \<Rightarrow> k
      | m # ms \<Rightarrow> (case z_port_handle_ack (ch_port k) m (ch_h k) of (p, h) \<Rightarrow> k\<lparr>ch_port := p, ch_h := h, ch_acks := ms\<rparr>))"

primrec channel_step :: "channel_op \<Rightarrow> channel \<Rightarrow> channel" where
  "channel_step (Send data sent) k = ch_send data sent k"
| "channel_step Take k = ch_take k"
| "channel_step (Ack ps) k = ch_ack ps k"
| "channel_step HandleAck k = ch_handle_ack k"

abbreviation channel_run :: "channel_op list \<Rightarrow> channel \<Rightarrow> channel" where
  "channel_run ops k \<equiv> fold channel_step ops k"

definition channel_open :: "(nat \<Rightarrow> bool) \<Rightarrow> z_port \<Rightarrow> nat \<Rightarrow> channel" where
  "channel_open alloc port n =
     \<lparr>ch_port = port, ch_h = \<lparr>bl_next = n, bl_ok = alloc, bl_data = Map.empty\<rparr>, ch_data = [], ch_hand = None, ch_acks = [], ch_sent = [], ch_got = []\<rparr>"

text \<open>
  The messages under way carry the newest pending blobs, in order, and the data not yet read; every acknowledgement under way
  has an older pending blob that was read.
\<close>

definition under_way :: "channel \<Rightarrow> rmsg list" where
  "under_way k = (case ch_hand k of None \<Rightarrow> [] | Some m \<Rightarrow> [m]) @ ch_data k"

definition channel_inv :: "nat list \<Rightarrow> nat list \<Rightarrow> channel \<Rightarrow> bool" where
  "channel_inv old as k \<longleftrightarrow>
     port_ok (ch_port k) \<and> zp_connected (ch_port k) \<and> pending_list (ch_port k) = old @ as \<and>
     length (ch_acks k) \<le> length old \<and> (\<forall>m \<in> set (ch_acks k). rm_tag m = zp_conn_id (ch_port k)) \<and>
     map rm_obj (under_way k) = map SBlob as \<and> (\<forall>m \<in> set (under_way k). rm_tag m = zp_conn_id (ch_port k)) \<and>
     distinct (old @ as) \<and> (\<forall>a \<in> set (old @ as). a < bl_next (ch_h k)) \<and> dom (bl_data (ch_h k)) = set (old @ as) \<and>
     length (ch_got k) \<le> length (ch_sent k) \<and> ch_got k = map Some (take (length (ch_got k)) (ch_sent k)) \<and>
     map (bl_data (ch_h k)) as = map Some (drop (length (ch_got k)) (ch_sent k))"

lemma channel_inv_open:
  "port_ok p \<Longrightarrow> zp_connected p \<Longrightarrow> pending_list p = [] \<Longrightarrow> channel_inv [] [] (channel_open alloc p n)"
  by (simp add: channel_inv_def channel_open_def under_way_def)

lemma channel_inv_send:
  assumes "channel_inv old as k"
  shows "\<exists>as'. channel_inv old as' (ch_send data sent k) \<and> ch_acks (ch_send data sent k) = ch_acks k"
proof -
  let ?p = "ch_port k" and ?h = "ch_h k" and ?b = "bl_next (ch_h k)"
  have p: "port_ok ?p" "zp_connected ?p" "pending_list ?p = old @ as" and fresh: "\<forall>a \<in> set (old @ as). a < ?b"
    and d: "dom (bl_data ?h) = set (old @ as)"
    using assms by (simp_all add: channel_inv_def)
  have b: "?b \<notin> set (old @ as)" "bl_data ?h ?b = None" using fresh d by (auto simp: dom_def)
  have plain: "channel_inv old as (k\<lparr>ch_h := ?h\<lparr>bl_next := Suc ?b\<rparr>\<rparr>)"
    using assms by (auto simp: channel_inv_def under_way_def less_SucI)
  consider (full) "length (old @ as) = 8" | (none) "length (old @ as) \<noteq> 8" "\<not> bl_ok ?h ?b"
    | (lost) "length (old @ as) \<noteq> 8" "bl_ok ?h ?b" "\<not> sent" | (ok) "length (old @ as) \<noteq> 8" "bl_ok ?h ?b" sent
    by blast
  then show ?thesis
  proof cases
    case full
    then have "ch_send data sent k = k" using send_cases [OF p(1,2)] p(3) by (auto simp: ch_send_def)
    then show ?thesis using assms by auto
  next
    case none
    then have "ch_send data sent k = k\<lparr>ch_h := ?h\<lparr>bl_next := Suc ?b\<rparr>\<rparr>"
      using send_cases [OF p(1,2)] p(3) by (simp add: ch_send_def)
    then show ?thesis using plain by auto
  next
    case lost
    have "(bl_data ?h)(?b := None) = bl_data ?h" using b(2) by auto
    then have "ch_send data sent k = k\<lparr>ch_h := ?h\<lparr>bl_next := Suc ?b\<rparr>\<rparr>"
      using send_cases [OF p(1,2)] p(3) lost by (simp add: ch_send_def)
    then show ?thesis using plain by auto
  next
    case ok
    let ?k = "ch_send data sent k"
    have k: "?k = k\<lparr>ch_port := pending_add ?b ?p, ch_h := ?h\<lparr>bl_next := Suc ?b, bl_data := (bl_data ?h)(?b \<mapsto> data)\<rparr>,
        ch_data := ch_data k @ [received 0 (z_msg_new (zp_peer_pid ?p) Z_PORT_DATA (zp_conn_id ?p) (SBlob ?b))],
        ch_sent := ch_sent k @ [data]\<rparr>"
      using send_cases [OF p(1,2)] p(3) ok by (simp add: ch_send_def)
    have q: "port_ok (pending_add ?b ?p)" "pending_list (pending_add ?b ?p) = old @ as @ [?b]"
      using pending_add_list [OF p(1)] p(3) ok(1) by auto
    have c: "zp_connected (pending_add ?b ?p) = zp_connected ?p" "zp_conn_id (pending_add ?b ?p) = zp_conn_id ?p"
      by (simp_all add: pending_add_def)
    have "map ((bl_data ?h)(?b \<mapsto> data)) as = map (bl_data ?h) as" using b(1) by auto
    then have "channel_inv old (as @ [?b]) ?k"
      using assms q c b(1) unfolding k
      by (auto simp: channel_inv_def under_way_def received_def z_msg_new_def less_SucI split: option.splits)
    then show ?thesis using k by auto
  qed
qed

lemma channel_inv_take:
  assumes "channel_inv old as k"
  shows "channel_inv old as (ch_take k) \<and> ch_acks (ch_take k) = ch_acks k"
proof (cases "ch_hand k")
  case None
  then show ?thesis
    using assms by (cases "ch_data k") (auto simp: ch_take_def channel_inv_def under_way_def)
next
  case (Some m)
  then show ?thesis using assms by (simp add: ch_take_def)
qed

lemma ack_loop_out: "ack_loop start m ps = Some outs \<Longrightarrow> outs = [m] \<or> outs = []"
  by (induction start m ps rule: ack_loop.induct) (auto split: if_splits)

lemma channel_inv_ack:
  assumes "channel_inv old as k"
  shows "\<exists>old' as'. channel_inv old' as' (ch_ack ps k) \<and>
    ((\<forall>m. ack_loop 0 m ps \<noteq> Some []) \<and> length (ch_acks k) = length old \<longrightarrow> length (ch_acks (ch_ack ps k)) = length old')"
proof (cases "ch_hand k")
  case None
  then show ?thesis using assms by (auto simp: ch_ack_def)
next
  case (Some m)
  then obtain a as' where a: "as = a # as'" "rm_obj m = SBlob a" "rm_tag m = zp_conn_id (ch_port k)"
    using assms by (cases as) (auto simp: channel_inv_def under_way_def)
  show ?thesis
  proof (cases "z_port_send_ack 0 ps m")
    case None
    then show ?thesis using Some assms by (auto simp: ch_ack_def)
  next
    case (Some outs)
    then have outs: "outs = [z_msg_new (rm_from m) Z_PORT_DATA_ACK (rm_tag m) SNone] \<or> outs = []"
      using a(2) by (auto simp: z_port_send_ack_def dest: ack_loop_out)
    have "drop (length (ch_got k)) (ch_sent k) \<noteq> []" using assms a(1) by (auto simp: channel_inv_def)
    then have n: "length (ch_got k) < length (ch_sent k)" by simp
    have "drop (length (ch_got k)) (ch_sent k) = ch_sent k ! length (ch_got k) # drop (Suc (length (ch_got k))) (ch_sent k)"
      using Cons_nth_drop_Suc [OF n] by simp
    then have "bl_data (ch_h k) a = Some (ch_sent k ! length (ch_got k))"
      "map (bl_data (ch_h k)) as' = map Some (drop (Suc (length (ch_got k))) (ch_sent k))"
      using assms a(1) by (auto simp: channel_inv_def)
    moreover have "outs = []" if "length (ch_acks (ch_ack ps k)) \<noteq> Suc (length (ch_acks k))"
      using that \<open>ch_hand k = Some m\<close> Some outs by (auto simp: ch_ack_def)
    then have "length (ch_acks (ch_ack ps k)) = Suc (length (ch_acks k))" if "\<forall>m. ack_loop 0 m ps \<noteq> Some []"
      using that Some a(2) by (auto simp: z_port_send_ack_def)
    ultimately have "channel_inv (old @ [a]) as' (ch_ack ps k) \<and>
        ((\<forall>m. ack_loop 0 m ps \<noteq> Some []) \<longrightarrow> length (ch_acks (ch_ack ps k)) = Suc (length (ch_acks k)))"
      using \<open>ch_hand k = Some m\<close> assms a outs n Some
      by (auto simp: ch_ack_def channel_inv_def under_way_def blob_at_def received_def z_msg_new_def take_Suc_conv_app_nth)
    then show ?thesis by (intro exI [of _ "old @ [a]"] exI [of _ as']) simp
  qed
qed

lemma channel_inv_handle_ack:
  assumes "channel_inv old as k"
  shows "\<exists>old'. channel_inv old' as (ch_handle_ack k) \<and>
    (length (ch_acks k) = length old \<longrightarrow> length (ch_acks (ch_handle_ack k)) = length old')"
proof (cases "ch_acks k")
  case Nil
  then show ?thesis using assms by (auto simp: ch_handle_ack_def)
next
  case (Cons m ms)
  then obtain b bs where old: "old = b # bs" using assms by (cases old) (auto simp: channel_inv_def)
  have p: "port_ok (ch_port k)" "zp_connected (ch_port k)" "rm_tag m = zp_conn_id (ch_port k)" "pending_list (ch_port k) = b # bs @ as"
    using assms Cons old by (simp_all add: channel_inv_def)
  from handle_ack_pops [OF this, of "ch_h k"] obtain p' where p': "z_port_handle_ack (ch_port k) m (ch_h k) = (p', free_chunk (SBlob b) (ch_h k))"
    "port_ok p'" "pending_list p' = bs @ as" "zp_connected p'" "zp_conn_id p' = zp_conn_id (ch_port k)"
    by blast
  have "b \<notin> set (bs @ as)" using assms old by (simp add: channel_inv_def)
  then have "map ((bl_data (ch_h k))(b := None)) as = map (bl_data (ch_h k)) as"
    "dom ((bl_data (ch_h k))(b := None)) = dom (bl_data (ch_h k)) - {b}" by auto
  then have "channel_inv bs as (ch_handle_ack k)"
    using assms Cons old p' \<open>b \<notin> set (bs @ as)\<close> by (auto simp: ch_handle_ack_def channel_inv_def under_way_def)
  moreover have "ch_acks (ch_handle_ack k) = ms" using Cons p'(1) by (simp add: ch_handle_ack_def)
  ultimately show ?thesis using Cons old by auto
qed

definition ack_kept :: "channel_op \<Rightarrow> bool" where
  "ack_kept op \<longleftrightarrow> (case op of Ack ps \<Rightarrow> \<forall>m. ack_loop 0 m ps \<noteq> Some [] | _ \<Rightarrow> True)"

lemma channel_inv_run:
  "channel_inv old as k \<Longrightarrow>
   \<exists>old' as'. channel_inv old' as' (channel_run ops k) \<and>
     ((\<forall>op \<in> set ops. ack_kept op) \<and> length (ch_acks k) = length old \<longrightarrow> length (ch_acks (channel_run ops k)) = length old')"
proof (induction ops arbitrary: k old as)
  case (Cons op ops)
  have "\<exists>old' as'. channel_inv old' as' (channel_step op k) \<and>
      (ack_kept op \<and> length (ch_acks k) = length old \<longrightarrow> length (ch_acks (channel_step op k)) = length old')"
  proof (cases op)
    case (Send data sent)
    then show ?thesis using channel_inv_send [OF Cons.prems, of data sent] by auto
  next
    case Take
    then show ?thesis using channel_inv_take [OF Cons.prems] by auto
  next
    case (Ack ps)
    then show ?thesis using channel_inv_ack [OF Cons.prems, of ps] by (auto simp: ack_kept_def)
  next
    case HandleAck
    then show ?thesis using channel_inv_handle_ack [OF Cons.prems] by auto
  qed
  then obtain old1 as1 where 1: "channel_inv old1 as1 (channel_step op k)"
    "ack_kept op \<and> length (ch_acks k) = length old \<longrightarrow> length (ch_acks (channel_step op k)) = length old1" by blast
  from Cons.IH [OF 1(1)] 1(2) show ?case by auto
qed auto

text \<open>
  C23: A connection never corrupts what it carries. Whatever is sent, read and acknowledged in whatever order, whatever allocations or
  sends fail and whatever acknowledgements are lost: the message the receiver holds still has its bytes in the sender's heap, they are
  those of the oldest send not yet read, what was read is what was sent, in order, and at most eight blobs are alive.
\<close>

theorem port_data_intact:
  assumes "port_ok p" "zp_connected p" "pending_list p = []" "k = channel_run ops (channel_open alloc p n)"
  shows "(\<forall>m. ch_hand k = Some m \<longrightarrow>
      length (ch_got k) < length (ch_sent k) \<and> blob_at (rm_obj m) (ch_h k) = Some (ch_sent k ! length (ch_got k))) \<and>
    ch_got k = map Some (take (length (ch_got k)) (ch_sent k)) \<and>
    finite (dom (bl_data (ch_h k))) \<and> card (dom (bl_data (ch_h k))) \<le> Z_PORT_MAX_PENDING_SENDS"
proof -
  obtain old as where inv: "channel_inv old as k"
    using channel_inv_run [OF channel_inv_open [OF assms(1-3), of alloc n], of ops] assms(4) by blast
  have "length (ch_got k) < length (ch_sent k) \<and> blob_at (rm_obj m) (ch_h k) = Some (ch_sent k ! length (ch_got k))"
    if m: "ch_hand k = Some m" for m
  proof -
    from m inv obtain a as' where a: "as = a # as'" "rm_obj m = SBlob a"
      by (cases as) (auto simp: channel_inv_def under_way_def)
    then obtain d ds where d: "drop (length (ch_got k)) (ch_sent k) = d # ds" "bl_data (ch_h k) a = Some d"
      using inv by (cases "drop (length (ch_got k)) (ch_sent k)") (auto simp: channel_inv_def)
    then have "length (ch_got k) < length (ch_sent k)" by (metis drop_all leI list.distinct(1))
    moreover from this d have "ch_sent k ! length (ch_got k) = d" by (metis hd_drop_conv_nth list.sel(1))
    ultimately show ?thesis using a d by (simp add: blob_at_def)
  qed
  moreover have "card (dom (bl_data (ch_h k))) \<le> length (old @ as)" using inv by (metis card_length channel_inv_def)
  moreover have "length (old @ as) \<le> 8" using inv pq.bounded [of "ch_port k"] by (simp add: channel_inv_def)
  ultimately show ?thesis using inv by (simp add: channel_inv_def)
qed

definition some_port :: z_port where
  "some_port = \<lparr>zp_peer_pid = 3, zp_conn_id = 1, zp_connected = True, zp_pending = replicate 8 0, zp_pending_head = 0, zp_pending_count = 0\<rparr>"

theorem port_data_intact_witness:
  "ch_got (channel_run [Send [1] True, Send [2] True, Take, Ack [(False, 0), (True, 9)], HandleAck, Take, Ack [(True, 0)]]
     (channel_open (\<lambda>_. True) some_port 0)) = [Some [1], Some [2]]"
proof -
  let ?k = "channel_run [Send [1] True, Send [2] True, Take, Ack [(False, 0), (True, 9)], HandleAck, Take, Ack [(True, 0)]]
     (channel_open (\<lambda>_. True) some_port 0)"
  have "port_ok some_port" "zp_connected some_port" "pending_list some_port = []"
    by (simp_all add: some_port_def port_ok_def pending_list_def)
  from port_data_intact [OF this refl, of "[Send [1] True, Send [2] True, Take, Ack [(False, 0), (True, 9)], HandleAck, Take, Ack [(True, 0)]]" "\<lambda>_. True" 0]
  have "ch_got ?k = map Some (take (length (ch_got ?k)) (ch_sent ?k))" by simp
  moreover have "length (ch_got ?k) = 2" "ch_sent ?k = [[1], [2]]" by code_simp+
  ultimately show ?thesis by simp
qed

section \<open>Catching up\<close>

abbreviation "read_and_ack \<equiv> [Take, Ack [(True, 0)]]"

lemma catch_up_read:
  assumes "channel_inv old as k"
  shows "under_way (channel_run read_and_ack k) = tl (under_way k) \<and> ch_sent (channel_run read_and_ack k) = ch_sent k"
proof (cases "under_way (ch_take k)")
  case Nil
  then show ?thesis
    by (cases "ch_hand k"; cases "ch_data k") (simp_all add: under_way_def ch_take_def ch_ack_def)
next
  case (Cons m ms)
  have u: "under_way (ch_take k) = under_way k" "ch_sent (ch_take k) = ch_sent k"
    by (cases "ch_hand k"; cases "ch_data k"; simp add: under_way_def ch_take_def)+
  have h: "ch_hand (ch_take k) = Some m" "ch_data (ch_take k) = ms"
    using Cons by (cases "ch_hand k"; cases "ch_data k"; simp add: under_way_def ch_take_def)+
  obtain a where "rm_obj m = SBlob a" using assms Cons u by (auto simp: channel_inv_def)
  moreover have "tl (under_way k) = ms" using Cons u(1) by simp
  ultimately show ?thesis using h u(2) by (simp add: ch_ack_def z_port_send_ack_def under_way_def [of "_\<lparr>ch_hand := None, ch_acks := _, ch_got := _\<rparr>"])
qed

lemma catch_up_reads:
  "channel_inv old as k \<Longrightarrow> length (ch_acks k) = length old \<Longrightarrow> length (under_way k) \<le> n \<Longrightarrow>
   \<exists>old'. channel_inv old' [] (channel_run (concat (replicate n read_and_ack)) k) \<and>
     length (ch_acks (channel_run (concat (replicate n read_and_ack)) k)) = length old' \<and>
     ch_sent (channel_run (concat (replicate n read_and_ack)) k) = ch_sent k"
proof (induction n arbitrary: k old as)
  case 0
  then have "as = []" by (simp add: channel_inv_def)
  then show ?case using 0 by auto
next
  case (Suc n)
  let ?k = "channel_run read_and_ack k"
  have "\<forall>op \<in> set read_and_ack. ack_kept op" by (simp add: ack_kept_def)
  with channel_inv_run [OF Suc.prems(1), of read_and_ack] Suc.prems(2) obtain old' as' where
    1: "channel_inv old' as' ?k" "length (ch_acks ?k) = length old'" by blast
  moreover have "length (under_way ?k) \<le> n" "ch_sent ?k = ch_sent k" using catch_up_read [OF Suc.prems(1)] Suc.prems(3) by auto
  ultimately show ?case using Suc.IH [of old' as' ?k] by simp
qed

lemma catch_up_acks:
  "channel_inv old [] k \<Longrightarrow> length (ch_acks k) = length old \<Longrightarrow> length old \<le> n \<Longrightarrow>
   channel_inv [] [] (channel_run (replicate n HandleAck) k) \<and> ch_sent (channel_run (replicate n HandleAck) k) = ch_sent k"
proof (induction n arbitrary: k old)
  case (Suc n)
  let ?k = "ch_handle_ack k"
  from channel_inv_handle_ack [OF Suc.prems(1)] Suc.prems(2) obtain old' where
    1: "channel_inv old' [] ?k" "length (ch_acks ?k) = length old'" by blast
  have "length (ch_acks ?k) \<le> n" "ch_sent ?k = ch_sent k"
    using Suc.prems(2,3) by (cases "ch_acks k"; simp add: ch_handle_ack_def split: prod.splits)+
  then show ?case using Suc.IH [OF 1] 1(2) by simp
qed simp

text \<open>
  A connection whose acknowledgements arrive never gets stuck. Whatever was sent, refused, read and acknowledged before, once the
  receiver reads and acknowledges eight messages and the sender handles eight acknowledgements, everything that was accepted has been
  read, in order, every blob is freed, and the next send is accepted if there is memory for it.
\<close>

theorem port_catches_up:
  assumes "port_ok p" "zp_connected p" "pending_list p = []" "\<forall>op \<in> set ops. ack_kept op"
    and "k = channel_run ops (channel_open alloc p n)"
    and "k' = channel_run (concat (replicate 8 read_and_ack) @ replicate 8 HandleAck) k"
  shows "ch_sent k' = ch_sent k \<and> ch_got k' = map Some (ch_sent k) \<and> bl_data (ch_h k') = Map.empty \<and>
    (bl_ok (ch_h k') (bl_next (ch_h k')) \<longrightarrow> fst (z_port_send data True (ch_port k') (ch_h k')))"
proof -
  let ?r = "concat (replicate 8 read_and_ack)"
  obtain old as where inv: "channel_inv old as k" and acks: "length (ch_acks k) = length old"
    using channel_inv_run [OF channel_inv_open [OF assms(1-3), of alloc n], of ops] assms(4,5) by (auto simp: channel_open_def)
  have "length (old @ as) \<le> 8" using inv pq.bounded [of "ch_port k"] by (simp add: channel_inv_def)
  moreover have "length (under_way k) = length as" using inv by (metis channel_inv_def length_map)
  ultimately obtain old1 where 1: "channel_inv old1 [] (channel_run ?r k)" "length (ch_acks (channel_run ?r k)) = length old1"
    "ch_sent (channel_run ?r k) = ch_sent k"
    using catch_up_reads [OF inv acks, of 8] by auto
  have "length old1 \<le> 8" using 1(1) pq.bounded [of "ch_port (channel_run ?r k)"] by (simp add: channel_inv_def)
  from catch_up_acks [OF 1(1,2) this] 1(3) assms(6) have
    2: "channel_inv [] [] k'" "ch_sent k' = ch_sent k" by (simp_all only: fold_append o_apply)
  then have "length (ch_got k') = length (ch_sent k')" by (simp add: channel_inv_def)
  then have "ch_got k' = map Some (ch_sent k)" using 2 by (simp add: channel_inv_def)
  moreover have "bl_ok (ch_h k') (bl_next (ch_h k')) \<longrightarrow> fst (z_port_send data True (ch_port k') (ch_h k'))"
    using 2(1) send_cases [of "ch_port k'" data True "ch_h k'"] by (simp add: channel_inv_def)
  ultimately show ?thesis using 2 by (simp add: channel_inv_def)
qed

theorem port_catches_up_witness:
  "\<exists>k'. k' = channel_run (concat (replicate 8 read_and_ack) @ replicate 8 HandleAck)
      (channel_run [Send [1] True, Take, Send [2] True] (channel_open (\<lambda>_. True) some_port 0)) \<and>
     ch_got k' = [Some [1], Some [2]]"
proof -
  have "port_ok some_port" "zp_connected some_port" "pending_list some_port = []"
    "\<forall>op \<in> set [Send [1] True, Take, Send [2] True]. ack_kept op"
    by (simp_all add: some_port_def port_ok_def pending_list_def ack_kept_def)
  from port_catches_up [OF this refl refl, of "\<lambda>_. True" 0] show ?thesis
    by (simp add: ch_send_def channel_open_def z_port_send_def z_obj_blob_def some_port_def ch_take_def received_def z_msg_new_def pending_add_def)
qed

section \<open>What a port keeps between connections\<close>

text \<open>
  A port that is used again still has the sends its last peer never acknowledged. After a close and an accept the next send to the
  new peer is queued behind them, so the new peer's acknowledgement of its message frees the old peer's oldest blob; and if eight are
  left, no send to the new peer succeeds.
\<close>

theorem port_reuse_keeps_pending:
  assumes "port_ok p" "zp_connected p" "pending_list p = a # as" "a < bl_next h" "bl_ok h (bl_next h)" "rm_tag ack = conn_id"
    and "p1 = fst (z_port_accept (fst (z_port_close p)) connect_msg conn_id)"
    and "z_port_send data True p1 h = (rv, p2, h2, outs)"
  shows "if length as = 7 then \<not> rv \<and> outs = []
    else rv \<and> outs = [z_msg_new (rm_from connect_msg) Z_PORT_DATA conn_id (SBlob (bl_next h))] \<and>
      (case z_port_handle_ack p2 ack h2 of (p3, h3) \<Rightarrow>
         bl_data h3 a = None \<and> bl_data h3 (bl_next h) = Some data \<and> pending_list p3 = as @ [bl_next h])"
proof -
  have p1: "p1 = p\<lparr>zp_peer_pid := rm_from connect_msg, zp_conn_id := conn_id, zp_connected := True\<rparr>"
    using assms(2,7) by (simp add: z_port_accept_def z_port_close_def)
  have q: "port_ok p1" "zp_connected p1" "pending_list p1 = a # as" "zp_conn_id p1 = conn_id" "zp_peer_pid p1 = rm_from connect_msg"
    using assms(1,3) by (simp_all add: p1 port_ok_def pending_list_def)
  show ?thesis
  proof (cases "length as = 7")
    case True
    then show ?thesis using assms(8) send_cases [OF q(1,2), of data True h] q(3) by simp
  next
    case False
    then have ne: "length (pending_list p1) \<noteq> 8" using q(3) by simp
    have s: "rv" "outs = [z_msg_new (rm_from connect_msg) Z_PORT_DATA conn_id (SBlob (bl_next h))]"
      "p2 = pending_add (bl_next h) p1" "bl_data h2 = (bl_data h)(bl_next h \<mapsto> data)"
      using assms(8) send_cases [OF q(1,2), of data True h] ne q assms(5) by auto
    have "zp_connected p2" "rm_tag ack = zp_conn_id p2" using q assms(6) s(3) by (simp_all add: pending_add_def)
    moreover have "port_ok p2" "pending_list p2 = a # as @ [bl_next h]" using pending_add_list [OF q(1) ne] q(3) s(3) by simp_all
    ultimately obtain p3 where "z_port_handle_ack p2 ack h2 = (p3, free_chunk (SBlob a) h2)" "pending_list p3 = as @ [bl_next h]"
      using handle_ack_pops [of p2 ack a "as @ [bl_next h]" h2] by blast
    then show ?thesis using False s assms(4) by auto
  qed
qed

definition busy_port :: z_port where
  "busy_port = some_port\<lparr>zp_pending_count := 8\<rparr>"

theorem port_reuse_keeps_pending_witness:
  "fst (z_port_send [1] True
     (fst (z_port_accept (fst (z_port_close busy_port)) \<lparr>rm_from = 5, rm_subject = Z_PORT_CONNECT, rm_tag = 0, rm_obj = SNone\<rparr> 1))
     \<lparr>bl_next = 1, bl_ok = (\<lambda>_. True), bl_data = Map.empty\<rparr>) = False"
proof -
  let ?m = "\<lparr>rm_from = 5, rm_subject = Z_PORT_CONNECT, rm_tag = 0, rm_obj = SNone\<rparr>" and ?h = "\<lparr>bl_next = 1, bl_ok = (\<lambda>_. True), bl_data = Map.empty\<rparr>"
  obtain rv p2 h2 outs where s: "z_port_send [1] True (fst (z_port_accept (fst (z_port_close busy_port)) ?m 1)) ?h = (rv, p2, h2, outs)"
    by (metis prod_cases4)
  have "port_ok busy_port" "zp_connected busy_port" "pending_list busy_port = 0 # replicate 7 0"
    by (simp_all add: busy_port_def some_port_def port_ok_def) code_simp
  from port_reuse_keeps_pending [OF this, of ?h "?m\<lparr>rm_tag := 1\<rparr>" 1, OF _ _ _ refl s] s show ?thesis by simp
qed

section \<open>Connecting\<close>

definition unrelated :: "rmsg \<Rightarrow> bool" where
  "unrelated m \<longleftrightarrow> \<not> ((rm_subject m = Z_PORT_CONNECTED \<or> rm_subject m = Z_PORT_REFUSED) \<and> rm_tag m = 0)"

lemma connect_wait_skips:
  "\<forall>(now, got) \<in> set ps. now - start < timeout \<and> (\<forall>m. got = Some m \<longrightarrow> unrelated m) \<Longrightarrow>
   connect_wait junk start timeout port (ps @ qs) = connect_wait junk start timeout port qs"
  by (induction ps) (auto simp: unrelated_def split: option.splits)

lemma connect_wait_timeout: "\<not> now - start < timeout \<Longrightarrow> connect_wait junk start timeout port ((now, got) # ps) = Some (False, port)"
  by simp

text \<open>
  A connect that gave up can ruin the next one. The first provider does not answer in time and accepts later; its answer is taken
  for that of the second provider, which accepts as well. The client then sends to the second provider under the number of the first
  one's connection, and an acknowledgement that carries the right number is ignored by the client.
\<close>

theorem late_answer_taken:
  assumes "\<forall>(now, got) \<in> set ps. now - start < Z_PORT_CONNECT_TIMEOUT_TICKS \<and> (\<forall>m. got = Some m \<longrightarrow> unrelated m)"
    and "\<not> end - start < Z_PORT_CONNECT_TIMEOUT_TICKS" and "again - start2 < Z_PORT_CONNECT_TIMEOUT_TICKS"
    and "z_port_connect junk first_pid start (ps @ [(end, None)]) port = (result, [request])"
    and "z_port_accept first_port (received client request) cid = (first_port', [reply])"
    and "z_port_connect junk second_pid start2 ((again, Some (received first_pid reply)) # qs) (snd (the result)) = (result2, [request2])"
    and "z_port_accept second_port (received client request2) cid2 = (second_port', replies2)"
    and "cid \<noteq> cid2"
  shows "\<exists>port1 port2. result = Some (False, port1) \<and> result2 = Some (True, port2) \<and>
    zp_peer_pid port2 = second_pid \<and> zp_conn_id port2 = cid \<and> zp_conn_id second_port' = cid2 \<and>
    (rm_tag ack = zp_conn_id second_port' \<longrightarrow> z_port_handle_ack port2 ack h = (port2, h))"
proof -
  let ?p1 = "port\<lparr>zp_peer_pid := first_pid, zp_conn_id := 0, zp_connected := False\<rparr>"
  have r: "result = Some (False, ?p1)"
    using assms(2,4) connect_wait_skips [OF assms(1)]
    by (auto simp: z_port_connect_def z_port_connect_arg_def z_port_connect_arg_timeout_def Let_def)
  have "sm_subject reply = Z_PORT_CONNECTED" "sm_tag reply = 0" "sm_obj reply = SUint cid"
    using assms(5) by (auto simp: z_port_accept_def z_msg_new_def)
  then have "result2 = Some (True, ?p1\<lparr>zp_peer_pid := second_pid, zp_conn_id := cid, zp_connected := True\<rparr>)"
    using assms(3,6) r
    by (auto simp: z_port_connect_def z_port_connect_arg_def z_port_connect_arg_timeout_def Let_def received_def)
  moreover have "zp_conn_id second_port' = cid2" using assms(7) by (auto simp: z_port_accept_def)
  ultimately show ?thesis using r assms(8) by (simp add: z_port_handle_ack_def)
qed

theorem late_answer_taken_witness:
  "\<exists>port2. fst (z_port_connect (\<lambda>_. 0) 4 2000
      [(2001, Some (received 3 (z_msg_new 5 Z_PORT_CONNECTED 0 (SUint 1))))]
      (some_port\<lparr>zp_conn_id := 0, zp_connected := False\<rparr>)) = Some (True, port2) \<and> zp_peer_pid port2 = 4 \<and> zp_conn_id port2 = 1"
proof -
  have e: "z_port_connect (\<lambda>_. 0) 3 0 ([(1, None)] @ [(1464, None)]) some_port
      = (Some (False, some_port\<lparr>zp_conn_id := 0, zp_connected := False\<rparr>), [z_msg_new 3 Z_PORT_CONNECT 0 SNone])"
    by (simp add: z_port_connect_def z_port_connect_arg_def z_port_connect_arg_timeout_def some_port_def)
  obtain result2 where r2: "z_port_connect (\<lambda>_. 0) 4 2000 ((2001, Some (received 3 (z_msg_new 5 Z_PORT_CONNECTED 0 (SUint 1)))) # [])
      (snd (the (Some (False, some_port\<lparr>zp_conn_id := 0, zp_connected := False\<rparr>)))) = (result2, [z_msg_new 4 Z_PORT_CONNECT 0 SNone])"
    by (simp add: z_port_connect_def z_port_connect_arg_def z_port_connect_arg_timeout_def Let_def)
  obtain p' where a: "z_port_accept some_port (received 5 (z_msg_new 3 Z_PORT_CONNECT 0 SNone)) 1
      = (p', [z_msg_new 5 Z_PORT_CONNECTED 0 (SUint 1)])" by (simp add: z_port_accept_def received_def)
  obtain p'' rs where b: "z_port_accept some_port (received 5 (z_msg_new 4 Z_PORT_CONNECT 0 SNone)) 2 = (p'', rs)" by fastforce
  have "\<forall>(now :: u32, got) \<in> set [(1, None)]. now - 0 < Z_PORT_CONNECT_TIMEOUT_TICKS \<and> (\<forall>m. got = Some m \<longrightarrow> unrelated m)" by simp
  from late_answer_taken [OF this _ _ e a r2 b] r2 show ?thesis by auto
qed

section \<open>An echo server\<close>

text \<open>\<open>portdemo.c\<close>. The bytes of a message are read where they lie in the client's heap.\<close>

abbreviation BANNER :: string where
  "BANNER \<equiv> ''portdemo: connected -- type something, it'' @ [CHR 0x27] @ ''ll echo back.'' @ [CHR 0x0D, CHR 0x0A]"

definition bytes :: "string \<Rightarrow> u8 list" where "bytes s = map (\<lambda>c. of_nat (of_char c)) s"

definition portdemo_handle ::
  "(nat \<Rightarrow> u8 list option) \<Rightarrow> bool \<Rightarrow> bool \<Rightarrow> (bool \<times> u32) list \<Rightarrow> rmsg \<Rightarrow> z_port \<times> blobs \<Rightarrow> ((z_port \<times> blobs) \<times> smsg list) option" where
  "portdemo_handle peer alloc sent tries msg s =
     (case s of (conn, h) \<Rightarrow>
      if rm_subject msg = Z_PORT_CONNECT then
        (if zp_connected conn then Some (s, z_port_refuse msg alloc (Some ''portdemo: already connected to another client''))
         else
           case z_port_accept conn msg 1 of (conn, outs) \<Rightarrow>
           case z_port_send (bytes BANNER) sent conn h of (_, conn, h, outs2) \<Rightarrow> Some ((conn, h), outs @ outs2))
      else if rm_subject msg = Z_PORT_DATA then
        (case
           (if zp_connected conn \<and> rm_tag msg = zp_conn_id conn then
              (case rm_obj msg of
                 SBlob a \<Rightarrow> (case peer a of
                     Some (b # bs) \<Rightarrow> (case z_port_send (b # bs) sent conn h of (_, conn, h, outs) \<Rightarrow> (conn, h, outs))
                   | _ \<Rightarrow> (conn, h, []))
               | _ \<Rightarrow> (conn, h, []))
            else (conn, h, [])) of
           (conn, h, outs) \<Rightarrow> map_option (\<lambda>acks. ((conn, h), outs @ acks)) (z_port_send_ack 0 tries msg))
      else if rm_subject msg = Z_PORT_DATA_ACK then Some (z_port_handle_ack conn msg h, [])
      else if rm_subject msg = Z_PORT_CLOSE then
        Some ((if zp_connected conn \<and> rm_tag msg = zp_conn_id conn then conn\<lparr>zp_connected := False\<rparr> else conn, h), [])
      else Some (s, []))"

text \<open>With room for a send, a message is answered with a blob of the same bytes and with its acknowledgement.\<close>

lemma portdemo_echoes:
  assumes "port_ok conn" "zp_connected conn" "length (pending_list conn) < Z_PORT_MAX_PENDING_SENDS" "rm_subject msg = Z_PORT_DATA"
    and "rm_tag msg = zp_conn_id conn" "rm_obj msg = SBlob a" "peer a = Some d" "d \<noteq> []" "tries = (True, now) # rest"
    and "bl_ok h (bl_next h)"
  shows "\<exists>conn' h'. portdemo_handle peer True True tries msg (conn, h) = Some ((conn', h'),
      [z_msg_new (zp_peer_pid conn) Z_PORT_DATA (zp_conn_id conn) (SBlob (bl_next h)),
       z_msg_new (rm_from msg) Z_PORT_DATA_ACK (rm_tag msg) SNone]) \<and>
    bl_data h' (bl_next h) = Some d \<and> port_ok conn' \<and> pending_list conn' = pending_list conn @ [bl_next h]"
proof -
  obtain b bs where d: "d = b # bs" using assms(8) by (cases d) auto
  have ne: "length (pending_list conn) \<noteq> 8" using assms(3) by simp
  show ?thesis
    using send_cases [OF assms(1,2), of d True h] pending_add_list [OF assms(1) ne, of "bl_next h"] ne assms(2,4-7,9,10) d
    by (simp add: portdemo_handle_def z_port_send_ack_def)
qed

end
