(* ===== verification/Telnet.thy ===== *)
theory Telnet
  imports Tcp
begin

text \<open>
  The telnet client (\<open>src/sw/apps/net/telnet.c\<close>) on top of \<open>Tcp\<close>: the parser that takes commands out of the received bytes, the
  answers to them, and the queue of outgoing bytes. The caller of \<open>Tcp\<close> is here the telnet layer, with the state and the
  handlers of its own caller in it.
\<close>

section \<open>State\<close>

abbreviation IAC :: u8 where "IAC \<equiv> 255"
abbreviation DONT :: u8 where "DONT \<equiv> 254"
abbreviation DO' :: u8 where "DO' \<equiv> 253"
abbreviation WONT :: u8 where "WONT \<equiv> 252"
abbreviation WILL :: u8 where "WILL \<equiv> 251"
abbreviation SB :: u8 where "SB \<equiv> 250"
abbreviation SE :: u8 where "SE \<equiv> 240"
abbreviation OPT_ECHO :: u8 where "OPT_ECHO \<equiv> 1"
abbreviation OPT_SGA :: u8 where "OPT_SGA \<equiv> 3"
abbreviation TELNET_PORT :: u16 where "TELNET_PORT \<equiv> 23"
abbreviation TELNET_TX_QUEUE_LEN :: nat where "TELNET_TX_QUEUE_LEN \<equiv> 512"

datatype telnet_parse_state = TN_DATA | TN_IAC | TN_CMD | TN_SB | TN_SB_IAC

text \<open>
  \<open>tn_overrun\<close> records that a byte was written past the end of a static array: what the program does from there on is undefined, and
  the handler below does nothing more once it is set.
\<close>

record 'a telnet =
  tn_pstate :: telnet_parse_state
  tn_pending_cmd :: u8
  tn_tx_queue :: bytes
  tn_on_established :: "('a \<Rightarrow> 'a) option"
  tn_on_data :: "(bytes \<Rightarrow> 'a \<Rightarrow> 'a) option"
  tn_on_closed :: "('a \<Rightarrow> 'a) option"
  tn_app :: 'a
  tn_overrun :: bool

section \<open>Received bytes\<close>

definition queue_bytes :: "bytes \<Rightarrow> 'a telnet \<Rightarrow> bool \<times> 'a telnet" where
  "queue_bytes data t =
     (if length (tn_tx_queue t) + length data > TELNET_TX_QUEUE_LEN then (False, t)
      else (True, t\<lparr>tn_tx_queue := tn_tx_queue t @ data\<rparr>))"

definition negotiation_reply :: "u8 \<Rightarrow> u8 \<Rightarrow> u8" where
  "negotiation_reply cmd opt =
     (if cmd = DO' then WONT else if opt = OPT_ECHO \<or> opt = OPT_SGA then DO' else DONT)"

definition answer_negotiation :: "u8 \<Rightarrow> u8 \<Rightarrow> 'a telnet \<Rightarrow> 'a telnet" where
  "answer_negotiation cmd opt t = snd (queue_bytes [IAC, negotiation_reply cmd opt, opt] t)"

text \<open>One byte; the bytes kept so far go to the array \<open>clean\<close>. A byte written past its end is a fault, the value \<open>None\<close>.\<close>

definition keep_byte :: "u8 \<Rightarrow> 'a telnet \<times> bytes \<Rightarrow> ('a telnet \<times> bytes) option" where
  "keep_byte b s = (case s of (t, clean) \<Rightarrow>
     if length clean \<ge> TCP_MAX_PAYLOAD then None else Some (t, clean @ [b]))"

definition feed_byte :: "u8 \<Rightarrow> 'a telnet \<times> bytes \<Rightarrow> ('a telnet \<times> bytes) option" where
  "feed_byte b s = (case s of (t, clean) \<Rightarrow>
     case tn_pstate t of
       TN_DATA \<Rightarrow> if b = IAC then Some (t\<lparr>tn_pstate := TN_IAC\<rparr>, clean) else keep_byte b (t, clean)
     | TN_IAC \<Rightarrow>
         if b = IAC then keep_byte b (t\<lparr>tn_pstate := TN_DATA\<rparr>, clean)
         else if b = DO' \<or> b = DONT \<or> b = WILL \<or> b = WONT then Some (t\<lparr>tn_pending_cmd := b, tn_pstate := TN_CMD\<rparr>, clean)
         else if b = SB then Some (t\<lparr>tn_pstate := TN_SB\<rparr>, clean)
         else Some (t\<lparr>tn_pstate := TN_DATA\<rparr>, clean)
     | TN_CMD \<Rightarrow>
         Some ((if tn_pending_cmd t = DO' \<or> tn_pending_cmd t = WILL then answer_negotiation (tn_pending_cmd t) b t else t)
            \<lparr>tn_pstate := TN_DATA\<rparr>, clean)
     | TN_SB \<Rightarrow> if b = IAC then Some (t\<lparr>tn_pstate := TN_SB_IAC\<rparr>, clean) else Some (t, clean)
     | TN_SB_IAC \<Rightarrow> Some (t\<lparr>tn_pstate := (if b = SE then TN_DATA else TN_SB)\<rparr>, clean))"

fun feed_bytes :: "bytes \<Rightarrow> 'a telnet \<times> bytes \<Rightarrow> ('a telnet \<times> bytes) option" where
  "feed_bytes [] s = Some s"
| "feed_bytes (b # bs) s = Option.bind (feed_byte b s) (feed_bytes bs)"

definition telnet_feed :: "bytes \<Rightarrow> 'a telnet \<Rightarrow> 'a telnet option" where
  "telnet_feed data t =
     (case feed_bytes data (t, []) of
        None \<Rightarrow> None
      | Some (t, clean) \<Rightarrow>
          (case tn_on_data t of
             Some on_data \<Rightarrow> Some (if clean \<noteq> [] then t\<lparr>tn_app := on_data clean (tn_app t)\<rparr> else t)
           | None \<Rightarrow> Some t))"

text \<open>A stream that arrives in several segments.\<close>

fun telnet_feeds :: "bytes list \<Rightarrow> 'a telnet \<Rightarrow> 'a telnet option" where
  "telnet_feeds [] t = Some t"
| "telnet_feeds (cs # css) t = Option.bind (telnet_feed cs t) (telnet_feeds css)"

definition on_tcp_event :: "tcp_event \<Rightarrow> 'a telnet tcp \<Rightarrow> 'a telnet tcp" where
  "on_tcp_event ev s =
     (let t = t_app s in
      if tn_overrun t then s
      else s\<lparr>t_app :=
        (case ev of
           EvEstablished \<Rightarrow> (case tn_on_established t of Some f \<Rightarrow> t\<lparr>tn_app := f (tn_app t)\<rparr> | None \<Rightarrow> t)
         | EvData data \<Rightarrow> (case telnet_feed data t of Some t' \<Rightarrow> t' | None \<Rightarrow> t\<lparr>tn_overrun := True\<rparr>)
         | EvClosed \<Rightarrow> (case tn_on_closed t of Some f \<Rightarrow> t\<lparr>tn_app := f (tn_app t)\<rparr> | None \<Rightarrow> t))\<rparr>)"

section \<open>Calls\<close>

definition telnet_connect ::
  "u32 \<Rightarrow> ('a \<Rightarrow> 'a) option \<Rightarrow> (bytes \<Rightarrow> 'a \<Rightarrow> 'a) option \<Rightarrow> ('a \<Rightarrow> 'a) option \<Rightarrow> 'a telnet tcp \<Rightarrow> bool \<times> 'a telnet tcp" where
  "telnet_connect ip on_established on_data on_closed s =
     tcp_connect ip TELNET_PORT
       (s\<lparr>t_app := (t_app s)\<lparr>tn_pstate := TN_DATA, tn_tx_queue := [], tn_on_established := on_established,
          tn_on_data := on_data, tn_on_closed := on_closed\<rparr>\<rparr>)"

definition escape :: "bytes \<Rightarrow> bytes" where
  "escape data = concat (map (\<lambda>b. if b = IAC then [b, IAC] else [b]) data)"

text \<open>The length after escaping is counted in 16 bits.\<close>

definition escaped_len :: "bytes \<Rightarrow> u16" where
  "escaped_len data = of_nat (length data) + of_nat (count_list data IAC)"

definition telnet_send :: "bytes \<Rightarrow> 'a telnet tcp \<Rightarrow> bool \<times> 'a telnet tcp" where
  "telnet_send data s =
     (let t = t_app s in
      if \<not> tcp_is_connected s then (False, s)
      else if length (tn_tx_queue t) + unat (escaped_len data) > TELNET_TX_QUEUE_LEN then (False, s)
      else
        let q = tn_tx_queue t @ escape data in
        (True, s\<lparr>t_app := t\<lparr>tn_tx_queue := q, tn_overrun := (tn_overrun t \<or> length q > TELNET_TX_QUEUE_LEN)\<rparr>\<rparr>))"

definition telnet_close :: "'a telnet tcp \<Rightarrow> 'a telnet tcp" where "telnet_close s = snd (tcp_close s)"

definition telnet_abort :: "'a telnet tcp \<Rightarrow> 'a telnet tcp" where
  "telnet_abort s = tcp_abort (s\<lparr>t_app := (t_app s)\<lparr>tn_tx_queue := [], tn_pstate := TN_DATA\<rparr>\<rparr>)"

definition telnet_poll :: "'a telnet tcp \<Rightarrow> 'a telnet tcp" where
  "telnet_poll s =
     (let q = tn_tx_queue (t_app s) in
      if \<not> tcp_is_connected s then s
      else if q = [] then s
      else
        let n = (if length q > TCP_MAX_PAYLOAD then TCP_MAX_PAYLOAD else length q) in
        case tcp_send (take n q) s of (ok, s) \<Rightarrow>
          if ok then s\<lparr>t_app := (t_app s)\<lparr>tn_tx_queue := drop n q\<rparr>\<rparr> else s)"

section \<open>The grammar of the byte stream\<close>

text \<open>What a stream means: its data bytes, and the commands that ask for an answer. An unfinished sequence at the end means nothing.\<close>

datatype token = Byte u8 | Ask u8 u8

fun skip_sub :: "bytes \<Rightarrow> bytes option" where
  "skip_sub (b # c # bs) = (if b = IAC then (if c = SE then Some bs else skip_sub bs) else skip_sub (c # bs))"
| "skip_sub bs = None"

lemma skip_sub_shorter: "skip_sub bs = Some cs \<Longrightarrow> length cs < length bs"
  by (induction bs rule: skip_sub.induct) (auto split: if_splits)

function tokens :: "bytes \<Rightarrow> token list" where
  "tokens bs =
     (case bs of
        [] \<Rightarrow> []
      | b # bs' \<Rightarrow>
          if b \<noteq> IAC then Byte b # tokens bs'
          else (case bs' of
              [] \<Rightarrow> []
            | c # cs \<Rightarrow>
                if c = IAC then Byte c # tokens cs
                else if c \<in> {DO', WILL} then (case cs of [] \<Rightarrow> [] | opt # ds \<Rightarrow> Ask c opt # tokens ds)
                else if c \<in> {DONT, WONT} then (case cs of [] \<Rightarrow> [] | opt # ds \<Rightarrow> tokens ds)
                else if c = SB then (case skip_sub cs of None \<Rightarrow> [] | Some ds \<Rightarrow> tokens ds)
                else tokens cs))"
  by pat_completeness auto
termination by (relation "measure length") (auto dest!: skip_sub_shorter)

declare tokens.simps [simp del]

definition data_of :: "token list \<Rightarrow> bytes" where
  "data_of ts = concat (map (\<lambda>t. case t of Byte b \<Rightarrow> [b] | Ask _ _ \<Rightarrow> []) ts)"

text \<open>
  The answer each request is due, by the policy written down in \<open>telnet.h\<close>: the client offers nothing itself, so it refuses
  everything it is asked to do, and of what the other side offers to do it accepts to echo (option 1) and to suppress the go-ahead
  (option 3). The bytes are those of RFC 854.
\<close>

definition due_answer :: "u8 \<Rightarrow> u8 \<Rightarrow> bytes" where
  "due_answer request opt =
     (if request = 251 then (if opt \<in> {1, 3} then [255, 253, opt] else [255, 254, opt]) else [255, 252, opt])"

definition answers :: "token list \<Rightarrow> bytes list" where
  "answers ts = concat (map (\<lambda>t. case t of Byte b \<Rightarrow> [] | Ask c opt \<Rightarrow> [due_answer c opt]) ts)"

section \<open>The parser follows the grammar, however the stream is cut\<close>

text \<open>The unfinished sequence a parser state stands for.\<close>

definition begun :: "'a telnet \<Rightarrow> bytes" where
  "begun t = (case tn_pstate t of
      TN_DATA \<Rightarrow> [] | TN_IAC \<Rightarrow> [IAC] | TN_CMD \<Rightarrow> [IAC, tn_pending_cmd t] | TN_SB \<Rightarrow> [IAC, SB] | TN_SB_IAC \<Rightarrow> [IAC, SB, IAC])"

definition parse_ok :: "'a telnet \<Rightarrow> bool" where
  "parse_ok t \<longleftrightarrow> (tn_pstate t = TN_CMD \<longrightarrow> tn_pending_cmd t \<in> {DO', DONT, WILL, WONT})"

lemma tokens_simps:
  "tokens [] = []"
  "b \<noteq> IAC \<Longrightarrow> tokens (b # bs) = Byte b # tokens bs"
  "tokens [IAC] = []"
  "tokens (IAC # IAC # bs) = Byte IAC # tokens bs"
  "c \<in> {DO', DONT, WILL, WONT} \<Longrightarrow> tokens [IAC, c] = []"
  "c \<in> {DO', WILL} \<Longrightarrow> tokens (IAC # c # opt # bs) = Ask c opt # tokens bs"
  "c \<in> {DONT, WONT} \<Longrightarrow> tokens (IAC # c # opt # bs) = tokens bs"
  "tokens (IAC # SB # bs) = (case skip_sub bs of None \<Rightarrow> [] | Some ds \<Rightarrow> tokens ds)"
  "c \<notin> {IAC, DO', DONT, WILL, WONT, SB} \<Longrightarrow> tokens (IAC # c # bs) = tokens bs"
  by (subst tokens.simps; auto)+

lemma skip_sub_simps:
  "b \<noteq> IAC \<Longrightarrow> skip_sub (b # bs) = skip_sub bs"
  "skip_sub (IAC # b # bs) = (if b = SE then Some bs else skip_sub bs)"
  by (cases bs; simp)+

lemma tokens_begun: "parse_ok t \<Longrightarrow> tokens (begun t) = []"
  by (cases "tn_pstate t") (auto simp: begun_def parse_ok_def tokens_simps)

text \<open>What one byte makes of a state: the token it completes, if any.\<close>

definition emits :: "u8 \<Rightarrow> 'a telnet \<Rightarrow> token list" where
  "emits b t = (case tn_pstate t of
      TN_DATA \<Rightarrow> if b = IAC then [] else [Byte b]
    | TN_IAC \<Rightarrow> if b = IAC then [Byte b] else []
    | TN_CMD \<Rightarrow> if tn_pending_cmd t \<in> {DO', WILL} then [Ask (tn_pending_cmd t) b] else []
    | _ \<Rightarrow> [])"

definition settings :: "'a telnet \<Rightarrow> ('a \<Rightarrow> 'a) option \<times> (bytes \<Rightarrow> 'a \<Rightarrow> 'a) option \<times> ('a \<Rightarrow> 'a) option \<times> 'a \<times> bool" where
  "settings t = (tn_on_established t, tn_on_data t, tn_on_closed t, tn_app t, tn_overrun t)"

definition queued :: "bytes list \<Rightarrow> bytes \<Rightarrow> bytes" where
  "queued rs q = fold (\<lambda>r q. if length q + length r > TELNET_TX_QUEUE_LEN then q else q @ r) rs q"

lemma queue_bytes_simps [simp]:
  "tn_pstate (snd (queue_bytes r t)) = tn_pstate t" "tn_pending_cmd (snd (queue_bytes r t)) = tn_pending_cmd t"
  "tn_overrun (snd (queue_bytes r t)) = tn_overrun t" "settings (snd (queue_bytes r t)) = settings t"
  by (simp_all add: queue_bytes_def settings_def)

lemma queue_bytes_cases:
  "tn_tx_queue (snd (queue_bytes r t)) = queued [r] (tn_tx_queue t)"
  by (simp add: queue_bytes_def queued_def)

lemma answered: "c \<in> {DO', WILL} \<Longrightarrow> [IAC, negotiation_reply c opt, opt] = due_answer c opt"
  by (auto simp: negotiation_reply_def due_answer_def)

lemma feed_byte_step:
  assumes "parse_ok t" "feed_byte b (t, clean) = Some (t', clean')"
  shows "parse_ok t' \<and> tokens (begun t @ b # rest) = emits b t @ tokens (begun t' @ rest) \<and> clean' = clean @ data_of (emits b t) \<and>
    settings t' = settings t \<and> tn_tx_queue t' = queued (answers (emits b t)) (tn_tx_queue t)"
proof -
  note defs = feed_byte_def keep_byte_def begun_def parse_ok_def emits_def settings_def data_of_def answers_def queued_def
  show ?thesis
  proof (cases "tn_pstate t")
    case TN_DATA
    then show ?thesis using assms by (cases "b = IAC") (auto simp: defs tokens_simps split: if_splits)
  next
    case TN_IAC
    consider "b = IAC" | "b \<in> {DO', DONT, WILL, WONT}" | "b = SB" | "b \<notin> {IAC, DO', DONT, WILL, WONT, SB}" by blast
    then show ?thesis
    proof cases
      case 4
      with TN_IAC show ?thesis using assms by (auto simp: defs tokens_simps)
    qed (use TN_IAC assms in \<open>auto simp: defs tokens_simps split: if_splits\<close>)
  next
    case TN_CMD
    show ?thesis
    proof (cases "tn_pending_cmd t \<in> {DO', WILL}")
      case True
      then have t': "t' = (answer_negotiation (tn_pending_cmd t) b t)\<lparr>tn_pstate := TN_DATA\<rparr>" "clean' = clean"
        using assms TN_CMD by (auto simp: feed_byte_def)
      then show ?thesis
        using True TN_CMD queue_bytes_simps [of "[IAC, negotiation_reply (tn_pending_cmd t) b, b]" t]
            queue_bytes_cases [of "[IAC, negotiation_reply (tn_pending_cmd t) b, b]" t] answered [OF True, of b]
        by (auto simp: answer_negotiation_def begun_def parse_ok_def emits_def settings_def data_of_def answers_def queued_def tokens_simps)
    next
      case False
      then show ?thesis using assms TN_CMD by (auto simp: defs tokens_simps)
    qed
  next
    case TN_SB
    then show ?thesis using assms by (cases "b = IAC") (auto simp: defs tokens_simps skip_sub_simps)
  next
    case TN_SB_IAC
    then show ?thesis using assms by (cases "b = SE") (auto simp: defs tokens_simps skip_sub_simps)
  qed
qed

lemma feed_byte_runs: "length clean < TCP_MAX_PAYLOAD \<Longrightarrow> \<exists>t' clean'. feed_byte b (t, clean) = Some (t', clean')"
  by (auto simp: feed_byte_def keep_byte_def split: telnet_parse_state.split)

lemma token_append [simp]:
  "data_of (xs @ ys) = data_of xs @ data_of ys" "answers (xs @ ys) = answers xs @ answers ys"
  "queued (rs @ qs) q = queued qs (queued rs q)"
  by (simp_all add: data_of_def answers_def queued_def)

lemma emits_length: "length (data_of (emits b t)) \<le> 1"
  by (cases "tn_pstate t") (simp_all add: emits_def data_of_def)

lemma feed_all:
  "parse_ok t \<Longrightarrow> feed_bytes bs (t, clean) = Some (t', clean') \<Longrightarrow>
   \<exists>ts. parse_ok t' \<and> (\<forall>rest. tokens (begun t @ bs @ rest) = ts @ tokens (begun t' @ rest)) \<and> clean' = clean @ data_of ts \<and>
     settings t' = settings t \<and> tn_tx_queue t' = queued (answers ts) (tn_tx_queue t)"
proof (induction bs arbitrary: t clean)
  case Nil
  then show ?case by (intro exI [of _ "[]"]) (simp add: data_of_def answers_def queued_def)
next
  case (Cons b bs)
  then obtain t1 clean1 where 1: "feed_byte b (t, clean) = Some (t1, clean1)" "feed_bytes bs (t1, clean1) = Some (t', clean')"
    by (auto simp: bind_eq_Some_conv)
  note step = feed_byte_step [OF Cons.prems(1) 1(1)]
  from Cons.IH [OF _ 1(2)] step obtain ts where
    ts: "parse_ok t'" "\<forall>rest. tokens (begun t1 @ bs @ rest) = ts @ tokens (begun t' @ rest)" "clean' = clean1 @ data_of ts"
     "settings t' = settings t1" "tn_tx_queue t' = queued (answers ts) (tn_tx_queue t1)" by blast
  have "tokens (begun t @ b # bs @ rest) = emits b t @ tokens (begun t1 @ bs @ rest)" for rest
    using feed_byte_step [OF Cons.prems(1) 1(1), of "bs @ rest"] by blast
  then show ?case
    using ts step by (intro exI [of _ "emits b t @ ts"]) simp
qed

lemma feed_bytes_run:
  "parse_ok t \<Longrightarrow> length clean + length bs \<le> TCP_MAX_PAYLOAD \<Longrightarrow> \<exists>t' clean'. feed_bytes bs (t, clean) = Some (t', clean')"
proof (induction bs arbitrary: t clean)
  case (Cons b bs)
  then obtain t1 clean1 where 1: "feed_byte b (t, clean) = Some (t1, clean1)" using feed_byte_runs [of clean b t] by auto
  from feed_byte_step [OF Cons.prems(1) 1] have "parse_ok t1" "clean1 = clean @ data_of (emits b t)" by blast+
  then show ?case using Cons.IH [of t1 clean1] Cons.prems(2) emits_length [of b t] 1 by auto
qed simp

text \<open>A caller that appends what it is given to what it has.\<close>

definition collecting :: "bytes telnet \<Rightarrow> bool" where
  "collecting t \<longleftrightarrow> tn_on_data t = Some (\<lambda>d a. a @ d) \<and> parse_ok t"

lemma feed_collects:
  assumes "collecting t" "telnet_feed bs t = Some t'"
  shows "\<exists>ts. collecting t' \<and> (\<forall>rest. tokens (begun t @ bs @ rest) = ts @ tokens (begun t' @ rest)) \<and>
    tn_app t' = tn_app t @ data_of ts \<and> tn_tx_queue t' = queued (answers ts) (tn_tx_queue t) \<and> tn_overrun t' = tn_overrun t"
proof -
  have p: "parse_ok t" "tn_on_data t = Some (\<lambda>d a. a @ d)" using assms by (simp_all add: collecting_def)
  obtain t1 clean where f: "feed_bytes bs (t, []) = Some (t1, clean)"
    using assms(2) by (auto simp: telnet_feed_def split: option.splits)
  from feed_all [OF p(1) f] obtain ts where
    ts: "parse_ok t1" "\<forall>rest. tokens (begun t @ bs @ rest) = ts @ tokens (begun t1 @ rest)" "clean = data_of ts"
     "settings t1 = settings t" "tn_tx_queue t1 = queued (answers ts) (tn_tx_queue t)" by auto
  have d: "tn_on_data t1 = Some (\<lambda>d a. a @ d)" "tn_app t1 = tn_app t" "tn_overrun t1 = tn_overrun t"
    using ts(4) p(2) by (simp_all add: settings_def)
  have "t' = t1\<lparr>tn_app := tn_app t @ data_of ts\<rparr>"
    using f d ts(3) assms(2) by (auto simp: telnet_feed_def split: if_splits)
  moreover have "begun (t1\<lparr>tn_app := a\<rparr>) = begun t1" "parse_ok (t1\<lparr>tn_app := a\<rparr>) = parse_ok t1" for a
    by (cases "tn_pstate t1"; simp add: begun_def parse_ok_def)+
  ultimately show ?thesis using ts d by (simp add: collecting_def)
qed

lemma feed_runs:
  assumes "parse_ok t" "length bs \<le> TCP_MAX_PAYLOAD"
  shows "\<exists>t'. telnet_feed bs t = Some t'"
proof -
  obtain t1 clean where "feed_bytes bs (t, []) = Some (t1, clean)" using feed_bytes_run [OF assms(1), of "[]" bs] assms(2) by auto
  then show ?thesis by (simp add: telnet_feed_def split: option.split)
qed

lemma feeds_collect:
  "collecting t \<Longrightarrow> telnet_feeds css t = Some t' \<Longrightarrow>
   \<exists>ts. collecting t' \<and> (\<forall>rest. tokens (begun t @ concat css @ rest) = ts @ tokens (begun t' @ rest)) \<and>
    tn_app t' = tn_app t @ data_of ts \<and> tn_tx_queue t' = queued (answers ts) (tn_tx_queue t) \<and> tn_overrun t' = tn_overrun t"
proof (induction css arbitrary: t)
  case Nil
  then show ?case by (intro exI [of _ "[]"]) (simp add: data_of_def answers_def queued_def)
next
  case (Cons cs css)
  then obtain t1 where 1: "telnet_feed cs t = Some t1" "telnet_feeds css t1 = Some t'" by (auto simp: bind_eq_Some_conv)
  from feed_collects [OF Cons.prems(1) 1(1)] obtain ts where ts: "collecting t1"
    "\<forall>rest. tokens (begun t @ cs @ rest) = ts @ tokens (begun t1 @ rest)"
    "tn_app t1 = tn_app t @ data_of ts" "tn_tx_queue t1 = queued (answers ts) (tn_tx_queue t)" "tn_overrun t1 = tn_overrun t" by blast
  from Cons.IH [OF ts(1) 1(2)] obtain us where us: "collecting t'"
    "\<forall>rest. tokens (begun t1 @ concat css @ rest) = us @ tokens (begun t' @ rest)"
    "tn_app t' = tn_app t1 @ data_of us" "tn_tx_queue t' = queued (answers us) (tn_tx_queue t1)" "tn_overrun t' = tn_overrun t1" by blast
  show ?case
    using ts us by (intro exI [of _ "ts @ us"]) simp
qed

lemma feeds_run:
  "collecting t \<Longrightarrow> \<forall>cs \<in> set css. length cs \<le> TCP_MAX_PAYLOAD \<Longrightarrow> \<exists>t'. telnet_feeds css t = Some t'"
proof (induction css arbitrary: t)
  case (Cons cs css)
  then obtain t1 where 1: "telnet_feed cs t = Some t1" using feed_runs [of t cs] by (auto simp: collecting_def)
  then show ?case using Cons.IH [of t1] feed_collects [OF Cons.prems(1) 1] Cons.prems(2) by auto
qed simp

lemma queued_length: "length q \<le> TELNET_TX_QUEUE_LEN \<Longrightarrow> length (queued rs q) \<le> TELNET_TX_QUEUE_LEN"
proof (induction rs arbitrary: q)
  case (Cons r rs)
  then show ?case using Cons.IH [of "if length q + length r > TELNET_TX_QUEUE_LEN then q else q @ r"] by (simp add: queued_def)
qed (simp add: queued_def)

lemma queued_room: "length q + length (concat rs) \<le> TELNET_TX_QUEUE_LEN \<Longrightarrow> queued rs q = q @ concat rs"
proof (induction rs arbitrary: q)
  case (Cons r rs)
  then show ?case using Cons.IH [of "q @ r"] by (simp add: queued_def)
qed (simp add: queued_def)


definition some_telnet :: "bytes telnet" where
  "some_telnet = \<lparr>tn_pstate = TN_DATA, tn_pending_cmd = 0, tn_tx_queue = [], tn_on_established = None, tn_on_data = Some (\<lambda>d a. a @ d),
     tn_on_closed = None, tn_app = [], tn_overrun = False\<rparr>"


text \<open>A segment of 537 data bytes, which the network code accepts, writes past the end of the buffer.\<close>

lemma data_runs:
  "tn_pstate t = TN_DATA \<Longrightarrow> IAC \<notin> set bs \<Longrightarrow> length clean + length bs \<le> TCP_MAX_PAYLOAD \<Longrightarrow>
   feed_bytes (bs @ cs) (t, clean) = feed_bytes cs (t, clean @ bs)"
  by (induction bs arbitrary: clean) (auto simp: feed_byte_def keep_byte_def)

lemma telnet_feed_overruns:
  assumes "tn_pstate t = TN_DATA" "IAC \<notin> set bs" "length bs > TCP_MAX_PAYLOAD"
  shows "telnet_feed bs t = None"
proof -
  let ?cs = "drop TCP_MAX_PAYLOAD bs"
  obtain b cs where cs: "?cs = b # cs" using assms(3) by (cases ?cs) auto
  have "b \<in> set bs" using cs by (metis in_set_dropD list.set_intros(1))
  then have b: "b \<noteq> IAC" using assms(2) by auto
  have "IAC \<notin> set (take TCP_MAX_PAYLOAD bs)" using assms(2) in_set_takeD by fast
  then have "feed_bytes (take TCP_MAX_PAYLOAD bs @ ?cs) (t, []) = feed_bytes ?cs (t, take TCP_MAX_PAYLOAD bs)"
    using data_runs [OF assms(1), of "take TCP_MAX_PAYLOAD bs" "[]" ?cs] assms(3) by simp
  also have "\<dots> = None" using assms(1,3) b by (simp add: cs feed_byte_def keep_byte_def)
  finally show ?thesis by (simp add: telnet_feed_def)
qed

section \<open>Sending\<close>

lemma tokens_escape: "tokens (escape d) = map Byte d"
  by (induction d) (simp_all add: escape_def tokens_simps)

lemma data_of_bytes [simp]: "data_of (map Byte d) = d" "answers (map Byte d) = []"
  by (induction d) (simp_all add: data_of_def answers_def)

lemma length_escape: "length (escape d) = length d + count_list d IAC"
  by (induction d) (simp_all add: escape_def)

lemma count_replicate: "count_list (replicate n x) x = n"
  by (induction n) simp_all

lemma escaped_len_exact: "length (escape d) < 65536 \<Longrightarrow> unat (escaped_len d) = length (escape d)"
proof -
  assume "length (escape d) < 65536"
  moreover have "escaped_len d = of_nat (length (escape d))" by (simp add: escaped_len_def length_escape)
  ultimately show ?thesis by (simp add: unat_of_nat)
qed

text \<open>
  What is sent is what is heard. Data that \<open>telnet_send\<close> accepts while its length after escaping fits 16 bits goes to the empty
  queue without overrunning it, the next poll hands the queue to TCP as one segment when none is outstanding, and another telnet
  client given these bytes in any pieces passes on exactly the data and answers nothing.
\<close>

theorem telnet_escape_roundtrip:
  assumes "telnet_send data s = (True, s1)" "tn_tx_queue (t_app s) = []" "length (escape data) < 65536" "data \<noteq> []"
    and "\<not> t_tx_pending s" "telnet_poll s1 = s2" "concat css = t_tx_buf s2"
    and "tn_on_data t = Some (\<lambda>d a. a @ d)" "tn_pstate t = TN_DATA" "\<forall>cs \<in> set css. length cs \<le> TCP_MAX_PAYLOAD"
  shows "\<exists>t'. tn_overrun (t_app s1) = tn_overrun (t_app s) \<and> tn_tx_queue (t_app s2) = [] \<and> t_tx_pending s2 \<and>
    telnet_feeds css t = Some t' \<and> tn_app t' = tn_app t @ data \<and> tn_tx_queue t' = tn_tx_queue t"
proof -
  let ?e = "escape data"
  have s: "tcp_is_connected s" "length ?e \<le> 512" "s1 = s\<lparr>t_app := (t_app s)\<lparr>tn_tx_queue := ?e, tn_overrun := tn_overrun (t_app s)\<rparr>\<rparr>"
    using assms(1,2) escaped_len_exact [OF assms(3)] by (auto simp: telnet_send_def Let_def split: if_splits)
  have ne: "?e \<noteq> []" using assms(4) by (cases data) (simp_all add: escape_def)
  have "tcp_send ?e s1 = (True, send_tracked (TCP_FLAG_ACK OR TCP_FLAG_PSH) ?e s1)"
    using s assms(5) by (simp add: tcp_send_def tcp_is_connected_def)
  moreover have "tcp_is_connected s1" "tn_tx_queue (t_app s1) = ?e" using s by (simp_all add: tcp_is_connected_def)
  moreover have "\<not> length ?e > TCP_MAX_PAYLOAD" using s(2) by simp
  ultimately have s2: "s2 = (send_tracked (TCP_FLAG_ACK OR TCP_FLAG_PSH) ?e s1)\<lparr>t_app := (t_app s1)\<lparr>tn_tx_queue := []\<rparr>\<rparr>"
    using assms(6) ne by (auto simp: telnet_poll_def Let_def)
  then have "t_tx_buf s2 = ?e" "t_tx_pending s2" by (simp_all add: send_tracked_def Let_def)
  have t: "collecting t" "begun t = []" using assms(8,9) by (simp_all add: collecting_def parse_ok_def begun_def)
  obtain t' where t': "telnet_feeds css t = Some t'" using feeds_run [OF t(1) assms(10)] by blast
  from feeds_collect [OF t(1) t'] obtain ts where ts: "collecting t'"
    "\<forall>rest. tokens (begun t @ concat css @ rest) = ts @ tokens (begun t' @ rest)"
    "tn_app t' = tn_app t @ data_of ts" "tn_tx_queue t' = queued (answers ts) (tn_tx_queue t)" by blast
  from ts(2)[rule_format, of "[]"] have "ts = map Byte data"
    using tokens_begun [of t'] ts(1) t(2) assms(7) \<open>t_tx_buf s2 = ?e\<close> tokens_escape
    by (simp add: collecting_def)
  then show ?thesis using t' ts(3,4) s s2 \<open>t_tx_pending s2\<close> by (simp add: queued_def)
qed

definition connected_telnet :: "bytes telnet tcp" where
  "connected_telnet = \<lparr>t_state = TCP_ESTABLISHED, t_remote_ip = 1, t_remote_port = 23, t_local_port = 49152, t_snd_una = 1, t_snd_nxt = 1,
     t_rcv_nxt = 1, t_tx_pending = False, t_tx_seq = 0, t_tx_flags = 0, t_tx_buf = [], t_last_send = 0, t_retries = 0,
     t_time_wait_start = 0, t_handler = True, t_our_ip = 2, t_next_port = 49153, t_now = 0, t_out = [], t_app = some_telnet\<rparr>"

theorem telnet_escape_roundtrip_witness:
  "\<exists>s1. telnet_send [104, IAC] connected_telnet = (True, s1) \<and>
     (\<exists>t'. telnet_feeds [[104, IAC], [IAC]] some_telnet = Some t' \<and> tn_app t' = [104, IAC])"
proof -
  have q: "tn_tx_queue (t_app connected_telnet) = []" "length (escape [104, IAC]) < 65536" "\<not> t_tx_pending connected_telnet"
    by (simp_all add: connected_telnet_def some_telnet_def escape_def)
  let ?s1 = "connected_telnet\<lparr>t_app := some_telnet\<lparr>tn_tx_queue := [104, IAC, IAC]\<rparr>\<rparr>"
  have s1: "telnet_send [104, IAC] connected_telnet = (True, ?s1)"
    using escaped_len_exact [OF q(2)]
    by (simp add: telnet_send_def Let_def tcp_is_connected_def connected_telnet_def some_telnet_def escape_def)
  have "t_tx_buf (telnet_poll ?s1) = [104, IAC, IAC]"
    by (simp add: telnet_poll_def Let_def tcp_is_connected_def tcp_send_def connected_telnet_def send_tracked_def tcp_send_segment_def)
  then have "concat [[104, IAC], [IAC]] = t_tx_buf (telnet_poll ?s1)" by simp
  from telnet_escape_roundtrip [OF s1 q(1,2) _ q(3) refl this, of some_telnet] s1 show ?thesis by (auto simp: some_telnet_def)
qed

section \<open>Negotiation ends\<close>

lemma queued_some: "\<exists>qs. queued rs q = q @ concat qs \<and> set qs \<subseteq> set rs"
proof (induction rs arbitrary: q)
  case Nil
  show ?case by (intro exI [of _ "[]"]) (simp add: queued_def)
next
  case (Cons r rs)
  let ?q = "if length q + length r > TELNET_TX_QUEUE_LEN then q else q @ r"
  obtain qs where qs: "queued rs ?q = ?q @ concat qs" "set qs \<subseteq> set rs" using Cons by blast
  have "queued (r # rs) q = queued rs ?q" by (simp add: queued_def)
  then have "queued (r # rs) q = q @ concat (if length q + length r > TELNET_TX_QUEUE_LEN then qs else r # qs)"
    using qs(1) by simp
  moreover have "set (if length q + length r > TELNET_TX_QUEUE_LEN then qs else r # qs) \<subseteq> set (r # rs)" using qs(2) by auto
  ultimately show ?case by blast
qed

lemma answers_form: "r \<in> set (answers ts) \<Longrightarrow> \<exists>c opt. Ask c opt \<in> set ts \<and> r = due_answer c opt"
  by (auto simp: answers_def split: token.splits)

text \<open>What a stream of answers asks for in turn: only the two accepted offers, and those are refused by the next.\<close>

definition is_answer :: "bytes \<Rightarrow> bool" where
  "is_answer r \<longleftrightarrow> (\<exists>c opt. c \<in> {DO', WONT, DONT} \<and> r = [IAC, c, opt])"

lemma tokens_answers:
  "\<forall>r \<in> set rs. is_answer r \<Longrightarrow> set (tokens (concat rs)) \<subseteq> {Ask DO' opt | opt. [IAC, DO', opt] \<in> set rs}"
proof (induction rs)
  case (Cons r rs)
  then obtain c opt where r: "r = [IAC, c, opt]" "c \<in> {DO', WONT, DONT}" by (auto simp: is_answer_def)
  then have "tokens (concat (r # rs)) = (if c = DO' then [Ask DO' opt] else []) @ tokens (concat rs)"
    by (auto simp: tokens_simps)
  then show ?case using Cons r by auto
qed (simp add: tokens_simps)

lemma reply_is_answer: "is_answer (due_answer c opt)"
  by (simp add: is_answer_def due_answer_def)

lemma hears:
  assumes "collecting t" "begun t = []" "tn_tx_queue t = []" "telnet_feeds css t = Some t'"
  shows "\<exists>rs. tn_tx_queue t' = concat rs \<and> set rs \<subseteq> set (answers (tokens (concat css))) \<and> length (concat rs) \<le> TELNET_TX_QUEUE_LEN"
proof -
  from feeds_collect [OF assms(1,4)] obtain ts where ts: "\<forall>rest. tokens (begun t @ concat css @ rest) = ts @ tokens (begun t' @ rest)"
    "collecting t'" "tn_tx_queue t' = queued (answers ts) (tn_tx_queue t)" by blast
  from ts(1)[rule_format, of "[]"] have "ts = tokens (concat css)" using tokens_begun [of t'] ts(2) assms(2) by (simp add: collecting_def)
  then show ?thesis using ts(3) assms(3) queued_some [of "answers ts" "[]"] queued_length [of "[]" "answers ts"] by auto
qed

lemma hears_answers:
  assumes "collecting t" "begun t = []" "tn_tx_queue t = []" "length q \<le> TELNET_TX_QUEUE_LEN"
  shows "\<exists>t' rs. telnet_feed q t = Some t' \<and> tn_tx_queue t' = concat rs \<and> set rs \<subseteq> set (answers (tokens q)) \<and>
    length (concat rs) \<le> TELNET_TX_QUEUE_LEN"
proof -
  obtain t' where "telnet_feed q t = Some t'" using feed_runs [of t q] assms(1,4) by (auto simp: collecting_def)
  then show ?thesis using hears [OF assms(1-3), of "[q]" t'] by simp
qed

text \<open>
  C25: Two telnet ends never negotiate for ever. Whatever a client hears, in whatever segments that do not overrun its buffer, if its
  answers are given to a second one and the second one's answers to a third, both are understood and the third answers nothing.
\<close>

theorem telnet_negotiation_ends:
  assumes "collecting a" "begun a = []" "tn_tx_queue a = []" "collecting b" "begun b = []" "tn_tx_queue b = []"
    and "collecting c" "begun c = []" "tn_tx_queue c = []" "telnet_feeds css a = Some a'"
  shows "\<exists>b' c'. telnet_feed (tn_tx_queue a') b = Some b' \<and> telnet_feed (tn_tx_queue b') c = Some c' \<and> tn_tx_queue c' = []"
proof -
  obtain rs where rs: "tn_tx_queue a' = concat rs" "set rs \<subseteq> set (answers (tokens (concat css)))" "length (concat rs) \<le> TELNET_TX_QUEUE_LEN"
    using hears [OF assms(1-3,10)] by blast
  have ok: "\<forall>r \<in> set rs. is_answer r" if "set rs \<subseteq> set (answers ts)" for rs ts
    using that reply_is_answer by (blast dest: answers_form)
  have rs_ok: "\<forall>r \<in> set rs. is_answer r" by (rule ok [OF rs(2)])
  obtain b' qs where qs: "telnet_feed (concat rs) b = Some b'" "tn_tx_queue b' = concat qs" "set qs \<subseteq> set (answers (tokens (concat rs)))"
    "length (concat qs) \<le> TELNET_TX_QUEUE_LEN" using hears_answers [OF assms(4-6) rs(3)] by blast
  have wont: "r = [IAC, WONT, opt]" if h: "r \<in> set qs" "r = [IAC, c, opt]" for r c opt
  proof -
    obtain c' opt' where "Ask c' opt' \<in> set (tokens (concat rs))" "r = due_answer c' opt'"
      using answers_form [of r "tokens (concat rs)"] subsetD [OF qs(3) h(1)] by blast
    then show ?thesis using tokens_answers [OF rs_ok] h by (auto simp: due_answer_def)
  qed
  have "[IAC, DO', opt] \<notin> set qs" for opt using wont [of "[IAC, DO', opt]" DO' opt] by auto
  then have "tokens (concat qs) = []" using tokens_answers [OF ok [OF qs(3)]] by simp
  then have "answers (tokens (concat qs)) = []" by (simp add: answers_def)
  then obtain c' where "telnet_feed (concat qs) c = Some c'" "tn_tx_queue c' = []" using hears_answers [OF assms(7-9) qs(4)] by auto
  then show ?thesis using rs(1) qs(1,2) by simp
qed

theorem telnet_negotiation_ends_witness:
  "\<exists>a' b' c'. telnet_feeds [[IAC, WILL, OPT_SGA]] some_telnet = Some a' \<and> tn_tx_queue a' = [IAC, DO', OPT_SGA] \<and>
     telnet_feed (tn_tx_queue a') some_telnet = Some b' \<and> telnet_feed (tn_tx_queue b') some_telnet = Some c' \<and> tn_tx_queue c' = []"
proof -
  obtain a' where a': "telnet_feeds [[IAC, WILL, OPT_SGA]] some_telnet = Some a'" "tn_tx_queue a' = [IAC, DO', OPT_SGA]"
    by (simp add: telnet_feed_def feed_byte_def answer_negotiation_def queue_bytes_def negotiation_reply_def some_telnet_def)
  have "collecting some_telnet" "begun some_telnet = []" "tn_tx_queue some_telnet = []"
    by (simp_all add: some_telnet_def collecting_def parse_ok_def begun_def)
  from telnet_negotiation_ends [OF this this this a'(1)] a' show ?thesis by blast
qed

section \<open>A length that wraps\<close>

text \<open>
  The room test of \<open>telnet_send\<close> counts in 16 bits: a block of bytes that all need escaping, long enough for its escaped length to
  wrap to at most 512, is accepted on an empty queue and written far past the end of the queue's array.
\<close>

theorem telnet_send_wraps:
  assumes "tcp_is_connected s" "tn_tx_queue (t_app s) = []" "32768 \<le> n" "n \<le> 33024"
  shows "\<exists>s'. telnet_send (replicate n IAC) s = (True, s') \<and> length (tn_tx_queue (t_app s')) \<ge> 65536 \<and> tn_overrun (t_app s')"
proof -
  have e: "length (escape (replicate n IAC)) = 2 * n" by (simp add: length_escape count_replicate)
  have "escaped_len (replicate n IAC) = of_nat (2 * n - 65536)"
  proof -
    have "escaped_len (replicate n IAC) = of_nat (2 * n)" by (simp add: escaped_len_def count_replicate)
    also have "2 * n = (2 * n - 65536) + 65536" using assms(3) by simp
    also have "(of_nat ((2 * n - 65536) + 65536) :: u16) = of_nat (2 * n - 65536)" by (simp only: of_nat_add) simp
    finally show ?thesis .
  qed
  moreover have "unat (of_nat m :: u16) = m" if "m \<le> 512" for m using that by (simp add: unat_of_nat)
  ultimately have "unat (escaped_len (replicate n IAC)) \<le> 512" using assms(3,4) by (simp del: of_nat_diff)
  then show ?thesis using assms e by (simp add: telnet_send_def Let_def)
qed

theorem telnet_send_wraps_witness: "\<exists>s'. telnet_send (replicate 33000 IAC) connected_telnet = (True, s') \<and> tn_overrun (t_app s')"
  using telnet_send_wraps [of connected_telnet 33000]
  by (auto simp: connected_telnet_def some_telnet_def tcp_is_connected_def)

end
