(* ===== verification/Dns.thy ===== *)
theory Dns
  imports Netpath Stream "HOL-Library.Multiset"
begin

text \<open>
  Name resolution: the DNS client of the network process (\<open>src/sw/apps/net/dns.c\<close>) and the calls other processes use
  (\<open>src/sw/common/zdns.c\<close>). C strings are byte lists without their terminating zero; datagrams are handed to the UDP layer of
  \<open>Inet\<close> as a list, and a reply to the asking process is a map from keys to objects, as \<open>z_map_find\<close> sees it.
\<close>

section \<open>Queries\<close>

abbreviation DNS_SERVER_PORT :: u16 where "DNS_SERVER_PORT \<equiv> 53"
abbreviation DNS_MAX_HOSTNAME_LEN :: nat where "DNS_MAX_HOSTNAME_LEN \<equiv> 64"
abbreviation DNS_PKT_MAX :: nat where "DNS_PKT_MAX \<equiv> 12 + DNS_MAX_HOSTNAME_LEN + 8 + 4"
abbreviation DNS_TIMEOUT_TICKS :: u32 where "DNS_TIMEOUT_TICKS \<equiv> 366"
abbreviation DNS_MAX_RETRIES :: nat where "DNS_MAX_RETRIES \<equiv> 3"
abbreviation dot :: u8 where "dot \<equiv> 0x2E"

type_synonym dns_reply = "string \<Rightarrow> sobj option"

function encode_labels :: "bytes \<Rightarrow> bytes option" where
  "encode_labels hostname =
     (let l = takeWhile (\<lambda>c. c \<noteq> dot) hostname; rest = dropWhile (\<lambda>c. c \<noteq> dot) hostname in
      if length l = 0 \<or> length l > 63 then None
      else if rest = [] then Some (of_nat (length l) # l @ [0])
      else map_option (\<lambda>e. of_nat (length l) # l @ e) (encode_labels (tl rest)))"
  by auto
termination
proof (relation "measure length", simp)
  fix h l rest :: bytes
  assume "rest = dropWhile (\<lambda>c. c \<noteq> dot) h" "rest \<noteq> []"
  moreover from this have "length rest \<le> length h" "0 < length rest" using length_dropWhile_le [of "\<lambda>c. c \<noteq> dot" h] by simp_all
  ultimately show "(tl rest, h) \<in> measure length" by (simp only: in_measure length_tl)
qed

declare encode_labels.simps [simp del]

definition encode_question :: "bytes \<Rightarrow> bytes option" where
  "encode_question hostname = map_option (\<lambda>e. e @ [0, 1] @ [0, 1]) (encode_labels hostname)"

definition build_query :: "u16 \<Rightarrow> bytes \<Rightarrow> bytes option" where
  "build_query qid hostname =
     map_option (\<lambda>q. put16 qid @ [0x01, 0x00] @ [0, 1] @ [0, 0] @ [0, 0] @ [0, 0] @ q) (encode_question hostname)"

section \<open>Replies\<close>

text \<open>Offsets are 16 bits wide: the only step that could wrap is the one over a pointer.\<close>

function skip_name :: "view \<Rightarrow> nat \<Rightarrow> nat \<Rightarrow> nat" where
  "skip_name p offset len =
     (if offset < len then
        let b = p offset in
        if b AND 0xC0 = 0xC0 then (offset + 2) mod 65536
        else if b = 0 then (offset + 1) mod 65536
        else if offset + 1 + unat b > len then len
        else skip_name p (offset + 1 + unat b) len
      else offset)"
  by auto
termination by (relation "measure (\<lambda>(p, offset, len). len - offset)") auto

declare skip_name.simps [simp del]

fun skip_questions :: "nat \<Rightarrow> view \<Rightarrow> nat \<Rightarrow> nat \<Rightarrow> nat" where
  "skip_questions 0 p offset len = offset"
| "skip_questions (Suc n) p offset len =
     (if offset < len then
        let offset = skip_name p offset len in
        if offset + 4 > len then len else skip_questions n p (offset + 4) len
      else offset)"

fun find_address :: "nat \<Rightarrow> view \<Rightarrow> nat \<Rightarrow> nat \<Rightarrow> u32 option \<Rightarrow> u32 option" where
  "find_address 0 p offset len found = found"
| "find_address (Suc n) p offset len found =
     (if offset < len then
        let offset = skip_name p offset len in
        if offset + 10 > len then found
        else
          let rtype = get16 p offset; rclass = get16 p (offset + 2); rdlen = unat (get16 p (offset + 8)); offset = offset + 10 in
          if offset + rdlen > len then found
          else
            find_address n p (offset + rdlen) len
              (if found = None \<and> rtype = 1 \<and> rclass = 1 \<and> rdlen = 4 then Some (get32 p offset) else found)
      else found)"

section \<open>The resolver\<close>

record dns =
  dn_querying :: bool
  dn_nameserver :: u32
  dn_qid :: u16
  dn_local_port :: u16
  dn_hostname :: bytes
  dn_req_pid :: u32
  dn_req_tag :: u32
  dn_last_tx :: u32
  dn_retries :: nat
  dn_pkt :: bytes
  dn_next_port :: u16
  dn_now :: u32
  dn_listening :: "u16 option"
  dn_out :: "(u32 \<times> u16 \<times> u16 \<times> bytes) list"
  dn_replies :: "(u32 \<times> u32 \<times> dns_reply) list"

definition next_local_port :: "u16 \<Rightarrow> u16" where
  "next_local_port p = (if p + 1 < 49152 then 49152 else p + 1)"

definition next_qid :: "u32 \<Rightarrow> u16" where "next_qid ticks = ucast (ticks * 2654435761)"

definition dns_set_nameserver :: "u32 \<Rightarrow> dns \<Rightarrow> dns" where "dns_set_nameserver ip s = s\<lparr>dn_nameserver := ip\<rparr>"

definition reply_found :: "u32 \<Rightarrow> dns_reply" where "reply_found ip = [''ok'' \<mapsto> SUint 1, ''ip'' \<mapsto> SUint ip]"
definition reply_failed :: "string \<Rightarrow> dns_reply" where "reply_failed err = [''ok'' \<mapsto> SUint 0, ''error'' \<mapsto> SStr (Some err)]"

definition finish_query :: "dns_reply \<Rightarrow> dns \<Rightarrow> dns" where
  "finish_query reply s =
     s\<lparr>dn_replies := dn_replies s @ [(dn_req_pid s, dn_req_tag s, reply)], dn_listening := None, dn_querying := False\<rparr>"

definition no_address_error :: string where
  "no_address_error = ''dns: no A record in response (CNAME-only answers aren'' @ [CHR 0x27] @ ''t followed -- see dns.c)''"

definition handle_dns_reply :: "u32 \<Rightarrow> u16 \<Rightarrow> view \<Rightarrow> nat \<Rightarrow> dns \<Rightarrow> dns" where
  "handle_dns_reply src_ip src_port p len s =
     (if \<not> dn_querying s then s
      else if src_ip \<noteq> dn_nameserver s \<or> src_port \<noteq> DNS_SERVER_PORT then s
      else if len < 12 then s
      else if get16 p 0 \<noteq> dn_qid s then s
      else
        let flags = get16 p 2 in
        if flags AND 0x8000 = 0 then s
        else
          let qdcount = unat (get16 p 4); ancount = unat (get16 p 6); rcode = flags AND 0x0F;
              offset = skip_questions qdcount p 12 len in
          if rcode \<noteq> 0 then
            finish_query (reply_failed (if rcode = 3 then ''dns: host not found (nxdomain)'' else ''dns: server returned an error'')) s
          else (case find_address ancount p offset len None of
              Some ip \<Rightarrow> finish_query (reply_found ip) s
            | None \<Rightarrow> finish_query (reply_failed no_address_error) s))"

definition refuse :: "u32 \<Rightarrow> u32 \<Rightarrow> string \<Rightarrow> dns \<Rightarrow> dns" where
  "refuse req_pid tag err s = s\<lparr>dn_replies := dn_replies s @ [(req_pid, tag, reply_failed err)]\<rparr>"

definition dns_resolve_start :: "bytes \<Rightarrow> u32 \<Rightarrow> u32 \<Rightarrow> dns \<Rightarrow> dns" where
  "dns_resolve_start hostname req_pid tag s =
     (if dn_querying s then refuse req_pid tag ''dns: busy with another resolution'' s
      else if dn_nameserver s = 0 then refuse req_pid tag ''dns: no nameserver configured'' s
      else if length hostname = 0 \<or> length hostname > DNS_MAX_HOSTNAME_LEN then
        refuse req_pid tag (if length hostname = 0 then ''dns: empty hostname'' else ''dns: hostname too long'') s
      else
        let qid = next_qid (dn_now s); port = next_local_port (dn_next_port s);
            s = s\<lparr>dn_qid := qid, dn_local_port := port, dn_next_port := port\<rparr> in
        case build_query qid hostname of
          None \<Rightarrow> refuse req_pid tag ''dns: malformed hostname'' s
        | Some pkt \<Rightarrow>
            s\<lparr>dn_hostname := hostname, dn_req_pid := req_pid, dn_req_tag := tag, dn_pkt := pkt, dn_retries := 0, dn_querying := True,
              dn_listening := Some port, dn_out := dn_out s @ [(dn_nameserver s, DNS_SERVER_PORT, port, pkt)],
              dn_last_tx := dn_now s\<rparr>)"

definition dns_poll :: "dns \<Rightarrow> dns" where
  "dns_poll s =
     (if \<not> dn_querying s then s
      else if dn_now s - dn_last_tx s < DNS_TIMEOUT_TICKS then s
      else
        let s = s\<lparr>dn_retries := dn_retries s + 1\<rparr> in
        if dn_retries s > DNS_MAX_RETRIES then finish_query (reply_failed ''dns: no response from nameserver'') s
        else s\<lparr>dn_out := dn_out s @ [(dn_nameserver s, DNS_SERVER_PORT, dn_local_port s, dn_pkt s)], dn_last_tx := dn_now s\<rparr>)"

section \<open>Asking another process\<close>

abbreviation Z_NET_DNS_RESOLVE :: u32 where "Z_NET_DNS_RESOLVE \<equiv> 304"
abbreviation Z_NET_DNS_RESOLVE_REPLY :: u32 where "Z_NET_DNS_RESOLVE_REPLY \<equiv> 305"
abbreviation ZDNS_TIMEOUT_TICKS :: u32 where "ZDNS_TIMEOUT_TICKS \<equiv> 5 * 732"

abbreviation Z_PID_NET :: u32 where "Z_PID_NET \<equiv> 2"

definition is_digit :: "u8 \<Rightarrow> bool" where "is_digit c \<longleftrightarrow> 0x30 \<le> c \<and> c \<le> 0x39"

fun digits_loop :: "bytes \<Rightarrow> u32 \<Rightarrow> nat \<Rightarrow> (u32 \<times> bytes) option" where
  "digits_loop [] v digits = Some (v, [])"
| "digits_loop (c # s) v digits =
     (if is_digit c then
        let v = v * 10 + (ucast c - 0x30); digits = digits + 1 in
        if digits > 3 \<or> v > 255 then None else digits_loop s v digits
      else Some (v, c # s))"

definition parse_octet :: "bytes \<Rightarrow> (u32 \<times> bytes) option" where
  "parse_octet s = (case s of c # _ \<Rightarrow> if is_digit c then digits_loop s 0 0 else None | [] \<Rightarrow> None)"

definition parse_dot :: "bytes \<Rightarrow> bytes option" where
  "parse_dot s = (case s of c # s \<Rightarrow> if c = dot then Some s else None | [] \<Rightarrow> None)"

definition z_parse_ipv4 :: "bytes \<Rightarrow> u32 option" where
  "z_parse_ipv4 s =
     do { (a, s) \<leftarrow> parse_octet s; s \<leftarrow> parse_dot s;
          (b, s) \<leftarrow> parse_octet s; s \<leftarrow> parse_dot s;
          (c, s) \<leftarrow> parse_octet s; s \<leftarrow> parse_dot s;
          (d, s) \<leftarrow> parse_octet s;
          if s = [] then Some (push_bit 24 a OR push_bit 16 b OR push_bit 8 c OR d) else None }"

definition resolve_net_pid :: "u32 option \<Rightarrow> u32" where
  "resolve_net_pid found = (case found of Some pid \<Rightarrow> pid | None \<Rightarrow> Z_PID_NET)"

text \<open>A message to the caller: subject, tag and the map in it. \<open>None\<close> when the list ends before the loop does.\<close>

type_synonym dns_polls = "(u32 \<times> (u32 \<times> u32 \<times> dns_reply) option) list"

fun resolve_wait :: "u32 \<Rightarrow> u32 \<Rightarrow> u32 \<Rightarrow> dns_polls \<Rightarrow> (u32 option \<times> string option) option" where
  "resolve_wait start tag err_len [] = None"
| "resolve_wait start tag err_len ((now, got) # ps) =
     (if now - start < ZDNS_TIMEOUT_TICKS then
        (case got of
           None \<Rightarrow> resolve_wait start tag err_len ps
         | Some (subject, t, obj) \<Rightarrow>
             if subject \<noteq> Z_NET_DNS_RESOLVE_REPLY \<or> t \<noteq> tag then resolve_wait start tag err_len ps
             else if \<not> (case obj ''ok'' of Some (SUint u) \<Rightarrow> u \<noteq> 0 | _ \<Rightarrow> False) then
               Some (None, set_err err_len (case obj ''error'' of Some (SStr (Some e)) \<Rightarrow> e | _ \<Rightarrow> ''dns: resolve failed''))
             else (case obj ''ip'' of
                 Some (SUint ip) \<Rightarrow> Some (Some ip, None)
               | _ \<Rightarrow> Some (None, set_err err_len ''dns: malformed reply from net'')))
      else Some (None, set_err err_len ''dns: no reply from net (is it running? `run net`)''))"

text \<open>The result, the counter of tags, and what is sent: to whom, subject, tag and host name.\<close>

definition z_dns_resolve ::
  "bytes \<Rightarrow> u32 \<Rightarrow> u32 option \<Rightarrow> u32 \<Rightarrow> u32 \<Rightarrow> dns_polls \<Rightarrow>
   (u32 option \<times> string option) option \<times> u32 \<times> (u32 \<times> u32 \<times> u32 \<times> bytes) list" where
  "z_dns_resolve hostname err_len net0 tag start ps =
     (if hostname = [] then (Some (None, set_err err_len ''dns: empty hostname''), tag, [])
      else
        let tag = tag + 1 in
        (resolve_wait start tag err_len ps, tag, [(resolve_net_pid net0, Z_NET_DNS_RESOLVE, tag, hostname)]))"

definition z_resolve_host ::
  "bytes \<Rightarrow> u32 \<Rightarrow> u32 option \<Rightarrow> u32 \<Rightarrow> u32 \<Rightarrow> dns_polls \<Rightarrow>
   (u32 option \<times> string option) option \<times> u32 \<times> (u32 \<times> u32 \<times> u32 \<times> bytes) list" where
  "z_resolve_host s err_len net0 tag start ps =
     (case z_parse_ipv4 s of Some ip \<Rightarrow> (Some (Some ip, None), tag, []) | None \<Rightarrow> z_dns_resolve s err_len net0 tag start ps)"

section \<open>Dotted addresses\<close>

text \<open>An octet as a person writes it: one to three digits, at most 255, leading zeros allowed.\<close>

definition decimal :: "bytes \<Rightarrow> nat" where "decimal ds = foldl (\<lambda>v c. v * 10 + (unat c - 0x30)) 0 ds"

definition octet_text :: "bytes \<Rightarrow> bool" where
  "octet_text ds \<longleftrightarrow> ds \<noteq> [] \<and> length ds \<le> 3 \<and> (\<forall>c \<in> set ds. is_digit c) \<and> decimal ds \<le> 255"

definition address :: "bytes \<Rightarrow> bytes \<Rightarrow> bytes \<Rightarrow> bytes \<Rightarrow> u32" where
  "address a b c d = get32 (view_of (map (\<lambda>ds. of_nat (decimal ds)) [a, b, c, d])) 0"

lemma digit_step:
  assumes "is_digit c" "unat (v :: u32) \<le> 255"
  shows "unat (v * 10 + (ucast c - 0x30)) = unat v * 10 + (unat c - 0x30)" "unat c - 0x30 \<le> 9"
proof -
  have c: "48 \<le> unat c" "unat c \<le> 57" using assms(1) by (simp_all add: is_digit_def word_le_nat_alt)
  have "unat c < 4294967296" using order_less_trans [OF unat_lt_8] by simp
  then have u: "unat (ucast c :: u32) = unat c" by (simp add: unsigned_ucast_eq take_bit_eq_mod)
  have d: "unat ((ucast c :: u32) - 0x30) = unat c - 0x30" using c u by (simp add: unat_minus_nowrap)
  have m: "unat (v * 10) = unat v * 10" using assms(2) by (simp add: unat_word_ariths)
  show "unat (v * 10 + (ucast c - 0x30)) = unat v * 10 + (unat c - 0x30)"
    using c assms(2) d m by (simp add: unat_plus_nowrap)
  show "unat c - 0x30 \<le> 9" using c by simp
qed

definition value_from :: "nat \<Rightarrow> bytes \<Rightarrow> nat" where "value_from v ds = foldl (\<lambda>v c. v * 10 + (unat c - 0x30)) v ds"

lemma value_from_ge: "v \<le> value_from v ds"
proof (induction ds arbitrary: v)
  case (Cons c ds)
  have "v \<le> v * 10 + (unat c - 0x30)" by simp
  then show ?case using Cons [of "v * 10 + (unat c - 0x30)"] by (simp add: value_from_def)
qed (simp add: value_from_def)

lemma digits_loop_eq:
  "unat v \<le> 255 \<Longrightarrow> n \<le> 3 \<Longrightarrow> digits_loop s v n =
    (let ds = takeWhile is_digit s in
     if n + length ds \<le> 3 \<and> value_from (unat v) ds \<le> 255 then Some (of_nat (value_from (unat v) ds), dropWhile is_digit s) else None)"
proof (induction s arbitrary: v n)
  case Nil
  then show ?case by (simp add: value_from_def)
next
  case (Cons c s)
  show ?case
  proof (cases "is_digit c")
    case False
    then show ?thesis using Cons.prems by (simp add: value_from_def)
  next
    case True
    let ?v = "v * 10 + (ucast c - 0x30)"
    have v: "unat ?v = unat v * 10 + (unat c - 0x30)" using digit_step [OF True Cons.prems(1)] by blast
    have step: "value_from (unat v) (c # ds) = value_from (unat ?v) ds" for ds by (simp add: value_from_def v)
    show ?thesis
    proof (cases "n + 1 > 3 \<or> ?v > 255")
      case bad: True
      then have "n + length (takeWhile is_digit (c # s)) > 3 \<or> value_from (unat v) (takeWhile is_digit (c # s)) > 255"
      proof
        assume "?v > 255"
        then have "unat ?v > 255" by (simp add: word_less_nat_alt)
        then show ?thesis using True step value_from_ge [of "unat ?v" "takeWhile is_digit s"] by simp
      qed (use True in simp)
      moreover have "digits_loop (c # s) v n = None" using True bad by auto
      ultimately show ?thesis by (auto simp: Let_def)
    next
      case False
      then have "unat ?v \<le> 255" "n + 1 \<le> 3" by (auto simp: word_less_nat_alt)
      from Cons.IH [OF this] True False step show ?thesis by (simp add: Let_def)
    qed
  qed
qed

lemma octet_text_value: "octet_text ds \<longleftrightarrow> ds \<noteq> [] \<and> (\<forall>c \<in> set ds. is_digit c) \<and> 0 + length ds \<le> 3 \<and> value_from 0 ds \<le> 255"
  by (auto simp: octet_text_def value_from_def decimal_def)

lemma takeWhile_digits: "\<forall>c \<in> set (takeWhile is_digit s). is_digit c"
  by (auto dest: set_takeWhileD)

lemma parse_octet_eq:
  "parse_octet s = (let ds = takeWhile is_digit s in if octet_text ds then Some (of_nat (decimal ds), dropWhile is_digit s) else None)"
proof (cases "takeWhile is_digit s = []")
  case True
  then have "parse_octet s = None" by (cases s) (auto simp: parse_octet_def split: if_splits)
  then show ?thesis using True by (simp add: octet_text_def)
next
  case False
  then have "parse_octet s = digits_loop s 0 0" by (cases s) (auto simp: parse_octet_def split: if_splits)
  also have "\<dots> = (let ds = takeWhile is_digit s in if octet_text ds then Some (of_nat (value_from 0 ds), dropWhile is_digit s) else None)"
    using False takeWhile_digits [of s] by (subst digits_loop_eq) (simp_all add: octet_text_value Let_def)
  also have "value_from 0 = decimal" by (rule ext) (simp add: decimal_def value_from_def)
  finally show ?thesis .
qed

lemma dot_no_digit: "\<not> is_digit dot"
  by (simp add: is_digit_def)

lemma parse_octet_text: "octet_text ds \<Longrightarrow> parse_octet ds = Some (of_nat (decimal ds), [])"
  "octet_text ds \<Longrightarrow> parse_octet (ds @ dot # s) = Some (of_nat (decimal ds), dot # s)"
proof -
  assume o: "octet_text ds"
  then have d: "\<And>c. c \<in> set ds \<Longrightarrow> is_digit c" by (simp add: octet_text_def)
  then have "takeWhile is_digit ds = ds" "dropWhile is_digit ds = []" by simp_all
  then show "parse_octet ds = Some (of_nat (decimal ds), [])" using o by (simp add: parse_octet_eq del: takeWhile_eq_all_conv dropWhile_eq_Nil_conv)
  have "takeWhile is_digit (ds @ dot # s) = ds" "dropWhile is_digit (ds @ dot # s) = dot # s"
    using d dot_no_digit by (simp_all add: takeWhile_append2 dropWhile_append2)
  then show "parse_octet (ds @ dot # s) = Some (of_nat (decimal ds), dot # s)" using o by (simp add: parse_octet_eq)
qed

lemma parse_octet_Some:
  "parse_octet s = Some (v, r) \<Longrightarrow> \<exists>ds. octet_text ds \<and> s = ds @ r \<and> v = of_nat (decimal ds)"
  by (force simp: parse_octet_eq Let_def split: if_splits intro: exI [of _ "takeWhile is_digit s"])

lemma parse_dot_Some: "parse_dot s = Some r \<longleftrightarrow> s = dot # r"
  by (cases s) (auto simp: parse_dot_def)

lemma ucast_octet: "n \<le> 255 \<Longrightarrow> (ucast (of_nat n :: u8) :: u32) = of_nat n"
  by (intro word_unat_eq_iff [THEN iffD2]) (simp add: unsigned_ucast_eq take_bit_eq_mod unat_of_nat)

text \<open>
  C26: \<open>z_parse_ipv4\<close> accepts exactly the dotted addresses, four numbers of one to three digits and at most 255, separated by dots and
  nothing else, and returns the address whose octets they are.
\<close>

theorem z_parse_ipv4_exact:
  "z_parse_ipv4 s = Some ip \<longleftrightarrow>
    (\<exists>a b c d. octet_text a \<and> octet_text b \<and> octet_text c \<and> octet_text d \<and> s = a @ dot # b @ dot # c @ dot # d \<and>
      ip = address a b c d)"
proof -
  have adr: "push_bit 24 (of_nat (decimal a)) OR push_bit 16 (of_nat (decimal b)) OR push_bit 8 (of_nat (decimal c)) OR of_nat (decimal d)
      = address a b c d" if "octet_text a" "octet_text b" "octet_text c" "octet_text d" for a b c d
    using that by (simp add: address_def get32_def view_of_def octet_text_def ucast_octet)
  show ?thesis
  proof
    assume "z_parse_ipv4 s = Some ip"
    then obtain va vb vc vd r1 r2 r3 r4 r5 r6 where p: "parse_octet s = Some (va, r1)" "parse_dot r1 = Some r2"
      "parse_octet r2 = Some (vb, r3)" "parse_dot r3 = Some r4" "parse_octet r4 = Some (vc, r5)" "parse_dot r5 = Some r6"
      "parse_octet r6 = Some (vd, [])" "ip = push_bit 24 va OR push_bit 16 vb OR push_bit 8 vc OR vd"
      by (auto simp: z_parse_ipv4_def bind_eq_Some_conv split: if_splits)
    from parse_octet_Some [OF p(1)] parse_octet_Some [OF p(3)] parse_octet_Some [OF p(5)] parse_octet_Some [OF p(7)]
    obtain a b c d where "octet_text a" "s = a @ r1" "va = of_nat (decimal a)" "octet_text b" "r2 = b @ r3" "vb = of_nat (decimal b)"
      "octet_text c" "r4 = c @ r5" "vc = of_nat (decimal c)" "octet_text d" "r6 = d @ []" "vd = of_nat (decimal d)" by blast
    then have "octet_text a \<and> octet_text b \<and> octet_text c \<and> octet_text d \<and> s = a @ dot # b @ dot # c @ dot # d \<and> ip = address a b c d"
      using p(2,4,6,8) adr [of a b c d] unfolding parse_dot_Some by simp
    then show "\<exists>a b c d. octet_text a \<and> octet_text b \<and> octet_text c \<and> octet_text d \<and> s = a @ dot # b @ dot # c @ dot # d \<and>
      ip = address a b c d" by blast
  next
    assume "\<exists>a b c d. octet_text a \<and> octet_text b \<and> octet_text c \<and> octet_text d \<and> s = a @ dot # b @ dot # c @ dot # d \<and>
      ip = address a b c d"
    then show "z_parse_ipv4 s = Some ip"
      using adr by (auto simp: z_parse_ipv4_def parse_octet_text parse_dot_def)
  qed
qed

section \<open>The query\<close>

text \<open>A host name as a list of labels, and the labels on the wire.\<close>

definition label_ok :: "bytes \<Rightarrow> bool" where "label_ok l \<longleftrightarrow> l \<noteq> [] \<and> length l \<le> 63 \<and> dot \<notin> set l"

fun hostname_of :: "bytes list \<Rightarrow> bytes" where
  "hostname_of [] = []"
| "hostname_of [l] = l"
| "hostname_of (l # ls) = l @ dot # hostname_of ls"

definition wire_labels :: "bytes list \<Rightarrow> bytes" where
  "wire_labels ls = concat (map (\<lambda>l. of_nat (length l) # l) ls) @ [0]"

lemma encode_labels_cons:
  assumes "dot \<notin> set l"
  shows "encode_labels l = (if label_ok l then Some (of_nat (length l) # l @ [0]) else None)"
    "encode_labels (l @ dot # h) = (if label_ok l then map_option (\<lambda>e. of_nat (length l) # l @ e) (encode_labels h) else None)"
proof -
  have d: "\<And>c. c \<in> set l \<Longrightarrow> c \<noteq> dot" using assms by auto
  have "takeWhile (\<lambda>c. c \<noteq> dot) l = l" "dropWhile (\<lambda>c. c \<noteq> dot) l = []" using d by auto
  then show "encode_labels l = (if label_ok l then Some (of_nat (length l) # l @ [0]) else None)"
    using assms by (subst encode_labels.simps)
      (auto simp: Let_def label_ok_def simp del: takeWhile_eq_all_conv dropWhile_eq_Nil_conv)
  have "takeWhile (\<lambda>c. c \<noteq> dot) (l @ dot # h) = l" "dropWhile (\<lambda>c. c \<noteq> dot) (l @ dot # h) = dot # h"
    using d by (simp_all add: takeWhile_append2 dropWhile_append2)
  then show "encode_labels (l @ dot # h) = (if label_ok l then map_option (\<lambda>e. of_nat (length l) # l @ e) (encode_labels h) else None)"
    using assms by (subst encode_labels.simps) (auto simp: Let_def label_ok_def)
qed

lemma encode_labels_ok: "ls \<noteq> [] \<Longrightarrow> \<forall>l \<in> set ls. label_ok l \<Longrightarrow> encode_labels (hostname_of ls) = Some (wire_labels ls)"
proof (induction ls rule: hostname_of.induct)
  case (2 l)
  then show ?case using encode_labels_cons(1) [of l] by (simp add: label_ok_def wire_labels_def)
next
  case (3 l l' ls)
  then show ?case using encode_labels_cons(2) [of l "hostname_of (l' # ls)"] by (simp add: label_ok_def wire_labels_def)
qed simp

lemma hostname_labels: "\<exists>ls. ls \<noteq> [] \<and> h = hostname_of ls \<and> (\<forall>l \<in> set ls. dot \<notin> set l)"
proof (induction "length h" arbitrary: h rule: less_induct)
  case less
  show ?case
  proof (cases "dot \<in> set h")
    case False
    then show ?thesis by (intro exI [of _ "[h]"]) simp
  next
    case True
    then obtain l h' where h: "h = l @ dot # h'" "dot \<notin> set l" by (metis split_list_first)
    then obtain ls where "ls \<noteq> []" "h' = hostname_of ls" "\<forall>l \<in> set ls. dot \<notin> set l" using less [of h'] by auto
    then show ?thesis using h by (intro exI [of _ "l # ls"]) (cases ls; simp)
  qed
qed

lemma encode_labels_bad:
  "ls \<noteq> [] \<Longrightarrow> \<forall>l \<in> set ls. dot \<notin> set l \<Longrightarrow> \<exists>l \<in> set ls. \<not> label_ok l \<Longrightarrow> encode_labels (hostname_of ls) = None"
proof (induction ls rule: hostname_of.induct)
  case (2 l)
  then show ?case using encode_labels_cons(1) [of l] by simp
next
  case (3 l l' ls)
  then show ?case using encode_labels_cons(2) [of l "hostname_of (l' # ls)"] by auto
qed simp

lemma wire_labels_length: "ls \<noteq> [] \<Longrightarrow> length (wire_labels ls) = length (hostname_of ls) + 2"
proof (induction ls rule: hostname_of.induct)
  case (3 l l' ls)
  then show ?case by (simp add: wire_labels_def)
qed (simp_all add: wire_labels_def)

text \<open>
  The query is well formed and fits its buffer. For every host name of at most 64 bytes, \<open>build_query\<close> fails exactly when some
  label between dots is empty or longer than 63 bytes, and otherwise returns a header that asks one recursive question under the
  given number, the labels each with its length in front, the end mark, type A and class IN, in at most 82 of the 88 bytes.
\<close>

theorem build_query_wellformed:
  assumes "length hostname \<le> DNS_MAX_HOSTNAME_LEN"
  shows "\<exists>ls. hostname = hostname_of ls \<and> (\<forall>l \<in> set ls. dot \<notin> set l) \<and>
    (if \<forall>l \<in> set ls. label_ok l
     then build_query qid hostname = Some (put16 qid @ [1, 0, 0, 1, 0, 0, 0, 0, 0, 0] @ wire_labels ls @ [0, 1, 0, 1]) \<and>
       length (put16 qid @ [1, 0, 0, 1, 0, 0, 0, 0, 0, 0] @ wire_labels ls @ [0, 1, 0, 1 :: u8]) \<le> DNS_PKT_MAX - 6
     else build_query qid hostname = None)"
proof -
  obtain ls where ls: "ls \<noteq> []" "hostname = hostname_of ls" "\<forall>l \<in> set ls. dot \<notin> set l" using hostname_labels by blast
  show ?thesis
  proof (cases "\<forall>l \<in> set ls. label_ok l")
    case True
    then show ?thesis
      using ls assms encode_labels_ok [OF ls(1) True] wire_labels_length [OF ls(1)]
      by (intro exI [of _ ls]) (simp add: build_query_def encode_question_def)
  next
    case False
    then have "encode_labels hostname = None" using encode_labels_bad [OF ls(1,3)] ls(2) by blast
    then show ?thesis using False ls by (intro exI [of _ ls]) (simp add: build_query_def encode_question_def)
  qed
qed

theorem build_query_wellformed_witness:
  "build_query 7 [97, dot, 98] = Some [0, 7, 1, 0, 0, 1, 0, 0, 0, 0, 0, 0, 1, 97, 1, 98, 0, 0, 1, 0, 1]"
proof -
  from build_query_wellformed [of "[97, dot, 98]" 7] obtain ls where ls: "[97, dot, 98] = hostname_of ls" "\<forall>l \<in> set ls. dot \<notin> set l"
    "\<forall>l \<in> set ls. label_ok l \<Longrightarrow> build_query 7 [97, dot, 98] = Some (put16 7 @ [1, 0, 0, 1, 0, 0, 0, 0, 0, 0] @ wire_labels ls @ [0, 1, 0, 1])"
    by (auto split: if_splits)
  have "ls = [[97], [98]]"
  proof (cases ls rule: hostname_of.cases)
    case (3 l l' ls')
    then have e: "l @ dot # hostname_of (l' # ls') = [97, dot, 98]" "dot \<notin> set l" using ls by auto
    then have "l = [97]" "hostname_of (l' # ls') = [98]" by (cases l; auto simp: Cons_eq_append_conv append_eq_Cons_conv)+
    then show ?thesis using 3 ls(2) by (cases ls') (auto simp: append_eq_Cons_conv)
  qed (use ls in auto)
  then show ?thesis using ls(3) by (simp add: label_ok_def wire_labels_def) code_simp
qed

section \<open>Replies of a server\<close>

text \<open>Names as a server writes them: labels, ended by the root or by a pointer to an earlier name.\<close>

datatype dns_name = Root | Pointer u8 u8 | Label bytes dns_name

primrec name_bytes :: "dns_name \<Rightarrow> bytes" where
  "name_bytes Root = [0]"
| "name_bytes (Pointer a b) = [a, b]"
| "name_bytes (Label l n) = of_nat (length l) # l @ name_bytes n"

primrec name_ok :: "dns_name \<Rightarrow> bool" where
  "name_ok Root \<longleftrightarrow> True"
| "name_ok (Pointer a b) \<longleftrightarrow> a AND 0xC0 = 0xC0"
| "name_ok (Label l n) \<longleftrightarrow> l \<noteq> [] \<and> length l \<le> 63 \<and> name_ok n"

record resource =
  rr_name :: dns_name
  rr_type :: u16
  rr_class :: u16
  rr_ttl :: u32
  rr_data :: bytes

definition rr_bytes :: "resource \<Rightarrow> bytes" where
  "rr_bytes r = name_bytes (rr_name r) @ put16 (rr_type r) @ put16 (rr_class r) @ put32 (rr_ttl r) @
     put16 (of_nat (length (rr_data r))) @ rr_data r"

definition rr_ok :: "resource \<Rightarrow> bool" where "rr_ok r \<longleftrightarrow> name_ok (rr_name r) \<and> length (rr_data r) < 65536"

definition is_address :: "resource \<Rightarrow> bool" where
  "is_address r \<longleftrightarrow> rr_type r = 1 \<and> rr_class r = 1 \<and> length (rr_data r) = 4"

definition reply_bytes :: "u16 \<Rightarrow> u16 \<Rightarrow> dns_name list \<Rightarrow> resource list \<Rightarrow> bytes \<Rightarrow> bytes" where
  "reply_bytes qid flags qs rrs rest =
     put16 qid @ put16 flags @ put16 (of_nat (length qs)) @ put16 (of_nat (length rrs)) @ [0, 0, 0, 0] @
     concat (map (\<lambda>q. name_bytes q @ [0, 1, 0, 1]) qs) @ concat (map rr_bytes rrs) @ rest"

lemma small_label: "n \<le> 63 \<Longrightarrow> (of_nat n :: u8) AND 0xC0 = 0"
proof -
  assume "n \<le> 63"
  then have "\<not> bit (of_nat n :: u8) k" if "6 \<le> k" for k
  proof -
    have "n < 2 ^ 6" using \<open>n \<le> 63\<close> by simp
    also have "(2 :: nat) ^ 6 \<le> 2 ^ k" by (rule power_increasing) (use that in auto)
    finally have "n div 2 ^ k = 0" by simp
    then have "\<not> bit n k" by (simp add: bit_iff_odd)
    then show ?thesis by (simp add: bit_of_nat_iff)
  qed
  moreover have "bit (0xC0 :: u8) k \<Longrightarrow> 6 \<le> k" for k
  proof -
    assume b: "bit (0xC0 :: u8) k"
    have "\<forall>k < 6. \<not> bit (0xC0 :: u8) k" by (simp add: less_Suc_eq numeral_eq_Suc All_less_Suc)
    then show "6 \<le> k" using b by (meson not_le)
  qed
  ultimately show ?thesis by (intro bit_word_eqI) (auto simp: bit_and_iff)
qed

lemma skip_name_wire:
  "name_ok n \<Longrightarrow> length (pre @ name_bytes n @ post) < 65536 \<Longrightarrow>
   skip_name (view_of (pre @ name_bytes n @ post)) (length pre) (length (pre @ name_bytes n @ post)) = length pre + length (name_bytes n)"
proof (induction n arbitrary: pre)
  case Root
  then show ?case by (subst skip_name.simps) (simp add: view_of_def)
next
  case (Pointer a b)
  then show ?case by (subst skip_name.simps) (simp add: view_of_def)
next
  case (Label l n)
  let ?x = "pre @ name_bytes (Label l n) @ post"
  have n: "length l \<le> 63" "l \<noteq> []" "name_ok n" using Label.prems by simp_all
  have b: "view_of ?x (length pre) = of_nat (length l)" by (simp add: view_of_def)
  have u: "unat (of_nat (length l) :: u8) = length l" using n(1) by (simp add: unat_of_nat)
  then have "(of_nat (length l) :: u8) \<noteq> 0" using n(2) by (metis length_0_conv unat_0)
  then have "skip_name (view_of ?x) (length pre) (length ?x) = skip_name (view_of ?x) (length pre + 1 + length l) (length ?x)"
    using b u small_label [OF n(1)] by (subst skip_name.simps) (simp add: Let_def)
  also have "?x = (pre @ of_nat (length l) # l) @ name_bytes n @ post" by simp
  also have "skip_name (view_of \<dots>) (length pre + 1 + length l) (length \<dots>) = length (pre @ of_nat (length l) # l) + length (name_bytes n)"
    using Label.IH [OF n(3), of "pre @ of_nat (length l) # l"] Label.prems(2) by simp
  finally show ?case by simp
qed

lemma skip_questions_wire:
  "\<forall>q \<in> set qs. name_ok q \<Longrightarrow> x = pre @ concat (map (\<lambda>q. name_bytes q @ [0, 1, 0, 1]) qs) @ post \<Longrightarrow> length x < 65536 \<Longrightarrow>
   skip_questions (length qs) (view_of x) (length pre) (length x) = length pre + length (concat (map (\<lambda>q. name_bytes q @ [0, 1, 0, 1]) qs))"
proof (induction qs arbitrary: pre)
  case (Cons q qs)
  let ?post = "[0, 1, 0, 1] @ concat (map (\<lambda>q. name_bytes q @ [0, 1, 0, 1]) qs) @ post"
  have x: "x = pre @ name_bytes q @ ?post" using Cons.prems(2) by simp
  have s: "skip_name (view_of x) (length pre) (length x) = length pre + length (name_bytes q)"
    using skip_name_wire [of q pre ?post] Cons.prems(1,3) x by simp
  have "length pre < length x" using x by simp
  moreover have "\<not> length pre + length (name_bytes q) + 4 > length x" using x by simp
  ultimately have "skip_questions (length (q # qs)) (view_of x) (length pre) (length x)
      = skip_questions (length qs) (view_of x) (length (pre @ name_bytes q @ [0, 1, 0, 1])) (length x)"
    using s by (simp add: eval_nat_numeral)
  also have "\<dots> = length (pre @ name_bytes q @ [0, 1, 0, 1]) + length (concat (map (\<lambda>q. name_bytes q @ [0, 1, 0, 1]) qs))"
    using Cons.IH [of "pre @ name_bytes q @ [0, 1, 0, 1]"] Cons.prems x by simp
  finally show ?case by simp
qed simp

lemma get32_data:
  assumes "length d = 4"
  shows "get32 (view_of (pre @ d @ post)) (length pre) = get32 (view_of d) 0"
  using assms by (simp add: get32_def view_of_def nth_append numeral_2_eq_2)

lemma find_address_wire:
  "\<forall>r \<in> set rrs. rr_ok r \<Longrightarrow> x = pre @ concat (map rr_bytes rrs) @ post \<Longrightarrow> length x < 65536 \<Longrightarrow>
   find_address (length rrs) (view_of x) (length pre) (length x) found =
     (case found of Some ip \<Rightarrow> Some ip | None \<Rightarrow> map_option (\<lambda>r. get32 (view_of (rr_data r)) 0) (List.find is_address rrs))"
proof (induction rrs arbitrary: pre found)
  case Nil
  then show ?case by (simp split: option.splits)
next
  case (Cons r rrs)
  let ?n = "name_bytes (rr_name r)" and ?d = "rr_data r" and ?rest = "concat (map rr_bytes rrs) @ post"
  let ?head = "put16 (rr_type r) @ put16 (rr_class r) @ put32 (rr_ttl r) @ put16 (of_nat (length ?d))"
  have x: "x = pre @ ?n @ ?head @ ?d @ ?rest" using Cons.prems(2) by (simp add: rr_bytes_def [of r])
  have x2: "x = (pre @ ?n @ ?head @ ?d) @ concat (map rr_bytes rrs) @ post" using x by simp
  have r: "name_ok (rr_name r)" "length ?d < 65536" using Cons.prems(1) by (simp_all add: rr_ok_def)
  let ?o = "length pre + length ?n"
  have s: "skip_name (view_of x) (length pre) (length x) = ?o"
    using skip_name_wire [OF r(1), of pre "?head @ ?d @ ?rest"] Cons.prems(3) x by simp
  have ty: "get16 (view_of x) ?o = rr_type r"
    using get16_put [of "pre @ ?n" ?o "rr_type r"] unfolding x by simp
  have cl: "get16 (view_of x) (?o + 2) = rr_class r"
    using get16_put [of "pre @ ?n @ put16 (rr_type r)" "?o + 2" "rr_class r"] unfolding x by simp
  have "get16 (view_of x) (?o + 8) = of_nat (length ?d)"
    using get16_put [of "pre @ ?n @ put16 (rr_type r) @ put16 (rr_class r) @ put32 (rr_ttl r)" "?o + 8" "of_nat (length ?d)" "?d @ ?rest"]
    unfolding x by simp
  then have rd: "unat (get16 (view_of x) (?o + 8)) = length ?d" using r(2) by (simp add: unat_of_nat)
  have dat: "get32 (view_of x) (?o + 10) = get32 (view_of ?d) 0" if "length ?d = 4"
    using get32_data [OF that, of "pre @ ?n @ ?head" ?rest] unfolding x by (simp add: add.assoc)
  have len: "length pre < length x" "\<not> ?o + 10 > length x" "\<not> ?o + 10 + length ?d > length x" unfolding x by simp_all
  have "name_bytes n \<noteq> []" for n by (cases n) simp_all
  define e where "e = length (pre @ ?n @ ?head @ ?d)"
  have e: "?o + 10 + length ?d = e" by (simp add: e_def)
  have "find_address (length (r # rrs)) (view_of x) (length pre) (length x) found
      = find_address (length rrs) (view_of x) (?o + 10 + length ?d) (length x)
          (if found = None \<and> rr_type r = 1 \<and> rr_class r = 1 \<and> length ?d = 4 then Some (get32 (view_of x) (?o + 10)) else found)"
    using len by (simp only: length_Cons find_address.simps Let_def s ty cl rd if_True if_False simp_thms)
  also have "\<dots> = find_address (length rrs) (view_of x) (length (pre @ ?n @ ?head @ ?d)) (length x)
      (if found = None \<and> is_address r then Some (get32 (view_of ?d) 0) else found)"
    using dat unfolding e e_def [symmetric] is_address_def by (cases "length ?d = 4") (simp_all only: simp_thms if_False)
  also have "\<dots> = (case (if found = None \<and> is_address r then Some (get32 (view_of ?d) 0) else found) of
      Some ip \<Rightarrow> Some ip | None \<Rightarrow> map_option (\<lambda>r. get32 (view_of (rr_data r)) 0) (List.find is_address rrs))"
    by (rule Cons.IH [OF _ x2 Cons.prems(3)]) (use Cons.prems(1) in simp)
  finally show ?case by (auto split: option.splits)
qed


definition asking :: dns where
  "asking = \<lparr>dn_querying = True, dn_nameserver = 0x08080808, dn_qid = 7, dn_local_port = 49152, dn_hostname = [97], dn_req_pid = 5,
     dn_req_tag = 9, dn_last_tx = 0, dn_retries = 0, dn_pkt = [], dn_next_port = 49152, dn_now = 0, dn_listening = Some 49152,
     dn_out = [], dn_replies = []\<rparr>"


section \<open>Every request is answered\<close>

text \<open>
  The network process: it starts resolutions, gets datagrams and looks at the clock, in any order.
\<close>

datatype dns_op = Start bytes u32 u32 | Datagram u32 u16 bytes | Poll u32

primrec dns_step :: "dns_op \<Rightarrow> dns \<Rightarrow> dns" where
  "dns_step (Start hostname pid tag) s = dns_resolve_start hostname pid tag s"
| "dns_step (Datagram ip port x) s = handle_dns_reply ip port (view_of x) (length x) s"
| "dns_step (Poll now) s = dns_poll (s\<lparr>dn_now := now\<rparr>)"

fun asked :: "dns_op list \<Rightarrow> (u32 \<times> u32) list" where
  "asked [] = []"
| "asked (Start hostname pid tag # ops) = (pid, tag) # asked ops"
| "asked (_ # ops) = asked ops"

definition answered :: "dns \<Rightarrow> (u32 \<times> u32) list" where "answered s = map (\<lambda>(pid, tag, _). (pid, tag)) (dn_replies s)"

definition open_request :: "dns \<Rightarrow> (u32 \<times> u32) list" where
  "open_request s = (if dn_querying s then [(dn_req_pid s, dn_req_tag s)] else [])"

lemma dns_step_accounts:
  "mset (answered (dns_step op s)) + mset (open_request (dns_step op s)) = mset (answered s) + mset (open_request s) + mset (asked [op])"
proof (cases op)
  case (Start hostname pid tag)
  then show ?thesis
    by (auto simp: dns_resolve_start_def refuse_def answered_def open_request_def Let_def split: option.splits)
next
  case (Datagram ip port x)
  have fin: "mset (answered (finish_query r s)) + mset (open_request (finish_query r s)) = mset (answered s) + mset (open_request s)"
    if "dn_querying s" for r using that by (simp add: finish_query_def answered_def open_request_def)
  show ?thesis
    using Datagram fin by (simp add: handle_dns_reply_def Let_def split: option.splits)
next
  case (Poll now)
  then show ?thesis
    by (auto simp: dns_poll_def finish_query_def answered_def open_request_def Let_def)
qed

text \<open>A resolution that is looked at twice a second or later is over after the fourth look without an answer.\<close>

lemma dns_poll_counts:
  assumes "dn_querying s" "now - dn_last_tx s \<ge> DNS_TIMEOUT_TICKS"
  shows "dns_step (Poll now) s =
    (if dn_retries s < DNS_MAX_RETRIES
     then s\<lparr>dn_now := now, dn_retries := dn_retries s + 1,
       dn_out := dn_out s @ [(dn_nameserver s, DNS_SERVER_PORT, dn_local_port s, dn_pkt s)], dn_last_tx := now\<rparr>
     else finish_query (reply_failed ''dns: no response from nameserver'') (s\<lparr>dn_now := now, dn_retries := dn_retries s + 1\<rparr>))"
  using assms by (auto simp: dns_poll_def Let_def not_less)

text \<open>
  Every request gets exactly one reply. Whatever is asked, received and polled in whatever order, each request is either answered,
  once, or it is the one under way; and the one under way is answered with a failure after at most four looks at the clock that each come
  half a second or more after the transmission before, three of them having sent the query again unchanged.
\<close>

theorem dns_answers_once:
  assumes "s = fold dns_step ops s0" "\<not> dn_querying s0" "dn_replies s0 = []"
  shows "mset (answered s) + mset (open_request s) = mset (asked ops) \<and>
    (dn_querying s \<and> dn_retries s = 0 \<and> t1 - dn_last_tx s \<ge> DNS_TIMEOUT_TICKS \<and> t2 - t1 \<ge> DNS_TIMEOUT_TICKS \<and>
       t3 - t2 \<ge> DNS_TIMEOUT_TICKS \<and> t4 - t3 \<ge> DNS_TIMEOUT_TICKS \<longrightarrow>
     (let s' = fold dns_step (map Poll [t1, t2, t3, t4]) s in
        \<not> dn_querying s' \<and> mset (answered s') = mset (asked ops) \<and>
        dn_out s' = dn_out s @ replicate 3 (dn_nameserver s, DNS_SERVER_PORT, dn_local_port s, dn_pkt s)))"
proof -
  have acc: "mset (answered (fold dns_step ops s)) + mset (open_request (fold dns_step ops s))
      = mset (answered s) + mset (open_request s) + mset (asked ops)" for s ops
  proof (induction ops arbitrary: s)
    case (Cons op ops)
    have "mset (asked (op # ops)) = mset (asked [op]) + mset (asked ops)" by (cases op) simp_all
    then show ?case using Cons [of "dns_step op s"] dns_step_accounts [of op s] by (simp add: ac_simps)
  qed simp
  have first: "mset (answered s) + mset (open_request s) = mset (asked ops)"
    using acc [of ops s0] assms by (simp add: answered_def open_request_def)
  moreover have "let s' = fold dns_step (map Poll [t1, t2, t3, t4]) s in
      \<not> dn_querying s' \<and> mset (answered s') = mset (asked ops) \<and>
      dn_out s' = dn_out s @ replicate 3 (dn_nameserver s, DNS_SERVER_PORT, dn_local_port s, dn_pkt s)"
    if h: "dn_querying s" "dn_retries s = 0" "t1 - dn_last_tx s \<ge> DNS_TIMEOUT_TICKS" "t2 - t1 \<ge> DNS_TIMEOUT_TICKS"
      "t3 - t2 \<ge> DNS_TIMEOUT_TICKS" "t4 - t3 \<ge> DNS_TIMEOUT_TICKS"
  proof -
    let ?s' = "fold dns_step (map Poll [t1, t2, t3, t4]) s"
    have "\<not> dn_querying ?s' \<and> dn_out ?s' = dn_out s @ replicate 3 (dn_nameserver s, DNS_SERVER_PORT, dn_local_port s, dn_pkt s)"
      using h by (simp add: dns_poll_counts finish_query_def numeral_3_eq_3 del: dns_step.simps)
    moreover have "mset (answered ?s') + mset (open_request ?s') = mset (asked ops)"
      using acc [of "map Poll [t1, t2, t3, t4]" s] first by simp
    ultimately show ?thesis by (simp add: open_request_def Let_def)
  qed
  ultimately show ?thesis by blast
qed

theorem dns_answers_once_witness:
  "\<not> dn_querying (fold dns_step (map Poll [400, 800, 1200, 1600]) (fold dns_step [Start [97] 5 9] (asking\<lparr>dn_querying := False\<rparr>)))"
proof -
  let ?i = "asking\<lparr>dn_querying := False\<rparr>" and ?s = "fold dns_step [Start [97] 5 9] (asking\<lparr>dn_querying := False\<rparr>)"
  have "dn_querying ?s \<and> dn_retries ?s = 0 \<and> dn_last_tx ?s = 0" by code_simp
  moreover have "\<not> dn_querying ?i" "dn_replies ?i = []" by (simp_all add: asking_def)
  moreover define s where "s = ?s"
  ultimately have s: "dn_querying s" "dn_retries s = 0" "dn_last_tx s = 0" and "\<not> dn_querying ?i" "dn_replies ?i = []" by simp_all
  with dns_answers_once [of s "[Start [97] 5 9]" ?i, OF s_def, of 400 800 1200 1600] show ?thesis
    unfolding s_def [symmetric] Let_def by simp
qed

section \<open>Nothing is read beyond the datagram\<close>

lemma skip_name_inside: "\<forall>i < len. p i = q i \<Longrightarrow> skip_name p offset len = skip_name q offset len"
proof (induction p offset len rule: skip_name.induct)
  case (1 p offset len)
  show ?case
  proof (cases "offset < len")
    case False
    then show ?thesis by (simp add: skip_name.simps [of p] skip_name.simps [of q])
  next
    case True
    then have "p offset = q offset" using 1 by simp
    then show ?thesis using 1 True by (simp add: skip_name.simps [of p offset] skip_name.simps [of q offset] Let_def)
  qed
qed

lemma skip_questions_inside: "\<forall>i < len. p i = q i \<Longrightarrow> skip_questions n p offset len = skip_questions n q offset len"
  by (induction n arbitrary: offset) (simp_all add: Let_def skip_name_inside [of len p q])

lemma get_inside:
  "\<forall>i < len. p i = q i \<Longrightarrow> k + 1 < len \<Longrightarrow> get16 p k = get16 q k"
  "\<forall>i < len. p i = q i \<Longrightarrow> k + 3 < len \<Longrightarrow> get32 p k = get32 q k"
  by (simp_all add: get16_def get32_def)

lemma find_address_inside: "\<forall>i < len. p i = q i \<Longrightarrow> find_address n p offset len found = find_address n q offset len found"
proof (induction n arbitrary: offset found)
  case (Suc n)
  let ?o = "skip_name q offset len"
  have o: "skip_name p offset len = ?o" by (rule skip_name_inside [OF Suc.prems])
  show ?case
  proof (cases "offset < len \<and> ?o + 10 \<le> len")
    case False
    then show ?thesis using o by (auto simp: Let_def)
  next
    case True
    then have g: "get16 p ?o = get16 q ?o" "get16 p (?o + 2) = get16 q (?o + 2)" "get16 p (?o + 8) = get16 q (?o + 8)"
      using get_inside(1) [OF Suc.prems] by simp_all
    let ?rd = "unat (get16 q (?o + 8))"
    have "get32 p (?o + 10) = get32 q (?o + 10)" if "?o + 10 + ?rd \<le> len" "?rd = 4"
      using that get_inside(2) [OF Suc.prems, of "?o + 10"] by simp
    then show ?thesis
      using True o g Suc.IH [OF Suc.prems] by (cases "?rd = 4") (simp_all add: Let_def)
  qed
qed simp

text \<open>
  C28: The parser of replies never looks beyond the end of a datagram: whatever lies behind the received bytes, and whatever
  the datagram's own counts, lengths and pointers say, the outcome is the same.
\<close>

theorem dns_reads_inside:
  assumes "\<forall>i < len. p i = q i"
  shows "handle_dns_reply ip port p len s = handle_dns_reply ip port q len s"
proof (cases "len < 12")
  case True
  then show ?thesis by (simp add: handle_dns_reply_def)
next
  case False
  then have "get16 p 0 = get16 q 0" "get16 p 2 = get16 q 2" "get16 p 4 = get16 q 4" "get16 p 6 = get16 q 6"
    using get_inside(1) [OF assms] by simp_all
  then show ?thesis
    by (simp add: handle_dns_reply_def skip_questions_inside [OF assms] find_address_inside [OF assms] Let_def)
qed

theorem dns_reads_inside_witness:
  "handle_dns_reply 1 53 (view_of [0, 7, 128, 0, 0, 1, 0, 1, 0, 0, 0, 0, 200]) 13 asking
   = handle_dns_reply 1 53 (\<lambda>i. if i < 13 then view_of [0, 7, 128, 0, 0, 1, 0, 1, 0, 0, 0, 0, 200] i else 99) 13 asking"
  by (rule dns_reads_inside) simp

section \<open>Both ends\<close>

text \<open>The caller gets what the network process found, if the reply comes in time, whatever else arrives before.\<close>

lemma z_dns_resolve_gets:
  assumes "hostname \<noteq> []" "now - start < ZDNS_TIMEOUT_TICKS"
    and "\<forall>(now, got) \<in> set ps. now - start < ZDNS_TIMEOUT_TICKS \<and>
      (\<forall>subject t obj. got = Some (subject, t, obj) \<longrightarrow> subject \<noteq> Z_NET_DNS_RESOLVE_REPLY \<or> t \<noteq> tag + 1)"
  shows "fst (z_dns_resolve hostname err_len net0 tag start (ps @ (now, Some (Z_NET_DNS_RESOLVE_REPLY, tag + 1, reply)) # qs)) =
    (if reply = reply_found ip then Some (Some ip, None)
     else if reply = reply_failed err then Some (None, set_err err_len err)
     else fst (z_dns_resolve hostname err_len net0 tag start ((now, Some (Z_NET_DNS_RESOLVE_REPLY, tag + 1, reply)) # qs)))"
proof -
  have skip: "resolve_wait start (tag + 1) err_len (ps @ qs) = resolve_wait start (tag + 1) err_len qs" for qs
    using assms(3) by (induction ps) (auto split: option.splits)
  show ?thesis
    using assms(1,2) by (simp add: z_dns_resolve_def skip reply_found_def reply_failed_def Let_def)
qed

end
