(* ===== verification/Dhcp.thy ===== *)
theory Dhcp
  imports Netpath
begin

text \<open>
  The DHCP client (\<open>src/sw/apps/net/dhcp.c\<close>): the packets it broadcasts, the parser of replies, and the blocking exchange
  that acquires an address.
\<close>

section \<open>Packets\<close>

abbreviation DHCP_SERVER_PORT :: u16 where "DHCP_SERVER_PORT \<equiv> 67"
abbreviation DHCP_CLIENT_PORT :: u16 where "DHCP_CLIENT_PORT \<equiv> 68"
abbreviation DHCP_MSG_DISCOVER :: u8 where "DHCP_MSG_DISCOVER \<equiv> 1"
abbreviation DHCP_MSG_OFFER :: u8 where "DHCP_MSG_OFFER \<equiv> 2"
abbreviation DHCP_MSG_REQUEST :: u8 where "DHCP_MSG_REQUEST \<equiv> 3"
abbreviation DHCP_MSG_ACK :: u8 where "DHCP_MSG_ACK \<equiv> 5"
abbreviation DHCP_MSG_NAK :: u8 where "DHCP_MSG_NAK \<equiv> 6"
abbreviation DHCP_MAGIC_COOKIE :: u32 where "DHCP_MAGIC_COOKIE \<equiv> 0x63825363"
abbreviation DHCP_BOOTP_LEN :: nat where "DHCP_BOOTP_LEN \<equiv> 236"
abbreviation DHCP_OPTIONS_OFF :: nat where "DHCP_OPTIONS_OFF \<equiv> 240"
abbreviation DHCP_BUF_LEN :: nat where "DHCP_BUF_LEN \<equiv> 320"
abbreviation DHCP_TIMEOUT_TICKS :: u32 where "DHCP_TIMEOUT_TICKS \<equiv> 732"
abbreviation DHCP_MAX_ATTEMPTS :: nat where "DHCP_MAX_ATTEMPTS \<equiv> 4"

definition dhcp_header :: "u32 \<Rightarrow> bytes \<Rightarrow> bytes" where
  "dhcp_header xid mac =
     [1, 1, 6, 0] @ put32 xid @ [0, 0] @ [0x80, 0x00] @ replicate 16 0 @ mac @ replicate (208 - 6) 0 @ put32 DHCP_MAGIC_COOKIE"

definition dhcp_options :: "u8 \<Rightarrow> u32 \<Rightarrow> u32 \<Rightarrow> bytes \<Rightarrow> bytes" where
  "dhcp_options msg_type requested_ip server_id mac =
     [53, 1, msg_type] @
     (if msg_type = DHCP_MSG_REQUEST then [50, 4] @ put32 requested_ip @ [54, 4] @ put32 server_id else []) @
     [61, 7, 1] @ mac @ [55, 5, 1, 3, 6, 51, 54] @ [0xFF]"

text \<open>The packet given to \<open>udp_send\<close>: padded to 300 bytes with the zeros of the buffer.\<close>

definition dhcp_packet :: "u8 \<Rightarrow> u32 \<Rightarrow> u32 \<Rightarrow> u32 \<Rightarrow> bytes \<Rightarrow> bytes" where
  "dhcp_packet msg_type requested_ip server_id xid mac =
     (let pkt = dhcp_header xid mac @ dhcp_options msg_type requested_ip server_id mac in pkt @ replicate (300 - length pkt) 0)"

section \<open>Replies\<close>

record dhcp_reply =
  dr_msg_type :: u8
  dr_yiaddr :: u32
  dr_server_id :: u32
  dr_netmask :: u32
  dr_gateway :: u32
  dr_dns :: u32
  dr_lease :: u32

definition no_options :: "u32 \<Rightarrow> dhcp_reply" where
  "no_options yiaddr = \<lparr>dr_msg_type = 0, dr_yiaddr = yiaddr, dr_server_id = 0, dr_netmask = 0, dr_gateway = 0, dr_dns = 0, dr_lease = 0\<rparr>"

definition take_option :: "u8 \<Rightarrow> nat \<Rightarrow> view \<Rightarrow> nat \<Rightarrow> dhcp_reply \<Rightarrow> dhcp_reply" where
  "take_option code olen p i r =
     (if code = 53 then if olen \<ge> 1 then r\<lparr>dr_msg_type := p i\<rparr> else r
      else if code = 54 then if olen \<ge> 4 then r\<lparr>dr_server_id := get32 p i\<rparr> else r
      else if code = 1 then if olen \<ge> 4 then r\<lparr>dr_netmask := get32 p i\<rparr> else r
      else if code = 3 then if olen \<ge> 4 then r\<lparr>dr_gateway := get32 p i\<rparr> else r
      else if code = 6 then if olen \<ge> 4 then r\<lparr>dr_dns := get32 p i\<rparr> else r
      else if code = 51 then if olen \<ge> 4 then r\<lparr>dr_lease := get32 p i\<rparr> else r
      else r)"

function walk_options :: "view \<Rightarrow> nat \<Rightarrow> nat \<Rightarrow> dhcp_reply \<Rightarrow> dhcp_reply" where
  "walk_options p i len r =
     (if i < len then
        let code = p i; i = i + 1 in
        if code = 0xFF then r
        else if code = 0 then walk_options p i len r
        else if i \<ge> len then r
        else
          let olen = unat (p i); i = i + 1 in
          if i + olen > len then r
          else walk_options p (i + olen) len (take_option code olen p i r)
      else r)"
  by auto
termination by (relation "measure (\<lambda>(p, i, len, r). len - i)") auto

declare walk_options.simps [simp del]

definition parse_reply :: "u32 \<Rightarrow> u16 \<Rightarrow> view \<Rightarrow> nat \<Rightarrow> dhcp_reply option" where
  "parse_reply xid src_port p len =
     (if src_port \<noteq> DHCP_SERVER_PORT then None
      else if len < DHCP_OPTIONS_OFF then None
      else if p 0 \<noteq> 2 then None
      else if p 1 \<noteq> 1 \<or> p 2 \<noteq> 6 then None
      else if get32 p 4 \<noteq> xid then None
      else if get32 p DHCP_BOOTP_LEN \<noteq> DHCP_MAGIC_COOKIE then None
      else
        let r = walk_options p DHCP_OPTIONS_OFF len (no_options (get32 p 16)) in
        if dr_msg_type r \<noteq> DHCP_MSG_OFFER \<and> dr_msg_type r \<noteq> DHCP_MSG_ACK \<and> dr_msg_type r \<noteq> DHCP_MSG_NAK then None else Some r)"

section \<open>The exchange\<close>

text \<open>\<open>dh_reply\<close> is the last reply that was understood and not yet looked at; \<open>dh_out\<close> what was broadcast to port 67.\<close>

record dhcp =
  dh_xid :: u32
  dh_mac :: bytes
  dh_reply :: "dhcp_reply option"
  dh_listening :: bool
  dh_out :: "bytes list"

definition reset_reply :: "dhcp \<Rightarrow> dhcp" where "reset_reply s = s\<lparr>dh_reply := None\<rparr>"

definition handle_dhcp_reply :: "u32 \<Rightarrow> u16 \<Rightarrow> view \<Rightarrow> nat \<Rightarrow> dhcp \<Rightarrow> dhcp" where
  "handle_dhcp_reply src_ip src_port p len s =
     (case parse_reply (dh_xid s) src_port p len of Some r \<Rightarrow> s\<lparr>dh_reply := Some r\<rparr> | None \<Rightarrow> s)"

definition send_dhcp :: "u8 \<Rightarrow> u32 \<Rightarrow> u32 \<Rightarrow> dhcp \<Rightarrow> dhcp" where
  "send_dhcp msg_type requested_ip server_id s =
     s\<lparr>dh_out := dh_out s @ [dhcp_packet msg_type requested_ip server_id (dh_xid s) (dh_mac s)]\<rparr>"

text \<open>
  Each turn of a waiting loop looks at the clock and then handles the datagrams that have come: the sender's address and port, and the
  bytes. The list gives the turns; \<open>None\<close> when it ends before the call returns.
\<close>

type_synonym datagram = "u32 \<times> u16 \<times> bytes"
type_synonym turns = "(u32 \<times> datagram list) list"

definition net_poll :: "datagram list \<Rightarrow> dhcp \<Rightarrow> dhcp" where
  "net_poll dgs s = fold (\<lambda>(ip, port, x). handle_dhcp_reply ip port (view_of x) (length x)) dgs s"

fun wait_offer :: "u32 \<Rightarrow> turns \<Rightarrow> dhcp \<Rightarrow> ((u32 \<times> u32) option \<times> turns \<times> dhcp) option" where
  "wait_offer start [] s = None"
| "wait_offer start ((now, dgs) # ts) s =
     (if now - start < DHCP_TIMEOUT_TICKS then
        let s = net_poll dgs s in
        (case dh_reply s of
           None \<Rightarrow> wait_offer start ts s
         | Some r \<Rightarrow>
             let s = reset_reply s in
             if dr_msg_type r = DHCP_MSG_OFFER then Some (Some (dr_yiaddr r, dr_server_id r), ts, s)
             else wait_offer start ts s)
      else Some (None, ts, s))"

text \<open>The clock at the start of an attempt is that of a turn of its own, in which nothing is handled.\<close>

fun discover :: "nat \<Rightarrow> turns \<Rightarrow> dhcp \<Rightarrow> ((u32 \<times> u32) option \<times> turns \<times> dhcp) option" where
  "discover 0 ts s = Some (None, ts, s)"
| "discover (Suc attempts) ts s =
     (let s = send_dhcp DHCP_MSG_DISCOVER 0 0 s in
      case ts of [] \<Rightarrow> None
      | (start, _) # ts \<Rightarrow>
          (case wait_offer start ts s of
             None \<Rightarrow> None
           | Some (None, ts, s) \<Rightarrow> discover attempts ts s
           | Some (Some offer, ts, s) \<Rightarrow> Some (Some offer, ts, s)))"

datatype request_outcome = Lease u32 u32 u32 u32 | Denied | Timeout

fun wait_ack :: "u32 \<Rightarrow> turns \<Rightarrow> dhcp \<Rightarrow> (request_outcome \<times> turns \<times> dhcp) option" where
  "wait_ack start [] s = None"
| "wait_ack start ((now, dgs) # ts) s =
     (if now - start < DHCP_TIMEOUT_TICKS then
        let s = net_poll dgs s in
        (case dh_reply s of
           None \<Rightarrow> wait_ack start ts s
         | Some r \<Rightarrow>
             let s = reset_reply s in
             if dr_msg_type r = DHCP_MSG_NAK then Some (Denied, ts, s)
             else if dr_msg_type r = DHCP_MSG_ACK then
               Some (Lease (dr_yiaddr r) (if dr_netmask r = 0 then 0xFFFFFF00 else dr_netmask r) (dr_gateway r) (dr_dns r), ts, s)
             else wait_ack start ts s)
      else Some (Timeout, ts, s))"

fun request :: "nat \<Rightarrow> u32 \<times> u32 \<Rightarrow> turns \<Rightarrow> dhcp \<Rightarrow> (request_outcome \<times> turns \<times> dhcp) option" where
  "request 0 offer ts s = Some (Timeout, ts, s)"
| "request (Suc attempts) offer ts s =
     (let s = send_dhcp DHCP_MSG_REQUEST (fst offer) (snd offer) s in
      case ts of [] \<Rightarrow> None
      | (start, _) # ts \<Rightarrow>
          (case wait_ack start ts s of
             None \<Rightarrow> None
           | Some (Timeout, ts, s) \<Rightarrow> request attempts offer ts s
           | Some (out, ts, s) \<Rightarrow> Some (out, ts, s)))"

text \<open>Address, netmask, gateway and name server, or failure.\<close>

definition dhcp_acquire :: "bytes \<Rightarrow> u32 \<Rightarrow> turns \<Rightarrow> dhcp \<Rightarrow> ((u32 \<times> u32 \<times> u32 \<times> u32) option \<times> dhcp) option" where
  "dhcp_acquire mac ticks ts s =
     (let s = reset_reply (s\<lparr>dh_mac := mac, dh_xid := ticks * 2654435761\<rparr>); s = s\<lparr>dh_listening := True\<rparr> in
      case discover DHCP_MAX_ATTEMPTS ts s of
        None \<Rightarrow> None
      | Some (None, ts, s) \<Rightarrow> Some (None, s\<lparr>dh_listening := False\<rparr>)
      | Some (Some offer, ts, s) \<Rightarrow>
          (case request DHCP_MAX_ATTEMPTS offer ts s of
             None \<Rightarrow> None
           | Some (Lease ip netmask gateway dns, ts, s) \<Rightarrow> Some (Some (ip, netmask, gateway, dns), s\<lparr>dh_listening := False\<rparr>)
           | Some (_, ts, s) \<Rightarrow> Some (None, s\<lparr>dh_listening := False\<rparr>)))"

section \<open>Options\<close>

text \<open>Options as a server writes them, and what the client keeps of them: the last of each kind that is long enough.\<close>

datatype dhcp_option = Pad | Opt u8 bytes

fun option_bytes :: "dhcp_option \<Rightarrow> bytes" where
  "option_bytes Pad = [0]"
| "option_bytes (Opt code d) = code # of_nat (length d) # d"

fun option_ok :: "dhcp_option \<Rightarrow> bool" where
  "option_ok Pad \<longleftrightarrow> True"
| "option_ok (Opt code d) \<longleftrightarrow> code \<noteq> 0 \<and> code \<noteq> 0xFF \<and> length d \<le> 255"

fun keep_option :: "dhcp_option \<Rightarrow> dhcp_reply \<Rightarrow> dhcp_reply" where
  "keep_option Pad r = r"
| "keep_option (Opt code d) r = take_option code (length d) (view_of d) 0 r"

lemma take_option_moved:
  "take_option code (length d) (view_of (pre @ d @ post)) (length pre) r = take_option code (length d) (view_of d) 0 r"
proof -
  have "get32 (view_of (pre @ d @ post)) (length pre) = get32 (view_of d) 0" if "length d \<ge> 4"
    using that by (auto simp: get32_def view_of_def nth_append numeral_2_eq_2)
  moreover have "view_of (pre @ d @ post) (length pre) = view_of d 0" if "length d \<ge> 1"
    using that by (auto simp: view_of_def nth_append)
  ultimately show ?thesis by (simp add: take_option_def)
qed

lemma walk_options_wire:
  "\<forall>o' \<in> set opts. option_ok o' \<Longrightarrow> x = pre @ concat (map option_bytes opts) @ 0xFF # post \<Longrightarrow>
   walk_options (view_of x) (length pre) (length x) r = fold keep_option opts r"
proof (induction opts arbitrary: pre r)
  case Nil
  then show ?case by (subst walk_options.simps) (simp add: view_of_def)
next
  case (Cons opt opts)
  have x: "x = (pre @ option_bytes opt) @ concat (map option_bytes opts) @ 0xFF # post" using Cons.prems(2) by simp
  have ih: "walk_options (view_of x) (length (pre @ option_bytes opt)) (length x) r = fold keep_option opts r" for r
    by (rule Cons.IH [OF _ x]) (use Cons.prems(1) in simp)
  show ?case
  proof (cases opt)
    case Pad
    have "length pre < length x" "view_of x (length pre) = 0" using Pad Cons.prems(2) by (simp_all add: view_of_def)
    then have "walk_options (view_of x) (length pre) (length x) r = walk_options (view_of x) (length pre + 1) (length x) r"
      by (subst walk_options.simps) (simp add: Let_def)
    then show ?thesis using ih [of r] Pad by simp
  next
    case (Opt code d)
    let ?post = "concat (map option_bytes opts) @ 0xFF # post"
    have o: "code \<noteq> 0" "code \<noteq> 0xFF" "length d \<le> 255" using Cons.prems(1) Opt by simp_all
    have x': "x = (pre @ [code, of_nat (length d)]) @ d @ ?post" using x Opt by simp
    have v: "view_of x (length pre) = code" "view_of x (length pre + 1) = of_nat (length d)"
      unfolding x' by (simp_all add: view_of_def nth_append)
    have u: "unat (of_nat (length d) :: u8) = length d" using o(3) by (simp add: unat_of_nat)
    have len: "length pre < length x" "\<not> length x \<le> length pre + 1" "\<not> length pre + 1 + 1 + length d > length x" unfolding x' by simp_all
    have t: "take_option code (length d) (view_of x) (length pre + 1 + 1) r = keep_option opt r"
      using take_option_moved [of code d "pre @ [code, of_nat (length d)]" ?post r] Opt x' by simp
    have e: "length pre + 1 + 1 + length d = length (pre @ option_bytes opt)" using Opt by simp
    have "walk_options (view_of x) (length pre) (length x) r
        = walk_options (view_of x) (length pre + 1 + 1 + length d) (length x) (take_option code (length d) (view_of x) (length pre + 1 + 1) r)"
      using len o by (subst walk_options.simps) (simp only: Let_def v u if_True if_False simp_thms)
    then show ?thesis unfolding t e using ih [of "keep_option opt r"] by simp
  qed
qed

text \<open>A reply to a client: the fields the client looks at, the options, the end mark, and anything after it.\<close>

definition reply_packet :: "u32 \<Rightarrow> u32 \<Rightarrow> bytes \<Rightarrow> bytes \<Rightarrow> bytes \<Rightarrow> dhcp_option list \<Rightarrow> bytes \<Rightarrow> bytes" where
  "reply_packet xid yiaddr hops mid chaddr opts rest =
     [2, 1, 6] @ hops @ put32 xid @ mid @ put32 yiaddr @ chaddr @ put32 DHCP_MAGIC_COOKIE @
     concat (map option_bytes opts) @ 0xFF # rest"

lemma parse_reply_options:
  assumes "\<forall>o' \<in> set opts. option_ok o'" "length hops = 1" "length mid = 8" "length chaddr = 216"
    and "x = reply_packet xid yiaddr hops mid chaddr opts rest"
  shows "parse_reply xid DHCP_SERVER_PORT (view_of x) (length x) =
    (let r = fold keep_option opts (no_options yiaddr) in
     if dr_msg_type r \<in> {DHCP_MSG_OFFER, DHCP_MSG_ACK, DHCP_MSG_NAK} then Some r else None)"
proof -
  let ?o = "concat (map option_bytes opts) @ 0xFF # rest"
  let ?h = "[2, 1, 6] @ hops @ put32 xid @ mid @ put32 yiaddr @ chaddr @ put32 DHCP_MAGIC_COOKIE"
  have x: "x = ?h @ ?o" using assms(5) by (simp add: reply_packet_def)
  have h: "length ?h = 240" using assms(2-4) by simp
  have b: "view_of x 0 = 2" "view_of x 1 = 1" "view_of x 2 = 6" unfolding x by (simp_all add: view_of_def)
  have g: "get32 (view_of x) 4 = xid" "get32 (view_of x) 16 = yiaddr" "get32 (view_of x) 236 = DHCP_MAGIC_COOKIE"
    using get32_put [of "[2, 1, 6] @ hops" 4 xid "mid @ put32 yiaddr @ chaddr @ put32 DHCP_MAGIC_COOKIE @ ?o"]
      get32_put [of "[2, 1, 6] @ hops @ put32 xid @ mid" 16 yiaddr "chaddr @ put32 DHCP_MAGIC_COOKIE @ ?o"]
      get32_put [of "[2, 1, 6] @ hops @ put32 xid @ mid @ put32 yiaddr @ chaddr" 236 DHCP_MAGIC_COOKIE ?o] assms(2-4)
    unfolding x by simp_all
  have "walk_options (view_of x) 240 (length x) (no_options yiaddr) = fold keep_option opts (no_options yiaddr)"
    using walk_options_wire [OF assms(1), of x ?h rest] x h by simp
  moreover have "\<not> length x < 240" unfolding x using h by simp
  ultimately show ?thesis using b g by (auto simp: parse_reply_def Let_def)
qed

text \<open>
  A server's reply is understood. Whatever options it carries, in whatever order, with any padding, unknown codes and bytes
  after the end mark: a reply under the client's transaction number yields the offered address and, of each kind of option the client
  knows, the last one that is long enough; and it counts exactly if its message type is an offer, an acknowledgement or a refusal.
\<close>

theorem dhcp_reply_understood:
  assumes "\<forall>o' \<in> set opts. option_ok o'" "length hops = 1" "length mid = 8" "length chaddr = 216"
    and "x = reply_packet xid yiaddr hops mid chaddr opts rest"
  shows "parse_reply xid DHCP_SERVER_PORT (view_of x) (length x) =
    (let r = fold keep_option opts (no_options yiaddr) in
     if dr_msg_type r \<in> {DHCP_MSG_OFFER, DHCP_MSG_ACK, DHCP_MSG_NAK} then Some r else None)"
  by (rule parse_reply_options [OF assms])

definition offer_packet :: "u32 \<Rightarrow> bytes" where
  "offer_packet xid = reply_packet xid 0x0A000005 [0] (replicate 8 0) (replicate 216 0)
     [Opt 53 [2], Opt 54 [10, 0, 0, 1], Pad, Opt 1 [255, 255, 0, 0], Opt 15 [97]] [0, 0]"

theorem dhcp_reply_understood_witness:
  "map_option dr_netmask (parse_reply 99 DHCP_SERVER_PORT (view_of (offer_packet 99)) (length (offer_packet 99))) = Some 0xFFFF0000"
proof -
  let ?opts = "[Opt 53 [2], Opt 54 [10, 0, 0, 1], Pad, Opt 1 [255, 255, 0, 0], Opt 15 [97]]"
  have ok: "\<forall>o' \<in> set ?opts. option_ok o'" "length [0 :: u8] = 1" "length (replicate 8 (0 :: u8)) = 8" "length (replicate 216 (0 :: u8)) = 216"
    by simp_all
  from dhcp_reply_understood [OF ok offer_packet_def [of 99]] show ?thesis
    by (simp add: take_option_def no_options_def get32_def view_of_def)
qed

section \<open>Nothing is read beyond a reply\<close>

lemma take_option_inside:
  assumes "\<forall>k < len. p k = q k" "i + olen \<le> len"
  shows "take_option code olen p i r = take_option code olen q i r"
proof -
  have "olen \<ge> 1 \<Longrightarrow> p i = q i" "olen \<ge> 4 \<Longrightarrow> get32 p i = get32 q i" using assms by (simp_all add: get32_def)
  then show ?thesis by (simp add: take_option_def)
qed

lemma walk_options_inside: "\<forall>k < len. p k = q k \<Longrightarrow> walk_options p i len r = walk_options q i len r"
proof (induction p i len r rule: walk_options.induct)
  case (1 p i len r)
  show ?case
  proof (cases "i < len")
    case False
    then show ?thesis by (simp add: walk_options.simps [of p i] walk_options.simps [of q i])
  next
    case True
    then have i: "p i = q i" using 1 by simp
    consider "q i = 0xFF" | "q i = 0" | "q i \<noteq> 0xFF" "q i \<noteq> 0" by blast
    then show ?thesis
    proof cases
      case 3
      show ?thesis
      proof (cases "i + 1 < len \<and> i + 1 + 1 + unat (q (i + 1)) \<le> len")
        case False
        then show ?thesis
          using True i 3 1(3) by (cases "i + 1 < len") (simp_all add: walk_options.simps [of p i] walk_options.simps [of q i] Let_def)
      next
        case in_range: True
        then have n: "p (i + 1) = q (i + 1)" using 1(3) by simp
        have t: "take_option (q i) (unat (q (i + 1))) p (i + 1 + 1) r = take_option (q i) (unat (q (i + 1))) q (i + 1 + 1) r"
          by (rule take_option_inside [OF 1(3)]) (use in_range in simp)
        have "walk_options p (i + 1 + 1 + unat (p (i + 1))) len (take_option (p i) (unat (p (i + 1))) p (i + 1 + 1) r) =
          walk_options q (i + 1 + 1 + unat (p (i + 1))) len (take_option (p i) (unat (p (i + 1))) p (i + 1 + 1) r)"
          by (rule 1(2) [OF True refl refl _ _ _ refl refl _ 1(3)]) (use True i n 3 in_range in simp_all)
        then have "walk_options p (i + 1 + 1 + unat (q (i + 1))) len (take_option (q i) (unat (q (i + 1))) q (i + 1 + 1) r) =
          walk_options q (i + 1 + 1 + unat (q (i + 1))) len (take_option (q i) (unat (q (i + 1))) q (i + 1 + 1) r)"
          unfolding i n t .
        moreover have "walk_options f i len r = walk_options f (i + 1 + 1 + unat (q (i + 1))) len (take_option (q i) (unat (q (i + 1))) q (i + 1 + 1) r)"
          if "f i = q i" "f (i + 1) = q (i + 1)"
            "take_option (q i) (unat (q (i + 1))) f (i + 1 + 1) r = take_option (q i) (unat (q (i + 1))) q (i + 1 + 1) r" for f
          using True 3 in_range that by (subst walk_options.simps) (simp add: Let_def)
        ultimately show ?thesis using i n t by simp
      qed
    qed (use 1 True i in \<open>simp_all add: walk_options.simps [of p i] walk_options.simps [of q i] Let_def\<close>)
  qed
qed

text \<open>
  The parser of replies never looks beyond the end of a datagram, whatever lengths its options announce.
\<close>

theorem dhcp_reads_inside:
  assumes "\<forall>k < len. p k = q k"
  shows "parse_reply xid port p len = parse_reply xid port q len"
proof (cases "len < 240")
  case True
  then show ?thesis by (simp add: parse_reply_def)
next
  case False
  then have "p 0 = q 0" "p 1 = q 1" "p 2 = q 2" "get32 p 4 = get32 q 4" "get32 p 16 = get32 q 16" "get32 p 236 = get32 q 236"
    using assms by (simp_all add: get32_def)
  then show ?thesis by (simp add: parse_reply_def walk_options_inside [OF assms])
qed

section \<open>Leases\<close>

definition understood :: "u32 \<Rightarrow> turns \<Rightarrow> dhcp_reply \<Rightarrow> bool" where
  "understood xid ts r \<longleftrightarrow> (\<exists>(now, dgs) \<in> set ts. \<exists>(ip, port, x) \<in> set dgs. parse_reply xid port (view_of x) (length x) = Some r)"

definition offer_seen :: "u32 \<Rightarrow> turns \<Rightarrow> u32 \<Rightarrow> u32 \<Rightarrow> bool" where
  "offer_seen xid ts ip server \<longleftrightarrow>
     (\<exists>r. understood xid ts r \<and> dr_msg_type r = DHCP_MSG_OFFER \<and> dr_yiaddr r = ip \<and> dr_server_id r = server)"

definition ack_seen :: "u32 \<Rightarrow> turns \<Rightarrow> u32 \<Rightarrow> u32 \<Rightarrow> u32 \<Rightarrow> u32 \<Rightarrow> bool" where
  "ack_seen xid ts ip netmask gateway dns \<longleftrightarrow>
     (\<exists>r. understood xid ts r \<and> dr_msg_type r = DHCP_MSG_ACK \<and> dr_yiaddr r = ip \<and>
       netmask = (if dr_netmask r = 0 then 0xFFFFFF00 else dr_netmask r) \<and> dr_gateway r = gateway \<and> dr_dns r = dns)"

lemma understood_mono: "set ts \<subseteq> set ts' \<Longrightarrow> understood xid ts r \<Longrightarrow> understood xid ts' r"
  unfolding understood_def by blast

lemma seen_mono:
  "set ts \<subseteq> set ts' \<Longrightarrow> offer_seen xid ts ip server \<Longrightarrow> offer_seen xid ts' ip server"
  "set ts \<subseteq> set ts' \<Longrightarrow> ack_seen xid ts ip netmask gateway dns \<Longrightarrow> ack_seen xid ts' ip netmask gateway dns"
  unfolding offer_seen_def ack_seen_def using understood_mono by blast+

lemma handle_simps [simp]:
  "dh_xid (handle_dhcp_reply ip port p len s) = dh_xid s" "dh_mac (handle_dhcp_reply ip port p len s) = dh_mac s"
  "dh_out (handle_dhcp_reply ip port p len s) = dh_out s"
  by (simp_all add: handle_dhcp_reply_def split: option.split)

lemma net_poll_simps:
  "dh_xid (net_poll dgs s) = dh_xid s" "dh_mac (net_poll dgs s) = dh_mac s" "dh_out (net_poll dgs s) = dh_out s"
  by (induction dgs arbitrary: s) (auto simp: net_poll_def)

lemma net_poll_reply:
  "dh_reply (net_poll dgs s) = Some r \<Longrightarrow>
   dh_reply s = Some r \<or> (\<exists>(ip, port, x) \<in> set dgs. parse_reply (dh_xid s) port (view_of x) (length x) = Some r)"
proof (induction dgs arbitrary: s)
  case (Cons d dgs)
  obtain ip port x where d: "d = (ip, port, x)" using prod_cases3 by blast
  let ?s = "handle_dhcp_reply ip port (view_of x) (length x) s"
  from Cons.prems d have "dh_reply (net_poll dgs ?s) = Some r" by (simp add: net_poll_def)
  from Cons.IH [OF this] show ?case
    by (auto simp: d handle_dhcp_reply_def split: option.splits)
qed (simp add: net_poll_def)

text \<open>What the waiting loops leave: nothing pending, nothing sent, and an outcome that some datagram accounts for.\<close>

definition idle :: "dhcp \<Rightarrow> dhcp \<Rightarrow> bool" where
  "idle s s' \<longleftrightarrow> dh_reply s' = None \<and> dh_out s' = dh_out s \<and> dh_xid s' = dh_xid s \<and> dh_mac s' = dh_mac s"

lemma wait_offer_sound:
  "dh_reply s = None \<Longrightarrow> wait_offer start ts s = Some (off, ts', s') \<Longrightarrow>
   idle s s' \<and> set ts' \<subseteq> set ts \<and>
   (\<forall>ip server. off = Some (ip, server) \<longrightarrow>
     offer_seen (dh_xid s) ts ip server)"
proof (induction start ts s rule: wait_offer.induct)
  case (2 start now dgs ts s)
  let ?s = "net_poll dgs s"
  have idle: "idle s (reset_reply ?s)" by (simp add: idle_def reset_reply_def net_poll_simps)
  have trans: "idle s s'" if "idle (reset_reply ?s) s'" for s' using that idle by (simp add: idle_def)
  have sub: "set ts \<subseteq> set ((now, dgs) # ts)" by auto
  note more = seen_mono [OF sub]
  have xid: "dh_xid (reset_reply ?s) = dh_xid s" by (simp add: reset_reply_def net_poll_simps)
  have none: "dh_reply (reset_reply ?s) = None" by (simp add: reset_reply_def)
  show ?case
  proof (cases "now - start < DHCP_TIMEOUT_TICKS")
    case False
    then show ?thesis using 2 by (auto simp: idle_def)
  next
    case True
    show ?thesis
    proof (cases "dh_reply ?s")
      case None
      then have rs: "reset_reply ?s = ?s" by (simp add: reset_reply_def)
      from 2(1) [OF True refl None None] 2(4) True None more xid trans show ?thesis unfolding rs by fastforce
    next
      case (Some r)
      then have u: "understood (dh_xid s) ((now, dgs) # ts) r"
        using net_poll_reply [OF Some] 2(3) by (auto simp: understood_def)
      show ?thesis
      proof (cases "dr_msg_type r = DHCP_MSG_OFFER")
        case offer: True
        then show ?thesis using 2(4) True Some u idle by (auto simp: offer_seen_def)
      next
        case no: False
        from 2(2) [OF True refl Some refl no none] 2(4) True Some no more xid trans show ?thesis by fastforce
      qed
    qed
  qed
qed simp

lemma wait_ack_sound:
  "dh_reply s = None \<Longrightarrow> wait_ack start ts s = Some (out, ts', s') \<Longrightarrow>
   idle s s' \<and> set ts' \<subseteq> set ts \<and>
   (\<forall>ip netmask gateway dns. out = Lease ip netmask gateway dns \<longrightarrow>
     ack_seen (dh_xid s) ts ip netmask gateway dns)"
proof (induction start ts s rule: wait_ack.induct)
  case (2 start now dgs ts s)
  let ?s = "net_poll dgs s"
  have idle: "idle s (reset_reply ?s)" by (simp add: idle_def reset_reply_def net_poll_simps)
  have trans: "idle s s'" if "idle (reset_reply ?s) s'" for s' using that idle by (simp add: idle_def)
  have sub: "set ts \<subseteq> set ((now, dgs) # ts)" by auto
  note more = seen_mono [OF sub]
  have xid: "dh_xid (reset_reply ?s) = dh_xid s" by (simp add: reset_reply_def net_poll_simps)
  have none: "dh_reply (reset_reply ?s) = None" by (simp add: reset_reply_def)
  show ?case
  proof (cases "now - start < DHCP_TIMEOUT_TICKS")
    case False
    then show ?thesis using 2 by (auto simp: idle_def)
  next
    case True
    show ?thesis
    proof (cases "dh_reply ?s")
      case None
      then have rs: "reset_reply ?s = ?s" by (simp add: reset_reply_def)
      from 2(1) [OF True refl None None] 2(4) True None more xid trans show ?thesis unfolding rs by fastforce
    next
      case (Some r)
      then have u: "understood (dh_xid s) ((now, dgs) # ts) r"
        using net_poll_reply [OF Some] 2(3) by (auto simp: understood_def)
      consider "dr_msg_type r = DHCP_MSG_NAK" | "dr_msg_type r = DHCP_MSG_ACK" | "dr_msg_type r \<noteq> DHCP_MSG_NAK" "dr_msg_type r \<noteq> DHCP_MSG_ACK"
        by blast
      then show ?thesis
      proof cases
        case 3
        from 2(2) [OF True refl Some refl 3 none] 2(4) True Some 3 more xid trans show ?thesis by fastforce
      qed (use 2(4) True Some u idle in \<open>auto simp: ack_seen_def\<close>)
    qed
  qed
qed simp

lemma discover_sound:
  "dh_reply s = None \<Longrightarrow> discover n ts s = Some (off, ts', s') \<Longrightarrow>
   \<exists>k \<le> n. (0 < n \<longrightarrow> 0 < k) \<and>
   idle (s\<lparr>dh_out := dh_out s @ replicate k (dhcp_packet DHCP_MSG_DISCOVER 0 0 (dh_xid s) (dh_mac s))\<rparr>) s' \<and>
   set ts' \<subseteq> set ts \<and>
   (\<forall>ip server. off = Some (ip, server) \<longrightarrow>
     offer_seen (dh_xid s) ts ip server)"
proof (induction n arbitrary: ts s)
  case 0
  then show ?case by (intro exI [of _ 0]) (auto simp: idle_def)
next
  case (Suc n)
  let ?s = "send_dhcp DHCP_MSG_DISCOVER 0 0 s" and ?pkt = "dhcp_packet DHCP_MSG_DISCOVER 0 0 (dh_xid s) (dh_mac s)"
  have simps: "dh_reply ?s = None" "dh_xid ?s = dh_xid s" "dh_mac ?s = dh_mac s" "dh_out ?s = dh_out s @ [?pkt]"
    using Suc.prems(1) by (simp_all add: send_dhcp_def)
  obtain start dgs ts1 where ts: "ts = (start, dgs) # ts1" using Suc.prems(2) by (cases ts) (auto simp: Let_def)
  obtain off1 ts2 s2 where w: "wait_offer start ts1 ?s = Some (off1, ts2, s2)"
    using Suc.prems(2) ts by (auto simp: Let_def split: option.splits)
  note ws = wait_offer_sound [OF simps(1) w]
  have sub: "set ts1 \<subseteq> set ts" using ts by auto
  note more = seen_mono [OF sub]
  have i: "idle ?s s2" "set ts2 \<subseteq> set ts" "dh_reply s2 = None" using ws ts by (auto simp: idle_def)
  show ?case
  proof (cases off1)
    case None
    then have "discover n ts2 s2 = Some (off, ts', s')" using Suc.prems(2) ts w by (simp add: Let_def)
    from Suc.IH [OF i(3) this] obtain k where k: "k \<le> n"
      "idle (s2\<lparr>dh_out := dh_out s2 @ replicate k (dhcp_packet DHCP_MSG_DISCOVER 0 0 (dh_xid s2) (dh_mac s2))\<rparr>) s'" "set ts' \<subseteq> set ts2"
      "\<forall>ip server. off = Some (ip, server) \<longrightarrow>
        offer_seen (dh_xid s2) ts2 ip server" by blast
    show ?thesis
      using k i simps seen_mono [OF i(2)] by (intro exI [of _ "Suc k"]) (fastforce simp: idle_def replicate_append_same [symmetric] simp del: replicate_append_same)
  next
    case (Some offer)
    then have "off = off1" "ts' = ts2" "s' = s2" using Suc.prems(2) ts w by (auto simp: Let_def)
    then show ?thesis
      using ws i simps more by (intro exI [of _ 1]) (auto simp: idle_def)
  qed
qed

lemma request_sound:
  "dh_reply s = None \<Longrightarrow> request n offer ts s = Some (out, ts', s') \<Longrightarrow>
   \<exists>k \<le> n. idle (s\<lparr>dh_out := dh_out s @ replicate k (dhcp_packet DHCP_MSG_REQUEST (fst offer) (snd offer) (dh_xid s) (dh_mac s))\<rparr>) s' \<and>
   (\<forall>ip netmask gateway dns. out = Lease ip netmask gateway dns \<longrightarrow> 0 < k \<and>
     ack_seen (dh_xid s) ts ip netmask gateway dns)"
proof (induction n arbitrary: ts s)
  case 0
  then show ?case by (intro exI [of _ 0]) (auto simp: idle_def)
next
  case (Suc n)
  let ?s = "send_dhcp DHCP_MSG_REQUEST (fst offer) (snd offer) s"
  let ?pkt = "dhcp_packet DHCP_MSG_REQUEST (fst offer) (snd offer) (dh_xid s) (dh_mac s)"
  have simps: "dh_reply ?s = None" "dh_xid ?s = dh_xid s" "dh_mac ?s = dh_mac s" "dh_out ?s = dh_out s @ [?pkt]"
    using Suc.prems(1) by (simp_all add: send_dhcp_def)
  obtain start dgs ts1 where ts: "ts = (start, dgs) # ts1" using Suc.prems(2) by (cases ts) (auto simp: Let_def)
  obtain out1 ts2 s2 where w: "wait_ack start ts1 ?s = Some (out1, ts2, s2)"
    using Suc.prems(2) ts by (auto simp: Let_def split: option.splits)
  note ws = wait_ack_sound [OF simps(1) w]
  have sub: "set ts1 \<subseteq> set ts" using ts by auto
  note more = seen_mono [OF sub]
  have i: "idle ?s s2" "set ts2 \<subseteq> set ts" "dh_reply s2 = None" using ws ts by (auto simp: idle_def)
  show ?case
  proof (cases "out1 = Timeout")
    case True
    then have "request n offer ts2 s2 = Some (out, ts', s')" using Suc.prems(2) ts w by (simp add: Let_def)
    from Suc.IH [OF i(3) this] obtain k where k: "k \<le> n"
      "idle (s2\<lparr>dh_out := dh_out s2 @ replicate k (dhcp_packet DHCP_MSG_REQUEST (fst offer) (snd offer) (dh_xid s2) (dh_mac s2))\<rparr>) s'"
      "\<forall>ip netmask gateway dns. out = Lease ip netmask gateway dns \<longrightarrow> 0 < k \<and>
        ack_seen (dh_xid s2) ts2 ip netmask gateway dns" by blast
    show ?thesis
      using k i simps seen_mono [OF i(2)] by (intro exI [of _ "Suc k"]) (fastforce simp: idle_def)
  next
    case False
    then have "out = out1 \<and> ts' = ts2 \<and> s' = s2" using Suc.prems(2) ts w by (cases out1) (auto simp: Let_def)
    then show ?thesis
      using ws i simps more by (intro exI [of _ 1]) (auto simp: idle_def)
  qed
qed

text \<open>A call looks only at the turns it takes: the rest of the list is handed on as it is.\<close>

definition takes :: "(turns \<Rightarrow> ('r \<times> turns \<times> dhcp) option) \<Rightarrow> bool" where
  "takes f \<longleftrightarrow> (\<forall>ts r ts' s'. f ts = Some (r, ts', s') \<longrightarrow> (\<exists>us. ts = us @ ts' \<and> (\<forall>vs. f (us @ vs) = Some (r, vs, s'))))"

lemma takesD:
  assumes "takes f" "f ts = Some (r, ts', s')"
  obtains us where "ts = us @ ts'" "\<And>vs. f (us @ vs) = Some (r, vs, s')"
  using assms unfolding takes_def by blast

lemma takes_wait_offer: "takes (\<lambda>ts. wait_offer start ts s)"
proof -
  have "wait_offer start ts s = Some (r, ts', s') \<Longrightarrow> \<exists>us. ts = us @ ts' \<and> (\<forall>vs. wait_offer start (us @ vs) s = Some (r, vs, s'))" for ts r ts' s'
  proof (induction start ts s rule: wait_offer.induct)
    case (2 start now dgs ts s)
    let ?s = "net_poll dgs s"
    show ?case
    proof (cases "now - start < DHCP_TIMEOUT_TICKS")
      case False
      then show ?thesis using 2(3) by (intro exI [of _ "[(now, dgs)]"]) auto
    next
      case True
      show ?thesis
      proof (cases "dh_reply ?s")
        case None
        from 2(1) [OF True refl None] 2(3) True None obtain us where
          "ts = us @ ts' \<and> (\<forall>vs. wait_offer start (us @ vs) ?s = Some (r, vs, s'))" by auto
        then show ?thesis using True None by (intro exI [of _ "(now, dgs) # us"]) simp
      next
        case (Some d)
        show ?thesis
        proof (cases "dr_msg_type d = DHCP_MSG_OFFER")
          case offer: True
          then show ?thesis using 2(3) True Some by (intro exI [of _ "[(now, dgs)]"]) auto
        next
          case no: False
          from 2(2) [OF True refl Some refl no] 2(3) True Some no obtain us where
            "ts = us @ ts' \<and> (\<forall>vs. wait_offer start (us @ vs) (reset_reply ?s) = Some (r, vs, s'))" by auto
          then show ?thesis using True Some no by (intro exI [of _ "(now, dgs) # us"]) simp
        qed
      qed
    qed
  qed simp
  then show ?thesis unfolding takes_def by blast
qed

lemma takes_wait_ack: "takes (\<lambda>ts. wait_ack start ts s)"
proof -
  have "wait_ack start ts s = Some (r, ts', s') \<Longrightarrow> \<exists>us. ts = us @ ts' \<and> (\<forall>vs. wait_ack start (us @ vs) s = Some (r, vs, s'))" for ts r ts' s'
  proof (induction start ts s rule: wait_ack.induct)
    case (2 start now dgs ts s)
    let ?s = "net_poll dgs s"
    show ?case
    proof (cases "now - start < DHCP_TIMEOUT_TICKS")
      case False
      then show ?thesis using 2(3) by (intro exI [of _ "[(now, dgs)]"]) auto
    next
      case True
      show ?thesis
      proof (cases "dh_reply ?s")
        case None
        from 2(1) [OF True refl None] 2(3) True None obtain us where
          "ts = us @ ts' \<and> (\<forall>vs. wait_ack start (us @ vs) ?s = Some (r, vs, s'))" by auto
        then show ?thesis using True None by (intro exI [of _ "(now, dgs) # us"]) simp
      next
        case (Some d)
        consider "dr_msg_type d = DHCP_MSG_NAK" | "dr_msg_type d = DHCP_MSG_ACK" | "dr_msg_type d \<noteq> DHCP_MSG_NAK" "dr_msg_type d \<noteq> DHCP_MSG_ACK"
          by blast
        then show ?thesis
        proof cases
          case 3
          from 2(2) [OF True refl Some refl 3] 2(3) True Some 3 obtain us where
            "ts = us @ ts' \<and> (\<forall>vs. wait_ack start (us @ vs) (reset_reply ?s) = Some (r, vs, s'))" by auto
          then show ?thesis using True Some 3 by (intro exI [of _ "(now, dgs) # us"]) simp
        qed (use 2(3) True Some in \<open>auto intro!: exI [of _ "[(now, dgs)]"]\<close>)
      qed
    qed
  qed simp
  then show ?thesis unfolding takes_def by blast
qed

lemma takes_discover: "takes (\<lambda>ts. discover n ts s)"
proof (induction n arbitrary: s)
  case 0
  show ?case by (auto simp: takes_def)
next
  case (Suc n)
  let ?s = "send_dhcp DHCP_MSG_DISCOVER 0 0 s"
  have "\<exists>us. ts = us @ ts' \<and> (\<forall>vs. discover (Suc n) (us @ vs) s = Some (r, vs, s'))" if h: "discover (Suc n) ts s = Some (r, ts', s')" for ts r ts' s'
  proof -
    obtain start d ts1 where ts: "ts = (start, d) # ts1" using h by (cases ts) (auto simp: Let_def)
    obtain off ts2 s2 where w: "wait_offer start ts1 ?s = Some (off, ts2, s2)" using h ts by (auto simp: Let_def split: option.splits)
    obtain us where us: "ts1 = us @ ts2" "\<And>vs. wait_offer start (us @ vs) ?s = Some (off, vs, s2)" by (rule takesD [OF takes_wait_offer w]) metis
    show ?thesis
    proof (cases off)
      case None
      then have "discover n ts2 s2 = Some (r, ts', s')" using h ts w by (simp add: Let_def)
      from takesD [OF Suc.IH this] obtain us' where "ts2 = us' @ ts'" "\<And>vs. discover n (us' @ vs) s2 = Some (r, vs, s')" by metis
      then show ?thesis using ts us None by (intro exI [of _ "(start, d) # us @ us'"]) (simp add: Let_def)
    next
      case (Some offer)
      then show ?thesis using h ts w us by (intro exI [of _ "(start, d) # us"]) (auto simp: Let_def)
    qed
  qed
  then show ?case unfolding takes_def by blast
qed

lemma takes_request: "takes (\<lambda>ts. request n offer ts s)"
proof (induction n arbitrary: s)
  case 0
  show ?case by (auto simp: takes_def)
next
  case (Suc n)
  let ?s = "send_dhcp DHCP_MSG_REQUEST (fst offer) (snd offer) s"
  have "\<exists>us. ts = us @ ts' \<and> (\<forall>vs. request (Suc n) offer (us @ vs) s = Some (r, vs, s'))" if h: "request (Suc n) offer ts s = Some (r, ts', s')" for ts r ts' s'
  proof -
    obtain start d ts1 where ts: "ts = (start, d) # ts1" using h by (cases ts) (auto simp: Let_def)
    obtain out ts2 s2 where w: "wait_ack start ts1 ?s = Some (out, ts2, s2)" using h ts by (auto simp: Let_def split: option.splits)
    obtain us where us: "ts1 = us @ ts2" "\<And>vs. wait_ack start (us @ vs) ?s = Some (out, vs, s2)" by (rule takesD [OF takes_wait_ack w]) metis
    show ?thesis
    proof (cases "out = Timeout")
      case True
      then have "request n offer ts2 s2 = Some (r, ts', s')" using h ts w by (simp add: Let_def)
      from takesD [OF Suc.IH this] obtain us' where "ts2 = us' @ ts'" "\<And>vs. request n offer (us' @ vs) s2 = Some (r, vs, s')" by metis
      then show ?thesis using ts us True by (intro exI [of _ "(start, d) # us @ us'"]) (simp add: Let_def)
    next
      case False
      then show ?thesis using h ts w us by (intro exI [of _ "(start, d) # us"]) (cases out; auto simp: Let_def)
    qed
  qed
  then show ?case unfolding takes_def by blast
qed

text \<open>The call returns in the last of these turns, and not before.\<close>

definition returns_in :: "bytes \<Rightarrow> u32 \<Rightarrow> dhcp \<Rightarrow> turns \<Rightarrow> bool" where
  "returns_in mac ticks s ts \<longleftrightarrow>
     dhcp_acquire mac ticks ts s \<noteq> None \<and> (\<forall>us vs. ts = us @ vs \<and> vs \<noteq> [] \<longrightarrow> dhcp_acquire mac ticks us s = None)"

abbreviation opened :: "bytes \<Rightarrow> u32 \<Rightarrow> dhcp \<Rightarrow> dhcp" where
  "opened mac ticks s \<equiv> (reset_reply (s\<lparr>dh_mac := mac, dh_xid := ticks * 2654435761\<rparr>))\<lparr>dh_listening := True\<rparr>"

lemma lease_takes:
  assumes "discover 4 ts (opened mac ticks s) = Some (Some offer, ts1, s1)" "request 4 offer ts1 s1 = Some (Lease ip netmask gateway dns, ts2, s2)"
  obtains before between where "ts = before @ between @ ts2"
    "discover 4 before (opened mac ticks s) = Some (Some offer, [], s1)"
    "request 4 offer between s1 = Some (Lease ip netmask gateway dns, [], s2)" "returns_in mac ticks s (before @ between)"
proof -
  obtain before where b: "ts = before @ ts1" "\<And>vs. discover 4 (before @ vs) (opened mac ticks s) = Some (Some offer, vs, s1)"
    by (rule takesD [OF takes_discover assms(1)]) metis
  obtain between where m: "ts1 = between @ ts2" "\<And>vs. request 4 offer (between @ vs) s1 = Some (Lease ip netmask gateway dns, vs, s2)"
    by (rule takesD [OF takes_request assms(2)]) metis
  have "dhcp_acquire mac ticks us s = None" if "before @ between = us @ vs" "vs \<noteq> []" for us vs
  proof (rule ccontr)
    assume "dhcp_acquire mac ticks us s \<noteq> None"
    then obtain off us1 t1 where d: "discover 4 us (opened mac ticks s) = Some (off, us1, t1)"
      by (auto simp: dhcp_acquire_def Let_def split: option.splits)
    obtain w where w: "us = w @ us1" "\<And>vs. discover 4 (w @ vs) (opened mac ticks s) = Some (off, vs, t1)"
      by (rule takesD [OF takes_discover d]) metis
    from w(2) [of "us1 @ vs"] b(2) [of between] that(1) w(1) have e: "off = Some offer" "us1 @ vs = between" "t1 = s1" by simp_all
    from \<open>dhcp_acquire mac ticks us s \<noteq> None\<close> d e obtain out us2 t2 where r: "request 4 offer us1 s1 = Some (out, us2, t2)"
      by (auto simp: dhcp_acquire_def Let_def split: option.splits)
    obtain w' where w': "us1 = w' @ us2" "\<And>vs. request 4 offer (w' @ vs) s1 = Some (out, vs, t2)"
      by (rule takesD [OF takes_request r]) metis
    from w'(2) [of "us2 @ vs"] m(2) [of "[]"] e(2) w'(1) have "us2 @ vs = []" by simp
    then show False using that(2) by simp
  qed
  moreover have "dhcp_acquire mac ticks (before @ between) s \<noteq> None"
    using b(2) [of between] m(2) [of "[]"] by (simp add: dhcp_acquire_def Let_def)
  ultimately have "returns_in mac ticks s (before @ between)" unfolding returns_in_def by blast
  then show thesis using that [of before between] b(1) b(2) [of "[]"] m(1) m(2) [of "[]"] by simp
qed

text \<open>
  C29: A lease comes from the network and from nowhere else. A call of \<open>dhcp_acquire\<close> that returns has sent one to four discoveries and
  then at most four requests, nothing else, and has closed its port again. If it returns an address, the turns up to its return, and no
  later ones, fall into two parts: in the first a datagram came that is an offer under its transaction number; in the second, in which
  the requests, at least one, went out for that offer's address and server, a datagram came that is an acknowledgement carrying the
  returned address, gateway and name server, and the returned netmask or none (then the netmask is 255.255.255.0).
\<close>

theorem dhcp_lease_honest:
  assumes "dhcp_acquire mac ticks ts s = Some (res, s')" "xid = ticks * 2654435761"
  shows "\<not> dh_listening s' \<and> (\<exists>k j ip server. 1 \<le> k \<and> k \<le> 4 \<and> j \<le> 4 \<and>
    dh_out s' = dh_out s @ replicate k (dhcp_packet DHCP_MSG_DISCOVER 0 0 xid mac) @ replicate j (dhcp_packet DHCP_MSG_REQUEST ip server xid mac) \<and>
    (case res of None \<Rightarrow> True
     | Some (lease, netmask, gateway, dns) \<Rightarrow> 1 \<le> j \<and>
        (\<exists>before between after. ts = before @ between @ after \<and> returns_in mac ticks s (before @ between) \<and>
          offer_seen xid before ip server \<and> ack_seen xid between lease netmask gateway dns)))"
proof -
  let ?s = "opened mac ticks s"
  have simps: "dh_reply ?s = None" "dh_xid ?s = xid" "dh_mac ?s = mac" "dh_out ?s = dh_out s"
    using assms(2) by (simp_all add: reset_reply_def)
  obtain off ts1 s1 where d: "discover 4 ts ?s = Some (off, ts1, s1)"
    using assms(1) by (auto simp: dhcp_acquire_def Let_def split: option.splits)
  from discover_sound [OF simps(1) d] simps obtain k where k: "k \<le> 4" "1 \<le> k" "dh_reply s1 = None"
    "dh_out s1 = dh_out s @ replicate k (dhcp_packet DHCP_MSG_DISCOVER 0 0 xid mac)" "dh_xid s1 = xid" "dh_mac s1 = mac"
    by (auto simp: idle_def)
  show ?thesis
  proof (cases off)
    case None
    then have "res = None" "s' = s1\<lparr>dh_listening := False\<rparr>" using assms(1) d by (auto simp: dhcp_acquire_def Let_def)
    then show ?thesis
      by (intro conjI, simp) (rule exI [of _ k], rule exI [of _ 0], rule exI [of _ 0], rule exI [of _ 0], use k in simp)
  next
    case (Some offer)
    then obtain out ts2 s2 where r: "request 4 offer ts1 s1 = Some (out, ts2, s2)"
      using assms(1) d by (auto simp: dhcp_acquire_def Let_def split: option.splits)
    from request_sound [OF k(3) r] k(4-6) obtain j where j: "j \<le> 4"
      "dh_out s2 = dh_out s @ replicate k (dhcp_packet DHCP_MSG_DISCOVER 0 0 xid mac) @
        replicate j (dhcp_packet DHCP_MSG_REQUEST (fst offer) (snd offer) xid mac)"
      "\<forall>ip netmask gateway dns. out = Lease ip netmask gateway dns \<longrightarrow> 0 < j \<and> ack_seen xid ts1 ip netmask gateway dns"
      by (auto simp: idle_def)
    have s': "s' = s2\<lparr>dh_listening := False\<rparr>" and res: "res = (case out of Lease ip netmask gateway dns \<Rightarrow> Some (ip, netmask, gateway, dns) | _ \<Rightarrow> None)"
      using assms(1) d Some r by (auto simp: dhcp_acquire_def Let_def split: request_outcome.splits)
    have "1 \<le> j \<and> (\<exists>before between after. ts = before @ between @ after \<and> returns_in mac ticks s (before @ between) \<and>
        offer_seen xid before (fst offer) (snd offer) \<and> ack_seen xid between ip netmask gateway dns)"
      if out: "out = Lease ip netmask gateway dns" for ip netmask gateway dns
    proof -
      obtain before between where b: "ts = before @ between @ ts2" "discover 4 before ?s = Some (Some offer, [], s1)"
        "request 4 offer between s1 = Some (Lease ip netmask gateway dns, [], s2)" "returns_in mac ticks s (before @ between)"
        using lease_takes [OF d [unfolded Some] r [unfolded out]] by blast
      have "offer_seen xid before (fst offer) (snd offer)" using discover_sound [OF simps(1) b(2)] simps(2) by (cases offer) auto
      moreover have "ack_seen xid between ip netmask gateway dns" using request_sound [OF k(3) b(3)] k(5) by auto
      moreover have "1 \<le> j" using j(3) out by (simp add: Suc_le_eq)
      ultimately show ?thesis using b(1,4) by blast
    qed
    then show ?thesis
      unfolding s' res
      by (intro conjI, simp) (rule exI [of _ k], rule exI [of _ j], rule exI [of _ "fst offer"], rule exI [of _ "snd offer"],
        simp add: k(1) k(2) [simplified] j(1,2) split: request_outcome.split)
  qed
qed

text \<open>The exchange with a server that answers at once.\<close>

lemma discover_at_once:
  "wait_offer start ts (send_dhcp DHCP_MSG_DISCOVER 0 0 s) = Some (Some offer, ts', s') \<Longrightarrow>
   discover (Suc n) ((start, d) # ts) s = Some (Some offer, ts', s')"
  by (simp add: Let_def)

lemma request_at_once:
  "wait_ack start ts (send_dhcp DHCP_MSG_REQUEST (fst offer) (snd offer) s) = Some (Lease ip netmask gateway dns, ts', s') \<Longrightarrow>
   request (Suc n) offer ((start, d) # ts) s = Some (Lease ip netmask gateway dns, ts', s')"
  by (simp add: Let_def)

lemma dhcp_exchange:
  assumes "parse_reply (ticks * 2654435761) port (view_of x) (length x) = Some r" "dr_msg_type r = DHCP_MSG_OFFER" "t1 - t0 < DHCP_TIMEOUT_TICKS"
    and "parse_reply (ticks * 2654435761) port' (view_of x') (length x') = Some r'" "dr_msg_type r' = DHCP_MSG_ACK" "t3 - t2 < DHCP_TIMEOUT_TICKS"
  shows "\<exists>s'. dhcp_acquire mac ticks ((t0, d0) # (t1, [(ip, port, x)]) # (t2, d2) # (t3, [(ip', port', x')]) # ts) s =
      Some (Some (dr_yiaddr r', if dr_netmask r' = 0 then 0xFFFFFF00 else dr_netmask r', dr_gateway r', dr_dns r'), s')"
proof -
  let ?s = "(reset_reply (s\<lparr>dh_mac := mac, dh_xid := ticks * 2654435761\<rparr>))\<lparr>dh_listening := True\<rparr>"
  let ?s1 = "send_dhcp DHCP_MSG_DISCOVER 0 0 ?s" and ?offer = "(dr_yiaddr r, dr_server_id r)"
  let ?mask = "if dr_netmask r' = 0 then 0xFFFFFF00 else dr_netmask r'"
  have "wait_offer t0 ((t1, [(ip, port, x)]) # (t2, d2) # (t3, [(ip', port', x')]) # ts) ?s1
      = Some (Some ?offer, (t2, d2) # (t3, [(ip', port', x')]) # ts, ?s1)"
    using assms(1-3) by (simp add: send_dhcp_def net_poll_def handle_dhcp_reply_def reset_reply_def Let_def)
  from discover_at_once [OF this, of 3 d0]
  have d: "discover 4 ((t0, d0) # (t1, [(ip, port, x)]) # (t2, d2) # (t3, [(ip', port', x')]) # ts) ?s
      = Some (Some ?offer, (t2, d2) # (t3, [(ip', port', x')]) # ts, ?s1)" by simp
  let ?s2 = "send_dhcp DHCP_MSG_REQUEST (fst ?offer) (snd ?offer) ?s1"
  have "wait_ack t2 ((t3, [(ip', port', x')]) # ts) ?s2 = Some (Lease (dr_yiaddr r') ?mask (dr_gateway r') (dr_dns r'), ts, ?s2)"
    using assms(4-6) by (simp add: send_dhcp_def net_poll_def handle_dhcp_reply_def reset_reply_def Let_def)
  from request_at_once [OF this, of 3 d2]
  have "request 4 ?offer ((t2, d2) # (t3, [(ip', port', x')]) # ts) ?s1 = Some (Lease (dr_yiaddr r') ?mask (dr_gateway r') (dr_dns r'), ts, ?s2)"
    by simp
  then show ?thesis using d by (simp add: dhcp_acquire_def Let_def)
qed

definition ack_packet :: "u32 \<Rightarrow> bytes" where
  "ack_packet xid = reply_packet xid 0x0A000005 [0] (replicate 8 0) (replicate 216 0) [Opt 53 [5], Opt 3 [10, 0, 0, 1]] []"

definition fresh_dhcp :: dhcp where
  "fresh_dhcp = \<lparr>dh_xid = 0, dh_mac = [], dh_reply = None, dh_listening = False, dh_out = []\<rparr>"

lemma parse_samples:
  "\<exists>r. parse_reply xid DHCP_SERVER_PORT (view_of (offer_packet xid)) (length (offer_packet xid)) = Some r \<and> dr_msg_type r = DHCP_MSG_OFFER"
  "\<exists>r. parse_reply xid DHCP_SERVER_PORT (view_of (ack_packet xid)) (length (ack_packet xid)) = Some r \<and> dr_msg_type r = DHCP_MSG_ACK \<and>
     dr_yiaddr r = 0x0A000005 \<and> dr_netmask r = 0 \<and> dr_gateway r = 0x0A000001 \<and> dr_dns r = 0"
proof -
  let ?offer = "[Opt 53 [2], Opt 54 [10, 0, 0, 1], Pad, Opt 1 [255, 255, 0, 0], Opt 15 [97]]" and ?ack = "[Opt 53 [5], Opt 3 [10, 0, 0, 1]]"
  have l: "length [0 :: u8] = 1" "length (replicate 8 (0 :: u8)) = 8" "length (replicate 216 (0 :: u8)) = 216" by simp_all
  have ok: "\<forall>o' \<in> set ?offer. option_ok o'" "\<forall>o' \<in> set ?ack. option_ok o'" by simp_all
  have p: "parse_reply xid DHCP_SERVER_PORT (view_of (reply_packet xid y [0] (replicate 8 0) (replicate 216 0) opts rest))
        (length (reply_packet xid y [0] (replicate 8 0) (replicate 216 0) opts rest)) =
      (let r = fold keep_option opts (no_options y) in
       if dr_msg_type r \<in> {DHCP_MSG_OFFER, DHCP_MSG_ACK, DHCP_MSG_NAK} then Some r else None)"
    if "\<forall>o' \<in> set opts. option_ok o'" for opts y rest
    by (rule parse_reply_options [OF that l refl])
  show "\<exists>r. parse_reply xid DHCP_SERVER_PORT (view_of (offer_packet xid)) (length (offer_packet xid)) = Some r \<and> dr_msg_type r = DHCP_MSG_OFFER"
    unfolding offer_packet_def p [OF ok(1)] by (simp add: take_option_def no_options_def view_of_def)
  show "\<exists>r. parse_reply xid DHCP_SERVER_PORT (view_of (ack_packet xid)) (length (ack_packet xid)) = Some r \<and> dr_msg_type r = DHCP_MSG_ACK \<and>
     dr_yiaddr r = 0x0A000005 \<and> dr_netmask r = 0 \<and> dr_gateway r = 0x0A000001 \<and> dr_dns r = 0"
    unfolding ack_packet_def p [OF ok(2)] by (simp add: take_option_def no_options_def view_of_def get32_def)
qed

theorem dhcp_lease_honest_witness:
  "\<exists>s'. dhcp_acquire [1, 2, 3, 4, 5, 6] 9 [(0, []), (1, [(7, 67, offer_packet (9 * 2654435761))]), (2, []), (3, [(7, 67, ack_packet (9 * 2654435761))])]
      fresh_dhcp = Some (Some (0x0A000005, 0xFFFFFF00, 0x0A000001, 0), s') \<and> \<not> dh_listening s'"
proof -
  let ?xid = "9 * 2654435761 :: u32"
  obtain r where r: "parse_reply ?xid DHCP_SERVER_PORT (view_of (offer_packet ?xid)) (length (offer_packet ?xid)) = Some r"
    "dr_msg_type r = DHCP_MSG_OFFER" using parse_samples(1) by blast
  obtain r' where r': "parse_reply ?xid DHCP_SERVER_PORT (view_of (ack_packet ?xid)) (length (ack_packet ?xid)) = Some r'"
    "dr_msg_type r' = DHCP_MSG_ACK" "dr_yiaddr r' = 0x0A000005" "dr_netmask r' = 0" "dr_gateway r' = 0x0A000001" "dr_dns r' = 0"
    using parse_samples(2) by blast
  have "(1 :: u32) - 0 < DHCP_TIMEOUT_TICKS" "(3 :: u32) - 2 < DHCP_TIMEOUT_TICKS" by simp_all
  then obtain s' where s': "dhcp_acquire [1, 2, 3, 4, 5, 6] 9 [(0, []), (1, [(7, 67, offer_packet ?xid)]), (2, []), (3, [(7, 67, ack_packet ?xid)])]
      fresh_dhcp = Some (Some (0x0A000005, 0xFFFFFF00, 0x0A000001, 0), s')"
    using dhcp_exchange [OF r _ r'(1,2), of 1 0 3 2 "[1, 2, 3, 4, 5, 6]" "[]" 7 "[]" 7 "[]" fresh_dhcp] unfolding r'(3-6) if_P [OF refl] by blast
  from dhcp_lease_honest [OF s' refl] s' show ?thesis by blast
qed

theorem dhcp_reads_inside_witness:
  "parse_reply 1 67 (view_of (replicate 240 2)) 240 = parse_reply 1 67 (\<lambda>i. if i < 240 then 2 else 9) 240"
  by (rule dhcp_reads_inside) (simp add: view_of_def)

end
