(* ===== verification/Tftp.thy ===== *)
theory Tftp
  imports Netpath Stream
begin

text \<open>
  The TFTP client (\<open>src/sw/apps/net/tftp.c\<close>): between a server on the network and a process at the other end of a stream. A get
  holds one block from the server until the receiver pulls it; a put pulls one chunk from the sender for each block the server has
  acknowledged. Datagrams and messages that are sent are lists in the state; heap and streams are those of \<open>Stream\<close>.
\<close>

section \<open>State\<close>

abbreviation TFTP_OP_RRQ :: u8 where "TFTP_OP_RRQ \<equiv> 1"
abbreviation TFTP_OP_WRQ :: u8 where "TFTP_OP_WRQ \<equiv> 2"
abbreviation TFTP_OP_DATA :: u8 where "TFTP_OP_DATA \<equiv> 3"
abbreviation TFTP_OP_ACK :: u8 where "TFTP_OP_ACK \<equiv> 4"
abbreviation TFTP_OP_ERROR :: u8 where "TFTP_OP_ERROR \<equiv> 5"
abbreviation TFTP_SERVER_PORT :: u16 where "TFTP_SERVER_PORT \<equiv> 69"
abbreviation TFTP_BLOCK_SIZE :: nat where "TFTP_BLOCK_SIZE \<equiv> 512"
abbreviation TFTP_TIMEOUT_TICKS :: u32 where "TFTP_TIMEOUT_TICKS \<equiv> 366"
abbreviation TFTP_MAX_RETRIES :: nat where "TFTP_MAX_RETRIES \<equiv> 5"

datatype tstate = T_IDLE | T_GET | T_PUT | T_DONE_OK | T_DONE_ERR

text \<open>\<open>tf_held\<close> is the holding area, while it is valid.\<close>

record tftp =
  tf_state :: tstate
  tf_is_get :: bool
  tf_srv_ip :: u32
  tf_srv_port :: u16
  tf_local_port :: u16
  tf_block :: u16
  tf_buf_len :: u32
  tf_last_chunk_len :: nat
  tf_last_tx :: u32
  tf_retries :: nat
  tf_last_pkt :: bytes
  tf_err :: string
  tf_out_stream :: zstream_producer
  tf_pull_pending :: bool
  tf_in_stream :: zstream_consumer
  tf_put_filename :: bytes
  tf_wrq_sent :: bool
  tf_server_ack_pending :: bool
  tf_held :: "bytes option"
  tf_next_port :: u16
  tf_next_stream_id :: u32
  tf_next_open_tag :: u32
  tf_now :: u32
  tf_listening :: "u16 option"
  tf_heap :: blobs
  tf_out :: "(u32 \<times> u16 \<times> u16 \<times> bytes) list"
  tf_msgs :: "smsg list"

definition set_err_msg :: "string \<Rightarrow> tftp \<Rightarrow> tftp" where "set_err_msg msg s = s\<lparr>tf_err := take 63 msg\<rparr>"

definition tftp_local_port :: "u16 \<Rightarrow> u16" where
  "tftp_local_port p = (if p + 1 < 49152 then 49152 else p + 1)"

section \<open>Packets\<close>

definition send_last_packet :: "tftp \<Rightarrow> tftp" where
  "send_last_packet s =
     s\<lparr>tf_out := tf_out s @ [(tf_srv_ip s, if tf_srv_port s \<noteq> 0 then tf_srv_port s else TFTP_SERVER_PORT, tf_local_port s, tf_last_pkt s)],
       tf_last_tx := tf_now s\<rparr>"

definition request_packet :: "u8 \<Rightarrow> bytes \<Rightarrow> bytes" where
  "request_packet opcode filename = [0, opcode] @ take (4 + TFTP_BLOCK_SIZE - 8 - 2) filename @ [0] @ [0x6F, 0x63, 0x74, 0x65, 0x74] @ [0]"

definition send_rrq_wrq :: "u8 \<Rightarrow> bytes \<Rightarrow> tftp \<Rightarrow> tftp" where
  "send_rrq_wrq opcode filename s = send_last_packet (s\<lparr>tf_last_pkt := request_packet opcode filename, tf_srv_port := 0\<rparr>)"

definition send_ack :: "u16 \<Rightarrow> tftp \<Rightarrow> tftp" where
  "send_ack blk s = send_last_packet (s\<lparr>tf_last_pkt := [0, TFTP_OP_ACK] @ put16 blk\<rparr>)"

definition send_data :: "u16 \<Rightarrow> bytes \<Rightarrow> tftp \<Rightarrow> tftp" where
  "send_data blk data s = send_last_packet (s\<lparr>tf_last_pkt := [0, TFTP_OP_DATA] @ put16 blk @ data\<rparr>)"

section \<open>Transfer steps\<close>

text \<open>Messages of the stream libraries, with the state they return.\<close>

definition producer_sends :: "zstream_producer \<times> blobs \<times> smsg list \<Rightarrow> tftp \<Rightarrow> tftp" where
  "producer_sends r s = (case r of (p, h, outs) \<Rightarrow> s\<lparr>tf_out_stream := p, tf_heap := h, tf_msgs := tf_msgs s @ outs\<rparr>)"

definition fail :: "string \<Rightarrow> tftp \<Rightarrow> tftp" where
  "fail msg s =
     (let s = (set_err_msg msg s)\<lparr>tf_state := T_DONE_ERR, tf_listening := None\<rparr> in
      if tf_is_get s then
        (if sp_active (tf_out_stream s) then producer_sends (zstream_send_error (tf_out_stream s) msg (tf_heap s)) s else s)
      else if sc_active (tf_in_stream s) then
        (case zstream_abort (tf_in_stream s) of (c, outs) \<Rightarrow> s\<lparr>tf_in_stream := c, tf_msgs := tf_msgs s @ outs\<rparr>)
      else s)"

definition try_deliver_get :: "tftp \<Rightarrow> tftp" where
  "try_deliver_get s =
     (case tf_held s of
        None \<Rightarrow> s
      | Some data \<Rightarrow>
          if \<not> tf_pull_pending s then s
          else
            let s = producer_sends (zstream_send_chunk (tf_out_stream s) data (tf_heap s)) s;
                s = s\<lparr>tf_block := tf_block s + 1, tf_buf_len := tf_buf_len s + of_nat (length data), tf_pull_pending := False, tf_held := None\<rparr>;
                s = send_ack (tf_block s) s in
            if length data < TFTP_BLOCK_SIZE then
              let s = s\<lparr>tf_state := T_DONE_OK, tf_listening := None\<rparr> in
              producer_sends (zstream_send_eof (tf_out_stream s) (tf_heap s)) s
            else s)"

definition pull_next :: "tftp \<Rightarrow> tftp" where
  "pull_next s = s\<lparr>tf_msgs := tf_msgs s @ zstream_pull_async (tf_in_stream s)\<rparr>"

definition try_send_put_block :: "tftp \<Rightarrow> tftp" where
  "try_send_put_block s =
     (case tf_held s of
        None \<Rightarrow> s\<lparr>tf_server_ack_pending := True\<rparr>
      | Some data \<Rightarrow>
          let s = s\<lparr>tf_block := tf_block s + 1\<rparr>;
              s = send_data (tf_block s) data s;
              s = s\<lparr>tf_buf_len := tf_buf_len s + of_nat (length data), tf_last_chunk_len := length data, tf_held := None\<rparr> in
          if length data = TFTP_BLOCK_SIZE then pull_next s else s)"

text \<open>The server's own message ends at the first zero; the numbers of blocks are compared as unsigned integers wider than 16 bits.\<close>

definition error_message :: "view \<Rightarrow> nat \<Rightarrow> string" where
  "error_message p len = map (\<lambda>b. char_of (unat b)) (takeWhile (\<lambda>b. b \<noteq> 0) (take 63 (view_bytes (view_at p 4) (len - 4))))"

definition handle_packet :: "u32 \<Rightarrow> u16 \<Rightarrow> view \<Rightarrow> nat \<Rightarrow> tftp \<Rightarrow> tftp" where
  "handle_packet src_ip src_port p len s =
     (if tf_state s \<noteq> T_GET \<and> tf_state s \<noteq> T_PUT then s
      else if src_ip \<noteq> tf_srv_ip s then s
      else if len < 4 then s
      else
        let opcode = get16 p 0 in
        if tf_srv_port s \<noteq> 0 \<and> src_port \<noteq> tf_srv_port s then s
        else
          let s = (if tf_srv_port s = 0 then s\<lparr>tf_srv_port := src_port\<rparr> else s) in
          if opcode = ucast TFTP_OP_ERROR then
            (let msg = error_message p len in fail (if msg \<noteq> [] then msg else ''server error'') s)
          else if tf_is_get s \<and> opcode = ucast TFTP_OP_DATA then
            (let blk = get16 p 2; dlen = len - 4 in
             if tf_held s \<noteq> None then s
             else if unat blk = unat (tf_block s) + 1 then
               (if dlen > TFTP_BLOCK_SIZE then fail ''oversized block from server'' s
                else try_deliver_get (s\<lparr>tf_held := Some (view_bytes (view_at p 4) dlen), tf_retries := 0\<rparr>))
             else if blk = tf_block s then send_ack (tf_block s) s
             else s)
          else if \<not> tf_is_get s \<and> opcode = ucast TFTP_OP_ACK then
            (let blk = get16 p 2 in
             if blk \<noteq> tf_block s then s
             else
               let s = s\<lparr>tf_retries := 0\<rparr> in
               if tf_block s > 0 \<and> tf_last_chunk_len s < TFTP_BLOCK_SIZE then s\<lparr>tf_state := T_DONE_OK, tf_listening := None\<rparr>
               else try_send_put_block s)
          else s)"

section \<open>Calls\<close>

definition tftp_get_start :: "u32 \<Rightarrow> bytes \<Rightarrow> u32 \<Rightarrow> u32 \<Rightarrow> tftp \<Rightarrow> bool \<times> tftp" where
  "tftp_get_start server_ip filename receiver_pid open_tag s =
     (if tf_state s = T_GET \<or> tf_state s = T_PUT then (False, s)
      else
        let port = tftp_local_port (tf_next_port s);
            s = s\<lparr>tf_srv_ip := server_ip, tf_srv_port := 0, tf_local_port := port, tf_next_port := port, tf_is_get := True, tf_buf_len := 0,
                  tf_block := 0, tf_retries := 0, tf_pull_pending := False, tf_held := None\<rparr> in
        case zstream_accept receiver_pid open_tag (tf_next_stream_id s) of (p, nxt, outs) \<Rightarrow>
          let s = s\<lparr>tf_out_stream := p, tf_next_stream_id := nxt, tf_msgs := tf_msgs s @ outs, tf_listening := Some port\<rparr> in
          (True, (send_rrq_wrq TFTP_OP_RRQ filename s)\<lparr>tf_state := T_GET\<rparr>))"

definition tftp_put_start :: "u32 \<Rightarrow> bytes \<Rightarrow> u32 \<Rightarrow> tftp \<Rightarrow> bool \<times> tftp" where
  "tftp_put_start server_ip filename sender_pid s =
     (if tf_state s = T_GET \<or> tf_state s = T_PUT then (False, s)
      else
        let port = tftp_local_port (tf_next_port s);
            s = s\<lparr>tf_srv_ip := server_ip, tf_srv_port := 0, tf_local_port := port, tf_next_port := port, tf_is_get := False, tf_buf_len := 0,
                  tf_block := 0, tf_last_chunk_len := 0, tf_retries := 0, tf_wrq_sent := False, tf_server_ack_pending := False,
                  tf_held := None, tf_put_filename := take 63 filename, tf_listening := Some port, tf_last_tx := tf_now s\<rparr> in
        case zstream_open_async sender_pid SNone (tf_next_open_tag s) of (c, nxt, outs) \<Rightarrow>
          (True, s\<lparr>tf_in_stream := c, tf_next_open_tag := nxt, tf_msgs := tf_msgs s @ outs, tf_state := T_PUT\<rparr>))"

definition put_deliver_chunk :: "bytes \<Rightarrow> tftp \<Rightarrow> tftp" where
  "put_deliver_chunk data s =
     (if length data > TFTP_BLOCK_SIZE then fail ''chunk larger than a TFTP block'' s
      else
        let s = s\<lparr>tf_held := Some data\<rparr> in
        if \<not> tf_wrq_sent s then send_rrq_wrq TFTP_OP_WRQ (tf_put_filename s) (s\<lparr>tf_wrq_sent := True\<rparr>)
        else if tf_server_ack_pending s then try_send_put_block (s\<lparr>tf_server_ack_pending := False\<rparr>)
        else s)"

definition put_deliver_eof :: "tftp \<Rightarrow> tftp" where
  "put_deliver_eof s =
     (if \<not> tf_wrq_sent s then send_rrq_wrq TFTP_OP_WRQ (tf_put_filename s) (s\<lparr>tf_wrq_sent := True, tf_held := Some []\<rparr>)
      else if tf_last_chunk_len s < TFTP_BLOCK_SIZE then s
      else
        let s = s\<lparr>tf_held := Some []\<rparr> in
        if tf_server_ack_pending s then try_send_put_block (s\<lparr>tf_server_ack_pending := False\<rparr>) else s)"

text \<open>The sender's bytes are read where they lie in its heap: \<open>peer\<close>.\<close>

definition tftp_handle_stream_msg :: "(nat \<Rightarrow> bytes option) \<Rightarrow> smsg \<Rightarrow> tftp \<Rightarrow> bool \<times> tftp" where
  "tftp_handle_stream_msg peer msg s =
     (if sm_subject msg = Z_STREAM_PULL \<or> sm_subject msg = Z_STREAM_ABORT then
        (if tf_state s \<noteq> T_GET then (False, s)
         else case zstream_producer_handle (tf_out_stream s) msg (tf_heap s) of (ev, p, h, outs) \<Rightarrow>
           let s = producer_sends (p, h, outs) s in
           (True,
            if ev = EVENT_PULL then try_deliver_get (s\<lparr>tf_pull_pending := True\<rparr>)
            else if ev = EVENT_ABORT then fail ''receiver aborted'' s
            else s))
      else if sm_subject msg = Z_STREAM_OPEN_REPLY \<or> sm_subject msg = Z_STREAM_CHUNK \<or> sm_subject msg = Z_STREAM_EOF \<or>
              sm_subject msg = Z_STREAM_ERROR then
        (if tf_state s \<noteq> T_PUT then (False, s)
         else case zstream_consumer_handle 64 (tf_in_stream s) msg of (ev, c, a, err) \<Rightarrow>
           let s = s\<lparr>tf_in_stream := c\<rparr>; err = (case err of Some e \<Rightarrow> e | None \<Rightarrow> []) in
           (True,
            case ev of
              CEVENT_OPENED \<Rightarrow> pull_next s
            | CEVENT_OPEN_FAILED \<Rightarrow> fail err s
            | CEVENT_CHUNK \<Rightarrow> put_deliver_chunk (case Option.bind a peer of Some d \<Rightarrow> d | None \<Rightarrow> []) s
            | CEVENT_EOF \<Rightarrow> put_deliver_eof s
            | CEVENT_ERROR \<Rightarrow> fail err s
            | CEVENT_NONE \<Rightarrow> s))
      else (False, s))"

datatype tftp_result = TFTP_RESULT_PENDING | TFTP_RESULT_OK u32 | TFTP_RESULT_ERROR string

definition tftp_poll :: "tftp \<Rightarrow> tftp_result \<times> tftp" where
  "tftp_poll s =
     (let s =
        (if tf_state s = T_PUT \<and> \<not> tf_wrq_sent s then
           (if tf_now s - tf_last_tx s \<ge> TFTP_TIMEOUT_TICKS * of_nat TFTP_MAX_RETRIES then fail ''timed out waiting for data to send'' s else s)
         else if tf_state s = T_GET \<or> tf_state s = T_PUT then
           (if tf_now s - tf_last_tx s \<ge> TFTP_TIMEOUT_TICKS then
              let s = s\<lparr>tf_retries := tf_retries s + 1\<rparr> in
              if tf_retries s > TFTP_MAX_RETRIES then fail ''timed out'' s else send_last_packet s
            else s)
         else s) in
      case tf_state s of
        T_DONE_OK \<Rightarrow> (TFTP_RESULT_OK (tf_buf_len s), s\<lparr>tf_state := T_IDLE\<rparr>)
      | T_DONE_ERR \<Rightarrow> (TFTP_RESULT_ERROR (tf_err s), s\<lparr>tf_state := T_IDLE\<rparr>)
      | _ \<Rightarrow> (TFTP_RESULT_PENDING, s))"

section \<open>Runs\<close>

text \<open>What happens to the client: a datagram from the network, a message from another process, a turn of its main loop.\<close>

datatype tinput = TPacket u32 u16 bytes | TMsg smsg | TPoll u32

primrec tftp_step :: "(nat \<Rightarrow> bytes option) \<Rightarrow> tinput \<Rightarrow> tftp \<Rightarrow> tftp_result \<times> tftp" where
  "tftp_step peer (TPacket ip port b) s = (TFTP_RESULT_PENDING, handle_packet ip port (view_of b) (length b) s)"
| "tftp_step peer (TMsg m) s = (TFTP_RESULT_PENDING, snd (tftp_handle_stream_msg peer m s))"
| "tftp_step peer (TPoll now) s = tftp_poll (s\<lparr>tf_now := now\<rparr>)"

definition tftp_run :: "(nat \<Rightarrow> bytes option) \<Rightarrow> tinput list \<Rightarrow> tftp \<Rightarrow> tftp" where
  "tftp_run peer = fold (\<lambda>i s. snd (tftp_step peer i s))"

text \<open>A file as the server numbers its blocks: from 1, each full but the last, which may be empty.\<close>

definition file_block :: "bytes \<Rightarrow> nat \<Rightarrow> bytes" where
  "file_block F i = take TFTP_BLOCK_SIZE (drop (TFTP_BLOCK_SIZE * (i - 1)) F)"

definition blocks :: "bytes \<Rightarrow> nat" where "blocks F = length F div TFTP_BLOCK_SIZE + 1"

text \<open>The server sends no data but blocks of the file under their own numbers; anyone else may send anything.\<close>

primrec honest :: "u32 \<Rightarrow> bytes \<Rightarrow> tinput \<Rightarrow> bool" where
  "honest srv F (TPacket ip port b) =
     (ip = srv \<and> 4 \<le> length b \<and> get16 (view_of b) 0 = 3 \<longrightarrow>
      (\<exists>i\<in>{1..blocks F}. get16 (view_of b) 2 = of_nat i \<and> drop 4 b = file_block F i))"
| "honest srv F (TMsg m) = True"
| "honest srv F (TPoll now) = True"

lemma view_bytes_drop: "view_bytes (view_at (view_of b) k) (length b - k) = drop k b"
  by (rule nth_equalityI) (auto simp: view_bytes_def view_at_def view_of_def)

lemma file_block_length:
  assumes "1 \<le> i" "i \<le> blocks F"
  shows "length (file_block F i) = (if i = blocks F then length F mod TFTP_BLOCK_SIZE else TFTP_BLOCK_SIZE)"
proof -
  obtain j where i: "i = Suc j" using assms(1) by (cases i) auto
  have "TFTP_BLOCK_SIZE * (length F div TFTP_BLOCK_SIZE) + length F mod TFTP_BLOCK_SIZE = length F" by simp
  moreover have "length F mod TFTP_BLOCK_SIZE < TFTP_BLOCK_SIZE" by simp
  moreover have "j < length F div TFTP_BLOCK_SIZE \<Longrightarrow> TFTP_BLOCK_SIZE * Suc j \<le> TFTP_BLOCK_SIZE * (length F div TFTP_BLOCK_SIZE)"
    by (rule mult_le_mono2) simp
  ultimately show ?thesis using assms(2) i by (auto simp: file_block_def blocks_def min_def minus_mult_div_eq_mod)
qed

lemma file_block_short: "1 \<le> i \<Longrightarrow> i \<le> blocks F \<Longrightarrow> length (file_block F i) < TFTP_BLOCK_SIZE \<longleftrightarrow> i = blocks F"
  by (simp add: file_block_length)

lemma file_block_sum:
  assumes "1 \<le> i" "i \<le> blocks F"
  shows "TFTP_BLOCK_SIZE * (i - 1) + length (file_block F i) = (if i = blocks F then length F else TFTP_BLOCK_SIZE * i)"
proof -
  have "TFTP_BLOCK_SIZE * (length F div TFTP_BLOCK_SIZE) + length F mod TFTP_BLOCK_SIZE = length F" by simp
  then show ?thesis using assms file_block_length [OF assms] by (cases i) (auto simp: blocks_def)
qed

subsection \<open>What a get keeps\<close>

text \<open>
  While a get runs, \<open>k\<close> blocks have been passed on: the file's next block is the only one that can be held, and the chunk that is kept
  for the receiver is block \<open>k\<close>, until the receiver asks for the next.
\<close>

definition memory_lasts :: "blobs \<Rightarrow> bool" where
  "memory_lasts h \<longleftrightarrow> (\<forall>n. bl_ok h n)"

lemma memory_lasts_simps [simp]:
  "memory_lasts (h\<lparr>bl_next := n\<rparr>) = memory_lasts h" "memory_lasts (h\<lparr>bl_data := d\<rparr>) = memory_lasts h"
  "memory_lasts (free_chunk c h) = memory_lasts h" "memory_lasts h \<Longrightarrow> bl_ok h n"
  by (simp_all add: memory_lasts_def free_ok)

definition chunk_sent :: "u32 \<Rightarrow> smsg list \<Rightarrow> bool" where
  "chunk_sent tag ms \<longleftrightarrow> (\<exists>m\<in>set ms. sm_subject m = Z_STREAM_CHUNK \<and> sm_tag m = tag)"

lemma chunk_sent_append [simp]: "chunk_sent tag (xs @ ys) \<longleftrightarrow> chunk_sent tag xs \<or> chunk_sent tag ys"
  by (auto simp: chunk_sent_def)

definition get_at :: "u32 \<Rightarrow> bytes \<Rightarrow> nat \<Rightarrow> tftp \<Rightarrow> bool" where
  "get_at sid F k s \<longleftrightarrow>
     tf_is_get s \<and> k < blocks F \<and> tf_block s = of_nat k \<and> tf_buf_len s = of_nat (TFTP_BLOCK_SIZE * k) \<and>
     sp_active (tf_out_stream s) \<and> sp_stream_id (tf_out_stream s) = sid \<and> sp_seq (tf_out_stream s) = of_nat k - 1 \<and>
     memory_lasts (tf_heap s) \<and> (0 < k \<longrightarrow> chunk_sent (ZSTREAM_TAG sid (of_nat (k - 1))) (tf_msgs s)) \<and>
     (tf_held s = None \<or> tf_held s = Some (file_block F (Suc k))) \<and>
     (sp_last_chunk (tf_out_stream s) = SNone \<or>
      (0 < k \<and> \<not> tf_pull_pending s \<and> (\<exists>a. sp_last_chunk (tf_out_stream s) = SBlob a \<and> bl_data (tf_heap s) a = Some (file_block F k))))"

definition get_ok :: "u32 \<Rightarrow> u32 \<Rightarrow> bytes \<Rightarrow> tftp \<Rightarrow> bool" where
  "get_ok srv sid F s \<longleftrightarrow> tf_srv_ip s = srv \<and>
     (case tf_state s of
        T_GET \<Rightarrow> \<exists>k. get_at sid F k s
      | T_PUT \<Rightarrow> False
      | T_DONE_OK \<Rightarrow> tf_buf_len s = of_nat (length F)
      | _ \<Rightarrow> True)"

text \<open>
  A chunk on its way: block \<open>j + 1\<close> under sequence number \<open>j\<close>, alive in the heap \<open>h\<close> unless it is the last; or, without data, a
  repeat of one that was sent before.
\<close>

definition chunk_ok :: "u32 \<Rightarrow> bytes \<Rightarrow> smsg list \<Rightarrow> blobs \<Rightarrow> smsg \<Rightarrow> bool" where
  "chunk_ok sid F old h m \<longleftrightarrow>
     (sm_subject m = Z_STREAM_CHUNK \<longrightarrow>
      (\<exists>j < blocks F. sm_tag m = ZSTREAM_TAG sid (of_nat j) \<and>
        ((\<exists>a. sm_obj m = SBlob a \<and> bl_data h a = (if Suc j = blocks F then None else Some (file_block F (Suc j)))) \<or>
         sm_obj m = SNone \<and> chunk_sent (sm_tag m) old)))"

definition get_goes :: "u32 \<Rightarrow> u32 \<Rightarrow> bytes \<Rightarrow> tftp \<Rightarrow> tftp \<Rightarrow> bool" where
  "get_goes srv sid F s s' \<longleftrightarrow>
     get_ok srv sid F s' \<and> (\<exists>new. tf_msgs s' = tf_msgs s @ new \<and> (\<forall>m\<in>set new. chunk_ok sid F (tf_msgs s) (tf_heap s') m))"

lemma send_last_packet_simps [simp]:
  "get_at sid F k (send_last_packet s) = get_at sid F k s" "tf_state (send_last_packet s) = tf_state s"
  "tf_msgs (send_last_packet s) = tf_msgs s" "tf_heap (send_last_packet s) = tf_heap s" "tf_srv_ip (send_last_packet s) = tf_srv_ip s"
  "tf_buf_len (send_last_packet s) = tf_buf_len s" "tf_out_stream (send_last_packet s) = tf_out_stream s"
  by (simp_all add: send_last_packet_def get_at_def)

lemma tftp_ack_simps [simp]:
  "get_at sid F k (send_ack b s) = get_at sid F k s" "tf_state (send_ack b s) = tf_state s"
  "tf_msgs (send_ack b s) = tf_msgs s" "tf_heap (send_ack b s) = tf_heap s" "tf_srv_ip (send_ack b s) = tf_srv_ip s"
  "tf_buf_len (send_ack b s) = tf_buf_len s" "tf_out_stream (send_ack b s) = tf_out_stream s"
  "tf_is_get (send_ack b s) = tf_is_get s" "tf_block (send_ack b s) = tf_block s" "tf_held (send_ack b s) = tf_held s"
  "tf_pull_pending (send_ack b s) = tf_pull_pending s"
  by (simp_all add: send_ack_def, simp_all add: get_at_def send_last_packet_def)

lemma get_okI: "get_at sid F k s \<Longrightarrow> tf_state s = T_GET \<Longrightarrow> tf_srv_ip s = srv \<Longrightarrow> get_ok srv sid F s"
  by (auto simp: get_ok_def)

lemma get_goes_refl: "get_ok srv sid F s \<Longrightarrow> get_goes srv sid F s s"
  by (simp add: get_goes_def)

lemma fail_goes:
  assumes "get_at sid F k s" "tf_srv_ip s = srv"
  shows "get_goes srv sid F s (fail msg s)"
  using assms
  by (auto simp: fail_def get_at_def Let_def get_goes_def get_ok_def set_err_msg_def producer_sends_def zstream_send_error_def
      z_msg_new_def chunk_ok_def)

lemma next_seq_at: "sp_seq st = of_nat k - 1 \<Longrightarrow> next_seq st = of_nat k"
  by (simp add: next_seq_eq)

lemma deliver_get_at:
  assumes at: "get_at sid F k s" and held: "tf_held s = Some (file_block F (Suc k))" and pull: "tf_pull_pending s" and "Suc k \<noteq> blocks F"
  shows "get_at sid F (Suc k) (try_deliver_get s)"
proof -
  have k: "Suc k < blocks F" using assms by (simp add: get_at_def)
  have seq: "next_seq (tf_out_stream s) = of_nat k" using at next_seq_at by (simp add: get_at_def)
  have "length (file_block F (Suc k)) = TFTP_BLOCK_SIZE" using file_block_length [of "Suc k" F] k by simp
  then show ?thesis
    using at held pull seq k
    by (auto simp: try_deliver_get_def Let_def producer_sends_def zstream_send_chunk_def z_obj_blob_def z_msg_new_def get_at_def chunk_sent_def)
qed

lemma deliver_goes:
  assumes at: "get_at sid F k s" and srv: "tf_srv_ip s = srv" and st: "tf_state s = T_GET"
  shows "get_goes srv sid F s (try_deliver_get s)"
proof (cases "tf_held s = None \<or> \<not> tf_pull_pending s")
  case True
  then have "try_deliver_get s = s" by (auto simp: try_deliver_get_def split: option.splits)
  then show ?thesis using get_goes_refl [OF get_okI [OF at st srv]] by simp
next
  case False
  have k: "k < blocks F" using at by (simp add: get_at_def)
  have held: "tf_held s = Some (file_block F (Suc k))" and pull: "tf_pull_pending s" using False at by (auto simp: get_at_def)
  have seq: "next_seq (tf_out_stream s) = of_nat k" using at next_seq_at by (simp add: get_at_def)
  have len: "TFTP_BLOCK_SIZE * k + length (file_block F (Suc k)) = (if Suc k = blocks F then length F else TFTP_BLOCK_SIZE * Suc k)"
    using file_block_sum [of "Suc k" F] k by simp
  have short: "length (file_block F (Suc k)) < TFTP_BLOCK_SIZE \<longleftrightarrow> Suc k = blocks F" using file_block_short [of "Suc k" F] k by simp
  have sum: "tf_buf_len s + of_nat (length (file_block F (Suc k))) = of_nat (if Suc k = blocks F then length F else TFTP_BLOCK_SIZE * Suc k)"
    using at unfolding get_at_def len [symmetric] by (simp only: of_nat_add)
  show ?thesis
  proof (cases "Suc k = blocks F")
    case True
    then show ?thesis
      using at srv st held pull seq sum short k
      by (auto simp: try_deliver_get_def Let_def producer_sends_def zstream_send_chunk_def zstream_send_eof_def z_obj_blob_def z_msg_new_def
          get_goes_def get_ok_def chunk_ok_def get_at_def)
  next
    case False
    from deliver_get_at [OF at held pull False] False show ?thesis
      using at srv st held pull seq short k
      by (auto simp: try_deliver_get_def Let_def producer_sends_def zstream_send_chunk_def z_obj_blob_def z_msg_new_def
          get_goes_def get_ok_def chunk_ok_def get_at_def [of sid F k])
  qed
qed

lemma held_goes:
  assumes "get_at sid F k s" "tf_srv_ip s = srv" "tf_state s = T_GET"
  shows "get_goes srv sid F s (try_deliver_get (s\<lparr>tf_held := Some (file_block F (Suc k)), tf_retries := 0\<rparr>))"
proof -
  have "get_goes srv sid F (s\<lparr>tf_held := Some (file_block F (Suc k)), tf_retries := 0\<rparr>)
    (try_deliver_get (s\<lparr>tf_held := Some (file_block F (Suc k)), tf_retries := 0\<rparr>))"
    by (rule deliver_goes [where k = k]) (use assms in \<open>simp_all add: get_at_def\<close>)
  then show ?thesis by (simp add: get_goes_def)
qed

lemma get_at_block:
  assumes "get_at sid F k s" "i \<in> {1..blocks F}" "blocks F < 65536"
  shows "unat (of_nat i :: u16) = unat (tf_block s) + 1 \<longleftrightarrow> i = Suc k"
proof -
  have "unat (of_nat i :: u16) = i" "unat (tf_block s) = k"
    using assms by (auto simp: get_at_def unat_of_nat take_bit_eq_mod)
  then show ?thesis by auto
qed

lemma packet_goes:
  assumes ok: "get_ok srv sid F s" and h: "honest srv F (TPacket ip port b)" and n: "blocks F < 65536"
  shows "get_goes srv sid F s (handle_packet ip port (view_of b) (length b) s)"
proof (cases "tf_state s = T_GET \<and> ip = srv \<and> 4 \<le> length b \<and> \<not> (tf_srv_port s \<noteq> 0 \<and> port \<noteq> tf_srv_port s)")
  case False
  then show ?thesis using ok get_goes_refl [OF ok] by (auto simp: handle_packet_def get_ok_def split: tstate.splits)
next
  case True
  define t where "t = (if tf_srv_port s = 0 then s\<lparr>tf_srv_port := port\<rparr> else s)"
  have get: "tf_state s = T_GET" "ip = tf_srv_ip s" "\<not> length b < 4" "(tf_srv_port s \<noteq> 0 \<and> port \<noteq> tf_srv_port s) = False"
    using True ok by (auto simp: get_ok_def)
  obtain k where k: "get_at sid F k s" using ok True by (auto simp: get_ok_def)
  have t: "get_at sid F k t" "tf_srv_ip t = srv" "tf_state t = T_GET" "tf_msgs t = tf_msgs s" "tf_is_get t"
    using k ok True by (simp_all add: get_at_def get_ok_def t_def)
  have sub: "get_goes srv sid F t u \<Longrightarrow> get_goes srv sid F s u" for u by (simp add: get_goes_def t(4))
  have ack: "get_goes srv sid F t (send_ack (tf_block t) t)" using t by (auto simp: get_goes_def get_ok_def)
  have same: "get_goes srv sid F t t" using t by (auto simp: get_goes_def get_ok_def)
  show ?thesis
  proof (cases "get16 (view_of b) 0 = 3")
    case data: True
    then obtain i where i: "i \<in> {1..blocks F}" "get16 (view_of b) 2 = of_nat i" "drop 4 b = file_block F i" using h True by auto
    have len: "length b - 4 = length (file_block F i)" by (simp flip: i(3))
    have small: "\<not> TFTP_BLOCK_SIZE < length b - 4" unfolding len using file_block_length [of i F] i(1) by auto
    have held: "i = Suc k \<Longrightarrow> get_goes srv sid F t (try_deliver_get (t\<lparr>tf_held := Some (drop 4 b), tf_retries := 0\<rparr>))"
      using held_goes [OF t(1-3)] i(3) by simp
    have "handle_packet ip port (view_of b) (length b) s =
        (if tf_held t \<noteq> None then t
         else if unat (of_nat i :: u16) = unat (tf_block t) + 1 then try_deliver_get (t\<lparr>tf_held := Some (drop 4 b), tf_retries := 0\<rparr>)
         else if of_nat i = tf_block t then send_ack (tf_block t) t else t)"
      using data i(2) small t(2,3,5) get
      by (auto simp: handle_packet_def view_bytes_drop Let_def simp flip: t_def)
    then show ?thesis using get_at_block [OF t(1) i(1) n] sub [OF ack] sub [OF same] sub [OF held] by (simp del: of_nat_Suc)
  next
    case False
    have "handle_packet ip port (view_of b) (length b) s =
        (if get16 (view_of b) 0 = 5 then (let msg = error_message (view_of b) (length b) in fail (if msg \<noteq> [] then msg else ''server error'') t) else t)"
      using False t(2,3,5) get by (auto simp: handle_packet_def Let_def simp flip: t_def)
    then show ?thesis using sub [OF fail_goes [OF t(1,2)]] sub [OF same] by (simp add: Let_def)
  qed
qed

lemma message_goes:
  assumes ok: "get_ok srv sid F s" and n: "blocks F < 65536"
  shows "get_goes srv sid F s (snd (tftp_handle_stream_msg peer m s))"
proof (cases "tf_state s = T_GET \<and> (sm_subject m = Z_STREAM_PULL \<or> sm_subject m = Z_STREAM_ABORT)")
  case False
  then show ?thesis using ok get_goes_refl [OF ok]
    by (auto simp: tftp_handle_stream_msg_def get_ok_def split: tstate.splits)
next
  case True
  obtain k where k: "get_at sid F k s" using ok True by (auto simp: get_ok_def)
  have srv: "tf_srv_ip s = srv" using ok by (simp add: get_ok_def)
  obtain ev p h outs where r: "zstream_producer_handle (tf_out_stream s) m (tf_heap s) = (ev, p, h, outs)" by (metis prod_cases4)
  define t where "t = producer_sends (p, h, outs) s"
  have step: "snd (tftp_handle_stream_msg peer m s) =
      (if ev = EVENT_PULL then try_deliver_get (t\<lparr>tf_pull_pending := True\<rparr>) else if ev = EVENT_ABORT then fail ''receiver aborted'' t else t)"
    using True r by (auto simp: tftp_handle_stream_msg_def t_def)
  have t: "tf_state t = T_GET" "tf_srv_ip t = srv" "tf_msgs t = tf_msgs s @ outs" using True srv by (simp_all add: t_def producer_sends_def)
  consider (pull) "ev = EVENT_PULL" "p = (tf_out_stream s)\<lparr>sp_last_chunk := SNone\<rparr>" "outs = []"
    | (other) "ev \<noteq> EVENT_PULL" "p = tf_out_stream s" "h = tf_heap s" "\<forall>m\<in>set outs. chunk_ok sid F (tf_msgs s) h m" "ev = EVENT_ABORT \<Longrightarrow> outs = []"
  proof (cases "ev = EVENT_PULL")
    case True
    then show ?thesis using r that(1) by (auto simp: zstream_producer_handle_def Let_def split: if_splits)
  next
    case False
    have "\<forall>m\<in>set outs. chunk_ok sid F (tf_msgs s) h m"
    proof (cases "outs = []")
      case nonempty: False
      then have o: "outs = [z_msg_new (sp_consumer_pid (tf_out_stream s)) Z_STREAM_CHUNK (ZSTREAM_TAG sid (of_nat k - 1)) (sp_last_chunk (tf_out_stream s))]"
        "h = tf_heap s" "(of_nat k :: u32) \<noteq> 0"
        using r k by (auto simp: zstream_producer_handle_def Let_def get_at_def split: if_splits)
      then obtain k' where "k = Suc k'" by (cases k) auto
      moreover have "k' < blocks F \<and> sm_tag (hd outs) = ZSTREAM_TAG sid (of_nat k') \<and>
          ((\<exists>a. sm_obj (hd outs) = SBlob a \<and> bl_data h a = (if Suc k' = blocks F then None else Some (file_block F (Suc k')))) \<or>
           sm_obj (hd outs) = SNone \<and> chunk_sent (sm_tag (hd outs)) (tf_msgs s))"
        using o k calculation by (auto simp: z_msg_new_def get_at_def)
      ultimately show ?thesis using o(1) unfolding chunk_ok_def by auto
    qed simp
    then show ?thesis using r False that(2) by (auto simp: zstream_producer_handle_def Let_def split: if_splits)
  qed
  then show ?thesis
  proof cases
    case pull
    have "h = free_chunk (sp_last_chunk (tf_out_stream s)) (tf_heap s)"
      using r pull(1) by (auto simp: zstream_producer_handle_def Let_def split: if_splits)
    then have "get_at sid F k (t\<lparr>tf_pull_pending := True\<rparr>)" using k pull by (auto simp: get_at_def t_def producer_sends_def free_ok)
    from deliver_goes [OF this] show ?thesis unfolding step using t pull by (simp add: get_goes_def)
  next
    case other
    have "get_at sid F k t" using k other by (auto simp: get_at_def t_def producer_sends_def)
    then have "get_goes srv sid F s t" using t other by (auto simp: get_goes_def get_ok_def t_def producer_sends_def)
    moreover have "ev = EVENT_ABORT \<Longrightarrow> get_goes srv sid F s (fail ''receiver aborted'' t)"
      using fail_goes [OF \<open>get_at sid F k t\<close> t(2)] t(3) other(5) by (simp add: get_goes_def)
    ultimately show ?thesis unfolding step using other(1) by simp
  qed
qed

lemma fail_state [simp]: "tf_state (fail msg s) = T_DONE_ERR"
  by (simp add: fail_def Let_def producer_sends_def split: prod.splits)

lemma fail_err [simp]: "tf_err (fail msg s) = take 63 msg"
  by (simp add: fail_def Let_def producer_sends_def set_err_msg_def split: prod.splits)

lemma tftp_poll_get:
  assumes "tf_state s = T_GET"
  shows "tftp_poll s =
    (if tf_now s - tf_last_tx s < TFTP_TIMEOUT_TICKS then (TFTP_RESULT_PENDING, s)
     else if tf_retries s \<ge> TFTP_MAX_RETRIES then
       (TFTP_RESULT_ERROR ''timed out'', (fail ''timed out'' (s\<lparr>tf_retries := tf_retries s + 1\<rparr>))\<lparr>tf_state := T_IDLE\<rparr>)
     else (TFTP_RESULT_PENDING, send_last_packet (s\<lparr>tf_retries := tf_retries s + 1\<rparr>)))"
proof (cases "tf_now s - tf_last_tx s < TFTP_TIMEOUT_TICKS")
  case True
  then show ?thesis using assms by (simp add: tftp_poll_def not_le [symmetric])
next
  case late: False
  then show ?thesis
  proof (cases "tf_retries s \<ge> TFTP_MAX_RETRIES")
    case True
    then show ?thesis using assms late by (simp add: tftp_poll_def Let_def not_less)
  next
    case False
    then show ?thesis using assms late by (simp add: tftp_poll_def Let_def not_less)
  qed
qed

lemma poll_goes:
  assumes ok: "get_ok srv sid F s"
  shows "get_goes srv sid F s (snd (tftp_poll (s\<lparr>tf_now := now\<rparr>)))"
proof (cases "tf_state s = T_GET")
  case True
  obtain k where k: "get_at sid F k s" using ok True by (auto simp: get_ok_def)
  have srv: "tf_srv_ip s = srv" using ok by (simp add: get_ok_def)
  let ?s = "s\<lparr>tf_now := now\<rparr>"
  let ?r = "?s\<lparr>tf_retries := tf_retries s + 1\<rparr>"
  have at: "get_at sid F k ?s" "get_at sid F k ?r" using k by (simp_all add: get_at_def)
  have "snd (tftp_poll ?s) = ?s \<or> snd (tftp_poll ?s) = (fail ''timed out'' ?r)\<lparr>tf_state := T_IDLE\<rparr> \<or> snd (tftp_poll ?s) = send_last_packet ?r"
    using tftp_poll_get [of ?s] True by simp
  moreover have "get_goes srv sid F s ((fail ''timed out'' ?r)\<lparr>tf_state := T_IDLE\<rparr>)"
    using fail_goes [OF at(2)] srv by (auto simp: get_goes_def get_ok_def)
  moreover have "get_goes srv sid F s ?s" "get_goes srv sid F s (send_last_packet ?r)"
    using at srv True by (auto simp: get_goes_def get_ok_def)
  ultimately show ?thesis by auto
next
  case False
  then show ?thesis using ok by (auto simp: tftp_poll_def get_goes_def get_ok_def split: tstate.splits)
qed

lemma step_goes:
  assumes "get_ok srv sid F s" "honest srv F i" "blocks F < 65536"
  shows "get_goes srv sid F s (snd (tftp_step peer i s))"
  using assms packet_goes [OF assms(1) _ assms(3)] message_goes [OF assms(1,3)] poll_goes [OF assms(1)] by (cases i) simp_all

lemma start_goes:
  assumes "tftp_get_start srv filename rpid open_tag s = (True, s0)" "memory_lasts (tf_heap s)"
  shows "get_ok srv (tf_next_stream_id s) F s0"
proof -
  have "s0 = snd (tftp_get_start srv filename rpid open_tag s)" "tf_state s \<noteq> T_GET \<and> tf_state s \<noteq> T_PUT"
    using assms by (auto simp: tftp_get_start_def split: if_splits)
  then have "get_at (tf_next_stream_id s) F 0 s0" "tf_state s0 = T_GET" "tf_srv_ip s0 = srv" using assms(2)
    by (simp_all add: tftp_get_start_def Let_def zstream_accept_def send_rrq_wrq_def, simp_all add: send_last_packet_def get_at_def blocks_def)
  then show ?thesis by (auto simp: get_ok_def)
qed

lemma run_goes:
  "get_ok srv sid F s \<Longrightarrow> \<forall>i\<in>set is. honest srv F i \<Longrightarrow> blocks F < 65536 \<Longrightarrow> get_ok srv sid F (tftp_run peer is s)"
proof (induction "is" arbitrary: s)
  case Nil
  then show ?case by (simp add: tftp_run_def)
next
  case (Cons i "is")
  have "get_ok srv sid F (snd (tftp_step peer i s))" using step_goes [of srv sid F s i peer] Cons.prems by (simp add: get_goes_def)
  with Cons.IH Cons.prems show ?case by (simp add: tftp_run_def)
qed

section \<open>Gets\<close>


subsection \<open>How a get finishes\<close>

text \<open>
  A get as seen from outside: the blocks passed on, whether a pull or a block is waiting for the other, the retries, the clock, and the
  time of the last transmission.
\<close>

record gview =
  gv_k :: nat
  gv_pull :: bool
  gv_held :: bool
  gv_retries :: nat
  gv_now :: u32
  gv_tx :: u32

definition gv_pass :: "gview \<Rightarrow> gview" where
  "gv_pass v = v\<lparr>gv_k := Suc (gv_k v), gv_pull := False, gv_held := False, gv_tx := gv_now v\<rparr>"

definition of_stream :: "u32 \<Rightarrow> smsg \<Rightarrow> bool" where
  "of_stream sid m \<longleftrightarrow> ZSTREAM_TAG_STREAM_ID (sm_tag m) = sid AND 0xFFFF"

text \<open>
  One input to a get that goes well: any message but the receiver giving up; any packet but one from another port of the server, an
  error or a wrong next block; a turn of the main loop, unless it is half a second late for the sixth time since the last new block.
\<close>

primrec play :: "u32 \<Rightarrow> u16 \<Rightarrow> u32 \<Rightarrow> bytes \<Rightarrow> tinput \<Rightarrow> gview \<Rightarrow> gview option" where
  "play srv port sid F (TPoll now) v =
     (if now - gv_tx v < TFTP_TIMEOUT_TICKS then Some (v\<lparr>gv_now := now\<rparr>)
      else if gv_retries v < TFTP_MAX_RETRIES then Some (v\<lparr>gv_now := now, gv_tx := now, gv_retries := Suc (gv_retries v)\<rparr>)
      else None)"
| "play srv port sid F (TMsg m) v =
     (if of_stream sid m \<and> sm_subject m = Z_STREAM_ABORT then None
      else if of_stream sid m \<and> sm_subject m = Z_STREAM_PULL \<and> ZSTREAM_TAG_SEQ (sm_tag m) = of_nat (gv_k v) then
        Some (if gv_held v then gv_pass v else v\<lparr>gv_pull := True\<rparr>)
      else Some v)"
| "play srv port sid F (TPacket ip p b) v =
     (if ip \<noteq> srv \<or> length b < 4 then Some v
      else if p \<noteq> port \<or> get16 (view_of b) 0 = 5 then None
      else if get16 (view_of b) 0 \<noteq> 3 \<or> gv_held v then Some v
      else if unat (get16 (view_of b) 2) = Suc (gv_k v) then
        (if drop 4 b \<noteq> file_block F (Suc (gv_k v)) then None
         else Some (if gv_pull v then gv_pass (v\<lparr>gv_retries := 0\<rparr>) else v\<lparr>gv_held := True, gv_retries := 0\<rparr>))
      else if unat (get16 (view_of b) 2) = gv_k v then Some (v\<lparr>gv_tx := gv_now v\<rparr>)
      else Some v)"

text \<open>After the last block only the turn of the main loop that reports the result is left.\<close>

definition is_poll :: "tinput \<Rightarrow> bool" where
  "is_poll i = (case i of TPoll _ \<Rightarrow> True | _ \<Rightarrow> False)"

fun plays :: "u32 \<Rightarrow> u16 \<Rightarrow> u32 \<Rightarrow> bytes \<Rightarrow> tinput list \<Rightarrow> gview \<Rightarrow> gview option" where
  "plays srv port sid F [] v = Some v"
| "plays srv port sid F (i # is) v =
     (if gv_k v = blocks F then (if is_poll i then None else plays srv port sid F is v)
      else Option.bind (play srv port sid F i v) (plays srv port sid F is))"

text \<open>The client behind it.\<close>

definition playing :: "u32 \<Rightarrow> u16 \<Rightarrow> u32 \<Rightarrow> bytes \<Rightarrow> gview \<Rightarrow> tftp \<Rightarrow> bool" where
  "playing srv port sid F v s \<longleftrightarrow>
     get_at sid F (gv_k v) s \<and> tf_state s = T_GET \<and> tf_srv_ip s = srv \<and> (tf_srv_port s = 0 \<or> tf_srv_port s = port) \<and>
     (tf_held s \<noteq> None \<longleftrightarrow> gv_held v) \<and> tf_pull_pending s = gv_pull v \<and> tf_retries s = gv_retries v \<and> tf_now s = gv_now v \<and>
     tf_last_tx s = gv_tx v \<and> \<not> (gv_pull v \<and> gv_held v)"

definition played :: "bytes \<Rightarrow> tftp \<Rightarrow> bool" where
  "played F s \<longleftrightarrow> tf_state s = T_DONE_OK \<and> tf_buf_len s = of_nat (length F)"

definition plays_in :: "u32 \<Rightarrow> u16 \<Rightarrow> u32 \<Rightarrow> bytes \<Rightarrow> gview \<Rightarrow> tftp \<Rightarrow> bool" where
  "plays_in srv port sid F v s = (if gv_k v = blocks F then played F s else playing srv port sid F v s)"

lemma playing_in: "playing srv port sid F v s \<Longrightarrow> plays_in srv port sid F v s"
  by (auto simp: plays_in_def playing_def get_at_def)

lemma get_at_other [simp]:
  "get_at sid F k (s\<lparr>tf_now := n\<rparr>) = get_at sid F k s" "get_at sid F k (s\<lparr>tf_retries := r\<rparr>) = get_at sid F k s"
  "get_at sid F k (s\<lparr>tf_srv_port := p\<rparr>) = get_at sid F k s" "get_at sid F k (s\<lparr>tf_last_tx := t\<rparr>) = get_at sid F k s"
  by (simp_all add: get_at_def)

lemma deliver_block:
  assumes "get_at sid F k s" "tf_held s = Some (file_block F (Suc k))" "tf_pull_pending s" "tf_state s = T_GET"
  shows "tf_state (try_deliver_get s) = (if Suc k = blocks F then T_DONE_OK else T_GET) \<and> tf_held (try_deliver_get s) = None \<and>
    tf_srv_port (try_deliver_get s) = tf_srv_port s \<and> tf_srv_ip (try_deliver_get s) = tf_srv_ip s \<and>
    \<not> tf_pull_pending (try_deliver_get s) \<and> tf_retries (try_deliver_get s) = tf_retries s \<and>
    tf_now (try_deliver_get s) = tf_now s \<and> tf_last_tx (try_deliver_get s) = tf_now s"
  using assms file_block_short [of "Suc k" F]
  by (auto simp: try_deliver_get_def Let_def producer_sends_def get_at_def send_ack_def send_last_packet_def split: prod.splits)

lemma deliver_plays:
  assumes at: "get_at sid F (gv_k v) s" and held: "tf_held s = Some (file_block F (Suc (gv_k v)))" and pull: "tf_pull_pending s"
    and st: "tf_state s = T_GET" "tf_srv_ip s = srv" "tf_srv_port s = 0 \<or> tf_srv_port s = port"
    and v: "tf_retries s = gv_retries v" "tf_now s = gv_now v"
  shows "plays_in srv port sid F (gv_pass v) (try_deliver_get s)"
proof (cases "Suc (gv_k v) = blocks F")
  case True
  have "get_ok srv sid F (try_deliver_get s)" using deliver_goes [OF at st(2,1)] by (simp add: get_goes_def)
  then show ?thesis using deliver_block [OF at held pull st(1)] True
    by (simp add: plays_in_def gv_pass_def played_def get_ok_def)
next
  case False
  from deliver_get_at [OF at held pull False] show ?thesis
    using deliver_block [OF at held pull st(1)] False st v by (simp add: plays_in_def gv_pass_def playing_def)
qed

lemma poll_plays:
  assumes p: "playing srv port sid F v s" and n: "play srv port sid F (TPoll now) v = Some v'"
  shows "plays_in srv port sid F v' (snd (tftp_step peer (TPoll now) s))"
proof -
  let ?s = "s\<lparr>tf_now := now\<rparr>"
  have s: "tf_state ?s = T_GET" "tf_last_tx s = gv_tx v" "tf_retries s = gv_retries v" using p by (simp_all add: playing_def)
  have "playing srv port sid F v' (snd (tftp_poll ?s))"
  proof (cases "now - gv_tx v < TFTP_TIMEOUT_TICKS")
    case True
    then have "snd (tftp_poll ?s) = ?s" "v' = v\<lparr>gv_now := now\<rparr>" using tftp_poll_get [OF s(1)] s(2) n by auto
    then show ?thesis using p by (simp add: playing_def)
  next
    case False
    then have r: "gv_retries v < TFTP_MAX_RETRIES" "v' = v\<lparr>gv_now := now, gv_tx := now, gv_retries := Suc (gv_retries v)\<rparr>"
      using n by (auto split: if_splits)
    then have "snd (tftp_poll ?s) = send_last_packet (?s\<lparr>tf_retries := tf_retries s + 1\<rparr>)"
      using tftp_poll_get [OF s(1)] s(2,3) False by simp
    then show ?thesis using p r by (simp add: playing_def, simp add: send_last_packet_def)
  qed
  then show ?thesis by (simp add: playing_in)
qed

lemma message_plays:
  assumes p: "playing srv port sid F v s" and n: "play srv port sid F (TMsg m) v = Some v'"
  shows "plays_in srv port sid F v' (snd (tftp_step peer (TMsg m) s))"
proof -
  let ?p = "tf_out_stream s"
  have at: "get_at sid F (gv_k v) s" and st: "tf_state s = T_GET" "tf_srv_ip s = srv" "tf_srv_port s = 0 \<or> tf_srv_port s = port"
    using p by (simp_all add: playing_def)
  have a: "sp_active ?p" "sp_stream_id ?p = sid" "next_seq ?p = of_nat (gv_k v)" using at next_seq_at by (simp_all add: get_at_def)
  have other: "playing srv port sid F v (producer_sends (?p, tf_heap s, outs) s)" for outs
    using p by (auto simp: playing_def get_at_def producer_sends_def)
  show ?thesis
  proof (cases "of_stream sid m \<and> sm_subject m = Z_STREAM_PULL \<and> ZSTREAM_TAG_SEQ (sm_tag m) = of_nat (gv_k v)")
    case True
    define t where "t = (producer_sends (?p\<lparr>sp_last_chunk := SNone\<rparr>, free_chunk (sp_last_chunk ?p) (tf_heap s), []) s)\<lparr>tf_pull_pending := True\<rparr>"
    have "zstream_producer_handle ?p m (tf_heap s) = (EVENT_PULL, ?p\<lparr>sp_last_chunk := SNone\<rparr>, free_chunk (sp_last_chunk ?p) (tf_heap s), [])"
      using True a by (simp add: zstream_producer_handle_def of_stream_def)
    then have step: "snd (tftp_step peer (TMsg m) s) = try_deliver_get t"
      using True st by (simp add: tftp_handle_stream_msg_def t_def)
    have t: "get_at sid F (gv_k v) t" "tf_pull_pending t" "tf_held t = tf_held s"
      "tf_state t = T_GET" "tf_srv_ip t = srv" "tf_srv_port t = 0 \<or> tf_srv_port t = port"
      "tf_retries t = gv_retries v" "tf_now t = gv_now v" "tf_last_tx t = gv_tx v"
      using at p by (auto simp: t_def get_at_def producer_sends_def playing_def)
    show ?thesis
    proof (cases "gv_held v")
      case held: True
      then have "tf_held t = Some (file_block F (Suc (gv_k v)))" using p t(3) at by (auto simp: playing_def get_at_def)
      from deliver_plays [OF t(1) this t(2,4-8)] show ?thesis unfolding step using n True held by auto
    next
      case False
      then have "tf_held t = None" using p t(3) by (simp add: playing_def)
      moreover from this have "try_deliver_get t = t" by (simp add: try_deliver_get_def)
      moreover have "v' = v\<lparr>gv_pull := True\<rparr>" using n True False by auto
      ultimately have "playing srv port sid F v' (try_deliver_get t)" using t False by (simp add: playing_def)
      then show ?thesis unfolding step by (rule playing_in)
    qed
  next
    case False
    then have v': "v' = v" "\<not> (of_stream sid m \<and> sm_subject m = Z_STREAM_ABORT)" using n by (auto split: if_splits)
    have "\<exists>outs. zstream_producer_handle ?p m (tf_heap s) = (EVENT_NONE, ?p, tf_heap s, outs)"
      using False v'(2) a by (auto simp: zstream_producer_handle_def of_stream_def Let_def)
    then obtain outs where "zstream_producer_handle ?p m (tf_heap s) = (EVENT_NONE, ?p, tf_heap s, outs)" ..
    then have "snd (tftp_step peer (TMsg m) s) = producer_sends (?p, tf_heap s, outs) s \<or> snd (tftp_step peer (TMsg m) s) = s"
      using st by (simp add: tftp_handle_stream_msg_def)
    then show ?thesis using playing_in [OF other [of outs]] playing_in [OF p] v'(1) by auto
  qed
qed

lemma packet_plays:
  assumes p: "playing srv port sid F v s" and n: "play srv port sid F (TPacket ip q b) v = Some v'" and len: "blocks F < 65536"
  shows "plays_in srv port sid F v' (snd (tftp_step peer (TPacket ip q b) s))"
proof (cases "ip \<noteq> srv \<or> length b < 4")
  case True
  then show ?thesis using p n playing_in [OF p] by (auto simp: handle_packet_def playing_def)
next
  case False
  define t where "t = (if tf_srv_port s = 0 then s\<lparr>tf_srv_port := q\<rparr> else s)"
  have q: "q = port" "get16 (view_of b) 0 \<noteq> 5" using n False by (auto split: if_splits)
  have t: "playing srv port sid F v t" using p q(1) by (auto simp: playing_def t_def)
  then have at: "get_at sid F (gv_k v) t" "tf_state t = T_GET" "tf_srv_ip t = srv" "tf_srv_port t = 0 \<or> tf_srv_port t = port"
    "tf_is_get t" "tf_retries t = gv_retries v" "tf_now t = gv_now v" "tf_pull_pending t = gv_pull v"
    by (auto simp: playing_def get_at_def)
  have k: "unat (tf_block t) = gv_k v" using at(1) len by (auto simp: get_at_def unat_of_nat take_bit_eq_mod)
  have blk: "b16 = tf_block t \<longleftrightarrow> unat b16 = gv_k v" for b16 using k by (simp add: word_unat_eq_iff)
  have size: "length (file_block F (Suc (gv_k v))) \<le> TFTP_BLOCK_SIZE"
    using file_block_length [of "Suc (gv_k v)" F] at(1) by (auto simp: get_at_def)
  have dlen: "drop 4 b = file_block F (Suc (gv_k v)) \<Longrightarrow> length b - 4 \<le> TFTP_BLOCK_SIZE" using size by (metis length_drop)
  have step: "handle_packet ip q (view_of b) (length b) s =
      (if get16 (view_of b) 0 \<noteq> 3 \<or> tf_held t \<noteq> None then t
       else if unat (get16 (view_of b) 2) = Suc (gv_k v) then
         (if length b - 4 > TFTP_BLOCK_SIZE then fail ''oversized block from server'' t
          else try_deliver_get (t\<lparr>tf_held := Some (drop 4 b), tf_retries := 0\<rparr>))
       else if unat (get16 (view_of b) 2) = gv_k v then send_ack (tf_block t) t else t)"
  proof -
    have get: "tf_state s = T_GET" "ip = tf_srv_ip s" "\<not> length b < 4" "(tf_srv_port s \<noteq> 0 \<and> q \<noteq> tf_srv_port s) = False"
      using False q(1) p by (auto simp: playing_def)
    have "handle_packet ip q (view_of b) (length b) s =
      (if get16 (view_of b) 0 = 3 then
         (if tf_held t \<noteq> None then t
          else if unat (get16 (view_of b) 2) = unat (tf_block t) + 1 then
            (if length b - 4 > TFTP_BLOCK_SIZE then fail ''oversized block from server'' t
             else try_deliver_get (t\<lparr>tf_held := Some (drop 4 b), tf_retries := 0\<rparr>))
          else if get16 (view_of b) 2 = tf_block t then send_ack (tf_block t) t else t)
       else t)"
      unfolding handle_packet_def Let_def get(4) if_False t_def [symmetric]
      using get(1-3) q(2) at(5) by (simp add: view_bytes_drop)
    then show ?thesis by (simp add: k blk)
  qed
  have held: "tf_held t \<noteq> None \<longleftrightarrow> gv_held v" using t by (simp add: playing_def)
  consider (same) "v' = v" "handle_packet ip q (view_of b) (length b) s = t"
    | (next_block) "\<not> gv_held v" "drop 4 b = file_block F (Suc (gv_k v))"
        "v' = (if gv_pull v then gv_pass (v\<lparr>gv_retries := 0\<rparr>) else v\<lparr>gv_held := True, gv_retries := 0\<rparr>)"
        "handle_packet ip q (view_of b) (length b) s = try_deliver_get (t\<lparr>tf_held := Some (drop 4 b), tf_retries := 0\<rparr>)"
    | (old) "v' = v\<lparr>gv_tx := gv_now v\<rparr>" "handle_packet ip q (view_of b) (length b) s = send_ack (tf_block t) t"
  proof (cases "get16 (view_of b) 0 \<noteq> 3 \<or> gv_held v")
    case True
    then have "v' = v" using n False q by auto
    then show ?thesis using same step True held by auto
  next
    case data: False
    then have r: "(if unat (get16 (view_of b) 2) = Suc (gv_k v) then
          (if drop 4 b \<noteq> file_block F (Suc (gv_k v)) then None
           else Some (if gv_pull v then gv_pass (v\<lparr>gv_retries := 0\<rparr>) else v\<lparr>gv_held := True, gv_retries := 0\<rparr>))
        else if unat (get16 (view_of b) 2) = gv_k v then Some (v\<lparr>gv_tx := gv_now v\<rparr>) else Some v) = Some v'"
      using n False q by simp
    consider "unat (get16 (view_of b) 2) = Suc (gv_k v)" | "unat (get16 (view_of b) 2) = gv_k v"
      | "unat (get16 (view_of b) 2) \<noteq> Suc (gv_k v)" "unat (get16 (view_of b) 2) \<noteq> gv_k v" by blast
    then show ?thesis
    proof cases
      case 1
      then have d: "drop 4 b = file_block F (Suc (gv_k v))" using r by (simp split: if_splits)
      moreover have "\<not> length b - 4 > TFTP_BLOCK_SIZE" using dlen [OF d] by simp
      ultimately show ?thesis using next_block step data held r 1 by simp
    next
      case 2
      then show ?thesis using old step data held r by simp
    next
      case 3
      then show ?thesis using same step data held r by simp
    qed
  qed
  then show ?thesis
  proof cases
    case same
    then show ?thesis using playing_in [OF t] by simp
  next
    case next_block
    let ?t = "t\<lparr>tf_held := Some (drop 4 b), tf_retries := 0\<rparr>"
    have at': "get_at sid F (gv_k v) ?t" using at(1) next_block(2) by (simp add: get_at_def)
    show ?thesis
    proof (cases "gv_pull v")
      case True
      from deliver_plays [of sid F "v\<lparr>gv_retries := 0\<rparr>" ?t srv port] at' at next_block True show ?thesis by simp
    next
      case False
      then have "try_deliver_get ?t = ?t" using at(8) by (simp add: try_deliver_get_def)
      then have "playing srv port sid F v' (try_deliver_get ?t)" using at' t next_block(3) False by (simp add: playing_def)
      then show ?thesis using playing_in next_block(4) by simp
    qed
  next
    case old
    have "playing srv port sid F v' (send_ack (tf_block t) t)"
      using t old(1) by (simp add: playing_def, simp add: send_ack_def send_last_packet_def)
    then show ?thesis using playing_in old(2) by simp
  qed
qed

lemma play_step:
  "playing srv port sid F v s \<Longrightarrow> play srv port sid F i v = Some v' \<Longrightarrow> blocks F < 65536 \<Longrightarrow>
   plays_in srv port sid F v' (snd (tftp_step peer i s))"
  by (cases i) (simp_all only: poll_plays message_plays packet_plays)

lemma played_step: "played F s \<Longrightarrow> \<not> is_poll i \<Longrightarrow> snd (tftp_step peer i s) = s"
  by (cases i) (auto simp: played_def is_poll_def handle_packet_def tftp_handle_stream_msg_def)

lemma plays_run:
  "plays_in srv port sid F v s \<Longrightarrow> plays srv port sid F is v = Some v' \<Longrightarrow> blocks F < 65536 \<Longrightarrow>
   plays_in srv port sid F v' (tftp_run peer is s)"
proof (induction "is" arbitrary: v s)
  case Nil
  then show ?case by (simp add: tftp_run_def)
next
  case (Cons i "is")
  have run: "tftp_run peer (i # is) s = tftp_run peer is (snd (tftp_step peer i s))" by (simp add: tftp_run_def)
  show ?case
  proof (cases "gv_k v = blocks F")
    case True
    then have "played F s" "\<not> is_poll i" "plays srv port sid F is v = Some v'"
      using Cons.prems(1,2) by (auto simp: plays_in_def split: if_splits)
    then show ?thesis using Cons.IH [of v s] Cons.prems(1,3) played_step run by metis
  next
    case False
    then obtain w where w: "play srv port sid F i v = Some w" "plays srv port sid F is w = Some v'"
      using Cons.prems(2) by (auto simp: bind_eq_Some_conv)
    have "playing srv port sid F v s" using Cons.prems(1) False by (simp add: plays_in_def)
    from Cons.IH [OF play_step [OF this w(1) Cons.prems(3)] w(2) Cons.prems(3)] show ?thesis by (simp add: run)
  qed
qed

definition gv_start :: "u32 \<Rightarrow> gview" where
  "gv_start now = \<lparr>gv_k = 0, gv_pull = False, gv_held = False, gv_retries = 0, gv_now = now, gv_tx = now\<rparr>"

lemma start_plays:
  assumes "tftp_get_start srv filename rpid open_tag s = (True, s0)" "memory_lasts (tf_heap s)"
  shows "plays_in srv port (tf_next_stream_id s) F (gv_start (tf_now s)) s0"
proof -
  have "s0 = snd (tftp_get_start srv filename rpid open_tag s)" "tf_state s \<noteq> T_GET \<and> tf_state s \<noteq> T_PUT"
    using assms by (auto simp: tftp_get_start_def split: if_splits)
  moreover from this have "playing srv port (tf_next_stream_id s) F (gv_start (tf_now s)) s0" using assms(2)
    by (simp_all add: tftp_get_start_def Let_def zstream_accept_def send_rrq_wrq_def playing_def gv_start_def,
        simp_all add: send_last_packet_def get_at_def blocks_def)
  ultimately show ?thesis by (simp add: playing_in)
qed


text \<open>Every file can be played: for instance pull and block, in step.\<close>

definition data_packet :: "bytes \<Rightarrow> nat \<Rightarrow> bytes" where
  "data_packet F i = [0, TFTP_OP_DATA] @ put16 (of_nat i) @ file_block F i"

definition get_round :: "u32 \<Rightarrow> u16 \<Rightarrow> u32 \<Rightarrow> bytes \<Rightarrow> nat \<Rightarrow> tinput list" where
  "get_round srv port sid F j =
     [TMsg (z_msg_new 0 Z_STREAM_PULL (ZSTREAM_TAG sid (of_nat j)) SNone), TPacket srv port (data_packet F (Suc j))]"

lemma data_packet_reads:
  "get16 (view_of (data_packet F i)) 0 = 3" "get16 (view_of (data_packet F i)) 2 = of_nat i" "drop 4 (data_packet F i) = file_block F i"
  "length (data_packet F i) = 4 + length (file_block F i)"
proof -
  have "data_packet F i = [] @ put16 3 @ (put16 (of_nat i) @ file_block F i)" "data_packet F i = put16 3 @ put16 (of_nat i) @ file_block F i"
    by (simp_all add: data_packet_def put16_def)
  then show "get16 (view_of (data_packet F i)) 0 = 3" "get16 (view_of (data_packet F i)) 2 = of_nat i"
    "drop 4 (data_packet F i) = file_block F i" "length (data_packet F i) = 4 + length (file_block F i)"
    using get16_put [of "[]" 0 3] get16_put [of "put16 3" 2] by simp_all
qed

lemma round_plays:
  assumes "k < blocks F" "blocks F < 65536" "gv_k v = k" "\<not> gv_held v"
  shows "plays srv port sid F (get_round srv port sid F k @ is) v = plays srv port sid F is (gv_pass (v\<lparr>gv_pull := True, gv_retries := 0\<rparr>))"
proof -
  have "ZSTREAM_TAG_SEQ (ZSTREAM_TAG sid (of_nat k)) = of_nat k" "of_stream sid (z_msg_new 0 Z_STREAM_PULL (ZSTREAM_TAG sid (of_nat k)) SNone)"
    using assms(1,2) by (simp_all add: tag_fields small_seq of_stream_def z_msg_new_def and_ffff)
  moreover have "unat (of_nat (Suc k) :: u16) = Suc k" using assms(1,2) by (simp add: unat_of_nat take_bit_eq_mod del: of_nat_Suc)
  ultimately show ?thesis using assms
    by (simp add: get_round_def z_msg_new_def data_packet_reads of_stream_def del: of_nat_Suc)
qed

lemma rounds_play:
  "k + n = blocks F \<Longrightarrow> blocks F < 65536 \<Longrightarrow> gv_k v = k \<Longrightarrow> \<not> gv_held v \<Longrightarrow>
   \<exists>v'. plays srv port sid F (concat (map (get_round srv port sid F) [k..<blocks F])) v = Some v' \<and> gv_k v' = blocks F"
proof (induction n arbitrary: k v)
  case (Suc n)
  have "[k..<blocks F] = k # [Suc k..<blocks F]" using Suc.prems(1) by (simp add: upt_conv_Cons)
  moreover have "\<exists>v'. plays srv port sid F (concat (map (get_round srv port sid F) [Suc k..<blocks F]))
      (gv_pass (v\<lparr>gv_pull := True, gv_retries := 0\<rparr>)) = Some v' \<and> gv_k v' = blocks F"
    by (rule Suc.IH) (use Suc.prems in \<open>simp_all add: gv_pass_def\<close>)
  ultimately show ?case using round_plays [of k F v] Suc.prems by simp
qed simp

section \<open>A receiver that is slow\<close>

text \<open>What the server may send while a block is held, and the turns of the main loop, each late enough to count as a retry.\<close>

primrec no_error :: "tinput \<Rightarrow> bool" where
  "no_error (TPacket ip port b) = (get16 (view_of b) 0 \<noteq> 5)"
| "no_error (TMsg m) = False"
| "no_error (TPoll now) = False"

fun retry_turns :: "u32 \<Rightarrow> (tinput list \<times> u32) list \<Rightarrow> bool" where
  "retry_turns tx [] = True"
| "retry_turns tx ((ps, now) # xs) = ((\<forall>p\<in>set ps. no_error p) \<and> now - tx \<ge> TFTP_TIMEOUT_TICKS \<and> retry_turns now xs)"

definition turn_inputs :: "tinput list \<times> u32 \<Rightarrow> tinput list" where "turn_inputs x = fst x @ [TPoll (snd x)]"

definition held_up :: "nat \<Rightarrow> u32 \<Rightarrow> tftp \<Rightarrow> bool" where
  "held_up n tx s \<longleftrightarrow>
     tf_state s = T_GET \<and> tf_is_get s \<and> tf_held s \<noteq> None \<and> \<not> tf_pull_pending s \<and> tf_retries s = n \<and> tf_last_tx s = tx"

lemma tftp_run_append [simp]: "tftp_run peer (xs @ ys) s = tftp_run peer ys (tftp_run peer xs s)"
  by (simp add: tftp_run_def)

lemma held_up_packet: "held_up n tx s \<Longrightarrow> no_error p \<Longrightarrow> held_up n tx (snd (tftp_step peer p s))"
  by (cases p) (auto simp: held_up_def handle_packet_def Let_def)

lemma held_up_packets: "held_up n tx s \<Longrightarrow> \<forall>p\<in>set ps. no_error p \<Longrightarrow> held_up n tx (tftp_run peer ps s)"
  unfolding tftp_run_def by (induction ps arbitrary: s) (auto dest: held_up_packet)

lemma held_up_poll:
  assumes "held_up n tx s" "now - tx \<ge> TFTP_TIMEOUT_TICKS"
  shows "n < TFTP_MAX_RETRIES \<Longrightarrow> held_up (Suc n) now (snd (tftp_step peer (TPoll now) s))"
    and "TFTP_MAX_RETRIES \<le> n \<Longrightarrow> fst (tftp_step peer (TPoll now) s) = TFTP_RESULT_ERROR ''timed out''"
  using assms tftp_poll_get [of "s\<lparr>tf_now := now\<rparr>"] by (simp_all add: held_up_def send_last_packet_def not_less [symmetric])

lemma retry_turns_append: "retry_turns tx (xs @ ys) \<longleftrightarrow> retry_turns tx xs \<and> retry_turns (if xs = [] then tx else snd (last xs)) ys"
  by (induction xs arbitrary: tx) auto

lemma held_up_turns:
  "held_up n tx s \<Longrightarrow> retry_turns tx xs \<Longrightarrow> n + length xs \<le> TFTP_MAX_RETRIES \<Longrightarrow>
   held_up (n + length xs) (if xs = [] then tx else snd (last xs)) (tftp_run peer (concat (map turn_inputs xs)) s)"
proof (induction xs arbitrary: n tx s)
  case Nil
  then show ?case by (simp add: tftp_run_def)
next
  case (Cons x xs)
  obtain ps now where x: "x = (ps, now)" by (cases x)
  let ?s = "snd (tftp_step peer (TPoll now) (tftp_run peer ps s))"
  have "held_up (Suc n) now ?s" by (rule held_up_poll(1) [OF held_up_packets [OF Cons.prems(1)]]) (use Cons.prems(2,3) x in auto)
  from Cons.IH [OF this] Cons.prems x show ?case by (auto simp: turn_inputs_def tftp_run_def)
qed

text \<open>
  A receiver may be slower than the network, but not by much: when it does not ask for the block a get holds during six turns of
  the main loop, each half a second or more after the last transmission, the get fails with a timeout, although the server is alive and
  sends the block again and again all the while.
\<close>

theorem slow_receiver_loses_get:
  assumes "tf_state s = T_GET" "tf_is_get s" "tf_held s \<noteq> None" "\<not> tf_pull_pending s" "tf_retries s = 0"
    and "length xs = TFTP_MAX_RETRIES" "retry_turns (tf_last_tx s) (xs @ [(ps, now)])"
  shows "fst (tftp_step peer (TPoll now) (tftp_run peer (concat (map turn_inputs xs) @ ps) s)) = TFTP_RESULT_ERROR ''timed out''"
proof -
  have "held_up 0 (tf_last_tx s) s" using assms by (simp add: held_up_def)
  then have "held_up (length xs) (if xs = [] then tf_last_tx s else snd (last xs)) (tftp_run peer (concat (map turn_inputs xs)) s)"
    using held_up_turns [of 0 "tf_last_tx s" s xs peer] assms(6,7) by (simp add: retry_turns_append)
  from held_up_poll(2) [OF held_up_packets [OF this]] show ?thesis using assms(6,7) by (simp add: retry_turns_append)
qed

section \<open>Witnesses\<close>

definition idle_client :: tftp where
  "idle_client = \<lparr>tf_state = T_IDLE, tf_is_get = False, tf_srv_ip = 0, tf_srv_port = 0, tf_local_port = 0, tf_block = 0, tf_buf_len = 0,
     tf_last_chunk_len = 0, tf_last_tx = 0, tf_retries = 0, tf_last_pkt = [], tf_err = [],
     tf_out_stream = \<lparr>sp_stream_id = 0, sp_consumer_pid = 0, sp_seq = 0, sp_active = False, sp_last_chunk = SNone\<rparr>, tf_pull_pending = False,
     tf_in_stream = \<lparr>sc_stream_id = 0, sc_producer_pid = 0, sc_seq = 0, sc_active = False, sc_open_tag = 0\<rparr>, tf_put_filename = [],
     tf_wrq_sent = False, tf_server_ack_pending = False, tf_held = None, tf_next_port = 49151, tf_next_stream_id = 1, tf_next_open_tag = 1,
     tf_now = 0, tf_listening = None, tf_heap = \<lparr>bl_next = 0, bl_ok = (\<lambda>_. True), bl_data = Map.empty\<rparr>, tf_out = [], tf_msgs = []\<rparr>"

lemma idle_heap: "memory_lasts (tf_heap idle_client)"
  by (simp add: idle_client_def memory_lasts_def)

definition small_get :: tftp where "small_get = snd (tftp_get_start 7 [0x61] 3 9 idle_client)"

lemma small_get_starts: "tftp_get_start 7 [0x61] 3 9 idle_client = (True, small_get)"
  by (simp add: small_get_def tftp_get_start_def idle_client_def Let_def split_def)

lemma small_file: "blocks [1, 2, 3] = 1" "file_block [1, 2, 3] (Suc 0) = [1, 2, 3 :: u8]"
  by (simp_all add: blocks_def file_block_def)

text \<open>The block comes twice before the receiver asks for it, and a turn of the main loop is late.\<close>

definition small_inputs :: "tinput list" where
  "small_inputs =
     [TPacket 7 4000 (data_packet [1, 2, 3] (Suc 0)), TPoll 400, TPacket 7 4000 (data_packet [1, 2, 3] (Suc 0)),
      TMsg (z_msg_new 3 Z_STREAM_PULL (ZSTREAM_TAG 1 0) SNone)]"


theorem slow_receiver_loses_get_witness:
  "fst (tftp_step Map.empty (TPoll 2400)
    (tftp_run Map.empty (concat (map turn_inputs [([], 400), ([], 800), ([], 1200), ([], 1600), ([TPacket 7 1 [0, 3, 0, 1]], 2000)]) @ [])
      (small_get\<lparr>tf_held := Some [1, 2, 3]\<rparr>))) = TFTP_RESULT_ERROR ''timed out''"
  by (rule slow_receiver_loses_get)
    (simp_all add: small_get_def tftp_get_start_def idle_client_def Let_def zstream_accept_def send_rrq_wrq_def send_last_packet_def
      get16_def view_of_def)

definition small_pulled :: tftp where "small_pulled = tftp_run Map.empty [TMsg (z_msg_new 3 Z_STREAM_PULL (ZSTREAM_TAG 1 0) SNone)] small_get"

definition small_done :: tftp where
  "small_done = snd (tftp_step Map.empty (TPacket 7 4000 (data_packet [1, 2, 3] (Suc 0))) small_pulled)"

definition small_chunk :: smsg where "small_chunk = z_msg_new 3 Z_STREAM_CHUNK (ZSTREAM_TAG 1 0) (SBlob 0)"

lemma small_done_sends:
  "drop (length (tf_msgs small_pulled)) (tf_msgs small_done) = [small_chunk, z_msg_new 3 Z_STREAM_EOF (ZSTREAM_TAG 1 1) SNone]"
proof -
  have tag: "ZSTREAM_TAG_STREAM_ID (ZSTREAM_TAG 1 0) = 1" "ZSTREAM_TAG_SEQ (ZSTREAM_TAG 1 0) = 0" by (simp_all add: tag_fields)
  have pulled: "tf_state small_pulled = T_GET" "tf_srv_ip small_pulled = 7" "tf_srv_port small_pulled = 0" "tf_block small_pulled = 0"
    "tf_is_get small_pulled" "tf_held small_pulled = None" "tf_pull_pending small_pulled" "sp_consumer_pid (tf_out_stream small_pulled) = 3"
    "sp_stream_id (tf_out_stream small_pulled) = 1" "sp_seq (tf_out_stream small_pulled) = UINT32_MAX" "bl_next (tf_heap small_pulled) = 0"
    "bl_ok (tf_heap small_pulled) 0"
    by (simp_all add: small_pulled_def small_get_def tftp_get_start_def idle_client_def Let_def zstream_accept_def send_rrq_wrq_def send_last_packet_def
        tftp_run_def tftp_handle_stream_msg_def zstream_producer_handle_def z_msg_new_def tag next_seq_def producer_sends_def try_deliver_get_def)
  show ?thesis
    using pulled data_packet_reads [of "[1, 2, 3]" "Suc 0"] view_bytes_drop [of "data_packet [1, 2, 3] (Suc 0)" 4]
    by (simp add: small_done_def handle_packet_def Let_def small_file try_deliver_get_def producer_sends_def zstream_send_chunk_def z_obj_blob_def
        zstream_send_eof_def next_seq_def small_chunk_def z_msg_new_def send_ack_def send_last_packet_def)
qed


end
