(* ===== verification/Gfx.thy ===== *)
theory Gfx
  imports Prelude
begin

text \<open>
  Drawing on the screen (\<open>src/sw/common/zgfx.c\<close>, \<open>zgfx.h\<close>): the software renderer on the 640 by 480 one-bit framebuffer, the hardware
  fills, glyphs and lines with their clamping, and the way processes share the registers of the blitter and of the line rasterizer: each
  step of a process is a step of its own, and a process that has masked interrupts cannot be interrupted.
\<close>

section \<open>Framebuffer\<close>

abbreviation Z_SCREEN_W :: int where "Z_SCREEN_W \<equiv> 640"
abbreviation Z_SCREEN_H :: int where "Z_SCREEN_H \<equiv> 480"
abbreviation Z_ICON_W :: int where "Z_ICON_W \<equiv> 8"
abbreviation Z_ICON_H :: int where "Z_ICON_H \<equiv> 8"
abbreviation Z_ICON_SLOTS :: int where "Z_ICON_SLOTS \<equiv> 32"
abbreviation GLYPH_MEM_SIZE :: nat where "GLYPH_MEM_SIZE \<equiv> 4096"
abbreviation Z_ICON_MEM_OFFSET :: nat where "Z_ICON_MEM_OFFSET \<equiv> 3840"

record z_clip =
  cl_x0 :: int
  cl_y0 :: int
  cl_x1 :: int
  cl_y1 :: int

record z_font =
  ft_w :: nat
  ft_h :: nat
  ft_first :: nat
  ft_last :: nat
  ft_glyphs :: "u8 list"

text \<open>The memory behind the framebuffer, by words: a write anywhere can be expressed.\<close>

type_synonym vram = "nat \<Rightarrow> u32"

definition in_clip :: "int \<Rightarrow> int \<Rightarrow> z_clip option \<Rightarrow> bool" where
  "in_clip x y clip = (case clip of None \<Rightarrow> True | Some c \<Rightarrow> \<not> (x < cl_x0 c \<or> x > cl_x1 c \<or> y < cl_y0 c \<or> y > cl_y1 c))"

definition clip_allows :: "int \<Rightarrow> int \<Rightarrow> z_clip option \<Rightarrow> bool" where
  "clip_allows x y clip = (if x < 0 \<or> x \<ge> Z_SCREEN_W \<or> y < 0 \<or> y \<ge> Z_SCREEN_H then False else in_clip x y clip)"

definition z_fb_set_pixel :: "int \<Rightarrow> int \<Rightarrow> bool \<Rightarrow> z_clip option \<Rightarrow> vram \<Rightarrow> vram" where
  "z_fb_set_pixel x y color clip v =
     (if \<not> clip_allows x y clip then v
      else
        let bit_index = nat y * 640 + nat x; word_index = bit_index div 32; mask = push_bit (bit_index mod 32) (1 :: u32) in
        if color then v(word_index := v word_index OR mask) else v(word_index := v word_index AND NOT mask))"

definition z_fb_fill_rect :: "int \<Rightarrow> int \<Rightarrow> int \<Rightarrow> int \<Rightarrow> bool \<Rightarrow> z_clip option \<Rightarrow> vram \<Rightarrow> vram" where
  "z_fb_fill_rect x y w h color clip =
     fold (\<lambda>j. fold (\<lambda>i. z_fb_set_pixel (x + int i) (y + int j) color clip) [0..<nat w]) [0..<nat h]"

section \<open>Software text\<close>

text \<open>The rows of a glyph; a glyph past the end of the data, which \<open>first\<close> and \<open>last\<close> rule out, has no ink.\<close>

definition glyph_row :: "z_font \<Rightarrow> nat \<Rightarrow> nat \<Rightarrow> u8" where
  "glyph_row font uc row = (let i = (uc - ft_first font) * ft_h font + row in if i < length (ft_glyphs font) then ft_glyphs font ! i else 0)"

definition glyph_ink :: "z_font \<Rightarrow> nat \<Rightarrow> nat \<Rightarrow> nat \<Rightarrow> bool" where
  "glyph_ink font uc row col = (ucast (glyph_row font uc row) AND drop_bit col (0x80 :: u32) \<noteq> 0)"

definition draw_ink :: "int \<Rightarrow> int \<Rightarrow> nat \<Rightarrow> bool \<Rightarrow> z_font \<Rightarrow> z_clip option \<Rightarrow> vram \<Rightarrow> vram" where
  "draw_ink x y uc color font clip =
     fold (\<lambda>row. fold (\<lambda>col v. if glyph_ink font uc row col then z_fb_set_pixel (x + int col) (y + int row) color clip v else v)
       [0..<ft_w font]) [0..<ft_h font]"

definition z_fb_draw_char :: "int \<Rightarrow> int \<Rightarrow> nat \<Rightarrow> bool \<Rightarrow> z_font \<Rightarrow> z_clip option \<Rightarrow> vram \<Rightarrow> vram" where
  "z_fb_draw_char x y uc color font clip v =
     (if uc < ft_first font \<or> uc > ft_last font then v else draw_ink x y uc color font clip v)"

definition z_fb_draw_char2 :: "int \<Rightarrow> int \<Rightarrow> nat \<Rightarrow> bool \<Rightarrow> bool \<Rightarrow> z_font \<Rightarrow> z_clip option \<Rightarrow> vram \<Rightarrow> vram" where
  "z_fb_draw_char2 x y uc fg_color bg_color font clip v =
     (if uc < ft_first font \<or> uc > ft_last font then v
      else draw_ink x y uc fg_color font clip (z_fb_fill_rect x y (int (ft_w font)) (int (ft_h font)) bg_color clip v))"

text \<open>The characters of a string up to its end; both text routines move on the same way, over a routine that draws one character.\<close>

fun text_from :: "(int \<Rightarrow> int \<Rightarrow> nat \<Rightarrow> vram \<Rightarrow> vram) \<Rightarrow> z_font \<Rightarrow> int \<Rightarrow> int \<Rightarrow> int \<Rightarrow> nat list \<Rightarrow> vram \<Rightarrow> vram" where
  "text_from draw font x cx cy [] v = v"
| "text_from draw font x cx cy (c # s) v =
     (if c = 10 then text_from draw font x x (cy + int (ft_h font)) s v
      else text_from draw font x (cx + int (ft_w font)) cy s (draw cx cy c v))"

definition z_fb_draw_text :: "int \<Rightarrow> int \<Rightarrow> nat list \<Rightarrow> bool \<Rightarrow> z_font \<Rightarrow> z_clip option \<Rightarrow> vram \<Rightarrow> vram" where
  "z_fb_draw_text x y s color font clip = text_from (\<lambda>cx cy c. z_fb_draw_char cx cy c color font clip) font x x y s"

definition z_fb_draw_text2 :: "int \<Rightarrow> int \<Rightarrow> nat list \<Rightarrow> bool \<Rightarrow> bool \<Rightarrow> z_font \<Rightarrow> z_clip option \<Rightarrow> vram \<Rightarrow> vram" where
  "z_fb_draw_text2 x y s fg_color bg_color font clip = text_from (\<lambda>cx cy c. z_fb_draw_char2 cx cy c fg_color bg_color font clip) font x x y s"

section \<open>Pixels\<close>

text \<open>Pixel \<open>n\<close> of the memory behind the framebuffer; the screen is the first 640 times 480.\<close>

definition pixel :: "nat \<Rightarrow> vram \<Rightarrow> bool" where "pixel n v \<longleftrightarrow> bit (v (n div 32)) (n mod 32)"

definition px_col :: "nat \<Rightarrow> int" where "px_col n = int (n mod 640)"
definition px_row :: "nat \<Rightarrow> int" where "px_row n = int (n div 640)"

definition on_screen :: "nat \<Rightarrow> bool" where "on_screen n \<longleftrightarrow> n < 640 * 480"

definition in_rect :: "int \<Rightarrow> int \<Rightarrow> int \<Rightarrow> int \<Rightarrow> int \<Rightarrow> int \<Rightarrow> bool" where
  "in_rect x y w h X Y \<longleftrightarrow> x \<le> X \<and> X < x + w \<and> y \<le> Y \<and> Y < y + h"

lemma pixel_index:
  assumes "0 \<le> x" "x < 640" "0 \<le> y" "y < 480"
  shows "nat y * 640 + nat x = n \<longleftrightarrow> on_screen n \<and> px_col n = x \<and> px_row n = y"
proof -
  have "nat x < 640" "nat y < 480" using assms by simp_all
  then show ?thesis using assms by (auto simp: on_screen_def px_col_def px_row_def)
qed

lemma pixel_set:
  "pixel n (z_fb_set_pixel x y color clip v) =
     (if on_screen n \<and> px_col n = x \<and> px_row n = y \<and> in_clip (px_col n) (px_row n) clip then color else pixel n v)"
proof (cases "clip_allows x y clip")
  case True
  then have b: "0 \<le> x" "x < 640" "0 \<le> y" "y < 480" "in_clip x y clip" by (auto simp: clip_allows_def split: if_splits)
  let ?k = "nat y * 640 + nat x"
  have same: "?k = n \<longleftrightarrow> ?k div 32 = n div 32 \<and> ?k mod 32 = n mod 32" by (metis div_mult_mod_eq)
  have "pixel n (z_fb_set_pixel x y color clip v) = (if ?k = n then color else pixel n v)"
    using True by (auto simp: z_fb_set_pixel_def Let_def pixel_def same bit_simps)
  then show ?thesis using pixel_index [OF b(1-4), of n] b(5) by simp
next
  case False
  then have "on_screen n \<and> px_col n = x \<and> px_row n = y \<Longrightarrow> \<not> in_clip x y clip"
    by (auto simp: clip_allows_def on_screen_def px_col_def px_row_def split: if_splits)
  then show ?thesis using False by (auto simp: z_fb_set_pixel_def)
qed

lemma pixel_set_row:
  "pixel n (fold (\<lambda>i. z_fb_set_pixel (x + int i) y color clip) [0..<m] v) =
     (if on_screen n \<and> x \<le> px_col n \<and> px_col n < x + int m \<and> px_row n = y \<and> in_clip (px_col n) (px_row n) clip then color else pixel n v)"
proof (induction m)
  case (Suc m)
  then show ?case by (cases "px_col n = x + int m") (auto simp: pixel_set)
qed auto

lemma pixel_fill:
  "pixel n (z_fb_fill_rect x y w h color clip v) =
     (if on_screen n \<and> in_rect x y w h (px_col n) (px_row n) \<and> in_clip (px_col n) (px_row n) clip then color else pixel n v)"
proof -
  have "pixel n (fold (\<lambda>j. fold (\<lambda>i. z_fb_set_pixel (x + int i) (y + int j) color clip) [0..<nat w]) [0..<m] v) =
     (if on_screen n \<and> in_rect x y w (int m) (px_col n) (px_row n) \<and> in_clip (px_col n) (px_row n) clip then color else pixel n v)" for m
  proof (induction m)
    case (Suc m)
    then show ?case by (cases "px_row n = y + int m") (auto simp: pixel_set_row in_rect_def)
  qed (auto simp: in_rect_def)
  from this [of "nat h"] show ?thesis unfolding z_fb_fill_rect_def
    by (cases "0 \<le> h") (auto simp: in_rect_def)
qed

lemma vram_eqI: "(\<And>n. pixel n v = pixel n v') \<Longrightarrow> v = v'"
proof (rule ext, rule bit_word_eqI)
  fix k b assume p: "\<And>n. pixel n v = pixel n v'" and "b < LENGTH(32)"
  then show "bit (v k) b = bit (v' k) b" using p [of "k * 32 + b"] by (simp add: pixel_def)
qed

section \<open>Cells\<close>

lemma pixel_ink_row:
  "pixel n (fold (\<lambda>c v. if ink c then z_fb_set_pixel (x + int c) y color clip v else v) [0..<m] v) =
     (if on_screen n \<and> x \<le> px_col n \<and> px_col n < x + int m \<and> px_row n = y \<and> in_clip (px_col n) (px_row n) clip \<and> ink (nat (px_col n - x))
      then color else pixel n v)"
proof (induction m)
  case (Suc m)
  then show ?case by (cases "px_col n = x + int m") (auto simp: pixel_set)
qed auto

lemma pixel_ink:
  "pixel n (draw_ink x y uc color font clip v) =
     (if on_screen n \<and> in_rect x y (int (ft_w font)) (int (ft_h font)) (px_col n) (px_row n) \<and> in_clip (px_col n) (px_row n) clip \<and>
         glyph_ink font uc (nat (px_row n - y)) (nat (px_col n - x))
      then color else pixel n v)"
proof -
  have "pixel n (fold (\<lambda>row. fold (\<lambda>col v. if glyph_ink font uc row col then z_fb_set_pixel (x + int col) (y + int row) color clip v else v)
       [0..<ft_w font]) [0..<m] v) =
     (if on_screen n \<and> in_rect x y (int (ft_w font)) (int m) (px_col n) (px_row n) \<and> in_clip (px_col n) (px_row n) clip \<and>
         glyph_ink font uc (nat (px_row n - y)) (nat (px_col n - x))
      then color else pixel n v)" for m
  proof (induction m)
    case (Suc m)
    then show ?case by (cases "px_row n = y + int m") (auto simp: pixel_ink_row in_rect_def)
  qed (auto simp: in_rect_def)
  then show ?thesis unfolding draw_ink_def by simp
qed

lemma pixel_char2:
  assumes "ft_first font \<le> uc" "uc \<le> ft_last font"
  shows "pixel n (z_fb_draw_char2 x y uc fg bg font clip v) =
    (if on_screen n \<and> in_rect x y (int (ft_w font)) (int (ft_h font)) (px_col n) (px_row n) \<and> in_clip (px_col n) (px_row n) clip
     then (if glyph_ink font uc (nat (px_row n - y)) (nat (px_col n - x)) then fg else bg) else pixel n v)"
  using assms by (simp add: z_fb_draw_char2_def pixel_ink pixel_fill)

section \<open>Hardware fills, glyphs, icons\<close>

text \<open>
  A blitter operation is the sequence of its register writes, the last of which starts it. A fill is clamped to the screen; a glyph is
  given to the blitter only when its whole cell lies on the screen and inside the clip, and is drawn in software otherwise; an icon has
  no software path.
\<close>

datatype breg = DST_X | DST_Y | WIDTH | HEIGHT | PATTERN | GLYPH_ADDR | GLYPH_W | GLYPH_H | FG_COLOR | BG_COLOR | CTRL

abbreviation GPU_BLIT_CTRL_START :: u32 where "GPU_BLIT_CTRL_START \<equiv> 1"
abbreviation GPU_BLIT_CTRL_FILL :: u32 where "GPU_BLIT_CTRL_FILL \<equiv> 2"
abbreviation GPU_BLIT_CTRL_CLIP :: u32 where "GPU_BLIT_CTRL_CLIP \<equiv> 4"
abbreviation GPU_BLIT_CTRL_GLYPH :: u32 where "GPU_BLIT_CTRL_GLYPH \<equiv> 8"

datatype blit_call =
    FillCall u32 u32 u32 u32 u32
  | GlyphCall u32 u32 u32 u32 u32 u32 u32

primrec blit_writes :: "blit_call \<Rightarrow> (breg \<times> u32) list" where
  "blit_writes (FillCall x y w h p) =
     [(DST_X, x), (DST_Y, y), (WIDTH, w), (HEIGHT, h), (PATTERN, p),
      (CTRL, GPU_BLIT_CTRL_START OR GPU_BLIT_CTRL_FILL OR GPU_BLIT_CTRL_CLIP)]"
| "blit_writes (GlyphCall x y addr w h fg bg) =
     [(DST_X, x), (DST_Y, y), (GLYPH_ADDR, addr), (GLYPH_W, w), (GLYPH_H, h), (FG_COLOR, fg), (BG_COLOR, bg),
      (CTRL, GPU_BLIT_CTRL_START OR GPU_BLIT_CTRL_GLYPH)]"

definition fill_box :: "int \<Rightarrow> int \<Rightarrow> int \<Rightarrow> int \<Rightarrow> (int \<times> int \<times> int \<times> int) option" where
  "fill_box x y w h =
     (let (w, x) = (if x < 0 then (w + x, 0) else (w, x));
          (h, y) = (if y < 0 then (h + y, 0) else (h, y));
          w = (if x + w > Z_SCREEN_W then Z_SCREEN_W - x else w);
          h = (if y + h > Z_SCREEN_H then Z_SCREEN_H - y else h) in
      if w \<le> 0 \<or> h \<le> 0 then None else Some (x, y, w, h))"

definition z_fb_hw_fill_rect :: "int \<Rightarrow> int \<Rightarrow> int \<Rightarrow> int \<Rightarrow> bool \<Rightarrow> blit_call option" where
  "z_fb_hw_fill_rect x y w h color =
     (case fill_box x y w h of
        None \<Rightarrow> None
      | Some (x, y, w, h) \<Rightarrow> Some (FillCall (of_int x) (of_int y) (of_int w) (of_int h) (if color then 0xFFFFFFFF else 0)))"

definition cell_fits :: "int \<Rightarrow> int \<Rightarrow> int \<Rightarrow> int \<Rightarrow> z_clip option \<Rightarrow> bool" where
  "cell_fits x y w h clip \<longleftrightarrow>
     x \<ge> 0 \<and> y \<ge> 0 \<and> x + w \<le> Z_SCREEN_W \<and> y + h \<le> Z_SCREEN_H \<and>
     (case clip of None \<Rightarrow> True | Some c \<Rightarrow> x \<ge> cl_x0 c \<and> y \<ge> cl_y0 c \<and> x + w - 1 \<le> cl_x1 c \<and> y + h - 1 \<le> cl_y1 c)"

datatype char_draw = NoDraw | Software "vram \<Rightarrow> vram" | Hardware blit_call

definition hw_draw_char2 :: "int \<Rightarrow> int \<Rightarrow> nat \<Rightarrow> bool \<Rightarrow> bool \<Rightarrow> z_font \<Rightarrow> z_clip option \<Rightarrow> char_draw" where
  "hw_draw_char2 x y uc fg_color bg_color font clip =
     (if uc < ft_first font \<or> uc > ft_last font then NoDraw
      else if \<not> cell_fits x y (int (ft_w font)) (int (ft_h font)) clip then
        Software (\<lambda>v. draw_ink x y uc fg_color font clip (z_fb_fill_rect x y (int (ft_w font)) (int (ft_h font)) bg_color clip v))
      else Hardware (GlyphCall (of_int x) (of_int y) (of_nat ((uc - ft_first font) * ft_h font)) (of_nat (ft_w font)) (of_nat (ft_h font))
        (if fg_color then 1 else 0) (if bg_color then 1 else 0)))"

definition hw_draw_char :: "int \<Rightarrow> int \<Rightarrow> nat \<Rightarrow> bool \<Rightarrow> z_font \<Rightarrow> z_clip option \<Rightarrow> char_draw" where
  "hw_draw_char x y uc color font clip =
     (if uc < ft_first font \<or> uc > ft_last font then NoDraw
      else if \<not> cell_fits x y (int (ft_w font)) (int (ft_h font)) clip then Software (draw_ink x y uc color font clip)
      else Hardware (GlyphCall (of_int x) (of_int y) (of_nat ((uc - ft_first font) * ft_h font)) (of_nat (ft_w font)) (of_nat (ft_h font))
        (if color then 1 else 0) 0))"

definition z_fb_draw_icon :: "int \<Rightarrow> int \<Rightarrow> int \<Rightarrow> bool \<Rightarrow> bool \<Rightarrow> z_clip option \<Rightarrow> blit_call option" where
  "z_fb_draw_icon x y icon_id fg_color bg_color clip =
     (if icon_id < 0 \<or> icon_id \<ge> Z_ICON_SLOTS then None
      else if \<not> cell_fits x y Z_ICON_W Z_ICON_H clip then None
      else Some (GlyphCall (of_int x) (of_int y) (of_nat Z_ICON_MEM_OFFSET + of_int icon_id * of_int Z_ICON_H) (of_int Z_ICON_W) (of_int Z_ICON_H)
        (if fg_color then 1 else 0) (if bg_color then 1 else 0)))"

text \<open>Glyph memory: the font at its start, cut to its size, and the icons at its end.\<close>

definition z_gfx_hw_font_load :: "z_font \<Rightarrow> (nat \<Rightarrow> u8) \<Rightarrow> nat \<Rightarrow> u8" where
  "z_gfx_hw_font_load font glyph_mem =
     (let n = (ft_last font - ft_first font + 1) * ft_h font; n = (if n > GLYPH_MEM_SIZE then GLYPH_MEM_SIZE else n) in
      (\<lambda>i. if i < n then ft_glyphs font ! i else glyph_mem i))"

definition z_gfx_hw_icon_load :: "int \<Rightarrow> u8 list \<Rightarrow> (nat \<Rightarrow> u8) \<Rightarrow> nat \<Rightarrow> u8" where
  "z_gfx_hw_icon_load icon_id bitmap glyph_mem =
     (if icon_id < 0 \<or> icon_id \<ge> Z_ICON_SLOTS then glyph_mem
      else let base = Z_ICON_MEM_OFFSET + nat icon_id * 8 in
        (\<lambda>i. if base \<le> i \<and> i < base + 8 then bitmap ! (i - base) else glyph_mem i))"

section \<open>The blitter\<close>

text \<open>
  What \<open>src/rtl/gpu/gpu_blit.v\<close> does with the registers of a call, word by word. Addresses are byte addresses relative to the framebuffer.
  A fill (the software always asks for a clipped one) is cut to the screen and then goes over whole words, the first and the last of a
  line under a mask.
\<close>

definition fill_mask :: "nat \<Rightarrow> u32 \<Rightarrow> u32 \<Rightarrow> nat \<Rightarrow> u32" where
  "fill_mask words left right i =
     (if words > 1 then (if i = 0 then left else if i = words - 1 then right else 0xFFFFFFFF)
      else if words = 1 then left AND right else 0xFFFFFFFF)"

definition masked_write :: "u32 \<Rightarrow> u32 \<Rightarrow> u32 \<Rightarrow> vram \<Rightarrow> vram" where
  "masked_write addr m d v = (let k = unat addr div 4 in v(k := (v k AND NOT m) OR (d AND m)))"

definition blit_fill :: "u32 \<Rightarrow> u32 \<Rightarrow> u32 \<Rightarrow> u32 \<Rightarrow> u32 \<Rightarrow> vram \<Rightarrow> vram" where
  "blit_fill x y w h pattern v =
     (let x_end = (if x + w > 640 then 640 else x + w); y_end = (if y + h > 480 then 480 else y + h);
          width = x_end - x; height = y_end - y in
      if width = 0 \<or> height = 0 \<or> x \<ge> 640 \<or> y \<ge> 480 then v
      else
        let left_word = push_bit 5 (drop_bit 5 x); right_word = push_bit 5 (drop_bit 5 (x_end + 31));
            words = unat (drop_bit 5 (right_word - left_word)); right_pixel = x_end - push_bit 5 (drop_bit 5 x_end);
            left = push_bit (unat (x - left_word)) 0xFFFFFFFF;
            right = (if right_pixel = 0 then 0xFFFFFFFF else drop_bit (unat (32 - right_pixel)) 0xFFFFFFFF);
            start = y * 80 + drop_bit 3 left_word in
        fold (\<lambda>line. fold (\<lambda>i. masked_write (start + of_nat line * 80 + of_nat i * 4) (fill_mask words left right i) pattern)
          [0..<max 1 words]) [0..<max 1 (unat height)] v)"

text \<open>
  A glyph is drawn row by row: the byte is fetched from the 4096 bytes of glyph memory, turned round, cut to the width, and shifted to
  its place in one word or across two. The registers of the state machine are 6, 12, 32 and 64 bits wide as written.
\<close>

definition glyph_fetch :: "(nat \<Rightarrow> u8) \<Rightarrow> u32 \<Rightarrow> nat \<Rightarrow> u8" where
  "glyph_fetch glyph_mem addr row = glyph_mem (unat (ucast addr + of_nat row :: 12 word))"

definition byte_rev :: "u8 \<Rightarrow> u8" where
  "byte_rev b = fold (\<lambda>i r. if bit b i then set_bit (7 - i) r else r) [0..<8] 0"

definition cell_word :: "u32 \<Rightarrow> u32 \<Rightarrow> u32 \<Rightarrow> u32 \<Rightarrow> u32 \<Rightarrow> u32" where
  "cell_word old cell bits fg_word bg_word = (old AND NOT cell) OR (fg_word AND bits) OR (bg_word AND (cell AND NOT bits))"

definition blit_glyph_row :: "u8 \<Rightarrow> u32 \<Rightarrow> u32 \<Rightarrow> u32 \<Rightarrow> u32 \<Rightarrow> u32 \<Rightarrow> vram \<Rightarrow> vram" where
  "blit_glyph_row glyph_byte x w fg bg line_addr v =
     (let bit_offset = unat (x AND 0x1F); offset_plus_w = (bit_offset + unat (w AND 0x3F)) mod 64;
          cell_bits = push_bit (unat w) (1 :: u32) - 1; glyph_bits = ucast (byte_rev glyph_byte) AND cell_bits;
          shifted_bits = push_bit bit_offset (ucast glyph_bits :: 64 word); shifted_cell = push_bit bit_offset (ucast cell_bits :: 64 word);
          fg_word = (if bit fg 0 then 0xFFFFFFFF else 0); bg_word = (if bit bg 0 then 0xFFFFFFFF else 0); k = unat line_addr div 4;
          v = v(k := cell_word (v k) (ucast shifted_cell) (ucast shifted_bits) fg_word bg_word) in
      if offset_plus_w > 32
      then v(Suc k := cell_word (v (Suc k)) (ucast (drop_bit 32 shifted_cell)) (ucast (drop_bit 32 shifted_bits)) fg_word bg_word)
      else v)"

definition blit_glyph :: "(nat \<Rightarrow> u8) \<Rightarrow> u32 \<Rightarrow> u32 \<Rightarrow> u32 \<Rightarrow> u32 \<Rightarrow> u32 \<Rightarrow> u32 \<Rightarrow> u32 \<Rightarrow> vram \<Rightarrow> vram" where
  "blit_glyph glyph_mem x y addr w h fg bg =
     fold (\<lambda>row. blit_glyph_row (glyph_fetch glyph_mem addr row) x w fg bg (y * 80 + drop_bit 5 x * 4 + of_nat row * 80))
       [0..<max 1 (unat h)]"

primrec blit_effect :: "blit_call \<Rightarrow> (nat \<Rightarrow> u8) \<Rightarrow> vram \<Rightarrow> vram" where
  "blit_effect (FillCall x y w h p) glyph_mem = blit_fill x y w h p"
| "blit_effect (GlyphCall x y addr w h fg bg) glyph_mem = blit_glyph glyph_mem x y addr w h fg bg"

primrec char_effect :: "char_draw \<Rightarrow> (nat \<Rightarrow> u8) \<Rightarrow> vram \<Rightarrow> vram" where
  "char_effect NoDraw glyph_mem v = v"
| "char_effect (Software f) glyph_mem v = f v"
| "char_effect (Hardware c) glyph_mem v = blit_effect c glyph_mem v"

text \<open>The font whose characters the blitter can draw: the one that glyph memory holds, if it holds all of it.\<close>

definition glyph_bytes :: "z_font \<Rightarrow> nat" where
  "glyph_bytes font = (ft_last font - ft_first font + 1) * ft_h font"

definition font_loaded :: "z_font \<Rightarrow> (nat \<Rightarrow> u8) \<Rightarrow> bool" where
  "font_loaded font glyph_mem \<longleftrightarrow>
     glyph_bytes font \<le> GLYPH_MEM_SIZE \<and> glyph_bytes font \<le> length (ft_glyphs font) \<and>
     (\<forall>i < glyph_bytes font. glyph_mem i = ft_glyphs font ! i)"

lemma font_load_loads:
  "glyph_bytes font \<le> GLYPH_MEM_SIZE \<Longrightarrow> glyph_bytes font \<le> length (ft_glyphs font) \<Longrightarrow>
   font_loaded font (z_gfx_hw_font_load font glyph_mem)"
  by (simp add: font_loaded_def glyph_bytes_def z_gfx_hw_font_load_def Let_def)

lemma icon_load_keeps:
  "font_loaded font glyph_mem \<Longrightarrow> glyph_bytes font \<le> Z_ICON_MEM_OFFSET \<Longrightarrow> font_loaded font (z_gfx_hw_icon_load icon_id bitmap glyph_mem)"
  by (auto simp: font_loaded_def z_gfx_hw_icon_load_def Let_def)

subsection \<open>Pixels of the blitter\<close>

lemma uint_of_int: "0 \<le> x \<Longrightarrow> x < 4294967296 \<Longrightarrow> uint (of_int x :: u32) = x"
  by (simp add: unsigned_of_int take_bit_int_eq_self)

lemma bit_rev_from:
  "m \<le> 8 \<Longrightarrow> bit (fold (\<lambda>i r. if bit b i then set_bit (7 - i) r else r) [0..<m] (0 :: u8)) k \<longleftrightarrow>
     8 - m \<le> k \<and> k < 8 \<and> bit (b :: u8) (7 - k)"
proof (induction m)
  case (Suc m)
  have "bit (set_bit (7 - m) r) k \<longleftrightarrow> bit r k \<or> k = 7 - m" for r :: u8
    using Suc.prems by (auto simp: bit_set_bit_iff dest: bit_imp_le_length)
  moreover have "k = 7 - m \<longleftrightarrow> 7 - k = m \<and> k < 8" using Suc.prems by auto
  moreover have "8 - Suc m \<le> k \<and> k < 8 \<longleftrightarrow> (8 - m \<le> k \<or> 7 - k = m) \<and> k < 8" using Suc.prems by auto
  ultimately show ?case using Suc by (cases "bit b m") auto
qed simp

lemma bit_byte_rev: "bit (byte_rev b) k \<longleftrightarrow> k < 8 \<and> bit b (7 - k)"
  unfolding byte_rev_def by (simp add: bit_rev_from)

lemma bit_0x80: "bit (0x80 :: u32) j \<longleftrightarrow> j = 7"
proof -
  have "(0x80 :: u32) = 2 ^ 7" by simp
  then show ?thesis by (simp only: bit_exp_iff) auto
qed

lemma ink_bit: "glyph_ink font uc row col \<longleftrightarrow> bit (byte_rev (glyph_row font uc row)) col"
proof -
  define x :: u32 where "x = ucast (glyph_row font uc row)"
  have "x AND drop_bit col 0x80 = 0 \<longleftrightarrow> (\<forall>i. \<not> bit (x AND drop_bit col 0x80) i)"
    by (metis bit_0_eq bit_word_eqI bot_bool_def bot_fun_def)
  also have "\<dots> \<longleftrightarrow> (\<forall>i. \<not> (bit x i \<and> col + i = 7))"
    by (simp only: bit_and_iff bit_drop_bit_eq bit_0x80 o_apply)
  also have "\<dots> \<longleftrightarrow> \<not> (col < 8 \<and> bit x (7 - col))"
  proof -
    have "col + i = 7 \<longleftrightarrow> col < 8 \<and> i = 7 - col" for i by auto
    then show ?thesis by auto
  qed
  also have "bit x (7 - col) = bit (glyph_row font uc row) (7 - col)" by (auto simp: x_def bit_ucast_iff)
  finally show ?thesis by (simp add: glyph_ink_def bit_byte_rev x_def)
qed

lemma cell_bits_mask: "push_bit n (1 :: u32) - 1 = mask n"
  by (simp add: mask_eq_exp_minus_1 push_bit_eq_mult)

lemma pixel_upd: "pixel n (v(k := a)) = (if n div 32 = k then bit a (n mod 32) else pixel n v)"
  by (simp add: pixel_def)

lemma bit_all: "bit (0xFFFFFFFF :: u32) i \<longleftrightarrow> i < 32"
proof -
  have "(0xFFFFFFFF :: u32) = mask 32" by (simp add: mask_eq_exp_minus_1)
  then show ?thesis by (simp only: bit_mask_iff) auto
qed

lemma bit_cell_word:
  assumes "\<And>i. bit bits i \<Longrightarrow> bit cell i"
  shows "bit (cell_word old cell bits (if f then 0xFFFFFFFF else 0) (if g then 0xFFFFFFFF else 0)) i \<longleftrightarrow>
     (if bit cell i then (if bit bits i then f else g) else bit old i)"
proof (cases "i < 32")
  case True
  then show ?thesis using assms [of i] by (cases f; cases g) (auto simp: cell_word_def bit_and_iff bit_or_iff bit_not_iff bit_all simp del: bit_numeral_word_iff)
next
  case False
  then have "\<not> bit v i" for v :: u32 using bit_imp_le_length [of v i] by auto
  then show ?thesis by simp
qed

lemma pixel_glyph_row:
  assumes w: "unat w \<le> 32" and N_def: "N = 32 * (unat line_addr div 4) + unat (x AND 0x1F)"
  shows "pixel n (blit_glyph_row glyph_byte x w fg bg line_addr v) =
    (if N \<le> n \<and> n < N + unat w then (if bit (byte_rev glyph_byte) (n - N) then bit fg 0 else bit bg 0) else pixel n v)"
proof -
  define off where "off = unat (x AND 0x1F)"
  define k where "k = unat line_addr div 4"
  have "(0x1F :: u32) = mask 5" "(0x3F :: u32) = mask 6" by (simp_all add: mask_eq_exp_minus_1)
  then have "unat (a AND 0x1F) = take_bit 5 (unat a)" "unat (a AND 0x3F) = take_bit 6 (unat a)" for a :: u32
    by (simp_all only: flip: take_bit_eq_mask unsigned_take_bit_eq)
  then have off: "off < 32" and w6: "unat (w AND 0x3F) = unat w"
    using w by (simp_all only: off_def take_bit_eq_mod, simp_all)
  let ?cell = "mask (unat w) :: u32"
  let ?bits = "ucast (byte_rev glyph_byte) AND ?cell"
  let ?v = "v(k := cell_word (v k) (ucast (push_bit off (ucast ?cell :: 64 word))) (ucast (push_bit off (ucast ?bits :: 64 word)))
      (if bit fg 0 then 0xFFFFFFFF else 0) (if bit bg 0 then 0xFFFFFFFF else 0))"
  let ?hi = "\<lambda>old. cell_word old (ucast (drop_bit 32 (push_bit off (ucast ?cell :: 64 word))))
      (ucast (drop_bit 32 (push_bit off (ucast ?bits :: 64 word)))) (if bit fg 0 then 0xFFFFFFFF else 0) (if bit bg 0 then 0xFFFFFFFF else 0)"
  have row: "blit_glyph_row glyph_byte x w fg bg line_addr v = (if off + unat w > 32 then ?v(Suc k := ?hi (?v (Suc k))) else ?v)"
    using off w unfolding blit_glyph_row_def Let_def w6 cell_bits_mask off_def [symmetric] k_def [symmetric] by simp
  have lo: "bit (ucast (push_bit off (ucast ?cell :: 64 word)) :: u32) i \<longleftrightarrow> i < 32 \<and> off \<le> i \<and> i < off + unat w"
    "bit (ucast (push_bit off (ucast ?bits :: 64 word)) :: u32) i \<longleftrightarrow>
       i < 32 \<and> off \<le> i \<and> i < off + unat w \<and> bit (byte_rev glyph_byte) (i - off)" for i
    using w off by (auto simp: bit_simps)
  have hi: "bit (ucast (drop_bit 32 (push_bit off (ucast ?cell :: 64 word))) :: u32) i \<longleftrightarrow> i < 32 \<and> i + 32 < off + unat w"
    "bit (ucast (drop_bit 32 (push_bit off (ucast ?bits :: 64 word))) :: u32) i \<longleftrightarrow>
       i < 32 \<and> i + 32 < off + unat w \<and> bit (byte_rev glyph_byte) (i + 32 - off)" for i
    using w off by (auto simp: bit_simps add.commute)
  have N: "N = 32 * k + off" by (simp add: N_def k_def off_def)
  have n: "n = 32 * (n div 32) + n mod 32" by simp
  have m: "n mod 32 < 32" by simp
  consider "n div 32 = k" | "n div 32 = Suc k" | "n div 32 < k" | "n div 32 > Suc k" by linarith
  then show ?thesis
  proof cases
    case 1
    then have "pixel n (blit_glyph_row glyph_byte x w fg bg line_addr v) = pixel n ?v" unfolding row by (simp add: pixel_upd)
    moreover have "N \<le> n \<longleftrightarrow> off \<le> n mod 32" "n < N + unat w \<longleftrightarrow> n mod 32 < off + unat w" "n - N = n mod 32 - off"
      using n N 1 by linarith+
    moreover have "pixel n ?v = (if off \<le> n mod 32 \<and> n mod 32 < off + unat w
        then (if bit (byte_rev glyph_byte) (n mod 32 - off) then bit fg 0 else bit bg 0) else pixel n v)"
      unfolding pixel_upd using 1 m by (subst bit_cell_word) (auto simp: lo pixel_def)
    ultimately show ?thesis by simp
  next
    case 2
    have eq: "N \<le> n" "n < N + unat w \<longleftrightarrow> n mod 32 + 32 < off + unat w" "n - N = n mod 32 + 32 - off"
      using n N 2 off by linarith+
    show ?thesis
    proof (cases "off + unat w > 32")
      case True
      then have "pixel n (blit_glyph_row glyph_byte x w fg bg line_addr v) = bit (?hi (v (Suc k))) (n mod 32)"
        using 2 unfolding row by (simp add: pixel_upd)
      also have "\<dots> = (if n mod 32 + 32 < off + unat w
          then (if bit (byte_rev glyph_byte) (n mod 32 + 32 - off) then bit fg 0 else bit bg 0) else pixel n v)"
        using 2 m by (subst bit_cell_word) (auto simp: hi pixel_def)
      finally show ?thesis using eq by simp
    next
      case False
      then show ?thesis using 2 eq unfolding row by (simp add: pixel_upd)
    qed
  next
    case 3
    then have "n < N" using n N m by linarith
    with 3 show ?thesis unfolding row by (simp add: pixel_upd)
  next
    case 4
    then have "\<not> n < N + unat w" using n N off w by linarith
    with 4 show ?thesis unfolding row by (simp add: pixel_upd)
  qed
qed

lemma line_pixels:
  assumes "X + W \<le> 640" "Y < 480"
  shows "Y * 640 + X \<le> n \<and> n < Y * 640 + X + W \<longleftrightarrow>
      on_screen n \<and> px_row n = int Y \<and> int X \<le> px_col n \<and> px_col n < int X + int W"
    and "px_row n = int Y \<Longrightarrow> n - (Y * 640 + X) = nat (px_col n - int X)"
proof -
  have n: "n = n div 640 * 640 + n mod 640" "n mod 640 < 640" by simp_all
  show "Y * 640 + X \<le> n \<and> n < Y * 640 + X + W \<longleftrightarrow>
      on_screen n \<and> px_row n = int Y \<and> int X \<le> px_col n \<and> px_col n < int X + int W"
  proof
    assume r: "Y * 640 + X \<le> n \<and> n < Y * 640 + X + W"
    then have "n div 640 = Y" using assms by (intro div_nat_eqI) auto
    with n have "n = Y * 640 + n mod 640" by simp
    with \<open>n div 640 = Y\<close> show "on_screen n \<and> px_row n = int Y \<and> int X \<le> px_col n \<and> px_col n < int X + int W"
      using r assms by (auto simp: on_screen_def px_row_def px_col_def)
  next
    assume "on_screen n \<and> px_row n = int Y \<and> int X \<le> px_col n \<and> px_col n < int X + int W"
    then show "Y * 640 + X \<le> n \<and> n < Y * 640 + X + W" using n by (auto simp: px_row_def px_col_def)
  qed
  show "n - (Y * 640 + X) = nat (px_col n - int X)" if "px_row n = int Y"
    using that n by (simp add: px_row_def px_col_def)
qed

lemma word_address:
  assumes "X < 640" "Y < 480"
  shows "unat (of_nat X AND 0x1F :: u32) = X mod 32" "drop_bit 5 (of_nat X :: u32) = of_nat (X div 32)"
    and "32 * (unat (of_nat Y * 80 + of_nat (X div 32) * 4 :: u32) div 4) + X mod 32 = Y * 640 + X"
proof -
  have "(0x1F :: u32) = mask 5" by (simp add: mask_eq_exp_minus_1)
  then have "unat (of_nat X AND 0x1F :: u32) = take_bit 5 (unat (of_nat X :: u32))"
    by (simp only: unsigned_take_bit_eq flip: take_bit_eq_mask)
  then show "unat (of_nat X AND 0x1F :: u32) = X mod 32" using assms(1) by (simp add: unat_of_nat take_bit_eq_mod)
  have "unat (drop_bit 5 (of_nat X :: u32)) = drop_bit 5 (unat (of_nat X :: u32))" by (rule unat_drop_bit_eq)
  then have "unat (drop_bit 5 (of_nat X :: u32)) = unat (of_nat (X div 32) :: u32)"
    using assms(1) by (simp add: unat_of_nat drop_bit_eq_div)
  then show "drop_bit 5 (of_nat X :: u32) = of_nat (X div 32)" by (simp only: word_unat_eq_iff)
  have "of_nat Y * 80 + of_nat (X div 32) * 4 = (of_nat (Y * 80 + X div 32 * 4) :: u32)" by simp
  moreover have "unat (of_nat (Y * 80 + X div 32 * 4) :: u32) = Y * 80 + X div 32 * 4"
    using assms by (subst unat_of_nat) (auto intro!: mod_less)
  ultimately have "unat (of_nat Y * 80 + of_nat (X div 32) * 4 :: u32) = 4 * (Y * 20 + X div 32)" by simp
  moreover have "32 * (X div 32) + X mod 32 = X" by simp
  ultimately show "32 * (unat (of_nat Y * 80 + of_nat (X div 32) * 4 :: u32) div 4) + X mod 32 = Y * 640 + X" by simp
qed

lemma pixel_glyph:
  assumes "X + W \<le> 640" "Y + H \<le> 480" "0 < H" "0 < W" "W \<le> 32"
  shows "pixel n (blit_glyph glyph_mem (of_nat X) (of_nat Y) addr (of_nat W) (of_nat H) fg bg v) =
    (if on_screen n \<and> in_rect (int X) (int Y) (int W) (int H) (px_col n) (px_row n)
     then (if bit (byte_rev (glyph_fetch glyph_mem addr (nat (px_row n - int Y)))) (nat (px_col n - int X)) then bit fg 0 else bit bg 0)
     else pixel n v)"
proof -
  have w: "unat (of_nat W :: u32) = W" "unat (of_nat H :: u32) = H" using assms by (simp_all add: unat_of_nat)
  have "pixel n (fold (\<lambda>row. blit_glyph_row (glyph_fetch glyph_mem addr row) (of_nat X) (of_nat W) fg bg
        (of_nat Y * 80 + drop_bit 5 (of_nat X) * 4 + of_nat row * 80)) [0..<m] v) =
    (if on_screen n \<and> in_rect (int X) (int Y) (int W) (int m) (px_col n) (px_row n)
     then (if bit (byte_rev (glyph_fetch glyph_mem addr (nat (px_row n - int Y)))) (nat (px_col n - int X)) then bit fg 0 else bit bg 0)
     else pixel n v)" if "m \<le> H" for m
    using that
  proof (induction m)
    case (Suc m)
    have ym: "Y + m < 480" "X < 640" using Suc.prems assms by auto
    have addr: "of_nat Y * 80 + drop_bit 5 (of_nat X) * 4 + of_nat m * 80 = (of_nat (Y + m) * 80 + of_nat (X div 32) * 4 :: u32)"
      unfolding word_address(2) [OF ym(2,1)] by (simp add: algebra_simps)
    note base = word_address(1,3) [OF ym(2,1)]
    have N: "(Y + m) * 640 + X = 32 * (unat (of_nat (Y + m) * 80 + of_nat (X div 32) * 4 :: u32) div 4) + unat (of_nat X AND 0x1F :: u32)"
      unfolding base(1) by (rule base(2) [symmetric])
    have step: "pixel n (blit_glyph_row b (of_nat X) (of_nat W) fg bg (of_nat Y * 80 + drop_bit 5 (of_nat X) * 4 + of_nat m * 80) u) =
        (if on_screen n \<and> px_row n = int (Y + m) \<and> int X \<le> px_col n \<and> px_col n < int X + int W
         then (if bit (byte_rev b) (nat (px_col n - int X)) then bit fg 0 else bit bg 0) else pixel n u)" for b u
      unfolding addr
      using pixel_glyph_row [OF _ N, of "of_nat W" n b fg bg u] line_pixels [OF assms(1) ym(1), of n] w(1) assms(5)
      by auto
    show ?case
    proof (cases "px_row n = int (Y + m)")
      case True
      then have "nat (px_row n - int Y) = m" by simp
      then show ?thesis using Suc True by (simp add: step in_rect_def)
    next
      case False
      then have "in_rect (int X) (int Y) (int W) (int (Suc m)) (px_col n) (px_row n) \<longleftrightarrow>
          in_rect (int X) (int Y) (int W) (int m) (px_col n) (px_row n)" by (auto simp: in_rect_def)
      then show ?thesis using Suc False by (simp add: step)
    qed
  qed (auto simp: in_rect_def)
  from this [OF order_refl] show ?thesis using w(2) assms(3) by (simp add: blit_glyph_def max_def)
qed

lemma screen_px: "on_screen n \<Longrightarrow> 0 \<le> px_col n \<and> px_col n < 640 \<and> 0 \<le> px_row n \<and> px_row n < 480"
  by (auto simp: on_screen_def px_col_def px_row_def)

lemma fill_box_None: "fill_box x y w h = None \<Longrightarrow> 0 \<le> X \<Longrightarrow> X < 640 \<Longrightarrow> 0 \<le> Y \<Longrightarrow> Y < 480 \<Longrightarrow> \<not> in_rect x y w h X Y"
  by (auto simp: fill_box_def Let_def in_rect_def split: if_splits)

lemma fill_box_Some:
  assumes "fill_box x y w h = Some (x', y', w', h')"
  shows "0 \<le> x' \<and> 0 < w' \<and> x' + w' \<le> 640 \<and> 0 \<le> y' \<and> 0 < h' \<and> y' + h' \<le> 480 \<and>
    (0 \<le> X \<and> X < 640 \<and> 0 \<le> Y \<and> Y < 480 \<longrightarrow> in_rect x' y' w' h' X Y = in_rect x y w h X Y)"
  using assms by (auto simp: fill_box_def Let_def in_rect_def split: if_splits)

subsection \<open>Pixels of a fill\<close>

lemma fill_mask_bit:
  assumes "b < 32" "i < m" "m = (off + W + 31) div 32" "off < 32" "0 < W"
    and left: "\<And>b. bit left b \<longleftrightarrow> b < 32 \<and> off \<le> b"
    and right: "\<And>b. bit right b \<longleftrightarrow> b < 32 \<and> ((off + W) mod 32 = 0 \<or> b < (off + W) mod 32)"
  shows "bit (fill_mask m left right i) b \<longleftrightarrow> off \<le> 32 * i + b \<and> 32 * i + b < off + W"
proof -
  define e where "e = off + W"
  have m: "m = (e + 31) div 32" using assms(3) by (simp add: e_def)
  have e: "e = 32 * (e div 32) + e mod 32" "e mod 32 < 32" "0 < e" using assms(5) by (simp_all add: e_def)
  have me: "m = (if e mod 32 = 0 then e div 32 else e div 32 + 1)" 
  proof (cases "e mod 32 = 0")
    case True
    then show ?thesis unfolding m using e by (auto intro!: div_nat_eqI)
  next
    case False
    define a c where "a = e div 32" and "c = e mod 32"
    have ac: "e = 32 * a + c" "c < 32" "0 < c" using False by (simp_all add: a_def c_def)
    then have "(e + 31) div 32 = a + 1" by (intro div_nat_eqI) simp_all
    then have "(e + 31) div 32 = e div 32 + 1" by (simp add: a_def)
    then show ?thesis using m False by simp
  qed
  have split: "e = 32 * (m - 1) + (if e mod 32 = 0 then 32 else e mod 32)" "0 < m" using e me by auto
  consider "m = 1" "i = 0" | "1 < m" "i = 0" | "1 < m" "0 < i" "i = m - 1" | "1 < m" "0 < i" "i < m - 1"
    using assms(2) by linarith
  then show ?thesis
  proof cases
    case 1
    then have "b < off + W \<longleftrightarrow> (off + W) mod 32 = 0 \<or> b < (off + W) mod 32"
      using split(1) assms(1) unfolding e_def by (auto split: if_splits)
    with 1 assms(1) show ?thesis by (simp add: fill_mask_def bit_and_iff left right)
  next
    case 2
    then have "b < off + W" using split(1) assms(1) unfolding e_def by linarith
    with 2 assms(1) show ?thesis by (simp add: fill_mask_def left)
  next
    case 3
    then have "32 * i + b < off + W \<longleftrightarrow> (off + W) mod 32 = 0 \<or> b < (off + W) mod 32"
      using split(1) assms(1) unfolding e_def by (auto split: if_splits)
    moreover have "off \<le> 32 * i + b" using 3 assms(4) by linarith
    ultimately show ?thesis using 3 assms(1) by (simp add: fill_mask_def right)
  next
    case 4
    then have "32 * i + 32 \<le> 32 * (m - 1)" by simp
    then have "32 * i + b < off + W" using split(1) assms(1) unfolding e_def by linarith
    moreover have "off \<le> 32 * i + b" using 4 assms(4) by linarith
    ultimately show ?thesis using 4 assms(1) by (simp add: fill_mask_def bit_all del: bit_numeral_word_iff)
  qed
qed

lemma pixel_masked:
  "pixel n (masked_write addr m d v) =
     (if n div 32 = unat addr div 4 \<and> bit m (n mod 32) then bit d (n mod 32) else pixel n v)"
  by (auto simp: masked_write_def Let_def pixel_upd pixel_def bit_or_iff bit_and_iff bit_not_iff dest: bit_imp_le_length)

lemma pixel_fill_line:
  assumes "\<And>i. i < m \<Longrightarrow> unat (addr i) div 4 = k + i" "j \<le> m"
  shows "pixel n (fold (\<lambda>i. masked_write (addr i) (mask_at i) d) [0..<j] v) =
     (if k \<le> n div 32 \<and> n div 32 < k + j \<and> bit (mask_at (n div 32 - k)) (n mod 32) then bit d (n mod 32) else pixel n v)"
  using assms(2)
proof (induction j)
  case (Suc j)
  then have a: "unat (addr j) div 4 = k + j" using assms(1) by simp
  show ?case
  proof (cases "n div 32 = k + j")
    case True
    then show ?thesis using Suc by (simp add: pixel_masked a)
  next
    case False
    then have "n div 32 < k + Suc j \<longleftrightarrow> n div 32 < k + j" by linarith
    then show ?thesis using Suc False by (simp add: pixel_masked a)
  qed
qed auto

lemma line_word:
  fixes X Y W n k i :: nat
  assumes "n div 32 = k + i" "k = Y * 20 + X div 32"
  shows "X mod 32 \<le> 32 * i + n mod 32 \<and> 32 * i + n mod 32 < X mod 32 + W \<longleftrightarrow> Y * 640 + X \<le> n \<and> n < Y * 640 + X + W"
proof -
  define q r b where "q = X div 32" and "r = X mod 32" and "b = n mod 32"
  have x: "X = 32 * q + r" by (simp add: q_def r_def)
  have "n = 32 * (n div 32) + b" by (simp add: b_def)
  then have "n = 32 * (Y * 20 + q + i) + b" unfolding assms q_def .
  then show ?thesis unfolding b_def [symmetric] r_def [symmetric] using x by simp
qed

lemma line_words_cover:
  fixes X Y W n k m :: nat
  assumes "Y * 640 + X \<le> n" "n < Y * 640 + X + W" "k = Y * 20 + X div 32" "m = (X mod 32 + W + 31) div 32"
  shows "k \<le> n div 32 \<and> n div 32 < k + m"
proof -
  define q r where "q = X div 32" and "r = X mod 32"
  have x: "X = 32 * q + r" by (simp add: q_def r_def)
  have k: "k = Y * 20 + q" and m: "m = (r + W + 31) div 32" using assms(3,4) by (simp_all add: q_def r_def)
  have "32 * k \<le> n" using assms(1) x unfolding k by simp
  then have "k \<le> n div 32" by (simp add: less_eq_div_iff_mult_less_eq mult.commute)
  moreover have "r + W \<le> 32 * m"
  proof -
    define t where "t = r + W + 31"
    have "t = 32 * m + t mod 32" "t mod 32 < 32" unfolding m t_def by (simp_all only: mult_div_mod_eq mod_less_divisor zero_less_numeral)
    then show ?thesis by (simp add: t_def)
  qed
  then have "n < 32 * (k + m)" using assms(2) x unfolding k by simp
  then have "n div 32 < k + m" by (simp add: div_less_iff_less_mult mult.commute)
  ultimately show ?thesis by simp
qed

lemma unat_drop_of_nat: "X < 4294967296 \<Longrightarrow> unat (drop_bit k (of_nat X :: u32)) = X div 2 ^ k"
proof -
  assume "X < 4294967296"
  then have "unat (of_nat X :: u32) = X" by (simp add: unat_of_nat)
  moreover have "unat (drop_bit k (of_nat X :: u32)) = drop_bit k (unat (of_nat X :: u32))" by (rule unat_drop_bit_eq)
  ultimately show ?thesis by (simp add: drop_bit_eq_div)
qed

lemma drop_of_nat: "X < 4294967296 \<Longrightarrow> drop_bit k (of_nat X :: u32) = of_nat (X div 2 ^ k)"
  by (rule word_unat_eq_iff [THEN iffD2]) (simp add: unat_drop_of_nat unat_of_nat le_less_trans [OF div_le_dividend])

lemma word_floor: "X < 4294967296 \<Longrightarrow> push_bit 5 (drop_bit 5 (of_nat X :: u32)) = of_nat (32 * (X div 32))"
  using drop_of_nat [of X 5] by (simp add: push_bit_eq_mult mult.commute)

lemma word_rest: "X < 4294967296 \<Longrightarrow> (of_nat X :: u32) - of_nat (32 * (X div 32)) = of_nat (X mod 32)"
proof -
  have "X = 32 * (X div 32) + X mod 32" by simp
  then have "(of_nat X :: u32) = of_nat (32 * (X div 32)) + of_nat (X mod 32)" by (metis of_nat_add)
  then show ?thesis by (simp only: add_diff_cancel_left')
qed

lemma fill_word_count:
  assumes "X + W \<le> 640"
  shows "unat (drop_bit 5 (push_bit 5 (drop_bit 5 (of_nat (X + W) + 31)) - of_nat (32 * (X div 32)) :: u32)) = (X mod 32 + W + 31) div 32"
proof -
  define q where "q = X div 32"
  have "of_nat (X + W) + 31 = (of_nat (X + W + 31) :: u32)" by simp
  then have "push_bit 5 (drop_bit 5 (of_nat (X + W) + 31)) = (of_nat (32 * ((X + W + 31) div 32)) :: u32)"
    using word_floor [of "X + W + 31"] assms by simp
  moreover have le: "q \<le> (X + W + 31) div 32" unfolding q_def by (rule div_le_mono) simp
  then have "(of_nat (32 * ((X + W + 31) div 32 - q)) :: u32) = of_nat (32 * ((X + W + 31) div 32)) - of_nat (32 * q)"
    by (simp only: diff_mult_distrib2 of_nat_diff mult_le_mono2)
  moreover have "(X + W + 31) div 32 - q = (X mod 32 + W + 31) div 32"
  proof -
    have "X = 32 * q + X mod 32" by (simp add: q_def)
    then have "X + W + 31 = X mod 32 + W + 31 + q * 32" by linarith
    then have "(X + W + 31) div 32 = (X mod 32 + W + 31) div 32 + q" by (simp only: div_mult_self1)
    then show ?thesis by simp
  qed
  moreover have "(X mod 32 + W + 31) div 32 \<le> 100"
  proof -
    have "X mod 32 + W + 31 \<le> 3200" using assms by (auto intro: le_trans [OF add_le_mono])
    then have "(X mod 32 + W + 31) div 32 \<le> 3200 div 32" by (rule div_le_mono)
    then show ?thesis by simp
  qed
  ultimately show ?thesis using unat_drop_of_nat [of "32 * ((X mod 32 + W + 31) div 32)" 5]
    by (simp add: q_def del: of_nat_mult of_nat_add)
qed

lemma fill_left: "X < 640 \<Longrightarrow> bit (push_bit (unat (of_nat X - of_nat (32 * (X div 32)) :: u32)) (0xFFFFFFFF :: u32)) b \<longleftrightarrow> b < 32 \<and> X mod 32 \<le> b"
proof -
  assume "X < 640"
  then have "unat (of_nat X - of_nat (32 * (X div 32)) :: u32) = X mod 32"
    by (subst word_rest) (simp_all add: unat_of_nat)
  then show ?thesis by (auto simp: bit_push_bit_iff bit_all simp del: bit_numeral_word_iff)
qed

lemma fill_right:
  assumes "X + W \<le> 640"
  defines "right_pixel \<equiv> of_nat (X + W) - push_bit 5 (drop_bit 5 (of_nat (X + W))) :: u32"
  shows "bit (if right_pixel = 0 then 0xFFFFFFFF else drop_bit (unat (32 - right_pixel)) (0xFFFFFFFF :: u32)) b \<longleftrightarrow>
      b < 32 \<and> ((X mod 32 + W) mod 32 = 0 \<or> b < (X mod 32 + W) mod 32)"
proof -
  define r where "r = (X + W) mod 32"
  have e: "(X mod 32 + W) mod 32 = r" by (simp add: r_def mod_add_left_eq)
  have r: "right_pixel = of_nat r" "r < 32"
    using word_floor [of "X + W"] word_rest [of "X + W"] assms(1) by (simp_all add: right_pixel_def r_def)
  then have zero: "right_pixel = 0 \<longleftrightarrow> r = 0" by (simp add: word_unat_eq_iff unat_of_nat)
  have "32 - right_pixel = of_nat (32 - r)" using r by simp
  then have "unat (32 - right_pixel) = 32 - r" by (simp add: unat_of_nat)
  then show ?thesis unfolding e zero using r(2) by (auto simp: bit_drop_bit_eq bit_all simp del: bit_numeral_word_iff)
qed

lemma fill_address:
  assumes "X < 640" "Y + line < 480" "i \<le> 22"
  shows "unat (of_nat Y * 80 + drop_bit 3 (of_nat (32 * (X div 32))) + of_nat line * 80 + of_nat i * 4 :: u32) div 4 =
    (Y + line) * 20 + X div 32 + i"
proof -
  have q: "X div 32 < 20" using assms(1) by (simp add: div_less_iff_less_mult)
  then have "drop_bit 3 (of_nat (32 * (X div 32)) :: u32) = of_nat (4 * (X div 32))"
    using drop_of_nat [of "32 * (X div 32)" 3] by simp
  then have "of_nat Y * 80 + drop_bit 3 (of_nat (32 * (X div 32))) + of_nat line * 80 + of_nat i * 4 =
      (of_nat (4 * ((Y + line) * 20 + X div 32 + i)) :: u32)" by (simp add: algebra_simps)
  moreover have "4 * (y * 20 + a + i) < 4294967296" if "y < 480" "a < 20" for y a :: nat
  proof -
    have "y * 20 + a + i \<le> 10000" using assms(3) that by linarith
    then have "4 * (y * 20 + a + i) \<le> 4 * 10000" by (rule mult_le_mono2)
    then show ?thesis by (rule le_less_trans) simp
  qed
  then have "4 * ((Y + line) * 20 + X div 32 + i) < 4294967296" using assms(2) q by blast
  ultimately show ?thesis by (simp add: unat_of_nat del: of_nat_mult of_nat_add)
qed

lemma pixel_blit_fill:
  assumes "X + W \<le> 640" "Y + H \<le> 480" "0 < W" "0 < H"
  shows "pixel n (blit_fill (of_nat X) (of_nat Y) (of_nat W) (of_nat H) p v) =
    (if on_screen n \<and> in_rect (int X) (int Y) (int W) (int H) (px_col n) (px_row n) then bit p (n mod 32) else pixel n v)"
proof -
  define x_end :: u32 where "x_end = of_nat (X + W)"
  define left_word :: u32 where "left_word = of_nat (32 * (X div 32))"
  define left right :: u32 where "left = push_bit (unat (of_nat X - left_word)) 0xFFFFFFFF"
    and "right = (if x_end - push_bit 5 (drop_bit 5 x_end) = 0 then 0xFFFFFFFF
      else drop_bit (unat (32 - (x_end - push_bit 5 (drop_bit 5 x_end)))) 0xFFFFFFFF)"
  define m where "m = (X mod 32 + W + 31) div 32"
  define start :: u32 where "start = of_nat Y * 80 + drop_bit 3 left_word"
  have xy: "X < 640" "Y < 480" using assms by simp_all
  have "32 div 32 \<le> m" "m \<le> 704 div 32" unfolding m_def
    using assms mod_less_divisor [of 32 X] by (intro div_le_mono; linarith)+
  then have m: "0 < m" "m \<le> 22" by simp_all
  have count: "unat (drop_bit 5 (push_bit 5 (drop_bit 5 (x_end + 31)) - left_word)) = m"
    using fill_word_count [OF assms(1)] by (simp add: x_end_def left_word_def m_def)
  have L: "bit left b \<longleftrightarrow> b < 32 \<and> X mod 32 \<le> b" for b
    using fill_left [OF xy(1)] by (simp add: left_def left_word_def)
  have R: "bit right b \<longleftrightarrow> b < 32 \<and> ((X mod 32 + W) mod 32 = 0 \<or> b < (X mod 32 + W) mod 32)" for b
    using fill_right [OF assms(1)] by (simp only: right_def x_end_def)
  have sums: "of_nat X + of_nat W = x_end" "of_nat Y + of_nat H = (of_nat (Y + H) :: u32)"
    "x_end - of_nat X = of_nat W" "of_nat (Y + H) - of_nat Y = (of_nat H :: u32)" by (simp_all add: x_end_def)
  have le: "\<not> x_end > 640" "\<not> (of_nat (Y + H) :: u32) > 480" "\<not> (of_nat X :: u32) \<ge> 640" "\<not> (of_nat Y :: u32) \<ge> 480"
    "(of_nat W :: u32) \<noteq> 0" "(of_nat H :: u32) \<noteq> 0" "unat (of_nat H :: u32) = H"
    using assms xy by (simp_all add: x_end_def word_less_nat_alt word_le_nat_alt word_unat_eq_iff unat_of_nat del: of_nat_add)
  have floor: "push_bit 5 (drop_bit 5 (of_nat X)) = left_word" unfolding left_word_def by (rule word_floor) (use xy in simp)
  have eq: "blit_fill (of_nat X) (of_nat Y) (of_nat W) (of_nat H) p v =
      fold (\<lambda>line. fold (\<lambda>i. masked_write (start + of_nat line * 80 + of_nat i * 4) (fill_mask m left right i) p) [0..<m]) [0..<H] v"
    using m(1) assms(4) le
    unfolding blit_fill_def Let_def sums if_not_P [OF le(1)] if_not_P [OF le(2)] sums floor count left_def [symmetric] right_def [symmetric]
      start_def [symmetric] by (simp add: max_def)
  have line: "pixel n (fold (\<lambda>i. masked_write (start + of_nat line * 80 + of_nat i * 4) (fill_mask m left right i) p) [0..<m] u) =
      (if on_screen n \<and> px_row n = int (Y + line) \<and> int X \<le> px_col n \<and> px_col n < int X + int W then bit p (n mod 32) else pixel n u)"
    if "line < H" for line u
  proof -
    let ?k = "(Y + line) * 20 + X div 32"
    have yl: "Y + line < 480" using that assms(2) by simp
    have addr: "unat (start + of_nat line * 80 + of_nat i * 4) div 4 = ?k + i" if "i < m" for i
      unfolding start_def left_word_def by (rule fill_address [OF xy(1) yl]) (use that m(2) in simp)
    have "?k \<le> n div 32 \<and> n div 32 < ?k + m \<and> bit (fill_mask m left right (n div 32 - ?k)) (n mod 32) \<longleftrightarrow>
        (Y + line) * 640 + X \<le> n \<and> n < (Y + line) * 640 + X + W"
    proof (cases "?k \<le> n div 32 \<and> n div 32 < ?k + m")
      case True
      then have i: "n div 32 = ?k + (n div 32 - ?k)" "n div 32 - ?k < m" by auto
      have "bit (fill_mask m left right (n div 32 - ?k)) (n mod 32) \<longleftrightarrow>
          X mod 32 \<le> 32 * (n div 32 - ?k) + n mod 32 \<and> 32 * (n div 32 - ?k) + n mod 32 < X mod 32 + W"
        by (rule fill_mask_bit [OF _ i(2) m_def _ assms(3) L R]) simp_all
      then show ?thesis using line_word [OF i(1) refl, of W] True by simp
    next
      case False
      then show ?thesis using line_words_cover [of "Y + line" X n W, OF _ _ refl refl] by (auto simp: m_def)
    qed
    then show ?thesis using pixel_fill_line [OF addr order_refl, where n = n and mask_at = "fill_mask m left right" and d = p]
        line_pixels(1) [OF assms(1) yl, of n] by simp
  qed
  have "pixel n (fold (\<lambda>line. fold (\<lambda>i. masked_write (start + of_nat line * 80 + of_nat i * 4) (fill_mask m left right i) p) [0..<m]) [0..<j] v) =
    (if on_screen n \<and> in_rect (int X) (int Y) (int W) (int j) (px_col n) (px_row n) then bit p (n mod 32) else pixel n v)" if "j \<le> H" for j
    using that
  proof (induction j)
    case (Suc j)
    then have "j < H" by simp
    show ?case
    proof (cases "px_row n = int (Y + j)")
      case True
      then show ?thesis using Suc line [OF \<open>j < H\<close>] by (auto simp: in_rect_def)
    next
      case False
      then have "in_rect (int X) (int Y) (int W) (int (Suc j)) (px_col n) (px_row n) \<longleftrightarrow>
          in_rect (int X) (int Y) (int W) (int j) (px_col n) (px_row n)" by (auto simp: in_rect_def)
      then show ?thesis using Suc False line [OF \<open>j < H\<close>] by simp
    qed
  qed (auto simp: in_rect_def)
  from this [OF order_refl] show ?thesis unfolding eq .
qed

text \<open>
  The clamping of a hardware fill changes nothing on the screen: what the blitter is told to fill, and fills, is exactly what the software
  renderer would have filled, and when it is told nothing there was nothing to fill. It never leaves the screen.
\<close>

theorem hw_fill_same:
  "case z_fb_hw_fill_rect x y w h color of
     None \<Rightarrow> z_fb_fill_rect x y w h color None v = v
   | Some c \<Rightarrow> blit_effect c glyph_mem v = z_fb_fill_rect x y w h color None v"
proof (cases "fill_box x y w h")
  case None
  have "z_fb_fill_rect x y w h color None v = v"
    by (rule vram_eqI) (use fill_box_None [OF None] screen_px in \<open>auto simp: pixel_fill\<close>)
  then show ?thesis by (simp add: z_fb_hw_fill_rect_def None)
next
  case (Some b)
  obtain x' y' w' h' where b: "b = (x', y', w', h')" by (cases b)
  note box = fill_box_Some [OF Some [unfolded b]]
  obtain X Y W H where nat: "x' = int X" "y' = int Y" "w' = int W" "h' = int H"
    using box [of 0 0] by (metis less_imp_le nonneg_int_cases)
  have in_box: "X + W \<le> 640" "Y + H \<le> 480" "0 < W" "0 < H" using box [of 0 0] by (auto simp: nat)
  have "pixel n (blit_fill (of_nat X) (of_nat Y) (of_nat W) (of_nat H) (if color then 0xFFFFFFFF else 0) v) =
      pixel n (z_fb_fill_rect x y w h color None v)" for n
    unfolding pixel_blit_fill [OF in_box] pixel_fill using box [of "px_col n" "px_row n"] screen_px [of n]
    by (auto simp: nat in_clip_def bit_all simp del: bit_numeral_word_iff)
  then have "blit_fill (of_nat X) (of_nat Y) (of_nat W) (of_nat H) (if color then 0xFFFFFFFF else 0) v = z_fb_fill_rect x y w h color None v"
    by (rule vram_eqI)
  then show ?thesis by (simp add: z_fb_hw_fill_rect_def Some b nat)
qed

lemma cell_clip: "cell_fits x y w h clip \<Longrightarrow> in_rect x y w h X Y \<Longrightarrow> in_clip X Y clip"
  by (auto simp: cell_fits_def in_rect_def in_clip_def split: option.splits)

lemma glyph_fetched:
  assumes "font_loaded font glyph_mem" "ft_first font \<le> uc" "uc \<le> ft_last font" "row < ft_h font"
  shows "glyph_fetch glyph_mem (of_nat ((uc - ft_first font) * ft_h font)) row = glyph_row font uc row"
proof -
  let ?i = "(uc - ft_first font) * ft_h font + row"
  have "(uc - ft_first font + 1) * ft_h font \<le> glyph_bytes font"
    unfolding glyph_bytes_def using assms(2,3) by (intro mult_le_mono1) simp
  then have i: "?i < glyph_bytes font" using assms(4) by simp
  then have bounds: "?i < 4096" "?i < length (ft_glyphs font)" using assms(1) by (auto simp: font_loaded_def)
  have "ucast (of_nat a :: u32) = (of_nat a :: 12 word)" for a
    by (rule bit_word_eqI) (simp add: bit_ucast_iff bit_of_nat_iff)
  then have "unat (ucast (of_nat ((uc - ft_first font) * ft_h font) :: u32) + of_nat row :: 12 word) = unat (of_nat ?i :: 12 word)"
    by (simp only: of_nat_add)
  also have "\<dots> = ?i" using bounds(1) by (subst unat_of_nat) simp
  finally show ?thesis using assms(1) i bounds(2) by (simp add: glyph_fetch_def glyph_row_def font_loaded_def Let_def)
qed

lemma hw_char_same:
  assumes "font_loaded font glyph_mem" "0 < ft_h font" "0 < ft_w font" "ft_w font \<le> 32"
  shows "char_effect (hw_draw_char2 x y uc fg bg font clip) glyph_mem v = z_fb_draw_char2 x y uc fg bg font clip v"
proof (cases "uc < ft_first font \<or> uc > ft_last font \<or> \<not> cell_fits x y (int (ft_w font)) (int (ft_h font)) clip")
  case True
  then show ?thesis by (auto simp: hw_draw_char2_def z_fb_draw_char2_def)
next
  case False
  then have fits: "cell_fits x y (int (ft_w font)) (int (ft_h font)) clip" "ft_first font \<le> uc" "uc \<le> ft_last font" by auto
  obtain X Y where xy: "x = int X" "y = int Y" using fits(1) by (metis cell_fits_def nonneg_int_cases)
  have box: "X + ft_w font \<le> 640" "Y + ft_h font \<le> 480" using fits(1) by (auto simp: cell_fits_def xy)
  have "pixel n (blit_glyph glyph_mem (of_nat X) (of_nat Y) (of_nat ((uc - ft_first font) * ft_h font)) (of_nat (ft_w font)) (of_nat (ft_h font))
      (if fg then 1 else 0) (if bg then 1 else 0) v) = pixel n (z_fb_draw_char2 x y uc fg bg font clip v)" for n
  proof (cases "in_rect x y (int (ft_w font)) (int (ft_h font)) (px_col n) (px_row n)")
    case True
    then have "nat (px_row n - y) < ft_h font" by (auto simp: in_rect_def)
    note f = glyph_fetched [OF assms(1) fits(2,3) this]
    show ?thesis using True cell_clip [OF fits(1) True]
      unfolding pixel_glyph [OF box assms(2,3,4)] pixel_char2 [OF fits(2,3)]
      by (cases fg; cases bg) (simp_all add: ink_bit f flip: xy del: of_nat_mult)
  next
    case False
    then show ?thesis unfolding pixel_glyph [OF box assms(2,3,4)] pixel_char2 [OF fits(2,3)] by (simp add: xy)
  qed
  then have "blit_glyph glyph_mem (of_nat X) (of_nat Y) (of_nat ((uc - ft_first font) * ft_h font)) (of_nat (ft_w font)) (of_nat (ft_h font))
      (if fg then 1 else 0) (if bg then 1 else 0) v = z_fb_draw_char2 x y uc fg bg font clip v" by (rule vram_eqI)
  then show ?thesis using fits by (simp add: hw_draw_char2_def xy del: of_nat_mult)
qed

definition hw_draw_text2 ::
  "(nat \<Rightarrow> u8) \<Rightarrow> int \<Rightarrow> int \<Rightarrow> nat list \<Rightarrow> bool \<Rightarrow> bool \<Rightarrow> z_font \<Rightarrow> z_clip option \<Rightarrow> vram \<Rightarrow> vram" where
  "hw_draw_text2 glyph_mem x y s fg_color bg_color font clip =
     text_from (\<lambda>cx cy c. char_effect (hw_draw_char2 cx cy c fg_color bg_color font clip) glyph_mem) font x x y s"

lemma text_from_cong: "(\<And>cx cy c v. c \<in> set s \<Longrightarrow> f cx cy c v = g cx cy c v) \<Longrightarrow> text_from f font x cx cy s v = text_from g font x cx cy s v"
  by (induction s arbitrary: cx cy v) auto

text \<open>
  C33: text on the hardware looks like text in software: a string in two colours leaves the same pixels, whether the blitter draws its
  cells, out of glyph memory and word by word as its state machine does, or, for those that cross the edge of the screen or of the clip,
  the processor does. The font must be the one that was loaded into glyph memory, all of it within the 4096 bytes, and at most 32 pixels
  wide; any other comes out garbled.
\<close>

theorem hw_text_same:
  assumes "font_loaded font glyph_mem" "0 < ft_h font" "0 < ft_w font" "ft_w font \<le> 32"
  shows "hw_draw_text2 glyph_mem x y s fg bg font clip v = z_fb_draw_text2 x y s fg bg font clip v"
  unfolding hw_draw_text2_def z_fb_draw_text2_def hw_char_same [OF assms] ..

section \<open>Sharing the blitter\<close>

text \<open>
  A process that wants an operation polls the status, at most ten million times, masks interrupts, looks again, and either gives up the
  mask and starts over or writes its registers and unmasks. A start while the blitter is busy has no effect. The log \<open>g_issued\<close> holds
  the calls whose start has been written, \<open>g_started\<close> what the blitter began to do.
\<close>

abbreviation POLL_LIMIT :: nat where "POLL_LIMIT \<equiv> 10000000"

datatype blit_pc =
    BIdle
  | BPoll nat blit_call
  | BMask blit_call
  | BCheck blit_call
  | BRetry blit_call
  | BWrite "(breg \<times> u32) list" blit_call
  | BUnmask

record gpu =
  g_pc :: "nat \<Rightarrow> blit_pc"
  g_masked :: "nat option"
  g_regs :: "breg \<Rightarrow> u32"
  g_busy :: bool
  g_issued :: "blit_call list"
  g_started :: "blit_call list"

definition call_of_regs :: "(breg \<Rightarrow> u32) \<Rightarrow> blit_call" where
  "call_of_regs r =
     (if r CTRL AND GPU_BLIT_CTRL_FILL \<noteq> 0 then FillCall (r DST_X) (r DST_Y) (r WIDTH) (r HEIGHT) (r PATTERN)
      else GlyphCall (r DST_X) (r DST_Y) (r GLYPH_ADDR) (r GLYPH_W) (r GLYPH_H) (r FG_COLOR) (r BG_COLOR))"

definition write_reg :: "breg \<times> u32 \<Rightarrow> gpu \<Rightarrow> gpu" where
  "write_reg w g =
     (let g = g\<lparr>g_regs := (g_regs g)(fst w := snd w)\<rparr> in
      if fst w = CTRL \<and> snd w AND GPU_BLIT_CTRL_START \<noteq> 0 \<and> \<not> g_busy g
      then g\<lparr>g_busy := True, g_started := g_started g @ [call_of_regs (g_regs g)]\<rparr> else g)"

definition set_pc :: "nat \<Rightarrow> blit_pc \<Rightarrow> gpu \<Rightarrow> gpu" where "set_pc p c g = g\<lparr>g_pc := (g_pc g)(p := c)\<rparr>"

text \<open>One step of process \<open>p\<close>, which asks for \<open>next\<close> when it is idle.\<close>

definition gpu_blit_acquire :: "nat \<Rightarrow> blit_call \<Rightarrow> gpu \<Rightarrow> gpu" where
  "gpu_blit_acquire p call g =
     (case g_pc g p of
        BIdle \<Rightarrow> set_pc p (BPoll 0 call) g
      | BPoll waited c \<Rightarrow>
          set_pc p (if g_busy g then (if waited + 1 > POLL_LIMIT then BMask c else BPoll (waited + 1) c) else BMask c) g
      | BMask c \<Rightarrow> set_pc p (BCheck c) (g\<lparr>g_masked := Some p\<rparr>)
      | BCheck c \<Rightarrow> set_pc p (if \<not> g_busy g then BWrite (blit_writes c) c else BRetry c) g
      | BRetry c \<Rightarrow> set_pc p (BPoll 0 c) (g\<lparr>g_masked := None\<rparr>)
      | BWrite ws c \<Rightarrow>
          (case ws of
             [] \<Rightarrow> set_pc p BUnmask g
           | w # ws' \<Rightarrow>
               let g = write_reg w g; g = (if ws' = [] then g\<lparr>g_issued := g_issued g @ [c]\<rparr> else g) in
               set_pc p (if ws' = [] then BUnmask else BWrite ws' c) g)
      | BUnmask \<Rightarrow> set_pc p BIdle (g\<lparr>g_masked := None\<rparr>))"

text \<open>Any process that interrupts may run can take the next step; the blitter finishes by itself.\<close>

inductive gpu_step :: "gpu \<Rightarrow> gpu \<Rightarrow> bool" where
  process: "g_masked g = None \<or> g_masked g = Some p \<Longrightarrow> gpu_step g (gpu_blit_acquire p call g)"
| finish: "gpu_step g (g\<lparr>g_busy := False\<rparr>)"

definition gpu_idle :: gpu where
  "gpu_idle = \<lparr>g_pc = \<lambda>_. BIdle, g_masked = None, g_regs = \<lambda>_. 0, g_busy = False, g_issued = [], g_started = []\<rparr>"

text \<open>Where the holder of the mask is: before the check, or with the blitter idle and the first registers written.\<close>

primrec holds :: "blit_pc \<Rightarrow> bool" where
  "holds BIdle = False"
| "holds (BPoll n c) = False"
| "holds (BMask c) = False"
| "holds (BCheck c) = True"
| "holds (BRetry c) = True"
| "holds (BWrite ws c) = True"
| "holds BUnmask = True"

definition written :: "(breg \<times> u32) list \<Rightarrow> gpu \<Rightarrow> bool" where
  "written ws g \<longleftrightarrow> (\<forall>(r, x)\<in>set ws. g_regs g r = x)"

primrec pc_ok :: "blit_pc \<Rightarrow> gpu \<Rightarrow> bool" where
  "pc_ok BIdle g = True"
| "pc_ok (BPoll n c) g = True"
| "pc_ok (BMask c) g = True"
| "pc_ok (BCheck c) g = True"
| "pc_ok (BRetry c) g = True"
| "pc_ok (BWrite ws c) g = (\<not> g_busy g \<and> ws \<noteq> [] \<and> (\<exists>dn. blit_writes c = dn @ ws \<and> written dn g))"
| "pc_ok BUnmask g = True"

definition gpu_inv :: "gpu \<Rightarrow> bool" where
  "gpu_inv g \<longleftrightarrow>
     (\<forall>p. holds (g_pc g p) \<longleftrightarrow> g_masked g = Some p) \<and> (\<forall>p. pc_ok (g_pc g p) g) \<and> g_started g = g_issued g"

lemma set_pc_simps [simp]:
  "g_pc (set_pc p c g) = (g_pc g)(p := c)" "g_masked (set_pc p c g) = g_masked g" "g_regs (set_pc p c g) = g_regs g"
  "g_busy (set_pc p c g) = g_busy g" "g_issued (set_pc p c g) = g_issued g" "g_started (set_pc p c g) = g_started g"
  by (simp_all add: set_pc_def)

lemma write_reg_simps [simp]:
  "g_pc (write_reg w g) = g_pc g" "g_masked (write_reg w g) = g_masked g" "g_issued (write_reg w g) = g_issued g"
  "g_regs (write_reg w g) = (g_regs g)(fst w := snd w)"
  by (simp_all add: write_reg_def Let_def)

lemma write_reg_plain: "fst w \<noteq> CTRL \<Longrightarrow> g_busy (write_reg w g) = g_busy g \<and> g_started (write_reg w g) = g_started g"
  by (simp add: write_reg_def Let_def)

lemma writes_shape: "\<exists>ws x. blit_writes c = ws @ [(CTRL, x)] \<and> x AND GPU_BLIT_CTRL_START \<noteq> 0 \<and> CTRL \<notin> fst ` set ws"
  by (cases c) auto

lemma writes_distinct: "distinct (map fst (blit_writes c))"
  by (cases c) auto

text \<open>When all registers but the last are written, the last one starts exactly this call.\<close>

lemma started_call:
  assumes "blit_writes c = ws @ [(CTRL, x)]" "written ws g"
  shows "call_of_regs ((g_regs g)(CTRL := x)) = c"
  using assms by (cases c) (auto simp: written_def call_of_regs_def)

lemma gpu_inv_idle: "gpu_inv gpu_idle"
  by (simp add: gpu_inv_def gpu_idle_def)

lemma pc_ok_mono: "pc_ok c g \<Longrightarrow> g_regs h = g_regs g \<Longrightarrow> g_busy h \<longrightarrow> g_busy g \<Longrightarrow> pc_ok c h"
  by (cases c) (auto simp: written_def)

lemma gpu_inv_finish: "gpu_inv g \<Longrightarrow> gpu_inv (g\<lparr>g_busy := False\<rparr>)"
  unfolding gpu_inv_def using pc_ok_mono [of _ g "g\<lparr>g_busy := False\<rparr>"] by simp

text \<open>Whoever may run is alone past the mask: the others are where \<open>pc_ok\<close> says nothing.\<close>

lemma others_free:
  assumes "gpu_inv g" "g_masked g = None \<or> g_masked g = Some p" "q \<noteq> p"
  shows "\<not> holds (g_pc g q)" "pc_ok (g_pc g q) h"
proof -
  show "\<not> holds (g_pc g q)" using assms by (auto simp: gpu_inv_def)
  then show "pc_ok (g_pc g q) h" by (cases "g_pc g q") auto
qed

lemma gpu_invI:
  assumes "gpu_inv g" "g_masked g = None \<or> g_masked g = Some p" "\<And>q. q \<noteq> p \<Longrightarrow> g_pc h q = g_pc g q"
    and "if holds (g_pc h p) then g_masked h = Some p else g_masked h = None" "pc_ok (g_pc h p) h" "g_started h = g_issued h"
  shows "gpu_inv h"
  unfolding gpu_inv_def
proof (intro conjI allI)
  fix q
  show "holds (g_pc h q) \<longleftrightarrow> g_masked h = Some q"
    using assms(3,4) others_free(1) [OF assms(1,2)] by (cases "q = p") (auto split: if_splits)
  show "pc_ok (g_pc h q) h" using assms(3,5) others_free(2) [OF assms(1,2)] by (cases "q = p") auto
qed (rule assms(6))

lemma gpu_invD:
  assumes "gpu_inv g"
  shows "holds (g_pc g p) \<longleftrightarrow> g_masked g = Some p" "pc_ok (g_pc g p) g" "g_started g = g_issued g"
  using assms by (auto simp: gpu_inv_def)

lemma gpu_inv_write:
  assumes inv: "gpu_inv g" and pc: "g_pc g p = BWrite ws c"
  shows "gpu_inv (gpu_blit_acquire p call g)"
proof -
  obtain w ws' dn where ws: "ws = w # ws'" "blit_writes c = dn @ w # ws'" "written dn g" "\<not> g_busy g"
    using gpu_invD(2) [OF inv, of p] pc by (cases ws) auto
  have held: "g_masked g = Some p" using gpu_invD(1) [OF inv, of p] pc by simp
  note st = gpu_invD(3) [OF inv]
  obtain ws0 x where sh: "blit_writes c = ws0 @ [(CTRL, x)]" "x AND GPU_BLIT_CTRL_START \<noteq> 0" "CTRL \<notin> fst ` set ws0"
    using writes_shape by blast
  show ?thesis
  proof (cases "ws' = []")
    case True
    then have "w = (CTRL, x)" "dn = ws0" using ws(2) sh(1) by auto
    then have "g_started (write_reg w g) = g_started g @ [c]"
      using sh(2) ws(3,4) started_call [OF sh(1), of g] by (simp add: write_reg_def Let_def)
    then show ?thesis
      by (intro gpu_invI [OF inv, of p]) (use pc ws True held st in \<open>simp_all add: gpu_blit_acquire_def\<close>)
  next
    case False
    then obtain ws1 l where l: "ws' = ws1 @ [l]" by (cases ws' rule: rev_cases) auto
    have "(dn @ w # ws1) @ [l] = ws0 @ [(CTRL, x)]" using ws(2) sh(1) l by simp
    then have "ws0 = dn @ w # ws1" by (simp only: append1_eq_conv)
    then have "fst w \<noteq> CTRL" using sh(3) by auto
    note plain = write_reg_plain [OF this, of g]
    have "fst w \<notin> fst ` set dn" using writes_distinct [of c] ws(2) by auto
    then have "written (dn @ [w]) (write_reg w g)" using ws(3) by (force simp: written_def split: prod.splits)
    then show ?thesis
      by (intro gpu_invI [OF inv, of p])
        (use pc ws False held plain st in \<open>auto simp: gpu_blit_acquire_def written_def intro!: exI [of _ "dn @ [w]"]\<close>)
  qed
qed

lemma gpu_inv_process:
  assumes inv: "gpu_inv g" and run: "g_masked g = None \<or> g_masked g = Some p"
  shows "gpu_inv (gpu_blit_acquire p call g)"
proof (cases "g_pc g p")
  case (BWrite ws c)
  then show ?thesis by (rule gpu_inv_write [OF inv])
next
  case (BCheck c)
  obtain ws x where "blit_writes c = ws @ [(CTRL, x)]" using writes_shape by blast
  with BCheck show ?thesis
    by (intro gpu_invI [OF inv run]) (use gpu_invD(1,2) [OF inv, of p] gpu_invD(3) [OF inv] in \<open>auto simp: gpu_blit_acquire_def written_def intro!: exI [of _ "[]"]\<close>)
qed (intro gpu_invI [OF inv run]; use gpu_invD(1,2) [OF inv, of p] gpu_invD(3) [OF inv] run in \<open>auto simp: gpu_blit_acquire_def\<close>)+

lemma acquire_masked:
  "g_masked g = None \<or> g_masked g = Some p \<Longrightarrow>
   g_masked (gpu_blit_acquire p c g) = None \<or> g_masked (gpu_blit_acquire p c g) = Some p"
  by (cases "g_pc g p") (auto simp: gpu_blit_acquire_def Let_def split: list.splits)

lemma gpu_inv_steps: "gpu_step\<^sup>*\<^sup>* gpu_idle g \<Longrightarrow> gpu_inv g"
proof (induction rule: rtranclp_induct)
  case base
  then show ?case by (rule gpu_inv_idle)
next
  case (step g h)
  from step(2) step(3) show ?case by cases (auto intro: gpu_inv_process gpu_inv_finish)
qed


section \<open>Lines\<close>

text \<open>
  The line rasterizer takes its commands from a queue of sixteen. Coordinates are clamped to the screen; the clip is written to
  registers of its own, and does not go through the queue. The wait for room in the queue comes before the mask.
\<close>

definition clamp :: "int \<Rightarrow> int \<Rightarrow> int" where
  "clamp hi x = (let x = (if x < 0 then 0 else x) in if x \<ge> hi then hi - 1 else x)"

record line_call =
  lc_x0 :: u32
  lc_y0 :: u32
  lc_x1 :: u32
  lc_y1 :: u32
  lc_color :: bool
  lc_clip :: "z_clip option"

definition z_fb_hw_line :: "int \<Rightarrow> int \<Rightarrow> int \<Rightarrow> int \<Rightarrow> bool \<Rightarrow> z_clip option \<Rightarrow> line_call" where
  "z_fb_hw_line x0 y0 x1 y1 color clip =
     \<lparr>lc_x0 = of_int (clamp Z_SCREEN_W x0), lc_y0 = of_int (clamp Z_SCREEN_H y0), lc_x1 = of_int (clamp Z_SCREEN_W x1),
      lc_y1 = of_int (clamp Z_SCREEN_H y1), lc_color = color, lc_clip = clip\<rparr>"

definition z_fb_hw_box :: "int \<Rightarrow> int \<Rightarrow> int \<Rightarrow> int \<Rightarrow> bool \<Rightarrow> z_clip option \<Rightarrow> line_call list" where
  "z_fb_hw_box x0 y0 x1 y1 color clip =
     [z_fb_hw_line x0 y0 x1 y0 color clip, z_fb_hw_line x1 y0 x1 y1 color clip, z_fb_hw_line x1 y1 x0 y1 color clip,
      z_fb_hw_line x0 y1 x0 y0 color clip]"

datatype line_pc = LIdle | LWait nat line_call | LMask line_call | LClip line_call | LStart line_call | LUnmask

record raster =
  r_pc :: "nat \<Rightarrow> line_pc"
  r_masked :: "nat option"
  r_clip :: "z_clip option"
  r_fifo :: "line_call list"
  r_issued :: "line_call list"
  r_drawn :: "(line_call \<times> z_clip option) list"

definition set_line_pc :: "nat \<Rightarrow> line_pc \<Rightarrow> raster \<Rightarrow> raster" where "set_line_pc p c r = r\<lparr>r_pc := (r_pc r)(p := c)\<rparr>"

text \<open>A start is accepted while the queue is not full. A drawn line is logged with the clip that was set when it left the queue.
  When the rasterizer takes a command is left open: the one in \<open>gpu_raster.v\<close> takes the next as soon as the line before is finished.\<close>

definition line_process :: "nat \<Rightarrow> line_call \<Rightarrow> raster \<Rightarrow> raster" where
  "line_process p call r =
     (case r_pc r p of
        LIdle \<Rightarrow> set_line_pc p (LWait 0 call) r
      | LWait waited c \<Rightarrow>
          set_line_pc p (if length (r_fifo r) > 15 then (if waited + 1 > POLL_LIMIT then LMask c else LWait (waited + 1) c) else LMask c) r
      | LMask c \<Rightarrow> set_line_pc p (LClip c) (r\<lparr>r_masked := Some p\<rparr>)
      | LClip c \<Rightarrow> set_line_pc p (LStart c) (r\<lparr>r_clip := lc_clip c\<rparr>)
      | LStart c \<Rightarrow>
          set_line_pc p LUnmask
            (r\<lparr>r_fifo := (if length (r_fifo r) < 16 then r_fifo r @ [c] else r_fifo r), r_issued := r_issued r @ [c]\<rparr>)
      | LUnmask \<Rightarrow> set_line_pc p LIdle (r\<lparr>r_masked := None\<rparr>))"

definition line_draw :: "raster \<Rightarrow> raster" where
  "line_draw r = (case r_fifo r of [] \<Rightarrow> r | c # cs \<Rightarrow> r\<lparr>r_fifo := cs, r_drawn := r_drawn r @ [(c, r_clip r)]\<rparr>)"

inductive raster_step :: "raster \<Rightarrow> raster \<Rightarrow> bool" where
  process: "r_masked r = None \<or> r_masked r = Some p \<Longrightarrow> raster_step r (line_process p call r)"
| draw: "raster_step r (line_draw r)"

definition raster_idle :: raster where
  "raster_idle = \<lparr>r_pc = \<lambda>_. LIdle, r_masked = None, r_clip = None, r_fifo = [], r_issued = [], r_drawn = []\<rparr>"

text \<open>Whole turns of a process: it asks, waits once, masks, writes its registers, starts, unmasks.\<close>

definition line_turn :: "nat \<Rightarrow> line_call \<Rightarrow> raster \<Rightarrow> raster" where "line_turn p c = line_process p c ^^ 6"

lemma line_turn_eq:
  assumes "r_pc r p = LIdle" "length (r_fifo r) \<le> 15"
  shows "line_turn p c r = r\<lparr>r_masked := None, r_clip := lc_clip c, r_fifo := r_fifo r @ [c], r_issued := r_issued r @ [c]\<rparr>"
  using assms by (simp add: line_turn_def eval_nat_numeral line_process_def set_line_pc_def fun_upd_idem)

lemma line_process_masked:
  "r_masked r = None \<or> r_masked r = Some p \<Longrightarrow> r_masked (line_process p c r) = None \<or> r_masked (line_process p c r) = Some p"
  by (cases "r_pc r p") (simp_all add: line_process_def set_line_pc_def)

lemma line_process_steps:
  assumes "r_masked r = None \<or> r_masked r = Some p"
  shows "raster_step\<^sup>*\<^sup>* r ((line_process p c ^^ n) r) \<and>
    (r_masked ((line_process p c ^^ n) r) = None \<or> r_masked ((line_process p c ^^ n) r) = Some p)"
proof (induction n)
  case 0
  then show ?case using assms by simp
next
  case (Suc n)
  let ?r = "(line_process p c ^^ n) r"
  have "raster_step ?r (line_process p c ?r)" by (rule raster_step.process) (rule Suc [THEN conjunct2])
  from rtranclp.rtrancl_into_rtrancl [OF Suc [THEN conjunct1] this] line_process_masked [OF Suc [THEN conjunct2], of c]
  show ?case by simp
qed

lemma line_turns:
  "n \<le> 16 \<Longrightarrow> (line_turn p c ^^ n) raster_idle =
     raster_idle\<lparr>r_clip := (if n = 0 then None else lc_clip c), r_fifo := replicate n c, r_issued := replicate n c\<rparr>"
proof (induction n)
  case (Suc n)
  then show ?case by (simp add: line_turn_eq raster_idle_def replicate_append_same)
qed (simp add: raster_idle_def)

lemma line_turns_steps: "n \<le> 16 \<Longrightarrow> raster_step\<^sup>*\<^sup>* raster_idle ((line_turn p c ^^ n) raster_idle)"
proof (induction n)
  case (Suc n)
  have "raster_step\<^sup>*\<^sup>* ((line_turn p c ^^ n) raster_idle) (line_turn p c ((line_turn p c ^^ n) raster_idle))"
    unfolding line_turn_def by (rule line_process_steps [THEN conjunct1])
      (use Suc.prems line_turns [of n p c] in \<open>simp add: raster_idle_def line_turn_def\<close>)
  with Suc show ?case by simp
qed simp

text \<open>Two processes that both saw room: the second comes too late.\<close>

definition race :: "nat \<Rightarrow> line_call \<Rightarrow> nat \<Rightarrow> line_call \<Rightarrow> raster \<Rightarrow> raster" where
  "race p c q d r = (line_process q d ^^ 4) ((line_process p c ^^ 4) ((line_process q d ^^ 2) ((line_process p c ^^ 2) r)))"

lemma line_looks:
  "r_pc r p = LIdle \<Longrightarrow> length (r_fifo r) \<le> 15 \<Longrightarrow> (line_process p c ^^ 2) r = set_line_pc p (LMask c) r"
  by (simp add: numeral_2_eq_2 line_process_def set_line_pc_def)

lemma line_starts:
  "r_pc r p = LMask c \<Longrightarrow> (line_process p e ^^ 4) r =
     set_line_pc p LIdle (r\<lparr>r_masked := None, r_clip := lc_clip c,
       r_fifo := (if length (r_fifo r) < 16 then r_fifo r @ [c] else r_fifo r), r_issued := r_issued r @ [c]\<rparr>)"
  by (simp add: eval_nat_numeral line_process_def set_line_pc_def)

text \<open>
  C34: lines have no such protection: the room a process saw before it masked interrupts may be gone when it starts its line. Two
  processes that both see the last free place of the queue issue two lines and only one is queued; and a queued line is drawn with
  whatever clip was set last, not with its own. (The rasterizer of the model may wait before it takes a command; the one of the hardware
  does so only while it draws, so there a long line in front takes the place of the waiting.)
\<close>

theorem lines_can_be_lost:
  "raster_step\<^sup>*\<^sup>* raster_idle (race 0 c 1 d ((line_turn 0 c ^^ 15) raster_idle)) \<and>
   r_issued (race 0 c 1 d ((line_turn 0 c ^^ 15) raster_idle)) = replicate 16 c @ [d] \<and>
   r_fifo (race 0 c 1 d ((line_turn 0 c ^^ 15) raster_idle)) = replicate 16 c \<and>
   r_drawn (race 0 c 1 d ((line_turn 0 c ^^ 15) raster_idle)) = [] \<and>
   r_drawn (line_draw (line_turn 1 d (line_turn 0 c raster_idle))) = [(c, lc_clip d)]"
proof -
  define R where "R = raster_idle\<lparr>r_clip := lc_clip c, r_fifo := replicate 15 c, r_issued := replicate 15 c\<rparr>"
  let ?f = "\<lambda>p x n r. (line_process p x ^^ n) r"
  have r: "(line_turn 0 c ^^ 15) raster_idle = R" using line_turns [of 15 0 c] by (simp add: R_def)
  let ?set = "\<lambda>pc0 pc1 r. set_line_pc 1 pc1 (set_line_pc 0 pc0 r)"
  have f1: "?f 0 c 2 R = ?set (LMask c) LIdle R" by (simp add: line_looks R_def raster_idle_def set_line_pc_def fun_eq_iff)
  have f2: "?f 1 d 2 (?f 0 c 2 R) = ?set (LMask c) (LMask d) R"
    unfolding f1 by (simp add: line_looks R_def raster_idle_def set_line_pc_def fun_eq_iff)
  have f3: "?f 0 c 4 (?f 1 d 2 (?f 0 c 2 R)) =
      ?set LIdle (LMask d) (R\<lparr>r_fifo := replicate 15 c @ [c], r_issued := replicate 15 c @ [c]\<rparr>)"
    unfolding f2 by (simp add: line_starts R_def raster_idle_def set_line_pc_def fun_eq_iff)
  have f4: "race 0 c 1 d R = ?set LIdle LIdle (R\<lparr>r_clip := lc_clip d, r_fifo := replicate 15 c @ [c], r_issued := replicate 15 c @ [c, d]\<rparr>)"
    unfolding race_def f3 by (simp add: line_starts R_def raster_idle_def set_line_pc_def fun_eq_iff)
  have m: "r_masked R = None" "r_masked (?f 0 c 2 R) = None" "r_masked (?f 1 d 2 (?f 0 c 2 R)) = None"
      "r_masked (?f 0 c 4 (?f 1 d 2 (?f 0 c 2 R))) = None"
    unfolding f3 unfolding f2 unfolding f1 by (simp_all add: R_def raster_idle_def set_line_pc_def)
  have full: "replicate 15 c @ [c] = replicate 16 c" by (simp add: eval_nat_numeral)
  have "raster_step\<^sup>*\<^sup>* raster_idle R" unfolding r [symmetric] by (rule line_turns_steps) simp
  also have "raster_step\<^sup>*\<^sup>* R (?f 0 c 2 R)" using line_process_steps [of R 0] m(1) by blast
  also have "raster_step\<^sup>*\<^sup>* (?f 0 c 2 R) (?f 1 d 2 (?f 0 c 2 R))" using line_process_steps [of "?f 0 c 2 R" 1] m(2) by blast
  also have "raster_step\<^sup>*\<^sup>* (?f 1 d 2 (?f 0 c 2 R)) (?f 0 c 4 (?f 1 d 2 (?f 0 c 2 R)))"
    using line_process_steps [of "?f 1 d 2 (?f 0 c 2 R)" 0] m(3) by blast
  also have "raster_step\<^sup>*\<^sup>* (?f 0 c 4 (?f 1 d 2 (?f 0 c 2 R))) (race 0 c 1 d R)"
    unfolding race_def using line_process_steps [of "?f 0 c 4 (?f 1 d 2 (?f 0 c 2 R))" 1] m(4) by blast
  finally have reach: "raster_step\<^sup>*\<^sup>* raster_idle (race 0 c 1 d R)" .
  have "r_issued (race 0 c 1 d R) = replicate 16 c @ [d]" "r_fifo (race 0 c 1 d R) = replicate 16 c" "r_drawn (race 0 c 1 d R) = []"
    unfolding f4 full [symmetric] by (simp_all add: R_def raster_idle_def set_line_pc_def)
  moreover have "r_drawn (line_draw (line_turn 1 d (line_turn 0 c raster_idle))) = [(c, lc_clip d)]"
    by (simp add: line_turn_eq raster_idle_def line_draw_def)
  ultimately show ?thesis unfolding r using reach by blast
qed

section \<open>Witnesses\<close>

definition dot_font :: z_font where
  "dot_font = \<lparr>ft_w = 5, ft_h = 1, ft_first = 32, ft_last = 33, ft_glyphs = [0, 0x80]\<rparr>"

theorem hw_text_same_witness:
  "hw_draw_text2 (z_gfx_hw_font_load dot_font (\<lambda>_. 0)) 630 2 [33, 10, 32, 33, 33] True False dot_font None (\<lambda>_. 0) =
   z_fb_draw_text2 630 2 [33, 10, 32, 33, 33] True False dot_font None (\<lambda>_. 0)"
  by (rule hw_text_same [OF font_load_loads]) (simp_all add: dot_font_def glyph_bytes_def)

lemma acquire_writes:
  "ws \<noteq> [] \<Longrightarrow> g_pc g p = BWrite ws c \<Longrightarrow> g_issued ((gpu_blit_acquire p e ^^ length ws) g) = g_issued g @ [c]"
proof (induction ws arbitrary: g)
  case (Cons w ws)
  let ?g = "gpu_blit_acquire p e g"
  show ?case
  proof (cases "ws = []")
    case True
    then show ?thesis using Cons.prems by (simp add: gpu_blit_acquire_def Let_def)
  next
    case False
    then have "g_pc ?g p = BWrite ws c" "g_issued ?g = g_issued g" using Cons.prems by (simp_all add: gpu_blit_acquire_def Let_def)
    with Cons.IH [OF False, of ?g] show ?thesis by (simp add: funpow_swap1)
  qed
qed simp

lemma acquire_issues:
  assumes "g_pc g p = BIdle" "\<not> g_busy g"
  shows "g_issued ((gpu_blit_acquire p c ^^ (length (blit_writes c) + 4)) g) = g_issued g @ [c]"
proof -
  let ?g = "(gpu_blit_acquire p c ^^ 4) g"
  have "g_pc ?g p = BWrite (blit_writes c) c" "g_issued ?g = g_issued g" using assms by (simp_all add: eval_nat_numeral gpu_blit_acquire_def)
  moreover have "blit_writes c \<noteq> []" by (cases c) auto
  ultimately show ?thesis using acquire_writes [of "blit_writes c" ?g p c c] by (simp add: funpow_add)
qed

lemma acquire_steps:
  assumes "g_masked g = None \<or> g_masked g = Some p"
  shows "gpu_step\<^sup>*\<^sup>* g ((gpu_blit_acquire p c ^^ n) g) \<and>
    (g_masked ((gpu_blit_acquire p c ^^ n) g) = None \<or> g_masked ((gpu_blit_acquire p c ^^ n) g) = Some p)"
proof (induction n)
  case 0
  then show ?case using assms by simp
next
  case (Suc n)
  let ?g = "(gpu_blit_acquire p c ^^ n) g"
  have "gpu_step ?g (gpu_blit_acquire p c ?g)" by (rule gpu_step.process) (rule Suc [THEN conjunct2])
  from rtranclp.rtrancl_into_rtrancl [OF Suc [THEN conjunct1] this] acquire_masked [OF Suc [THEN conjunct2], of c]
  show ?case by simp
qed


end
