(* ===== verification/Msgwait.thy ===== *)
theory Msgwait
  imports Msg
begin

text \<open>
  The blocking waits of the kernel side (\<open>src/sw/os/msg.c\<close>): a loop over \<open>k_msg_read\<close> until a message with the right subject and tag comes,
  throwing all others away. Between two reads the other processes run: a turn is the clock the loop sees and what they send before the read.
\<close>

type_synonym turns = "(u32 \<times> (u32 \<times> z_msg) list) list"

definition arrive :: "z_proc list \<Rightarrow> (u32 \<times> z_msg) list \<Rightarrow> z_mailbox list \<Rightarrow> z_mailbox list" where
  "arrive procs = fold (\<lambda>(pid, msg) mbs. snd (k_msg_send procs pid msg mbs))"

definition wanted :: "u32 \<Rightarrow> u32 \<Rightarrow> u32 \<Rightarrow> z_msg \<Rightarrow> bool" where
  "wanted rv subject tag msg \<longleftrightarrow> rv = Z_OK \<and> m_subject msg = subject \<and> m_tag msg = tag"

fun z_msg_wait ::
  "z_proc list \<Rightarrow> (u32 \<Rightarrow> u32) \<Rightarrow> u32 \<Rightarrow> u32 \<Rightarrow> u32 \<Rightarrow> u32 \<Rightarrow> turns \<Rightarrow> z_msg \<Rightarrow> z_mailbox list \<Rightarrow>
   (resolve_fault + u32 \<times> z_msg \<times> z_mailbox list) option" where
  "z_msg_wait procs mem z_pid m subject tag [] msg mbs = None"
| "z_msg_wait procs mem z_pid m subject tag ((now, sends) # ts) msg mbs =
     (case k_msg_read procs mem z_pid m msg (arrive procs sends mbs) of
        Inl f \<Rightarrow> Some (Inl f)
      | Inr (rv, msg, mbs) \<Rightarrow>
          if wanted rv subject tag msg then Some (Inr (Z_OK, msg, mbs)) else z_msg_wait procs mem z_pid m subject tag ts msg mbs)"

fun wait_until ::
  "z_proc list \<Rightarrow> (u32 \<Rightarrow> u32) \<Rightarrow> u32 \<Rightarrow> u32 \<Rightarrow> u32 \<Rightarrow> u32 \<Rightarrow> u32 \<Rightarrow> u32 \<Rightarrow> turns \<Rightarrow> z_msg \<Rightarrow> z_mailbox list \<Rightarrow>
   (resolve_fault + u32 \<times> z_msg \<times> z_mailbox list) option" where
  "wait_until procs mem z_pid m subject tag start timeout_ticks [] msg mbs = None"
| "wait_until procs mem z_pid m subject tag start timeout_ticks ((now, sends) # ts) msg mbs =
     (if now - start < timeout_ticks then
        (case k_msg_read procs mem z_pid m msg (arrive procs sends mbs) of
           Inl f \<Rightarrow> Some (Inl f)
         | Inr (rv, msg, mbs) \<Rightarrow>
             if wanted rv subject tag msg then Some (Inr (Z_OK, msg, mbs))
             else wait_until procs mem z_pid m subject tag start timeout_ticks ts msg mbs)
      else Some (Inr (Z_FAIL, msg, mbs)))"

definition z_msg_wait_timeout ::
  "z_proc list \<Rightarrow> (u32 \<Rightarrow> u32) \<Rightarrow> u32 \<Rightarrow> u32 \<Rightarrow> u32 \<Rightarrow> u32 \<Rightarrow> u32 \<Rightarrow> u32 \<Rightarrow> turns \<Rightarrow> z_msg \<Rightarrow> z_mailbox list \<Rightarrow>
   (resolve_fault + u32 \<times> z_msg \<times> z_mailbox list) option" where
  "z_msg_wait_timeout procs mem z_pid m subject tag timeout_ticks start ts msg mbs =
     wait_until procs mem z_pid m subject tag start timeout_ticks ts msg mbs"

text \<open>Until the time is up both waits do the same; the first late turn ends the bounded one.\<close>

lemma wait_until_prefix:
  assumes "\<forall>t\<in>set ts. fst t - start < timeout_ticks"
  shows "wait_until procs mem z_pid m subject tag start timeout_ticks ts msg mbs = z_msg_wait procs mem z_pid m subject tag ts msg mbs"
  using assms by (induction ts arbitrary: msg mbs) (auto split: sum.splits)

lemma wait_until_late:
  assumes "\<forall>t\<in>set ts. fst t - start < timeout_ticks" "\<not> now - start < timeout_ticks"
    and "z_msg_wait procs mem z_pid m subject tag ts msg mbs = None"
  obtains msg' mbs' where
    "z_msg_wait_timeout procs mem z_pid m subject tag timeout_ticks start (ts @ (now, sends) # ts') msg mbs = Some (Inr (Z_FAIL, msg', mbs'))"
  using assms
proof (induction ts arbitrary: msg mbs thesis)
  case Nil
  then show ?case by (simp add: z_msg_wait_timeout_def)
next
  case (Cons t ts)
  obtain n sends' where t: "t = (n, sends')" by (cases t)
  show ?case
  proof (cases "k_msg_read procs mem z_pid m msg (arrive procs sends' mbs)")
    case (Inl f)
    then show ?thesis using Cons.prems t by simp
  next
    case (Inr r)
    then show ?thesis using Cons.prems Cons.IH [of "fst (snd r)" "snd (snd r)"] t
      by (cases r) (auto simp: z_msg_wait_timeout_def split: if_splits)
  qed
qed

end
