(* ===== verification/Wm.thy ===== *)
theory Wm
  imports Gfx Line
begin

text \<open>
  The window manager (\<open>src/sw/apps/wm/wm.c\<close>): the window table with its stacking order and focus, hit testing, dragging, the keyboard
  shortcuts, the dock, and the targeted repair of the screen, which waits for each application to redraw and serves the messages that
  come in meanwhile. What is drawn and sent is a list in the state; the messages the window manager will read, and the processes it will
  start, are lists in the state too.
\<close>

section \<open>State\<close>

abbreviation WM_MAX_WINDOWS :: nat where "WM_MAX_WINDOWS \<equiv> 16"
abbreviation WM_SCREEN_W :: int where "WM_SCREEN_W \<equiv> 640"
abbreviation WM_SCREEN_H :: int where "WM_SCREEN_H \<equiv> 480"
abbreviation WM_TITLE_MAX :: nat where "WM_TITLE_MAX \<equiv> 24"
abbreviation Z_WM_TITLEBAR_H :: int where "Z_WM_TITLEBAR_H \<equiv> 11"
abbreviation DOCK_APP_COUNT :: nat where "DOCK_APP_COUNT \<equiv> 2"
abbreviation DOCK_ICON_SIZE :: int where "DOCK_ICON_SIZE \<equiv> 32"
abbreviation DOCK_ICON_GAP :: int where "DOCK_ICON_GAP \<equiv> 4"
abbreviation DOCK_PADDING :: int where "DOCK_PADDING \<equiv> 4"
abbreviation DOCK_MARGIN :: int where "DOCK_MARGIN \<equiv> 8"
abbreviation DOCK_LAUNCH_TIMEOUT_ITERS :: u32 where "DOCK_LAUNCH_TIMEOUT_ITERS \<equiv> 5000"
abbreviation REDRAW_ACK_TIMEOUT :: nat where "REDRAW_ACK_TIMEOUT \<equiv> 500"
abbreviation WM_KEY_MOVE_STEP :: int where "WM_KEY_MOVE_STEP \<equiv> 10"
abbreviation Z_WM_CREATE_WINDOW :: u32 where "Z_WM_CREATE_WINDOW \<equiv> 100"
abbreviation Z_WM_WINDOW_CREATED :: u32 where "Z_WM_WINDOW_CREATED \<equiv> 101"
abbreviation Z_WM_DESTROY_WINDOW :: u32 where "Z_WM_DESTROY_WINDOW \<equiv> 102"
abbreviation Z_WM_WINDOW_MOVED :: u32 where "Z_WM_WINDOW_MOVED \<equiv> 103"
abbreviation Z_WM_REDRAW :: u32 where "Z_WM_REDRAW \<equiv> 104"
abbreviation Z_WM_REDRAW_DONE :: u32 where "Z_WM_REDRAW_DONE \<equiv> 105"
abbreviation Z_WM_KEY :: u32 where "Z_WM_KEY \<equiv> 106"
abbreviation Z_WM_CLOSE :: u32 where "Z_WM_CLOSE \<equiv> 107"
abbreviation Z_WIN_FLAG_CLOSE_ICON :: u32 where "Z_WIN_FLAG_CLOSE_ICON \<equiv> 1"
abbreviation Z_WIN_FLAG_CLOSE_KILLS_OWNER :: u32 where "Z_WIN_FLAG_CLOSE_KILLS_OWNER \<equiv> 2"
abbreviation Z_KBD_MOD_ALT :: u8 where "Z_KBD_MOD_ALT \<equiv> 0x44"
abbreviation Z_KEY_UP :: u32 where "Z_KEY_UP \<equiv> 0x100"
abbreviation Z_KEY_DOWN :: u32 where "Z_KEY_DOWN \<equiv> 0x101"
abbreviation Z_KEY_LEFT :: u32 where "Z_KEY_LEFT \<equiv> 0x102"
abbreviation Z_KEY_RIGHT :: u32 where "Z_KEY_RIGHT \<equiv> 0x103"

record wm_window =
  ww_used :: bool
  ww_owner_pid :: u32
  ww_x :: u32
  ww_y :: u32
  ww_w :: u32
  ww_h :: u32
  ww_title :: string
  ww_no_titlebar :: bool
  ww_flags :: u32

text \<open>A message as the window manager reads it: of a map it only looks up keys, and of a value only the type it expects.\<close>

datatype wm_val = WmUint u32 | WmStr "string option" | WmOther

datatype wm_obj = WmVal wm_val | WmMap "string \<Rightarrow> wm_val option"

record wm_msg =
  wx_from :: u32
  wx_subject :: u32
  wx_tag :: u32
  wx_obj :: wm_obj

datatype wm_out =
    OutFill int int int int bool
  | OutLine line_call
  | OutText int int string z_clip
  | OutIcon int int
  | OutBitmap int int nat bool
  | OutUint u32 u32 u32 u32
  | OutRect u32 u32 u32 "(nat \<times> u32 \<times> u32 \<times> u32 \<times> u32) option"
  | OutRun nat
  | OutKill u32

text \<open>
  The stacking order lists slots of the table from back to front. Minus one is \<open>None\<close>. A read of the table at minus one, which the code
  does not guard against, sets \<open>wm_bad\<close>. \<open>wm_inbox\<close> holds what the coming reads give: \<open>None\<close> is an empty mailbox at that moment, and
  when the list is used up the mailbox stays empty. \<open>wm_cut\<close> would be set if the nesting of handlers exceeded its bound.
\<close>

record wm =
  wm_windows :: "wm_window list"
  wm_zorder :: "nat list"
  wm_focused :: "nat option"
  wm_dragging :: "nat option"
  wm_off_x :: int
  wm_off_y :: int
  wm_min_x :: int
  wm_min_y :: int
  wm_max_x :: int
  wm_max_y :: int
  wm_dock :: "nat option"
  wm_dock_selected :: "nat option"
  wm_launching :: "bool list"
  wm_launching_pid :: "u32 list"
  wm_launching_ticks :: "u32 list"
  wm_my_pid :: u32
  wm_last_btn :: u32
  wm_inbox :: "wm_msg option list"
  wm_runs :: "u32 list"
  wm_out :: "wm_out list"
  wm_bad :: bool
  wm_cut :: bool

definition win :: "wm \<Rightarrow> nat \<Rightarrow> wm_window" where "win s i = wm_windows s ! i"

definition emit :: "wm_out list \<Rightarrow> wm \<Rightarrow> wm" where "emit os s = s\<lparr>wm_out := wm_out s @ os\<rparr>"

definition upd_win :: "nat \<Rightarrow> (wm_window \<Rightarrow> wm_window) \<Rightarrow> wm \<Rightarrow> wm" where
  "upd_win i f s = s\<lparr>wm_windows := upd_nth i f (wm_windows s)\<rparr>"

section \<open>Messages out\<close>

definition Z_WM_PACK_XY :: "nat \<Rightarrow> u32 \<Rightarrow> u32 \<Rightarrow> u32" where
  "Z_WM_PACK_XY idx x y = push_bit 20 (of_nat idx AND 0xFF) OR push_bit 10 (x AND 0x3FF) OR (y AND 0x3FF)"

definition Z_WM_PACK_KEY :: "u32 \<Rightarrow> u8 \<Rightarrow> bool \<Rightarrow> u32" where
  "Z_WM_PACK_KEY keysym modifiers pressed =
     push_bit 9 (keysym AND 0x7FFF) OR push_bit 1 (ucast modifiers AND 0xFF) OR (if pressed then 1 else 0)"

definition send_redraw :: "u32 \<Rightarrow> nat \<Rightarrow> wm \<Rightarrow> wm" where
  "send_redraw to idx s = emit [OutUint to Z_WM_REDRAW 0 (Z_WM_PACK_XY idx (ww_x (win s idx)) (ww_y (win s idx)))] s"

definition send_win_rect :: "u32 \<Rightarrow> u32 \<Rightarrow> u32 \<Rightarrow> nat option \<Rightarrow> wm \<Rightarrow> wm" where
  "send_win_rect to subject tag idx s =
     emit [OutRect to subject tag (map_option (\<lambda>i. (i, ww_x (win s i), ww_y (win s i), ww_w (win s i), ww_h (win s i))) idx)] s"

definition notify_moved :: "nat \<Rightarrow> wm \<Rightarrow> wm" where
  "notify_moved idx s =
     (if ww_owner_pid (win s idx) = wm_my_pid s then s
      else send_win_rect (ww_owner_pid (win s idx)) Z_WM_WINDOW_MOVED 0 (Some idx) s)"

section \<open>Drawing\<close>

text \<open>The edges of a window as the code computes them: unsigned, then read as signed.\<close>

definition win_x1 :: "wm_window \<Rightarrow> int" where "win_x1 w = sint (ww_x w + ww_w w - 1)"
definition win_y1 :: "wm_window \<Rightarrow> int" where "win_y1 w = sint (ww_y w + ww_h w - 1)"

definition draw_window_box :: "wm_window \<Rightarrow> bool \<Rightarrow> bool \<Rightarrow> wm_out list" where
  "draw_window_box w is_focused color =
     (let x0 = sint (ww_x w); y0 = sint (ww_y w); x1 = win_x1 w; y1 = win_y1 w; ty = sint (ww_y w + of_int Z_WM_TITLEBAR_H) in
      map OutLine (z_fb_hw_box x0 y0 x1 y1 color None) @
      (if \<not> ww_no_titlebar w then [OutLine (z_fb_hw_line x0 ty x1 ty color None)] else []) @
      (if is_focused then
         let fx0 = (if x0 - 1 < 0 then 0 else x0 - 1); fy0 = (if y0 - 1 < 0 then 0 else y0 - 1);
             fx1 = (if x1 + 1 \<ge> WM_SCREEN_W then WM_SCREEN_W - 1 else x1 + 1);
             fy1 = (if y1 + 1 \<ge> WM_SCREEN_H then WM_SCREEN_H - 1 else y1 + 1) in
         map OutLine (z_fb_hw_box fx0 fy0 fx1 fy1 color None)
       else []))"

definition titlebar_content_y :: "wm_window \<Rightarrow> int \<Rightarrow> int" where
  "titlebar_content_y w h = sint (ww_y w) + 1 + (Z_WM_TITLEBAR_H - 1 - h) div 2"

definition close_icon_rect :: "wm_window \<Rightarrow> int \<times> int" where
  "close_icon_rect w = (win_x1 w - 2 - Z_ICON_W + 1, titlebar_content_y w Z_ICON_H)"

definition draw_titlebar_content :: "wm_window \<Rightarrow> wm_out list" where
  "draw_titlebar_content w =
     (if ww_no_titlebar w then []
      else
        let x0 = sint (ww_x w); y0 = sint (ww_y w); x1 = win_x1 w;
            has_close = (ww_flags w AND Z_WIN_FLAG_CLOSE_ICON \<noteq> 0);
            (close_x, close_y) = (if has_close then close_icon_rect w else (0, 0));
            clip = \<lparr>cl_x0 = x0 + 3, cl_y0 = y0, cl_x1 = (if has_close then close_x - 3 - 1 else x1), cl_y1 = y0 + Z_WM_TITLEBAR_H - 1\<rparr> in
        (if ww_title w \<noteq> [] \<and> cl_x1 clip \<ge> cl_x0 clip then [OutText (x0 + 3) (titlebar_content_y w 8) (ww_title w) clip] else []) @
        (if has_close then [OutIcon close_x close_y] else []))"

definition draw_dock_slot :: "wm \<Rightarrow> nat \<Rightarrow> nat \<Rightarrow> wm_out list" where
  "draw_dock_slot s d i =
     (let ix = sint (ww_x (win s d)) + DOCK_PADDING + int i * (DOCK_ICON_SIZE + DOCK_ICON_GAP); iy = sint (ww_y (win s d)) + DOCK_PADDING in
      (if wm_focused s = Some d \<and> wm_dock_selected s = Some i
       then map OutLine (z_fb_hw_box (ix - 1) (iy - 1) (ix + DOCK_ICON_SIZE) (iy + DOCK_ICON_SIZE) True None) else []) @
      map OutLine (z_fb_hw_box ix iy (ix + DOCK_ICON_SIZE - 1) (iy + DOCK_ICON_SIZE - 1) True None) @
      (if wm_launching s ! i then [OutFill ix iy DOCK_ICON_SIZE DOCK_ICON_SIZE True, OutBitmap ix iy i True] else [OutBitmap ix iy i False]))"

definition draw_dock :: "wm \<Rightarrow> wm_out list" where
  "draw_dock s = (case wm_dock s of None \<Rightarrow> [] | Some d \<Rightarrow> concat (map (draw_dock_slot s d) [0..<DOCK_APP_COUNT]))"

definition rects_overlap :: "int \<Rightarrow> int \<Rightarrow> int \<Rightarrow> int \<Rightarrow> int \<Rightarrow> int \<Rightarrow> int \<Rightarrow> int \<Rightarrow> bool" where
  "rects_overlap ax ay aw ah bx by' bw bh \<longleftrightarrow> \<not> (ax + aw \<le> bx \<or> bx + bw \<le> ax \<or> ay + ah \<le> by' \<or> by' + bh \<le> ay)"

text \<open>\<open>fill_rect\<close> is the hardware fill.\<close>

definition fill_rect :: "int \<Rightarrow> int \<Rightarrow> int \<Rightarrow> int \<Rightarrow> bool \<Rightarrow> wm \<Rightarrow> wm" where
  "fill_rect x y w h color = emit [OutFill x y w h color]"

section \<open>Repairing the screen\<close>

text \<open>
  While it waits for an acknowledgement the window manager handles every other message, which may repair other regions and wait again:
  these operations are given the message handler \<open>H\<close>.
\<close>

primrec drain_for :: "(wm_msg \<Rightarrow> wm \<Rightarrow> wm) \<Rightarrow> u32 \<Rightarrow> nat \<Rightarrow> bool \<Rightarrow> wm \<Rightarrow> bool \<times> wm" where
  "drain_for H pid 0 got s = (got, s)"
| "drain_for H pid (Suc n) got s =
     (case wm_inbox s of
        [] \<Rightarrow> (got, s)
      | None # ms \<Rightarrow> (got, s\<lparr>wm_inbox := ms\<rparr>)
      | Some m # ms \<Rightarrow>
          if wx_subject m = Z_WM_REDRAW_DONE \<and> wx_from m = pid then drain_for H pid n True (s\<lparr>wm_inbox := ms\<rparr>)
          else drain_for H pid n got (H m (s\<lparr>wm_inbox := ms\<rparr>)))"

primrec wait_polls :: "(wm_msg \<Rightarrow> wm \<Rightarrow> wm) \<Rightarrow> u32 \<Rightarrow> nat \<Rightarrow> wm \<Rightarrow> wm" where
  "wait_polls H pid 0 s = s"
| "wait_polls H pid (Suc n) s =
     (case drain_for H pid (length (wm_inbox s)) False s of (got, s) \<Rightarrow> if got then s else wait_polls H pid n s)"

definition wait_for_redraw_done :: "(wm_msg \<Rightarrow> wm \<Rightarrow> wm) \<Rightarrow> u32 \<Rightarrow> wm \<Rightarrow> wm" where
  "wait_for_redraw_done H pid = wait_polls H pid REDRAW_ACK_TIMEOUT"

definition repair_window :: "(wm_msg \<Rightarrow> wm \<Rightarrow> wm) \<Rightarrow> int \<times> int \<times> int \<times> int \<Rightarrow> nat option \<Rightarrow> nat \<Rightarrow> wm \<Rightarrow> wm" where
  "repair_window H r exclude idx s =
     (case r of (rx, ry, rw, rh) \<Rightarrow>
      let w = win s idx in
      if \<not> rects_overlap rx ry rw rh (sint (ww_x w)) (sint (ww_y w)) (sint (ww_w w)) (sint (ww_h w)) then s
      else
        let s = emit (draw_window_box w (wm_focused s = Some idx) True @ draw_titlebar_content w @
                      (if wm_dock s = Some idx then draw_dock s else [])) s in
        if ww_owner_pid w = wm_my_pid s then s
        else if exclude = Some idx then s
        else wait_for_redraw_done H (ww_owner_pid w) (send_redraw (ww_owner_pid w) idx s))"

text \<open>The loop runs over the stacking order as it is at each turn; \<open>n\<close> turns are left before the size of the table is reached.\<close>

primrec repair_from :: "(wm_msg \<Rightarrow> wm \<Rightarrow> wm) \<Rightarrow> int \<times> int \<times> int \<times> int \<Rightarrow> nat option \<Rightarrow> nat \<Rightarrow> wm \<Rightarrow> wm" where
  "repair_from H r exclude 0 s = s"
| "repair_from H r exclude (Suc n) s =
     (let i = WM_MAX_WINDOWS - Suc n in
      if i < length (wm_zorder s) then repair_from H r exclude n (repair_window H r exclude (wm_zorder s ! i) s) else s)"

definition repair_box :: "int \<Rightarrow> int \<Rightarrow> int \<Rightarrow> int \<Rightarrow> int \<times> int \<times> int \<times> int" where
  "repair_box rx ry rw rh =
     (let rx = rx - 1; ry = ry - 1; rw = rw + 2; rh = rh + 2;
          (rw, rx) = (if rx < 0 then (rw + rx, 0) else (rw, rx));
          (rh, ry) = (if ry < 0 then (rh + ry, 0) else (rh, ry));
          rw = (if rx + rw > WM_SCREEN_W then WM_SCREEN_W - rx else rw);
          rh = (if ry + rh > WM_SCREEN_H then WM_SCREEN_H - ry else rh) in (rx, ry, rw, rh))"

definition repair_region :: "(wm_msg \<Rightarrow> wm \<Rightarrow> wm) \<Rightarrow> int \<Rightarrow> int \<Rightarrow> int \<Rightarrow> int \<Rightarrow> nat option \<Rightarrow> wm \<Rightarrow> wm" where
  "repair_region H rx ry rw rh exclude s =
     (case repair_box rx ry rw rh of (rx, ry, rw, rh) \<Rightarrow>
        repair_from H (rx, ry, rw, rh) exclude WM_MAX_WINDOWS (fill_rect rx ry rw rh False s))"

text \<open>The region of a window, and of the dock when there is one.\<close>

definition repair_win :: "(wm_msg \<Rightarrow> wm \<Rightarrow> wm) \<Rightarrow> nat \<Rightarrow> nat option \<Rightarrow> wm \<Rightarrow> wm" where
  "repair_win H idx exclude s =
     repair_region H (sint (ww_x (win s idx))) (sint (ww_y (win s idx))) (sint (ww_w (win s idx))) (sint (ww_h (win s idx))) exclude s"

definition repair_dock :: "(wm_msg \<Rightarrow> wm \<Rightarrow> wm) \<Rightarrow> wm \<Rightarrow> wm" where
  "repair_dock H s = (case wm_dock s of None \<Rightarrow> s | Some d \<Rightarrow> repair_win H d None s)"

section \<open>Window table\<close>

definition wm_find :: "nat \<Rightarrow> nat list \<Rightarrow> nat option" where
  "wm_find idx zorder = List.find (\<lambda>i. zorder ! i = idx) [0..<length zorder]"

definition bring_to_front :: "nat \<Rightarrow> wm \<Rightarrow> bool \<times> wm" where
  "bring_to_front idx s =
     (case wm_find idx (wm_zorder s) of
        None \<Rightarrow> (False, s)
      | Some found \<Rightarrow>
          if found = length (wm_zorder s) - 1 then (False, s)
          else (True, s\<lparr>wm_zorder := take found (wm_zorder s) @ drop (Suc found) (wm_zorder s) @ [idx]\<rparr>))"

definition dock_to_front :: "wm \<Rightarrow> wm" where
  "dock_to_front s = (case wm_dock s of None \<Rightarrow> s | Some d \<Rightarrow> snd (bring_to_front d s))"

text \<open>The position is fixed when neither coordinate is negative, else the next place of the cascade.\<close>

definition create_window :: "u32 \<Rightarrow> string \<Rightarrow> u32 \<Rightarrow> u32 \<Rightarrow> int \<Rightarrow> int \<Rightarrow> u32 \<Rightarrow> wm \<Rightarrow> nat option \<times> wm" where
  "create_window owner_pid title w h fixed_x fixed_y flags s =
     (case List.find (\<lambda>i. \<not> ww_used (win s i)) [0..<WM_MAX_WINDOWS] of
        None \<Rightarrow> (None, s)
      | Some i \<Rightarrow>
          let n = of_nat (length (wm_zorder s)) :: u32;
              (x, y) = (if fixed_x \<ge> 0 \<and> fixed_y \<ge> 0 then (of_int fixed_x, of_int fixed_y) else (20 + (n mod 8) * 24, 20 + (n mod 8) * 20)) in
          (Some i,
           (upd_win i (\<lambda>_. \<lparr>ww_used = True, ww_owner_pid = owner_pid, ww_x = x, ww_y = y, ww_w = w, ww_h = h,
              ww_title = take (WM_TITLE_MAX - 1) title, ww_no_titlebar = False, ww_flags = flags\<rparr>) s)
           \<lparr>wm_zorder := wm_zorder s @ [i]\<rparr>))"

definition create_dock :: "wm \<Rightarrow> nat option \<times> wm" where
  "create_dock s =
     (let w = DOCK_PADDING * 2 + int DOCK_APP_COUNT * DOCK_ICON_SIZE + (int DOCK_APP_COUNT - 1) * DOCK_ICON_GAP;
          h = DOCK_PADDING * 2 + DOCK_ICON_SIZE in
      case create_window (wm_my_pid s) ''Dock'' (of_int w) (of_int h) DOCK_MARGIN (WM_SCREEN_H - h - DOCK_MARGIN) 0 s of
        (None, s) \<Rightarrow> (None, s)
      | (Some idx, s) \<Rightarrow> (Some idx, upd_win idx (\<lambda>w. w\<lparr>ww_no_titlebar := True\<rparr>) s))"

definition remove_window :: "nat \<Rightarrow> wm \<Rightarrow> wm" where
  "remove_window i s =
     (let s = upd_win i (\<lambda>w. w\<lparr>ww_used := False\<rparr>) s;
          s = (case wm_find i (wm_zorder s) of
                 None \<Rightarrow> s
               | Some found \<Rightarrow> s\<lparr>wm_zorder := take found (wm_zorder s) @ drop (Suc found) (wm_zorder s)\<rparr>);
          s = (if wm_focused s = Some i then s\<lparr>wm_focused := None\<rparr> else s) in
      if wm_dragging s = Some i then s\<lparr>wm_dragging := None\<rparr> else s)"

definition destroy_window :: "(wm_msg \<Rightarrow> wm \<Rightarrow> wm) \<Rightarrow> u32 \<Rightarrow> wm \<Rightarrow> wm" where
  "destroy_window H wid s =
     (if unat wid \<ge> WM_MAX_WINDOWS \<or> \<not> ww_used (win s (unat wid)) then s
      else
        let w = win s (unat wid) in
        repair_region H (sint (ww_x w)) (sint (ww_y w)) (sint (ww_w w)) (sint (ww_h w)) None (remove_window (unat wid) s))"

definition win_has :: "wm_window \<Rightarrow> int \<Rightarrow> int \<Rightarrow> bool" where
  "win_has w cx cy \<longleftrightarrow> cx \<ge> sint (ww_x w) \<and> cx \<le> win_x1 w \<and> cy \<ge> sint (ww_y w) \<and> cy \<le> win_y1 w"

definition hit_test :: "int \<Rightarrow> int \<Rightarrow> wm \<Rightarrow> nat option" where
  "hit_test cx cy s = List.find (\<lambda>idx. win_has (win s idx) cx cy) (rev (wm_zorder s))"

definition hit_titlebar :: "nat \<Rightarrow> int \<Rightarrow> wm \<Rightarrow> bool" where
  "hit_titlebar idx cy s \<longleftrightarrow> \<not> ww_no_titlebar (win s idx) \<and> cy < sint (ww_y (win s idx) + of_int Z_WM_TITLEBAR_H)"

definition hit_close_icon :: "nat \<Rightarrow> int \<Rightarrow> int \<Rightarrow> wm \<Rightarrow> bool" where
  "hit_close_icon idx cx cy s \<longleftrightarrow>
     \<not> ww_no_titlebar (win s idx) \<and> ww_flags (win s idx) AND Z_WIN_FLAG_CLOSE_ICON \<noteq> 0 \<and>
     (case close_icon_rect (win s idx) of (ix, iy) \<Rightarrow> cx \<ge> ix \<and> cx < ix + Z_ICON_W \<and> cy \<ge> iy \<and> cy < iy + Z_ICON_H)"

section \<open>Messages in\<close>

definition z_map_lookup :: "wm_obj \<Rightarrow> string \<Rightarrow> wm_val option" where
  "z_map_lookup obj key = (case obj of WmMap m \<Rightarrow> m key | WmVal v \<Rightarrow> None)"

definition uint_field :: "wm_obj \<Rightarrow> string \<Rightarrow> u32 option" where
  "uint_field obj key = (case z_map_lookup obj key of Some (WmUint u) \<Rightarrow> Some u | _ \<Rightarrow> None)"

definition str_field :: "wm_obj \<Rightarrow> string \<Rightarrow> string" where
  "str_field obj key = (case z_map_lookup obj key of Some (WmStr (Some t)) \<Rightarrow> take (WM_TITLE_MAX - 1) t | _ \<Rightarrow> [])"

text \<open>The first window of a process that the dock has launched ends the launch.\<close>

definition launch_done :: "(wm_msg \<Rightarrow> wm \<Rightarrow> wm) \<Rightarrow> u32 \<Rightarrow> wm \<Rightarrow> wm" where
  "launch_done H pid s =
     (case List.find (\<lambda>i. wm_launching s ! i \<and> wm_launching_pid s ! i = pid) [0..<DOCK_APP_COUNT] of
        None \<Rightarrow> s
      | Some i \<Rightarrow> repair_dock H (s\<lparr>wm_launching := (wm_launching s)[i := False]\<rparr>))"

text \<open>A new window goes behind the dock, and gets the focus when nothing has it.\<close>

definition place_window :: "nat option \<Rightarrow> wm \<Rightarrow> wm" where
  "place_window idx s =
     (let s = (if idx \<noteq> None \<and> wm_dock s \<noteq> None \<and> idx \<noteq> wm_dock s then dock_to_front s else s) in
      if idx \<noteq> None \<and> wm_focused s = None then s\<lparr>wm_focused := idx\<rparr> else s)"

definition create_request :: "wm_msg \<Rightarrow> wm \<Rightarrow> nat option \<times> wm" where
  "create_request m s =
     (let obj = wx_obj m;
          w = (case uint_field obj ''w'' of Some u \<Rightarrow> u | None \<Rightarrow> 140); h = (case uint_field obj ''h'' of Some u \<Rightarrow> u | None \<Rightarrow> 100);
          pos = (case (uint_field obj ''x'', uint_field obj ''y'') of (Some x, Some y) \<Rightarrow> (sint x, sint y) | _ \<Rightarrow> (-1, -1));
          flags = (case uint_field obj ''flags'' of Some u \<Rightarrow> u | None \<Rightarrow> 0);
          r = create_window (wx_from m) (str_field obj ''title'') w h (fst pos) (snd pos) flags s in
      (fst r, place_window (fst r) (snd r)))"

definition message_body :: "(wm_msg \<Rightarrow> wm \<Rightarrow> wm) \<Rightarrow> wm_msg \<Rightarrow> wm \<Rightarrow> wm" where
  "message_body H m s =
     (if wx_subject m = Z_WM_CREATE_WINDOW then
        (case create_request m (launch_done H (wx_from m) s) of (idx, s) \<Rightarrow>
           send_win_rect (wx_from m) Z_WM_WINDOW_CREATED (wx_tag m) idx (case idx of None \<Rightarrow> s | Some i \<Rightarrow> repair_win H i idx s))
      else if wx_subject m = Z_WM_DESTROY_WINDOW then
        (case wx_obj m of WmVal (WmUint u) \<Rightarrow> destroy_window H u s | _ \<Rightarrow> s)
      else s)"

text \<open>Handlers nest as deep as there are messages to read: each has taken one out of the inbox.\<close>

primrec handle_message :: "nat \<Rightarrow> wm_msg \<Rightarrow> wm \<Rightarrow> wm" where
  "handle_message 0 m s = s\<lparr>wm_cut := True\<rparr>"
| "handle_message (Suc n) m s = message_body (handle_message n) m s"

definition handler :: "wm \<Rightarrow> wm_msg \<Rightarrow> wm \<Rightarrow> wm" where "handler s = handle_message (Suc (length (wm_inbox s)))"

section \<open>Dock and keyboard\<close>

definition dock_launch :: "nat \<Rightarrow> wm \<Rightarrow> wm" where
  "dock_launch slot s =
     (if slot \<ge> DOCK_APP_COUNT then s
      else if wm_launching s ! slot then s
      else
        let s = s\<lparr>wm_launching := (wm_launching s)[slot := True], wm_launching_pid := (wm_launching_pid s)[slot := 0],
                   wm_launching_ticks := (wm_launching_ticks s)[slot := 0]\<rparr>;
            s = repair_dock (handler s) s;
            s = emit [OutRun slot] s;
            (pid, s) = (case wm_runs s of [] \<Rightarrow> (0, s) | p # ps \<Rightarrow> (p, s\<lparr>wm_runs := ps\<rparr>)) in
        if pid = 0 then
          (let s = s\<lparr>wm_launching := (wm_launching s)[slot := False]\<rparr> in repair_dock (handler s) s)
        else s\<lparr>wm_launching_pid := (wm_launching_pid s)[slot := pid]\<rparr>)"

definition dock_handle_key :: "u32 \<Rightarrow> bool \<Rightarrow> wm \<Rightarrow> bool \<times> wm" where
  "dock_handle_key keysym pressed s =
     (if wm_dock s = None then (False, s)
      else
        let prev = (keysym = Z_KEY_LEFT \<or> keysym = Z_KEY_UP); nxt = (keysym = Z_KEY_RIGHT \<or> keysym = Z_KEY_DOWN); activate = (keysym = 0x0D) in
        if \<not> prev \<and> \<not> nxt \<and> \<not> activate then (False, s)
        else if \<not> pressed then (True, s)
        else
          let sel = (case wm_dock_selected s of None \<Rightarrow> 0 | Some i \<Rightarrow> i); s = s\<lparr>wm_dock_selected := Some sel\<rparr> in
          if prev \<or> nxt then
            let sel' = (if prev then (if sel = 0 then DOCK_APP_COUNT - 1 else sel - 1) else (if sel = DOCK_APP_COUNT - 1 then 0 else sel + 1));
                s = s\<lparr>wm_dock_selected := Some sel'\<rparr> in
            (True, if sel' \<noteq> sel then repair_dock (handler s) s else s)
          else (True, dock_launch sel s))"

definition next_focusable :: "nat option \<Rightarrow> wm \<Rightarrow> nat option" where
  "next_focusable from s =
     (let start = (case from of None \<Rightarrow> 0 | Some f \<Rightarrow> (f + 1) mod WM_MAX_WINDOWS) in
      List.find (\<lambda>idx. ww_used (win s idx)) (map (\<lambda>i. (start + i) mod WM_MAX_WINDOWS) [0..<WM_MAX_WINDOWS]))"

text \<open>The table at the focus; without one, the place before the table.\<close>

definition repair_focused :: "wm \<Rightarrow> wm" where
  "repair_focused s = (case wm_focused s of None \<Rightarrow> s\<lparr>wm_bad := True\<rparr> | Some f \<Rightarrow> repair_win (handler s) f None s)"

definition alt_tab :: "wm \<Rightarrow> wm" where
  "alt_tab s =
     (case next_focusable (wm_focused s) s of
        None \<Rightarrow> s
      | Some nxt \<Rightarrow>
          if wm_focused s = Some nxt then s
          else
            let old_focused = wm_focused s; s = s\<lparr>wm_focused := Some nxt\<rparr>;
                s = (if wm_dock s = Some nxt \<and> wm_dock_selected s = None then s\<lparr>wm_dock_selected := Some 0\<rparr> else s);
                s = dock_to_front (snd (bring_to_front nxt s));
                s = (case old_focused of None \<Rightarrow> s | Some f \<Rightarrow> repair_win (handler s) f None s) in
            repair_focused s)"

section \<open>Moving\<close>

text \<open>The parts of the swept box that the window has left: up to four strips around where it is now.\<close>

definition drag_strips :: "int \<Rightarrow> int \<Rightarrow> int \<Rightarrow> int \<Rightarrow> int \<Rightarrow> int \<Rightarrow> int \<Rightarrow> int \<Rightarrow> (int \<times> int \<times> int \<times> int) list" where
  "drag_strips min_x min_y max_x max_y fx fy fw fh =
     (if min_y < fy then [(min_x, min_y, max_x - min_x, fy - min_y)] else []) @
     (if fy + fh < max_y then [(min_x, fy + fh, max_x - min_x, max_y - (fy + fh))] else []) @
     (if min_x < fx then [(min_x, fy, fx - min_x, fh)] else []) @
     (if fx + fw < max_x then [(fx + fw, fy, max_x - (fx + fw), fh)] else [])"

definition drag_left :: "nat \<Rightarrow> wm \<Rightarrow> (int \<times> int \<times> int \<times> int) list" where
  "drag_left idx s =
     (let w = win s idx in
      drag_strips (wm_min_x s) (wm_min_y s) (wm_max_x s) (wm_max_y s) (sint (ww_x w)) (sint (ww_y w)) (sint (ww_w w)) (sint (ww_h w)))"

text \<open>
  The tests and corners are computed before each repair: nested handlers move no window and do not touch the box, so they can be computed at
  the start. The owner is read at the end.
\<close>

definition repair_drag :: "nat \<Rightarrow> wm \<Rightarrow> wm" where
  "repair_drag idx s =
     (let s = fold (\<lambda>(x, y, w, h) s. repair_region (handler s) x y w h None s) (drag_left idx s) s in
      if ww_owner_pid (win s idx) \<noteq> wm_my_pid s
      then wait_for_redraw_done (handler s) (ww_owner_pid (win s idx)) (send_redraw (ww_owner_pid (win s idx)) idx s) else s)"

text \<open>A position moved back onto the screen: first from the left and top, then from the right and bottom.\<close>

definition clamp_move :: "int \<Rightarrow> int \<Rightarrow> int \<Rightarrow> int" where
  "clamp_move screen extent n = (let n = (if n < 0 then 0 else n) in if n + extent > screen then screen - extent else n)"

definition alt_move_focused :: "u32 \<Rightarrow> wm \<Rightarrow> wm" where
  "alt_move_focused keysym s =
     (case wm_focused s of
        None \<Rightarrow> s
      | Some f \<Rightarrow>
          if wm_dock s = Some f \<or> \<not> ww_used (win s f) then s
          else
            (case (if keysym = Z_KEY_LEFT then Some (- WM_KEY_MOVE_STEP, 0) else if keysym = Z_KEY_RIGHT then Some (WM_KEY_MOVE_STEP, 0)
                   else if keysym = Z_KEY_UP then Some (0, - WM_KEY_MOVE_STEP) else if keysym = Z_KEY_DOWN then Some (0, WM_KEY_MOVE_STEP)
                   else None) of
               None \<Rightarrow> s
             | Some (dx, dy) \<Rightarrow>
                 let w = win s f; ww = sint (ww_w w); wh = sint (ww_h w); old_x = sint (ww_x w); old_y = sint (ww_y w);
                     nx = clamp_move WM_SCREEN_W ww (old_x + dx); ny = clamp_move WM_SCREEN_H wh (old_y + dy) in
                 if of_int nx = ww_x w \<and> of_int ny = ww_y w then s
                 else
                   let s = upd_win f (\<lambda>w. w\<lparr>ww_x := of_int nx, ww_y := of_int ny\<rparr>) s;
                       s = s\<lparr>wm_min_x := min old_x nx, wm_min_y := min old_y ny, wm_max_x := max (old_x + ww) (nx + ww),
                             wm_max_y := max (old_y + wh) (ny + wh)\<rparr> in
                   repair_drag f (notify_moved f s)))"

text \<open>One key event; a call takes all that the kernel has.\<close>

definition dispatch_key :: "u32 \<Rightarrow> wm \<Rightarrow> wm" where
  "dispatch_key ev s =
     (let usage = ucast (drop_bit 1 ev AND 0xFF) :: u8; modifiers = ucast (drop_bit 9 ev AND 0xFF) :: u8; pressed = (ev AND 1 \<noteq> 0);
          keysym = z_kbd_usage_to_keysym usage modifiers in
      if keysym = Z_KEY_NONE then s
      else if modifiers AND Z_KBD_MOD_ALT \<noteq> 0 \<and> keysym = 0x09 then (if pressed then alt_tab s else s)
      else if modifiers AND Z_KBD_MOD_ALT \<noteq> 0 \<and> keysym \<in> {Z_KEY_LEFT, Z_KEY_RIGHT, Z_KEY_UP, Z_KEY_DOWN} then
        (if pressed then alt_move_focused keysym s else s)
      else
        case (if wm_focused s = wm_dock s then dock_handle_key keysym pressed s else (False, s)) of (consumed, s) \<Rightarrow>
          if consumed then s
          else case wm_focused s of
              None \<Rightarrow> s
            | Some f \<Rightarrow>
                if ww_owner_pid (win s f) = wm_my_pid s then s
                else emit [OutUint (ww_owner_pid (win s f)) Z_WM_KEY 0 (Z_WM_PACK_KEY keysym modifiers pressed)] s)"

definition dispatch_keys :: "u32 list \<Rightarrow> wm \<Rightarrow> wm" where "dispatch_keys = fold dispatch_key"

section \<open>Mouse\<close>

text \<open>The registers of both ports, as they are at one moment: the type of the device and the cursor.\<close>

record hid_regs =
  hr_info0 :: u32
  hr_info1 :: u32
  hr_cursor0 :: u32
  hr_cursor1 :: u32

definition mouse_port :: "hid_regs \<Rightarrow> nat" where
  "mouse_port r =
     (let typ0 = drop_bit 24 (hr_info0 r) AND 3; typ1 = drop_bit 24 (hr_info1 r) AND 3 in
      if typ0 = 2 then 0 else if typ1 = 2 then 1 else 0)"

definition hid_cursor :: "hid_regs \<Rightarrow> u32" where "hid_cursor r = (if mouse_port r = 0 then hr_cursor0 r else hr_cursor1 r)"

definition get_cursor_x :: "hid_regs \<Rightarrow> int" where "get_cursor_x r = uint (hid_cursor r AND 0x3FF)"
definition get_cursor_y :: "hid_regs \<Rightarrow> int" where "get_cursor_y r = uint (drop_bit 10 (hid_cursor r) AND 0x3FF)"
definition get_mouse_btn :: "hid_regs \<Rightarrow> u32" where "get_mouse_btn r = drop_bit 20 (hid_cursor r) AND 0x0F"

definition handle_close_click :: "nat \<Rightarrow> wm \<Rightarrow> wm" where
  "handle_close_click idx s =
     (let owner = ww_owner_pid (win s idx); flags = ww_flags (win s idx) in
      if flags AND Z_WIN_FLAG_CLOSE_KILLS_OWNER \<noteq> 0 then
        let s = destroy_window (handler s) (of_nat idx) s in if owner \<noteq> wm_my_pid s then emit [OutKill owner] s else s
      else if owner \<noteq> wm_my_pid s then emit [OutUint owner Z_WM_CLOSE 0 (of_nat idx)] s else s)"

definition dock_click :: "nat \<Rightarrow> int \<Rightarrow> int \<Rightarrow> wm \<Rightarrow> wm" where
  "dock_click d cx cy s =
     (let local_x = cx - sint (ww_x (win s d)) - DOCK_PADDING; local_y = cy - sint (ww_y (win s d)) - DOCK_PADDING in
      if local_y < 0 \<or> local_y \<ge> DOCK_ICON_SIZE then s
      else if local_x < 0 then s
      else
        let stride = DOCK_ICON_SIZE + DOCK_ICON_GAP; slot = nat (local_x div stride); slot_x = local_x mod stride in
        if slot \<ge> DOCK_APP_COUNT then s
        else if slot_x \<ge> DOCK_ICON_SIZE then s
        else dock_launch slot s)"

definition start_drag :: "nat \<Rightarrow> int \<Rightarrow> int \<Rightarrow> wm \<Rightarrow> wm" where
  "start_drag hit cx cy s =
     (let w = win s hit in
      s\<lparr>wm_dragging := Some hit, wm_off_x := cx - sint (ww_x w), wm_off_y := cy - sint (ww_y w), wm_min_x := sint (ww_x w),
        wm_min_y := sint (ww_y w), wm_max_x := sint (ww_x w + ww_w w), wm_max_y := sint (ww_y w + ww_h w)\<rparr>)"

definition focus_click :: "nat \<Rightarrow> int \<Rightarrow> int \<Rightarrow> wm \<Rightarrow> wm" where
  "focus_click hit cx cy s =
     (let focus_changed = (wm_focused s \<noteq> Some hit); old_focused = wm_focused s;
          s = (if focus_changed then s\<lparr>wm_focused := Some hit\<rparr> else s);
          (reordered, s) = bring_to_front hit s;
          s = dock_to_front s;
          s = (case old_focused of Some f \<Rightarrow> if focus_changed then repair_win (handler s) f None s else s | None \<Rightarrow> s);
          s = (if focus_changed \<or> reordered then repair_win (handler s) hit None s else s) in
      if hit_titlebar hit cy s then start_drag hit cx cy s else s)"

definition click :: "int \<Rightarrow> int \<Rightarrow> wm \<Rightarrow> wm" where
  "click cx cy s =
     (case hit_test cx cy s of
        None \<Rightarrow> s
      | Some hit \<Rightarrow>
          if wm_dock s = Some hit then dock_click hit cx cy s
          else if hit_close_icon hit cx cy s then handle_close_click hit s
          else focus_click hit cx cy s)"

definition drag_to :: "nat \<Rightarrow> int \<Rightarrow> int \<Rightarrow> wm \<Rightarrow> wm" where
  "drag_to d cx cy s =
     (let w = win s d; ww = sint (ww_w w); wh = sint (ww_h w);
          nx = clamp_move WM_SCREEN_W ww (cx - wm_off_x s); ny = clamp_move WM_SCREEN_H wh (cy - wm_off_y s) in
      if of_int nx = ww_x w \<and> of_int ny = ww_y w then s
      else
        let s = emit (draw_window_box w (wm_focused s = Some d) False) s;
            s = upd_win d (\<lambda>w. w\<lparr>ww_x := of_int nx, ww_y := of_int ny\<rparr>) s;
            s = emit (draw_window_box (win s d) (wm_focused s = Some d) True) s in
        s\<lparr>wm_min_x := min nx (wm_min_x s), wm_min_y := min ny (wm_min_y s), wm_max_x := max (nx + ww) (wm_max_x s),
          wm_max_y := max (ny + wh) (wm_max_y s)\<rparr>)"

definition release_drag :: "nat \<Rightarrow> wm \<Rightarrow> wm" where
  "release_drag d s = (repair_drag d (notify_moved d s))\<lparr>wm_dragging := None\<rparr>"

definition mouse :: "int \<Rightarrow> int \<Rightarrow> u32 \<Rightarrow> wm \<Rightarrow> wm" where
  "mouse cx cy btn s =
     (let btn_down = (btn AND 1 \<noteq> 0); btn_was_down = (wm_last_btn s AND 1 \<noteq> 0);
          s = (if btn_down \<and> \<not> btn_was_down then click cx cy s else s);
          s = (case wm_dragging s of Some d \<Rightarrow> if btn_down then drag_to d cx cy s else s | None \<Rightarrow> s);
          s = (case wm_dragging s of Some d \<Rightarrow> if \<not> btn_down \<and> btn_was_down then release_drag d s else s | None \<Rightarrow> s) in
      s\<lparr>wm_last_btn := btn\<rparr>)"

section \<open>Main loop\<close>

primrec drain_all :: "nat \<Rightarrow> wm \<Rightarrow> wm" where
  "drain_all 0 s = s"
| "drain_all (Suc n) s =
     (case wm_inbox s of
        [] \<Rightarrow> s
      | None # ms \<Rightarrow> s\<lparr>wm_inbox := ms\<rparr>
      | Some m # ms \<Rightarrow> let s = s\<lparr>wm_inbox := ms\<rparr> in drain_all n (handler s m s))"

definition launch_timeout :: "nat \<Rightarrow> wm \<Rightarrow> wm" where
  "launch_timeout i s =
     (if \<not> wm_launching s ! i then s
      else
        let s = s\<lparr>wm_launching_ticks := (wm_launching_ticks s)[i := wm_launching_ticks s ! i + 1]\<rparr> in
        if wm_launching_ticks s ! i < DOCK_LAUNCH_TIMEOUT_ITERS then s
        else let s = s\<lparr>wm_launching := (wm_launching s)[i := False]\<rparr> in repair_dock (handler s) s)"

text \<open>What a turn of the loop sees: messages, the kernel's key events, and the registers at the three times they are read.\<close>

record turn =
  tn_inbox :: "wm_msg option list"
  tn_runs :: "u32 list"
  tn_keys :: "u32 list"
  tn_regs_x :: hid_regs
  tn_regs_y :: hid_regs
  tn_regs_btn :: hid_regs

definition wm_turn :: "turn \<Rightarrow> wm \<Rightarrow> wm" where
  "wm_turn t s =
     (let s = s\<lparr>wm_inbox := tn_inbox t, wm_runs := tn_runs t\<rparr>;
          s = drain_all (length (wm_inbox s)) s;
          s = fold launch_timeout [0..<DOCK_APP_COUNT] s;
          s = dispatch_keys (tn_keys t) s in
      mouse (get_cursor_x (tn_regs_x t)) (get_cursor_y (tn_regs_y t)) (get_mouse_btn (tn_regs_btn t)) s)"

definition wm_start :: "u32 \<Rightarrow> wm" where
  "wm_start my_pid =
     (let empty = \<lparr>ww_used = False, ww_owner_pid = 0, ww_x = 0, ww_y = 0, ww_w = 0, ww_h = 0, ww_title = [], ww_no_titlebar = False, ww_flags = 0\<rparr>;
          s = \<lparr>wm_windows = replicate WM_MAX_WINDOWS empty, wm_zorder = [], wm_focused = None, wm_dragging = None, wm_off_x = 0, wm_off_y = 0,
               wm_min_x = 0, wm_min_y = 0, wm_max_x = 0, wm_max_y = 0, wm_dock = None, wm_dock_selected = None,
               wm_launching = replicate DOCK_APP_COUNT False, wm_launching_pid = replicate DOCK_APP_COUNT 0,
               wm_launching_ticks = replicate DOCK_APP_COUNT 0, wm_my_pid = my_pid, wm_last_btn = 0, wm_inbox = [], wm_runs = [],
               wm_out = [], wm_bad = False, wm_cut = False\<rparr>;
          s = fill_rect 0 0 WM_SCREEN_W WM_SCREEN_H False s;
          (d, s) = create_dock s; s = s\<lparr>wm_dock := d\<rparr> in
      repair_dock (handler s) s)"

section \<open>Stacking order\<close>

lemma wm_find_Some: "wm_find idx z = Some i \<Longrightarrow> i < length z \<and> z ! i = idx"
  by (auto simp: wm_find_def find_Some_iff)

lemma wm_find_None: "wm_find idx z = None \<longleftrightarrow> idx \<notin> set z"
  by (auto simp: wm_find_def find_None_iff in_set_conv_nth)

lemma drop_found:
  assumes "wm_find idx z = Some i" "distinct z"
  shows "take i z @ drop (Suc i) z = filter (\<lambda>j. j \<noteq> idx) z"
proof -
  have i: "i < length z" "z ! i = idx" using wm_find_Some [OF assms(1)] by auto
  have z: "z = take i z @ idx # drop (Suc i) z" using id_take_nth_drop [OF i(1)] i(2) by simp
  have "idx \<notin> set (take i z)" "idx \<notin> set (drop (Suc i) z)"
    using assms(2) by (subst (asm) z; auto)+
  then have "filter (\<lambda>j. j \<noteq> idx) (take i z) = take i z" "filter (\<lambda>j. j \<noteq> idx) (drop (Suc i) z) = drop (Suc i) z"
    by (auto intro!: filter_True)
  then show ?thesis by (subst (3) z) simp
qed

lemma filter_last: "distinct z \<Longrightarrow> z \<noteq> [] \<Longrightarrow> filter (\<lambda>j. j \<noteq> last z) z @ [last z] = z"
  by (induction z rule: rev_induct) (auto simp: filter_id_conv)

lemma bring_to_front_eq:
  assumes "distinct (wm_zorder s)"
  shows "snd (bring_to_front idx s) =
    (if idx \<in> set (wm_zorder s) then s\<lparr>wm_zorder := filter (\<lambda>j. j \<noteq> idx) (wm_zorder s) @ [idx]\<rparr> else s)"
proof (cases "wm_find idx (wm_zorder s)")
  case None
  then show ?thesis using wm_find_None [of idx "wm_zorder s"] by (simp add: bring_to_front_def)
next
  case (Some i)
  have i: "i < length (wm_zorder s)" "wm_zorder s ! i = idx" using wm_find_Some [OF Some] by auto
  then have m: "idx \<in> set (wm_zorder s)" by auto
  show ?thesis
  proof (cases "i = length (wm_zorder s) - 1")
    case True
    then have "idx = last (wm_zorder s)" using i by (metis last_conv_nth length_0_conv less_nat_zero_code)
    moreover have "wm_zorder s \<noteq> []" using i(1) by auto
    ultimately show ?thesis using True Some m filter_last [OF assms] by (simp add: bring_to_front_def)
  next
    case False
    then show ?thesis using Some m drop_found [OF Some assms] by (simp add: bring_to_front_def flip: append_assoc)
  qed
qed

lemma remove_window_zorder:
  assumes "distinct (wm_zorder s)"
  shows "wm_zorder (remove_window i s) = filter (\<lambda>j. j \<noteq> i) (wm_zorder s)"
proof (cases "wm_find i (wm_zorder s)")
  case None
  then show ?thesis using wm_find_None [of i "wm_zorder s"] by (auto simp: remove_window_def Let_def upd_win_def intro!: filter_True [symmetric])
next
  case (Some k)
  then show ?thesis using drop_found [OF Some assms] by (simp add: remove_window_def Let_def upd_win_def)
qed

section \<open>What every handler keeps\<close>

text \<open>
  A property of the state that the steps of a repair and of a message handler keep, with \<open>n\<close> a bound on the messages still to read:
  every nested handler has taken one.
\<close>

locale wm_keeps =
  fixes P :: "nat \<Rightarrow> wm \<Rightarrow> bool"
  assumes emits: "P n s \<Longrightarrow> P n (emit os s)"
    and takes: "P n s \<Longrightarrow> wm_inbox s = x # ms \<Longrightarrow> 0 < n \<and> P (n - 1) (s\<lparr>wm_inbox := ms\<rparr>)"
    and weakens: "P n s \<Longrightarrow> n \<le> k \<Longrightarrow> P k s"
    and launches: "P n s \<Longrightarrow> P n (s\<lparr>wm_launching := (wm_launching s)[i := b]\<rparr>)"
    and creates: "P n s \<Longrightarrow> P n (snd (create_request m s))"
    and removes: "P n s \<Longrightarrow> i < WM_MAX_WINDOWS \<Longrightarrow> ww_used (win s i) \<Longrightarrow> P n (remove_window i s)"
begin

definition obeys :: "nat \<Rightarrow> (wm_msg \<Rightarrow> wm \<Rightarrow> wm) \<Rightarrow> bool" where
  "obeys n H \<longleftrightarrow> (\<forall>k<n. \<forall>m s. P k s \<longrightarrow> P k (H m s))"

lemma drain_for_keeps: "obeys n H \<Longrightarrow> P n s \<Longrightarrow> P n (snd (drain_for H pid k got s))"
proof (induction k arbitrary: got s)
  case (Suc k)
  show ?case
  proof (cases "wm_inbox s")
    case Nil
    then show ?thesis using Suc.prems by simp
  next
    case (Cons x ms)
    have t: "0 < n" "P (n - 1) (s\<lparr>wm_inbox := ms\<rparr>)" using takes [OF Suc.prems(2) Cons] by auto
    then have t': "P n (s\<lparr>wm_inbox := ms\<rparr>)" using weakens by force
    have "P n (H m (s\<lparr>wm_inbox := ms\<rparr>))" for m
    proof -
      have "P (n - 1) (H m (s\<lparr>wm_inbox := ms\<rparr>))" using Suc.prems(1) t by (simp add: obeys_def)
      then show ?thesis by (rule weakens) simp
    qed
    then show ?thesis using Cons t' Suc.IH [OF Suc.prems(1)] by (auto split: option.splits)
  qed
qed simp

lemma wait_polls_keeps: "obeys n H \<Longrightarrow> P n s \<Longrightarrow> P n (wait_polls H pid k s)"
proof (induction k arbitrary: s)
  case (Suc k)
  obtain got t where d: "drain_for H pid (length (wm_inbox s)) False s = (got, t)" by fastforce
  have "P n t" using drain_for_keeps [OF Suc.prems, of pid "length (wm_inbox s)" False] d by simp
  then show ?case using d Suc by simp
qed simp

lemma repair_window_keeps: "obeys n H \<Longrightarrow> P n s \<Longrightarrow> P n (repair_window H r ex idx s)"
  unfolding repair_window_def send_redraw_def wait_for_redraw_done_def
  by (cases r) (simp add: Let_def emits wait_polls_keeps)

lemma repair_from_keeps: "obeys n H \<Longrightarrow> P n s \<Longrightarrow> P n (repair_from H r ex k s)"
  by (induction k arbitrary: s) (simp_all add: Let_def repair_window_keeps)

lemma repair_region_keeps: "obeys n H \<Longrightarrow> P n s \<Longrightarrow> P n (repair_region H x y w h ex s)"
  unfolding repair_region_def by (auto simp: fill_rect_def emits repair_from_keeps split: prod.splits)

lemma repair_win_keeps: "obeys n H \<Longrightarrow> P n s \<Longrightarrow> P n (repair_win H idx ex s)"
  unfolding repair_win_def by (rule repair_region_keeps)

lemma repair_dock_keeps: "obeys n H \<Longrightarrow> P n s \<Longrightarrow> P n (repair_dock H s)"
  unfolding repair_dock_def by (auto simp: repair_win_keeps split: option.splits)

lemma message_body_keeps:
  assumes "obeys n H" "P n s"
  shows "P n (message_body H m s)"
proof -
  have l: "P n (launch_done H pid s)" for pid
    using assms by (auto simp: launch_done_def launches repair_dock_keeps split: option.splits)
  obtain idx t where c: "create_request m (launch_done H (wx_from m) s) = (idx, t)" by fastforce
  have t: "P n t" using creates [OF l, of m] c by (metis snd_conv)
  have d: "P n (destroy_window H u s)" for u
    unfolding destroy_window_def using assms by (auto simp: Let_def repair_region_keeps removes not_le)
  show ?thesis unfolding message_body_def
    using c t d assms by (auto simp: send_win_rect_def emits repair_win_keeps split: option.splits wm_obj.splits wm_val.splits)
qed

lemma handle_message_obeys: "obeys n (handle_message n)"
proof (induction n)
  case (Suc n)
  show ?case unfolding obeys_def
  proof (intro allI impI)
    fix k m s assume "k < Suc n" "P k s"
    moreover have "obeys k (handle_message n)" using Suc \<open>k < Suc n\<close> by (auto simp: obeys_def)
    ultimately show "P k (handle_message (Suc n) m s)" by (simp add: message_body_keeps)
  qed
qed (simp add: obeys_def)

lemma handler_obeys: "obeys (Suc (length (wm_inbox s))) (handler s)"
  unfolding handler_def by (rule handle_message_obeys)

end

section \<open>The table is sound\<close>

text \<open>
  The stacking order holds every window in use once; the focus is a window in use; the dock, while it is there, is in front of all others.
\<close>

definition wm_inv :: "wm \<Rightarrow> bool" where
  "wm_inv s \<longleftrightarrow>
     length (wm_windows s) = WM_MAX_WINDOWS \<and> length (wm_launching s) = DOCK_APP_COUNT \<and> distinct (wm_zorder s) \<and>
     set (wm_zorder s) = {i. i < WM_MAX_WINDOWS \<and> ww_used (win s i)} \<and>
     (case wm_focused s of None \<Rightarrow> True | Some f \<Rightarrow> f \<in> set (wm_zorder s)) \<and>
     (case wm_dock s of None \<Rightarrow> True | Some d \<Rightarrow> d \<in> set (wm_zorder s) \<longrightarrow> last (wm_zorder s) = d)"

lemma wm_inv_cong:
  "wm_inv s \<Longrightarrow> wm_windows t = wm_windows s \<Longrightarrow> wm_zorder t = wm_zorder s \<Longrightarrow> wm_focused t = wm_focused s \<Longrightarrow> wm_dock t = wm_dock s \<Longrightarrow>
   length (wm_launching t) = length (wm_launching s) \<Longrightarrow> wm_inv t"
  by (auto simp: wm_inv_def win_def split: option.splits)

lemma wm_inv_bring:
  assumes "wm_inv s" "wm_dock s = None \<or> wm_dock s = Some idx"
  shows "wm_inv (snd (bring_to_front idx s))"
  using assms bring_to_front_eq [of s idx] by (auto simp: wm_inv_def win_def split: option.splits)

text \<open>After any change of the order alone, bringing the dock to the front restores the invariant.\<close>

lemma wm_inv_dock_front:
  assumes "length (wm_windows s) = WM_MAX_WINDOWS" "length (wm_launching s) = DOCK_APP_COUNT" "distinct (wm_zorder s)"
    "set (wm_zorder s) = {i. i < WM_MAX_WINDOWS \<and> ww_used (win s i)}"
    "case wm_focused s of None \<Rightarrow> True | Some f \<Rightarrow> f \<in> set (wm_zorder s)"
  shows "wm_inv (dock_to_front s)"
proof (cases "wm_dock s")
  case None
  then show ?thesis using assms by (simp add: wm_inv_def dock_to_front_def)
next
  case (Some d)
  then show ?thesis using assms bring_to_front_eq [OF assms(3), of d]
    by (auto simp: wm_inv_def dock_to_front_def win_def split: option.splits)
qed

lemma wm_inv_remove:
  assumes inv: "wm_inv s" and i: "i < WM_MAX_WINDOWS" "ww_used (win s i)"
  shows "wm_inv (remove_window i s)"
proof -
  have d: "distinct (wm_zorder s)" "length (wm_windows s) = WM_MAX_WINDOWS" "length (wm_launching s) = DOCK_APP_COUNT"
    "\<And>j. j \<in> set (wm_zorder s) \<longleftrightarrow> j < WM_MAX_WINDOWS \<and> ww_used (win s j)" "\<And>k. wm_focused s = Some k \<Longrightarrow> k \<in> set (wm_zorder s)"
    "\<And>k. wm_dock s = Some k \<Longrightarrow> k \<in> set (wm_zorder s) \<Longrightarrow> last (wm_zorder s) = k"
    using inv by (auto simp: wm_inv_def split: option.splits)
  have f: "wm_windows (remove_window i s) = upd_nth i (\<lambda>w. w\<lparr>ww_used := False\<rparr>) (wm_windows s)"
    "wm_focused (remove_window i s) = (if wm_focused s = Some i then None else wm_focused s)"
    "wm_dock (remove_window i s) = wm_dock s" "wm_launching (remove_window i s) = wm_launching s"
    by (auto simp: remove_window_def Let_def upd_win_def split: option.splits)
  have z: "wm_zorder (remove_window i s) = filter (\<lambda>j. j \<noteq> i) (wm_zorder s)" by (rule remove_window_zorder [OF d(1)])
  have l: "last (filter (\<lambda>j. j \<noteq> i) (wm_zorder s)) = last (wm_zorder s)" if "last (wm_zorder s) \<noteq> i" "wm_zorder s \<noteq> []"
    using that by (cases "wm_zorder s" rule: rev_cases) auto
  have "last (filter (\<lambda>j. j \<noteq> i) (wm_zorder s)) = k" if "wm_dock s = Some k" "k \<in> set (wm_zorder s)" "k \<noteq> i" for k
    using that l d(6) [OF that(1,2)] by (cases "wm_zorder s = []") auto
  note dock = this
  show ?thesis unfolding wm_inv_def
  proof (intro conjI)
    show "set (wm_zorder (remove_window i s)) = {j. j < WM_MAX_WINDOWS \<and> ww_used (win (remove_window i s) j)}"
      using i d(2,4) by (auto simp: f z win_def)
    show "case wm_focused (remove_window i s) of None \<Rightarrow> True | Some k \<Rightarrow> k \<in> set (wm_zorder (remove_window i s))"
      using d(5) by (auto simp: f z split: option.splits)
    show "case wm_dock (remove_window i s) of None \<Rightarrow> True
      | Some k \<Rightarrow> k \<in> set (wm_zorder (remove_window i s)) \<longrightarrow> last (wm_zorder (remove_window i s)) = k"
      using dock by (auto simp: f z split: option.splits)
  qed (use d in \<open>simp_all add: f z\<close>)
qed

lemma create_window_cases:
  assumes "wm_inv s"
  obtains "create_window pid title w h fx fy flags s = (None, s)"
  | i t where "create_window pid title w h fx fy flags s = (Some i, t)" "i < WM_MAX_WINDOWS" "\<not> ww_used (win s i)" "ww_used (win t i)"
      "\<And>j. j \<noteq> i \<Longrightarrow> win t j = win s j" "wm_zorder t = wm_zorder s @ [i]" "length (wm_windows t) = WM_MAX_WINDOWS"
      "wm_focused t = wm_focused s" "wm_dock t = wm_dock s" "wm_launching t = wm_launching s" "wm_inbox t = wm_inbox s" "wm_cut t = wm_cut s"
proof (cases "List.find (\<lambda>i. \<not> ww_used (win s i)) [0..<WM_MAX_WINDOWS]")
  case None
  then show ?thesis using that(1) by (simp add: create_window_def)
next
  case (Some i)
  then have "i < WM_MAX_WINDOWS" "\<not> ww_used (win s i)" by (auto simp: find_Some_iff)
  then show ?thesis
    by (intro that(2) [of i "snd (create_window pid title w h fx fy flags s)"])
      (use assms Some in \<open>auto simp: create_window_def wm_inv_def upd_win_def win_def Let_def split: prod.splits\<close>)
qed

text \<open>The facts of the invariant, one by one.\<close>

lemma wm_invD:
  assumes "wm_inv s"
  shows "length (wm_windows s) = WM_MAX_WINDOWS" "length (wm_launching s) = DOCK_APP_COUNT" "distinct (wm_zorder s)"
    "set (wm_zorder s) = {i. i < WM_MAX_WINDOWS \<and> ww_used (win s i)}" "wm_focused s = Some f \<Longrightarrow> f \<in> set (wm_zorder s)"
    "wm_dock s = Some d \<Longrightarrow> d \<in> set (wm_zorder s) \<Longrightarrow> last (wm_zorder s) = d"
  using assms by (auto simp: wm_inv_def split: option.splits)

lemma wm_inv_focus: "wm_inv s \<Longrightarrow> i \<in> set (wm_zorder s) \<Longrightarrow> wm_inv (s\<lparr>wm_focused := Some i\<rparr>)"
  by (auto simp: wm_inv_def win_def split: option.splits)

lemma dock_to_front_simps [simp]:
  "wm_inbox (dock_to_front s) = wm_inbox s" "wm_cut (dock_to_front s) = wm_cut s" "wm_dock (dock_to_front s) = wm_dock s"
  "wm_focused (dock_to_front s) = wm_focused s" "wm_windows (dock_to_front s) = wm_windows s"
  by (auto simp: dock_to_front_def bring_to_front_def split: option.splits)

lemma create_window_Some:
  assumes "wm_inv s" "create_window pid title w h fx fy flags s = (Some i, t)"
  shows "i < WM_MAX_WINDOWS" "\<not> ww_used (win s i)" "ww_used (win t i)" "\<And>j. j \<noteq> i \<Longrightarrow> win t j = win s j" "wm_zorder t = wm_zorder s @ [i]"
    "length (wm_windows t) = WM_MAX_WINDOWS" "wm_focused t = wm_focused s" "wm_dock t = wm_dock s" "wm_launching t = wm_launching s"
    "wm_inbox t = wm_inbox s" "wm_cut t = wm_cut s"
proof -
  show "i < WM_MAX_WINDOWS" "\<not> ww_used (win s i)" "ww_used (win t i)" "wm_zorder t = wm_zorder s @ [i]"
    "length (wm_windows t) = WM_MAX_WINDOWS" "wm_focused t = wm_focused s" "wm_dock t = wm_dock s" "wm_launching t = wm_launching s"
    "wm_inbox t = wm_inbox s" "wm_cut t = wm_cut s"
    using assms(2) by (rule_tac create_window_cases [OF assms(1), of pid title w h fx fy flags]; simp)+
  show "win t j = win s j" if "j \<noteq> i" for j
    using assms(2) that by (rule_tac create_window_cases [OF assms(1), of pid title w h fx fy flags]; simp)
qed

lemma wm_inv_created:
  assumes inv: "wm_inv s" and c: "create_window pid title w h fx fy flags s = (Some i, t)"
  shows "wm_inv (if wm_dock t \<noteq> None \<and> Some i \<noteq> wm_dock t then dock_to_front t else t)"
proof -
  note d = wm_invD(1-4) [OF inv] and u = create_window_Some [OF inv c]
  have dist: "distinct (wm_zorder t)" using d(3,4) u(2,5) by simp
  have set: "set (wm_zorder t) = {k. k < WM_MAX_WINDOWS \<and> ww_used (win t k)}"
  proof (rule set_eqI)
    fix k show "k \<in> set (wm_zorder t) \<longleftrightarrow> k \<in> {k. k < WM_MAX_WINDOWS \<and> ww_used (win t k)}"
      unfolding u(5) set_append d(4) using u(1,3) u(4) [of k] by (cases "k = i") simp_all
  qed
  have foc: "case wm_focused t of None \<Rightarrow> True | Some f \<Rightarrow> f \<in> set (wm_zorder t)"
    unfolding u(5,7) using wm_invD(5) [OF inv] by (simp split: option.splits)
  have len: "length (wm_launching t) = DOCK_APP_COUNT" using d(2) u(9) by simp
  have "wm_inv (dock_to_front t)" by (rule wm_inv_dock_front [OF u(6) len dist set foc])
  moreover have "wm_inv t" if "wm_dock t = None \<or> wm_dock t = Some i"
    unfolding wm_inv_def using u(6) len dist set foc
  proof (intro conjI)
    show "case wm_dock t of None \<Rightarrow> True | Some d \<Rightarrow> d \<in> set (wm_zorder t) \<longrightarrow> last (wm_zorder t) = d" using that u(5) by auto
  qed
  ultimately show ?thesis by simp
qed

lemma dock_to_front_set: "distinct (wm_zorder s) \<Longrightarrow> set (wm_zorder (dock_to_front s)) = set (wm_zorder s)"
  by (auto simp: dock_to_front_def bring_to_front_eq split: option.splits)

lemma wm_inv_create_request:
  assumes "wm_inv s"
  shows "wm_inv (snd (create_request m s)) \<and> wm_inbox (snd (create_request m s)) = wm_inbox s \<and> wm_cut (snd (create_request m s)) = wm_cut s \<and>
    (\<forall>i. fst (create_request m s) = Some i \<longrightarrow> i \<in> set (wm_zorder (snd (create_request m s))))"
proof -
  obtain w h fx fy flags title where c: "create_request m s =
      (case create_window (wx_from m) title w h fx fy flags s of (idx, t) \<Rightarrow> (idx, place_window idx t))"
    unfolding create_request_def Let_def split_def by blast
  obtain idx t where t: "create_window (wx_from m) title w h fx fy flags s = (idx, t)" by fastforce
  show ?thesis
  proof (cases idx)
    case None
    then have "t = s" using t by (rule_tac create_window_cases [OF assms, of "wx_from m" title w h fx fy flags]) auto
    then show ?thesis using c t None assms by (simp add: place_window_def)
  next
    case (Some i)
    let ?u = "if wm_dock t \<noteq> None \<and> Some i \<noteq> wm_dock t then dock_to_front t else t"
    note new = create_window_Some [OF assms t [unfolded Some]]
    have u: "wm_inv ?u" "i \<in> set (wm_zorder t)" "wm_inbox t = wm_inbox s" "wm_cut t = wm_cut s"
      using wm_inv_created [OF assms t [unfolded Some]] new(5,10,11) by auto
    have "distinct (wm_zorder t)" using new(2,5) wm_invD(3,4) [OF assms] by simp
    then have z: "i \<in> set (wm_zorder ?u)" using u(2) dock_to_front_set by simp
    have "create_request m s = (Some i, if wm_focused ?u = None then ?u\<lparr>wm_focused := Some i\<rparr> else ?u)"
      using c t Some by (simp add: place_window_def Let_def)
    then show ?thesis using u z wm_inv_focus [OF u(1) z] by simp
  qed
qed

definition sound :: "nat \<Rightarrow> wm \<Rightarrow> bool" where
  "sound n s \<longleftrightarrow> wm_inv s \<and> \<not> wm_cut s \<and> length (wm_inbox s) \<le> n"

lemma remove_window_simps [simp]:
  "wm_inbox (remove_window i s) = wm_inbox s" "wm_cut (remove_window i s) = wm_cut s"
  by (auto simp: remove_window_def Let_def upd_win_def split: option.splits)

interpretation sound: wm_keeps sound
proof
  fix n k s os x ms i b m
  show "sound n s \<Longrightarrow> sound n (emit os s)" by (auto simp: sound_def emit_def elim: wm_inv_cong)
  show "sound n s \<Longrightarrow> wm_inbox s = x # ms \<Longrightarrow> 0 < n \<and> sound (n - 1) (s\<lparr>wm_inbox := ms\<rparr>)"
    by (auto simp: sound_def elim: wm_inv_cong)
  show "sound n s \<Longrightarrow> n \<le> k \<Longrightarrow> sound k s" by (simp add: sound_def)
  show "sound n s \<Longrightarrow> sound n (s\<lparr>wm_launching := (wm_launching s)[i := b]\<rparr>)" by (auto simp: sound_def elim: wm_inv_cong)
  show "sound n s \<Longrightarrow> sound n (snd (create_request m s))" using wm_inv_create_request [of s m] by (simp add: sound_def)
  show "sound n s \<Longrightarrow> i < WM_MAX_WINDOWS \<Longrightarrow> ww_used (win s i) \<Longrightarrow> sound n (remove_window i s)"
    by (simp add: sound_def wm_inv_remove)
qed

section \<open>Every turn keeps the table sound\<close>

definition good :: "wm \<Rightarrow> bool" where "good s \<longleftrightarrow> wm_inv s \<and> \<not> wm_cut s"

lemma good_sound: "good s \<longleftrightarrow> sound (length (wm_inbox s)) s"
  by (simp add: good_def sound_def)

lemma sound_good: "sound n s \<Longrightarrow> good s"
  by (simp add: good_def sound_def)

lemma good_cong:
  "good s \<Longrightarrow> wm_windows t = wm_windows s \<Longrightarrow> wm_zorder t = wm_zorder s \<Longrightarrow> wm_focused t = wm_focused s \<Longrightarrow> wm_dock t = wm_dock s \<Longrightarrow>
   length (wm_launching t) = length (wm_launching s) \<Longrightarrow> wm_cut t = wm_cut s \<Longrightarrow> good t"
  by (simp add: good_def wm_inv_cong [of s t])

lemma handler_keeps_sound: "sound.obeys (length (wm_inbox s)) (handler s)"
  using sound.handler_obeys [of s] by (simp add: sound.obeys_def)

lemma good_emit [simp]: "good s \<Longrightarrow> good (emit os s)"
  by (erule good_cong) (simp_all add: emit_def)

lemma good_repair [simp]:
  assumes "good s"
  shows "good (repair_region (handler s) x y w h ex s)" "good (repair_win (handler s) i ex s)" "good (repair_dock (handler s) s)"
    "good (wait_for_redraw_done (handler s) pid (send_redraw pid i s))" "good (destroy_window (handler s) u s)"
proof -
  note s = assms [unfolded good_sound] and h = handler_keeps_sound [of s]
  show "good (repair_region (handler s) x y w h ex s)" "good (repair_win (handler s) i ex s)" "good (repair_dock (handler s) s)"
    by (rule sound_good [OF sound.repair_region_keeps [OF h s]] sound_good [OF sound.repair_win_keeps [OF h s]]
        sound_good [OF sound.repair_dock_keeps [OF h s]])+
  show "good (wait_for_redraw_done (handler s) pid (send_redraw pid i s))"
    unfolding wait_for_redraw_done_def send_redraw_def by (rule sound_good [OF sound.wait_polls_keeps [OF h sound.emits [OF s]]])
  show "good (destroy_window (handler s) u s)"
    unfolding destroy_window_def
    using assms sound_good [OF sound.repair_region_keeps [OF h sound.removes [OF s]]] by (simp add: Let_def not_le)
qed

lemma good_upd_win: "good s \<Longrightarrow> (\<And>w. ww_used (f w) = ww_used w) \<Longrightarrow> good (upd_win i f s)"
proof -
  assume g: "good s" and f: "\<And>w. ww_used (f w) = ww_used w"
  have "ww_used (win (upd_win i f s) j) = ww_used (win s j)" for j
    by (cases "i < length (wm_windows s)") (auto simp: upd_win_def win_def f upd_nth_def nth_list_update list_update_beyond)
  then show ?thesis using g by (auto simp: good_def wm_inv_def upd_win_def win_def split: option.splits)
qed

lemma good_handler: "good s \<Longrightarrow> good (handler s m s)"
  using sound.handler_obeys [of s] by (auto simp: good_sound [of s] sound.obeys_def intro: sound_good)

lemma good_drain_all: "good s \<Longrightarrow> good (drain_all n s)"
proof (induction n arbitrary: s)
  case (Suc n)
  have "good (s\<lparr>wm_inbox := ms\<rparr>)" for ms using Suc.prems by (rule good_cong) simp_all
  with Suc show ?case by (auto simp: Let_def good_handler split: list.splits option.splits)
qed simp

lemma good_launch_timeout: "good s \<Longrightarrow> good (launch_timeout i s)"
proof -
  assume g: "good s"
  have "good (s\<lparr>wm_launching_ticks := l\<rparr>)" "good (s\<lparr>wm_launching_ticks := l, wm_launching := (wm_launching s)[i := b]\<rparr>)" for l b
    by (rule good_cong [OF g]; simp)+
  then show ?thesis using g by (simp add: launch_timeout_def Let_def)
qed

lemma good_dock_launch: "good s \<Longrightarrow> good (dock_launch i s)"
proof -
  assume g: "good s"
  let ?a = "s\<lparr>wm_launching := (wm_launching s)[i := True], wm_launching_pid := (wm_launching_pid s)[i := 0], wm_launching_ticks := (wm_launching_ticks s)[i := 0]\<rparr>"
  let ?b = "emit [OutRun i] (repair_dock (handler ?a) ?a)"
  have "good ?a" by (rule good_cong [OF g]) simp_all
  then have b: "good ?b" by simp
  have "good (?b\<lparr>wm_runs := r\<rparr>)" "good (?b\<lparr>wm_runs := r, wm_launching_pid := l\<rparr>)" "good (?b\<lparr>wm_launching_pid := l\<rparr>)"
    "good (?b\<lparr>wm_launching := (wm_launching ?b)[i := False]\<rparr>)" "good (?b\<lparr>wm_runs := r, wm_launching := (wm_launching ?b)[i := False]\<rparr>)" for r l
    by (rule good_cong [OF b]; simp)+
  then show ?thesis using g b unfolding dock_launch_def Let_def by (auto split: list.splits)
qed

lemma good_dock_key: "good s \<Longrightarrow> good (snd (dock_handle_key k p s))"
proof -
  assume g: "good s"
  have "good (s\<lparr>wm_dock_selected := x\<rparr>)" "good (s\<lparr>wm_dock_selected := x, wm_dock_selected := y\<rparr>)" for x y by (rule good_cong [OF g]; simp)+
  then show ?thesis using g by (auto simp: dock_handle_key_def Let_def good_dock_launch)
qed

lemma good_repair_focused: "good s \<Longrightarrow> good (repair_focused s)"
proof -
  assume g: "good s"
  have "good (s\<lparr>wm_bad := True\<rparr>)" by (rule good_cong [OF g]) simp_all
  then show ?thesis using g by (simp add: repair_focused_def split: option.splits)
qed

text \<open>Focus on a window, which goes to the front, behind the dock.\<close>

lemma good_front:
  assumes g: "good s" and i: "i \<in> set (wm_zorder s)"
  shows "good (dock_to_front (snd (bring_to_front i s)))" "i \<in> set (wm_zorder (dock_to_front (snd (bring_to_front i s))))"
proof -
  let ?t = "snd (bring_to_front i s)"
  note inv = wm_invD [OF g [unfolded good_def, THEN conjunct1]]
  have t: "?t = s\<lparr>wm_zorder := filter (\<lambda>j. j \<noteq> i) (wm_zorder s) @ [i]\<rparr>" using bring_to_front_eq [OF inv(3), of i] i by simp
  have same: "set (wm_zorder ?t) = set (wm_zorder s)" "distinct (wm_zorder ?t)" using i inv(3) by (auto simp: t)
  have "wm_inv (dock_to_front ?t)"
  proof (rule wm_inv_dock_front)
    show "set (wm_zorder ?t) = {k. k < WM_MAX_WINDOWS \<and> ww_used (win ?t k)}" using same(1) inv(4) by (simp add: t win_def)
    show "case wm_focused ?t of None \<Rightarrow> True | Some f \<Rightarrow> f \<in> set (wm_zorder ?t)"
      using same(1) inv(5) by (simp add: t split: option.splits)
  qed (use inv same in \<open>simp_all add: t\<close>)
  then show "good (dock_to_front ?t)" using g by (simp add: good_def t)
  show "i \<in> set (wm_zorder (dock_to_front ?t))" using dock_to_front_set [OF same(2)] same(1) i by simp
qed

lemma next_focusable_used: "good s \<Longrightarrow> next_focusable f s = Some i \<Longrightarrow> i \<in> set (wm_zorder s)"
  using wm_invD(4) [of s] by (auto simp: next_focusable_def find_Some_iff good_def)

lemma good_alt_tab: "good s \<Longrightarrow> good (alt_tab s)"
proof (cases "next_focusable (wm_focused s) s")
  case (Some i)
  assume g: "good s"
  note i = next_focusable_used [OF g Some]
  have "good (s\<lparr>wm_focused := Some i\<rparr>)" using g wm_inv_focus [OF _ i] by (simp add: good_def)
  then have a: "good (if wm_dock (s\<lparr>wm_focused := Some i\<rparr>) = Some i \<and> wm_dock_selected (s\<lparr>wm_focused := Some i\<rparr>) = None
      then s\<lparr>wm_focused := Some i, wm_dock_selected := Some 0\<rparr> else s\<lparr>wm_focused := Some i\<rparr>)" (is "good ?a")
    by (auto elim: good_cong)
  have "good (dock_to_front (snd (bring_to_front i ?a)))" by (rule good_front [OF a]) (use i in auto)
  then show ?thesis using g Some unfolding alt_tab_def Let_def by (auto simp: good_repair_focused split: option.splits)
qed (simp add: alt_tab_def)

lemma good_fold: "(\<And>x s. good s \<Longrightarrow> good (f x s)) \<Longrightarrow> good s \<Longrightarrow> good (fold f xs s)"
  by (induction xs arbitrary: s) auto

text \<open>Branching, as the handlers branch.\<close>

lemma good_if: "(c \<Longrightarrow> good a) \<Longrightarrow> (\<not> c \<Longrightarrow> good b) \<Longrightarrow> good (if c then a else b)"
  by simp

lemma good_opt: "(x = None \<Longrightarrow> good a) \<Longrightarrow> (\<And>d. x = Some d \<Longrightarrow> good (f d)) \<Longrightarrow> good (case x of None \<Rightarrow> a | Some d \<Rightarrow> f d)"
  by (cases x) simp_all

lemma good_pair: "(\<And>a b. r = (a, b) \<Longrightarrow> good (f a b)) \<Longrightarrow> good (case r of (a, b) \<Rightarrow> f a b)"
  by (cases r) simp

lemma good_repair_drag: "good s \<Longrightarrow> good (repair_drag d s)"
  unfolding repair_drag_def Let_def by (auto intro!: good_fold good_repair(4) split: prod.splits)

lemma good_notify: "good s \<Longrightarrow> good (notify_moved d s)"
  by (simp add: notify_moved_def send_win_rect_def)

lemma good_alt_move: "good s \<Longrightarrow> good (alt_move_focused k s)"
proof -
  assume g: "good s"
  have "good (repair_drag f (notify_moved f (upd_win f (\<lambda>w. w\<lparr>ww_x := x, ww_y := y\<rparr>) s\<lparr>wm_min_x := a, wm_min_y := b, wm_max_x := c, wm_max_y := d\<rparr>)))"
    for f x y a b c d
  proof -
    have "good (upd_win f (\<lambda>w. w\<lparr>ww_x := x, ww_y := y\<rparr>) s)" by (rule good_upd_win [OF g]) simp
    then have "good (upd_win f (\<lambda>w. w\<lparr>ww_x := x, ww_y := y\<rparr>) s\<lparr>wm_min_x := a, wm_min_y := b, wm_max_x := c, wm_max_y := d\<rparr>)"
      by (rule good_cong) simp_all
    then show ?thesis by (intro good_repair_drag good_notify)
  qed
  then show ?thesis using g unfolding alt_move_focused_def Let_def by (simp split: option.splits prod.splits)
qed

lemma good_dispatch: "good s \<Longrightarrow> good (dispatch_key ev s)"
proof -
  assume g: "good s"
  have dock: "good t" if "(if wm_focused s = wm_dock s then dock_handle_key k p s else (False, s)) = (c, t)" for k p c t
    using that g good_dock_key [OF g, of k p] by (auto split: if_splits)
  show ?thesis unfolding dispatch_key_def Let_def
    by (intro good_if good_pair good_opt g good_alt_tab good_alt_move good_emit) (erule dock)+
qed

lemma hit_test_member: "hit_test x y s = Some i \<Longrightarrow> i \<in> set (wm_zorder s)"
  by (auto simp: hit_test_def find_Some_iff) (metis length_rev nth_mem set_rev)

lemma good_start_drag: "good s \<Longrightarrow> good (start_drag d x y s)"
  by (erule good_cong) (simp_all add: start_drag_def Let_def)

lemma good_focus_click:
  assumes g: "good s" and i: "i \<in> set (wm_zorder s)"
  shows "good (focus_click i cx cy s)"
proof -
  let ?a = "if wm_focused s \<noteq> Some i then s\<lparr>wm_focused := Some i\<rparr> else s"
  have "good ?a" using g wm_inv_focus [OF _ i] by (simp add: good_def)
  then have b: "good (dock_to_front (snd (bring_to_front i ?a)))" by (rule good_front) (use i in auto)
  obtain r t where t: "bring_to_front i ?a = (r, t)" by fastforce
  let ?c = "case wm_focused s of Some f \<Rightarrow> if wm_focused s \<noteq> Some i then repair_win (handler (dock_to_front t)) f None (dock_to_front t)
    else dock_to_front t | None \<Rightarrow> dock_to_front t"
  have c: "good ?c" using b t by (auto split: option.splits)
  then have "good (if wm_focused s \<noteq> Some i \<or> r then repair_win (handler ?c) i None ?c else ?c)" by (intro good_if good_repair(2))
  moreover have "focus_click i cx cy s =
      (let u = (if wm_focused s \<noteq> Some i \<or> r then repair_win (handler ?c) i None ?c else ?c) in if hit_titlebar i cy u then start_drag i cx cy u else u)"
    unfolding focus_click_def Let_def t by simp
  ultimately show ?thesis by (simp add: Let_def good_start_drag)
qed

lemma good_click: "good s \<Longrightarrow> good (click cx cy s)"
proof -
  assume g: "good s"
  have "good (handle_close_click i s)" for i using g by (simp add: handle_close_click_def Let_def)
  moreover have "good (dock_click i cx cy s)" for i using g by (simp add: dock_click_def Let_def good_dock_launch)
  ultimately show ?thesis using g good_focus_click [OF g hit_test_member] by (auto simp: click_def split: option.splits)
qed

lemma good_drag_to: "good s \<Longrightarrow> good (drag_to d cx cy s)"
proof -
  assume g: "good s"
  have "good (emit b (upd_win d (\<lambda>w. w\<lparr>ww_x := x, ww_y := y\<rparr>) (emit a s)))" for a b x y
    by (rule good_emit, rule good_upd_win) (use g in auto)
  then have "good ((emit b (upd_win d (\<lambda>w. w\<lparr>ww_x := x, ww_y := y\<rparr>) (emit a s)))\<lparr>wm_min_x := p, wm_min_y := q, wm_max_x := r, wm_max_y := t\<rparr>)"
    for a b x y p q r t by (rule good_cong) simp_all
  then show ?thesis using g unfolding drag_to_def Let_def by simp
qed

lemma good_release: "good s \<Longrightarrow> good (release_drag d s)"
  unfolding release_drag_def by (rule good_cong [of "repair_drag d (notify_moved d s)"]) (auto intro: good_repair_drag good_notify)

lemma good_mouse: "good s \<Longrightarrow> good (mouse cx cy btn s)"
proof -
  assume g: "good s"
  let ?a = "if btn AND 1 \<noteq> 0 \<and> \<not> wm_last_btn s AND 1 \<noteq> 0 then click cx cy s else s"
  let ?b = "case wm_dragging ?a of Some d \<Rightarrow> if btn AND 1 \<noteq> 0 then drag_to d cx cy ?a else ?a | None \<Rightarrow> ?a"
  let ?c = "case wm_dragging ?b of Some d \<Rightarrow> if \<not> btn AND 1 \<noteq> 0 \<and> wm_last_btn s AND 1 \<noteq> 0 then release_drag d ?b else ?b | None \<Rightarrow> ?b"
  have a: "good ?a" using g by (simp add: good_click)
  have b: "good ?b" by (rule good_opt, rule a, rule good_if, rule good_drag_to, rule a, rule a)
  have "good ?c" by (rule good_opt, rule b, rule good_if, rule good_release, rule b, rule b)
  then have "good (?c\<lparr>wm_last_btn := btn\<rparr>)" by (rule good_cong) simp_all
  then show ?thesis by (simp only: mouse_def Let_def)
qed

lemma good_turn: "good s \<Longrightarrow> good (wm_turn t s)"
proof -
  assume g: "good s"
  have "good (s\<lparr>wm_inbox := tn_inbox t, wm_runs := tn_runs t\<rparr>)" by (rule good_cong [OF g]) simp_all
  then show ?thesis unfolding wm_turn_def Let_def dispatch_keys_def
    by (intro good_mouse good_fold good_drain_all) (auto intro: good_dispatch good_launch_timeout)
qed

lemma good_start: "good (wm_start pid)"
proof -
  define e where "e = \<lparr>ww_used = False, ww_owner_pid = 0, ww_x = 0, ww_y = 0, ww_w = 0, ww_h = 0, ww_title = [], ww_no_titlebar = False, ww_flags = 0\<rparr>"
  define s0 where "s0 = fill_rect 0 0 WM_SCREEN_W WM_SCREEN_H False \<lparr>wm_windows = replicate WM_MAX_WINDOWS e, wm_zorder = [], wm_focused = None,
    wm_dragging = None, wm_off_x = 0, wm_off_y = 0, wm_min_x = 0, wm_min_y = 0, wm_max_x = 0, wm_max_y = 0, wm_dock = None, wm_dock_selected = None,
    wm_launching = replicate DOCK_APP_COUNT False, wm_launching_pid = replicate DOCK_APP_COUNT 0, wm_launching_ticks = replicate DOCK_APP_COUNT 0,
    wm_my_pid = pid, wm_last_btn = 0, wm_inbox = [], wm_runs = [], wm_out = [], wm_bad = False, wm_cut = False\<rparr>"
  have g0: "good s0" by (auto simp: good_def wm_inv_def s0_def fill_rect_def emit_def win_def e_def)
  obtain w h x y where c: "create_dock s0 = (case create_window (wm_my_pid s0) ''Dock'' w h x y 0 s0 of
      (None, s) \<Rightarrow> (None, s) | (Some i, s) \<Rightarrow> (Some i, upd_win i (\<lambda>w. w\<lparr>ww_no_titlebar := True\<rparr>) s))"
    unfolding create_dock_def Let_def by blast
  obtain d t where t: "create_window (wm_my_pid s0) ''Dock'' w h x y 0 s0 = (d, t)" by fastforce
  obtain u where u: "create_dock s0 = (d, u)" using c t by (cases d) auto
  have "good (u\<lparr>wm_dock := d\<rparr>)"
  proof (cases d)
    case None
    then have "u = s0" using c t u by (rule_tac create_window_cases [OF g0 [unfolded good_def, THEN conjunct1], of "wm_my_pid s0" "''Dock''" w h x y 0]) auto
    then show ?thesis using g0 None by (auto simp: good_def wm_inv_def win_def split: option.splits)
  next
    case (Some i)
    note new = create_window_Some [OF g0 [unfolded good_def, THEN conjunct1] t [unfolded Some]]
    have "wm_dock s0 = None" by (simp add: s0_def fill_rect_def emit_def)
    then have "good t" using wm_inv_created [OF g0 [unfolded good_def, THEN conjunct1] t [unfolded Some]] g0 new(8,11) by (simp add: good_def)
    then have "good (upd_win i (\<lambda>w. w\<lparr>ww_no_titlebar := True\<rparr>) t)" by (rule good_upd_win) simp
    moreover have "u = upd_win i (\<lambda>w. w\<lparr>ww_no_titlebar := True\<rparr>) t" using c t u Some by simp
    moreover have "last (wm_zorder u) = i" using new(5) calculation(2) by (simp add: upd_win_def)
    ultimately show ?thesis using Some by (auto simp: good_def wm_inv_def win_def split: option.splits)
  qed
  moreover have "wm_start pid = repair_dock (handler (u\<lparr>wm_dock := d\<rparr>)) (u\<lparr>wm_dock := d\<rparr>)"
    unfolding wm_start_def Let_def e_def [symmetric] s0_def [symmetric] u by simp
  ultimately show ?thesis by simp
qed

text \<open>
  C35: whatever applications send, users do and processes return, after any number of turns the stacking order holds exactly the windows
  in use, each once, the focus is a window in use or none, and the dock, while it is there, is in front; no nesting of handlers is cut off.
\<close>

theorem windows_consistent:
  "wm_inv (fold wm_turn ts (wm_start pid)) \<and> \<not> wm_cut (fold wm_turn ts (wm_start pid))"
proof -
  have "good (fold wm_turn ts (wm_start pid))" by (rule good_fold [OF good_turn good_start])
  then show ?thesis by (simp add: good_def)
qed

section \<open>Clicks and moves\<close>

text \<open>
  A click goes to the frontmost window that has the point, as the stacking order says: every window in front of the one that is hit
  misses it, and when nothing is hit no window has it.
\<close>

lemma hit_test_frontmost:
  "case hit_test cx cy s of
     None \<Rightarrow> \<forall>i\<in>set (wm_zorder s). \<not> win_has (win s i) cx cy
   | Some i \<Rightarrow> \<exists>behind front. wm_zorder s = behind @ i # front \<and> win_has (win s i) cx cy \<and> (\<forall>j\<in>set front. \<not> win_has (win s j) cx cy)"
proof (cases "hit_test cx cy s")
  case None
  then have "\<forall>i\<in>set (wm_zorder s). \<not> win_has (win s i) cx cy" by (auto simp: hit_test_def find_None_iff)
  then show ?thesis by (simp add: None)
next
  case (Some i)
  then obtain front behind where f: "rev (wm_zorder s) = front @ i # behind" "win_has (win s i) cx cy" "\<forall>j\<in>set front. \<not> win_has (win s j) cx cy"
    using find_split [of "\<lambda>idx. win_has (win s idx) cx cy" "rev (wm_zorder s)"] by (auto simp: hit_test_def)
  have "wm_zorder s = rev behind @ i # rev front" using f(1) by (metis append.assoc append_Cons append_Nil rev.simps(2) rev_append rev_rev_ident)
  then have "\<exists>behind front. wm_zorder s = behind @ i # front \<and> win_has (win s i) cx cy \<and> (\<forall>j\<in>set front. \<not> win_has (win s j) cx cy)"
    using f(2,3) by (metis set_rev)
  then show ?thesis by (simp add: Some)
qed


section \<open>Dragging\<close>

text \<open>The pixels of a window, and of the rectangles that are repaired.\<close>

definition covers :: "wm_window \<Rightarrow> int \<times> int \<Rightarrow> bool" where
  "covers w p \<longleftrightarrow> (case p of (px, py) \<Rightarrow>
     sint (ww_x w) \<le> px \<and> px < sint (ww_x w) + sint (ww_w w) \<and> sint (ww_y w) \<le> py \<and> py < sint (ww_y w) + sint (ww_h w))"

definition rect_has :: "int \<times> int \<times> int \<times> int \<Rightarrow> int \<times> int \<Rightarrow> bool" where
  "rect_has r p \<longleftrightarrow> (case r of (x, y, w, h) \<Rightarrow> case p of (px, py) \<Rightarrow> x \<le> px \<and> px < x + w \<and> y \<le> py \<and> py < y + h)"

definition in_box :: "wm \<Rightarrow> int \<times> int \<Rightarrow> bool" where
  "in_box s p \<longleftrightarrow> (case p of (px, py) \<Rightarrow> wm_min_x s \<le> px \<and> px < wm_max_x s \<and> wm_min_y s \<le> py \<and> py < wm_max_y s)"

text \<open>A window that fits the screen, and whose corner the additions of the code reach without wrapping.\<close>

definition draggable :: "wm_window \<Rightarrow> bool" where
  "draggable w \<longleftrightarrow> 0 < sint (ww_w w) \<and> sint (ww_w w) \<le> WM_SCREEN_W \<and> 0 < sint (ww_h w) \<and> sint (ww_h w) \<le> WM_SCREEN_H \<and>
     sint (ww_x w) \<le> 0x10000 \<and> sint (ww_y w) \<le> 0x10000"

definition fully_on_screen :: "wm_window \<Rightarrow> bool" where
  "fully_on_screen w \<longleftrightarrow> 0 \<le> sint (ww_x w) \<and> sint (ww_x w) + sint (ww_w w) \<le> WM_SCREEN_W \<and>
     0 \<le> sint (ww_y w) \<and> sint (ww_y w) + sint (ww_h w) \<le> WM_SCREEN_H"

definition drag_path :: "nat \<Rightarrow> (int \<times> int) list \<Rightarrow> wm \<Rightarrow> wm" where
  "drag_path d = fold (\<lambda>(cx, cy). drag_to d cx cy)"

lemma clamp_move_range: "0 < e \<Longrightarrow> e \<le> m \<Longrightarrow> 0 \<le> clamp_move m e n \<and> clamp_move m e n + e \<le> m"
  by (auto simp: clamp_move_def Let_def)

lemma sint_of_small: "0 \<le> n \<Longrightarrow> n < 0x80000000 \<Longrightarrow> sint (of_int n :: u32) = n"
  by (simp add: sint_sbintrunc' signed_take_bit_int_eq_self)

lemma drag_to_win:
  assumes d: "d < length (wm_windows s)" and w: "draggable (win s d)"
  shows "sint (ww_x (win (drag_to d cx cy s) d)) = clamp_move WM_SCREEN_W (sint (ww_w (win s d))) (cx - wm_off_x s)"
    "sint (ww_y (win (drag_to d cx cy s) d)) = clamp_move WM_SCREEN_H (sint (ww_h (win s d))) (cy - wm_off_y s)"
    "ww_w (win (drag_to d cx cy s) d) = ww_w (win s d)" "ww_h (win (drag_to d cx cy s) d) = ww_h (win s d)"
    "length (wm_windows (drag_to d cx cy s)) = length (wm_windows s)"
proof -
  let ?nx = "clamp_move WM_SCREEN_W (sint (ww_w (win s d))) (cx - wm_off_x s)" and ?ny = "clamp_move WM_SCREEN_H (sint (ww_h (win s d))) (cy - wm_off_y s)"
  have "0 \<le> ?nx \<and> ?nx < 0x80000000" "0 \<le> ?ny \<and> ?ny < 0x80000000"
    using w clamp_move_range [of "sint (ww_w (win s d))" WM_SCREEN_W "cx - wm_off_x s"]
      clamp_move_range [of "sint (ww_h (win s d))" WM_SCREEN_H "cy - wm_off_y s"] by (auto simp: draggable_def)
  then have n: "sint (of_int ?nx :: u32) = ?nx" "sint (of_int ?ny :: u32) = ?ny" using sint_of_small by blast+
  show "sint (ww_x (win (drag_to d cx cy s) d)) = ?nx"
  proof (cases "of_int ?nx = ww_x (win s d) \<and> of_int ?ny = ww_y (win s d)")
    case True
    then have "sint (ww_x (win s d)) = ?nx" using n(1) by metis
    then show ?thesis using True by (simp add: drag_to_def Let_def)
  qed (use n d in \<open>auto simp: drag_to_def Let_def upd_win_def win_def emit_def\<close>)
  show "sint (ww_y (win (drag_to d cx cy s) d)) = ?ny"
  proof (cases "of_int ?nx = ww_x (win s d) \<and> of_int ?ny = ww_y (win s d)")
    case True
    then have "sint (ww_y (win s d)) = ?ny" using n(2) by metis
    then show ?thesis using True by (simp add: drag_to_def Let_def)
  qed (use n d in \<open>auto simp: drag_to_def Let_def upd_win_def win_def emit_def\<close>)
qed (use d in \<open>simp_all add: drag_to_def Let_def upd_win_def win_def emit_def\<close>)

lemma drag_to_on_screen:
  assumes "d < length (wm_windows s)" "draggable (win s d)"
  shows "fully_on_screen (win (drag_to d cx cy s) d)" "draggable (win (drag_to d cx cy s) d)"
proof -
  note w = drag_to_win [OF assms, of cx cy]
  have x: "0 < sint (ww_w (win s d))" "sint (ww_w (win s d)) \<le> WM_SCREEN_W" "0 < sint (ww_h (win s d))" "sint (ww_h (win s d)) \<le> WM_SCREEN_H"
    using assms(2) by (auto simp: draggable_def)
  show o: "fully_on_screen (win (drag_to d cx cy s) d)"
    unfolding fully_on_screen_def w(1-4) using clamp_move_range [OF x(1,2)] clamp_move_range [OF x(3,4)] by blast
  show "draggable (win (drag_to d cx cy s) d)" using o x w(3,4) by (auto simp: draggable_def fully_on_screen_def)
qed

lemma drag_to_box: "in_box s p \<Longrightarrow> in_box (drag_to d cx cy s) p"
  by (cases p) (auto simp: drag_to_def Let_def in_box_def emit_def upd_win_def)

lemma drag_to_covered:
  assumes d: "d < length (wm_windows s)" and w: "draggable (win s d)" and b: "\<And>p. covers (win s d) p \<Longrightarrow> in_box s p"
    and p: "covers (win (drag_to d cx cy s) d) p"
  shows "in_box (drag_to d cx cy s) p"
proof (cases "drag_to d cx cy s = s")
  case True
  then show ?thesis by (metis b p)
next
  case False
  note n = drag_to_win [OF d w, of cx cy]
  show ?thesis using p False unfolding covers_def n(1-4)
    by (cases p) (auto simp: drag_to_def Let_def in_box_def emit_def upd_win_def split: if_splits)
qed

text \<open>Along a drag, the box holds all that the window has covered.\<close>

lemma drag_path_box:
  assumes "d < length (wm_windows s)" "draggable (win s d)" "\<And>p. covers (win s d) p \<Longrightarrow> in_box s p" "in_box s p \<or> covers (win (drag_path d (take k moves) s) d) p"
  shows "in_box (drag_path d moves s) p"
  using assms
proof (induction moves arbitrary: s k)
  case Nil
  show ?case using Nil.prems(3) [of p] Nil.prems(4) by (auto simp: drag_path_def)
next
  case (Cons m moves)
  obtain cx cy where m: "m = (cx, cy)" by (cases m)
  let ?s = "drag_to d cx cy s"
  have step: "drag_path d (m # ms) s = drag_path d ms ?s" for ms by (simp add: drag_path_def m)
  have s: "d < length (wm_windows ?s)" "draggable (win ?s d)" using Cons.prems(1,2) drag_to_win(5) drag_to_on_screen(2) by auto
  have c: "\<And>q. covers (win ?s d) q \<Longrightarrow> in_box ?s q" using drag_to_covered [OF Cons.prems(1-3)] by blast
  have "in_box ?s p \<or> covers (win (drag_path d (take (k - 1) moves) ?s) d) p"
  proof (cases k)
    case 0
    have "in_box s p" using Cons.prems(3) [of p] Cons.prems(4) by (auto simp: drag_path_def 0)
    then show ?thesis using drag_to_box by blast
  next
    case (Suc j)
    then show ?thesis using Cons.prems(4) drag_to_box [of s p d cx cy] by (auto simp: step)
  qed
  then show ?case unfolding step by (intro Cons.IH [OF s, of "k - 1"] c)
qed

lemma drag_path_window:
  assumes "d < length (wm_windows s)" "draggable (win s d)"
  shows "d < length (wm_windows (drag_path d moves s)) \<and> draggable (win (drag_path d moves s) d)"
  using assms
proof (induction moves arbitrary: s)
  case (Cons m moves)
  obtain cx cy where "m = (cx, cy)" by (cases m)
  then show ?case using Cons.IH [of "drag_to d cx cy s"] Cons.prems drag_to_win(5) [OF Cons.prems] drag_to_on_screen(2) [OF Cons.prems]
    by (simp add: drag_path_def)
qed (simp add: drag_path_def)

lemma strips_cover:
  assumes "in_box s p" "0 < fw" "0 < fh"
  shows "(\<exists>r\<in>set (drag_strips (wm_min_x s) (wm_min_y s) (wm_max_x s) (wm_max_y s) fx fy fw fh). rect_has r p) \<or> rect_has (fx, fy, fw, fh) p"
proof -
  obtain a b where p: "p = (a, b)" by (cases p)
  let ?S = "drag_strips (wm_min_x s) (wm_min_y s) (wm_max_x s) (wm_max_y s) fx fy fw fh"
  have i: "wm_min_x s \<le> a" "a < wm_max_x s" "wm_min_y s \<le> b" "b < wm_max_y s" using assms(1) by (simp_all add: in_box_def p)
  consider "b < fy" | "fy + fh \<le> b" | "fy \<le> b" "b < fy + fh" "a < fx" | "fy \<le> b" "b < fy + fh" "fx + fw \<le> a" | "rect_has (fx, fy, fw, fh) p"
    unfolding p rect_has_def by fastforce
  then show ?thesis
  proof cases
    case 1
    then have "(wm_min_x s, wm_min_y s, wm_max_x s - wm_min_x s, fy - wm_min_y s) \<in> set ?S" using i by (simp add: drag_strips_def)
    then show ?thesis using 1 i by (intro disjI1 bexI) (auto simp: rect_has_def p)
  next
    case 2
    then have "(wm_min_x s, fy + fh, wm_max_x s - wm_min_x s, wm_max_y s - (fy + fh)) \<in> set ?S" using i by (simp add: drag_strips_def)
    then show ?thesis using 2 i by (intro disjI1 bexI) (auto simp: rect_has_def p)
  next
    case 3
    then have "(wm_min_x s, fy, fx - wm_min_x s, fh) \<in> set ?S" using i by (simp add: drag_strips_def)
    then show ?thesis using 3 i by (intro disjI1 bexI) (auto simp: rect_has_def p)
  next
    case 4
    then have "(fx + fw, fy, wm_max_x s - (fx + fw), fh) \<in> set ?S" using i by (simp add: drag_strips_def)
    then show ?thesis using 4 i by (intro disjI1 bexI) (auto simp: rect_has_def p)
  qed simp
qed

lemma start_drag_box:
  assumes "draggable (win s d)"
  shows "covers (win (start_drag d cx cy s) d) p \<Longrightarrow> in_box (start_drag d cx cy s) p"
    "win (start_drag d cx cy s) d = win s d" "wm_windows (start_drag d cx cy s) = wm_windows s"
proof -
  have "sint (a + b) = sint a + sint b" if "0 < sint b" "sint b \<le> 640" "sint a \<le> 0x10000" for a b :: u32
  proof -
    have "- 0x80000000 \<le> sint a" using sint_greater_eq [of a] by simp
    then show ?thesis using that by (simp add: signed_take_bit_int_eq_self sint_word_ariths(1))
  qed
  then have "sint (ww_x (win s d) + ww_w (win s d)) = sint (ww_x (win s d)) + sint (ww_w (win s d))"
    "sint (ww_y (win s d) + ww_h (win s d)) = sint (ww_y (win s d)) + sint (ww_h (win s d))"
    using assms by (auto simp: draggable_def)
  then show "covers (win (start_drag d cx cy s) d) p \<Longrightarrow> in_box (start_drag d cx cy s) p"
    by (cases p) (simp add: start_drag_def Let_def win_def covers_def in_box_def)
qed (simp_all add: start_drag_def Let_def win_def)


text \<open>C36: wherever the mouse goes, a window that fits the screen is entirely on it after each step of a drag.\<close>

theorem drag_stays_on_screen:
  assumes "d < length (wm_windows s)" "draggable (win s d)"
  shows "fully_on_screen (win (drag_to d cx cy (drag_path d moves s)) d)"
  using drag_path_window [OF assms, of moves] drag_to_on_screen(1) by blast

text \<open>A window of 140 by 100 at 20, 20, dragged to the right and down, then beyond the corner of the screen.\<close>

definition one_window :: wm where
  "one_window = (fill_rect 0 0 WM_SCREEN_W WM_SCREEN_H False (wm_start 1))\<lparr>wm_windows :=
     [\<lparr>ww_used = True, ww_owner_pid = 2, ww_x = 20, ww_y = 20, ww_w = 140, ww_h = 100, ww_title = [], ww_no_titlebar = False, ww_flags = 0\<rparr>]\<rparr>"

lemma one_window_draggable: "0 < length (wm_windows one_window)" "draggable (win one_window 0)"
  by (simp_all add: one_window_def win_def draggable_def)

lemma drag_stays_on_screen_witness: "fully_on_screen (win (drag_to 0 2000 2000 (drag_path 0 [(60, 90)] one_window)) 0)"
  by (rule drag_stays_on_screen [OF one_window_draggable])

text \<open>
  C37: a drag leaves nothing behind. Every pixel that the window covered where it was picked up, or after any of the moves, at the end
  it covers still, or the pixel lies in one of the strips that the release repairs.
\<close>

theorem drag_leaves_no_trail:
  assumes "d < length (wm_windows s)" "draggable (win s d)"
    and "covers (win (drag_path d (take k moves) (start_drag d cx cy s)) d) p"
  shows "covers (win (drag_path d moves (start_drag d cx cy s)) d) p \<or>
    (\<exists>r\<in>set (drag_left d (drag_path d moves (start_drag d cx cy s))). rect_has r p)"
proof -
  let ?s = "start_drag d cx cy s"
  let ?t = "drag_path d moves ?s"
  have w: "draggable (win ?s d)" "d < length (wm_windows ?s)" using assms(1,2) start_drag_box(2,3) [OF assms(2)] by simp_all
  have b: "in_box ?t p" using drag_path_box [OF w(2,1) start_drag_box(1) [OF assms(2)]] assms(3) by blast
  have "draggable (win ?t d)" using drag_path_window [OF w(2,1)] by blast
  then have e: "0 < sint (ww_w (win ?t d))" "0 < sint (ww_h (win ?t d))" by (auto simp: draggable_def)
  have c: "covers (win ?t d) p \<longleftrightarrow> rect_has (sint (ww_x (win ?t d)), sint (ww_y (win ?t d)), sint (ww_w (win ?t d)), sint (ww_h (win ?t d))) p"
    by (cases p) (auto simp: covers_def rect_has_def)
  show ?thesis unfolding c drag_left_def Let_def using strips_cover [OF b e] by blast
qed

lemma drag_leaves_no_trail_witness:
  "covers (win (drag_path 0 [(60, 90), (2000, 2000)] (start_drag 0 30 25 one_window)) 0) (21, 21) \<or>
   (\<exists>r\<in>set (drag_left 0 (drag_path 0 [(60, 90), (2000, 2000)] (start_drag 0 30 25 one_window))). rect_has r (21, 21))"
proof (rule drag_leaves_no_trail [OF one_window_draggable, where k = 0])
  show "covers (win (drag_path 0 (take 0 [(60, 90), (2000, 2000)]) (start_drag 0 30 25 one_window)) 0) (21, 21)"
    by (simp add: drag_path_def start_drag_def Let_def one_window_def win_def covers_def)
qed


section \<open>Windows that go while a step is under way\<close>

text \<open>Turns made of messages, key events and registers; what two applications send.\<close>

definition no_mouse :: hid_regs where "no_mouse = \<lparr>hr_info0 = 0, hr_info1 = 0, hr_cursor0 = 0, hr_cursor1 = 0\<rparr>"

definition mouse_at :: "u32 \<Rightarrow> u32 \<Rightarrow> u32 \<Rightarrow> hid_regs" where
  "mouse_at x y btn = \<lparr>hr_info0 = 0x02000000, hr_info1 = 0, hr_cursor0 = x + push_bit 10 y + push_bit 20 btn, hr_cursor1 = 0\<rparr>"

definition turn_of :: "wm_msg option list \<Rightarrow> u32 list \<Rightarrow> hid_regs \<Rightarrow> turn" where
  "turn_of msgs keys regs = \<lparr>tn_inbox = msgs, tn_runs = [], tn_keys = keys, tn_regs_x = regs, tn_regs_y = regs, tn_regs_btn = regs\<rparr>"

definition create_at :: "u32 \<Rightarrow> u32 \<Rightarrow> u32 \<Rightarrow> wm_msg" where
  "create_at pid x y = \<lparr>wx_from = pid, wx_subject = Z_WM_CREATE_WINDOW, wx_tag = 0,
     wx_obj = WmMap [''w'' \<mapsto> WmUint 50, ''h'' \<mapsto> WmUint 50, ''x'' \<mapsto> WmUint x, ''y'' \<mapsto> WmUint y]\<rparr>"

definition drawn_by :: "u32 \<Rightarrow> wm_msg" where
  "drawn_by pid = \<lparr>wx_from = pid, wx_subject = Z_WM_REDRAW_DONE, wx_tag = 0, wx_obj = WmVal WmOther\<rparr>"

definition destroy_of :: "u32 \<Rightarrow> u32 \<Rightarrow> wm_msg" where
  "destroy_of pid w = \<lparr>wx_from = pid, wx_subject = Z_WM_DESTROY_WINDOW, wx_tag = 0, wx_obj = WmVal (WmUint w)\<rparr>"

definition two_windows :: turn where
  "two_windows = turn_of [Some (create_at 2 100 100), Some (drawn_by 2), Some (create_at 3 300 100), Some (drawn_by 3)] [] no_mouse"

text \<open>The second process closes its window while the first one redraws.\<close>

definition closes_while_drawing :: "wm_msg option list" where
  "closes_while_drawing = [None, Some (destroy_of 3 2), Some (drawn_by 2)]"

lemma alt_tab_no_focus: "wm_bad (fold wm_turn [two_windows, turn_of closes_while_drawing [0x857] no_mouse] (wm_start 1))"
  by code_simp

definition drags_unused :: "wm \<Rightarrow> bool" where
  "drags_unused s \<longleftrightarrow> (case wm_dragging s of None \<Rightarrow> False | Some d \<Rightarrow> \<not> ww_used (win s d))"

text \<open>A click that moves the focus from one window to another, as a chain of steps.\<close>

definition repair_at :: "nat \<Rightarrow> wm \<Rightarrow> wm" where "repair_at i s = repair_win (handler s) i None s"

lemma focus_click_moves:
  assumes "wm_focused s = Some f" "f \<noteq> i"
  shows "focus_click i cx cy s =
    (let t = repair_at i (repair_at f (dock_to_front (snd (bring_to_front i (s\<lparr>wm_focused := Some i\<rparr>))))) in
     if hit_titlebar i cy t then start_drag i cx cy t else t)"
  using assms by (cases "bring_to_front i (s\<lparr>wm_focused := Some i\<rparr>)") (simp add: focus_click_def repair_at_def Let_def)

lemma drag_to_used [simp]: "drags_unused (drag_to d cx cy s) = drags_unused s"
proof -
  have "ww_used (win (upd_win d (\<lambda>w. w\<lparr>ww_x := x, ww_y := y\<rparr>) t) j) = ww_used (win t j)" for x y t j
    by (cases "d < length (wm_windows t)") (auto simp: upd_win_def win_def upd_nth_def nth_list_update list_update_beyond)
  then show ?thesis by (simp add: drag_to_def Let_def drags_unused_def emit_def upd_win_def win_def split: option.split)
qed

lemma mouse_press: "wm_last_btn s = 0 \<Longrightarrow> drags_unused (mouse cx cy 1 s) = drags_unused (click cx cy s)"
proof -
  assume b: "wm_last_btn s = 0"
  have u: "drags_unused (t\<lparr>wm_last_btn := x\<rparr>) = drags_unused t" for t x by (simp add: drags_unused_def win_def split: option.split)
  have "mouse cx cy 1 s =
      (case wm_dragging (click cx cy s) of None \<Rightarrow> click cx cy s | Some d \<Rightarrow> drag_to d cx cy (click cx cy s))\<lparr>wm_last_btn := 1\<rparr>"
    using b by (simp add: mouse_def Let_def split: option.split)
  then show ?thesis by (simp add: u split: option.split)
qed

text \<open>The press on the title bar of the second window: its registers, the state before it, and the state after the repairs.\<close>

definition before_press :: wm where "before_press = (wm_turn two_windows (wm_start 1))\<lparr>wm_runs := [], wm_inbox := drop 1 closes_while_drawing\<rparr>"

definition after_repairs :: wm where
  "after_repairs = repair_at 2 (repair_at 1 (dock_to_front (snd (bring_to_front 2 (before_press\<lparr>wm_focused := Some 2\<rparr>)))))"

lemma before_press_facts:
  "wm_focused before_press = Some 1" "hit_test 310 103 before_press = Some 2" "wm_dock before_press = Some 0"
  "\<not> hit_close_icon 2 310 103 before_press" "wm_last_btn before_press = 0" "wm_launching before_press = [False, False]"
  by code_simp+

lemma after_repairs_facts: "hit_titlebar 2 103 after_repairs" "\<not> ww_used (win after_repairs 2)"
  by code_simp+

lemma press_turn: "wm_turn (turn_of closes_while_drawing [] (mouse_at 310 103 1)) (wm_turn two_windows (wm_start 1)) = mouse 310 103 1 before_press"
proof -
  have p: "mouse_port (mouse_at 310 103 1) = 0" by (simp add: mouse_port_def mouse_at_def Let_def)
  have r: "get_cursor_x (mouse_at 310 103 1) = 310" "get_cursor_y (mouse_at 310 103 1) = 103" "get_mouse_btn (mouse_at 310 103 1) = 1"
    by (simp_all add: get_cursor_x_def get_cursor_y_def get_mouse_btn_def hid_cursor_def p) (simp_all add: mouse_at_def)
  have "\<not> wm_launching before_press ! i" if "i < 2" for i
    using that before_press_facts(6) by (auto simp: less_2_cases_iff)
  then have "fold launch_timeout [0, 1] before_press = before_press" by (simp add: launch_timeout_def)
  then show ?thesis
    by (subst wm_turn_def) (simp add: turn_of_def r dispatch_keys_def Let_def closes_while_drawing_def before_press_def upt_rec)
qed

lemma drag_no_window: "drags_unused (fold wm_turn [two_windows, turn_of closes_while_drawing [] (mouse_at 310 103 1)] (wm_start 1))"
proof -
  have "click 310 103 before_press = start_drag 2 310 103 after_repairs"
    using before_press_facts focus_click_moves [of before_press 1 2] after_repairs_facts(1)
    by (simp add: click_def after_repairs_def Let_def)
  then have "drags_unused (mouse 310 103 1 before_press)" using mouse_press [OF before_press_facts(5)] after_repairs_facts(2)
    by (simp add: drags_unused_def start_drag_def Let_def win_def)
  then show ?thesis by (simp add: press_turn)
qed


end
