(* ===== verification/Win.thy ===== *)
theory Win
  imports Gfx Stream
begin

text \<open>
  The window calls of applications (\<open>src/sw/common/zwin.c\<close>, \<open>zwin.h\<close>): the requests to the window manager, the reading of its answers,
  the content area of a window and the drawing that is clipped to it. Additions of coordinates wrap as the unsigned fields of the record
  do, and are then read as signed.
\<close>

section \<open>Messages with maps\<close>

text \<open>
  A value of a message; an integer with a sign is known by its bits. Of a map the code only looks up keys. A value that is read without
  a look at its type gives whatever lies there: \<open>junk\<close>.
\<close>

datatype wval = WVal sobj | WInt u32

datatype wobj = WPlain wval | WMap "string \<Rightarrow> wval option"

definition raw_uint :: "(sobj \<Rightarrow> u32) \<Rightarrow> wval \<Rightarrow> u32" where
  "raw_uint junk v = (case v of WInt i \<Rightarrow> i | WVal obj \<Rightarrow> (case obj of SUint u \<Rightarrow> u | _ \<Rightarrow> junk obj))"

definition z_map_find_key :: "wobj \<Rightarrow> string \<Rightarrow> wval option" where
  "z_map_find_key obj key = (case obj of WMap m \<Rightarrow> m key | WPlain v \<Rightarrow> None)"

section \<open>Windows\<close>

abbreviation Z_WM_TITLEBAR_HEIGHT :: u32 where "Z_WM_TITLEBAR_HEIGHT \<equiv> 11"
abbreviation Z_PID_WM :: u32 where "Z_PID_WM \<equiv> 1"
abbreviation Z_WM_CREATE_WINDOW_SUBJECT :: u32 where "Z_WM_CREATE_WINDOW_SUBJECT \<equiv> 100"
abbreviation Z_WM_DESTROY_WINDOW_SUBJECT :: u32 where "Z_WM_DESTROY_WINDOW_SUBJECT \<equiv> 102"
abbreviation Z_WM_REDRAW_DONE_SUBJECT :: u32 where "Z_WM_REDRAW_DONE_SUBJECT \<equiv> 105"

record z_win =
  wi_id :: u32
  wi_x :: u32
  wi_y :: u32
  wi_w :: u32
  wi_h :: u32

text \<open>The answer of the registry for the window manager's name is looked at the first time only.\<close>

definition resolve_wm_pid :: "u32 option \<Rightarrow> u32 option \<Rightarrow> u32 \<times> u32 option" where
  "resolve_wm_pid lookup cache =
     (case cache of
        Some pid \<Rightarrow> (pid, cache)
      | None \<Rightarrow> let pid = (case lookup of Some p \<Rightarrow> p | None \<Rightarrow> Z_PID_WM) in (pid, Some pid))"

definition z_win_parse_rect :: "(sobj \<Rightarrow> u32) \<Rightarrow> wobj \<Rightarrow> z_win \<Rightarrow> bool \<times> z_win" where
  "z_win_parse_rect junk obj win =
     (case z_map_find_key obj ''id'' of
        Some (WInt i) \<Rightarrow>
          let win = win\<lparr>wi_id := i\<rparr> in
          if sint i < 0 then (True, win)
          else
            (case (z_map_find_key obj ''x'', z_map_find_key obj ''y'', z_map_find_key obj ''w'', z_map_find_key obj ''h'') of
               (Some x, Some y, Some w, Some h) \<Rightarrow>
                 (True, win\<lparr>wi_x := raw_uint junk x, wi_y := raw_uint junk y, wi_w := raw_uint junk w, wi_h := raw_uint junk h\<rparr>)
             | _ \<Rightarrow> (False, win))
      | _ \<Rightarrow> (False, win))"

text \<open>What is put into the request: the size and the flags only when they are not zero, the place only when it is not negative.\<close>

definition create_args :: "string option \<Rightarrow> u32 \<Rightarrow> u32 \<Rightarrow> int \<Rightarrow> int \<Rightarrow> u32 \<Rightarrow> string \<Rightarrow> wval option" where
  "create_args title w h x y flags =
     (let m = [''title'' \<mapsto> WVal (SStr (Some (case title of Some t \<Rightarrow> t | None \<Rightarrow> [])))];
          m = (if w \<noteq> 0 then m(''w'' \<mapsto> WVal (SUint w)) else m);
          m = (if h \<noteq> 0 then m(''h'' \<mapsto> WVal (SUint h)) else m);
          m = (if x \<ge> 0 \<and> y \<ge> 0 then m(''x'' \<mapsto> WVal (SUint (of_int x)), ''y'' \<mapsto> WVal (SUint (of_int y))) else m) in
      if flags \<noteq> 0 then m(''flags'' \<mapsto> WVal (SUint flags)) else m)"

record wm_request =
  wr_to :: u32
  wr_subject :: u32
  wr_obj :: wobj

text \<open>\<open>reply\<close> is the object of the answer that the wait ends with, if it ends.\<close>

definition z_win_create_flags ::
  "(sobj \<Rightarrow> u32) \<Rightarrow> u32 \<Rightarrow> wobj option \<Rightarrow> string option \<Rightarrow> u32 \<Rightarrow> u32 \<Rightarrow> int \<Rightarrow> int \<Rightarrow> u32 \<Rightarrow> z_win \<Rightarrow> (bool \<times> z_win) option \<times> wm_request" where
  "z_win_create_flags junk wm_pid reply title w h x y flags win =
     (map_option (\<lambda>obj. let (ok, win) = z_win_parse_rect junk obj win in (ok \<and> \<not> sint (wi_id win) < 0, win)) reply,
      \<lparr>wr_to = wm_pid, wr_subject = Z_WM_CREATE_WINDOW_SUBJECT, wr_obj = WMap (create_args title w h x y flags)\<rparr>)"

definition z_win_create_ex where
  "z_win_create_ex junk wm_pid reply title w h x y = z_win_create_flags junk wm_pid reply title w h x y 0"

definition z_win_create where
  "z_win_create junk wm_pid reply title w h = z_win_create_ex junk wm_pid reply title w h (-1) (-1)"

definition z_win_apply_redraw :: "u32 \<Rightarrow> z_win \<Rightarrow> z_win" where
  "z_win_apply_redraw packed win = win\<lparr>wi_x := drop_bit 10 packed AND 0x3FF, wi_y := packed AND 0x3FF\<rparr>"

definition z_win_redraw_done :: "u32 \<Rightarrow> z_win \<Rightarrow> smsg" where
  "z_win_redraw_done wm_pid win = z_msg_new wm_pid Z_WM_REDRAW_DONE_SUBJECT 0 (SUint (wi_id win))"

definition z_win_destroy :: "u32 \<Rightarrow> z_win \<Rightarrow> smsg list" where
  "z_win_destroy wm_pid win = (if sint (wi_id win) < 0 then [] else [z_msg_new wm_pid Z_WM_DESTROY_WINDOW_SUBJECT 0 (SUint (wi_id win))])"

section \<open>Drawing inside a window\<close>

definition z_win_content_rect :: "z_win \<Rightarrow> z_clip" where
  "z_win_content_rect win =
     \<lparr>cl_x0 = sint (wi_x win + 2), cl_y0 = sint (wi_y win + Z_WM_TITLEBAR_HEIGHT + 2),
      cl_x1 = sint (wi_x win + wi_w win - 3), cl_y1 = sint (wi_y win + wi_h win - 3)\<rparr>"

definition z_win_fill_rect :: "z_win \<Rightarrow> int \<Rightarrow> int \<Rightarrow> int \<Rightarrow> int \<Rightarrow> bool \<Rightarrow> vram \<Rightarrow> vram" where
  "z_win_fill_rect win x y w h color =
     (let clip = z_win_content_rect win in
      z_fb_fill_rect (sint (wi_x win + of_int x)) (cl_y0 clip + y) w h color (Some clip))"

definition z_win_clear :: "z_win \<Rightarrow> vram \<Rightarrow> vram" where
  "z_win_clear win = z_win_fill_rect win 0 0 (sint (wi_w win)) (sint (wi_h win)) False"

definition z_win_draw_text :: "z_win \<Rightarrow> int \<Rightarrow> int \<Rightarrow> nat list \<Rightarrow> bool \<Rightarrow> z_font \<Rightarrow> vram \<Rightarrow> vram" where
  "z_win_draw_text win x y s color font =
     (let clip = z_win_content_rect win in
      z_fb_draw_text (sint (wi_x win + of_int x)) (cl_y0 clip + y) s color font (Some clip))"

definition z_win_hw_line :: "z_win \<Rightarrow> int \<Rightarrow> int \<Rightarrow> int \<Rightarrow> int \<Rightarrow> bool \<Rightarrow> line_call" where
  "z_win_hw_line win x0 y0 x1 y1 color = z_fb_hw_line x0 y0 x1 y1 color (Some (z_win_content_rect win))"

definition z_win_hw_box :: "z_win \<Rightarrow> int \<Rightarrow> int \<Rightarrow> int \<Rightarrow> int \<Rightarrow> bool \<Rightarrow> line_call list" where
  "z_win_hw_box win x0 y0 x1 y1 color = z_fb_hw_box x0 y0 x1 y1 color (Some (z_win_content_rect win))"

section \<open>What the calls draw\<close>

text \<open>A window whose additions do not wrap.\<close>

definition win_small :: "z_win \<Rightarrow> bool" where
  "win_small win \<longleftrightarrow> 0 \<le> sint (wi_x win) \<and> sint (wi_x win) \<le> 0x10000 \<and> 0 \<le> sint (wi_y win) \<and> sint (wi_y win) \<le> 0x10000 \<and>
     3 \<le> sint (wi_w win) \<and> sint (wi_w win) \<le> 0x10000 \<and> 3 \<le> sint (wi_h win) \<and> sint (wi_h win) \<le> 0x10000"

lemma sint_add_small:
  "- 0x20000000 \<le> sint (a :: u32) \<Longrightarrow> sint a \<le> 0x20000000 \<Longrightarrow> - 0x20000000 \<le> sint b \<Longrightarrow> sint b \<le> 0x20000000 \<Longrightarrow> sint (a + b) = sint a + sint b"
  by (simp add: signed_take_bit_int_eq_self sint_word_ariths(1))

lemma sint_sub_small:
  "- 0x20000000 \<le> sint (a :: u32) \<Longrightarrow> sint a \<le> 0x20000000 \<Longrightarrow> - 0x20000000 \<le> sint b \<Longrightarrow> sint b \<le> 0x20000000 \<Longrightarrow> sint (a - b) = sint a - sint b"
  by (simp add: signed_take_bit_int_eq_self sint_word_ariths(2))

lemma content_rect_small:
  assumes "win_small win"
  shows "z_win_content_rect win = \<lparr>cl_x0 = sint (wi_x win) + 2, cl_y0 = sint (wi_y win) + 13,
    cl_x1 = sint (wi_x win) + sint (wi_w win) - 3, cl_y1 = sint (wi_y win) + sint (wi_h win) - 3\<rparr>"
  using assms by (simp add: z_win_content_rect_def win_small_def sint_add_small sint_sub_small)

text \<open>Clearing reaches every pixel of the content area on the screen, and no other.\<close>

lemma z_win_clear_pixels:
  assumes "win_small win"
  shows "pixel n (z_win_clear win v) =
    (if on_screen n \<and> in_clip (px_col n) (px_row n) (Some (z_win_content_rect win)) then False else pixel n v)"
  using assms unfolding z_win_clear_def z_win_fill_rect_def Let_def pixel_fill content_rect_small [OF assms]
  by (auto simp: in_rect_def in_clip_def win_small_def)

text \<open>
  Text at the left edge loses its first two columns: the call takes its coordinate from the edge of the window, the clip begins two
  pixels further in.
\<close>

lemma pixel_ink_clipped:
  "\<not> in_clip (px_col n) (px_row n) clip \<Longrightarrow> pixel n (z_fb_draw_text x y s color font clip v) = pixel n v"
proof -
  assume c: "\<not> in_clip (px_col n) (px_row n) clip"
  have "pixel n (text_from (\<lambda>cx cy c. z_fb_draw_char cx cy c color font clip) font x cx cy s v) = pixel n v" for x cx cy v
    using c by (induction s arbitrary: cx cy v) (auto simp: z_fb_draw_char_def pixel_ink)
  then show ?thesis by (simp add: z_fb_draw_text_def)
qed

lemma z_win_draw_text_cut:
  assumes "win_small win" "px_col n < sint (wi_x win) + 2"
  shows "pixel n (z_win_draw_text win 0 y s color font v) = pixel n v"
  unfolding z_win_draw_text_def Let_def
  by (rule pixel_ink_clipped) (use assms(2) in \<open>simp add: content_rect_small [OF assms(1)] in_clip_def\<close>)

end
