(* ===== verification/Terminal.thy ===== *)
theory Terminal
  imports Vt100 Port Win
begin

text \<open>
  The terminal application (\<open>src/sw/apps/term/term.c\<close>): keys to bytes, the relay between the keyboard, a port and the terminal emulation,
  and the renderer, which redraws dirty rows and keeps track of where it drew the cursor. The framebuffer is part of the state. \<open>None\<close> is
  a step whose waiting did not end within its list, or that read or wrote outside the grid.
\<close>

section \<open>State\<close>

abbreviation Z_WM_REDRAW_SUBJECT :: u32 where "Z_WM_REDRAW_SUBJECT \<equiv> 104"
abbreviation Z_WM_WINDOW_MOVED_SUBJECT :: u32 where "Z_WM_WINDOW_MOVED_SUBJECT \<equiv> 103"
abbreviation Z_WM_KEY_SUBJECT :: u32 where "Z_WM_KEY_SUBJECT \<equiv> 106"
abbreviation Z_TERM_SET_PORT :: u32 where "Z_TERM_SET_PORT \<equiv> 140"
abbreviation Z_PID_REPL :: u32 where "Z_PID_REPL \<equiv> 3"
abbreviation Z_KEY_F12 :: u32 where "Z_KEY_F12 \<equiv> 0x11B"
abbreviation TERM_TELNET_CONNECT_TIMEOUT_TICKS :: u32 where "TERM_TELNET_CONNECT_TIMEOUT_TICKS \<equiv> 732 * 45"
abbreviation RESWEEP_COLS :: int where "RESWEEP_COLS \<equiv> 13"

record terminal =
  tm_vt :: vt_screen
  tm_win :: z_win
  tm_port :: z_port
  tm_h :: blobs
  tm_draw_x :: int
  tm_draw_y :: int
  tm_fb :: vram
  tm_out :: "smsg list"

text \<open>A message, and what the kernel answers while it is handled.\<close>

record term_msg =
  mx_from :: u32
  mx_subject :: u32
  mx_tag :: u32
  mx_obj :: wobj
  mx_data :: "u8 list"
  mx_sent :: bool
  mx_start :: u32
  mx_acks :: "(bool \<times> u32) list"
  mx_waits :: "(u32 \<times> rmsg option) list"
  mx_pid :: "string \<Rightarrow> u32 option"

section \<open>Drawing\<close>

text \<open>One cell, by the blitter, out of the glyph memory \<open>glyphs\<close>, or in software.\<close>

definition draw_cell :: "z_font \<Rightarrow> (nat \<Rightarrow> u8) \<Rightarrow> int \<Rightarrow> int \<Rightarrow> u8 \<Rightarrow> bool \<Rightarrow> terminal \<Rightarrow> terminal" where
  "draw_cell font glyphs col row ch reverse s =
     (let clip = z_win_content_rect (tm_win s); x = cl_x0 clip + col * int (ft_w font); y = cl_y0 clip + row * int (ft_h font) in
      s\<lparr>tm_fb := char_effect (hw_draw_char2 x y (unat ch) (\<not> reverse) reverse font (Some clip)) glyphs (tm_fb s)\<rparr>)"

definition vt_cell_at :: "terminal \<Rightarrow> int \<Rightarrow> int \<Rightarrow> vt_cell" where "vt_cell_at s row col = vt_cells (tm_vt s) ! nat row ! nat col"

definition draw_at :: "z_font \<Rightarrow> (nat \<Rightarrow> u8) \<Rightarrow> int \<Rightarrow> int \<Rightarrow> terminal \<Rightarrow> terminal" where
  "draw_at font glyphs col row s = draw_cell font glyphs col row (vc_ch (vt_cell_at s row col)) (vc_reverse (vt_cell_at s row col)) s"

definition resweep_right_of_cursor :: "z_font \<Rightarrow> (nat \<Rightarrow> u8) \<Rightarrow> terminal \<Rightarrow> terminal" where
  "resweep_right_of_cursor font glyphs s =
     (let row = vt_cursor_y (tm_vt s) in
      if row < 0 \<or> row \<ge> VT_ROWS then s
      else
        let start_col = vt_cursor_x (tm_vt s) + 1; end_col = start_col + RESWEEP_COLS;
            end_col = (if end_col > VT_COLS then VT_COLS else end_col) in
        fold (\<lambda>col. draw_at font glyphs col row) [start_col..end_col - 1] s)"

definition draw_row :: "z_font \<Rightarrow> (nat \<Rightarrow> u8) \<Rightarrow> int \<Rightarrow> terminal \<Rightarrow> terminal" where
  "draw_row font glyphs row = fold (\<lambda>col. draw_at font glyphs col row) [0..VT_COLS - 1]"

text \<open>The cursor is drawn where it stands, in the last column while a wrap is pending.\<close>

definition cursor_cell :: "vt_screen \<Rightarrow> int \<times> int" where
  "cursor_cell vt = (if vt_cursor_x vt \<ge> VT_COLS then VT_COLS - 1 else vt_cursor_x vt, vt_cursor_y vt)"

definition draw_cursor :: "z_font \<Rightarrow> (nat \<Rightarrow> u8) \<Rightarrow> bool list \<Rightarrow> int \<times> int \<Rightarrow> terminal \<Rightarrow> terminal" where
  "draw_cursor font glyphs was_dirty cur s =
     (let s = (if tm_draw_y s \<ge> 0 \<and> tm_draw_y s < VT_ROWS \<and> \<not> was_dirty ! nat (tm_draw_y s) then draw_at font glyphs (tm_draw_x s) (tm_draw_y s) s else s);
          (cur_x, cur_y) = cur; cell = vt_cell_at s cur_y cur_x;
          s = draw_cell font glyphs cur_x cur_y (vc_ch cell) (\<not> vc_reverse cell) s in
      s\<lparr>tm_draw_x := cur_x, tm_draw_y := cur_y\<rparr>)"

definition render :: "z_font \<Rightarrow> (nat \<Rightarrow> u8) \<Rightarrow> terminal \<Rightarrow> terminal option" where
  "render font glyphs s =
     (let was_dirty = map (\<lambda>row. vt_row_dirty row (tm_vt s)) [0..VT_ROWS - 1]; any_dirty = (True \<in> set was_dirty);
          s = fold (\<lambda>row s. if was_dirty ! nat row then draw_row font glyphs row s else s) [0..VT_ROWS - 1] s;
          s = s\<lparr>tm_vt := vt_clear_dirty (tm_vt s)\<rparr>;
          (cur_x, cur_y) = cursor_cell (tm_vt s) in
      if \<not> any_dirty \<and> cur_x = tm_draw_x s \<and> cur_y = tm_draw_y s then Some s
      else if cur_x < 0 \<or> cur_y < 0 \<or> cur_y \<ge> VT_ROWS then None
      else
        let s = draw_cursor font glyphs was_dirty (cur_x, cur_y) s in
        Some (if any_dirty then resweep_right_of_cursor font glyphs s else s))"

section \<open>Keys and ports\<close>

definition feed :: "u8 list \<Rightarrow> terminal \<Rightarrow> terminal option" where
  "feed bs s = map_option (\<lambda>vt. s\<lparr>tm_vt := vt\<rparr>) (vt_feed bs (tm_vt s))"

definition feed_and_echo :: "string \<Rightarrow> terminal \<Rightarrow> terminal option" where
  "feed_and_echo t = feed (bytes t)"

definition send_out :: "smsg list \<Rightarrow> terminal \<Rightarrow> terminal" where "send_out ms s = s\<lparr>tm_out := tm_out s @ ms\<rparr>"

definition connect_port :: "(sobj \<Rightarrow> u32) \<Rightarrow> term_msg \<Rightarrow> string \<Rightarrow> u32 \<Rightarrow> sobj \<Rightarrow> u32 \<Rightarrow> terminal \<Rightarrow> terminal option" where
  "connect_port junk m name fallback_pid arg timeout_ticks s =
     (let s = (if zp_connected (tm_port s)
               then case z_port_close (tm_port s) of (p, outs) \<Rightarrow> send_out outs (s\<lparr>tm_port := p\<rparr>) else s) in
      case (case mx_pid m name of Some pid \<Rightarrow> Some pid | None \<Rightarrow> if fallback_pid = 0 then None else Some fallback_pid) of
        None \<Rightarrow> Some s
      | Some target_pid \<Rightarrow>
          (case z_port_connect_arg_timeout junk target_pid arg timeout_ticks (mx_start m) (mx_waits m) (tm_port s) of
             (r, outs) \<Rightarrow> map_option (\<lambda>(ok, p). send_out outs (s\<lparr>tm_port := p\<rparr>)) r))"

definition key_table :: "(u32 \<times> string) list" where
  "key_table =
     [(0x100, ''[A''), (0x101, ''[B''), (0x103, ''[C''), (0x102, ''[D''), (0x104, ''[H''), (0x105, ''[F''),
      (0x106, ''[5~''), (0x107, ''[6~''), (0x108, ''[2~''), (0x109, ''[3~''),
      (0x110, ''OP''), (0x111, ''OQ''), (0x112, ''OR''), (0x113, ''OS''), (0x114, ''[15~''), (0x115, ''[17~''),
      (0x116, ''[18~''), (0x117, ''[19~''), (0x118, ''[20~''), (0x119, ''[21~''), (0x11A, ''[23~''), (0x11B, ''[24~'')]"

definition key_to_bytes :: "u32 \<Rightarrow> nat \<Rightarrow> u8 list" where
  "key_to_bytes keysym buflen =
     (case map_of key_table keysym of
        Some seq \<Rightarrow> (let s = 0x1B # bytes seq in if length s > buflen then [] else s)
      | None \<Rightarrow> if keysym = 0 \<or> keysym \<ge> 0x80 then [] else [ucast keysym])"

text \<open>Without a port the keys are echoed locally.\<close>

definition local_echo :: "u8 list \<Rightarrow> terminal \<Rightarrow> terminal option" where
  "local_echo buf s =
     (if buf = [0x7F] then feed_and_echo [CHR 0x08, CHR 0x20, CHR 0x08] s
      else Option.bind (feed buf s) (\<lambda>s. if buf = [0x0D] then feed [0x0A] s else Some s))"

definition handle_key_event :: "(sobj \<Rightarrow> u32) \<Rightarrow> term_msg \<Rightarrow> u32 \<Rightarrow> terminal \<Rightarrow> terminal option" where
  "handle_key_event junk m packed s =
     (let keysym = drop_bit 9 packed AND 0x7FFF; pressed = (packed AND 1 \<noteq> 0) in
      if \<not> pressed then Some s
      else if keysym = Z_KEY_F12 then connect_port junk m ''repl0'' Z_PID_REPL SNone Z_PORT_CONNECT_TIMEOUT_TICKS s
      else
        let buf = key_to_bytes keysym 8 in
        if buf = [] then Some s
        else if zp_connected (tm_port s) then
          (case z_port_send buf (mx_sent m) (tm_port s) (tm_h s) of
             (ok, p, h, outs) \<Rightarrow> Some (send_out outs (s\<lparr>tm_port := p, tm_h := h\<rparr>)))
        else local_echo buf s)"

section \<open>Messages\<close>

definition port_msg :: "term_msg \<Rightarrow> rmsg" where
  "port_msg m = \<lparr>rm_from = mx_from m, rm_subject = mx_subject m, rm_tag = mx_tag m,
     rm_obj = (case mx_obj m of WPlain (WVal obj) \<Rightarrow> obj | _ \<Rightarrow> SOther)\<rparr>"

definition obj_uint :: "(sobj \<Rightarrow> u32) \<Rightarrow> wobj \<Rightarrow> u32" where
  "obj_uint junk obj = (case obj of WPlain v \<Rightarrow> raw_uint junk v | WMap m \<Rightarrow> junk SOther)"

definition port_data :: "term_msg \<Rightarrow> terminal \<Rightarrow> terminal option" where
  "port_data m s =
     (let data = (case mx_obj m of WPlain (WVal (SBlob a)) \<Rightarrow> mx_data m | _ \<Rightarrow> []) in
      Option.bind (if zp_connected (tm_port s) \<and> mx_tag m = zp_conn_id (tm_port s) then feed data s else Some s) (\<lambda>s.
        map_option (\<lambda>outs. send_out outs s) (z_port_send_ack (mx_start m) (mx_acks m) (port_msg m))))"

definition set_port :: "(sobj \<Rightarrow> u32) \<Rightarrow> term_msg \<Rightarrow> terminal \<Rightarrow> terminal option" where
  "set_port junk m s =
     (case mx_obj m of
        WPlain (WVal (SStr (Some name))) \<Rightarrow> connect_port junk m name 0 SNone Z_PORT_CONNECT_TIMEOUT_TICKS s
      | WMap f \<Rightarrow>
          (case f ''name'' of
             Some (WVal (SStr (Some name))) \<Rightarrow>
               connect_port junk m name 0
                 (case f ''arg'' of Some (WVal obj) \<Rightarrow> obj | Some (WInt i) \<Rightarrow> SOther | None \<Rightarrow> SNone) TERM_TELNET_CONNECT_TIMEOUT_TICKS s
           | _ \<Rightarrow> Some s)
      | _ \<Rightarrow> Some s)"

definition term_handle :: "(sobj \<Rightarrow> u32) \<Rightarrow> term_msg \<Rightarrow> terminal \<Rightarrow> terminal option" where
  "term_handle junk m s =
     (if mx_subject m = Z_WM_REDRAW_SUBJECT then Some (s\<lparr>tm_win := z_win_apply_redraw (obj_uint junk (mx_obj m)) (tm_win s)\<rparr>)
      else if mx_subject m = Z_WM_WINDOW_MOVED_SUBJECT then Some (s\<lparr>tm_win := snd (z_win_parse_rect junk (mx_obj m) (tm_win s))\<rparr>)
      else if mx_subject m = Z_WM_KEY_SUBJECT then handle_key_event junk m (obj_uint junk (mx_obj m)) s
      else if mx_subject m = Z_PORT_DATA then port_data m s
      else if mx_subject m = Z_PORT_DATA_ACK then
        (case z_port_handle_ack (tm_port s) (port_msg m) (tm_h s) of (p, h) \<Rightarrow> Some (s\<lparr>tm_port := p, tm_h := h\<rparr>))
      else if mx_subject m = Z_PORT_CLOSE then
        Some (if zp_connected (tm_port s) \<and> mx_tag m = zp_conn_id (tm_port s) then s\<lparr>tm_port := (tm_port s)\<lparr>zp_connected := False\<rparr>\<rparr> else s)
      else if mx_subject m = Z_TERM_SET_PORT then set_port junk m s
      else Some s)"

fun term_messages :: "(sobj \<Rightarrow> u32) \<Rightarrow> term_msg list \<Rightarrow> terminal \<Rightarrow> terminal option" where
  "term_messages junk [] s = Some s"
| "term_messages junk (m # ms) s = Option.bind (term_handle junk m s) (term_messages junk ms)"

definition repaint :: "terminal \<Rightarrow> terminal" where
  "repaint s = s\<lparr>tm_vt := vt_mark_all_dirty (tm_vt s), tm_draw_x := -1, tm_draw_y := -1\<rparr>"

text \<open>One turn of the main loop over the messages it finds.\<close>

definition got_redraw :: "term_msg list \<Rightarrow> bool" where "got_redraw ms \<longleftrightarrow> (\<exists>m\<in>set ms. mx_subject m = Z_WM_REDRAW_SUBJECT)"

definition term_turn :: "(sobj \<Rightarrow> u32) \<Rightarrow> z_font \<Rightarrow> (nat \<Rightarrow> u8) \<Rightarrow> u32 \<Rightarrow> term_msg list \<Rightarrow> terminal \<Rightarrow> terminal option" where
  "term_turn junk font glyphs wm_pid ms s =
     Option.bind (term_messages junk ms s) (\<lambda>s.
       map_option (\<lambda>s. if got_redraw ms then send_out [z_win_redraw_done wm_pid (tm_win s)] s else s)
         (render font glyphs (if got_redraw ms then repaint s else s)))"

text \<open>The start, with the window that the window manager has created.\<close>

definition term_size :: "z_font \<Rightarrow> u32 \<times> u32" where
  "term_size font = (of_int (VT_COLS * int (ft_w font) + 4), of_int (VT_ROWS * int (ft_h font)) + Z_WM_TITLEBAR_HEIGHT + 4)"

definition term_start :: "(nat \<Rightarrow> bool) \<Rightarrow> (sobj \<Rightarrow> u32) \<Rightarrow> term_msg \<Rightarrow> z_win \<Rightarrow> vram \<Rightarrow> terminal option" where
  "term_start alloc junk m win fb =
     connect_port junk m ''repl0'' Z_PID_REPL SNone Z_PORT_CONNECT_TIMEOUT_TICKS
       \<lparr>tm_vt = vt_init, tm_win = win,
        tm_port = \<lparr>zp_peer_pid = 0, zp_conn_id = 0, zp_connected = False, zp_pending = replicate Z_PORT_MAX_PENDING_SENDS 0,
          zp_pending_head = 0, zp_pending_count = 0\<rparr>,
        tm_h = \<lparr>bl_next = 0, bl_ok = alloc, bl_data = \<lambda>_. None\<rparr>, tm_draw_x = -1, tm_draw_y = -1, tm_fb = fb, tm_out = []\<rparr>"


section \<open>The grid holds printable characters only\<close>

definition printable :: "vt_cell \<Rightarrow> bool" where "printable cell \<longleftrightarrow> 0x20 \<le> vc_ch cell \<and> vc_ch cell < 0x7F"

definition cells_text :: "vt_screen \<Rightarrow> bool" where
  "cells_text vt \<longleftrightarrow> (\<forall>r<25. \<forall>c<80. printable (vt_cells vt ! r ! c))"

lemma cells_text_same: "vt_cells b = vt_cells a \<Longrightarrow> cells_text a \<Longrightarrow> cells_text b"
  by (simp add: cells_text_def)

lemma blank_printable [simp]: "printable (blank r)"
  by (simp add: printable_def blank_def)

lemma set_cell_text:
  assumes "set_cell r c cell vt = Some vt'" "cells_text vt" "printable cell"
  shows "cells_text vt'"
proof -
  have v: "vt_cells vt' = upd_nth (nat r) (\<lambda>cs. cs[nat c := cell]) (vt_cells vt)" using assms(1) by (auto simp: set_cell_def split: if_splits)
  have n: "xs[i := x] ! j = (if i = j \<and> i < length xs then x else xs ! j)" for xs :: "'x list" and i j x
    by (cases "i < length xs") (auto simp: nth_list_update list_update_beyond)
  have "printable (vt_cells vt' ! i ! j)" if "i < 25" "j < 80" for i j
    using assms(2,3) that by (auto simp: v upd_nth_def n cells_text_def)
  then show ?thesis by (simp add: cells_text_def)
qed

lemma fold_mark_cells: "vt_cells (fold mark_dirty rs vt) = vt_cells vt"
  using fold_mark_dirty_frame by blast

lemma newline_text: "cells_text vt \<Longrightarrow> cells_text (newline vt)"
  by (auto simp: newline_def Let_def scroll_up_def fold_mark_cells cells_text_def)

lemma put_char_text:
  assumes "put_char c vt = Some vt'" "cells_text vt" "0x20 \<le> c" "c < 0x7F"
  shows "cells_text vt'"
proof -
  let ?vt = "if vt_cursor_x vt \<ge> VT_COLS then newline (vt\<lparr>vt_cursor_x := 0\<rparr>) else vt"
  obtain v1 where 1: "set_cell (vt_cursor_y ?vt) (vt_cursor_x ?vt) \<lparr>vc_ch = c, vc_reverse = vt_reverse ?vt\<rparr> ?vt = Some v1"
    "vt' = (mark_dirty (vt_cursor_y v1) v1)\<lparr>vt_cursor_x := wrap32 (vt_cursor_x v1 + 1)\<rparr>"
    using assms(1) by (auto simp: put_char_def Let_def)
  have "cells_text (vt\<lparr>vt_cursor_x := 0\<rparr>)" using assms(2) by (simp add: cells_text_def)
  then have "cells_text ?vt" using assms(2) newline_text by simp
  then have "cells_text v1" by (rule set_cell_text [OF 1(1)]) (use assms(3,4) in \<open>simp add: printable_def\<close>)
  then show ?thesis unfolding 1(2) by (simp add: cells_text_def mark_dirty_frame)
qed

lemma erase_cells_text: "erase_cells ps vt = Some vt' \<Longrightarrow> cells_text vt \<Longrightarrow> cells_text vt'"
proof (induction ps arbitrary: vt)
  case (Cons p ps)
  obtain r c where p: "p = (r, c)" by fastforce
  obtain vt1 where "erase_cell r c vt = Some vt1" "erase_cells ps vt1 = Some vt'"
    using Cons.prems by (auto simp: p bind_eq_Some_conv)
  with Cons set_cell_text show ?case by (auto simp: erase_cell_def)
qed simp

lemma csi_dispatch_text:
  assumes "csi_dispatch c vt = Some vt'" "cells_text vt"
  shows "cells_text vt'"
proof -
  have sgr: "vt_cells (sgr p v) = vt_cells v" for p v by (simp add: sgr_def)
  have "vt_cells (fold (\<lambda>i v. sgr (csi_param v i 0) v) is v) = vt_cells v" for "is" v
    by (induction "is" arbitrary: v) (simp_all add: sgr)
  then have sg: "cells_text (select_graphic vt)" unfolding select_graphic_def Let_def by (rule cells_text_same [OF _ assms(2)])
  have ed: "cells_text v" if "erase_display vt = Some v" for v
    using that assms(2) by (auto simp: erase_display_def Let_def fold_mark_cells cells_text_def split: if_splits
      dest!: erase_cells_text)
  have el: "cells_text v" if "erase_line vt = Some v" for v
    using that assms(2) by (auto simp: erase_line_def Let_def mark_dirty_frame cells_text_def split: if_splits dest!: erase_cells_text)
  show ?thesis using assms unfolding csi_dispatch_def Let_def
    by (auto split: if_splits intro: sg ed el cells_text_same)
qed

lemma vt_feed_byte_text:
  assumes "vt_feed_byte c vt = Some vt'" "cells_text vt"
  shows "cells_text vt'"
proof (cases "vt_pst vt")
  case VT_PSTATE_NORMAL
  with assms show ?thesis
    by (auto simp: vt_feed_byte_def feed_normal_def Let_def split: if_splits intro: put_char_text newline_text cells_text_same)
next
  case VT_PSTATE_ESC
  with assms show ?thesis by (auto simp: vt_feed_byte_def feed_esc_def cells_text_def split: if_splits)
next
  case VT_PSTATE_CSI
  with assms show ?thesis
    by (auto simp: vt_feed_byte_def feed_csi_def Let_def cells_text_def split: if_splits dest: csi_dispatch_text)
qed

lemma vt_feed_text: "vt_feed cs vt = Some vt' \<Longrightarrow> cells_text vt \<Longrightarrow> cells_text vt'"
  by (induction cs arbitrary: vt) (auto simp: bind_eq_Some_conv dest: vt_feed_byte_text)


section \<open>What the renderer puts on the screen\<close>

definition font_ok :: "z_font \<Rightarrow> (nat \<Rightarrow> u8) \<Rightarrow> bool" where
  "font_ok font glyphs \<longleftrightarrow> 0 < ft_w font \<and> ft_w font \<le> 32 \<and> 0 < ft_h font \<and> ft_first font \<le> 0x20 \<and> 0x7E \<le> ft_last font \<and>
     font_loaded font glyphs"

definition in_grid :: "int \<times> int \<Rightarrow> bool" where
  "in_grid p \<longleftrightarrow> (case p of (row, col) \<Rightarrow> 0 \<le> row \<and> row < VT_ROWS \<and> 0 \<le> col \<and> col < VT_COLS)"

text \<open>The pixels of a place of the grid that lie on the screen and in the content area are those of a character, upright or inverted.\<close>

definition cell_shows :: "z_font \<Rightarrow> z_win \<Rightarrow> vram \<Rightarrow> int \<times> int \<Rightarrow> u8 \<times> bool \<Rightarrow> bool" where
  "cell_shows font w fb p look \<longleftrightarrow>
     (let clip = z_win_content_rect w; x = cl_x0 clip + snd p * int (ft_w font); y = cl_y0 clip + fst p * int (ft_h font) in
      \<forall>n. on_screen n \<and> in_rect x y (int (ft_w font)) (int (ft_h font)) (px_col n) (px_row n) \<and> in_clip (px_col n) (px_row n) (Some clip) \<longrightarrow>
        pixel n fb = (glyph_ink font (unat (fst look)) (nat (px_row n - y)) (nat (px_col n - x)) \<noteq> snd look))"

text \<open>What is known of the screen: for each place what it shows, or nothing.\<close>

definition shows_known :: "z_font \<Rightarrow> terminal \<Rightarrow> (int \<times> int \<Rightarrow> (u8 \<times> bool) option) \<Rightarrow> bool" where
  "shows_known font s k \<longleftrightarrow> (\<forall>p look. in_grid p \<longrightarrow> k p = Some look \<longrightarrow> cell_shows font (tm_win s) (tm_fb s) p look)"

definition plain :: "vt_screen \<Rightarrow> int \<times> int \<Rightarrow> u8 \<times> bool" where
  "plain vt p = (let cell = vt_cells vt ! nat (fst p) ! nat (snd p) in (vc_ch cell, vc_reverse cell))"

definition with_cursor :: "vt_screen \<Rightarrow> int \<times> int \<Rightarrow> int \<times> int \<Rightarrow> u8 \<times> bool" where
  "with_cursor vt cur p = (fst (plain vt p), snd (plain vt p) \<noteq> (p = (snd cur, fst cur)))"

definition shows_screen :: "z_font \<Rightarrow> terminal \<Rightarrow> bool" where
  "shows_screen font s \<longleftrightarrow>
     (\<forall>p. in_grid p \<longrightarrow> cell_shows font (tm_win s) (tm_fb s) p (with_cursor (tm_vt s) (cursor_cell (tm_vt s)) p))"

lemma draw_cell_frame [simp]:
  "tm_vt (draw_cell font glyphs c r ch inverted s) = tm_vt s" "tm_win (draw_cell font glyphs c r ch inverted s) = tm_win s"
  "tm_draw_x (draw_cell font glyphs c r ch inverted s) = tm_draw_x s" "tm_draw_y (draw_cell font glyphs c r ch inverted s) = tm_draw_y s"
  by (simp_all add: draw_cell_def Let_def)

lemma cell_index: "0 < w \<Longrightarrow> a * w \<le> t \<Longrightarrow> t < a * w + w \<Longrightarrow> t div w = (a :: int)"
  by (rule int_div_pos_eq [of _ _ _ "t - a * w"]) (auto simp: algebra_simps)

text \<open>Two places of the grid share no pixel.\<close>

lemma cells_apart:
  assumes "0 < w" "0 < h" "in_rect (x0 + c * w) (y0 + r * h) w h X Y" "in_rect (x0 + c' * w) (y0 + r' * h) w h X Y"
  shows "r = r' \<and> c = c'"
proof -
  have "(X - x0) div w = c" "(X - x0) div w = c'" "(Y - y0) div h = r" "(Y - y0) div h = r'"
    using assms by (auto simp: in_rect_def intro!: cell_index)
  then show ?thesis by simp
qed

lemma draw_cell_shows:
  assumes f: "font_ok font glyphs" and p: "in_grid (row, col)" and ch: "0x20 \<le> ch" "ch < 0x7F" and k: "shows_known font s k"
  shows "shows_known font (draw_cell font glyphs col row ch inverted s) (k((row, col) \<mapsto> (ch, inverted)))"
  unfolding shows_known_def
proof (intro allI impI)
  fix q look assume q: "in_grid q" "(k((row, col) \<mapsto> (ch, inverted))) q = Some look"
  have u: "ft_first font \<le> unat ch" "unat ch \<le> ft_last font"
    using ch f by (auto simp: font_ok_def word_le_nat_alt word_less_nat_alt)
  have sizes: "font_loaded font glyphs" "0 < ft_h font" "0 < ft_w font" "ft_w font \<le> 32" using f by (auto simp: font_ok_def)
  note px = pixel_char2 [OF u(1,2)]
  note same = hw_char_same [OF sizes]
  show "cell_shows font (tm_win (draw_cell font glyphs col row ch inverted s)) (tm_fb (draw_cell font glyphs col row ch inverted s)) q look"
  proof (cases "q = (row, col)")
    case True
    then show ?thesis using q by (auto simp: cell_shows_def draw_cell_def Let_def same px)
  next
    case False
    then have "k q = Some look" using q(2) by simp
    then have "cell_shows font (tm_win s) (tm_fb s) q look" using k q(1) unfolding shows_known_def by blast
    moreover have "\<not> in_rect (x0 + col * int (ft_w font)) (y0 + row * int (ft_h font)) (int (ft_w font)) (int (ft_h font)) X Y"
      if "in_rect (x0 + snd q * int (ft_w font)) (y0 + fst q * int (ft_h font)) (int (ft_w font)) (int (ft_h font)) X Y" for x0 y0 X Y
      using cells_apart [OF _ _ that, of col row] sizes False by (cases q) auto
    ultimately show ?thesis by (simp add: cell_shows_def draw_cell_def Let_def same px)
  qed
qed

lemma shows_known_mono: "shows_known font s k \<Longrightarrow> (\<And>p. in_grid p \<Longrightarrow> k' p = None \<or> k' p = k p) \<Longrightarrow> shows_known font s k'"
  unfolding shows_known_def by (metis option.distinct(1))

lemma shows_known_cong: "shows_known font s k \<Longrightarrow> tm_win t = tm_win s \<Longrightarrow> tm_fb t = tm_fb s \<Longrightarrow> shows_known font t k"
  by (simp add: shows_known_def)

lemma plain_text: "cells_text vt \<Longrightarrow> in_grid p \<Longrightarrow> 0x20 \<le> fst (plain vt p) \<and> fst (plain vt p) < 0x7F"
proof (cases p)
  case (Pair r c)
  assume "cells_text vt" "in_grid p"
  moreover from this have "nat r < 25" "nat c < 80" by (auto simp: in_grid_def Pair)
  ultimately have "printable (vt_cells vt ! nat r ! nat c)" unfolding cells_text_def by blast
  then show ?thesis by (simp add: printable_def plain_def Let_def Pair)
qed

lemma draw_at_frame [simp]:
  "tm_vt (draw_at font glyphs c r s) = tm_vt s" "tm_win (draw_at font glyphs c r s) = tm_win s"
  "tm_draw_x (draw_at font glyphs c r s) = tm_draw_x s" "tm_draw_y (draw_at font glyphs c r s) = tm_draw_y s"
  by (simp_all add: draw_at_def)

lemma draw_at_shows:
  assumes "font_ok font glyphs" "in_grid (row, col)" "cells_text (tm_vt s)" "shows_known font s k"
  shows "shows_known font (draw_at font glyphs col row s) (k((row, col) \<mapsto> plain (tm_vt s) (row, col)))"
proof -
  have "plain (tm_vt s) (row, col) = (vc_ch (vt_cell_at s row col), vc_reverse (vt_cell_at s row col))"
    by (simp add: plain_def Let_def vt_cell_at_def)
  then show ?thesis using draw_cell_shows [OF assms(1,2) _ _ assms(4)] plain_text [OF assms(3,2)] by (simp add: draw_at_def)
qed

lemma draw_cols_shows:
  assumes "font_ok font glyphs" "cells_text (tm_vt s)" "shows_known font s k" "\<forall>c\<in>set cols. in_grid (row, c)"
  shows "shows_known font (fold (\<lambda>col. draw_at font glyphs col row) cols s)
      (\<lambda>p. if fst p = row \<and> snd p \<in> set cols then Some (plain (tm_vt s) p) else k p) \<and>
    tm_vt (fold (\<lambda>col. draw_at font glyphs col row) cols s) = tm_vt s \<and> tm_win (fold (\<lambda>col. draw_at font glyphs col row) cols s) = tm_win s \<and>
    tm_draw_x (fold (\<lambda>col. draw_at font glyphs col row) cols s) = tm_draw_x s \<and> tm_draw_y (fold (\<lambda>col. draw_at font glyphs col row) cols s) = tm_draw_y s"
  using assms
proof (induction cols arbitrary: s k)
  case (Cons c cols)
  let ?s = "draw_at font glyphs c row s" and ?k = "k((row, c) \<mapsto> plain (tm_vt s) (row, c))"
  have k: "shows_known font ?s ?k" using draw_at_shows Cons.prems by simp
  have IH: "shows_known font (fold (\<lambda>col. draw_at font glyphs col row) cols ?s)
      (\<lambda>p. if fst p = row \<and> snd p \<in> set cols then Some (plain (tm_vt s) p) else ?k p)"
    "tm_vt (fold (\<lambda>col. draw_at font glyphs col row) cols ?s) = tm_vt s" "tm_win (fold (\<lambda>col. draw_at font glyphs col row) cols ?s) = tm_win s"
    "tm_draw_x (fold (\<lambda>col. draw_at font glyphs col row) cols ?s) = tm_draw_x s" "tm_draw_y (fold (\<lambda>col. draw_at font glyphs col row) cols ?s) = tm_draw_y s"
    using Cons.IH [OF Cons.prems(1) _ k, unfolded draw_at_frame, OF Cons.prems(2)] Cons.prems(4) by simp_all
  have "shows_known font (fold (\<lambda>col. draw_at font glyphs col row) cols ?s)
      (\<lambda>p. if fst p = row \<and> snd p \<in> set (c # cols) then Some (plain (tm_vt s) p) else k p)"
    using IH(1) by (rule shows_known_mono) auto
  then show ?case using IH(2-) by simp
qed simp

lemma draw_rows_shows:
  fixes d :: "int \<Rightarrow> bool"
  assumes "font_ok font glyphs" "cells_text (tm_vt s)" "shows_known font s k" "\<forall>r\<in>set rows. 0 \<le> r \<and> r < VT_ROWS"
  defines "draw \<equiv> \<lambda>row s. if d row then draw_row font glyphs row s else s"
  shows "shows_known font (fold draw rows s) (\<lambda>p. if in_grid p \<and> fst p \<in> set rows \<and> d (fst p) then Some (plain (tm_vt s) p) else k p) \<and>
    tm_vt (fold draw rows s) = tm_vt s \<and> tm_win (fold draw rows s) = tm_win s \<and>
    tm_draw_x (fold draw rows s) = tm_draw_x s \<and> tm_draw_y (fold draw rows s) = tm_draw_y s"
  using assms(1-4)
proof (induction rows arbitrary: s k)
  case Nil
  then show ?case by simp
next
  case (Cons r rows)
  let ?k = "\<lambda>p. if d r \<and> fst p = r \<and> snd p \<in> set [0..VT_COLS - 1] then Some (plain (tm_vt s) p) else k p"
  have g: "\<forall>c\<in>set [0..VT_COLS - 1]. in_grid (r, c)" using Cons.prems(4) by (simp add: in_grid_def)
  have 1: "shows_known font (draw r s) ?k \<and> tm_vt (draw r s) = tm_vt s \<and> tm_win (draw r s) = tm_win s \<and>
      tm_draw_x (draw r s) = tm_draw_x s \<and> tm_draw_y (draw r s) = tm_draw_y s"
  proof (cases "d r")
    case True
    then show ?thesis using draw_cols_shows [OF Cons.prems(1-3) g] by (simp add: draw_def draw_row_def)
  next
    case False
    then show ?thesis using Cons.prems(3) by (simp add: draw_def)
  qed
  note e = 1 [THEN conjunct2, THEN conjunct1] 1 [THEN conjunct2, THEN conjunct2, THEN conjunct1]
    1 [THEN conjunct2, THEN conjunct2, THEN conjunct2, THEN conjunct1] 1 [THEN conjunct2, THEN conjunct2, THEN conjunct2, THEN conjunct2]
  have IH: "shows_known font (fold draw rows (draw r s))
      (\<lambda>p. if in_grid p \<and> fst p \<in> set rows \<and> d (fst p) then Some (plain (tm_vt s) p) else ?k p)"
    "tm_vt (fold draw rows (draw r s)) = tm_vt s" "tm_win (fold draw rows (draw r s)) = tm_win s"
    "tm_draw_x (fold draw rows (draw r s)) = tm_draw_x s" "tm_draw_y (fold draw rows (draw r s)) = tm_draw_y s"
    using Cons.IH [OF Cons.prems(1) _ 1 [THEN conjunct1], unfolded e, OF Cons.prems(2)] Cons.prems(4) by simp_all
  have "shows_known font (fold draw rows (draw r s))
      (\<lambda>p. if in_grid p \<and> fst p \<in> set (r # rows) \<and> d (fst p) then Some (plain (tm_vt s) p) else k p)"
    using IH(1) by (rule shows_known_mono) (auto simp: in_grid_def)
  then show ?case using IH(2-) by simp
qed


section \<open>A turn leaves the screen right\<close>

text \<open>
  Before the renderer runs: a row that is not marked shows its cells, with the cursor where it was drawn; and either the cursor was drawn
  in the grid, or it counts as not drawn and every row is marked.
\<close>

definition row_marked :: "vt_screen \<Rightarrow> int \<Rightarrow> bool" where "row_marked vt row \<longleftrightarrow> vt_row_dirty row vt"

definition ready :: "z_font \<Rightarrow> terminal \<Rightarrow> bool" where
  "ready font s \<longleftrightarrow> cells_text (tm_vt s) \<and> length (vt_dirty (tm_vt s)) = 25 \<and>
     (in_grid (tm_draw_y s, tm_draw_x s) \<or> tm_draw_y s = -1 \<and> (\<forall>row. 0 \<le> row \<and> row < VT_ROWS \<longrightarrow> row_marked (tm_vt s) row)) \<and>
     shows_known font s (\<lambda>p. if row_marked (tm_vt s) (fst p) then None else Some (with_cursor (tm_vt s) (tm_draw_x s, tm_draw_y s) p))"

lemma draw_cursor_shows:
  assumes f: "font_ok font glyphs" and t: "cells_text (tm_vt s)" and g: "in_grid (snd cur, fst cur)"
    and old: "in_grid (tm_draw_y s, tm_draw_x s) \<or> tm_draw_y s = -1 \<and> (\<forall>row. 0 \<le> row \<and> row < VT_ROWS \<longrightarrow> wd ! nat row)"
    and k: "shows_known font s (\<lambda>p. Some (if wd ! nat (fst p) then plain (tm_vt s) p else with_cursor (tm_vt s) (tm_draw_x s, tm_draw_y s) p))"
  shows "shows_known font (draw_cursor font glyphs wd cur s) (\<lambda>p. Some (with_cursor (tm_vt s) cur p)) \<and>
    tm_vt (draw_cursor font glyphs wd cur s) = tm_vt s \<and> tm_win (draw_cursor font glyphs wd cur s) = tm_win s \<and>
    tm_draw_x (draw_cursor font glyphs wd cur s) = fst cur \<and> tm_draw_y (draw_cursor font glyphs wd cur s) = snd cur"
proof -
  define e where "e = (if tm_draw_y s \<ge> 0 \<and> tm_draw_y s < VT_ROWS \<and> \<not> wd ! nat (tm_draw_y s) then draw_at font glyphs (tm_draw_x s) (tm_draw_y s) s else s)"
  have same: "tm_vt e = tm_vt s" "tm_win e = tm_win s" by (simp_all add: e_def)
  have e: "shows_known font e (\<lambda>p. Some (plain (tm_vt s) p))"
  proof (cases "tm_draw_y s \<ge> 0 \<and> tm_draw_y s < VT_ROWS \<and> \<not> wd ! nat (tm_draw_y s)")
    case True
    then have "in_grid (tm_draw_y s, tm_draw_x s)" using old by auto
    from draw_at_shows [OF f this t k] show ?thesis unfolding e_def if_P [OF True]
      by (rule shows_known_mono) (auto simp: with_cursor_def)
  next
    case False
    then have ne: "fst p \<noteq> tm_draw_y s" if "in_grid p" "\<not> wd ! nat (fst p)" for p using old that by (auto simp: in_grid_def)
    have up: "with_cursor (tm_vt s) (tm_draw_x s, tm_draw_y s) p = plain (tm_vt s) p" if "in_grid p" "\<not> wd ! nat (fst p)" for p
    proof -
      have "p \<noteq> (tm_draw_y s, tm_draw_x s)" using ne [OF that] by force
      then show ?thesis by (simp add: with_cursor_def)
    qed
    show ?thesis unfolding e_def if_not_P [OF False]
    proof (rule shows_known_mono [OF k])
      fix p assume "in_grid p"
      then show "Some (plain (tm_vt s) p) = None \<or> Some (plain (tm_vt s) p) =
          Some (if wd ! nat (fst p) then plain (tm_vt s) p else with_cursor (tm_vt s) (tm_draw_x s, tm_draw_y s) p)"
        using up [of p] by (cases "wd ! nat (fst p)") simp_all
    qed
  qed
  obtain cx cy where c: "cur = (cx, cy)" by fastforce
  let ?cell = "vt_cell_at e cy cx"
  have p: "plain (tm_vt s) (cy, cx) = (vc_ch ?cell, vc_reverse ?cell)" by (simp add: plain_def Let_def vt_cell_at_def same)
  have "0x20 \<le> vc_ch ?cell" "vc_ch ?cell < 0x7F" using plain_text [OF t, of "(cy, cx)"] g p by (simp_all add: c)
  then have d: "shows_known font (draw_cell font glyphs cx cy (vc_ch ?cell) (\<not> vc_reverse ?cell) e)
      ((\<lambda>p. Some (plain (tm_vt s) p))((cy, cx) \<mapsto> (vc_ch ?cell, \<not> vc_reverse ?cell)))"
    using draw_cell_shows [OF f _ _ _ e] g by (simp add: c)
  have "shows_known font (draw_cell font glyphs cx cy (vc_ch ?cell) (\<not> vc_reverse ?cell) e) (\<lambda>p. Some (with_cursor (tm_vt s) cur p))"
  proof (rule shows_known_mono [OF d])
    fix q
    show "Some (with_cursor (tm_vt s) cur q) = None \<or> Some (with_cursor (tm_vt s) cur q) =
        ((\<lambda>p. Some (plain (tm_vt s) p))((cy, cx) \<mapsto> (vc_ch ?cell, \<not> vc_reverse ?cell))) q"
      by (cases "q = (cy, cx)") (simp_all add: with_cursor_def c p)
  qed
  moreover have "draw_cursor font glyphs wd cur s =
      (draw_cell font glyphs cx cy (vc_ch ?cell) (\<not> vc_reverse ?cell) e)\<lparr>tm_draw_x := cx, tm_draw_y := cy\<rparr>"
    by (simp add: draw_cursor_def e_def Let_def c)
  ultimately show ?thesis by (simp add: shows_known_def same c)
qed

lemma resweep_shows:
  assumes f: "font_ok font glyphs" and t: "cells_text (tm_vt s)" and k: "shows_known font s (\<lambda>p. Some (with_cursor (tm_vt s) (cursor_cell (tm_vt s)) p))"
    and x: "0 \<le> vt_cursor_x (tm_vt s)"
  shows "shows_known font (resweep_right_of_cursor font glyphs s) (\<lambda>p. Some (with_cursor (tm_vt s) (cursor_cell (tm_vt s)) p)) \<and>
    tm_vt (resweep_right_of_cursor font glyphs s) = tm_vt s \<and> tm_win (resweep_right_of_cursor font glyphs s) = tm_win s \<and>
    tm_draw_x (resweep_right_of_cursor font glyphs s) = tm_draw_x s \<and> tm_draw_y (resweep_right_of_cursor font glyphs s) = tm_draw_y s"
proof (cases "vt_cursor_y (tm_vt s) < 0 \<or> vt_cursor_y (tm_vt s) \<ge> VT_ROWS")
  case True
  then show ?thesis using k by (simp add: resweep_right_of_cursor_def Let_def)
next
  case False
  define cols where "cols = [vt_cursor_x (tm_vt s) + 1..(if vt_cursor_x (tm_vt s) + 1 + RESWEEP_COLS > VT_COLS then VT_COLS
    else vt_cursor_x (tm_vt s) + 1 + RESWEEP_COLS) - 1]"
  have r: "resweep_right_of_cursor font glyphs s = fold (\<lambda>col. draw_at font glyphs col (vt_cursor_y (tm_vt s))) cols s"
    using False by (simp add: resweep_right_of_cursor_def Let_def cols_def)
  have "\<forall>c\<in>set cols. in_grid (vt_cursor_y (tm_vt s), c)" using False x by (auto simp: cols_def in_grid_def split: if_splits)
  note d = draw_cols_shows [OF f t k this]
  have "shows_known font (resweep_right_of_cursor font glyphs s) (\<lambda>p. Some (with_cursor (tm_vt s) (cursor_cell (tm_vt s)) p))"
    unfolding r using d [THEN conjunct1]
    by (rule shows_known_mono) (auto simp: with_cursor_def cursor_cell_def cols_def prod_eq_iff split: if_splits)
  then show ?thesis using d r by simp
qed


lemma vt_clear_dirty_same: "plain (vt_clear_dirty vt) = plain vt" "cursor_cell (vt_clear_dirty vt) = cursor_cell vt"
    "with_cursor (vt_clear_dirty vt) = with_cursor vt" "cells_text (vt_clear_dirty vt) = cells_text vt"
    "vt_cursor_x (vt_clear_dirty vt) = vt_cursor_x vt" "vt_cursor_y (vt_clear_dirty vt) = vt_cursor_y vt"
  by (simp_all add: plain_def cursor_cell_def with_cursor_def cells_text_def vt_clear_dirty_def fun_eq_iff)

lemma row_marked_clear: "\<not> row_marked (vt_clear_dirty vt) row"
  by (auto simp: row_marked_def vt_row_dirty_def vt_clear_dirty_def)

text \<open>The rows that are drawn first.\<close>

definition marks :: "vt_screen \<Rightarrow> bool list" where "marks vt = map (\<lambda>row. vt_row_dirty row vt) [0..VT_ROWS - 1]"

lemma marks_nth: "0 \<le> row \<Longrightarrow> row < VT_ROWS \<Longrightarrow> marks vt ! nat row = row_marked vt row"
  by (auto simp: marks_def row_marked_def nth_upto nat_less_iff)

lemma render_rows:
  assumes f: "font_ok font glyphs" and r: "ready font s"
  defines "wd \<equiv> marks (tm_vt s)"
  defines "s1 \<equiv> (fold (\<lambda>row s. if wd ! nat row then draw_row font glyphs row s else s) [0..VT_ROWS - 1] s)\<lparr>tm_vt := vt_clear_dirty (tm_vt s)\<rparr>"
  shows "shows_known font s1 (\<lambda>p. Some (if wd ! nat (fst p) then plain (tm_vt s1) p else with_cursor (tm_vt s1) (tm_draw_x s1, tm_draw_y s1) p))"
    "tm_win s1 = tm_win s" "tm_draw_x s1 = tm_draw_x s" "tm_draw_y s1 = tm_draw_y s"
proof -
  let ?k = "\<lambda>p. if row_marked (tm_vt s) (fst p) then None else Some (with_cursor (tm_vt s) (tm_draw_x s, tm_draw_y s) p)"
  have c: "cells_text (tm_vt s)" and k: "shows_known font s ?k" using r by (auto simp: ready_def)
  have "\<forall>row\<in>set [0..VT_ROWS - 1]. 0 \<le> row \<and> row < VT_ROWS" by simp
  note d = draw_rows_shows [OF f c k this, of "\<lambda>row. wd ! nat row"]
  show e: "tm_win s1 = tm_win s" "tm_draw_x s1 = tm_draw_x s" "tm_draw_y s1 = tm_draw_y s" using d by (simp_all add: s1_def)
  have "shows_known font (fold (\<lambda>row s. if wd ! nat row then draw_row font glyphs row s else s) [0..VT_ROWS - 1] s)
      (\<lambda>p. Some (if wd ! nat (fst p) then plain (tm_vt s) p else with_cursor (tm_vt s) (tm_draw_x s, tm_draw_y s) p))"
    by (rule shows_known_mono [OF d [THEN conjunct1]]) (auto simp: in_grid_def wd_def marks_nth)
  then have "shows_known font s1
      (\<lambda>p. Some (if wd ! nat (fst p) then plain (tm_vt s) p else with_cursor (tm_vt s) (tm_draw_x s, tm_draw_y s) p))"
    by (rule shows_known_cong) (simp_all add: s1_def)
  moreover have "tm_vt s1 = vt_clear_dirty (tm_vt s)" by (simp add: s1_def)
  ultimately show "shows_known font s1 (\<lambda>p. Some (if wd ! nat (fst p) then plain (tm_vt s1) p else with_cursor (tm_vt s1) (tm_draw_x s1, tm_draw_y s1) p))"
    unfolding e by (simp only: vt_clear_dirty_same)
qed


definition draws :: "terminal \<Rightarrow> terminal \<Rightarrow> bool" where
  "draws s t \<longleftrightarrow> tm_vt t = tm_vt s \<and> tm_win t = tm_win s \<and> tm_draw_x t = tm_draw_x s \<and> tm_draw_y t = tm_draw_y s"

lemma draws_fold: "(\<And>x s. draws s (f x s)) \<Longrightarrow> draws s (fold f xs s)"
  by (induction xs arbitrary: s) (auto simp: draws_def)

lemma draws_refl [simp]: "draws s s"
  by (simp add: draws_def)

lemma draws_at [simp]: "draws s (draw_at font glyphs c r s)"
  by (simp add: draws_def)

lemma draws_row [simp]: "draws s (draw_row font glyphs r s)"
  unfolding draw_row_def by (rule draws_fold) simp

lemma draws_resweep: "draws s (resweep_right_of_cursor font glyphs s)"
  unfolding resweep_right_of_cursor_def Let_def by (simp add: draws_fold)

text \<open>What a call of the renderer changes: marks, the place of the cursor, and pixels.\<close>

lemma render_unfold:
  fixes s :: terminal and font :: z_font and glyphs :: "nat \<Rightarrow> u8"
  defines "s1 \<equiv> (fold (\<lambda>row s'. if marks (tm_vt s) ! nat row then draw_row font glyphs row s' else s') [0..VT_ROWS - 1] s)\<lparr>tm_vt := vt_clear_dirty (tm_vt s)\<rparr>"
  shows "render font glyphs s =
    (if (True \<notin> set (marks (tm_vt s))) \<and> cursor_cell (tm_vt s) = (tm_draw_x s, tm_draw_y s) then Some s1
     else if \<not> in_grid (snd (cursor_cell (tm_vt s)), fst (cursor_cell (tm_vt s))) then None
     else
       let t = draw_cursor font glyphs (marks (tm_vt s)) (cursor_cell (tm_vt s)) s1 in
       Some (if True \<in> set (marks (tm_vt s)) then resweep_right_of_cursor font glyphs t else t))"
proof -
  let ?d = "fold (\<lambda>row s'. if marks (tm_vt s) ! nat row then draw_row font glyphs row s' else s') [0..VT_ROWS - 1] s"
  have d: "draws s ?d" by (rule draws_fold) simp
  obtain cx cy where c: "cursor_cell (tm_vt s) = (cx, cy)" by fastforce
  have "cx < VT_COLS" using c by (auto simp: cursor_cell_def split: if_splits)
  then have g: "in_grid (cy, cx) \<longleftrightarrow> \<not> (cx < 0 \<or> cy < 0 \<or> cy \<ge> VT_ROWS)" by (auto simp: in_grid_def)
  have vt: "tm_vt ?d = tm_vt s" "tm_draw_x ?d = tm_draw_x s" "tm_draw_y ?d = tm_draw_y s" using d by (simp_all add: draws_def)
  show ?thesis unfolding render_def marks_def [symmetric] s1_def Let_def
    using vt c g by (simp add: vt_clear_dirty_same)
qed


lemma draw_cursor_frame:
  "tm_vt (draw_cursor font glyphs wd cur s) = tm_vt s" "tm_win (draw_cursor font glyphs wd cur s) = tm_win s"
  "tm_draw_x (draw_cursor font glyphs wd cur s) = fst cur" "tm_draw_y (draw_cursor font glyphs wd cur s) = snd cur"
  by (simp_all add: draw_cursor_def Let_def split: prod.split)

text \<open>Enough to become ready again once the window is repainted.\<close>

definition fit :: "terminal \<Rightarrow> bool" where
  "fit s \<longleftrightarrow> cells_text (tm_vt s) \<and> length (vt_dirty (tm_vt s)) = 25 \<and> (in_grid (tm_draw_y s, tm_draw_x s) \<or> tm_draw_y s = -1)"

lemma ready_fit: "ready font s \<Longrightarrow> fit s"
  by (auto simp: ready_def fit_def)

lemma render_fit:
  assumes "render font glyphs s = Some t" "fit s"
  shows "fit t" "tm_win t = tm_win s" "tm_vt t = vt_clear_dirty (tm_vt s)"
proof -
  define s1 where "s1 = (fold (\<lambda>row s'. if marks (tm_vt s) ! nat row then draw_row font glyphs row s' else s') [0..VT_ROWS - 1] s)\<lparr>tm_vt := vt_clear_dirty (tm_vt s)\<rparr>"
  have "draws s (fold (\<lambda>row s'. if marks (tm_vt s) ! nat row then draw_row font glyphs row s' else s') [0..VT_ROWS - 1] s)"
    by (rule draws_fold) simp
  then have 1: "tm_vt s1 = vt_clear_dirty (tm_vt s)" "tm_win s1 = tm_win s" "tm_draw_x s1 = tm_draw_x s" "tm_draw_y s1 = tm_draw_y s"
    by (simp_all add: s1_def draws_def)
  let ?c = "draw_cursor font glyphs (marks (tm_vt s)) (cursor_cell (tm_vt s)) s1"
  have l: "length (vt_dirty (vt_clear_dirty (tm_vt s))) = 25" by (simp add: vt_clear_dirty_def)
  have d: "draws ?c (if True \<in> set (marks (tm_vt s)) then resweep_right_of_cursor font glyphs ?c else ?c)" by (simp add: draws_resweep)
  have "t = s1 \<or> in_grid (snd (cursor_cell (tm_vt s)), fst (cursor_cell (tm_vt s))) \<and>
      t = (if True \<in> set (marks (tm_vt s)) then resweep_right_of_cursor font glyphs ?c else ?c)"
    using assms(1) unfolding render_unfold s1_def [symmetric] Let_def by (simp split: if_splits)
  then show "fit t" "tm_win t = tm_win s" "tm_vt t = vt_clear_dirty (tm_vt s)"
    using 1 d l assms(2) by (auto simp: fit_def draws_def draw_cursor_frame vt_clear_dirty_same)
qed

lemma render_shows:
  assumes f: "font_ok font glyphs" and r: "ready font s" and t: "render font glyphs s = Some t"
  shows "ready font t \<and> shows_screen font t"
proof -
  define s1 where "s1 = (fold (\<lambda>row s'. if marks (tm_vt s) ! nat row then draw_row font glyphs row s' else s') [0..VT_ROWS - 1] s)\<lparr>tm_vt := vt_clear_dirty (tm_vt s)\<rparr>"
  note rows = render_rows [OF f r, folded s1_def]
  have vt: "tm_vt s1 = vt_clear_dirty (tm_vt s)" by (simp add: s1_def)
  let ?cur = "cursor_cell (tm_vt s)" and ?c = "draw_cursor font glyphs (marks (tm_vt s)) (cursor_cell (tm_vt s)) s1"
  have ct: "cells_text (tm_vt s1)" using r by (simp add: ready_def vt vt_clear_dirty_same)
  have was: "in_grid (tm_draw_y s1, tm_draw_x s1) \<or>
      tm_draw_y s1 = -1 \<and> (\<forall>row. 0 \<le> row \<and> row < VT_ROWS \<longrightarrow> marks (tm_vt s) ! nat row)"
    using r by (auto simp: ready_def rows marks_nth)
  have t': "t = s1 \<and> True \<notin> set (marks (tm_vt s)) \<and> ?cur = (tm_draw_x s, tm_draw_y s) \<or>
      in_grid (snd ?cur, fst ?cur) \<and> t = (if True \<in> set (marks (tm_vt s)) then resweep_right_of_cursor font glyphs ?c else ?c)"
    using t unfolding render_unfold s1_def [symmetric] Let_def by (simp split: if_splits)
  have "shows_known font t (\<lambda>p. Some (with_cursor (tm_vt t) (cursor_cell (tm_vt t)) p)) \<and> in_grid (tm_draw_y t, tm_draw_x t) \<and>
      (tm_draw_x t, tm_draw_y t) = cursor_cell (tm_vt t)"
    using t'
  proof
    assume a: "t = s1 \<and> True \<notin> set (marks (tm_vt s)) \<and> ?cur = (tm_draw_x s, tm_draw_y s)"
    have m: "\<not> marks (tm_vt s) ! nat row" if "0 \<le> row" "row < VT_ROWS" for row
      using a that nth_mem [of "nat row" "marks (tm_vt s)"] by (auto simp: marks_def)
    then have "in_grid (tm_draw_y s1, tm_draw_x s1)" using was by (metis order.refl zero_less_numeral)
    moreover have "shows_known font s1 (\<lambda>p. Some (with_cursor (tm_vt s1) (tm_draw_x s1, tm_draw_y s1) p))"
      by (rule shows_known_mono [OF rows(1)]) (use m in \<open>auto simp: in_grid_def\<close>)
    ultimately show ?thesis using a by (simp add: vt vt_clear_dirty_same rows)
  next
    assume a: "in_grid (snd ?cur, fst ?cur) \<and> t = (if True \<in> set (marks (tm_vt s)) then resweep_right_of_cursor font glyphs ?c else ?c)"
    note c = draw_cursor_shows [OF f ct a [THEN conjunct1] was rows(1)]
    have cc: "cursor_cell (tm_vt ?c) = ?cur" "tm_vt ?c = vt_clear_dirty (tm_vt s)" using c by (simp_all add: vt vt_clear_dirty_same)
    have "0 \<le> vt_cursor_x (tm_vt s)" using a [THEN conjunct1] by (auto simp: cursor_cell_def in_grid_def split: if_splits)
    then have x: "0 \<le> vt_cursor_x (tm_vt ?c)" unfolding cc(2) vt_clear_dirty_same .
    have k: "shows_known font ?c (\<lambda>p. Some (with_cursor (tm_vt ?c) (cursor_cell (tm_vt ?c)) p))"
      using c cc by (simp add: vt)
    have tx: "cells_text (tm_vt ?c)" using ct c by simp
    from resweep_shows [OF f tx k x] k a c cc show ?thesis by (simp add: vt_clear_dirty_same draw_cursor_frame)
  qed
  then have k: "shows_known font t (\<lambda>p. Some (with_cursor (tm_vt t) (cursor_cell (tm_vt t)) p))" and g: "in_grid (tm_draw_y t, tm_draw_x t)"
    and cur: "cursor_cell (tm_vt t) = (tm_draw_x t, tm_draw_y t)" by simp_all
  have v: "tm_vt t = vt_clear_dirty (tm_vt s)" using render_fit(3) [OF t ready_fit [OF r]] .
  have "shows_known font t (\<lambda>p. if row_marked (tm_vt t) (fst p) then None else Some (with_cursor (tm_vt t) (tm_draw_x t, tm_draw_y t) p))"
    by (rule shows_known_mono [OF k]) (simp add: cur)
  moreover have "length (vt_dirty (tm_vt t)) = 25" by (simp add: v vt_clear_dirty_def)
  ultimately have "ready font t" using ct g by (simp add: ready_def vt v)
  moreover have "shows_screen font t" using k unfolding shows_screen_def shows_known_def by blast
  ultimately show ?thesis ..
qed


section \<open>Messages keep the screen right\<close>

text \<open>What handling a message does to what the renderer relies on: the grid is marked where it changes, and nothing is drawn.\<close>

definition quiet :: "terminal \<Rightarrow> terminal \<Rightarrow> bool" where
  "quiet s t \<longleftrightarrow> tracks (tm_vt s) (tm_vt t) \<and> (cells_text (tm_vt s) \<longrightarrow> cells_text (tm_vt t)) \<and> tm_fb t = tm_fb s \<and>
     tm_draw_x t = tm_draw_x s \<and> tm_draw_y t = tm_draw_y s"

lemma quiet_trans: "quiet a b \<Longrightarrow> quiet b c \<Longrightarrow> quiet a c"
  by (auto simp: quiet_def intro: tracks_trans)

lemma quiet_same: "tm_vt t = tm_vt s \<Longrightarrow> tm_fb t = tm_fb s \<Longrightarrow> tm_draw_x t = tm_draw_x s \<Longrightarrow> tm_draw_y t = tm_draw_y s \<Longrightarrow> quiet s t"
  by (simp add: quiet_def tracks_same)

lemma feed_quiet: "feed bs s = Some t \<Longrightarrow> quiet s t \<and> tm_win t = tm_win s"
  by (auto simp: feed_def quiet_def dest: vt_feed_tracks vt_feed_text)

lemma connect_port_quiet: "connect_port junk m name fb arg timeout s = Some t \<Longrightarrow> quiet s t \<and> tm_win t = tm_win s"
  by (auto simp: connect_port_def send_out_def Let_def split: if_splits option.splits prod.splits intro!: quiet_same)

lemma local_echo_quiet:
  assumes "local_echo buf s = Some t"
  shows "quiet s t \<and> tm_win t = tm_win s"
proof (cases "buf = [0x7F]")
  case True
  then show ?thesis using assms feed_quiet by (simp add: local_echo_def feed_and_echo_def)
next
  case False
  then obtain u where u: "feed buf s = Some u" "(if buf = [0x0D] then feed [0x0A] u else Some u) = Some t"
    using assms by (auto simp: local_echo_def bind_eq_Some_conv)
  then have "quiet u t \<and> tm_win t = tm_win u" using feed_quiet by (auto simp: quiet_same split: if_splits)
  then show ?thesis using feed_quiet [OF u(1)] quiet_trans by auto
qed

lemma key_quiet: "handle_key_event junk m packed s = Some t \<Longrightarrow> quiet s t \<and> tm_win t = tm_win s"
  by (auto simp: handle_key_event_def send_out_def Let_def split: if_splits prod.splits
    intro: quiet_same dest: connect_port_quiet local_echo_quiet)

lemma data_quiet:
  assumes "port_data m s = Some t"
  shows "quiet s t \<and> tm_win t = tm_win s"
proof -
  let ?data = "case mx_obj m of WPlain (WVal (SBlob a)) \<Rightarrow> mx_data m | _ \<Rightarrow> []"
  obtain u outs where u: "(if zp_connected (tm_port s) \<and> mx_tag m = zp_conn_id (tm_port s) then feed ?data s else Some s) = Some u" "t = send_out outs u"
    using assms unfolding port_data_def Let_def by (auto simp: bind_eq_Some_conv)
  have "quiet s u \<and> tm_win u = tm_win s" using u(1) feed_quiet by (auto simp: quiet_same split: if_splits)
  moreover have "quiet u t \<and> tm_win t = tm_win u" by (simp add: u(2) send_out_def quiet_same)
  ultimately show ?thesis using quiet_trans by auto
qed

lemma set_port_quiet: "set_port junk m s = Some t \<Longrightarrow> quiet s t \<and> tm_win t = tm_win s"
  unfolding set_port_def
  by (auto split: wobj.splits wval.splits sobj.splits option.splits dest: connect_port_quiet intro: quiet_same)

lemma handle_quiet:
  assumes "term_handle junk m s = Some t"
  shows "quiet s t \<and> (mx_subject m \<notin> {Z_WM_REDRAW_SUBJECT, Z_WM_WINDOW_MOVED_SUBJECT} \<longrightarrow> tm_win t = tm_win s)"
  using assms unfolding term_handle_def
  by (auto split: if_splits prod.splits dest: key_quiet data_quiet set_port_quiet intro: quiet_same)

definition window_moved :: "term_msg list \<Rightarrow> bool" where
  "window_moved ms \<longleftrightarrow> (\<exists>m\<in>set ms. mx_subject m = Z_WM_WINDOW_MOVED_SUBJECT)"

lemma messages_quiet:
  "term_messages junk ms s = Some t \<Longrightarrow> quiet s t \<and> (\<not> got_redraw ms \<and> \<not> window_moved ms \<longrightarrow> tm_win t = tm_win s)"
proof (induction ms arbitrary: s)
  case (Cons m ms)
  then obtain u where u: "term_handle junk m s = Some u" "term_messages junk ms u = Some t" by (auto simp: bind_eq_Some_conv)
  from handle_quiet [OF u(1)] Cons.IH [OF u(2)] show ?case by (auto simp: got_redraw_def window_moved_def intro: quiet_trans)
qed (simp add: quiet_same)


lemma quiet_fit: "quiet s t \<Longrightarrow> fit s \<Longrightarrow> fit t"
  by (auto simp: quiet_def fit_def tracks_def)

lemma quiet_ready:
  assumes q: "quiet s t" and w: "tm_win t = tm_win s" and r: "ready font s"
  shows "ready font t"
proof -
  have v: "length (vt_dirty (tm_vt s)) = 25" "tracks (tm_vt s) (tm_vt t)" "tm_draw_x t = tm_draw_x s" "tm_draw_y t = tm_draw_y s" "tm_fb t = tm_fb s"
    using q r by (auto simp: quiet_def ready_def)
  have keep: "\<not> row_marked (tm_vt s) row \<and> vt_cells (tm_vt t) ! nat row = vt_cells (tm_vt s) ! nat row"
    if "0 \<le> row" "row < VT_ROWS" "\<not> row_marked (tm_vt t) row" for row
  proof -
    have "nat row < 25" using that by auto
    then show ?thesis using that v(1,2) by (auto simp: row_marked_def vt_row_dirty_def tracks_def)
  qed
  have "shows_known font t (\<lambda>p. if row_marked (tm_vt s) (fst p) then None else Some (with_cursor (tm_vt s) (tm_draw_x s, tm_draw_y s) p))"
    using r by (auto simp: ready_def intro: shows_known_cong [OF _ w v(5)])
  then have "shows_known font t (\<lambda>p. if row_marked (tm_vt t) (fst p) then None else Some (with_cursor (tm_vt t) (tm_draw_x t, tm_draw_y t) p))"
  proof (rule shows_known_mono)
    fix p assume "in_grid p"
    then have "0 \<le> fst p" "fst p < VT_ROWS" by (auto simp: in_grid_def)
    from keep [OF this] show "(if row_marked (tm_vt t) (fst p) then None else Some (with_cursor (tm_vt t) (tm_draw_x t, tm_draw_y t) p)) = None \<or>
      (if row_marked (tm_vt t) (fst p) then None else Some (with_cursor (tm_vt t) (tm_draw_x t, tm_draw_y t) p)) =
      (if row_marked (tm_vt s) (fst p) then None else Some (with_cursor (tm_vt s) (tm_draw_x s, tm_draw_y s) p))"
      by (cases "row_marked (tm_vt t) (fst p)") (simp_all add: with_cursor_def plain_def v)
  qed
  moreover have "row_marked (tm_vt t) row" if "0 \<le> row" "row < VT_ROWS" "row_marked (tm_vt s) row" for row
    using keep that by blast
  ultimately show ?thesis using r q by (auto simp: ready_def quiet_def tracks_def)
qed

lemma unmarked_ready: "fit s \<Longrightarrow> tm_draw_y s = -1 \<or> in_grid (tm_draw_y s, tm_draw_x s) \<Longrightarrow> \<forall>row. 0 \<le> row \<and> row < VT_ROWS \<longrightarrow> row_marked (tm_vt s) row \<Longrightarrow> ready font s"
  by (auto simp: ready_def fit_def shows_known_def in_grid_def)

lemma repaint_ready: "fit s \<Longrightarrow> ready font (repaint s)"
proof (rule unmarked_ready)
  assume f: "fit s"
  then show "fit (repaint s)" by (simp add: fit_def repaint_def vt_mark_all_dirty_def cells_text_def)
  show "\<forall>row. 0 \<le> row \<and> row < VT_ROWS \<longrightarrow> row_marked (tm_vt (repaint s)) row"
    by (auto simp: row_marked_def vt_row_dirty_def repaint_def vt_mark_all_dirty_def nat_less_iff)
qed (simp add: repaint_def)

text \<open>The framebuffer as the others leave it between two turns.\<close>

definition content_kept :: "z_win \<Rightarrow> vram \<Rightarrow> vram \<Rightarrow> bool" where
  "content_kept w v v' \<longleftrightarrow> (\<forall>n. on_screen n \<and> in_clip (px_col n) (px_row n) (Some (z_win_content_rect w)) \<longrightarrow> pixel n v' = pixel n v)"

lemma content_kept_shows: "content_kept (tm_win s) (tm_fb s) v \<Longrightarrow> shows_known font s k \<Longrightarrow> shows_known font (s\<lparr>tm_fb := v\<rparr>) k"
  unfolding shows_known_def cell_shows_def content_kept_def Let_def by simp

lemma turn_fit:
  assumes "term_turn junk font glyphs wm_pid ms s = Some t" "fit s"
  shows "fit t"
proof -
  obtain u r where u: "term_messages junk ms s = Some u" "render font glyphs (if got_redraw ms then repaint u else u) = Some r"
    "t = (if got_redraw ms then send_out [z_win_redraw_done wm_pid (tm_win r)] r else r)"
    using assms(1) unfolding term_turn_def by (auto simp: bind_eq_Some_conv)
  have "fit u" using messages_quiet [OF u(1)] quiet_fit assms(2) by blast
  then have "fit (if got_redraw ms then repaint u else u)" using ready_fit [OF repaint_ready] by simp
  from render_fit(1) [OF u(2) this] show ?thesis using u(3) by (simp add: send_out_def fit_def)
qed

lemma turn_shows:
  assumes f: "font_ok font glyphs" and t: "term_turn junk font glyphs wm_pid ms s = Some t" and s: "fit s"
    and ok: "got_redraw ms \<or> ready font s \<and> (\<not> window_moved ms \<or> (\<forall>row. 0 \<le> row \<and> row < VT_ROWS \<longrightarrow> row_marked (tm_vt s) row))"
  shows "ready font t \<and> shows_screen font t"
proof -
  obtain u r where u: "term_messages junk ms s = Some u" "render font glyphs (if got_redraw ms then repaint u else u) = Some r"
    "t = (if got_redraw ms then send_out [z_win_redraw_done wm_pid (tm_win r)] r else r)"
    using t unfolding term_turn_def by (auto simp: bind_eq_Some_conv)
  note q = messages_quiet [OF u(1)]
  have fu: "fit u" using q quiet_fit s by blast
  have "ready font (if got_redraw ms then repaint u else u)"
  proof (cases "got_redraw ms")
    case True
    then show ?thesis using repaint_ready [OF fu] by simp
  next
    case False
    show ?thesis
    proof (cases "window_moved ms")
      case True
      then have "\<forall>row. 0 \<le> row \<and> row < VT_ROWS \<longrightarrow> row_marked (tm_vt s) row" using ok False by blast
      moreover have "row_marked (tm_vt u) row" if "0 \<le> row" "row < VT_ROWS" "row_marked (tm_vt s) row" for row
      proof -
        have "nat row < 25" using that by auto
        then show ?thesis using that q s by (auto simp: quiet_def tracks_def fit_def row_marked_def vt_row_dirty_def)
      qed
      ultimately show ?thesis using unmarked_ready [OF fu] fu False by (auto simp: fit_def)
    next
      case False
      then show ?thesis using quiet_ready [of s u] q ok \<open>\<not> got_redraw ms\<close> by simp
    qed
  qed
  from render_shows [OF f this u(2)] show ?thesis using u(3)
    by (auto simp: send_out_def ready_def shows_screen_def shows_known_def)
qed


text \<open>
  The runs of a terminal among others: between two turns the framebuffer may change. The mark tells whether the screen is right by the
  terminal's own doing: after the first turn it is; later it is when the turn found a request to redraw, or when it was right before, the
  window has not moved, and nobody has drawn on its content.
\<close>

inductive rendered :: "(sobj \<Rightarrow> u32) \<Rightarrow> z_font \<Rightarrow> (nat \<Rightarrow> u8) \<Rightarrow> u32 \<Rightarrow> bool \<Rightarrow> terminal \<Rightarrow> bool" for junk font glyphs wm_pid where
  first_turn:
    "term_start alloc junk m win fb = Some s \<Longrightarrow> term_turn junk font glyphs wm_pid ms (s\<lparr>tm_fb := v\<rparr>) = Some t \<Longrightarrow> rendered junk font glyphs wm_pid True t"
| next_turn:
    "rendered junk font glyphs wm_pid ok s \<Longrightarrow> term_turn junk font glyphs wm_pid ms (s\<lparr>tm_fb := v\<rparr>) = Some t \<Longrightarrow>
     rendered junk font glyphs wm_pid (got_redraw ms \<or> ok \<and> \<not> window_moved ms \<and> content_kept (tm_win s) (tm_fb s) v) t"

lemma start_marked:
  assumes "term_start alloc junk m win fb = Some s"
  shows "fit (s\<lparr>tm_fb := v\<rparr>) \<and> (\<forall>row. 0 \<le> row \<and> row < VT_ROWS \<longrightarrow> row_marked (tm_vt (s\<lparr>tm_fb := v\<rparr>)) row)"
proof -
  obtain s0 where s0: "connect_port junk m ''repl0'' Z_PID_REPL SNone Z_PORT_CONNECT_TIMEOUT_TICKS s0 = Some s"
    "tm_vt s0 = vt_init" "tm_draw_y s0 = -1" using assms by (auto simp: term_start_def)
  have i: "fit s0" "\<And>row. 0 \<le> row \<and> row < VT_ROWS \<Longrightarrow> row_marked (tm_vt s0) row"
    by (auto simp: fit_def s0 vt_init_def cells_text_def row_marked_def vt_row_dirty_def nat_less_iff)
  have q: "quiet s0 s" using connect_port_quiet [OF s0(1)] by blast
  have "row_marked (tm_vt s) row" if "0 \<le> row" "row < VT_ROWS" for row
  proof -
    have "nat row < 25" using that by auto
    then show ?thesis using that q i by (auto simp: quiet_def tracks_def fit_def row_marked_def vt_row_dirty_def)
  qed
  then show ?thesis using quiet_fit [OF q i(1)] by (simp add: fit_def)
qed

lemma rendered_ready:
  assumes "rendered junk font glyphs wm_pid ok s" "font_ok font glyphs"
  shows "fit s \<and> (ok \<longrightarrow> ready font s \<and> shows_screen font s)"
  using assms
proof (induction rule: rendered.induct)
  case (first_turn alloc m win fb s ms v t)
  note m = start_marked [OF first_turn(1), of v]
  have "ready font (s\<lparr>tm_fb := v\<rparr>)" by (rule unmarked_ready) (use m in \<open>auto simp: fit_def\<close>)
  then show ?case using turn_fit [OF first_turn(2)] turn_shows [OF first_turn(3,2)] m by blast
next
  case (next_turn ok s ms v t)
  then have s: "fit s" "ok \<longrightarrow> ready font s" by auto
  then have f: "fit (s\<lparr>tm_fb := v\<rparr>)" by (simp add: fit_def)
  have "ready font (s\<lparr>tm_fb := v\<rparr>)" if "ok" "content_kept (tm_win s) (tm_fb s) v"
    using s(2) that content_kept_shows [OF that(2)] by (auto simp: ready_def cong: if_cong)
  then show ?case using turn_fit [OF next_turn(2) f] turn_shows [OF next_turn(4,2) f] by blast
qed


text \<open>A terminal that finds no provider for its port, and its first turn.\<close>

definition blank_font :: z_font where
  "blank_font = \<lparr>ft_w = 5, ft_h = 8, ft_first = 32, ft_last = 127, ft_glyphs = replicate 768 0\<rparr>"

definition no_answer :: term_msg where
  "no_answer = \<lparr>mx_from = 0, mx_subject = 0, mx_tag = 0, mx_obj = WPlain (WVal SNone), mx_data = [], mx_sent = True,
     mx_start = 0, mx_acks = [], mx_waits = [(2000, None)], mx_pid = \<lambda>_. None\<rparr>"

lemma first_turn_returns:
  "\<exists>s t. term_start alloc junk no_answer win fb = Some s \<and> term_turn junk font glyphs wm_pid [] (s\<lparr>tm_fb := v\<rparr>) = Some t"
proof -
  obtain s where s: "term_start alloc junk no_answer win fb = Some s" "tm_vt s = vt_init"
    by (auto simp: term_start_def connect_port_def no_answer_def z_port_connect_arg_timeout_def Let_def send_out_def)
  then have "in_grid (snd (cursor_cell (tm_vt s)), fst (cursor_cell (tm_vt s)))" by (simp add: vt_init_def cursor_cell_def in_grid_def)
  then have "\<exists>t. render font glyphs (s\<lparr>tm_fb := v\<rparr>) = Some t" unfolding render_unfold Let_def by simp
  then show ?thesis using s(1) by (auto simp: term_turn_def got_redraw_def)
qed

definition blank_glyphs :: "nat \<Rightarrow> u8" where
  "blank_glyphs = z_gfx_hw_font_load blank_font (\<lambda>_. 0xFF)"


end
