(* ===== verification/Xfer.thy ===== *)
theory Xfer
  imports Prelude
begin

text \<open>
  The serial upload of the kernel shell (\<open>src/sw/os/xfer.c\<close>): blocks with a checksum, answered one by one, stored one after the other.
  The input is what the polls of the serial port give, -1 when nothing has come. \<open>None\<close> is an input that ends before the loop does.
\<close>

section \<open>The checksum\<close>

definition crc_bit :: "u32 \<Rightarrow> u32" where
  "crc_bit crc = (let mask = - (crc AND 1) in drop_bit 1 crc XOR (0xedb88320 AND mask))"

definition crc_byte :: "u32 \<Rightarrow> u8 \<Rightarrow> u32" where
  "crc_byte crc b = (crc_bit ^^ 8) (crc XOR ucast b)"

definition crc32b :: "u8 list \<Rightarrow> u32" where
  "crc32b data = NOT (foldl crc_byte 0xffffffff data)"

section \<open>The receiver\<close>

abbreviation getch_EOF :: int where "getch_EOF \<equiv> -1"

fun next_char :: "int list \<Rightarrow> (u8 \<times> int list) option" where
  "next_char [] = None"
| "next_char (c # cs) = (if c = getch_EOF then next_char cs else Some (word_of_int c, cs))"

fun getchars :: "nat \<Rightarrow> int list \<Rightarrow> (u8 list \<times> int list) option" where
  "getchars 0 cs = Some ([], cs)"
| "getchars (Suc n) cs = do { (b, cs) \<leftarrow> next_char cs; (bs, cs) \<leftarrow> getchars n cs; Some (b # bs, cs) }"

lemma next_char_shorter: "next_char cs = Some (b, cs') \<Longrightarrow> length cs' < length cs"
  by (induction cs) (auto split: if_splits)

lemma getchars_shorter: "getchars n cs = Some (bs, cs') \<Longrightarrow> length cs' \<le> length cs"
proof (induction n arbitrary: cs bs)
  case (Suc n)
  then obtain b cs1 bs1 where "next_char cs = Some (b, cs1)" "getchars n cs1 = Some (bs1, cs')" by (auto split: Option.bind_splits)
  with Suc.IH next_char_shorter show ?case by fastforce
qed simp

text \<open>\<open>memcpy\<close> to an address.\<close>

fun store_bytes :: "u32 \<Rightarrow> u8 list \<Rightarrow> (u32 \<Rightarrow> u8) \<Rightarrow> u32 \<Rightarrow> u8" where
  "store_bytes addr [] mem = mem"
| "store_bytes addr (b # bs) mem = store_bytes (addr + 1) bs (mem(addr := b))"

text \<open>
  The four bytes of the checksum as the code puts them together. The block is read into a buffer of 252 bytes, two of which are its kind
  and its length: a length above 250 writes past its end, which is \<open>Inl\<close> with that length. The answers are collected.
\<close>

definition crc_theirs :: "u8 list \<Rightarrow> u32" where
  "crc_theirs buf_crc =
     ucast (buf_crc ! 0) OR push_bit 8 (ucast (buf_crc ! 1)) OR push_bit 16 (ucast (buf_crc ! 2)) OR push_bit 24 (ucast (buf_crc ! 3))"

abbreviation XFER_BUF :: nat where "XFER_BUF \<equiv> 252"
abbreviation XFER_LOAD :: u8 where "XFER_LOAD \<equiv> 0x4C"
abbreviation XFER_DONE :: u8 where "XFER_DONE \<equiv> 0x44"
abbreviation XFER_ACK :: u8 where "XFER_ACK \<equiv> 0x41"
abbreviation XFER_NAK :: u8 where "XFER_NAK \<equiv> 0x4E"

record xfer =
  xf_addr :: u32
  xf_bytes :: u32
  xf_mem :: "u32 \<Rightarrow> u8"
  xf_out :: "u8 list"

definition xfer_block :: "u8 \<Rightarrow> u8 list \<Rightarrow> u8 list \<Rightarrow> xfer \<Rightarrow> xfer" where
  "xfer_block datasize payload buf_crc x =
     (let crc_ours = crc32b (XFER_LOAD # datasize # payload) in
      if crc_ours = crc_theirs buf_crc then
        x\<lparr>xf_mem := store_bytes (xf_addr x) payload (xf_mem x), xf_addr := xf_addr x + ucast datasize, xf_bytes := xf_bytes x + ucast datasize,
          xf_out := xf_out x @ [XFER_ACK]\<rparr>
      else x\<lparr>xf_out := xf_out x @ [XFER_NAK]\<rparr>)"

function xfer_loop :: "int list \<Rightarrow> xfer \<Rightarrow> (u8 + xfer) option" where
  "xfer_loop cs x =
     (case next_char cs of
        None \<Rightarrow> None
      | Some (cmd, cs) \<Rightarrow>
          if cmd = XFER_LOAD then
            (case next_char cs of
               None \<Rightarrow> None
             | Some (datasize, cs) \<Rightarrow>
                 if 2 + unat datasize > XFER_BUF then Some (Inl datasize)
                 else
                   (case getchars (unat datasize) cs of
                      None \<Rightarrow> None
                    | Some (payload, cs) \<Rightarrow>
                        (case getchars 4 cs of
                           None \<Rightarrow> None
                         | Some (buf_crc, cs) \<Rightarrow> xfer_loop cs (xfer_block datasize payload buf_crc x))))
          else if cmd = XFER_DONE then Some (Inr x)
          else xfer_loop cs x)"
  by auto
termination
  by (relation "measure (\<lambda>(cs, x). length cs)") (auto dest!: next_char_shorter getchars_shorter)

declare xfer_loop.simps [simp del]

definition xfer_recv :: "u32 \<Rightarrow> int list \<Rightarrow> (u32 \<Rightarrow> u8) \<Rightarrow> (u8 + u32 \<times> (u32 \<Rightarrow> u8) \<times> u8 list) option" where
  "xfer_recv addr_ptr cs mem =
     map_option (map_sum id (\<lambda>x. (xf_bytes x, xf_mem x, xf_out x)))
       (xfer_loop cs \<lparr>xf_addr = addr_ptr, xf_bytes = 0, xf_mem = mem, xf_out = []\<rparr>)"

section \<open>The register is linear and injective\<close>

lemma bit_u8: "bit (b :: u8) i \<Longrightarrow> i < 8"
  by (drule bit_imp_le_length) simp

lemma bit_u32: "bit (w :: u32) i \<Longrightarrow> i < 32"
  by (drule bit_imp_le_length) simp

lemma xor_zero_eq: "(a :: 'a::len word) XOR b = 0 \<longleftrightarrow> a = b"
proof
  assume z: "a XOR b = 0"
  have "a = (a XOR b) XOR b" by (simp add: xor.assoc)
  then show "a = b" by (simp add: z)
qed simp

lemma xor_cancel: "(s :: 'a::len word) XOR a = s XOR b \<longleftrightarrow> a = b"
proof -
  have "s XOR a = s XOR b \<longleftrightarrow> (s XOR a) XOR (s XOR b) = 0" by (simp only: xor_zero_eq)
  also have "(s XOR a) XOR (s XOR b) = a XOR b" by (rule bit_word_eqI) (auto simp: bit_simps)
  finally show ?thesis by (simp only: xor_zero_eq)
qed

lemma crc_bit_cases: "crc_bit crc = drop_bit 1 crc XOR (if bit crc 0 then 0xedb88320 else 0)"
proof -
  have "crc AND 1 = (if bit crc 0 then 1 else 0)" by (simp add: and_one_eq bit_0 mod2_eq_if)
  then show ?thesis by (simp add: crc_bit_def)
qed

lemma crc_bit_xor: "crc_bit (a XOR b) = crc_bit a XOR crc_bit b"
  unfolding crc_bit_cases by (rule bit_word_eqI) (auto simp: bit_simps)

lemma crc_bit_zero [simp]: "crc_bit 0 = 0"
  by (simp add: crc_bit_cases)

lemma crc_bit_kernel: "crc_bit a = 0 \<Longrightarrow> a = 0"
proof -
  assume z: "crc_bit a = 0"
  have "bit (crc_bit a) 31 = bit a 0" unfolding crc_bit_cases using bit_u32 [of a 32] by (auto simp: bit_simps)
  with z have a: "\<not> bit a 0" by simp
  with z have d: "drop_bit 1 a = 0" by (simp add: crc_bit_cases)
  have "\<not> bit a n" for n
  proof (cases n)
    case (Suc m)
    then show ?thesis using arg_cong [OF d, of "\<lambda>w. bit w m"] by (simp add: bit_drop_bit_eq)
  qed (use a in simp)
  then show "a = 0" by (auto intro: bit_word_eqI)
qed

lemma crc_steps_xor: "(crc_bit ^^ n) (a XOR b) = (crc_bit ^^ n) a XOR (crc_bit ^^ n) b"
  by (induction n) (simp_all add: crc_bit_xor)

lemma crc_steps_zero [simp]: "(crc_bit ^^ n) 0 = 0"
  by (induction n) simp_all

lemma crc_steps_inj [simp]: "(crc_bit ^^ n) a = (crc_bit ^^ n) b \<longleftrightarrow> a = b"
proof
  have k: "(crc_bit ^^ n) c = 0 \<Longrightarrow> c = 0" for c by (induction n) (auto dest: crc_bit_kernel)
  assume "(crc_bit ^^ n) a = (crc_bit ^^ n) b"
  then have "(crc_bit ^^ n) (a XOR b) = 0" by (simp add: crc_steps_xor)
  from k [OF this] show "a = b" by (simp add: xor_zero_eq)
qed simp

text \<open>A byte that enters later could have entered at once, further up.\<close>

lemma crc_steps_push: "(\<forall>i. bit w i \<longrightarrow> i + n < 32) \<Longrightarrow> (crc_bit ^^ n) (push_bit n w) = w"
proof (induction n)
  case (Suc n)
  have "\<not> bit (push_bit (Suc n) w) 0" by (simp add: bit_push_bit_iff del: push_bit_Suc)
  moreover have "drop_bit 1 (push_bit (Suc n) w) = push_bit n w"
    by (rule bit_word_eqI) (use Suc.prems in \<open>auto simp: bit_simps simp del: push_bit_Suc\<close>)
  ultimately have "crc_bit (push_bit (Suc n) w) = push_bit n w" by (simp add: crc_bit_cases del: push_bit_Suc)
  moreover have "\<forall>i. bit w i \<longrightarrow> i + n < 32" using Suc.prems by auto
  ultimately show ?case using Suc.IH by (simp add: funpow_Suc_right del: funpow.simps push_bit_Suc)
qed simp

fun le_word :: "u8 list \<Rightarrow> u32" where
  "le_word [] = 0"
| "le_word (b # bs) = ucast b XOR push_bit 8 (le_word bs)"

lemma le_word_bits: "bit (le_word bs) i \<Longrightarrow> i < 8 * length bs"
proof (induction bs arbitrary: i)
  case (Cons b bs)
  from Cons.prems have "bit b i \<or> 8 \<le> i \<and> bit (le_word bs) (i - 8)" by (auto simp: bit_simps)
  with Cons.IH bit_u8 show ?case by fastforce
qed simp

lemma feed_bytes:
  assumes "length bs \<le> 4"
  shows "foldl crc_byte s bs = (crc_bit ^^ (8 * length bs)) (s XOR le_word bs)"
  using assms
proof (induction bs arbitrary: s)
  case (Cons b bs)
  have "\<forall>i. bit (le_word bs) i \<longrightarrow> i + 8 < 32" using le_word_bits Cons.prems by fastforce
  then have "crc_byte s b XOR le_word bs = (crc_bit ^^ 8) (s XOR le_word (b # bs))"
    by (simp add: crc_byte_def crc_steps_xor crc_steps_push xor.assoc)
  then show ?case using Cons by (simp add: funpow_add [unfolded comp_def fun_eq_iff, rule_format, symmetric] add.commute)
qed simp

lemma le_word_inj: "length bs = length bs' \<Longrightarrow> length bs \<le> 4 \<Longrightarrow> le_word bs = le_word bs' \<Longrightarrow> bs = bs'"
proof (induction bs bs' rule: list_induct2)
  case (Cons b bs b' bs')
  have eq: "bit (le_word (b # bs)) i = bit (le_word (b' # bs')) i" for i using Cons.prems by simp
  have "bit b i = bit b' i" if "i < 8" for i using that eq [of i] by (simp add: bit_simps)
  then have "b = b'" by (auto intro: bit_word_eqI)
  moreover have "bit (le_word bs) i = bit (le_word bs') i" if "i < 32" for i
  proof (cases "i < 24")
    case True
    have "\<not> bit b (i + 8)" "\<not> bit b' (i + 8)" using bit_u8 by fastforce+
    with True show ?thesis using eq [of "i + 8"] by (simp add: bit_simps)
  next
    case False
    then show ?thesis using le_word_bits [of bs i] le_word_bits [of bs' i] Cons.prems Cons.hyps by auto
  qed
  then have "le_word bs = le_word bs'" by (auto intro: bit_word_eqI)
  ultimately show ?case using Cons by simp
qed simp

lemma feed_state_inj: "foldl crc_byte s bs = foldl crc_byte s' bs \<longleftrightarrow> s = s'"
proof (induction bs arbitrary: s s')
  case (Cons b bs)
  have "(s XOR ucast b = s' XOR ucast b) = (s = s')" using xor_cancel [of "ucast b" s s'] by (simp only: xor.commute)
  then show ?case using Cons by (simp add: crc_byte_def)
qed simp

section \<open>What the checksum detects\<close>

text \<open>A change of up to four consecutive bytes.\<close>

definition burst :: "u8 list \<Rightarrow> u8 list \<Rightarrow> bool" where
  "burst bs bs' \<longleftrightarrow> (\<exists>p x x' q. bs = p @ x @ q \<and> bs' = p @ x' @ q \<and> length x' = length x \<and> length x \<le> 4 \<and> x' \<noteq> x)"

lemma burst_changes_register:
  assumes "burst bs bs'"
  shows "foldl crc_byte s bs' \<noteq> foldl crc_byte s bs"
proof -
  obtain p x x' q where b: "bs = p @ x @ q" "bs' = p @ x' @ q" "length x' = length x" "length x \<le> 4" "x' \<noteq> x"
    using assms unfolding burst_def by blast
  have "le_word x' \<noteq> le_word x" using le_word_inj [OF b(3)] b(3-5) by auto
  then show ?thesis by (simp add: b(1,2) feed_state_inj feed_bytes xor_cancel b(3,4))
qed

lemma crc_theirs_le: "crc_theirs [a, b, c, d] = le_word [a, b, c, d]"
proof (rule bit_word_eqI)
  fix n :: nat assume "n < LENGTH(32)"
  have "bit a n \<Longrightarrow> n < 8" "bit b (n - 8) \<Longrightarrow> n < 16" "bit c (n - 16) \<Longrightarrow> n < 24"
    using bit_u8 [of a n] bit_u8 [of b "n - 8"] bit_u8 [of c "n - 16"] by auto
  with \<open>n < LENGTH(32)\<close> show "bit (crc_theirs [a, b, c, d]) n = bit (le_word [a, b, c, d]) n"
    by (auto simp: crc_theirs_def bit_simps)
qed

definition crc_residue :: u32 where "crc_residue = (crc_bit ^^ 32) 0xffffffff"

lemma check_iff_residue:
  assumes "length c = 4"
  shows "crc32b m = crc_theirs c \<longleftrightarrow> foldl crc_byte 0xffffffff (m @ c) = crc_residue"
proof -
  obtain a b d e where c: "c = [a, b, d, e]" using assms by (auto simp: length_Suc_conv eval_nat_numeral)
  have "NOT r = w \<longleftrightarrow> r XOR w = 0xffffffff" for r w :: u32
  proof -
    have "(0xffffffff :: u32) = - 1" by simp
    moreover have "r XOR w = - 1 \<longleftrightarrow> r XOR w = r XOR NOT r" by simp
    ultimately show ?thesis by (metis xor_cancel)
  qed
  then show ?thesis
    using feed_bytes [of c "foldl crc_byte 0xffffffff m"] assms
    by (simp add: crc32b_def crc_residue_def c crc_theirs_le del: foldl.simps le_word.simps)
qed

section \<open>What a sender sends, and what arrives\<close>

definition crc_bytes :: "u32 \<Rightarrow> u8 list" where
  "crc_bytes w = [ucast w, ucast (drop_bit 8 w), ucast (drop_bit 16 w), ucast (drop_bit 24 w)]"

lemma length_crc_bytes [simp]: "length (crc_bytes w) = 4"
  by (simp add: crc_bytes_def)

lemma crc_bytes_theirs: "crc_theirs (crc_bytes w) = w"
proof (rule bit_word_eqI)
  fix n :: nat assume "n < LENGTH(32)"
  then consider "n < 8" | "8 \<le> n" "n < 16" | "16 \<le> n" "n < 24" | "24 \<le> n" "n < 32" by force
  then show "bit (crc_theirs (crc_bytes w)) n = bit w n"
    by cases (auto simp: crc_theirs_def crc_bytes_def bit_simps)
qed

text \<open>A block: two bytes of frame, then what the checksum protects, the payload and the checksum itself.\<close>

definition frame_head :: "u8 list \<Rightarrow> u8 list" where "frame_head payload = [XFER_LOAD, of_nat (length payload)]"

definition frame_body :: "u8 list \<Rightarrow> u8 list" where
  "frame_body payload = payload @ crc_bytes (crc32b (frame_head payload @ payload))"

text \<open>What arrives of a block: its body, or that with a burst of errors.\<close>

definition arrives :: "u8 list \<times> u8 list \<Rightarrow> bool" where
  "arrives f \<longleftrightarrow> (case f of (payload, got) \<Rightarrow> length payload \<le> 250 \<and> (got = frame_body payload \<or> burst (frame_body payload) got))"

definition wire :: "u8 list \<times> u8 list \<Rightarrow> u8 list" where "wire f = (case f of (payload, got) \<Rightarrow> frame_head payload @ got)"

text \<open>The bytes of the line among polls that find nothing.\<close>

definition polled :: "u8 list \<Rightarrow> int list \<Rightarrow> bool" where
  "polled bs cs \<longleftrightarrow> filter (\<lambda>c. c \<noteq> getch_EOF) cs = map (\<lambda>b. int (unat b)) bs"

lemma burst_length: "burst bs bs' \<Longrightarrow> length bs' = length bs"
  by (auto simp: burst_def)

lemma polled_all: "polled bs (map (\<lambda>b. int (unat b)) bs)"
proof -
  have "int (unat b) \<noteq> getch_EOF" for b :: u8 using of_nat_0_le_iff [of "unat b"] by linarith
  then show ?thesis unfolding polled_def by (induction bs) simp_all
qed

lemma polled_gap: "polled bs cs \<Longrightarrow> polled bs (-1 # cs)"
  by (simp add: polled_def)

lemma polled_next: "polled (b # bs) cs \<Longrightarrow> \<exists>cs'. next_char cs = Some (b, cs') \<and> polled bs cs'"
  by (induction cs) (auto simp: polled_def split: if_splits)

lemma polled_getchars: "polled (as @ bs) cs \<Longrightarrow> \<exists>cs'. getchars (length as) cs = Some (as, cs') \<and> polled bs cs'"
proof (induction as arbitrary: cs)
  case (Cons a as)
  then obtain cs1 where 1: "next_char cs = Some (a, cs1)" "polled (as @ bs) cs1" using polled_next by fastforce
  from Cons.IH [OF 1(2)] 1(1) show ?case by auto
qed simp

lemma check_body:
  assumes "arrives (payload, got)" "got = p @ c" "length p = length payload" "length c = 4"
  shows "crc32b (frame_head payload @ p) = crc_theirs c \<longleftrightarrow> got = frame_body payload"
proof
  assume ok: "crc32b (frame_head payload @ p) = crc_theirs c"
  have h: "foldl crc_byte 0xffffffff (frame_head payload @ frame_body payload) = crc_residue"
    using check_iff_residue [OF length_crc_bytes, of "frame_head payload @ payload" "crc32b (frame_head payload @ payload)"]
    by (simp only: crc_bytes_theirs frame_body_def append_assoc simp_thms)
  show "got = frame_body payload"
  proof (rule ccontr)
    assume "got \<noteq> frame_body payload"
    then have "burst (frame_body payload) got" using assms(1) by (simp add: arrives_def)
    from burst_changes_register [OF this, of "foldl crc_byte 0xffffffff (frame_head payload)"] h
      check_iff_residue [OF assms(4), of "frame_head payload @ p"] ok show False by (simp add: assms(2))
  qed
next
  assume "got = frame_body payload"
  then have "p = payload" "c = crc_bytes (crc32b (frame_head payload @ payload))"
    using assms(2,3) by (simp_all add: frame_body_def)
  then show "crc32b (frame_head payload @ p) = crc_theirs c" by (simp add: crc_bytes_theirs)
qed

section \<open>Receiving\<close>

definition intact :: "(u8 list \<times> u8 list) list \<Rightarrow> u8 list" where
  "intact fs = concat (map fst (filter (\<lambda>(payload, got). got = frame_body payload) fs))"

definition answers :: "(u8 list \<times> u8 list) list \<Rightarrow> u8 list" where
  "answers = map (\<lambda>(payload, got). if got = frame_body payload then XFER_ACK else XFER_NAK)"

definition received :: "(u8 list \<times> u8 list) list \<Rightarrow> xfer \<Rightarrow> xfer" where
  "received fs x =
     x\<lparr>xf_addr := xf_addr x + of_nat (length (intact fs)), xf_bytes := xf_bytes x + of_nat (length (intact fs)),
       xf_mem := store_bytes (xf_addr x) (intact fs) (xf_mem x), xf_out := xf_out x @ answers fs\<rparr>"

lemma store_append: "store_bytes addr (as @ bs) mem = store_bytes (addr + of_nat (length as)) bs (store_bytes addr as mem)"
  by (induction as arbitrary: addr mem) (simp_all add: algebra_simps)

lemma small_length: "length (payload :: u8 list) \<le> 250 \<Longrightarrow> unat (of_nat (length payload) :: u8) = length payload"
  by (simp add: unat_of_nat)

lemma ucast_length: "length (payload :: u8 list) \<le> 250 \<Longrightarrow> ucast (of_nat (length payload) :: u8) = (of_nat (length payload) :: u32)"
  by (simp add: word_unat_eq_iff unsigned_ucast_eq unat_of_nat take_bit_nat_eq_self)

lemma body_length: "length (frame_body payload) = length payload + 4"
  by (simp add: frame_body_def)

lemma xfer_loop_frame:
  assumes f: "arrives (payload, got)" and cs: "polled (wire (payload, got) @ bs) cs"
  shows "\<exists>cs'. polled bs cs' \<and> xfer_loop cs x = xfer_loop cs' (received [(payload, got)] x)"
proof -
  have len: "length payload \<le> 250" "length got = length payload + 4"
    using f burst_length [of "frame_body payload" got] by (auto simp: arrives_def body_length)
  define p c where "p = take (length payload) got" "c = drop (length payload) got"
  then have pc: "got = p @ c" "length p = length payload" "length c = 4" using len by simp_all
  have "polled (XFER_LOAD # of_nat (length payload) # p @ c @ bs) cs" using cs by (simp add: wire_def frame_head_def pc(1))
  then obtain c1 where 1: "next_char cs = Some (XFER_LOAD, c1)" "polled (of_nat (length payload) # p @ c @ bs) c1" using polled_next by blast
  then obtain c2 where 2: "next_char c1 = Some (of_nat (length payload), c2)" "polled (p @ c @ bs) c2" using polled_next by blast
  then obtain c3 where 3: "getchars (length p) c2 = Some (p, c3)" "polled (c @ bs) c3" using polled_getchars by blast
  then obtain c4 where 4: "getchars (length c) c3 = Some (c, c4)" "polled bs c4" using polled_getchars by blast
  have chk: "crc32b (XFER_LOAD # of_nat (length payload) # p) = crc_theirs c \<longleftrightarrow> got = frame_body payload"
    using check_body [OF f pc] by (simp add: frame_head_def)
  have "got = frame_body payload \<Longrightarrow> p = payload" using pc by (simp add: frame_body_def)
  then have "xfer_block (of_nat (length payload)) p c x = received [(payload, got)] x"
    using ucast_length [OF len(1)] chk by (simp add: xfer_block_def received_def intact_def answers_def)
  then have "xfer_loop cs x = xfer_loop c4 (received [(payload, got)] x)"
    using 1(1) 2(1) 3(1) 4(1) small_length [OF len(1)] len(1) pc(2,3) by (subst xfer_loop.simps) simp
  with 4(2) show ?thesis by blast
qed

lemma received_Cons: "received fs (received [f] x) = received (f # fs) x"
  by (cases f) (simp add: received_def intact_def answers_def store_append algebra_simps)

lemma xfer_loop_frames:
  assumes "\<forall>f\<in>set fs. arrives f" "polled (concat (map wire fs) @ bs) cs"
  shows "\<exists>cs'. polled bs cs' \<and> xfer_loop cs x = xfer_loop cs' (received fs x)"
  using assms
proof (induction fs arbitrary: cs x)
  case (Cons f fs)
  obtain payload got where f: "f = (payload, got)" by fastforce
  obtain cs1 where 1: "polled (concat (map wire fs) @ bs) cs1" "xfer_loop cs x = xfer_loop cs1 (received [f] x)"
    using xfer_loop_frame [of payload got "concat (map wire fs) @ bs" cs x] Cons.prems by (auto simp: f)
  from Cons.IH [OF _ 1(1), of "received [f] x"] Cons.prems(1) 1(2) show ?case by (simp add: received_Cons)
qed (auto simp: received_def intact_def answers_def)



text \<open>A length above 250 is read into the buffer all the same, past its end.\<close>

lemma xfer_overruns:
  assumes "\<forall>f\<in>set fs. arrives f" "polled (concat (map wire fs) @ [XFER_LOAD, n]) cs" "n > 250"
  shows "xfer_recv addr cs mem = Some (Inl n)"
proof -
  let ?x = "\<lparr>xf_addr = addr, xf_bytes = 0, xf_mem = mem, xf_out = []\<rparr>"
  obtain cs1 where 1: "polled [XFER_LOAD, n] cs1" "xfer_loop cs ?x = xfer_loop cs1 (received fs ?x)"
    using xfer_loop_frames [OF assms(1,2)] by blast
  then obtain cs2 where 2: "next_char cs1 = Some (XFER_LOAD, cs2)" "polled [n] cs2" using polled_next by blast
  then obtain cs3 where "next_char cs2 = Some (n, cs3)" using polled_next by blast
  moreover have "unat n > 250" using assms(3) by (simp add: word_less_nat_alt)
  ultimately show ?thesis using 1(2) 2(1) by (simp add: xfer_recv_def xfer_loop.simps [of cs1])
qed

end
