(* ===== verification/Spec2Isabelle.thy ===== *)
theory Spec2Isabelle
  imports Prelude Queue Proc Mem Msg Pidreg Hid Uart Kernel System Stream Inet Netpath Tcp Vt100 Zobj Line Port Telnet Dns Dhcp Tftp Gfx Msgwait Wm Win Terminal Xfer
begin

text \<open>
  Zeitlos, a small operating system for a RISC-V system on a chip: a development of its core logic.

  The program. A kernel (\<open>src/sw/os\<close>) runs up to sixteen processes in one physical memory. A process
  owns one block of that memory, which it sees through a hardware window at \<open>0x80000000\<close>; a timer
  interrupt switches processes; system calls are plain calls into the kernel. Processes talk through
  mailboxes whose messages point into the sender's memory and are resolved when they are read. Names
  of processes are kept in a registry, key events and serial bytes in small rings filled by
  interrupts.

  The theories, each modelling the files it names at its head:
  \<^item> \<open>Prelude\<close>: machine integers, C arrays as lists, list and option lemmas; \<open>Queue\<close>: the contract of a
    bounded queue and the two kinds of ring buffers the code uses;
  \<^item> \<open>Mem\<close> (\<open>os/mem.c\<close>): the allocator. The linked list of descriptors is refined by first fit on a list
    of regions; the locale \<open>allocator\<close> is what the kernel relies on;
  \<^item> \<open>Proc\<close>, \<open>Kernel\<close>, \<open>System\<close> (\<open>os/kernel.c\<close>, \<open>os/kernel.h\<close>): the process table; creation, start, stop, death; the
    system call and interrupt entry with the scheduler; the kernel as a transition system, its
    invariant, boot, and what a slot keeps from its past;
  \<^item> \<open>Msg\<close> (\<open>os/msg.c\<close>, \<open>common/zmsg.h\<close>): mailboxes, sending, reading, the resolution of a payload into the
    reader's scratch arrays;
  \<^item> \<open>Pidreg\<close> (\<open>os/pidreg.c\<close>), \<open>Hid\<close> (\<open>os/hid.c\<close>), \<open>Uart\<close> (\<open>os/uart.c\<close>): the name registry and the two drivers;
  \<^item> \<open>Msgwait\<close> (\<open>os/msg.c\<close>): the blocking waits of the kernel side; \<open>Xfer\<close> (\<open>os/xfer.c\<close>): the serial upload with its checksum;
  \<^item> \<open>Stream\<close> (\<open>common/zstream.c\<close>): chunks pulled over messages; \<open>Port\<close> (\<open>common/zport.c\<close>, \<open>apps/portdemo\<close>): connections whose
    data stays with the sender until it is acknowledged;
  \<^item> \<open>Zobj\<close> (\<open>common/zobj.c\<close>): the objects messages carry, refined by finite maps and lists;
  \<^item> \<open>Vt100\<close> (\<open>common/zvt100.c\<close>), \<open>Line\<close> (\<open>common/zline.c\<close>, \<open>zkbd.c\<close>): terminal emulation, line editing, key codes;
  \<^item> \<open>Inet\<close>, \<open>Netpath\<close>, \<open>Tcp\<close>, \<open>Telnet\<close>, \<open>Dns\<close>, \<open>Dhcp\<close>, \<open>Tftp\<close> (\<open>apps/net\<close>, \<open>common/zdns.c\<close>): the network process layer by layer.
    \<open>Inet\<close> has the operations of the lower layers, \<open>Netpath\<close> what they do together between two machines;
  \<^item> \<open>Gfx\<close> (\<open>common/zgfx.c\<close>): the framebuffer, and how processes share the graphics registers; \<open>Wm\<close> (\<open>apps/wm/wm.c\<close>): the window
    manager; \<open>Win\<close> (\<open>common/zwin.c\<close>): an application's side of it; \<open>Terminal\<close> (\<open>apps/term/term.c\<close>): the terminal, where keyboard, port,
    emulation, window and framebuffer meet.

  What the lemmas show. For the kernel: isolation of the processes in every reachable state, fair round robin, first fit and coalescing,
  mailboxes that lose nothing and keep their order, and the reading of a message, which returns and never writes outside the reader's
  tables. For what carries data (\<open>Uart\<close>, \<open>Stream\<close>, \<open>Port\<close>, \<open>Tcp\<close>, \<open>Telnet\<close>, \<open>Tftp\<close>, \<open>Xfer\<close>): what is delivered is what was sent, in order,
  under loss, repetition or damage as far as the code stands it. For the parsers (\<open>Inet\<close>, \<open>Dns\<close>, \<open>Dhcp\<close>): they read inside the packet and
  understand well-formed ones. For the screen (\<open>Vt100\<close>, \<open>Line\<close>, \<open>Gfx\<close>, \<open>Wm\<close>, \<open>Terminal\<close>): what is shown is what the state says, hardware and
  software drawing agree, the tables of the window manager stay consistent. Where the code falls short of its comments, a theorem
  shows the failing run.

  How the model corresponds to the code. A C struct is a record, a global the field of a state record,
  a function a definition of the same name that takes the state it reads and returns the state it
  writes; 32, 16 and 8 bit integers are words and wrap. Memory the kernel reads through a pointer is a
  function from addresses to words. A search that may never end (\<open>next_process\<close>, the walks along the
  block list) is a partial function into options, and returning is proved: under the invariants every
  allocator call returns, and the scheduler returns exactly when some process can run. The recursion
  over message payloads carries a depth bound of five, which the four scratch tables enforce: that no
  call is cut off by it is part of \<open>k_msg_read_returns\<close>. Device registers are inputs of the
  operations that read them.

  Time and other processes. A loop that polls the clock, a mailbox or a device takes the list of what it will see; the result is \<open>None\<close> when
  the list ends first, so a theorem that a call returns names the lists it returns on. The nested message handlers of the window manager
  carry as depth the number of unread messages plus one, and that this never cuts them off is part of their invariant. A write outside an array is a
  value of its own (\<open>None\<close>, a fault, an overrun), never left unspecified. What C leaves undefined, such as the type of a value read
  without a look at its tag, is a parameter (\<open>junk\<close>), as are heap addresses, the outcome of allocations and the file system.

  Not modelled. The FAT file system (\<open>os/fs/fatfs\<close>) is third-party; \<open>os/fs/fs.c\<close>, \<open>os/fsapi.c\<close> and \<open>common/zfsapp.c\<close> hand calls on to it. The
  kernel shell, its console and the boot logo (\<open>os/sh.c\<close>, \<open>kruntime.c\<close>, \<open>ui.c\<close>, \<open>logo.c\<close>) print and call what is modelled here. The Lisp
  interpreter and its interface (\<open>apps/repl\<close>, \<open>common/zlisp.c\<close>, \<open>zrepl.c\<close>) rest on a git submodule that is not there. The Ethernet drivers and the
  loop over them (\<open>apps/net/enc28j60.c\<close>, \<open>rmii_eth.c\<close>, \<open>net.c\<close>) are sequences of register accesses of devices the sources do not describe,
  and calls of the layers modelled here. The system call wrappers
  (\<open>common/zeitlos.c\<close>), the demonstrations, the first boot stage, fonts, pictures and the hardware description are left out too.
\<close>

end
